(* ===== verification/Prelude.thy ===== *)
theory Prelude
  imports Main "HOL-Library.Word"
begin

text \<open>
  Shared vocabulary of the development.

  \<^item> the machine integers of the Rust sources (\<open>u8\<close>, \<open>u16\<close>, \<open>u32\<close>, \<open>u64\<close>) are words of that
    width; \<open>usize\<close> values (lengths, offsets) are \<open>nat\<close>;
  \<^item> a Rust \<open>Result\<close> is a value of \<open>res\<close>, which has a third constructor \<open>Panic\<close> for a slice
    index out of range, a failed \<open>copy_from_slice\<close> or a failed \<open>assert!\<close>, so that
    "never panics" is a statement about the model;
  \<^item> byte buffers are lists, read with \<open>slice\<close> and written with \<open>put_slice\<close>; the total
    counterparts \<open>le_at\<close> and \<open>patch\<close> carry the proofs;
  \<^item> little-endian integers (\<open>to_le_bytes\<close>, \<open>from_le_bytes\<close>) and their round trips;
  \<^item> power-of-two masking of free-running indices.

  The collection \<open>bufs\<close> holds the rewrite rules for reads from patched buffers, \<open>res_simps\<close> the
  rules that turn checked accesses into total ones once their bounds are known, \<open>stores\<close> the rules
  that merge consecutive stores.
\<close>

unbundle bit_operations_syntax

named_theorems bufs \<open>reads from patched, sliced and concatenated buffers\<close>
named_theorems stores \<open>consecutive stores into a buffer\<close>
named_theorems res_simps \<open>checked accesses whose bounds hold\<close>

type_synonym u8 = "8 word"
type_synonym u16 = "16 word"
type_synonym u32 = "32 word"
type_synonym u64 = "64 word"
type_synonym bytes = "8 word list"

section \<open>Results with panics\<close>

datatype ('e, 'a) res = Ok 'a | Err 'e | Panic

primrec bind_res :: "('e, 'a) res \<Rightarrow> ('a \<Rightarrow> ('e, 'b) res) \<Rightarrow> ('e, 'b) res" where
  "bind_res (Ok x) f = f x"
| "bind_res (Err e) f = Err e"
| "bind_res Panic f = Panic"

primrec map_err :: "('e \<Rightarrow> 'f) \<Rightarrow> ('e, 'a) res \<Rightarrow> ('f, 'a) res" where
  "map_err g (Ok x) = Ok x"
| "map_err g (Err e) = Err (g e)"
| "map_err g Panic = Panic"

primrec is_panic :: "('e, 'a) res \<Rightarrow> bool" where
  "is_panic (Ok x) = False"
| "is_panic (Err e) = False"
| "is_panic Panic = True"

primrec is_ok :: "('e, 'a) res \<Rightarrow> bool" where
  "is_ok (Ok x) = True"
| "is_ok (Err e) = False"
| "is_ok Panic = False"

text \<open>\<open>Option::ok_or\<close>\<close>

primrec ok_or :: "'a option \<Rightarrow> 'e \<Rightarrow> ('e, 'a) res" where
  "ok_or None e = Err e"
| "ok_or (Some x) e = Ok x"

lemma is_panic_eq: "is_panic r \<longleftrightarrow> r = Panic"
  by (cases r) simp_all

lemma bind_res_eq_Ok: "bind_res r f = Ok y \<longleftrightarrow> (\<exists>x. r = Ok x \<and> f x = Ok y)"
  by (cases r) simp_all

lemma bind_res_eq_Err: "bind_res r f = Err e \<longleftrightarrow> r = Err e \<or> (\<exists>x. r = Ok x \<and> f x = Err e)"
  by (cases r) simp_all

lemma bind_res_eq_Panic: "bind_res r f = Panic \<longleftrightarrow> r = Panic \<or> (\<exists>x. r = Ok x \<and> f x = Panic)"
  by (cases r) simp_all

lemma bind_res_assoc [simp]:
  "bind_res (bind_res r f) g = bind_res r (\<lambda>x. bind_res (f x) g)"
  by (cases r) simp_all

lemma map_err_eq_Ok [simp]: "map_err g r = Ok x \<longleftrightarrow> r = Ok x"
  by (cases r) simp_all

lemma map_err_eq_Panic [simp]: "map_err g r = Panic \<longleftrightarrow> r = Panic"
  by (cases r) simp_all

lemma ok_or_eq_Ok [simp]: "ok_or m e = Ok x \<longleftrightarrow> m = Some x"
  by (cases m) simp_all

lemma ok_or_not_Panic [simp]: "ok_or m e \<noteq> Panic"
  by (cases m) simp_all

text \<open>A \<open>for\<close> loop whose body ends in \<open>?\<close>.\<close>

primrec check_all :: "('a \<Rightarrow> ('e, unit) res) \<Rightarrow> 'a list \<Rightarrow> ('e, unit) res" where
  "check_all f [] = Ok ()"
| "check_all f (x # xs) = bind_res (f x) (\<lambda>_. check_all f xs)"

lemma check_all_Ok: "check_all f xs = Ok () \<longleftrightarrow> (\<forall>x \<in> set xs. f x = Ok ())"
  by (induction xs) (auto simp: bind_res_eq_Ok)

lemma check_all_not_Panic: "(\<And>x. x \<in> set xs \<Longrightarrow> f x \<noteq> Panic) \<Longrightarrow> check_all f xs \<noteq> Panic"
  by (induction xs) (auto simp: bind_res_eq_Panic)

lemma check_all_Err: "check_all f xs = Err e \<Longrightarrow> \<exists>x \<in> set xs. f x = Err e"
  by (induction xs) (auto simp: bind_res_eq_Err)

section \<open>Buffers\<close>

text \<open>\<open>b[i..j]\<close>, \<open>b[i]\<close> and \<open>b[i..j].copy_from_slice(src)\<close>, with their panics.\<close>

definition slice :: "'a list \<Rightarrow> nat \<Rightarrow> nat \<Rightarrow> ('e, 'a list) res" where
  "slice b i j = (if i \<le> j \<and> j \<le> length b then Ok (take (j - i) (drop i b)) else Panic)"

definition index :: "'a list \<Rightarrow> nat \<Rightarrow> ('e, 'a) res" where
  "index b i = (if i < length b then Ok (b ! i) else Panic)"

definition patch :: "'a list \<Rightarrow> nat \<Rightarrow> 'a list \<Rightarrow> 'a list" where
  "patch b i src = take i b @ src @ drop (i + length src) b"

definition put_slice :: "'a list \<Rightarrow> nat \<Rightarrow> nat \<Rightarrow> 'a list \<Rightarrow> ('e, 'a list) res" where
  "put_slice b i j src =
     (if i \<le> j \<and> j \<le> length b \<and> length src = j - i then Ok (patch b i src) else Panic)"

lemma slice_Ok [res_simps]:
  "i \<le> j \<Longrightarrow> j \<le> length b \<Longrightarrow> slice b i j = Ok (take (j - i) (drop i b))"
  by (simp add: slice_def)

lemma index_Ok [res_simps]: "i < length b \<Longrightarrow> index b i = Ok (b ! i)"
  by (simp add: index_def)

lemma put_slice_Ok [res_simps]:
  "i \<le> j \<Longrightarrow> j \<le> length b \<Longrightarrow> length src = j - i \<Longrightarrow> put_slice b i j src = Ok (patch b i src)"
  by (simp add: put_slice_def)

lemma length_patch [simp, bufs]: "i + length src \<le> length b \<Longrightarrow> length (patch b i src) = length b"
  by (simp add: patch_def)

lemma patch_Nil [simp]: "patch b i [] = b"
  by (simp add: patch_def)

lemma nth_patch:
  "i + length src \<le> length b \<Longrightarrow> k < length b \<Longrightarrow>
     patch b i src ! k = (if i \<le> k \<and> k < i + length src then src ! (k - i) else b ! k)"
  by (auto simp: patch_def nth_append min_def)

text \<open>A read of a window \<open>[a, a + n)\<close> that avoids, or lies inside, the patched range.\<close>

lemma take_drop_patch_before [bufs]:
  "i + length src \<le> length b \<Longrightarrow> a + n \<le> i \<Longrightarrow>
     take n (drop a (patch b i src)) = take n (drop a b)"
  by (rule nth_equalityI) (auto simp: nth_patch)

lemma take_drop_patch_after [bufs]:
  "i + length src \<le> length b \<Longrightarrow> i + length src \<le> a \<Longrightarrow>
     take n (drop a (patch b i src)) = take n (drop a b)"
  by (rule nth_equalityI) (auto simp: nth_patch)

lemma take_drop_patch_inside [bufs]:
  "i + length src \<le> length b \<Longrightarrow> i \<le> a \<Longrightarrow> a + n \<le> i + length src \<Longrightarrow>
     take n (drop a (patch b i src)) = take n (drop (a - i) src)"
  by (rule nth_equalityI) (auto simp: nth_patch)

lemma take_patch_before: "i + length src \<le> length b \<Longrightarrow> n \<le> i \<Longrightarrow> take n (patch b i src) = take n b"
  using take_drop_patch_before [of i src b 0 n] by simp

lemma patch_self: "i + n \<le> length b \<Longrightarrow> patch b i (take n (drop i b)) = b"
  by (rule nth_equalityI) (auto simp: nth_patch)

lemma patch_whole: "length src = length b \<Longrightarrow> patch b 0 src = src"
  by (simp add: patch_def)

lemma patch_patch_same [simp]:
  "length s = length t \<Longrightarrow> i + length s \<le> length b \<Longrightarrow> patch (patch b i s) i t = patch b i t"
  by (rule nth_equalityI) (auto simp: nth_patch)

lemma patch_patch_longer:
  "length s \<le> length t \<Longrightarrow> i + length t \<le> length b \<Longrightarrow> patch (patch b i s) i t = patch b i t"
  by (rule nth_equalityI) (auto simp: nth_patch)

text \<open>Patching inside a window is patching the window.\<close>

lemma window_patch:
  "i + length src \<le> n \<Longrightarrow> a + n \<le> length b \<Longrightarrow>
     take n (drop a (patch b (a + i) src)) = patch (take n (drop a b)) i src"
  by (rule nth_equalityI) (auto simp: nth_patch)

lemma take_patch_0 [simp]: "take (length src) (patch b 0 src) = src"
  by (simp add: patch_def)

lemma drop_patch_0: "n = length src \<Longrightarrow> drop n (patch b 0 src) = drop n b"
  by (simp add: patch_def)

section \<open>Little-endian integers\<close>

text \<open>
  \<open>to_le_bytes n w\<close> are the low \<open>n\<close> bytes of \<open>w\<close>, least significant first
  (\<open>u16::to_le_bytes\<close> is \<open>n = 2\<close>, and so on); \<open>from_le_bytes\<close> reads them back.
\<close>

primrec to_le_bytes :: "nat \<Rightarrow> 'a::len word \<Rightarrow> bytes" where
  "to_le_bytes 0 w = []"
| "to_le_bytes (Suc n) w = ucast w # to_le_bytes n (drop_bit 8 w)"

primrec from_le_bytes :: "bytes \<Rightarrow> 'a::len word" where
  "from_le_bytes [] = 0"
| "from_le_bytes (b # bs) = ucast b OR push_bit 8 (from_le_bytes bs)"

lemma length_to_le_bytes [simp, bufs]: "length (to_le_bytes n w) = n"
  by (induction n arbitrary: w) simp_all

lemma bit_from_le_to_le:
  fixes w :: "'a::len word"
  shows "bit (from_le_bytes (to_le_bytes n w) :: 'a word) k \<longleftrightarrow> bit w k \<and> k < 8 * n"
proof (induction n arbitrary: w k)
  case 0
  then show ?case by simp
next
  case (Suc n)
  show ?case
  proof (cases "k < 8")
    case True
    then show ?thesis
      by (auto simp: bit_simps dest: bit_imp_le_length)
  next
    case False
    then have "8 + (k - 8) = k" by simp
    with False show ?thesis
      using bit_imp_le_length [of w k]
      by (auto simp: bit_simps Suc.IH dest: bit_imp_le_length)
  qed
qed

lemma from_le_to_le [simp]:
  fixes w :: "'a::len word"
  assumes "LENGTH('a) \<le> 8 * n"
  shows "from_le_bytes (to_le_bytes n w) = w"
proof (rule bit_word_eqI)
  fix k assume "k < LENGTH('a)"
  with assms show "bit (from_le_bytes (to_le_bytes n w) :: 'a word) k \<longleftrightarrow> bit w k"
    by (simp add: bit_from_le_to_le)
qed

lemma to_le_from_le [simp]:
  "8 * length bs \<le> LENGTH('a) \<Longrightarrow> to_le_bytes (length bs) (from_le_bytes bs :: 'a::len word) = bs"
proof (induction bs)
  case Nil
  then show ?case by simp
next
  case (Cons b bs)
  let ?w = "from_le_bytes bs :: 'a word"
  have low: "(ucast (ucast b OR push_bit 8 ?w :: 'a word) :: u8) = b"
    using Cons.prems by (intro bit_word_eqI) (auto simp: bit_simps)
  have len: "bit ?w k \<Longrightarrow> k + 8 < LENGTH('a)" for k
  proof -
    assume "bit ?w k"
    with Cons have "bit (from_le_bytes (to_le_bytes (length bs) ?w) :: 'a word) k"
      by simp
    then have "k < 8 * length bs" by (simp add: bit_from_le_to_le)
    with Cons.prems show ?thesis by simp
  qed
  have high: "drop_bit 8 (ucast b OR push_bit 8 ?w :: 'a word) = ?w"
    by (rule bit_word_eqI) (auto simp: bit_simps dest: bit_imp_le_length len)
  have "to_le_bytes (length bs) (drop_bit 8 (ucast b OR push_bit 8 ?w :: 'a word)) = bs"
    unfolding high using Cons by simp
  with low show ?case by simp
qed

text \<open>The integer at an offset: the checked access and its total counterpart.\<close>

definition get_le :: "nat \<Rightarrow> bytes \<Rightarrow> nat \<Rightarrow> ('e, 'a::len word) res" where
  "get_le n b i = bind_res (slice b i (i + n)) (\<lambda>s. Ok (from_le_bytes s))"

definition le_at :: "nat \<Rightarrow> bytes \<Rightarrow> nat \<Rightarrow> 'a::len word" where
  "le_at n b i = from_le_bytes (take n (drop i b))"

definition put_le :: "nat \<Rightarrow> bytes \<Rightarrow> nat \<Rightarrow> 'a::len word \<Rightarrow> ('e, bytes) res" where
  "put_le n b i w = put_slice b i (i + n) (to_le_bytes n w)"

lemma get_le_Ok [res_simps]: "i + n \<le> length b \<Longrightarrow> get_le n b i = Ok (le_at n b i)"
  by (simp add: get_le_def le_at_def slice_def)

lemma put_le_Ok [res_simps]:
  "i + n \<le> length b \<Longrightarrow> put_le n b i w = Ok (patch b i (to_le_bytes n w))"
  by (simp add: put_le_def put_slice_def)

lemma le_at_patch_same [bufs]:
  fixes w :: "'a::len word"
  assumes "i + n \<le> length b" and "LENGTH('a) \<le> 8 * n"
  shows "le_at n (patch b i (to_le_bytes n w)) i = w"
  using assms by (simp add: le_at_def bufs)

lemma le_at_patch_before [bufs]:
  "i + length src \<le> length b \<Longrightarrow> a + n \<le> i \<Longrightarrow> le_at n (patch b i src) a = le_at n b a"
  by (simp add: le_at_def bufs)

lemma le_at_patch_after [bufs]:
  "i + length src \<le> length b \<Longrightarrow> i + length src \<le> a \<Longrightarrow> le_at n (patch b i src) a = le_at n b a"
  by (simp add: le_at_def bufs)

lemma le_at_patch_inside [bufs]:
  "i + length src \<le> length b \<Longrightarrow> i \<le> a \<Longrightarrow> a + n \<le> i + length src \<Longrightarrow>
     le_at n (patch b i src) a = le_at n src (a - i)"
  by (simp add: le_at_def bufs)

lemma le_at_drop [bufs]: "le_at n (drop k b) a = le_at n b (k + a)"
  by (simp add: le_at_def add.commute)

lemma le_at_take [bufs]: "a + n \<le> k \<Longrightarrow> le_at n (take k b) a = le_at n b a"
  by (simp add: le_at_def drop_take min_def)

lemma le_at_take_cong: "take k b = take k c \<Longrightarrow> i + n \<le> k \<Longrightarrow> le_at n b i = le_at n c i"
  using le_at_take [of i n k b] le_at_take [of i n k c] by metis

lemma le_at_append_left [bufs]: "i + n \<le> length xs \<Longrightarrow> le_at n (xs @ ys) i = le_at n xs i"
  by (simp add: le_at_def)

lemma le_at_append_right [bufs]: "length xs \<le> i \<Longrightarrow> le_at n (xs @ ys) i = le_at n ys (i - length xs)"
  by (simp add: le_at_def)

lemma le_at_Cons [bufs]: "0 < i \<Longrightarrow> le_at n (x # xs) i = le_at n xs (i - 1)"
  by (simp add: le_at_def drop_Cons')

lemma le_at_to_le_bytes [bufs]:
  "LENGTH('a) \<le> 8 * n \<Longrightarrow> le_at n (to_le_bytes n (w :: 'a::len word)) 0 = w"
  by (simp add: le_at_def)

lemma nth_patch_outside [bufs]:
  "i + length src \<le> length b \<Longrightarrow> k < length b \<Longrightarrow> k < i \<or> i + length src \<le> k \<Longrightarrow>
     patch b i src ! k = b ! k"
  by (auto simp: nth_patch)

lemma nth_patch_inside [bufs]:
  "i + length src \<le> length b \<Longrightarrow> i \<le> k \<Longrightarrow> k < i + length src \<Longrightarrow> patch b i src ! k = src ! (k - i)"
  by (simp add: nth_patch)

lemma patch_adjacent:
  "i + length s + length t \<le> length b \<Longrightarrow> patch (patch b i s) (i + length s) t = patch b i (s @ t)"
  by (rule nth_equalityI) (auto simp: nth_patch nth_append)

text \<open>Consecutive stores merge into one; the collection \<open>stores\<close> normalises an encoder's body.\<close>

lemma patch_append [stores]:
  "j = i + length s \<Longrightarrow> j + length t \<le> length b \<Longrightarrow> patch (patch b i s) j t = patch b i (s @ t)"
  using patch_adjacent [of i s t b] by simp

lemma to_le_bytes_le_at:
  "i + n \<le> length b \<Longrightarrow> 8 * n \<le> LENGTH('a) \<Longrightarrow>
     to_le_bytes n (le_at n b i :: 'a::len word) = take n (drop i b)"
  using to_le_from_le [of "take n (drop i b)", where 'a = 'a] by (simp add: le_at_def)

text \<open>A buffer is the concatenation of the integers read from it.\<close>

lemma le_collapse:
  assumes "j = i + n" and "i + n \<le> length b" and "8 * n \<le> LENGTH('a)"
  shows "to_le_bytes n (le_at n b i :: 'a::len word) @ drop j b = drop i b"
  using assms append_take_drop_id [of n "drop i b"] by (simp add: to_le_bytes_le_at add.commute)

section \<open>Power-of-two sizes\<close>

definition is_power_of_two :: "'a::len word \<Rightarrow> bool" where
  "is_power_of_two w \<longleftrightarrow> list_ex (\<lambda>k. w = push_bit k 1) [0..<LENGTH('a)]"

lemma unat_two_power [simp]: "k < LENGTH('a) \<Longrightarrow> unat (2 ^ k :: 'a::len word) = 2 ^ k"
proof -
  assume "k < LENGTH('a)"
  then have "(2::nat) ^ k < 2 ^ LENGTH('a)" by simp
  moreover have "(2 ^ k :: 'a word) = word_of_nat (2 ^ k)" by simp
  ultimately show ?thesis by (simp only: unat_of_nat mod_less)
qed

lemma is_power_of_two_iff:
  fixes w :: "'a::len word"
  shows "is_power_of_two w \<longleftrightarrow> (\<exists>k < LENGTH('a). unat w = 2 ^ k)"
proof -
  have "w = push_bit k 1 \<longleftrightarrow> unat w = 2 ^ k" if "k < LENGTH('a)" for k
    using that by (simp add: push_bit_eq_mult word_unat_eq_iff)
  then show ?thesis
    by (auto simp: is_power_of_two_def list_ex_iff)
qed

lemma is_power_of_twoI: "unat w = 2 ^ k \<Longrightarrow> k < LENGTH('a) \<Longrightarrow> is_power_of_two (w :: 'a::len word)"
  by (auto simp: is_power_of_two_iff)

lemma pow2_sizes:
  "is_power_of_two (8 :: 32 word)" "is_power_of_two (0x1000 :: 32 word)" "is_power_of_two (0x2000 :: 32 word)"
  "is_power_of_two (0x4000 :: 32 word)" "is_power_of_two (0x10000 :: 32 word)" "is_power_of_two (0x100000 :: 32 word)"
  by (rule is_power_of_twoI [where k = 3], simp, simp, rule is_power_of_twoI [where k = 12], simp, simp,
      rule is_power_of_twoI [where k = 13], simp, simp, rule is_power_of_twoI [where k = 14], simp, simp,
      rule is_power_of_twoI [where k = 16], simp, simp, rule is_power_of_twoI [where k = 20], simp, simp)

lemma unat_and_mask_pow2:
  fixes x w :: "'a::len word"
  assumes "is_power_of_two w"
  shows "unat (x AND (w - 1)) = unat x mod unat w"
proof -
  from assms obtain k where k: "k < LENGTH('a)" and w: "unat w = 2 ^ k"
    by (auto simp: is_power_of_two_iff)
  have "w = 2 ^ k"
    using k w by (simp add: word_unat_eq_iff)
  then have "x AND (w - 1) = take_bit k x"
    by (simp add: take_bit_eq_mask mask_eq_decr_exp)
  then have "unat (x AND (w - 1)) = take_bit k (unat x)"
    by (simp only: unsigned_take_bit_eq)
  then show ?thesis
    by (simp only: w take_bit_eq_mod)
qed

lemma unat_sub_word: "b \<le> a \<Longrightarrow> unat (a - b) = unat a - unat (b :: 'a::len word)"
  by (rule unat_sub)

lemma unat_add_no_wrap:
  fixes a b :: "'a::len word"
  shows "unat a + unat b < 2 ^ LENGTH('a) \<Longrightarrow> unat (a + b) = unat a + unat b"
  by (simp add: unat_word_ariths)

section \<open>Saturating counters\<close>

definition saturating_add :: "'a::len word \<Rightarrow> 'a word \<Rightarrow> 'a word" where
  "saturating_add a b = (if unat a + unat b < 2 ^ LENGTH('a) then a + b else - 1)"

lemma unat_minus_one: "unat (- 1 :: 'a::len word) = 2 ^ LENGTH('a) - 1"
  by (simp add: unsigned_minus_1_eq_mask mask_eq_exp_minus_1)

lemma unat_saturating_add:
  "unat (saturating_add a (b :: 'a::len word)) = min (unat a + unat b) (2 ^ LENGTH('a) - 1)"
  using unsigned_less [of a]
  by (auto simp: saturating_add_def unat_word_ariths unat_minus_one)

lemma saturating_step:
  fixes a :: "'a::len word"
  assumes "unat a = min n (2 ^ LENGTH('a) - 1)"
  shows "unat (saturating_add a 1) = min (Suc n) (2 ^ LENGTH('a) - 1)"
  using assms by (auto simp: unat_saturating_add)

end
