(* ===== verification/Wire_Record.thy ===== *)
theory Wire_Record
  imports Prelude
begin

text \<open>
  Record framing: \<^verbatim>\<open>crates/detguest-wire/src/record.rs\<close> and the error types of
  \<^verbatim>\<open>crates/detguest-wire/src/lib.rs\<close>. Every ring record starts with this header; the kind byte is
  read in the namespace of its ring. The lemmas give the exact framing rule the decoder enforces,
  the header round trip, and the in-bounds payload window every payload decoder relies on.
\<close>

section \<open>Error types (lib.rs)\<close>

datatype decode_error = Truncated | BadLen | UnknownKind u8 | BadField | BadMagic | BadVersion

datatype encode_error = BufferTooSmall | FieldTooLong | SeqlockMisuse

section \<open>Sizes and flags\<close>

definition RECORD_HEADER_LEN :: nat where [simp]: "RECORD_HEADER_LEN = 16"
definition MIN_RECORD_LEN :: nat where [simp]: "MIN_RECORD_LEN = 16"
definition MAX_RECORD_LEN :: nat where [simp]: "MAX_RECORD_LEN = 4096"
definition RECORD_ALIGN :: nat where [simp]: "RECORD_ALIGN = 8"
definition PAD_MIN_LEN :: nat where [simp]: "PAD_MIN_LEN = 8"
definition FLAG_TRUNCATED :: u8 where [simp]: "FLAG_TRUNCATED = push_bit 0 1"
definition FLAG_REACHABLE_DECL :: u8 where [simp]: "FLAG_REACHABLE_DECL = push_bit 1 1"

text \<open>\<open>(n + 7) & !7\<close> on a length: clear the three low bits.\<close>

definition pad8 :: "nat \<Rightarrow> nat" where
  "pad8 n = (n + (RECORD_ALIGN - 1)) div RECORD_ALIGN * RECORD_ALIGN"

definition record_len :: "nat \<Rightarrow> nat" where
  "record_len payload_len = RECORD_HEADER_LEN + pad8 payload_len"

lemma pad8_ge: "n \<le> pad8 n" and pad8_less: "pad8 n < n + 8" and pad8_dvd: "8 dvd pad8 n"
  by (auto simp: pad8_def)

lemma record_len_bounds:
  "16 \<le> record_len n" "n + 16 \<le> record_len n" "record_len n < n + 24" "8 dvd record_len n"
  using pad8_ge [of n] pad8_less [of n] pad8_dvd [of n]
  by (simp_all add: record_len_def)

section \<open>Kinds\<close>

datatype event_kind =
    EK_Pad | EK_Hello | EK_NameIntern | EK_AssertViolation | EK_Reachable | EK_Beacon
  | EK_InjectQuery | EK_RegionRegister | EK_RegionUpdate | EK_WorkloadStarted | EK_WorkloadExited
  | EK_LogLine | EK_QuiesceReady | EK_FrameMark | EK_Ready

definition EventKind_as_u8 :: "event_kind \<Rightarrow> u8" where
  "EventKind_as_u8 k =
     (case k of EK_Pad \<Rightarrow> 0 | EK_Hello \<Rightarrow> 1 | EK_NameIntern \<Rightarrow> 2 | EK_AssertViolation \<Rightarrow> 3
      | EK_Reachable \<Rightarrow> 4 | EK_Beacon \<Rightarrow> 5 | EK_InjectQuery \<Rightarrow> 6 | EK_RegionRegister \<Rightarrow> 7
      | EK_RegionUpdate \<Rightarrow> 8 | EK_WorkloadStarted \<Rightarrow> 9 | EK_WorkloadExited \<Rightarrow> 10 | EK_LogLine \<Rightarrow> 11
      | EK_QuiesceReady \<Rightarrow> 12 | EK_FrameMark \<Rightarrow> 13 | EK_Ready \<Rightarrow> 14)"

definition EventKind_from_u8 :: "u8 \<Rightarrow> event_kind option" where
  "EventKind_from_u8 v =
     (if v = 0 then Some EK_Pad
      else if v = 1 then Some EK_Hello
      else if v = 2 then Some EK_NameIntern
      else if v = 3 then Some EK_AssertViolation
      else if v = 4 then Some EK_Reachable
      else if v = 5 then Some EK_Beacon
      else if v = 6 then Some EK_InjectQuery
      else if v = 7 then Some EK_RegionRegister
      else if v = 8 then Some EK_RegionUpdate
      else if v = 9 then Some EK_WorkloadStarted
      else if v = 10 then Some EK_WorkloadExited
      else if v = 11 then Some EK_LogLine
      else if v = 12 then Some EK_QuiesceReady
      else if v = 13 then Some EK_FrameMark
      else if v = 14 then Some EK_Ready
      else None)"

definition EventKind_is_critical :: "event_kind \<Rightarrow> bool" where
  "EventKind_is_critical k \<longleftrightarrow> \<not> (k = EK_Pad \<or> k = EK_Beacon \<or> k = EK_LogLine)"

datatype command_kind =
    CK_StartWorkload | CK_Quiesce | CK_Resume | CK_Shutdown | CK_SetLogMask | CK_ReverifyRegions

definition CommandKind_as_u8 :: "command_kind \<Rightarrow> u8" where
  "CommandKind_as_u8 k =
     (case k of CK_StartWorkload \<Rightarrow> 1 | CK_Quiesce \<Rightarrow> 2 | CK_Resume \<Rightarrow> 3 | CK_Shutdown \<Rightarrow> 4
      | CK_SetLogMask \<Rightarrow> 5 | CK_ReverifyRegions \<Rightarrow> 6)"

definition CommandKind_from_u8 :: "u8 \<Rightarrow> command_kind option" where
  "CommandKind_from_u8 v =
     (if v = 1 then Some CK_StartWorkload
      else if v = 2 then Some CK_Quiesce
      else if v = 3 then Some CK_Resume
      else if v = 4 then Some CK_Shutdown
      else if v = 5 then Some CK_SetLogMask
      else if v = 6 then Some CK_ReverifyRegions
      else None)"

datatype workload_ctrl_kind = WK_QuiesceReq | WK_Resume

definition WorkloadCtrlKind_as_u8 :: "workload_ctrl_kind \<Rightarrow> u8" where
  "WorkloadCtrlKind_as_u8 k = (case k of WK_QuiesceReq \<Rightarrow> 2 | WK_Resume \<Rightarrow> 3)"

definition WorkloadCtrlKind_from_u8 :: "u8 \<Rightarrow> workload_ctrl_kind option" where
  "WorkloadCtrlKind_from_u8 v =
     (if v = 2 then Some WK_QuiesceReq
      else if v = 3 then Some WK_Resume
      else None)"

lemma EventKind_round_trip [simp]: "EventKind_from_u8 (EventKind_as_u8 k) = Some k"
  by (cases k) (simp_all add: EventKind_from_u8_def EventKind_as_u8_def)

lemma CommandKind_round_trip [simp]: "CommandKind_from_u8 (CommandKind_as_u8 k) = Some k"
  by (cases k) (simp_all add: CommandKind_from_u8_def CommandKind_as_u8_def)

lemma WorkloadCtrlKind_round_trip [simp]:
  "WorkloadCtrlKind_from_u8 (WorkloadCtrlKind_as_u8 k) = Some k"
  by (cases k) (simp_all add: WorkloadCtrlKind_from_u8_def WorkloadCtrlKind_as_u8_def)

lemma EventKind_as_u8_eq_0 [simp]: "EventKind_as_u8 k = 0 \<longleftrightarrow> k = EK_Pad"
  by (cases k) (simp_all add: EventKind_as_u8_def)

lemma CommandKind_as_u8_neq_0 [simp]: "CommandKind_as_u8 k \<noteq> 0"
  by (cases k) (simp_all add: CommandKind_as_u8_def)

lemma WorkloadCtrlKind_as_u8_neq_0 [simp]: "WorkloadCtrlKind_as_u8 k \<noteq> 0"
  by (cases k) (simp_all add: WorkloadCtrlKind_as_u8_def)

lemma EventKind_from_u8_Some: "EventKind_from_u8 v = Some k \<Longrightarrow> EventKind_as_u8 k = v"
  by (auto simp: EventKind_from_u8_def EventKind_as_u8_def split: if_splits)

section \<open>The record header\<close>

record record_header =
  rh_len :: u16
  rh_kind :: u8
  rh_flags :: u8
  rh_seq :: u32
  rh_vnanos :: u64

definition RecordHeader_write_to :: "record_header \<Rightarrow> bytes \<Rightarrow> (encode_error, bytes) res" where
  "RecordHeader_write_to self buf =
     (let hdr = min (unat (rh_len self)) RECORD_HEADER_LEN
      in if length buf < hdr then Err BufferTooSmall
         else bind_res (put_le 2 buf 0 (rh_len self)) (\<lambda>buf.
              bind_res (put_slice buf 2 3 [rh_kind self]) (\<lambda>buf.
              bind_res (put_slice buf 3 4 [rh_flags self]) (\<lambda>buf.
              bind_res (put_le 4 buf 4 (rh_seq self)) (\<lambda>buf.
              if hdr = RECORD_HEADER_LEN then put_le 8 buf 8 (rh_vnanos self) else Ok buf)))))"

definition RecordHeader_read_from :: "bytes \<Rightarrow> (decode_error, record_header) res" where
  "RecordHeader_read_from buf =
     (if length buf < PAD_MIN_LEN then Err Truncated
      else bind_res (get_le 2 buf 0) (\<lambda>len :: u16.
           bind_res (index buf 2) (\<lambda>kind.
           bind_res (index buf 3) (\<lambda>flags.
           bind_res (get_le 4 buf 4) (\<lambda>seq.
           let l = unat len
           in if l mod RECORD_ALIGN \<noteq> 0 \<or> l > MAX_RECORD_LEN then Err BadLen
              else let min = (if kind = EventKind_as_u8 EK_Pad then PAD_MIN_LEN else MIN_RECORD_LEN)
              in if l < min then Err BadLen
                 else if l > length buf then Err Truncated
                 else bind_res (if l \<ge> RECORD_HEADER_LEN then get_le 8 buf 8 else Ok 0) (\<lambda>vnanos.
                      Ok \<lparr>rh_len = len, rh_kind = kind, rh_flags = flags, rh_seq = seq,
                          rh_vnanos = vnanos\<rparr>))))))"

definition payload_range :: "record_header \<Rightarrow> nat \<times> nat" where
  "payload_range self =
     (let l = unat (rh_len self)
      in if l \<le> RECORD_HEADER_LEN then (l, l) else (RECORD_HEADER_LEN, l))"

definition encode_pad :: "bytes \<Rightarrow> nat \<Rightarrow> u32 \<Rightarrow> (encode_error, bytes \<times> nat) res" where
  "encode_pad buf tail_len seq =
     (if length buf < tail_len \<or> tail_len > 0xFFFF then Err BufferTooSmall
      else let hdr = \<lparr>rh_len = of_nat tail_len, rh_kind = EventKind_as_u8 EK_Pad, rh_flags = 0,
                      rh_seq = seq, rh_vnanos = 0\<rparr>
      in bind_res (put_slice buf 0 tail_len (replicate tail_len 0)) (\<lambda>buf.
         bind_res (RecordHeader_write_to hdr buf) (\<lambda>buf.
         Ok (buf, tail_len))))"


section \<open>Framing\<close>

text \<open>What a length field must satisfy, for a record of that kind inside \<open>n\<close> bytes.\<close>

definition framed :: "u16 \<Rightarrow> u8 \<Rightarrow> nat \<Rightarrow> bool" where
  "framed len kind n \<longleftrightarrow>
     unat len mod 8 = 0 \<and> (if kind = 0 then 8 else 16) \<le> unat len \<and> unat len \<le> 4096 \<and> unat len \<le> n"

definition header_framed :: "record_header \<Rightarrow> bool" where
  "header_framed h \<longleftrightarrow>
     framed (rh_len h) (rh_kind h) (unat (rh_len h)) \<and> (unat (rh_len h) < 16 \<longrightarrow> rh_vnanos h = 0)"

definition header_at :: "bytes \<Rightarrow> record_header" where
  "header_at buf =
     \<lparr>rh_len = le_at 2 buf 0, rh_kind = buf ! 2, rh_flags = buf ! 3, rh_seq = le_at 4 buf 4,
      rh_vnanos = (if 16 \<le> unat (le_at 2 buf 0 :: u16) then le_at 8 buf 8 else 0)\<rparr>"

lemma EK_Pad_0 [simp]: "EventKind_as_u8 EK_Pad = 0"
  by (simp add: EventKind_as_u8_def)

lemma read_from_eq:
  "RecordHeader_read_from buf =
     (if length buf < 8 then Err Truncated
      else let l = unat (le_at 2 buf 0 :: u16)
           in if l mod 8 \<noteq> 0 \<or> 4096 < l \<or> l < (if buf ! 2 = 0 then 8 else 16) then Err BadLen
              else if length buf < l then Err Truncated
              else Ok (header_at buf))"
  by (simp add: RecordHeader_read_from_def res_simps header_at_def Let_def)

lemma read_from_Ok_iff:
  "RecordHeader_read_from buf = Ok h \<longleftrightarrow>
     8 \<le> length buf \<and> framed (le_at 2 buf 0) (buf ! 2) (length buf) \<and> h = header_at buf"
  by (auto simp: read_from_eq framed_def Let_def)

lemma read_from_not_Panic: "RecordHeader_read_from buf \<noteq> Panic"
  by (simp add: read_from_eq Let_def)

lemma read_from_header_framed: "RecordHeader_read_from buf = Ok h \<Longrightarrow> header_framed h"
  by (auto simp: read_from_Ok_iff framed_def header_framed_def header_at_def)

lemma read_from_len:
  "RecordHeader_read_from buf = Ok h \<Longrightarrow> 8 \<le> unat (rh_len h) \<and> unat (rh_len h) \<le> length buf"
  by (auto simp: read_from_Ok_iff framed_def header_at_def split: if_splits)

text \<open>The decoder only looks at the record itself: trailing bytes do not matter.\<close>

lemma read_from_take:
  assumes "RecordHeader_read_from buf = Ok h"
  shows "RecordHeader_read_from (take (unat (rh_len h)) buf) = Ok h"
proof -
  let ?l = "unat (le_at 2 buf 0 :: u16)"
  from assms have f: "8 \<le> length buf" "framed (le_at 2 buf 0) (buf ! 2) (length buf)" "h = header_at buf"
    by (auto simp: read_from_Ok_iff)
  then have l: "8 \<le> ?l" "?l \<le> length buf" by (auto simp: framed_def split: if_splits)
  then have "header_at (take ?l buf) = header_at buf"
    by (simp add: header_at_def bufs)
  with f l show ?thesis
    by (simp add: read_from_Ok_iff header_at_def framed_def bufs)
qed

section \<open>Writing headers\<close>

definition header_bytes :: "record_header \<Rightarrow> bytes" where
  "header_bytes h = to_le_bytes 2 (rh_len h) @ [rh_kind h, rh_flags h] @ to_le_bytes 4 (rh_seq h)
     @ (if 16 \<le> unat (rh_len h) then to_le_bytes 8 (rh_vnanos h) else [])"

lemma length_header_bytes: "length (header_bytes h) = (if 16 \<le> unat (rh_len h) then 16 else 8)"
  by (simp add: header_bytes_def)

lemma write_to_eq:
  assumes "8 \<le> unat (rh_len h)" and "min (unat (rh_len h)) 16 \<le> length buf"
  shows "RecordHeader_write_to h buf = Ok (patch buf 0 (header_bytes h))"
proof -
  have adj: "patch (patch buf 0 s) (length s) t = patch buf 0 (s @ t)"
    if "length s + length t \<le> length buf" for s t
    using patch_adjacent [of 0 s t buf] that by simp
  have p3: "patch (patch buf 0 (to_le_bytes 2 (rh_len h))) 2 [k] = patch buf 0 (to_le_bytes 2 (rh_len h) @ [k])" for k
    using adj [of "to_le_bytes 2 (rh_len h)" "[k]"] assms by simp
  have p4: "patch (patch buf 0 (to_le_bytes 2 (rh_len h) @ [k])) 3 [f]
      = patch buf 0 (to_le_bytes 2 (rh_len h) @ [k, f])" for k f
    using adj [of "to_le_bytes 2 (rh_len h) @ [k]" "[f]"] assms by simp
  have p8: "patch (patch buf 0 (to_le_bytes 2 (rh_len h) @ [k, f])) 4 (to_le_bytes 4 s)
      = patch buf 0 (to_le_bytes 2 (rh_len h) @ [k, f] @ to_le_bytes 4 s)" for k f and s :: u32
    using adj [of "to_le_bytes 2 (rh_len h) @ [k, f]" "to_le_bytes 4 s"] assms by simp
  have p16: "16 \<le> unat (rh_len h) \<Longrightarrow>
      patch (patch buf 0 (to_le_bytes 2 (rh_len h) @ [k, f] @ to_le_bytes 4 s)) 8 (to_le_bytes 8 v)
      = patch buf 0 (to_le_bytes 2 (rh_len h) @ [k, f] @ to_le_bytes 4 s @ to_le_bytes 8 v)"
    for k f and s :: u32 and v :: u64
    using adj [of "to_le_bytes 2 (rh_len h) @ [k, f] @ to_le_bytes 4 s" "to_le_bytes 8 v"] assms by simp
  from assms show ?thesis
    by (simp add: RecordHeader_write_to_def res_simps Let_def p3 p4 p8 p16 header_bytes_def
        min_def del: append_Cons split: if_splits)
qed

lemma header_at_header_bytes:
  assumes "header_framed h" and "length (header_bytes h) \<le> length buf"
  shows "header_at (patch buf 0 (header_bytes h)) = h"
proof -
  have b: "8 \<le> length buf" "16 \<le> unat (rh_len h) \<Longrightarrow> 16 \<le> length buf"
    using assms(2) by (auto simp: length_header_bytes split: if_splits)
  have len: "le_at 2 (patch buf 0 (header_bytes h)) 0 = rh_len h"
    and seq: "le_at 4 (patch buf 0 (header_bytes h)) 4 = rh_seq h"
    and kind: "patch buf 0 (header_bytes h) ! 2 = rh_kind h"
    and flags: "patch buf 0 (header_bytes h) ! 3 = rh_flags h"
    using assms(2) b by (simp_all add: header_bytes_def bufs nth_append)
  have vn: "16 \<le> unat (rh_len h) \<Longrightarrow> le_at 8 (patch buf 0 (header_bytes h)) 8 = rh_vnanos h"
    using assms(2) b by (simp add: header_bytes_def bufs)
  from assms(1) show ?thesis
    by (intro record_header.equality)
       (simp_all add: header_at_def len seq kind flags vn header_framed_def)
qed

lemma read_from_written:
  assumes "header_framed h" and "unat (rh_len h) \<le> length buf"
  shows "RecordHeader_read_from (patch buf 0 (header_bytes h)) = Ok h"
proof -
  have l: "8 \<le> unat (rh_len h)"
    using assms(1) by (auto simp: header_framed_def framed_def split: if_splits)
  have hb: "length (header_bytes h) \<le> length buf"
    using l assms(2) by (simp add: length_header_bytes)
  note h = header_at_header_bytes [OF assms(1) hb]
  have "le_at 2 (patch buf 0 (header_bytes h)) 0 = rh_len h"
    and "patch buf 0 (header_bytes h) ! 2 = rh_kind h"
    using arg_cong [OF h, of rh_len] arg_cong [OF h, of rh_kind] by (simp_all add: header_at_def)
  with assms l hb h show ?thesis
    by (simp add: read_from_Ok_iff header_framed_def framed_def)
qed


section \<open>Tail pads\<close>

definition pad_header :: "nat \<Rightarrow> u32 \<Rightarrow> record_header" where
  "pad_header t seq = \<lparr>rh_len = of_nat t, rh_kind = 0, rh_flags = 0, rh_seq = seq, rh_vnanos = 0\<rparr>"

definition pad_record :: "nat \<Rightarrow> u32 \<Rightarrow> bytes" where
  "pad_record t seq = patch (replicate t 0) 0 (header_bytes (pad_header t seq))"

lemma unat_pad_len: "t \<le> 0xFFFF \<Longrightarrow> unat (of_nat t :: u16) = t"
  by (simp add: unat_of_nat)

lemma length_pad_record [simp]: "8 \<le> t \<Longrightarrow> t \<le> 0xFFFF \<Longrightarrow> length (pad_record t seq) = t"
  by (simp add: pad_record_def pad_header_def length_header_bytes unat_pad_len)

lemma patch_patch_prefix:
  "length s \<le> length t \<Longrightarrow> i + length t \<le> length b \<Longrightarrow> patch (patch b i t) i s = patch b i (patch t 0 s)"
  by (rule nth_equalityI) (auto simp: nth_patch)

lemma encode_pad_eq:
  assumes "8 \<le> t" and "t \<le> 0xFFFF" and "t \<le> length buf"
  shows "encode_pad buf t seq = Ok (patch buf 0 (pad_record t seq), t)"
proof -
  let ?b = "patch buf 0 (replicate t 0)" and ?h = "pad_header t seq"
  have len: "unat (rh_len ?h) = t"
    using assms by (simp add: pad_header_def unat_pad_len)
  have "RecordHeader_write_to ?h ?b = Ok (patch ?b 0 (header_bytes ?h))"
    using assms len by (intro write_to_eq) auto
  also have "patch ?b 0 (header_bytes ?h) = patch buf 0 (pad_record t seq)"
    unfolding pad_record_def using assms len by (intro patch_patch_prefix) (simp_all add: length_header_bytes)
  finally show ?thesis
    using assms by (simp add: encode_pad_def res_simps pad_header_def)
qed

lemma pad_header_framed:
  "8 \<le> t \<Longrightarrow> t \<le> 4096 \<Longrightarrow> t mod 8 = 0 \<Longrightarrow> header_framed (pad_header t seq)"
  by (simp add: header_framed_def framed_def pad_header_def unat_pad_len)

lemma read_from_pad_record:
  assumes "8 \<le> t" and "t \<le> 4096" and "t mod 8 = 0"
  shows "RecordHeader_read_from (pad_record t seq) = Ok (pad_header t seq)"
  unfolding pad_record_def
  by (rule read_from_written [OF pad_header_framed [OF assms]])
     (use assms in \<open>simp add: pad_header_def unat_pad_len\<close>)

section \<open>Properties\<close>

text \<open>
  A framed header written into a buffer that holds the record is read back unchanged, also when
  the buffer is cut to the record's own length.
\<close>

theorem record_header_round_trip:
  assumes "header_framed h" and "unat (rh_len h) \<le> length buf"
  shows "\<exists>b. RecordHeader_write_to h buf = Ok b \<and> length b = length buf
     \<and> RecordHeader_read_from b = Ok h
     \<and> RecordHeader_read_from (take (unat (rh_len h)) b) = Ok h"
proof -
  have l: "8 \<le> unat (rh_len h)"
    using assms(1) by (auto simp: header_framed_def framed_def split: if_splits)
  have w: "RecordHeader_write_to h buf = Ok (patch buf 0 (header_bytes h))"
    using l assms(2) by (intro write_to_eq) auto
  have r: "RecordHeader_read_from (patch buf 0 (header_bytes h)) = Ok h"
    using assms by (rule read_from_written)
  from w r read_from_take [OF r] l assms(2) show ?thesis
    by (simp add: length_header_bytes)
qed

theorem record_header_round_trip_witness:
  "\<exists>b. RecordHeader_write_to \<lparr>rh_len = 32, rh_kind = 3, rh_flags = 1, rh_seq = 7, rh_vnanos = 99\<rparr>
         (replicate 40 0xAA) = Ok b \<and> length b = 40
     \<and> RecordHeader_read_from b
       = Ok \<lparr>rh_len = 32, rh_kind = 3, rh_flags = 1, rh_seq = 7, rh_vnanos = 99\<rparr>"
  using record_header_round_trip
    [of "\<lparr>rh_len = 32, rh_kind = 3, rh_flags = 1, rh_seq = 7, rh_vnanos = 99\<rparr>" "replicate 40 0xAA"]
  by (auto simp: header_framed_def framed_def)

text \<open>
  The header decoder is total over arbitrary bytes: it never panics, its errors are only
  \<open>Truncated\<close> and \<open>BadLen\<close>, and an accepted header frames a record inside the buffer whose
  payload range can be sliced out of the record's own bytes (the fuzz regression of the 8-byte pad).
\<close>

theorem record_header_read_total:
  "case RecordHeader_read_from buf of
     Panic \<Rightarrow> False
   | Err e \<Rightarrow> e = Truncated \<or> e = BadLen
   | Ok h \<Rightarrow> header_framed h \<and> unat (rh_len h) \<le> length buf
       \<and> slice (take (unat (rh_len h)) buf) (fst (payload_range h)) (snd (payload_range h))
         = (Ok (drop RECORD_HEADER_LEN (take (unat (rh_len h)) buf)) :: (decode_error, bytes) res)"
proof (cases "RecordHeader_read_from buf")
  case (Ok h)
  then have "8 \<le> unat (rh_len h)" "unat (rh_len h) \<le> length buf"
    using read_from_len by auto
  with Ok read_from_header_framed [OF Ok] show ?thesis
    by (auto simp: payload_range_def Let_def slice_def drop_take min_def)
next
  case (Err e)
  then show ?thesis by (auto simp: read_from_eq Let_def split: if_splits)
next
  case Panic
  then show ?thesis using read_from_not_Panic by blast
qed

text \<open>
  A tail pad of any aligned length from 8 to 4096 bytes is encoded over exactly that many bytes
  and decodes as a \<open>Pad\<close> of that length with the given sequence number; the buffer behind it is
  untouched.
\<close>

theorem encode_pad_decodes:
  assumes "8 \<le> t" and "t \<le> MAX_RECORD_LEN" and "t mod 8 = 0" and "t \<le> length buf"
  shows "\<exists>b. encode_pad buf t seq = Ok (b, t) \<and> length b = length buf \<and> drop t b = drop t buf
     \<and> RecordHeader_read_from (take t b)
       = Ok \<lparr>rh_len = of_nat t, rh_kind = EventKind_as_u8 EK_Pad, rh_flags = 0, rh_seq = seq, rh_vnanos = 0\<rparr>"
proof -
  have "take t (patch buf 0 (pad_record t seq)) = pad_record t seq"
    and "drop t (patch buf 0 (pad_record t seq)) = drop t buf"
    using assms by (simp_all add: patch_def)
  moreover have "RecordHeader_read_from (pad_record t seq) = Ok (pad_header t seq)"
    using assms by (intro read_from_pad_record) auto
  ultimately show ?thesis
    using assms encode_pad_eq [of t buf seq] by (simp add: pad_header_def)
qed

theorem encode_pad_decodes_witness:
  "\<exists>b. encode_pad (replicate 24 0xAA) 8 41 = Ok (b, 8) \<and> drop 8 b = replicate 16 0xAA
     \<and> RecordHeader_read_from (take 8 b)
       = Ok \<lparr>rh_len = 8, rh_kind = 0, rh_flags = 0, rh_seq = 41, rh_vnanos = 0\<rparr>"
  using encode_pad_decodes [of 8 "replicate 24 0xAA" 41] by auto

end
