(* ===== verification/Wire_Events.thy ===== *)
theory Wire_Events
  imports Wire_Record
begin

text \<open>
  Typed payloads of the three ring namespaces: \<^verbatim>\<open>crates/detguest-wire/src/events.rs\<close>. The encoders
  write a header and a zero-filled payload window in place, the decoders read arbitrary bytes.

  The specification side gives every payload its byte image (\<open>event_image\<close>, \<open>command_image\<close>,
  \<open>ctrl_image\<close>); the encoders are shown to produce exactly that image, the decoders to invert it
  whatever follows the record, and to be total. The interface the rings rely on is the locale
  \<open>record_codec\<close>, interpreted on each of the three codecs.
\<close>

section \<open>Limits and modes\<close>

definition MAX_DETAILS :: nat where [simp]: "MAX_DETAILS = 512"
definition MAX_LOG_MSG :: nat where [simp]: "MAX_LOG_MSG = 1024"
definition MAX_NAME :: nat where [simp]: "MAX_NAME = 256"
definition CAP_FORCED_QUIESCE :: u64 where [simp]: "CAP_FORCED_QUIESCE = push_bit 0 1"
definition CAP_REVERIFY_REGIONS :: u64 where [simp]: "CAP_REVERIFY_REGIONS = push_bit 1 1"
definition STREAM_STDOUT :: u8 where [simp]: "STREAM_STDOUT = 1"
definition STREAM_STDERR :: u8 where [simp]: "STREAM_STDERR = 2"
definition STREAM_AGENT :: u8 where [simp]: "STREAM_AGENT = 3"
definition STREAM_SDK_USER :: u8 where [simp]: "STREAM_SDK_USER = 4"

definition pack_agent_version :: "u8 \<Rightarrow> u8 \<Rightarrow> u8 \<Rightarrow> u32" where
  "pack_agent_version major minor patch_level =
     push_bit 16 (ucast major) OR push_bit 8 (ucast minor) OR ucast patch_level"

datatype quiesce_mode = Coop | Forced

definition QuiesceMode_as_u32 :: "quiesce_mode \<Rightarrow> u32" where
  "QuiesceMode_as_u32 m = (case m of Coop \<Rightarrow> 0 | Forced \<Rightarrow> 1)"

datatype shutdown_mode = Graceful | Immediate

definition ShutdownMode_as_u32 :: "shutdown_mode \<Rightarrow> u32" where
  "ShutdownMode_as_u32 m = (case m of Graceful \<Rightarrow> 0 | Immediate \<Rightarrow> 1)"

section \<open>Payloads\<close>

text \<open>\<open>i32\<close> fields travel as the same 32 bits, so they are words read with \<open>sint\<close>.\<close>

type_synonym i32 = "32 word"

record region_event =
  re_region_id :: u32
  re_name_id :: u32
  re_layout_version :: u32
  re_manifest_generation :: u32

datatype event_payload =
    Ev_Pad
  | Ev_Hello u32 u32 u64
  | Ev_NameIntern u32 bytes
  | Ev_AssertViolation u32 u32 bytes
  | Ev_Reachable u32
  | Ev_Beacon u32
  | Ev_InjectQuery u32 u32
  | Ev_RegionRegister region_event
  | Ev_RegionUpdate region_event
  | Ev_WorkloadStarted u32 u32
  | Ev_WorkloadExited u32 i32 i32
  | Ev_LogLine u8 u8 bytes
  | Ev_QuiesceReady u64
  | Ev_FrameMark u32
  | Ev_Ready u32 u32 u64

datatype command =
    Cmd_StartWorkload u32 u32
  | Cmd_Quiesce u64 quiesce_mode
  | Cmd_Resume u64
  | Cmd_Shutdown shutdown_mode
  | Cmd_SetLogMask u32
  | Cmd_ReverifyRegions

datatype workload_ctrl = Ctrl_QuiesceReq u64 | Ctrl_Resume u64

section \<open>Encoders\<close>

text \<open>
  \<open>fill\<close> is the closure over the zeroed payload window; it returns the window it leaves behind.
\<close>

definition encode_with ::
  "bytes \<Rightarrow> u8 \<Rightarrow> u8 \<Rightarrow> u32 \<Rightarrow> u64 \<Rightarrow> nat \<Rightarrow> (bytes \<Rightarrow> (encode_error, bytes) res)
    \<Rightarrow> (encode_error, bytes \<times> nat) res" where
  "encode_with buf kind flags seq vnanos payload_len fill =
     (let total = record_len payload_len
      in if length buf < total then Err BufferTooSmall
         else let hdr = \<lparr>rh_len = of_nat total, rh_kind = kind, rh_flags = flags, rh_seq = seq,
                         rh_vnanos = vnanos\<rparr>
         in bind_res (put_slice buf 0 total (replicate total 0)) (\<lambda>buf.
            bind_res (RecordHeader_write_to hdr buf) (\<lambda>buf.
            bind_res (slice buf RECORD_HEADER_LEN (RECORD_HEADER_LEN + payload_len)) (\<lambda>p.
            bind_res (fill p) (\<lambda>p.
            bind_res (put_slice buf RECORD_HEADER_LEN (RECORD_HEADER_LEN + payload_len) p) (\<lambda>buf.
            Ok (buf, total)))))))"

text \<open>The closures: \<open>put_u32\<close>, \<open>put_u64\<close> and byte stores into the window.\<close>

definition put_u32 :: "bytes \<Rightarrow> nat \<Rightarrow> u32 \<Rightarrow> ('e, bytes) res" where
  "put_u32 b i v = put_le 4 b i v"

definition put_u64 :: "bytes \<Rightarrow> nat \<Rightarrow> u64 \<Rightarrow> ('e, bytes) res" where
  "put_u64 b i v = put_le 8 b i v"

definition get_u32 :: "bytes \<Rightarrow> nat \<Rightarrow> ('e, u32) res" where
  "get_u32 b i = get_le 4 b i"

definition get_u64 :: "bytes \<Rightarrow> nat \<Rightarrow> ('e, u64) res" where
  "get_u64 b i = get_le 8 b i"

definition fill_region_event :: "region_event \<Rightarrow> bytes \<Rightarrow> ('e, bytes) res" where
  "fill_region_event r p =
     bind_res (put_u32 p 0 (re_region_id r)) (\<lambda>p.
     bind_res (put_u32 p 4 (re_name_id r)) (\<lambda>p.
     bind_res (put_u32 p 8 (re_layout_version r)) (\<lambda>p.
     put_u32 p 12 (re_manifest_generation r))))"

definition clip_flags :: "u8 \<Rightarrow> bytes \<Rightarrow> bytes \<Rightarrow> u8" where
  "clip_flags extra_flags clipped full =
     extra_flags OR (if length clipped < length full then FLAG_TRUNCATED else 0)"

definition encode_event ::
  "bytes \<Rightarrow> u32 \<Rightarrow> u64 \<Rightarrow> u8 \<Rightarrow> event_payload \<Rightarrow> (encode_error, bytes \<times> nat) res" where
  "encode_event buf seq vnanos extra_flags ev =
     (let enc = (\<lambda>kind flags n fill. encode_with buf (EventKind_as_u8 kind) flags seq vnanos n fill)
      in case ev of
        Ev_Pad \<Rightarrow>
          bind_res (encode_pad buf RECORD_HEADER_LEN seq) (\<lambda>(buf, _). Ok (buf, RECORD_HEADER_LEN))
      | Ev_Hello proto_version agent_version capabilities \<Rightarrow>
          enc EK_Hello extra_flags 16 (\<lambda>p.
            bind_res (put_u32 p 0 proto_version) (\<lambda>p.
            bind_res (put_u32 p 4 agent_version) (\<lambda>p.
            put_u64 p 8 capabilities)))
      | Ev_NameIntern name_id name \<Rightarrow>
          if length name > MAX_NAME then Err FieldTooLong
          else enc EK_NameIntern extra_flags (8 + length name) (\<lambda>p.
            bind_res (put_u32 p 0 name_id) (\<lambda>p.
            bind_res (put_slice p 4 6 (to_le_bytes 2 (of_nat (length name) :: u16))) (\<lambda>p.
            put_slice p 8 (8 + length name) name)))
      | Ev_AssertViolation name_id violation_count details \<Rightarrow>
          let clipped = take (min (length details) MAX_DETAILS) details
          in enc EK_AssertViolation (clip_flags extra_flags clipped details) (16 + length clipped) (\<lambda>p.
            bind_res (put_u32 p 0 name_id) (\<lambda>p.
            bind_res (put_u32 p 4 violation_count) (\<lambda>p.
            bind_res (put_slice p 8 10 (to_le_bytes 2 (of_nat (length clipped) :: u16))) (\<lambda>p.
            put_slice p 16 (16 + length clipped) clipped))))
      | Ev_Reachable name_id \<Rightarrow> enc EK_Reachable extra_flags 8 (\<lambda>p. put_u32 p 0 name_id)
      | Ev_Beacon beacon_id \<Rightarrow> enc EK_Beacon extra_flags 8 (\<lambda>p. put_u32 p 0 beacon_id)
      | Ev_InjectQuery iseq name_id \<Rightarrow>
          enc EK_InjectQuery extra_flags 8 (\<lambda>p.
            bind_res (put_u32 p 0 iseq) (\<lambda>p. put_u32 p 4 name_id))
      | Ev_RegionRegister r \<Rightarrow> enc EK_RegionRegister extra_flags 16 (fill_region_event r)
      | Ev_RegionUpdate r \<Rightarrow> enc EK_RegionUpdate extra_flags 16 (fill_region_event r)
      | Ev_WorkloadStarted guest_pid unit \<Rightarrow>
          enc EK_WorkloadStarted extra_flags 8 (\<lambda>p.
            bind_res (put_u32 p 0 guest_pid) (\<lambda>p. put_u32 p 4 unit))
      | Ev_WorkloadExited guest_pid exit_code term_signal \<Rightarrow>
          enc EK_WorkloadExited extra_flags 16 (\<lambda>p.
            bind_res (put_u32 p 0 guest_pid) (\<lambda>p.
            bind_res (put_u32 p 4 exit_code) (\<lambda>p.
            put_u32 p 8 term_signal)))
      | Ev_LogLine stream level msg \<Rightarrow>
          let clipped = take (min (length msg) MAX_LOG_MSG) msg
          in enc EK_LogLine (clip_flags extra_flags clipped msg) (8 + length clipped) (\<lambda>p.
            bind_res (put_slice p 0 1 [stream]) (\<lambda>p.
            bind_res (put_slice p 1 2 [level]) (\<lambda>p.
            bind_res (put_slice p 2 4 (to_le_bytes 2 (of_nat (length clipped) :: u16))) (\<lambda>p.
            put_slice p 8 (8 + length clipped) clipped))))
      | Ev_QuiesceReady token \<Rightarrow> enc EK_QuiesceReady extra_flags 8 (\<lambda>p. put_u64 p 0 token)
      | Ev_FrameMark frame_index \<Rightarrow> enc EK_FrameMark extra_flags 8 (\<lambda>p. put_u32 p 0 frame_index)
      | Ev_Ready unit region_count manifest_generation \<Rightarrow>
          enc EK_Ready extra_flags 16 (\<lambda>p.
            bind_res (put_u32 p 0 unit) (\<lambda>p.
            bind_res (put_u32 p 4 region_count) (\<lambda>p.
            put_u64 p 8 manifest_generation))))"

definition encode_command :: "bytes \<Rightarrow> u32 \<Rightarrow> command \<Rightarrow> (encode_error, bytes \<times> nat) res" where
  "encode_command buf seq cmd =
     (let enc = (\<lambda>kind n fill. encode_with buf (CommandKind_as_u8 kind) 0 seq 0 n fill)
      in case cmd of
        Cmd_StartWorkload unit log_mask \<Rightarrow>
          enc CK_StartWorkload 8 (\<lambda>p. bind_res (put_u32 p 0 unit) (\<lambda>p. put_u32 p 4 log_mask))
      | Cmd_Quiesce token mode \<Rightarrow>
          enc CK_Quiesce 16 (\<lambda>p.
            bind_res (put_u64 p 0 token) (\<lambda>p. put_u32 p 8 (QuiesceMode_as_u32 mode)))
      | Cmd_Resume token \<Rightarrow> enc CK_Resume 8 (\<lambda>p. put_u64 p 0 token)
      | Cmd_Shutdown mode \<Rightarrow> enc CK_Shutdown 8 (\<lambda>p. put_u32 p 0 (ShutdownMode_as_u32 mode))
      | Cmd_SetLogMask log_mask \<Rightarrow> enc CK_SetLogMask 8 (\<lambda>p. put_u32 p 0 log_mask)
      | Cmd_ReverifyRegions \<Rightarrow> enc CK_ReverifyRegions 0 (\<lambda>p. Ok p))"

definition encode_workload_ctrl ::
  "bytes \<Rightarrow> u32 \<Rightarrow> u64 \<Rightarrow> workload_ctrl \<Rightarrow> (encode_error, bytes \<times> nat) res" where
  "encode_workload_ctrl buf seq vnanos rec =
     (let enc = (\<lambda>kind n fill. encode_with buf (WorkloadCtrlKind_as_u8 kind) 0 seq vnanos n fill)
      in case rec of
        Ctrl_QuiesceReq token \<Rightarrow> enc WK_QuiesceReq 8 (\<lambda>p. put_u64 p 0 token)
      | Ctrl_Resume token \<Rightarrow> enc WK_Resume 8 (\<lambda>p. put_u64 p 0 token))"

section \<open>Decoders\<close>

text \<open>The match on the kind, with its length and field checks; the wrappers frame it.\<close>

definition region_event_at :: "bytes \<Rightarrow> (decode_error, region_event) res" where
  "region_event_at payload =
     bind_res (get_u32 payload 0) (\<lambda>region_id.
     bind_res (get_u32 payload 4) (\<lambda>name_id.
     bind_res (get_u32 payload 8) (\<lambda>layout_version.
     bind_res (get_u32 payload 12) (\<lambda>manifest_generation.
     Ok \<lparr>re_region_id = region_id, re_name_id = name_id, re_layout_version = layout_version,
         re_manifest_generation = manifest_generation\<rparr>))))"

definition decode_event_payload :: "event_kind \<Rightarrow> bytes \<Rightarrow> (decode_error, event_payload) res" where
  "decode_event_payload kind payload =
     (let need = (\<lambda>n (body :: (decode_error, event_payload) res).
                    if length payload < n then Err BadLen else body);
          u32_1 = (\<lambda>f :: u32 \<Rightarrow> event_payload. bind_res (get_u32 payload 0) (\<lambda>a. Ok (f a)));
          u32_2 = (\<lambda>f :: u32 \<Rightarrow> u32 \<Rightarrow> event_payload.
                     bind_res (get_u32 payload 0) (\<lambda>a. bind_res (get_u32 payload 4) (\<lambda>b. Ok (f a b))))
      in case kind of
        EK_Pad \<Rightarrow> Ok Ev_Pad
      | EK_Hello \<Rightarrow> need 16 (
          bind_res (get_u32 payload 0) (\<lambda>proto_version.
          bind_res (get_u32 payload 4) (\<lambda>agent_version.
          bind_res (get_u64 payload 8) (\<lambda>capabilities.
          Ok (Ev_Hello proto_version agent_version capabilities)))))
      | EK_NameIntern \<Rightarrow> need 8 (
          bind_res (get_le 2 payload 4) (\<lambda>l :: u16.
          let name_len = unat l
          in if name_len > MAX_NAME \<or> 8 + name_len > length payload then Err BadField
             else bind_res (get_u32 payload 0) (\<lambda>name_id.
                  bind_res (slice payload 8 (8 + name_len)) (\<lambda>name.
                  Ok (Ev_NameIntern name_id name)))))
      | EK_AssertViolation \<Rightarrow> need 16 (
          bind_res (get_le 2 payload 8) (\<lambda>l :: u16.
          let details_len = unat l
          in if details_len > MAX_DETAILS \<or> 16 + details_len > length payload then Err BadField
             else bind_res (get_u32 payload 0) (\<lambda>name_id.
                  bind_res (get_u32 payload 4) (\<lambda>violation_count.
                  bind_res (slice payload 16 (16 + details_len)) (\<lambda>details.
                  Ok (Ev_AssertViolation name_id violation_count details))))))
      | EK_Reachable \<Rightarrow> need 8 (u32_1 Ev_Reachable)
      | EK_Beacon \<Rightarrow> need 8 (u32_1 Ev_Beacon)
      | EK_InjectQuery \<Rightarrow> need 8 (u32_2 Ev_InjectQuery)
      | EK_RegionRegister \<Rightarrow> need 16 (bind_res (region_event_at payload) (\<lambda>r. Ok (Ev_RegionRegister r)))
      | EK_RegionUpdate \<Rightarrow> need 16 (bind_res (region_event_at payload) (\<lambda>r. Ok (Ev_RegionUpdate r)))
      | EK_WorkloadStarted \<Rightarrow> need 8 (u32_2 Ev_WorkloadStarted)
      | EK_WorkloadExited \<Rightarrow> need 16 (
          bind_res (get_u32 payload 0) (\<lambda>guest_pid.
          bind_res (get_u32 payload 4) (\<lambda>exit_code.
          bind_res (get_u32 payload 8) (\<lambda>term_signal.
          Ok (Ev_WorkloadExited guest_pid exit_code term_signal)))))
      | EK_LogLine \<Rightarrow> need 8 (
          bind_res (get_le 2 payload 2) (\<lambda>l :: u16.
          let msg_len = unat l
          in if msg_len > MAX_LOG_MSG \<or> 8 + msg_len > length payload then Err BadField
             else bind_res (index payload 0) (\<lambda>stream.
                  bind_res (index payload 1) (\<lambda>level.
                  bind_res (slice payload 8 (8 + msg_len)) (\<lambda>msg.
                  Ok (Ev_LogLine stream level msg))))))
      | EK_QuiesceReady \<Rightarrow> need 8 (bind_res (get_u64 payload 0) (\<lambda>token. Ok (Ev_QuiesceReady token)))
      | EK_FrameMark \<Rightarrow> need 8 (u32_1 Ev_FrameMark)
      | EK_Ready \<Rightarrow> need 16 (
          bind_res (get_u32 payload 0) (\<lambda>unit.
          bind_res (get_u32 payload 4) (\<lambda>region_count.
          bind_res (get_u64 payload 8) (\<lambda>manifest_generation.
          Ok (Ev_Ready unit region_count manifest_generation))))))"

definition decode_event :: "bytes \<Rightarrow> (decode_error, record_header \<times> event_payload) res" where
  "decode_event bytes =
     bind_res (RecordHeader_read_from bytes) (\<lambda>hdr.
     bind_res (slice bytes (fst (payload_range hdr)) (snd (payload_range hdr))) (\<lambda>payload.
     bind_res (ok_or (EventKind_from_u8 (rh_kind hdr)) (UnknownKind (rh_kind hdr))) (\<lambda>kind.
     bind_res (decode_event_payload kind payload) (\<lambda>ev.
     Ok (hdr, ev)))))"

definition decode_command_payload :: "command_kind \<Rightarrow> bytes \<Rightarrow> (decode_error, command) res" where
  "decode_command_payload kind payload =
     (let need = (\<lambda>n (body :: (decode_error, command) res).
                    if length payload < n then Err BadLen else body)
      in case kind of
        CK_StartWorkload \<Rightarrow> need 8 (
          bind_res (get_u32 payload 0) (\<lambda>unit.
          bind_res (get_u32 payload 4) (\<lambda>log_mask. Ok (Cmd_StartWorkload unit log_mask))))
      | CK_Quiesce \<Rightarrow> need 16 (
          bind_res (get_u32 payload 8) (\<lambda>m.
          bind_res (if m = 0 then Ok Coop else if m = 1 then Ok Forced else Err BadField) (\<lambda>mode.
          bind_res (get_u64 payload 0) (\<lambda>token. Ok (Cmd_Quiesce token mode)))))
      | CK_Resume \<Rightarrow> need 8 (bind_res (get_u64 payload 0) (\<lambda>token. Ok (Cmd_Resume token)))
      | CK_Shutdown \<Rightarrow> need 8 (
          bind_res (get_u32 payload 0) (\<lambda>m.
          bind_res (if m = 0 then Ok Graceful else if m = 1 then Ok Immediate else Err BadField) (\<lambda>mode.
          Ok (Cmd_Shutdown mode))))
      | CK_SetLogMask \<Rightarrow> need 8 (bind_res (get_u32 payload 0) (\<lambda>log_mask. Ok (Cmd_SetLogMask log_mask)))
      | CK_ReverifyRegions \<Rightarrow> Ok Cmd_ReverifyRegions)"

definition decode_command :: "bytes \<Rightarrow> (decode_error, record_header \<times> command) res" where
  "decode_command bytes =
     bind_res (RecordHeader_read_from bytes) (\<lambda>hdr.
     bind_res (slice bytes (fst (payload_range hdr)) (snd (payload_range hdr))) (\<lambda>payload.
     bind_res (ok_or (CommandKind_from_u8 (rh_kind hdr)) (UnknownKind (rh_kind hdr))) (\<lambda>kind.
     bind_res (decode_command_payload kind payload) (\<lambda>cmd.
     Ok (hdr, cmd)))))"

definition decode_ctrl_payload :: "workload_ctrl_kind \<Rightarrow> bytes \<Rightarrow> (decode_error, workload_ctrl) res" where
  "decode_ctrl_payload kind payload =
     (case kind of
        WK_QuiesceReq \<Rightarrow>
          if length payload < 8 then Err BadLen
          else bind_res (get_u64 payload 0) (\<lambda>token. Ok (Ctrl_QuiesceReq token))
      | WK_Resume \<Rightarrow>
          if length payload < 8 then Err BadLen
          else bind_res (get_u64 payload 0) (\<lambda>token. Ok (Ctrl_Resume token)))"

definition decode_workload_ctrl :: "bytes \<Rightarrow> (decode_error, record_header \<times> workload_ctrl) res" where
  "decode_workload_ctrl bytes =
     bind_res (RecordHeader_read_from bytes) (\<lambda>hdr.
     bind_res (slice bytes (fst (payload_range hdr)) (snd (payload_range hdr))) (\<lambda>payload.
     bind_res (ok_or (WorkloadCtrlKind_from_u8 (rh_kind hdr)) (UnknownKind (rh_kind hdr))) (\<lambda>kind.
     bind_res (decode_ctrl_payload kind payload) (\<lambda>rec.
     Ok (hdr, rec)))))"

definition encoded_event_len :: "event_payload \<Rightarrow> nat" where
  "encoded_event_len ev =
     (case ev of
        Ev_Pad \<Rightarrow> RECORD_HEADER_LEN
      | Ev_Hello _ _ _ \<Rightarrow> record_len 16
      | Ev_RegionRegister _ \<Rightarrow> record_len 16
      | Ev_RegionUpdate _ \<Rightarrow> record_len 16
      | Ev_WorkloadExited _ _ _ \<Rightarrow> record_len 16
      | Ev_Ready _ _ _ \<Rightarrow> record_len 16
      | Ev_NameIntern _ name \<Rightarrow> record_len (8 + length name)
      | Ev_AssertViolation _ _ details \<Rightarrow> record_len (16 + min (length details) MAX_DETAILS)
      | Ev_LogLine _ _ msg \<Rightarrow> record_len (8 + min (length msg) MAX_LOG_MSG)
      | Ev_Reachable _ \<Rightarrow> record_len 8
      | Ev_Beacon _ \<Rightarrow> record_len 8
      | Ev_InjectQuery _ _ \<Rightarrow> record_len 8
      | Ev_WorkloadStarted _ _ \<Rightarrow> record_len 8
      | Ev_QuiesceReady _ \<Rightarrow> record_len 8
      | Ev_FrameMark _ \<Rightarrow> record_len 8)"

section \<open>Record images\<close>

text \<open>The bytes of a record: its header, its payload and zeroes up to the next multiple of 8.\<close>

definition record_image :: "record_header \<Rightarrow> bytes \<Rightarrow> bytes" where
  "record_image h p = header_bytes h @ p @ replicate (pad8 (length p) - length p) 0"

definition plain_header :: "u8 \<Rightarrow> u8 \<Rightarrow> u32 \<Rightarrow> u64 \<Rightarrow> nat \<Rightarrow> record_header" where
  "plain_header kind flags seq vnanos n =
     \<lparr>rh_len = of_nat (record_len n), rh_kind = kind, rh_flags = flags, rh_seq = seq, rh_vnanos = vnanos\<rparr>"

lemma plain_header_sel [simp]:
  "rh_kind (plain_header kind flags seq vnanos n) = kind"
  "rh_seq (plain_header kind flags seq vnanos n) = seq"
  "rh_flags (plain_header kind flags seq vnanos n) = flags"
  "rh_vnanos (plain_header kind flags seq vnanos n) = vnanos"
  by (simp_all add: plain_header_def)

lemma unat_plain_len [simp]:
  "n \<le> 4000 \<Longrightarrow> unat (rh_len (plain_header kind flags seq vnanos n)) = record_len n"
  using record_len_bounds(3) [of n] by (simp add: plain_header_def unat_of_nat)

lemma length_record_image:
  "16 \<le> unat (rh_len h) \<Longrightarrow> length (record_image h p) = record_len (length p)"
  using pad8_ge [of "length p"] by (simp add: record_image_def length_header_bytes record_len_def)

lemma plain_header_framed:
  assumes "n \<le> 4000"
  shows "header_framed (plain_header kind flags seq vnanos n)"
  using record_len_bounds [of n] assms
  by (auto simp: header_framed_def framed_def)

lemma encode_with_eq:
  assumes fill: "fill (replicate n 0) = Ok p" and p: "length p = n" and n: "n \<le> 4000"
  shows "encode_with buf kind flags seq vnanos n fill =
     (if length buf < record_len n then Err BufferTooSmall
      else Ok (patch buf 0 (record_image (plain_header kind flags seq vnanos n) p), record_len n))"
proof (cases "length buf < record_len n")
  case True
  then show ?thesis by (simp add: encode_with_def)
next
  case False
  let ?t = "record_len n" and ?h = "plain_header kind flags seq vnanos n"
  let ?z = "patch buf 0 (replicate ?t 0)"
  let ?b = "patch ?z 0 (header_bytes ?h)"
  have t: "n + 16 \<le> ?t" "16 \<le> ?t" "?t - 16 = pad8 n" "?t \<le> length buf"
    using record_len_bounds [of n] False by (simp_all add: record_len_def)
  have hl: "length (header_bytes ?h) = 16"
    using t n by (simp add: length_header_bytes)
  have w: "RecordHeader_write_to ?h ?z = Ok ?b"
    using t n by (intro write_to_eq) auto
  have s: "take n (drop 16 ?b) = replicate n 0"
    using t hl by (simp add: bufs min_def)
  have "patch ?b 16 p = patch ?z 0 (header_bytes ?h @ p)"
    using patch_adjacent [of 0 "header_bytes ?h" p ?z] t p hl by simp
  also have "\<dots> = patch buf 0 (patch (replicate ?t 0) 0 (header_bytes ?h @ p))"
    using t p hl by (intro patch_patch_prefix) auto
  also have "patch (replicate ?t 0) 0 (header_bytes ?h @ p) = record_image ?h p"
    using t p hl by (simp add: patch_def record_image_def)
  finally have img: "patch ?b 16 p = patch buf 0 (record_image ?h p)" .
  show ?thesis
    using False t w s fill p hl
    by (simp add: encode_with_def res_simps img plain_header_def [symmetric] Let_def)
qed

text \<open>What a decoder sees of an image, whatever follows it: the header and the padded payload.\<close>

lemma frame_of_image:
  assumes h: "header_framed h" and l: "unat (rh_len h) = record_len (length p)"
  shows "RecordHeader_read_from (record_image h p @ rest) = Ok h"
    and "slice (record_image h p @ rest) (fst (payload_range h)) (snd (payload_range h))
       = Ok (p @ replicate (pad8 (length p) - length p) 0)"
proof -
  let ?z = "p @ replicate (pad8 (length p) - length p) 0 @ rest"
  have b: "16 \<le> record_len (length p)" "record_len (length p) - 16 = pad8 (length p)" "length p \<le> pad8 (length p)"
    using record_len_bounds [of "length p"] pad8_ge by (simp_all add: record_len_def)
  then have hl: "length (header_bytes h) = 16"
    using l by (simp add: length_header_bytes)
  have img: "record_image h p @ rest = patch (replicate 16 0 @ ?z) 0 (header_bytes h)"
    using hl by (simp add: record_image_def patch_def)
  show "RecordHeader_read_from (record_image h p @ rest) = Ok h"
    unfolding img using h l b by (intro read_from_written) (simp_all add: record_len_def)
  show "slice (record_image h p @ rest) (fst (payload_range h)) (snd (payload_range h))
       = Ok (p @ replicate (pad8 (length p) - length p) 0)"
    using b l hl by (auto simp: payload_range_def Let_def slice_def record_image_def)
qed

section \<open>Event images\<close>

fun event_kind_of :: "event_payload \<Rightarrow> event_kind" where
  "event_kind_of Ev_Pad = EK_Pad"
| "event_kind_of (Ev_Hello _ _ _) = EK_Hello"
| "event_kind_of (Ev_NameIntern _ _) = EK_NameIntern"
| "event_kind_of (Ev_AssertViolation _ _ _) = EK_AssertViolation"
| "event_kind_of (Ev_Reachable _) = EK_Reachable"
| "event_kind_of (Ev_Beacon _) = EK_Beacon"
| "event_kind_of (Ev_InjectQuery _ _) = EK_InjectQuery"
| "event_kind_of (Ev_RegionRegister _) = EK_RegionRegister"
| "event_kind_of (Ev_RegionUpdate _) = EK_RegionUpdate"
| "event_kind_of (Ev_WorkloadStarted _ _) = EK_WorkloadStarted"
| "event_kind_of (Ev_WorkloadExited _ _ _) = EK_WorkloadExited"
| "event_kind_of (Ev_LogLine _ _ _) = EK_LogLine"
| "event_kind_of (Ev_QuiesceReady _) = EK_QuiesceReady"
| "event_kind_of (Ev_FrameMark _) = EK_FrameMark"
| "event_kind_of (Ev_Ready _ _ _) = EK_Ready"

text \<open>What survives encoding: over-cap details and messages are clipped, and flagged.\<close>

fun clip_event :: "event_payload \<Rightarrow> event_payload" where
  "clip_event (Ev_AssertViolation i c d) = Ev_AssertViolation i c (take MAX_DETAILS d)"
| "clip_event (Ev_LogLine s l m) = Ev_LogLine s l (take MAX_LOG_MSG m)"
| "clip_event ev = ev"

fun event_encodable :: "event_payload \<Rightarrow> bool" where
  "event_encodable (Ev_NameIntern _ name) \<longleftrightarrow> length name \<le> MAX_NAME"
| "event_encodable ev \<longleftrightarrow> True"

definition event_flags :: "u8 \<Rightarrow> event_payload \<Rightarrow> u8" where
  "event_flags extra ev = extra OR (if clip_event ev \<noteq> ev then FLAG_TRUNCATED else 0)"

definition region_event_fields :: "region_event \<Rightarrow> bytes" where
  "region_event_fields r = to_le_bytes 4 (re_region_id r) @ to_le_bytes 4 (re_name_id r)
     @ to_le_bytes 4 (re_layout_version r) @ to_le_bytes 4 (re_manifest_generation r)"

fun event_fields :: "event_payload \<Rightarrow> bytes" where
  "event_fields Ev_Pad = []"
| "event_fields (Ev_Hello p a c) = to_le_bytes 4 p @ to_le_bytes 4 a @ to_le_bytes 8 c"
| "event_fields (Ev_NameIntern i n) =
     to_le_bytes 4 i @ to_le_bytes 2 (of_nat (length n) :: u16) @ [0, 0] @ n"
| "event_fields (Ev_AssertViolation i c d) =
     to_le_bytes 4 i @ to_le_bytes 4 c @ to_le_bytes 2 (of_nat (length d) :: u16) @ replicate 6 0 @ d"
| "event_fields (Ev_Reachable i) = to_le_bytes 4 i @ replicate 4 0"
| "event_fields (Ev_Beacon i) = to_le_bytes 4 i @ replicate 4 0"
| "event_fields (Ev_InjectQuery s i) = to_le_bytes 4 s @ to_le_bytes 4 i"
| "event_fields (Ev_RegionRegister r) = region_event_fields r"
| "event_fields (Ev_RegionUpdate r) = region_event_fields r"
| "event_fields (Ev_WorkloadStarted g u) = to_le_bytes 4 g @ to_le_bytes 4 u"
| "event_fields (Ev_WorkloadExited g e s) =
     to_le_bytes 4 g @ to_le_bytes 4 e @ to_le_bytes 4 s @ replicate 4 0"
| "event_fields (Ev_LogLine s l m) =
     [s, l] @ to_le_bytes 2 (of_nat (length m) :: u16) @ replicate 4 0 @ m"
| "event_fields (Ev_QuiesceReady t) = to_le_bytes 8 t"
| "event_fields (Ev_FrameMark f) = to_le_bytes 4 f @ replicate 4 0"
| "event_fields (Ev_Ready u r g) = to_le_bytes 4 u @ to_le_bytes 4 r @ to_le_bytes 8 g"

definition event_header :: "u32 \<Rightarrow> u64 \<Rightarrow> u8 \<Rightarrow> event_payload \<Rightarrow> record_header" where
  "event_header seq vnanos extra ev =
     (if ev = Ev_Pad then pad_header 16 seq
      else plain_header (EventKind_as_u8 (event_kind_of ev)) (event_flags extra ev) seq vnanos
             (length (event_fields (clip_event ev))))"

definition event_image :: "u32 \<Rightarrow> u64 \<Rightarrow> u8 \<Rightarrow> event_payload \<Rightarrow> bytes" where
  "event_image seq vnanos extra ev =
     record_image (event_header seq vnanos extra ev) (event_fields (clip_event ev))"

lemma encoded_event_len_fields: "encoded_event_len ev = record_len (length (event_fields (clip_event ev)))"
  by (cases ev) (simp_all add: encoded_event_len_def region_event_fields_def record_len_def pad8_def min.commute)

lemma event_fields_short: "event_encodable ev \<Longrightarrow> length (event_fields (clip_event ev)) \<le> 1040"
  by (cases ev) (auto simp: region_event_fields_def)

lemma clip_event_kind [simp]: "event_kind_of (clip_event ev) = event_kind_of ev"
  by (cases ev) simp_all

lemma clip_event_Pad [simp]: "clip_event ev = Ev_Pad \<longleftrightarrow> ev = Ev_Pad"
  by (cases ev) simp_all

lemma pad_header_16: "pad_header 16 seq = plain_header 0 0 seq 0 0"
  by (simp add: pad_header_def plain_header_def record_len_def pad8_def)

lemma pad_image: "record_image (pad_header 16 seq) [] = pad_record 16 seq"
  by (simp add: record_image_def pad_record_def pad8_def patch_def length_header_bytes pad_header_def)

lemma event_header_seq [simp]: "rh_seq (event_header seq vnanos extra ev) = seq"
  by (simp add: event_header_def pad_header_def)

lemma event_header_framed: "event_encodable ev \<Longrightarrow> header_framed (event_header seq vnanos extra ev)"
  using event_fields_short [of ev]
  by (auto simp: event_header_def pad_header_16 intro!: plain_header_framed)

lemma event_header_len:
  "event_encodable ev \<Longrightarrow> unat (rh_len (event_header seq vnanos extra ev)) = encoded_event_len ev"
  using event_fields_short [of ev]
  by (auto simp: event_header_def encoded_event_len_fields pad_header_16)

lemma encoded_event_len_bounds:
  "event_encodable ev \<Longrightarrow> 16 \<le> encoded_event_len ev \<and> encoded_event_len ev \<le> 1064
     \<and> encoded_event_len ev mod 8 = 0"
  using event_fields_short [of ev] record_len_bounds [of "length (event_fields (clip_event ev))"]
  by (auto simp: encoded_event_len_fields)

lemma length_event_image:
  "event_encodable ev \<Longrightarrow> length (event_image seq vnanos extra ev) = encoded_event_len ev"
  using encoded_event_len_bounds [of ev]
  by (simp add: event_image_def length_record_image event_header_len encoded_event_len_fields)

section \<open>The event codec\<close>

lemmas field_simps = put_u32_def put_u64_def get_u32_def get_u64_def res_simps

lemma fill_region_event_eq:
  "fill_region_event r (replicate 16 0) = Ok (region_event_fields r)"
  by (simp add: fill_region_event_def region_event_fields_def field_simps patch_def)

text \<open>One encoder call whose closure leaves the fields of \<open>ev\<close> in the zeroed window.\<close>

lemma encode_with_event:
  assumes "fill (replicate n 0) = Ok (event_fields (clip_event ev))"
    and "n = length (event_fields (clip_event ev))" and "event_encodable ev" and "ev \<noteq> Ev_Pad"
    and "kind = EventKind_as_u8 (event_kind_of ev)" and "flags = event_flags extra ev"
  shows "encode_with buf kind flags seq vnanos n fill =
     (if length buf < encoded_event_len ev then Err BufferTooSmall
      else Ok (patch buf 0 (event_image seq vnanos extra ev), encoded_event_len ev))"
  using encode_with_eq [of fill, OF assms(1)] event_fields_short [OF assms(3)] assms(2-)
  by (simp add: event_image_def event_header_def encoded_event_len_fields)

lemma take_min_length [simp]: "take (min (length d) k) d = take k d"
  by (simp add: min_def)

lemma clip_flags_eq:
  "clip_flags extra (take k d) d = extra OR (if take k d \<noteq> d then FLAG_TRUNCATED else 0)"
  by (auto simp: clip_flags_def min_def)

lemma encode_event_eq:
  "encode_event buf seq vnanos extra ev =
     (if \<not> event_encodable ev then Err FieldTooLong
      else if length buf < encoded_event_len ev then Err BufferTooSmall
      else Ok (patch buf 0 (event_image seq vnanos extra ev), encoded_event_len ev))"
proof (cases ev)
  case Ev_Pad
  then show ?thesis
    by (cases "length buf < 16")
       (simp_all add: encode_event_def encode_pad_eq encoded_event_len_def event_image_def
         event_header_def pad_image, simp add: encode_pad_def)
next
  case (Ev_NameIntern i n)
  show ?thesis
  proof (cases "event_encodable ev")
    case True
    then have "encode_event buf seq vnanos extra ev =
      (if length buf < encoded_event_len ev then Err BufferTooSmall
       else Ok (patch buf 0 (event_image seq vnanos extra ev), encoded_event_len ev))"
      unfolding Ev_NameIntern encode_event_def Let_def event_payload.case
      by (subst if_not_P, simp, intro encode_with_event)
         (auto simp: field_simps patch_def event_flags_def)
    with True show ?thesis by simp
  qed (use Ev_NameIntern in \<open>simp add: encode_event_def\<close>)
next
  case (Ev_AssertViolation i c d)
  then have "event_encodable ev" by simp
  then show ?thesis
    unfolding Ev_AssertViolation encode_event_def Let_def event_payload.case
    by (simp only: not_True_eq_False if_False, intro encode_with_event)
       (auto simp: field_simps patch_def event_flags_def clip_flags_eq min.commute)
next
  case (Ev_LogLine s l m)
  then have "event_encodable ev" by simp
  then show ?thesis
    unfolding Ev_LogLine encode_event_def Let_def event_payload.case
    by (simp only: not_True_eq_False if_False, intro encode_with_event)
       (auto simp: field_simps patch_def event_flags_def clip_flags_eq min.commute)
qed ((simp only: encode_event_def Let_def event_payload.case event_encodable.simps not_True_eq_False if_False,
      (rule encode_with_event;
       simp add: field_simps patch_def event_flags_def fill_region_event_eq region_event_fields_def))+)

lemma region_event_at_fields: "region_event_at (region_event_fields r @ z) = Ok r"
  by (simp add: region_event_at_def region_event_fields_def field_simps bufs)

lemma decode_event_payload_fields:
  assumes "event_encodable ev" and "clip_event ev = ev"
  shows "decode_event_payload (event_kind_of ev) (event_fields ev @ z) = Ok ev"
  using assms
  by (cases ev)
     (simp_all add: decode_event_payload_def field_simps bufs region_event_at_fields Let_def
       unat_of_nat min_def, simp_all add: region_event_fields_def)

lemma clip_event_idem [simp]: "clip_event (clip_event ev) = clip_event ev"
  by (cases ev) simp_all

lemma clip_event_encodable [simp]: "event_encodable (clip_event ev) = event_encodable ev"
  by (cases ev) simp_all

lemma event_header_kind: "EventKind_from_u8 (rh_kind (event_header seq vnanos extra ev)) = Some (event_kind_of ev)"
  using EventKind_round_trip [of EK_Pad] by (simp add: event_header_def pad_header_def)

lemma event_frame:
  assumes "event_encodable ev"
  shows "RecordHeader_read_from (event_image seq vnanos extra ev @ rest) = Ok (event_header seq vnanos extra ev)"
    and "slice (event_image seq vnanos extra ev @ rest)
           (fst (payload_range (event_header seq vnanos extra ev)))
           (snd (payload_range (event_header seq vnanos extra ev)))
       = Ok (event_fields (clip_event ev)
           @ replicate (pad8 (length (event_fields (clip_event ev))) - length (event_fields (clip_event ev))) 0)"
  unfolding event_image_def
  by (simp_all add: frame_of_image event_header_framed event_header_len encoded_event_len_fields assms)

lemma decode_event_image:
  assumes "event_encodable ev"
  shows "decode_event (event_image seq vnanos extra ev @ rest) = Ok (event_header seq vnanos extra ev, clip_event ev)"
  using decode_event_payload_fields [of "clip_event ev"] assms
  by (simp add: decode_event_def event_frame event_header_kind)

text \<open>Decoders over arbitrary bytes: the payload window is always in range.\<close>

lemma payload_slice_Ok:
  assumes "RecordHeader_read_from b = Ok h"
  shows "slice b (fst (payload_range h)) (snd (payload_range h))
     = Ok (take (unat (rh_len h) - 16) (drop (min 16 (unat (rh_len h))) b))"
  using read_from_len [OF assms]
  by (auto simp: payload_range_def Let_def slice_def min_def)

lemma decode_event_payload_not_Panic: "decode_event_payload k p \<noteq> Panic"
  by (cases k) (auto simp: decode_event_payload_def region_event_at_def field_simps index_def Let_def)

lemma decode_event_payload_errors: "decode_event_payload k p = Err e \<Longrightarrow> e = BadLen \<or> e = BadField"
  by (cases k)
     (auto simp: decode_event_payload_def region_event_at_def field_simps index_def Let_def split: if_splits)

lemma decode_event_payload_sound:
  "decode_event_payload k p = Ok ev \<Longrightarrow> event_kind_of ev = k \<and> event_encodable ev \<and> clip_event ev = ev"
  by (cases k)
     (auto simp: decode_event_payload_def region_event_at_def field_simps index_def Let_def split: if_splits)

lemma decode_event_not_Panic: "decode_event b \<noteq> Panic"
proof
  assume "decode_event b = Panic"
  then obtain h where h: "RecordHeader_read_from b = Ok h"
    using read_from_not_Panic by (auto simp: decode_event_def bind_res_eq_Panic)
  with \<open>decode_event b = Panic\<close> show False
    using decode_event_payload_not_Panic
    by (auto simp: decode_event_def bind_res_eq_Panic payload_slice_Ok)
qed

lemma decode_event_OkD:
  assumes "decode_event b = Ok (h, ev)"
  shows "RecordHeader_read_from b = Ok h \<and> EventKind_from_u8 (rh_kind h) = Some (event_kind_of ev)
     \<and> event_encodable ev \<and> clip_event ev = ev"
  using assms decode_event_payload_sound
  by (fastforce simp: decode_event_def bind_res_eq_Ok)

section \<open>Commands and workload control\<close>

fun command_kind_of :: "command \<Rightarrow> command_kind" where
  "command_kind_of (Cmd_StartWorkload _ _) = CK_StartWorkload"
| "command_kind_of (Cmd_Quiesce _ _) = CK_Quiesce"
| "command_kind_of (Cmd_Resume _) = CK_Resume"
| "command_kind_of (Cmd_Shutdown _) = CK_Shutdown"
| "command_kind_of (Cmd_SetLogMask _) = CK_SetLogMask"
| "command_kind_of Cmd_ReverifyRegions = CK_ReverifyRegions"

fun command_fields :: "command \<Rightarrow> bytes" where
  "command_fields (Cmd_StartWorkload u m) = to_le_bytes 4 u @ to_le_bytes 4 m"
| "command_fields (Cmd_Quiesce t m) = to_le_bytes 8 t @ to_le_bytes 4 (QuiesceMode_as_u32 m) @ replicate 4 0"
| "command_fields (Cmd_Resume t) = to_le_bytes 8 t"
| "command_fields (Cmd_Shutdown m) = to_le_bytes 4 (ShutdownMode_as_u32 m) @ replicate 4 0"
| "command_fields (Cmd_SetLogMask m) = to_le_bytes 4 m @ replicate 4 0"
| "command_fields Cmd_ReverifyRegions = []"

definition command_header :: "u32 \<Rightarrow> command \<Rightarrow> record_header" where
  "command_header seq c =
     plain_header (CommandKind_as_u8 (command_kind_of c)) 0 seq 0 (length (command_fields c))"

definition command_image :: "u32 \<Rightarrow> command \<Rightarrow> bytes" where
  "command_image seq c = record_image (command_header seq c) (command_fields c)"

definition command_len :: "command \<Rightarrow> nat" where
  "command_len c = record_len (length (command_fields c))"

fun ctrl_kind_of :: "workload_ctrl \<Rightarrow> workload_ctrl_kind" where
  "ctrl_kind_of (Ctrl_QuiesceReq _) = WK_QuiesceReq"
| "ctrl_kind_of (Ctrl_Resume _) = WK_Resume"

fun ctrl_fields :: "workload_ctrl \<Rightarrow> bytes" where
  "ctrl_fields (Ctrl_QuiesceReq t) = to_le_bytes 8 t"
| "ctrl_fields (Ctrl_Resume t) = to_le_bytes 8 t"

definition ctrl_header :: "u32 \<Rightarrow> u64 \<Rightarrow> workload_ctrl \<Rightarrow> record_header" where
  "ctrl_header seq vnanos c = plain_header (WorkloadCtrlKind_as_u8 (ctrl_kind_of c)) 0 seq vnanos 8"

definition ctrl_image :: "u32 \<Rightarrow> u64 \<Rightarrow> workload_ctrl \<Rightarrow> bytes" where
  "ctrl_image seq vnanos c = record_image (ctrl_header seq vnanos c) (ctrl_fields c)"

lemma length_command_fields: "length (command_fields c) \<le> 16"
  by (cases c) simp_all

lemma length_ctrl_fields [simp]: "length (ctrl_fields c) = 8"
  by (cases c) simp_all

lemma command_len_bounds: "16 \<le> command_len c \<and> command_len c \<le> 40 \<and> command_len c mod 8 = 0"
  using length_command_fields [of c] record_len_bounds [of "length (command_fields c)"]
  by (auto simp: command_len_def)

lemma command_header_len: "unat (rh_len (command_header seq c)) = command_len c"
  using length_command_fields [of c] by (simp add: command_header_def command_len_def)

lemma command_header_framed: "header_framed (command_header seq c)"
  using length_command_fields [of c] by (simp add: command_header_def plain_header_framed)

lemma length_command_image: "length (command_image seq c) = command_len c"
  using command_len_bounds [of c]
  by (simp add: command_image_def length_record_image command_header_len command_len_def)

lemma encode_command_eq:
  "encode_command buf seq c =
     (if length buf < command_len c then Err BufferTooSmall
      else Ok (patch buf 0 (command_image seq c), command_len c))"
  unfolding command_image_def command_len_def command_header_def
  by (cases c; simp only: encode_command_def Let_def command.case command_kind_of.simps,
      subst encode_with_eq [where p = "command_fields c"];
      simp add: field_simps patch_def)

lemma decode_command_payload_fields: "decode_command_payload (command_kind_of c) (command_fields c @ z) = Ok c"
proof (cases c)
  case (Cmd_Quiesce t m)
  then show ?thesis
    by (cases m) (simp_all add: decode_command_payload_def field_simps bufs QuiesceMode_as_u32_def)
next
  case (Cmd_Shutdown m)
  then show ?thesis
    by (cases m) (simp_all add: decode_command_payload_def field_simps bufs ShutdownMode_as_u32_def)
qed (simp_all add: decode_command_payload_def field_simps bufs)

lemma command_frame:
  "RecordHeader_read_from (command_image seq c @ rest) = Ok (command_header seq c)"
  "slice (command_image seq c @ rest) (fst (payload_range (command_header seq c)))
     (snd (payload_range (command_header seq c)))
   = Ok (command_fields c @ replicate (pad8 (length (command_fields c)) - length (command_fields c)) 0)"
  unfolding command_image_def
  by (simp_all add: frame_of_image command_header_framed command_header_len command_len_def)

lemma decode_command_image: "decode_command (command_image seq c @ rest) = Ok (command_header seq c, c)"
  using CommandKind_round_trip [of "command_kind_of c"]
  by (simp add: decode_command_def command_frame decode_command_payload_fields)
     (simp add: command_header_def decode_command_payload_fields)

lemma decode_command_payload_not_Panic: "decode_command_payload k p \<noteq> Panic"
  by (cases k) (auto simp: decode_command_payload_def field_simps)

lemma decode_command_not_Panic: "decode_command b \<noteq> Panic"
  using read_from_not_Panic decode_command_payload_not_Panic
  by (auto simp: decode_command_def bind_res_eq_Panic payload_slice_Ok)

lemma ctrl_header_len: "unat (rh_len (ctrl_header seq vnanos c)) = 24"
  by (simp add: ctrl_header_def record_len_def pad8_def)

lemma ctrl_header_framed: "header_framed (ctrl_header seq vnanos c)"
  by (simp add: ctrl_header_def plain_header_framed)

lemma length_ctrl_image: "length (ctrl_image seq vnanos c) = 24"
  by (simp add: ctrl_image_def length_record_image ctrl_header_len) (simp add: record_len_def pad8_def)

lemma encode_workload_ctrl_eq:
  "encode_workload_ctrl buf seq vnanos c =
     (if length buf < 24 then Err BufferTooSmall
      else Ok (patch buf 0 (ctrl_image seq vnanos c), 24))"
proof -
  have r: "record_len 8 = 24" by (simp add: record_len_def pad8_def)
  show ?thesis
    unfolding ctrl_image_def ctrl_header_def
    by (cases c; simp only: encode_workload_ctrl_def Let_def workload_ctrl.case ctrl_kind_of.simps,
        subst encode_with_eq [where p = "ctrl_fields c"];
        simp add: field_simps patch_def r)
qed

lemma ctrl_frame:
  "RecordHeader_read_from (ctrl_image seq vnanos c @ rest) = Ok (ctrl_header seq vnanos c)"
  "slice (ctrl_image seq vnanos c @ rest) (fst (payload_range (ctrl_header seq vnanos c)))
     (snd (payload_range (ctrl_header seq vnanos c))) = Ok (ctrl_fields c)"
  using frame_of_image [OF ctrl_header_framed, of seq vnanos c "ctrl_fields c" rest]
  by (simp_all add: ctrl_image_def ctrl_header_len record_len_def pad8_def)

lemma decode_ctrl_payload_fields: "decode_ctrl_payload (ctrl_kind_of c) (ctrl_fields c) = Ok c"
  by (cases c) (simp_all add: decode_ctrl_payload_def field_simps bufs)

lemma decode_ctrl_image:
  "decode_workload_ctrl (ctrl_image seq vnanos c @ rest) = Ok (ctrl_header seq vnanos c, c)"
  using WorkloadCtrlKind_round_trip [of "ctrl_kind_of c"]
  by (simp add: decode_workload_ctrl_def ctrl_frame)
     (simp add: ctrl_header_def decode_ctrl_payload_fields)

lemma decode_ctrl_payload_not_Panic: "decode_ctrl_payload k p \<noteq> Panic"
  by (cases k) (auto simp: decode_ctrl_payload_def field_simps)

lemma decode_ctrl_not_Panic: "decode_workload_ctrl b \<noteq> Panic"
  using read_from_not_Panic decode_ctrl_payload_not_Panic
  by (auto simp: decode_workload_ctrl_def bind_res_eq_Panic payload_slice_Ok)

section \<open>The codec interface\<close>

text \<open>
  What a ring, or a client that pushes records through one, relies on: the encoder turns an
  encodable payload into its framed image in place, and the decoder inverts it from the image alone.
\<close>

locale record_codec =
  fixes enc :: "bytes \<Rightarrow> u32 \<Rightarrow> 'x \<Rightarrow> (encode_error, bytes \<times> nat) res"
    and dec :: "bytes \<Rightarrow> (decode_error, record_header \<times> 'y) res"
    and ok :: "'x \<Rightarrow> bool"
    and rlen :: "'x \<Rightarrow> nat"
    and image :: "u32 \<Rightarrow> 'x \<Rightarrow> bytes"
    and hdr :: "u32 \<Rightarrow> 'x \<Rightarrow> record_header"
    and view :: "'x \<Rightarrow> 'y"
  assumes rlen_bounds: "ok x \<Longrightarrow> 16 \<le> rlen x \<and> rlen x \<le> MAX_RECORD_LEN \<and> rlen x mod RECORD_ALIGN = 0"
    and length_image: "ok x \<Longrightarrow> length (image seq x) = rlen x"
    and enc_image: "ok x \<Longrightarrow> rlen x \<le> length buf \<Longrightarrow> enc buf seq x = Ok (patch buf 0 (image seq x), rlen x)"
    and enc_short: "ok x \<Longrightarrow> length buf < rlen x \<Longrightarrow> enc buf seq x = Err BufferTooSmall"
    and read_image: "ok x \<Longrightarrow> RecordHeader_read_from (image seq x @ rest) = Ok (hdr seq x)"
    and hdr_seq: "ok x \<Longrightarrow> rh_seq (hdr seq x) = seq"
    and hdr_len: "ok x \<Longrightarrow> unat (rh_len (hdr seq x)) = rlen x"
    and dec_image: "ok x \<Longrightarrow> dec (image seq x @ rest) = Ok (hdr seq x, view x)"
    and dec_not_Panic: "dec b \<noteq> Panic"
begin

lemma enc_exact: "ok x \<Longrightarrow> length buf = rlen x \<Longrightarrow> enc buf seq x = Ok (image seq x, rlen x)"
  by (simp add: enc_image patch_whole length_image)

lemma dec_exact: "ok x \<Longrightarrow> dec (image seq x) = Ok (hdr seq x, view x)"
  using dec_image [of x seq "[]"] by simp

lemma restrict: "record_codec enc dec (\<lambda>x. ok x \<and> P x) rlen image hdr view"
  by unfold_locales
     (auto simp: length_image enc_image enc_short read_image hdr_seq hdr_len dec_image dec_not_Panic
       dest: rlen_bounds)

lemma codec_total:
  assumes "ok x"
  shows "case enc buf seq x of
      Panic \<Rightarrow> False
    | Err e \<Rightarrow> e = BufferTooSmall \<and> length buf < rlen x
    | Ok (b, n) \<Rightarrow> n = rlen x \<and> length b = length buf \<and> drop n b = drop n buf
        \<and> dec b = Ok (hdr seq x, view x) \<and> dec (take n b) = Ok (hdr seq x, view x)"
proof (cases "rlen x \<le> length buf")
  case True
  then have "patch buf 0 (image seq x) = image seq x @ drop (rlen x) buf"
    using assms by (simp add: patch_def length_image)
  with assms True show ?thesis
    by (simp add: enc_image dec_image dec_exact length_image)
next
  case False
  with assms show ?thesis by (simp add: enc_short)
qed

text \<open>Records of one codec are self-delimiting: a common prefix decodes to one record.\<close>

lemma image_prefix_inj:
  assumes "ok x" and "ok y" and "image seq x @ r = image seq' y @ r'"
  shows "seq = seq' \<and> view x = view y \<and> r = r'"
proof -
  from assms have eq: "hdr seq x = hdr seq' y" "view x = view y"
    using dec_image [of x seq r] dec_image [of y seq' r'] by simp_all
  then have "seq = seq'"
    using assms hdr_seq [of x seq] hdr_seq [of y seq'] by simp
  moreover have "length (image seq x) = length (image seq' y)"
    using assms eq hdr_len [of x seq] hdr_len [of y seq'] by (simp add: length_image)
  ultimately show ?thesis
    using assms eq by simp
qed

end

interpretation event_codec: record_codec
  "\<lambda>buf seq (vnanos, extra, ev). encode_event buf seq vnanos extra ev" decode_event
  "\<lambda>(_, _, ev). event_encodable ev" "\<lambda>(_, _, ev). encoded_event_len ev"
  "\<lambda>seq (vnanos, extra, ev). event_image seq vnanos extra ev"
  "\<lambda>seq (vnanos, extra, ev). event_header seq vnanos extra ev" "\<lambda>(_, _, ev). clip_event ev"
proof unfold_locales
  fix x :: "u64 \<times> u8 \<times> event_payload"
  assume "case x of (_, _, ev) \<Rightarrow> event_encodable ev"
  then show "16 \<le> (case x of (_, _, ev) \<Rightarrow> encoded_event_len ev)
      \<and> (case x of (_, _, ev) \<Rightarrow> encoded_event_len ev) \<le> MAX_RECORD_LEN
      \<and> (case x of (_, _, ev) \<Rightarrow> encoded_event_len ev) mod RECORD_ALIGN = 0"
    using encoded_event_len_bounds by (fastforce split: prod.splits)
qed (auto simp: length_event_image encode_event_eq event_frame event_header_len decode_event_image
       decode_event_not_Panic)

interpretation command_codec: record_codec
  encode_command decode_command "\<lambda>_. True" command_len command_image command_header "\<lambda>c. c"
proof unfold_locales
  show "16 \<le> command_len x \<and> command_len x \<le> MAX_RECORD_LEN \<and> command_len x mod RECORD_ALIGN = 0" for x
    using command_len_bounds [of x] by simp
qed (simp_all add: length_command_image encode_command_eq command_frame command_header_len
       decode_command_image decode_command_not_Panic, simp add: command_header_def)

interpretation ctrl_codec: record_codec
  "\<lambda>buf seq (vnanos, c). encode_workload_ctrl buf seq vnanos c" decode_workload_ctrl
  "\<lambda>_. True" "\<lambda>_. 24" "\<lambda>seq (vnanos, c). ctrl_image seq vnanos c"
  "\<lambda>seq (vnanos, c). ctrl_header seq vnanos c" "\<lambda>(_, c). c"
  by unfold_locales
     (auto simp: length_ctrl_image encode_workload_ctrl_eq ctrl_frame ctrl_header_len decode_ctrl_image
       decode_ctrl_not_Panic, simp_all add: ctrl_header_def)

section \<open>Properties\<close>

text \<open>
  C24. Encoding an event is total and its errors are exact: an over-long name is refused whatever the
  buffer, a short buffer is refused, and otherwise exactly \<open>encoded_event_len\<close> bytes are written
  (the rest of the buffer is untouched) and decode, with or without the bytes behind the record, to
  the header that was asked for and to the event, its details or message clipped to the cap.
\<close>

theorem event_codec_total:
  "case encode_event buf seq vnanos extra ev of
     Panic \<Rightarrow> False
   | Err e \<Rightarrow> (\<not> event_encodable ev \<and> e = FieldTooLong)
       \<or> (event_encodable ev \<and> length buf < encoded_event_len ev \<and> e = BufferTooSmall)
   | Ok (b, n) \<Rightarrow> event_encodable ev \<and> n = encoded_event_len ev \<and> n \<le> MAX_RECORD_LEN
       \<and> length b = length buf \<and> drop n b = drop n buf
       \<and> decode_event b = Ok (event_header seq vnanos extra ev, clip_event ev)
       \<and> decode_event (take n b) = Ok (event_header seq vnanos extra ev, clip_event ev)"
proof (cases "event_encodable ev")
  case True
  then show ?thesis
    using event_codec.codec_total [of "(vnanos, extra, ev)" buf seq] encoded_event_len_bounds [of ev]
    by (auto split: res.splits prod.splits simp: encode_event_eq)
qed (simp add: encode_event_eq)

text \<open>
  C25. Decoding an event is total over arbitrary bytes: no panic; an accepted record is framed, its
  payload belongs to its kind and respects the field caps; an unknown kind is only reported for a
  record whose framing is valid, so the reader can step over it; the error set is exact.
\<close>

theorem decode_event_total:
  "case decode_event b of
     Panic \<Rightarrow> False
   | Ok (h, ev) \<Rightarrow> RecordHeader_read_from b = Ok h \<and> rh_kind h = EventKind_as_u8 (event_kind_of ev)
       \<and> event_encodable ev \<and> clip_event ev = ev
   | Err (UnknownKind k) \<Rightarrow> EventKind_from_u8 k = None
       \<and> (\<exists>h. RecordHeader_read_from b = Ok h \<and> rh_kind h = k)
   | Err e \<Rightarrow> e = Truncated \<or> e = BadLen \<or> e = BadField"
proof (cases "RecordHeader_read_from b")
  case (Ok h)
  let ?p = "take (unat (rh_len h) - 16) (drop (min 16 (unat (rh_len h))) b)"
  show ?thesis
  proof (cases "EventKind_from_u8 (rh_kind h)")
    case None
    with Ok show ?thesis by (simp add: decode_event_def payload_slice_Ok)
  next
    case (Some k)
    have "decode_event_payload k ?p = Err e \<Longrightarrow> e = BadLen \<or> e = BadField" for e
      by (rule decode_event_payload_errors)
    with Ok Some show ?thesis
      using decode_event_payload_not_Panic [of k ?p] decode_event_payload_sound [of k ?p]
        EventKind_from_u8_Some [OF Some]
      by (cases "decode_event_payload k ?p") (auto simp: decode_event_def payload_slice_Ok)
  qed
next
  case (Err e)
  then show ?thesis
    by (auto simp: decode_event_def read_from_eq Let_def split: if_splits)
next
  case Panic
  then show ?thesis using read_from_not_Panic by blast
qed

text \<open>
  Host commands survive the wire: encoding fails only for a short buffer, and every command,
  with its token and mode, is decoded from the bytes written, whatever follows them.
\<close>

theorem command_codec_total:
  "case encode_command buf seq cmd of
     Panic \<Rightarrow> False
   | Err e \<Rightarrow> e = BufferTooSmall \<and> length buf < command_len cmd
   | Ok (b, n) \<Rightarrow> n = command_len cmd \<and> length b = length buf \<and> drop n b = drop n buf
       \<and> decode_command b = Ok (command_header seq cmd, cmd)
       \<and> decode_command (take n b) = Ok (command_header seq cmd, cmd)"
  by (rule command_codec.codec_total) simp

text \<open>Workload-control records survive the wire in the same way, with their virtual time.\<close>

theorem ctrl_codec_total:
  "case encode_workload_ctrl buf seq vnanos rec of
     Panic \<Rightarrow> False
   | Err e \<Rightarrow> e = BufferTooSmall \<and> length buf < 24
   | Ok (b, n) \<Rightarrow> n = 24 \<and> length b = length buf \<and> drop n b = drop n buf
       \<and> decode_workload_ctrl b = Ok (ctrl_header seq vnanos rec, rec)
       \<and> decode_workload_ctrl (take n b) = Ok (ctrl_header seq vnanos rec, rec)"
  using ctrl_codec.codec_total [of buf seq "(vnanos, rec)"] unfolding prod.case by simp

end
