(* ===== verification/Wire_Ring.thy ===== *)
theory Wire_Ring
  imports Wire_Events
begin

text \<open>
  The SPSC byte rings of \<^verbatim>\<open>crates/detguest-wire/src/ring.rs\<close>.

  The shared memory of a ring (its bytes and the two index cells) is \<open>ring_mem\<close>; \<open>producer\<close> and
  \<open>consumer\<close> hold what each half keeps for itself. An access through the raw data pointer that
  leaves the ring's bytes is undefined behaviour in Rust and \<open>Panic\<close> in the model, so a theorem
  that excludes \<open>Panic\<close> also shows the unsafe accesses in bounds. Encoder closures return the
  buffer they leave behind; the ones the code passes write nothing when they fail.

  This theory holds the operations, the index arithmetic and what holds of a ring with arbitrary
  contents; the queue that a well-formed ring represents is in the theory on its FIFO.
\<close>

section \<open>Index arithmetic\<close>

definition used :: "u32 \<Rightarrow> u32 \<Rightarrow> u32" where
  "used prd cons = prd - cons"

definition saturating_sub :: "u32 \<Rightarrow> u32 \<Rightarrow> u32" where
  "saturating_sub a b = (if b \<le> a then a - b else 0)"

definition free :: "u32 \<Rightarrow> u32 \<Rightarrow> u32 \<Rightarrow> u32" where
  "free prd cons sz = saturating_sub sz (used prd cons)"

definition contiguous_tail :: "u32 \<Rightarrow> u32 \<Rightarrow> u32" where
  "contiguous_tail prd sz = sz - (prd AND (sz - 1))"

definition bytes_needed :: "u32 \<Rightarrow> u32 \<Rightarrow> u32 \<Rightarrow> u32" where
  "bytes_needed prd sz len =
     (let tail = contiguous_tail prd sz
      in if len > tail then tail + len else len)"

section \<open>Halves and shared memory\<close>

datatype ring_full = RingFull

record ring_mem =
  rm_data :: bytes
  rm_prod :: u32
  rm_cons :: u32

record producer =
  pr_size :: u32
  pr_next_seq :: u32

record consumer =
  co_size :: u32

definition Producer_from_raw :: "u32 \<Rightarrow> u32 \<Rightarrow> ('e, producer) res" where
  "Producer_from_raw sz next_seq =
     (if is_power_of_two sz \<and> unat sz \<ge> MAX_RECORD_LEN
      then Ok \<lparr>pr_size = sz, pr_next_seq = next_seq\<rparr> else Panic)"

definition Consumer_from_raw :: "u32 \<Rightarrow> ('e, consumer) res" where
  "Consumer_from_raw sz =
     (if is_power_of_two sz \<and> unat sz \<ge> MAX_RECORD_LEN
      then Ok \<lparr>co_size = sz\<rparr> else Panic)"

definition free_bytes :: "producer \<Rightarrow> ring_mem \<Rightarrow> u32" where
  "free_bytes self m = free (rm_prod m) (rm_cons m) (pr_size self)"

definition used_bytes :: "ring_mem \<Rightarrow> u32" where
  "used_bytes m = used (rm_prod m) (rm_cons m)"

section \<open>Producer\<close>

definition alloc_seq :: "producer \<Rightarrow> u32 \<times> producer" where
  "alloc_seq self = (pr_next_seq self, self\<lparr>pr_next_seq := pr_next_seq self + 1\<rparr>)"

text \<open>\<open>slice_mut(off, n)\<close> handed to a writer.\<close>

definition slice_mut ::
  "bytes \<Rightarrow> u32 \<Rightarrow> nat \<Rightarrow> (bytes \<Rightarrow> ('e, bytes \<times> nat) res) \<Rightarrow> ('e, bytes) res" where
  "slice_mut data off n write =
     bind_res (slice data (unat off) (unat off + n)) (\<lambda>dst.
     bind_res (write dst) (\<lambda>(dst, written).
     put_slice data (unat off) (unat off + n) dst))"

text \<open>The tail pad of \<open>try_push\<close>: the producer after it, the bytes and the record's position.\<close>

definition push_pad :: "producer \<Rightarrow> bytes \<Rightarrow> u32 \<Rightarrow> (encode_error, producer \<times> bytes \<times> u32) res" where
  "push_pad self data prd =
     (let tail = unat (contiguous_tail prd (pr_size self)); (seq, self) = alloc_seq self
      in bind_res (slice_mut data (prd AND (pr_size self - 1)) tail (\<lambda>dst. encode_pad dst tail seq)) (\<lambda>data.
         Ok (self, data, prd + of_nat tail)))"

text \<open>
  \<open>try_push\<close> over the indices it loaded: the outcome, the producer, the ring's bytes and the
  producer index to publish (\<open>None\<close> when nothing is published).
\<close>

definition push_loaded ::
  "producer \<Rightarrow> bytes \<Rightarrow> u32 \<Rightarrow> u32 \<Rightarrow> nat \<Rightarrow> (bytes \<Rightarrow> u32 \<Rightarrow> (encode_error, bytes \<times> nat) res)
    \<Rightarrow> (ring_full, u32) res \<times> producer \<times> bytes \<times> u32 option" where
  "push_loaded self data prd cons total_len encode =
     (let len = of_nat total_len; sz = pr_size self; needed = bytes_needed prd sz len
      in if free prd cons sz < needed then (Err RingFull, self, data, None)
         else case (if needed > len then push_pad self data prd else Ok (self, data, prd)) of
                Ok (self, data, pos) \<Rightarrow>
                  (let (seq, self) = alloc_seq self
                   in case slice_mut data (pos AND (sz - 1)) total_len (\<lambda>dst. encode dst seq) of
                        Ok data \<Rightarrow> (Ok seq, self, data, Some (prd + needed))
                      | Err e \<Rightarrow> (Err RingFull, self, data, None)
                      | Panic \<Rightarrow> (Panic, self, data, None))
              | _ \<Rightarrow> (Panic, self, data, None))"

definition publish :: "u32 option \<Rightarrow> u32 \<Rightarrow> u32" where
  "publish p old = (case p of Some new \<Rightarrow> new | None \<Rightarrow> old)"

definition try_push ::
  "producer \<Rightarrow> ring_mem \<Rightarrow> nat \<Rightarrow> (bytes \<Rightarrow> u32 \<Rightarrow> (encode_error, bytes \<times> nat) res)
    \<Rightarrow> (ring_full, u32) res \<times> producer \<times> ring_mem" where
  "try_push self m total_len encode =
     (let (r, self, data, p) = push_loaded self (rm_data m) (rm_prod m) (rm_cons m) total_len encode
      in (r, self, m\<lparr>rm_data := data, rm_prod := publish p (rm_prod m)\<rparr>))"

section \<open>Consumer\<close>

definition copy_out :: "bytes \<Rightarrow> u32 \<Rightarrow> nat \<Rightarrow> (decode_error, bytes) res" where
  "copy_out data off n = slice data (unat off) (unat off + n)"

text \<open>\<open>pop_into\<close> over the indices it loaded: outcome, scratch buffer, consumer index to publish.\<close>

definition pop_loaded ::
  "consumer \<Rightarrow> bytes \<Rightarrow> u32 \<Rightarrow> u32 \<Rightarrow> bytes
    \<Rightarrow> (decode_error, nat option) res \<times> bytes \<times> u32 option" where
  "pop_loaded self data prd cons scratch =
     (let avail = used prd cons; off = cons AND (co_size self - 1);
          tail = contiguous_tail cons (co_size self)
      in if avail = 0 then (Ok None, scratch, None)
         else if avail < of_nat PAD_MIN_LEN \<or> tail < of_nat PAD_MIN_LEN \<or> length scratch < PAD_MIN_LEN
         then (Err Truncated, scratch, None)
         else case copy_out data off PAD_MIN_LEN of
                Ok peek \<Rightarrow>
                  (let scratch = patch scratch 0 peek;
                       len = unat (le_at 2 scratch 0 :: u16);
                       min = (if scratch ! 2 = 0 then PAD_MIN_LEN else MIN_RECORD_LEN)
                   in if len mod RECORD_ALIGN \<noteq> 0 \<or> len < min \<or> len > MAX_RECORD_LEN
                      then (Err BadLen, scratch, None)
                      else if of_nat len > avail \<or> of_nat len > tail then (Err Truncated, scratch, None)
                      else if length scratch < len then (Err Truncated, scratch, None)
                      else case copy_out data off len of
                             Ok rec \<Rightarrow>
                               (let scratch = patch scratch 0 rec
                                in case RecordHeader_read_from (take len scratch) of
                                     Ok _ \<Rightarrow> (Ok (Some len), scratch, Some (cons + of_nat len))
                                   | Err e \<Rightarrow> (Err e, scratch, None)
                                   | Panic \<Rightarrow> (Panic, scratch, None))
                           | _ \<Rightarrow> (Panic, scratch, None))
              | _ \<Rightarrow> (Panic, scratch, None))"

definition pop_into ::
  "consumer \<Rightarrow> ring_mem \<Rightarrow> bytes \<Rightarrow> (decode_error, nat option) res \<times> ring_mem \<times> bytes" where
  "pop_into self m scratch =
     (let (r, scratch, p) = pop_loaded self (rm_data m) (rm_prod m) (rm_cons m) scratch
      in (r, m\<lparr>rm_cons := publish p (rm_cons m)\<rparr>, scratch))"

section \<open>Index lemmas\<close>

definition ring_size_ok :: "u32 \<Rightarrow> bool" where
  "ring_size_ok sz \<longleftrightarrow> is_power_of_two sz \<and> MAX_RECORD_LEN \<le> unat sz"

lemma ring_size_pow:
  assumes "ring_size_ok sz"
  obtains k where "unat sz = 2 ^ k" and "12 \<le> k" and "k \<le> 31"
proof -
  from assms obtain k where k: "k < 32" "unat sz = 2 ^ k" "4096 \<le> unat sz"
    by (auto simp: ring_size_ok_def is_power_of_two_iff)
  have "(2::nat) ^ 12 \<le> 2 ^ k" using k by simp
  then have "12 \<le> k" by (rule power_le_imp_le_exp [rotated]) simp
  with k that show thesis by simp
qed

lemma ring_size_facts:
  assumes "ring_size_ok sz"
  shows "4096 \<le> unat sz" "unat sz \<le> 2 ^ 31" "8 dvd unat sz" "unat sz dvd 2 ^ 32"
proof -
  obtain k where k: "unat sz = 2 ^ k" "12 \<le> k" "k \<le> 31"
    using assms by (rule ring_size_pow)
  show "4096 \<le> unat sz" using assms by (simp add: ring_size_ok_def)
  show "unat sz \<le> 2 ^ 31" unfolding k(1) using k(3) by (intro power_increasing) auto
  have "(2::nat) ^ 3 dvd 2 ^ k" using k(2) by (intro le_imp_power_dvd) simp
  then show "8 dvd unat sz" by (simp add: k(1))
  show "unat sz dvd 2 ^ 32" unfolding k(1) using k(3) by (intro le_imp_power_dvd) simp
qed

text \<open>Offsets of free-running indices do not notice the wrap at \<open>2 ^ 32\<close>.\<close>

lemma unat_mod_ring:
  assumes "ring_size_ok sz"
  shows "unat (of_nat p :: u32) mod unat sz = p mod unat sz"
proof -
  have "p mod 2 ^ 32 mod unat sz = p mod unat sz"
    using ring_size_facts(4) [OF assms] by (rule mod_mod_cancel)
  then show ?thesis by (simp add: unat_of_nat)
qed

lemma unat_off:
  "ring_size_ok sz \<Longrightarrow> unat ((of_nat p :: u32) AND (sz - 1)) = p mod unat sz"
  by (simp add: unat_and_mask_pow2 ring_size_ok_def unat_mod_ring)

lemma unat_tail:
  assumes "ring_size_ok sz"
  shows "unat (contiguous_tail (of_nat p) sz) = unat sz - p mod unat sz"
proof -
  have "unat ((of_nat p :: u32) AND (sz - 1)) < unat sz"
    using assms ring_size_facts(1) [OF assms] by (simp add: unat_off)
  then show ?thesis
    using assms by (simp add: contiguous_tail_def unat_sub_word word_le_nat_alt unat_off)
qed

lemma unat_used: "n < 2 ^ 32 \<Longrightarrow> unat (used (of_nat (p + n)) (of_nat p)) = n"
  by (simp add: used_def unat_of_nat)

lemma unat_free:
  "n \<le> unat sz \<Longrightarrow> unat (free (of_nat (p + n)) (of_nat p) sz) = unat sz - n"
  using unat_used [of n p] unsigned_less [of sz, where ?'a = nat]
  by (simp add: free_def saturating_sub_def word_le_nat_alt unat_sub_word)

text \<open>The pad decision of \<open>try_push\<close>, over natural numbers.\<close>

definition pad_len :: "nat \<Rightarrow> nat \<Rightarrow> nat \<Rightarrow> nat" where
  "pad_len s p len = (if len > s - p mod s then s - p mod s else 0)"

lemma unat_needed:
  assumes "ring_size_ok sz" and "len \<le> 4096"
  shows "unat (bytes_needed (of_nat p) sz (of_nat len)) = pad_len (unat sz) p len + len"
proof -
  have t: "unat (contiguous_tail (of_nat p) sz) = unat sz - p mod unat sz"
    using assms by (intro unat_tail)
  have l: "unat (of_nat len :: u32) = len"
    using assms by (simp add: unat_of_nat)
  have "unat sz - p mod unat sz + len < 2 ^ 32"
    using assms ring_size_facts(2) [OF assms(1)] by simp
  then show ?thesis
    using t l by (auto simp: bytes_needed_def Let_def pad_len_def word_less_nat_alt unat_add_no_wrap)
qed

section \<open>Popping from arbitrary memory\<close>

text \<open>The framing rule \<open>pop_into\<close> applies to the bytes at the consumer position.\<close>

definition pop_frame_ok :: "bytes \<Rightarrow> bool" where
  "pop_frame_ok win \<longleftrightarrow>
     (let len = unat (le_at 2 win 0 :: u16)
      in len mod 8 = 0 \<and> (if win ! 2 = 0 then 8 else 16) \<le> len \<and> len \<le> 4096)"

lemma read_from_window:
  assumes "pop_frame_ok win" and "len = unat (le_at 2 win 0 :: u16)" and "len \<le> length win"
  shows "RecordHeader_read_from (take len win) = Ok (header_at (take len win))"
proof -
  have "8 \<le> len" using assms(1,2) by (auto simp: pop_frame_ok_def Let_def split: if_splits)
  then have "le_at 2 (take len win) 0 = (le_at 2 win 0 :: u16)" "take len win ! 2 = win ! 2"
    by (simp_all add: bufs)
  with assms \<open>8 \<le> len\<close> show ?thesis
    by (simp add: read_from_Ok_iff framed_def pop_frame_ok_def Let_def)
qed

lemma pop_loaded_eq:
  assumes sz: "ring_size_ok (co_size self)" and data: "length data = unat (co_size self)"
    and off: "off = unat cons mod unat (co_size self)" and win: "win = drop off data"
    and avail: "avail = unat (used prd cons)"
  shows "pop_loaded self data prd cons scratch =
     (let len = unat (le_at 2 win 0 :: u16); peeked = patch scratch 0 (take 8 win)
      in if avail = 0 then (Ok None, scratch, None)
         else if avail < 8 \<or> length win < 8 \<or> length scratch < 8 then (Err Truncated, scratch, None)
         else if \<not> pop_frame_ok win then (Err BadLen, peeked, None)
         else if len > avail \<or> len > length win \<or> len > length scratch then (Err Truncated, peeked, None)
         else (Ok (Some len), patch scratch 0 (take len win), Some (cons + of_nat len)))"
proof -
  let ?s = "unat (co_size self)" and ?len = "unat (le_at 2 win 0 :: u16)"
  have o: "unat (cons AND (co_size self - 1)) = off"
    using sz unat_off [of "co_size self" "unat cons"] by (simp add: off)
  have off_less: "off < ?s"
    using ring_size_facts(1) [OF sz] by (simp add: off)
  have t: "unat (contiguous_tail cons (co_size self)) = length win"
    using sz unat_tail [of "co_size self" "unat cons"] by (simp add: off win data)
  have z: "used prd cons = 0 \<longleftrightarrow> avail = 0"
    by (simp add: avail unat_eq_0)
  have l: "unat (ucast (le_at 2 win 0 :: u16) :: u32) = ?len"
    using unsigned_less [of "le_at 2 win 0 :: u16", where ?'a = nat]
    by (simp add: unsigned_ucast_eq take_bit_nat_eq_self)
  have co: "copy_out data (cons AND (co_size self - 1)) n = Ok (take n win)" if "n \<le> length win" for n
    using that o off_less by (simp add: copy_out_def slice_def data win)
  have pk: "le_at 2 (patch scratch 0 (take 8 win)) 0 = (le_at 2 win 0 :: u16)"
       "patch scratch 0 (take 8 win) ! 2 = win ! 2"
    if "8 \<le> length win" "8 \<le> length scratch"
    using that by (simp_all add: bufs min_def)
  have pp: "patch (patch scratch 0 (take 8 win)) 0 (take ?len win) = patch scratch 0 (take ?len win)"
    if "8 \<le> ?len" "?len \<le> length win" "?len \<le> length scratch"
    using that by (intro patch_patch_longer) auto
  have tk: "take ?len (patch scratch 0 (take ?len win)) = take ?len win" if "?len \<le> length win"
    using that take_patch_0 [of "take ?len win" scratch] by simp
  have small: "8 \<le> ?len" if "pop_frame_ok win"
    using that by (auto simp: pop_frame_ok_def Let_def split: if_splits)
  have frame: "?len mod 8 \<noteq> 0 \<or> ?len < (if win ! 2 = 0 then 8 else 16) \<or> 4096 < ?len \<longleftrightarrow> \<not> pop_frame_ok win"
    by (auto simp: pop_frame_ok_def Let_def)
  show ?thesis
  proof (cases "avail = 0 \<or> avail < 8 \<or> length win < 8 \<or> length scratch < 8")
    case True
    then show ?thesis
      by (auto simp: pop_loaded_def Let_def z t word_less_nat_alt avail [symmetric])
  next
    case False
    then show ?thesis
      using frame small read_from_window [of win ?len]
      by (auto simp: pop_loaded_def Let_def z t word_less_nat_alt avail [symmetric] co pk l pp tk)
  qed
qed

lemma used_after_pop:
  "n \<le> unat (used p c) \<Longrightarrow> unat (used p (c + of_nat n)) = unat (used p c) - n"
proof -
  assume n: "n \<le> unat (used p c)"
  then have "n < 2 ^ 32"
    using unsigned_less [of "used p c", where ?'a = nat] by simp
  then have "unat (of_nat n :: u32) = n" by (simp add: unat_of_nat)
  with n have "unat (used p c - of_nat n) = unat (used p c) - n"
    by (subst unat_sub_word) (simp_all add: word_le_nat_alt)
  then show ?thesis by (simp add: used_def diff_diff_eq)
qed

text \<open>
  C26. A consumer is safe on any ring memory, with any index cells and any bytes: \<open>pop_into\<close> never
  reads outside the ring and never panics, never touches the ring's bytes or the producer cell,
  consumes nothing on an error, and what it delivers is one framed record, copied whole from the
  consumer position, by whose length the used bytes shrink.
\<close>

theorem pop_into_safe:
  assumes "ring_size_ok (co_size self)" and "length (rm_data m) = unat (co_size self)"
  shows "case pop_into self m scratch of (r, m', scratch') \<Rightarrow>
     length scratch' = length scratch \<and> rm_data m' = rm_data m \<and> rm_prod m' = rm_prod m
     \<and> (case r of
          Panic \<Rightarrow> False
        | Err e \<Rightarrow> rm_cons m' = rm_cons m \<and> (e = Truncated \<or> e = BadLen)
        | Ok None \<Rightarrow> m' = m \<and> used_bytes m = 0
        | Ok (Some n) \<Rightarrow> is_ok (RecordHeader_read_from (take n scratch'))
            \<and> take n scratch' = take n (drop (unat (rm_cons m) mod unat (co_size self)) (rm_data m))
            \<and> 8 \<le> n \<and> n \<le> MAX_RECORD_LEN \<and> n \<le> unat (used_bytes m)
            \<and> rm_cons m' = rm_cons m + of_nat n
            \<and> unat (used_bytes m') = unat (used_bytes m) - n)"
proof -
  let ?win = "drop (unat (rm_cons m) mod unat (co_size self)) (rm_data m)"
  let ?len = "unat (le_at 2 ?win 0 :: u16)"
  note eq = pop_loaded_eq [OF assms refl refl refl, of "rm_prod m" "rm_cons m" scratch]
  have tk: "take ?len (patch scratch 0 (take ?len ?win)) = take ?len ?win" if "?len \<le> length ?win"
    using that take_patch_0 [of "take ?len ?win" scratch] by (simp del: take_patch_0)
  have rd: "is_ok (RecordHeader_read_from (take ?len ?win))" "8 \<le> ?len" "?len \<le> 4096"
    if "pop_frame_ok ?win" "?len \<le> length ?win"
    using that read_from_window [of ?win ?len]
    by (auto simp: pop_frame_ok_def Let_def split: if_splits)
  show ?thesis
    using tk rd used_after_pop [of ?len "rm_prod m" "rm_cons m"]
    by (auto simp: pop_into_def eq Let_def publish_def used_bytes_def unat_eq_0 [symmetric])
qed

theorem pop_into_safe_witness:
  "case pop_into \<lparr>co_size = 4096\<rparr>
          \<lparr>rm_data = [8, 0, 0, 0] @ replicate 4092 0, rm_prod = 8, rm_cons = 0\<rparr> (replicate 16 7)
   of (r, m', scratch') \<Rightarrow> length scratch' = 16 \<and> rm_prod m' = 8 \<and> r \<noteq> Panic"
proof -
  have "ring_size_ok 4096"
    by (simp add: ring_size_ok_def pow2_sizes)
  then show ?thesis
    using pop_into_safe [of "\<lparr>co_size = 4096\<rparr>"
        "\<lparr>rm_data = [8, 0, 0, 0] @ replicate 4092 0, rm_prod = 8, rm_cons = 0\<rparr>" "replicate 16 7"]
    by (auto split: prod.splits res.splits)
qed

end
