(* ===== verification/Ring_Fifo.thy ===== *)
theory Ring_Fifo
  imports Wire_Ring
begin

text \<open>
  The queue a ring implements. A ring represents a list of records when the used region, read from
  the consumer position, is the concatenation of those records, none of them wrapping. Pushing
  appends the record, preceded by one tail pad exactly when the record does not fit in the tail;
  popping delivers the head. The interface is the locale \<open>record_queue\<close>; its client lemmas (order,
  no loss, consecutive sequence numbers) are proved once there and interpreted on the rings.
\<close>

section \<open>Representation\<close>

definition good_record :: "bytes \<Rightarrow> bool" where
  "good_record r = (case RecordHeader_read_from r of Ok h \<Rightarrow> unat (rh_len h) = length r | _ \<Rightarrow> False)"

definition ring_total :: "bytes list \<Rightarrow> nat" where
  "ring_total recs = sum_list (map length recs)"

lemma total_simps [simp]:
  "ring_total [] = 0" "ring_total (r # rs) = length r + ring_total rs" "ring_total (xs @ ys) = ring_total xs + ring_total ys"
  by (simp_all add: ring_total_def)

text \<open>\<open>recs\<close> lie in the ring's bytes from free-running position \<open>p\<close> on, none of them wrapping.\<close>

fun stored :: "nat \<Rightarrow> bytes \<Rightarrow> nat \<Rightarrow> bytes list \<Rightarrow> bool" where
  "stored s data p [] \<longleftrightarrow> True"
| "stored s data p (r # rs) \<longleftrightarrow>
     p mod s + length r \<le> s \<and> take (length r) (drop (p mod s) data) = r \<and> stored s data (p + length r) rs"

definition ring_rep :: "u32 \<Rightarrow> ring_mem \<Rightarrow> bytes list \<Rightarrow> bool" where
  "ring_rep sz m recs \<longleftrightarrow>
     ring_size_ok sz \<and> length (rm_data m) = unat sz \<and> unat (rm_cons m) mod 8 = 0
     \<and> rm_prod m = rm_cons m + of_nat (ring_total recs) \<and> ring_total recs \<le> unat sz
     \<and> list_all good_record recs \<and> stored (unat sz) (rm_data m) (unat (rm_cons m)) recs"

lemma good_record_length:
  "good_record r \<Longrightarrow> 8 \<le> length r \<and> length r \<le> 4096 \<and> length r mod 8 = 0"
  by (auto simp: good_record_def read_from_Ok_iff framed_def header_at_def split: res.splits if_splits)

lemma good_record_frame:
  "good_record r \<Longrightarrow> pop_frame_ok r \<and> unat (le_at 2 r 0 :: u16) = length r"
  by (auto simp: good_record_def read_from_Ok_iff framed_def header_at_def pop_frame_ok_def
      split: res.splits if_splits)

lemma add_mod8: "a mod 8 = 0 \<Longrightarrow> b mod 8 = 0 \<Longrightarrow> (a + b) mod (8::nat) = 0"
  by (simp add: mod_eq_0_iff_dvd)

lemma total_mod8: "list_all good_record rs \<Longrightarrow> ring_total rs mod 8 = 0"
  by (induction rs) (auto dest: good_record_length intro!: add_mod8)

lemma stored_mod: "p mod s = q mod s \<Longrightarrow> stored s data p rs = stored s data q rs"
proof (induction rs arbitrary: p q)
  case (Cons r rs)
  have "(p + length r) mod s = (q + length r) mod s"
    using Cons.prems by (metis mod_add_left_eq)
  then have "stored s data (p + length r) rs = stored s data (q + length r) rs"
    by (rule Cons.IH)
  with Cons.prems show ?case by (simp only: stored.simps)
qed simp

lemma stored_append:
  "stored s data p (xs @ ys) \<longleftrightarrow> stored s data p xs \<and> stored s data (p + ring_total xs) ys"
  by (induction xs arbitrary: p) (auto simp: add.assoc)

text \<open>
  Two windows whose free-running positions are less than one lap apart do not meet modulo the size.
\<close>

lemma window_disjoint:
  assumes "0 < s" and "p + n \<le> q" and "q + l \<le> p + (s::nat)"
  shows "p mod s + n \<le> q mod s \<or> q mod s + l \<le> p mod s"
proof -
  define a d where "a = p mod s" and "d = q - p"
  have d: "n \<le> d" "d + l \<le> s" using assms by (auto simp: d_def)
  have "q = p + d" using assms by (simp add: d_def)
  then have q: "q mod s = (a + d) mod s"
    by (simp add: a_def mod_add_left_eq)
  have "a < s" using assms by (simp add: a_def)
  show ?thesis
  proof (cases "a + d < s")
    case True
    then show ?thesis using q d by (simp add: a_def [symmetric])
  next
    case False
    then have "q mod s = a + d - s"
      using q \<open>a < s\<close> d by (simp add: mod_if)
    then have "q mod s + l \<le> a" using d False by linarith
    then show ?thesis by (simp add: a_def)
  qed
qed

lemma stored_patch:
  assumes "stored s data p rs" and "0 < s" and "length data = s"
    and "p + ring_total rs \<le> q" and "q + length src \<le> p + s" and "q mod s + length src \<le> s"
  shows "stored s (patch data (q mod s) src) p rs"
  using assms
proof (induction rs arbitrary: p)
  case (Cons r rs)
  have d: "p mod s + length r \<le> q mod s \<or> q mod s + length src \<le> p mod s"
    using Cons.prems by (intro window_disjoint) auto
  have "take (length r) (drop (p mod s) (patch data (q mod s) src)) = take (length r) (drop (p mod s) data)"
    using d Cons.prems by (auto simp: bufs)
  then show ?case
    using Cons by simp
qed simp

lemma stored_here:
  "length data = s \<Longrightarrow> q mod s + length r \<le> s \<Longrightarrow> stored s (patch data (q mod s) r) q [r]"
  by (simp add: bufs)

section \<open>Pushing\<close>

lemma slice_mut_eq:
  assumes "unat off + n \<le> length data"
    and "\<And>dst. length dst = n \<Longrightarrow> write dst = Ok (r, k)" and "length r = n"
  shows "slice_mut data off n write = Ok (patch data (unat off) r)"
  using assms by (simp add: slice_mut_def res_simps)

lemma good_pad_record: "8 \<le> t \<Longrightarrow> t \<le> 4096 \<Longrightarrow> t mod 8 = 0 \<Longrightarrow> good_record (pad_record t seq)"
  by (simp add: good_record_def read_from_pad_record pad_header_def unat_pad_len)

lemma pad_len_props:
  assumes "ring_size_ok sz" and "p mod 8 = 0" and "len \<le> 4096" and "pad_len (unat sz) p len > 0"
  shows "8 \<le> pad_len (unat sz) p len" "pad_len (unat sz) p len < len" "pad_len (unat sz) p len mod 8 = 0"
    "p mod unat sz + pad_len (unat sz) p len = unat sz"
proof -
  let ?s = "unat sz"
  have s: "0 < ?s" "?s mod 8 = 0"
    using ring_size_facts [OF assms(1)] by auto
  have t: "pad_len ?s p len = ?s - p mod ?s" "len > ?s - p mod ?s"
    using assms(4) by (auto simp: pad_len_def split: if_splits)
  have "p mod ?s mod 8 = 0"
    using assms(2) ring_size_facts(3) [OF assms(1)] by (simp add: mod_mod_cancel)
  moreover have "p mod ?s < ?s" using s by simp
  ultimately have "8 dvd ?s - p mod ?s"
    using s by (intro dvd_diff_nat) auto
  then show m: "pad_len ?s p len mod 8 = 0"
    using t by simp
  show "8 \<le> pad_len ?s p len"
    using m assms(4) by (intro dvd_imp_le) auto
  show "pad_len ?s p len < len" using t by simp
  show "p mod ?s + pad_len ?s p len = ?s" using t \<open>p mod ?s < ?s\<close> by simp
qed

text \<open>
  A push at free-running position \<open>P\<close>, with a consumer index \<open>C\<close> that was loaded before: the pads it
  writes, the sequence number of the record and the bytes it leaves.
\<close>

definition pads :: "nat \<Rightarrow> nat \<Rightarrow> nat \<Rightarrow> u32 \<Rightarrow> bytes list" where
  "pads s P len seq = (if 0 < pad_len s P len then [pad_record (pad_len s P len) seq] else [])"

definition record_seq :: "nat \<Rightarrow> nat \<Rightarrow> nat \<Rightarrow> u32 \<Rightarrow> u32" where
  "record_seq s P len seq = (if 0 < pad_len s P len then seq + 1 else seq)"

definition padded_data :: "nat \<Rightarrow> bytes \<Rightarrow> nat \<Rightarrow> nat \<Rightarrow> u32 \<Rightarrow> bytes" where
  "padded_data s data P len seq =
     (if 0 < pad_len s P len then patch data (P mod s) (pad_record (pad_len s P len) seq) else data)"

definition pushed_data :: "nat \<Rightarrow> bytes \<Rightarrow> nat \<Rightarrow> bytes \<Rightarrow> u32 \<Rightarrow> bytes" where
  "pushed_data s data P r seq =
     patch (padded_data s data P (length r) seq) ((P + pad_len s P (length r)) mod s) r"

lemma total_pads:
  assumes "ring_size_ok sz" and "P mod 8 = 0" and "len \<le> 4096"
  shows "ring_total (pads (unat sz) P len seq) = pad_len (unat sz) P len"
  using pad_len_props [OF assms] assms(3) by (auto simp: pads_def)

lemma good_pads:
  assumes "ring_size_ok sz" and "P mod 8 = 0" and "len \<le> 4096"
  shows "list_all good_record (pads (unat sz) P len seq)"
  using pad_len_props [OF assms] assms(3) by (auto simp: pads_def intro!: good_pad_record)

lemma record_window:
  assumes "ring_size_ok sz" and "len \<le> 4096"
  shows "(P + pad_len (unat sz) P len) mod unat sz + len \<le> unat sz"
proof -
  let ?s = "unat sz"
  have s: "4096 \<le> ?s" using ring_size_facts [OF assms(1)] by simp
  show ?thesis
  proof (cases "len > ?s - P mod ?s")
    case True
    have "P mod ?s \<le> ?s" using s by (intro less_imp_le mod_less_divisor) simp
    then have "(P mod ?s + (?s - P mod ?s)) mod ?s = 0" by simp
    then have "(P + (?s - P mod ?s)) mod ?s = 0" by (metis mod_add_left_eq)
    with True s assms show ?thesis by (simp add: pad_len_def)
  next
    case False
    have "P mod ?s < ?s" using s by (intro mod_less_divisor) simp
    with False show ?thesis by (simp add: pad_len_def)
  qed
qed

lemma length_pushed_data:
  assumes "ring_size_ok sz" and "P mod 8 = 0" and "length r \<le> 4096" and "length data = unat sz"
  shows "length (padded_data (unat sz) data P (length r) seq) = unat sz"
    and "length (pushed_data (unat sz) data P r seq) = unat sz"
proof -
  show pd: "length (padded_data (unat sz) data P (length r) seq) = unat sz"
    using pad_len_props [OF assms(1-3)] assms by (auto simp: padded_data_def)
  show "length (pushed_data (unat sz) data P r seq) = unat sz"
    using record_window [OF assms(1,3), of P] pd by (simp add: pushed_data_def)
qed

lemma stored_pushed:
  assumes sz: "ring_size_ok sz" and P: "P mod 8 = 0" and r: "length r \<le> 4096"
    and data: "length data = unat sz"
    and fits: "P + pad_len (unat sz) P (length r) + length r \<le> C + unat sz" and C: "C \<le> P"
  shows "stored (unat sz) (pushed_data (unat sz) data P r seq) P (pads (unat sz) P (length r) seq @ [r])"
    and "stored (unat sz) data p rs \<Longrightarrow> C \<le> p \<Longrightarrow> p + ring_total rs \<le> P \<Longrightarrow>
           stored (unat sz) (pushed_data (unat sz) data P r seq) p rs"
proof -
  let ?s = "unat sz" and ?n = "pad_len (unat sz) P (length r)"
  let ?pd = "padded_data ?s data P (length r) seq"
  have s: "0 < ?s" using ring_size_facts [OF sz] by simp
  note pl = pad_len_props [OF sz P r]
  note w = record_window [OF sz r, of P]
  note ln = length_pushed_data [OF sz P r data, of seq]
  have here: "stored ?s (pushed_data ?s data P r seq) (P + ?n) [r]"
    unfolding pushed_data_def using ln w by (intro stored_here) auto
  have keep: "stored ?s ?pd p rs \<Longrightarrow> C \<le> p \<Longrightarrow> p + ring_total rs \<le> P + ?n \<Longrightarrow>
      stored ?s (pushed_data ?s data P r seq) p rs" for p rs
    unfolding pushed_data_def using ln w s fits by (intro stored_patch) auto
  have "stored ?s ?pd P (pads ?s P (length r) seq)"
    using pl data r stored_here [of data ?s P "pad_record ?n seq"]
    by (auto simp: padded_data_def pads_def)
  then have "stored ?s (pushed_data ?s data P r seq) P (pads ?s P (length r) seq)"
    using keep C total_pads [OF sz P r] by simp
  with here show "stored ?s (pushed_data ?s data P r seq) P (pads ?s P (length r) seq @ [r])"
    using total_pads [OF sz P r] by (simp add: stored_append)
  assume old: "stored ?s data p rs" "C \<le> p" "p + ring_total rs \<le> P"
  have "stored ?s ?pd p rs"
  proof (cases "0 < ?n")
    case True
    then show ?thesis
      unfolding padded_data_def using old pl r s data fits by (auto intro!: stored_patch)
  qed (use old in \<open>simp add: padded_data_def\<close>)
  with old keep show "stored ?s (pushed_data ?s data P r seq) p rs" by simp
qed

lemma push_pad_eq:
  assumes sz: "ring_size_ok (pr_size self)" and P: "P mod 8 = 0" and len: "len \<le> 4096"
    and data: "length data = unat (pr_size self)" and pad: "0 < pad_len (unat (pr_size self)) P len"
  shows "push_pad self data (of_nat P) =
     Ok (self\<lparr>pr_next_seq := pr_next_seq self + 1\<rparr>,
         padded_data (unat (pr_size self)) data P len (pr_next_seq self),
         of_nat (P + pad_len (unat (pr_size self)) P len))"
proof -
  let ?s = "unat (pr_size self)" and ?n = "pad_len (unat (pr_size self)) P len"
  note pl = pad_len_props [OF sz P len pad]
  have tail: "unat (contiguous_tail (of_nat P) (pr_size self)) = ?n"
    using unat_tail [OF sz, of P] pad by (auto simp: pad_len_def split: if_splits)
  have "slice_mut data ((of_nat P) AND (pr_size self - 1)) ?n (\<lambda>dst. encode_pad dst ?n (pr_next_seq self))
      = Ok (patch data (unat ((of_nat P) AND (pr_size self - 1))) (pad_record ?n (pr_next_seq self)))"
    using pl len data unat_off [OF sz, of P]
    by (intro slice_mut_eq [where k = ?n]) (simp_all add: encode_pad_eq patch_whole)
  with pad unat_off [OF sz, of P] show ?thesis
    by (simp add: push_pad_def alloc_seq_def Let_def tail padded_data_def)
qed

lemma push_loaded_eq:
  assumes sz: "ring_size_ok (pr_size self)" and P: "P mod 8 = 0" and len: "len \<le> 4096"
    and data: "length data = unat (pr_size self)"
    and C: "C \<le> P" "P \<le> C + unat (pr_size self)"
    and seq: "seq = record_seq (unat (pr_size self)) P len (pr_next_seq self)"
    and enc: "\<And>dst. length dst = len \<Longrightarrow> encode dst seq = Ok (r, k)" and r: "length r = len"
  shows "push_loaded self data (of_nat P) (of_nat C) len encode =
     (if C + unat (pr_size self) < P + pad_len (unat (pr_size self)) P len + len
      then (Err RingFull, self, data, None)
      else (Ok seq, self\<lparr>pr_next_seq := seq + 1\<rparr>,
            pushed_data (unat (pr_size self)) data P r (pr_next_seq self),
            Some (of_nat (P + pad_len (unat (pr_size self)) P len + len))))"
proof -
  let ?s = "unat (pr_size self)" and ?n = "pad_len (unat (pr_size self)) P len"
  let ?pd = "padded_data ?s data P len (pr_next_seq self)"
  let ?self = "self\<lparr>pr_next_seq := seq\<rparr>"
  have fr: "unat (free (of_nat P) (of_nat C) (pr_size self)) = ?s - (P - C)"
    using unat_free [of "P - C" "pr_size self" C] C by simp
  have nd: "unat (bytes_needed (of_nat P) (pr_size self) (of_nat len)) = ?n + len"
    by (rule unat_needed [OF sz len])
  then have nw: "bytes_needed (of_nat P) (pr_size self) (of_nat len) = of_nat (?n + len)"
    by (metis word_nat_cases unat_of_nat of_nat_unat ucast_id)
  have l: "unat (of_nat len :: u32) = len" using len by (simp add: unat_of_nat)
  have full: "free (of_nat P) (of_nat C) (pr_size self) < bytes_needed (of_nat P) (pr_size self) (of_nat len)
      \<longleftrightarrow> C + ?s < P + ?n + len"
    unfolding word_less_nat_alt fr nd using C by linarith
  have more: "of_nat len < bytes_needed (of_nat P) (pr_size self) (of_nat len) \<longleftrightarrow> 0 < ?n"
    unfolding word_less_nat_alt nd l by simp
  have padded: "(if 0 < ?n then push_pad self data (of_nat P) else Ok (self, data, of_nat P))
      = Ok (?self, ?pd, of_nat (P + ?n))"
    using push_pad_eq [OF sz P len data] by (simp add: seq record_seq_def padded_data_def)
  have wr: "slice_mut ?pd (of_nat (P + ?n) AND (pr_size self - 1)) len (\<lambda>dst. encode dst seq)
      = Ok (pushed_data ?s data P r (pr_next_seq self))"
    using enc r len record_window [OF sz len, of P] unat_off [OF sz, of "P + ?n"]
      length_pushed_data(1) [OF sz P, of r data "pr_next_seq self"] data
    by (subst slice_mut_eq [where r = r and k = k]) (simp_all add: pushed_data_def)
  show ?thesis
    using wr unfolding push_loaded_def Let_def full more padded
    by (simp add: alloc_seq_def nw algebra_simps)
qed

section \<open>Push and pop on a represented queue\<close>

text \<open>The pads and the sequence number of a push, from the ring's own state.\<close>

definition ring_pos :: "ring_mem \<Rightarrow> bytes list \<Rightarrow> nat" where
  "ring_pos m recs = unat (rm_cons m) + ring_total recs"

lemma ring_rep_pos:
  assumes "ring_rep sz m recs"
  shows "ring_pos m recs mod 8 = 0" and "of_nat (ring_pos m recs) = rm_prod m"
    and "unat (rm_cons m) \<le> ring_pos m recs" and "ring_pos m recs \<le> unat (rm_cons m) + unat sz"
  using assms total_mod8 [of recs]
  by (auto simp: ring_rep_def ring_pos_def intro!: add_mod8)

text \<open>The memory a push of \<open>r\<close> leaves.\<close>

definition pushed_mem :: "u32 \<Rightarrow> ring_mem \<Rightarrow> nat \<Rightarrow> bytes \<Rightarrow> u32 \<Rightarrow> ring_mem" where
  "pushed_mem sz m P r seq =
     m\<lparr>rm_data := pushed_data (unat sz) (rm_data m) P r seq,
       rm_prod := of_nat (P + pad_len (unat sz) P (length r) + length r)\<rparr>"

lemma try_push_eq:
  assumes rep: "ring_rep (pr_size self) m recs" and r: "length r = len" "len \<le> 4096"
    and seq: "seq = record_seq (unat (pr_size self)) (ring_pos m recs) len (pr_next_seq self)"
    and enc: "\<And>dst. length dst = len \<Longrightarrow> encode dst seq = Ok (r, k)"
  shows "try_push self m len encode =
      (if unat (pr_size self) < ring_total recs + pad_len (unat (pr_size self)) (ring_pos m recs) len + len
       then (Err RingFull, self, m)
       else (Ok seq, self\<lparr>pr_next_seq := seq + 1\<rparr>,
             pushed_mem (pr_size self) m (ring_pos m recs) r (pr_next_seq self)))"
proof -
  let ?s = "unat (pr_size self)" and ?P = "ring_pos m recs" and ?C = "unat (rm_cons m)"
  let ?n = "pad_len ?s ?P len" and ?q = "pr_next_seq self"
  note pos = ring_rep_pos [OF rep]
  have sz: "ring_size_ok (pr_size self)" and data: "length (rm_data m) = ?s"
    using rep by (simp_all add: ring_rep_def)
  have "push_loaded self (rm_data m) (of_nat ?P) (of_nat ?C) len encode =
     (if ?C + ?s < ?P + ?n + len then (Err RingFull, self, rm_data m, None)
      else (Ok seq, self\<lparr>pr_next_seq := seq + 1\<rparr>, pushed_data ?s (rm_data m) ?P r ?q,
            Some (of_nat (?P + ?n + len))))"
    by (rule push_loaded_eq [OF sz pos(1) r(2) data pos(3,4) seq _ r(1)]) (rule enc)
  then show ?thesis
    using pos(2) r(1) by (simp add: try_push_def publish_def ring_pos_def pushed_mem_def)
qed

lemma pushed_mem_rep:
  assumes rep: "ring_rep sz m recs" and r: "good_record r" and P: "P = ring_pos m recs"
    and fits: "ring_total recs + pad_len (unat sz) P (length r) + length r \<le> unat sz"
  shows "ring_rep sz (pushed_mem sz m P r seq) (recs @ pads (unat sz) P (length r) seq @ [r])"
proof -
  let ?s = "unat sz" and ?C = "unat (rm_cons m)"
  note pos = ring_rep_pos [OF rep, folded P]
  have sz: "ring_size_ok sz" and data: "length (rm_data m) = ?s" and old: "stored ?s (rm_data m) ?C recs"
    using rep by (simp_all add: ring_rep_def)
  have len: "length r \<le> 4096" using r good_record_length by auto
  have f: "P + pad_len ?s P (length r) + length r \<le> ?C + ?s"
    using fits by (simp add: P ring_pos_def)
  note st = stored_pushed [OF sz pos(1) len data f pos(3)]
  have "stored ?s (pushed_data ?s (rm_data m) P r seq) ?C (recs @ pads ?s P (length r) seq @ [r])"
    using st(1) [of seq] st(2) [OF old] by (simp add: stored_append P ring_pos_def)
  then show ?thesis
    using rep fits r good_pads [OF sz pos(1) len] total_pads [OF sz pos(1) len]
      length_pushed_data(2) [OF sz pos(1) len data]
    by (simp add: ring_rep_def pushed_mem_def P ring_pos_def algebra_simps)
qed

lemma try_push_rep:
  assumes rep: "ring_rep (pr_size self) m recs" and r: "length r = len" "good_record r"
    and seq: "seq = record_seq (unat (pr_size self)) (ring_pos m recs) len (pr_next_seq self)"
    and enc: "\<And>dst. length dst = len \<Longrightarrow> encode dst seq = Ok (r, k)"
  shows "\<exists>m'. try_push self m len encode =
      (if unat (pr_size self) < ring_total recs + pad_len (unat (pr_size self)) (ring_pos m recs) len + len
       then (Err RingFull, self, m) else (Ok seq, self\<lparr>pr_next_seq := seq + 1\<rparr>, m'))
     \<and> (ring_total recs + pad_len (unat (pr_size self)) (ring_pos m recs) len + len \<le> unat (pr_size self) \<longrightarrow>
        rm_cons m' = rm_cons m \<and>
        ring_rep (pr_size self) m'
          (recs @ pads (unat (pr_size self)) (ring_pos m recs) len (pr_next_seq self) @ [r]))"
proof -
  let ?m = "pushed_mem (pr_size self) m (ring_pos m recs) r (pr_next_seq self)"
  have len: "len \<le> 4096" using r good_record_length by auto
  have "rm_cons ?m = rm_cons m" by (simp add: pushed_mem_def)
  moreover note try_push_eq [OF rep r(1) len seq, where encode = encode and k = k, OF enc]
  ultimately show ?thesis
    using pushed_mem_rep [OF rep r(2) refl, of "pr_next_seq self"] r(1)
    by (intro exI [of _ ?m]) simp
qed

lemma ring_rep_tl:
  assumes "ring_rep sz m (r # rs)"
  shows "ring_rep sz (m\<lparr>rm_cons := rm_cons m + of_nat (length r)\<rparr>) rs"
proof -
  have sz: "ring_size_ok sz" and g: "good_record r" and st: "stored (unat sz) (rm_data m) (unat (rm_cons m) + length r) rs"
    and c: "unat (rm_cons m) mod 8 = 0"
    using assms by (auto simp: ring_rep_def)
  let ?c = "of_nat (unat (rm_cons m) + length r) :: u32"
  have eq: "rm_cons m + of_nat (length r) = ?c" by simp
  have "unat ?c mod unat sz = (unat (rm_cons m) + length r) mod unat sz"
    by (rule unat_mod_ring [OF sz])
  then have "stored (unat sz) (rm_data m) (unat ?c) rs"
    using st by (subst stored_mod) auto
  moreover have "unat ?c mod 8 = 0"
  proof -
    have "(unat (rm_cons m) + length r) mod 2 ^ 32 mod 8 = (unat (rm_cons m) + length r) mod 8"
      by (rule mod_mod_cancel) simp
    then show ?thesis
      using add_mod8 [OF c, of "length r"] good_record_length [OF g] by (simp add: unat_of_nat del: of_nat_add)
  qed
  ultimately show ?thesis
    using assms unfolding ring_rep_def eq by (simp add: algebra_simps)
qed

lemma ring_rep_drained: "ring_rep sz m recs \<Longrightarrow> ring_rep sz (m\<lparr>rm_cons := rm_prod m\<rparr>) []"
  using ring_rep_pos(1,2) [of sz m recs] unat_of_nat [of "ring_pos m recs", where ?'a = 32] mod_mod_cancel [of 8 "2 ^ 32 :: nat" "ring_pos m recs"]
  by (auto simp: ring_rep_def)

lemma pop_loaded_rep:
  assumes rep: "ring_rep (co_size self) m recs"
  shows "pop_loaded self (rm_data m) (rm_prod m) (rm_cons m) scratch =
     (case recs of
        [] \<Rightarrow> (Ok None, scratch, None)
      | r # rs \<Rightarrow>
          if length scratch < 8 then (Err Truncated, scratch, None)
          else if length scratch < length r then (Err Truncated, patch scratch 0 (take 8 r), None)
          else (Ok (Some (length r)), patch scratch 0 r, Some (rm_cons m + of_nat (length r))))"
proof -
  let ?s = "unat (co_size self)" and ?off = "unat (rm_cons m) mod unat (co_size self)"
  have sz: "ring_size_ok (co_size self)" and data: "length (rm_data m) = ?s"
    using rep by (simp_all add: ring_rep_def)
  have av: "unat (used (rm_prod m) (rm_cons m)) = ring_total recs"
    using rep ring_size_facts [OF sz] unat_used [of "ring_total recs" "unat (rm_cons m)"]
    by (simp add: ring_rep_def)
  note eq = pop_loaded_eq [OF sz data refl refl av [symmetric]]
  show ?thesis
  proof (cases recs)
    case Nil
    then show ?thesis by (simp add: eq Let_def)
  next
    case (Cons r rs)
    let ?win = "drop ?off (rm_data m)"
    have g: "8 \<le> length r" "length r \<le> 4096" "pop_frame_ok r" "unat (le_at 2 r 0 :: u16) = length r"
      using rep Cons good_record_length good_record_frame by (auto simp: ring_rep_def)
    have w: "take (length r) ?win = r" "length r \<le> length ?win"
      using rep Cons by (auto simp: ring_rep_def data)
    have le: "le_at 2 ?win 0 = (le_at 2 r 0 :: u16)" "?win ! 2 = r ! 2"
      using g w le_at_take [of 0 2 "length r" ?win, where ?'a = 16] nth_take [of 2 "length r" ?win] by simp_all
    have fr: "pop_frame_ok ?win" using g(3) le by (simp add: pop_frame_ok_def)
    have t8: "take 8 ?win = take 8 r" using arg_cong [OF w(1), of "take 8"] g by (simp add: min_def)
    have "r \<noteq> []" using g(1) by auto
    then show ?thesis
      unfolding eq using g w le fr t8 Cons by (simp add: Let_def)
  qed
qed

lemma pop_into_rep:
  assumes "ring_rep (co_size self) m recs"
  shows "pop_into self m scratch =
     (case recs of
        [] \<Rightarrow> (Ok None, m, scratch)
      | r # rs \<Rightarrow>
          if length scratch < 8 then (Err Truncated, m, scratch)
          else if length scratch < length r then (Err Truncated, m, patch scratch 0 (take 8 r))
          else (Ok (Some (length r)), m\<lparr>rm_cons := rm_cons m + of_nat (length r)\<rparr>, patch scratch 0 r))"
  by (cases recs) (simp_all add: pop_into_def pop_loaded_rep [OF assms] publish_def)

section \<open>The queue interface\<close>

text \<open>Sequence numbers and pads of stored records, read from their headers.\<close>

definition record_seq_of :: "bytes \<Rightarrow> u32" where
  "record_seq_of r = le_at 4 r 4"

definition is_pad_record :: "bytes \<Rightarrow> bool" where
  "is_pad_record r \<longleftrightarrow> r ! 2 = EventKind_as_u8 EK_Pad"

fun seqs_from :: "u32 \<Rightarrow> bytes list \<Rightarrow> bool" where
  "seqs_from n [] \<longleftrightarrow> True"
| "seqs_from n (r # rs) \<longleftrightarrow> record_seq_of r = n \<and> seqs_from (n + 1) rs"

definition payload_records :: "bytes list \<Rightarrow> bytes list" where
  "payload_records rs = filter (\<lambda>r. \<not> is_pad_record r) rs"

lemma seqs_from_append: "seqs_from n (xs @ ys) \<longleftrightarrow> seqs_from n xs \<and> seqs_from (n + of_nat (length xs)) ys"
  by (induction xs arbitrary: n) (auto simp: algebra_simps)

lemma payload_records_simps [simp]:
  "payload_records [] = []"
  "payload_records (r # rs) = (if is_pad_record r then payload_records rs else r # payload_records rs)"
  "payload_records (xs @ ys) = payload_records xs @ payload_records ys"
  by (simp_all add: payload_records_def)

text \<open>A schedule of pushes and pops on one queue: what was accepted, what was delivered.\<close>

datatype 'x qop = Put 'x | Get

fun run_queue ::
  "('q \<Rightarrow> 'x \<Rightarrow> (ring_full, u32) res \<times> 'q) \<Rightarrow> ('q \<Rightarrow> (decode_error, bytes option) res \<times> 'q)
    \<Rightarrow> 'q \<Rightarrow> 'x qop list \<Rightarrow> (u32 \<times> 'x) list \<times> bytes list \<times> 'q" where
  "run_queue put get q [] = ([], [], q)"
| "run_queue put get q (Put x # ops) =
     (case put q x of
        (Ok seq, q) \<Rightarrow> (let (acc, got, q) = run_queue put get q ops in ((seq, x) # acc, got, q))
      | (_, q) \<Rightarrow> run_queue put get q ops)"
| "run_queue put get q (Get # ops) =
     (case get q of
        (Ok (Some r), q) \<Rightarrow> (let (acc, got, q) = run_queue put get q ops in (acc, r # got, q))
      | (_, q) \<Rightarrow> run_queue put get q ops)"

lemma run_queue_accepted:
  "run_queue put get q ops = (acc, got, q') \<Longrightarrow> (seq, x) \<in> set acc \<Longrightarrow> Put x \<in> set ops"
proof (induction ops arbitrary: q acc got)
  case (Cons op ops)
  then show ?case
    by (cases op) (auto split: prod.splits res.splits option.splits, blast)
qed simp

locale record_queue =
  fixes rep :: "'q \<Rightarrow> bytes list \<Rightarrow> bool"
    and nseq :: "'q \<Rightarrow> u32"
    and ok :: "'x \<Rightarrow> bool"
    and image :: "u32 \<Rightarrow> 'x \<Rightarrow> bytes"
    and put :: "'q \<Rightarrow> 'x \<Rightarrow> (ring_full, u32) res \<times> 'q"
    and get :: "'q \<Rightarrow> (decode_error, bytes option) res \<times> 'q"
  assumes put_Ok: "rep q recs \<Longrightarrow> ok x \<Longrightarrow> put q x = (Ok seq, q') \<Longrightarrow>
      \<exists>ps. rep q' (recs @ ps @ [image seq x]) \<and> list_all is_pad_record ps
        \<and> seqs_from (nseq q) (ps @ [image seq x]) \<and> nseq q' = seq + 1"
    and put_Err: "rep q recs \<Longrightarrow> ok x \<Longrightarrow> put q x = (Err e, q') \<Longrightarrow> q' = q"
    and put_not_Panic: "rep q recs \<Longrightarrow> ok x \<Longrightarrow> put q x \<noteq> (Panic, q')"
    and get_empty: "rep q [] \<Longrightarrow> get q = (Ok None, q)"
    and get_head: "rep q (r # rs) \<Longrightarrow> \<exists>q'. get q = (Ok (Some r), q') \<and> rep q' rs \<and> nseq q' = nseq q"
    and image_not_pad: "ok x \<Longrightarrow> \<not> is_pad_record (image seq x)"
    and image_seq: "ok x \<Longrightarrow> record_seq_of (image seq x) = seq"
begin

lemma pads_only: "list_all is_pad_record ps \<Longrightarrow> payload_records ps = []"
  by (induction ps) auto

text \<open>
  Nothing is lost, duplicated or reordered: what was queued before together with what the schedule
  added is what it delivered together with what is left.
\<close>

lemma run_queue_fifo:
  assumes "rep q recs" and "\<forall>x. Put x \<in> set ops \<longrightarrow> ok x"
    and "run_queue put get q ops = (acc, got, q')"
  shows "\<exists>new left. rep q' left \<and> recs @ new = got @ left
     \<and> payload_records new = map (\<lambda>(seq, x). image seq x) acc
     \<and> seqs_from (nseq q) new \<and> nseq q' = nseq q + of_nat (length new)"
  using assms
proof (induction ops arbitrary: q recs acc got)
  case Nil
  then show ?case by (intro exI [of _ "[]"] exI [of _ recs]) auto
next
  case (Cons op ops)
  show ?case
  proof (cases op)
    case (Put x)
    with Cons.prems have x: "ok x" by simp
    obtain r q1 where p: "put q x = (r, q1)" by (cases "put q x")
    show ?thesis
    proof (cases r)
      case (Ok seq)
      obtain ps where ps: "rep q1 (recs @ ps @ [image seq x])" "list_all is_pad_record ps"
        "seqs_from (nseq q) (ps @ [image seq x])" "nseq q1 = seq + 1"
        using put_Ok [OF Cons.prems(1) x] p Ok by blast
      obtain acc1 where run: "run_queue put get q1 ops = (acc1, got, q')" and acc: "acc = (seq, x) # acc1"
        using Cons.prems(3) Put p Ok by (auto split: prod.splits)
      obtain new left where IH: "rep q' left" "(recs @ ps @ [image seq x]) @ new = got @ left"
        "payload_records new = map (\<lambda>(seq, x). image seq x) acc1"
        "seqs_from (nseq q1) new" "nseq q' = nseq q1 + of_nat (length new)"
        using Cons.IH [OF ps(1) _ run] Cons.prems(2) by auto
      have sq: "seq = nseq q + of_nat (length ps)"
        using ps(3) x image_seq [of x seq] by (simp add: seqs_from_append)
      show ?thesis
        using IH ps acc sq pads_only [OF ps(2)] image_not_pad [OF x]
        by (intro exI [of _ "ps @ [image seq x] @ new"] exI [of _ left])
           (auto simp: seqs_from_append algebra_simps)
    next
      case (Err e)
      with p put_Err [OF Cons.prems(1) x] have "q1 = q" by simp
      with Cons.prems Put p Err show ?thesis by (auto intro!: Cons.IH)
    next
      case Panic
      with p put_not_Panic [OF Cons.prems(1) x] show ?thesis by simp
    qed
  next
    case Get
    show ?thesis
    proof (cases recs)
      case Nil
      then have "get q = (Ok None, q)"
        using get_empty Cons.prems(1) by simp
      then show ?thesis
        using Cons.prems Get by (intro Cons.IH) auto
    next
      case (Cons r rs)
      obtain q1 where q1: "get q = (Ok (Some r), q1)" "rep q1 rs" "nseq q1 = nseq q"
        using get_head Cons.prems(1) Cons by blast
      obtain got1 where run: "run_queue put get q1 ops = (acc, got1, q')" and got: "got = r # got1"
        using Cons.prems(3) Get q1 by (auto split: prod.splits)
      then show ?thesis
        using Cons.IH [OF q1(2) _ run] Cons.prems(2) q1(3) Cons got by auto
    qed
  qed
qed

end

section \<open>Rings as queues of encoded records\<close>

text \<open>
  The state of both halves over one ring. \<open>ring_put\<close> is how every client pushes: the encoded length
  first, then the encoder closure; \<open>ring_get\<close> pops into a \<open>MAX_RECORD_LEN\<close> scratch buffer and keeps
  the record's bytes.
\<close>

record duplex =
  dx_prod :: producer
  dx_cons :: consumer
  dx_mem :: ring_mem

definition ring_put ::
  "(bytes \<Rightarrow> u32 \<Rightarrow> 'x \<Rightarrow> (encode_error, bytes \<times> nat) res) \<Rightarrow> ('x \<Rightarrow> nat) \<Rightarrow> duplex \<Rightarrow> 'x
    \<Rightarrow> (ring_full, u32) res \<times> duplex" where
  "ring_put enc rlen d x =
     (let (r, p, m) = try_push (dx_prod d) (dx_mem d) (rlen x) (\<lambda>dst seq. enc dst seq x)
      in (r, d\<lparr>dx_prod := p, dx_mem := m\<rparr>))"

definition ring_get :: "duplex \<Rightarrow> (decode_error, bytes option) res \<times> duplex" where
  "ring_get d =
     (let (r, m, scratch) = pop_into (dx_cons d) (dx_mem d) (replicate MAX_RECORD_LEN 0)
      in (bind_res r (\<lambda>n. Ok (map_option (\<lambda>n. take n scratch) n)), d\<lparr>dx_mem := m\<rparr>))"

definition duplex_rep :: "duplex \<Rightarrow> bytes list \<Rightarrow> bool" where
  "duplex_rep d recs \<longleftrightarrow>
     co_size (dx_cons d) = pr_size (dx_prod d) \<and> ring_rep (pr_size (dx_prod d)) (dx_mem d) recs"

lemma ring_get_rep:
  assumes "duplex_rep d (r # rs)"
  shows "\<exists>d'. ring_get d = (Ok (Some r), d') \<and> duplex_rep d' rs \<and> dx_prod d' = dx_prod d"
proof -
  have rep: "ring_rep (co_size (dx_cons d)) (dx_mem d) (r # rs)"
    using assms by (simp add: duplex_rep_def)
  then have "length r \<le> 4096"
    using good_record_length by (auto simp: ring_rep_def)
  then have "pop_into (dx_cons d) (dx_mem d) (replicate MAX_RECORD_LEN 0) =
      (Ok (Some (length r)), dx_mem d\<lparr>rm_cons := rm_cons (dx_mem d) + of_nat (length r)\<rparr>,
       patch (replicate MAX_RECORD_LEN 0) 0 r)"
    using pop_into_rep [OF rep, of "replicate MAX_RECORD_LEN 0"] by simp
  then show ?thesis
    using ring_rep_tl [OF rep] assms
    by (intro exI [of _ "d\<lparr>dx_mem := dx_mem d\<lparr>rm_cons := rm_cons (dx_mem d) + of_nat (length r)\<rparr>\<rparr>"])
       (simp add: ring_get_def duplex_rep_def)
qed

lemma pads_seqs:
  assumes "ring_size_ok sz" and "P mod 8 = 0" and "len \<le> 4096"
  shows "list_all is_pad_record (pads (unat sz) P len seq)"
    and "seqs_from seq (pads (unat sz) P len seq)"
    and "record_seq (unat sz) P len seq = seq + of_nat (length (pads (unat sz) P len seq))"
proof -
  have h: "header_at (pad_record t q) = pad_header t q" if "8 \<le> t" "t \<le> 4096" "t mod 8 = 0" for t q
    using read_from_pad_record [OF that, of q] by (auto simp: read_from_Ok_iff)
  have "is_pad_record (pad_record t q) \<and> record_seq_of (pad_record t q) = q"
    if "8 \<le> t" "t \<le> 4096" "t mod 8 = 0" for t q
    using arg_cong [OF h [OF that], of rh_kind q] arg_cong [OF h [OF that], of rh_seq q]
    by (simp add: is_pad_record_def record_seq_of_def header_at_def pad_header_def)
  then show "list_all is_pad_record (pads (unat sz) P len seq)" "seqs_from seq (pads (unat sz) P len seq)"
    using pad_len_props [OF assms] assms(3) by (auto simp: pads_def)
  show "record_seq (unat sz) P len seq = seq + of_nat (length (pads (unat sz) P len seq))"
    by (simp add: record_seq_def pads_def)
qed

text \<open>A codec whose records are never pads makes a ring a queue of its records.\<close>

locale ring_codec = record_codec +
  assumes kind_not_pad: "ok x \<Longrightarrow> rh_kind (hdr seq x) \<noteq> 0"
begin

lemma good_image: "ok x \<Longrightarrow> good_record (image seq x)"
  using read_image [of x seq "[]"] by (simp add: good_record_def hdr_len length_image)

lemma header_image: "ok x \<Longrightarrow> header_at (image seq x) = hdr seq x"
  using read_image [of x seq "[]"] by (simp add: read_from_Ok_iff)

lemma image_header_fields:
  assumes "ok x"
  shows "\<not> is_pad_record (image seq x)" and "record_seq_of (image seq x) = seq"
  using arg_cong [OF header_image [OF assms], of rh_kind seq] kind_not_pad [OF assms, of seq]
    arg_cong [OF header_image [OF assms], of rh_seq seq] hdr_seq [OF assms, of seq]
  by (auto simp: is_pad_record_def record_seq_of_def header_at_def)

lemma ring_put_cases:
  assumes d: "duplex_rep d recs" and x: "ok x"
    and s: "s = unat (pr_size (dx_prod d))" and P: "P = ring_pos (dx_mem d) recs"
    and q: "q = pr_next_seq (dx_prod d)" and seq: "seq = record_seq s P (rlen x) q"
  shows "if s < ring_total recs + pad_len s P (rlen x) + rlen x
     then ring_put enc rlen d x = (Err RingFull, d)
     else \<exists>d'. ring_put enc rlen d x = (Ok seq, d') \<and> pr_next_seq (dx_prod d') = seq + 1
        \<and> duplex_rep d' (recs @ pads s P (rlen x) q @ [image seq x])"
proof -
  have rep: "ring_rep (pr_size (dx_prod d)) (dx_mem d) recs"
    using d by (simp add: duplex_rep_def)
  have enc: "enc dst seq x = Ok (image seq x, rlen x)" if "length dst = rlen x" for dst
    using enc_exact [OF x that] .
  obtain m' where m': "try_push (dx_prod d) (dx_mem d) (rlen x) (\<lambda>dst seq. enc dst seq x) =
      (if s < ring_total recs + pad_len s P (rlen x) + rlen x then (Err RingFull, dx_prod d, dx_mem d)
       else (Ok seq, (dx_prod d)\<lparr>pr_next_seq := seq + 1\<rparr>, m'))"
    "ring_total recs + pad_len s P (rlen x) + rlen x \<le> s \<Longrightarrow>
      ring_rep (pr_size (dx_prod d)) m' (recs @ pads s P (rlen x) q @ [image seq x])"
    using try_push_rep [OF rep length_image [OF x] good_image [OF x], where seq = seq
        and encode = "\<lambda>dst seq. enc dst seq x" and k = "rlen x"] enc
    unfolding s P q seq by blast
  with d show ?thesis
    by (auto simp: ring_put_def duplex_rep_def)
qed

lemma ring_put_Ok:
  assumes d: "duplex_rep d recs" and x: "ok x" and put: "ring_put enc rlen d x = (Ok seq, d')"
  shows "\<exists>ps. duplex_rep d' (recs @ ps @ [image seq x]) \<and> list_all is_pad_record ps
     \<and> seqs_from (pr_next_seq (dx_prod d)) (ps @ [image seq x]) \<and> pr_next_seq (dx_prod d') = seq + 1"
proof -
  let ?s = "unat (pr_size (dx_prod d))" and ?P = "ring_pos (dx_mem d) recs" and ?q = "pr_next_seq (dx_prod d)"
  have sz: "ring_size_ok (pr_size (dx_prod d))" and P: "?P mod 8 = 0" and l: "rlen x \<le> 4096"
    using d ring_rep_pos(1) rlen_bounds [OF x] by (auto simp: duplex_rep_def ring_rep_def)
  note ps = pads_seqs [OF sz P l, of ?q]
  show ?thesis
    using ring_put_cases [OF d x refl refl refl refl] put ps image_header_fields(2) [OF x]
    by (intro exI [of _ "pads ?s ?P (rlen x) ?q"])
       (auto simp: seqs_from_append split: if_splits)
qed

end

sublocale ring_codec \<subseteq> queue: record_queue duplex_rep "\<lambda>d. pr_next_seq (dx_prod d)" ok image
  "ring_put enc rlen" ring_get
proof unfold_locales
  show "ring_get d = (Ok None, d)" if "duplex_rep d []" for d
    using that pop_into_rep [of "dx_cons d" "dx_mem d" "[]"] by (simp add: ring_get_def duplex_rep_def)
  show "\<exists>d'. ring_get d = (Ok (Some r), d') \<and> duplex_rep d' rs \<and> pr_next_seq (dx_prod d') = pr_next_seq (dx_prod d)"
    if "duplex_rep d (r # rs)" for d r rs
    using ring_get_rep [OF that] by auto
  show "d' = d" if "duplex_rep d recs" "ok x" "ring_put enc rlen d x = (Err e, d')" for d recs x e d'
    using ring_put_cases [OF that(1,2) refl refl refl refl] that(3) by (auto split: if_splits)
  show "ring_put enc rlen d x \<noteq> (Panic, d')" if "duplex_rep d recs" "ok x" for d recs x d'
    using ring_put_cases [OF that refl refl refl refl] by (auto split: if_splits)
qed (use ring_put_Ok image_header_fields in auto)

text \<open>Rings A and W carry events, ring C commands, ring I workload-control records.\<close>

interpretation event_ring: ring_codec
  "\<lambda>buf seq (vnanos, extra, ev). encode_event buf seq vnanos extra ev" decode_event
  "\<lambda>x. (case x of (_, _, ev) \<Rightarrow> event_encodable ev) \<and> snd (snd x) \<noteq> Ev_Pad"
  "\<lambda>(_, _, ev). encoded_event_len ev"
  "\<lambda>seq (vnanos, extra, ev). event_image seq vnanos extra ev"
  "\<lambda>seq (vnanos, extra, ev). event_header seq vnanos extra ev" "\<lambda>(_, _, ev). clip_event ev"
proof (rule ring_codec.intro [OF event_codec.restrict], unfold_locales)
  fix x :: "u64 \<times> u8 \<times> event_payload" and seq
  assume "(case x of (_, _, ev) \<Rightarrow> event_encodable ev) \<and> snd (snd x) \<noteq> Ev_Pad"
  then show "rh_kind (case x of (vnanos, extra, ev) \<Rightarrow> event_header seq vnanos extra ev) \<noteq> 0"
    by (cases x; cases "snd (snd x)") (auto simp: event_header_def)
qed

interpretation command_ring: ring_codec
  encode_command decode_command "\<lambda>_. True" command_len command_image command_header "\<lambda>c. c"
  by unfold_locales (simp add: command_header_def)

interpretation ctrl_ring: ring_codec
  "\<lambda>buf seq (vnanos, c). encode_workload_ctrl buf seq vnanos c" decode_workload_ctrl
  "\<lambda>_. True" "\<lambda>_. 24" "\<lambda>seq (vnanos, c). ctrl_image seq vnanos c"
  "\<lambda>seq (vnanos, c). ctrl_header seq vnanos c" "\<lambda>(_, c). c"
  by unfold_locales (auto simp: ctrl_header_def)

section \<open>Event rings\<close>

type_synonym event_item = "u64 \<times> u8 \<times> event_payload"

definition push_event :: "duplex \<Rightarrow> event_item \<Rightarrow> (ring_full, u32) res \<times> duplex" where
  "push_event =
     ring_put (\<lambda>buf seq (vnanos, extra, ev). encode_event buf seq vnanos extra ev)
              (\<lambda>(_, _, ev). encoded_event_len ev)"

definition event_item_ok :: "event_item \<Rightarrow> bool" where
  "event_item_ok x \<longleftrightarrow> event_encodable (snd (snd x)) \<and> snd (snd x) \<noteq> Ev_Pad"

definition item_image :: "u32 \<Rightarrow> event_item \<Rightarrow> bytes" where
  "item_image seq x = event_image seq (fst x) (fst (snd x)) (snd (snd x))"

definition item_decoded :: "u32 \<Rightarrow> event_item \<Rightarrow> record_header \<times> event_payload" where
  "item_decoded seq x = (event_header seq (fst x) (fst (snd x)) (snd (snd x)), clip_event (snd (snd x)))"

definition item_len :: "event_item \<Rightarrow> nat" where
  "item_len x = encoded_event_len (snd (snd x))"

fun qop_ok :: "event_item qop \<Rightarrow> bool" where
  "qop_ok (Put x) \<longleftrightarrow> event_item_ok x"
| "qop_ok Get \<longleftrightarrow> True"

definition fresh_duplex :: "u32 \<Rightarrow> duplex" where
  "fresh_duplex sz =
     \<lparr>dx_prod = \<lparr>pr_size = sz, pr_next_seq = 0\<rparr>, dx_cons = \<lparr>co_size = sz\<rparr>,
      dx_mem = \<lparr>rm_data = replicate (unat sz) 0, rm_prod = 0, rm_cons = 0\<rparr>\<rparr>"

lemma fresh_duplex_rep: "ring_size_ok sz \<Longrightarrow> duplex_rep (fresh_duplex sz) []"
  by (simp add: fresh_duplex_def duplex_rep_def ring_rep_def)

lemma ring_size_ok_8192: "ring_size_ok 8192"
  by (simp add: ring_size_ok_def pow2_sizes)

lemma item_split:
  "(case x of (_, _, ev) \<Rightarrow> event_encodable ev) \<and> snd (snd x) \<noteq> Ev_Pad \<longleftrightarrow> event_item_ok x"
  "(case x of (vnanos, extra, ev) \<Rightarrow> event_image seq vnanos extra ev) = item_image seq x"
  "(case x of (_, _, ev) \<Rightarrow> encoded_event_len ev) = item_len x"
  by (auto simp: event_item_ok_def item_image_def item_len_def split: prod.splits)

lemma push_event_cases:
  assumes "duplex_rep d recs" and "event_item_ok x"
    and "s = unat (pr_size (dx_prod d))" and "P = ring_pos (dx_mem d) recs"
    and "q = pr_next_seq (dx_prod d)" and "seq = record_seq s P (item_len x) q"
  shows "if s < ring_total recs + pad_len s P (item_len x) + item_len x
     then push_event d x = (Err RingFull, d)
     else \<exists>d'. push_event d x = (Ok seq, d') \<and> pr_next_seq (dx_prod d') = seq + 1
        \<and> duplex_rep d' (recs @ pads s P (item_len x) q @ [item_image seq x])"
  using event_ring.ring_put_cases [of d recs x s P q seq] assms
  unfolding item_split push_event_def by auto

interpretation event_queue: record_queue
  duplex_rep "\<lambda>d. pr_next_seq (dx_prod d)" event_item_ok item_image push_event ring_get
  using event_ring.queue.record_queue_axioms
  unfolding push_event_def event_item_ok_def [abs_def] item_image_def [abs_def] split_def .

text \<open>Records a reader of events accepts: they decode, or are of a kind unknown to this version.\<close>

definition drainable :: "bytes \<Rightarrow> bool" where
  "drainable r \<longleftrightarrow> (case decode_event r of Ok _ \<Rightarrow> True | Err (UnknownKind _) \<Rightarrow> True | _ \<Rightarrow> False)"

definition decodable :: "bytes \<Rightarrow> bool" where
  "decodable r \<longleftrightarrow> is_ok (decode_event r)"

lemma decodable_drainable: "decodable r \<Longrightarrow> drainable r"
  by (auto simp: decodable_def drainable_def split: res.splits)

lemma decodable_item: "event_item_ok x \<Longrightarrow> decodable (item_image seq x)"
  using decode_event_image [of "snd (snd x)" seq "fst x" "fst (snd x)" "[]"]
  by (simp add: decodable_def item_image_def event_item_ok_def)

lemma decode_pad: "good_record r \<Longrightarrow> is_pad_record r \<Longrightarrow> \<exists>hdr. decode_event r = Ok (hdr, Ev_Pad)"
proof -
  assume g: "good_record r" and p: "is_pad_record r"
  obtain hdr where hdr: "RecordHeader_read_from r = Ok hdr" using g by (auto simp: good_record_def split: res.splits)
  then have "hdr = header_at r" by (simp add: read_from_Ok_iff)
  then have "rh_kind hdr = EventKind_as_u8 EK_Pad" using p by (simp add: is_pad_record_def header_at_def)
  then have k: "EventKind_from_u8 (rh_kind hdr) = Some EK_Pad" by (simp only: EventKind_round_trip)
  have pad: "decode_event_payload EK_Pad q = Ok Ev_Pad" for q by (simp add: decode_event_payload_def)
  show "\<exists>hdr. decode_event r = Ok (hdr, Ev_Pad)"
    unfolding decode_event_def hdr bind_res.simps payload_slice_Ok [OF hdr] k ok_or.simps pad by simp
qed

lemma decodable_pad: "good_record r \<Longrightarrow> is_pad_record r \<Longrightarrow> decodable r"
  using decode_pad by (force simp: decodable_def)

text \<open>Delivered records decode to the accepted events they are the images of.\<close>

lemma decode_prefix:
  assumes "payload_records (got @ left) = map (\<lambda>(seq, x). item_image seq x) acc"
    and "\<forall>(seq, x) \<in> set acc. event_item_ok x"
  shows "map decode_event (payload_records got)
     = map (\<lambda>(seq, x). Ok (item_decoded seq x)) (take (length (payload_records got)) acc)"
proof -
  have dec: "\<forall>(seq, x) \<in> set acc. decode_event (item_image seq x) = Ok (item_decoded seq x)"
    using assms(2) decode_event_image [where rest = "[]"]
    by (fastforce simp: event_item_ok_def item_image_def item_decoded_def)
  have "payload_records got = map (\<lambda>(seq, x). item_image seq x) (take (length (payload_records got)) acc)"
    using arg_cong [OF assms(1), of "take (length (payload_records got))"] by (simp add: take_map)
  then have "map decode_event (payload_records got)
      = map (\<lambda>(seq, x). decode_event (item_image seq x)) (take (length (payload_records got)) acc)"
    by (metis (no_types, lifting) comp_apply list.map_comp map_eq_conv split_def)
  also have "\<dots> = map (\<lambda>(seq, x). Ok (item_decoded seq x)) (take (length (payload_records got)) acc)"
    using dec by (auto dest: in_set_takeD)
  finally show ?thesis .
qed

section \<open>Properties\<close>

text \<open>
  C10. Rings are FIFO queues of events. Whatever schedule of pushes and pops runs on a ring that
  starts empty, the events popped and then those still queued are exactly the accepted events in
  order of acceptance (pads aside), every popped event decodes to what was pushed, and the sequence
  numbers of all records, pads included, are consecutive.
\<close>

theorem event_ring_fifo:
  assumes "duplex_rep d []" and "list_all qop_ok ops"
    and "run_queue push_event ring_get d ops = (acc, got, d')"
  shows "\<exists>left. duplex_rep d' left
     \<and> payload_records (got @ left) = map (\<lambda>(seq, x). item_image seq x) acc
     \<and> map decode_event (payload_records got)
       = map (\<lambda>(seq, x). Ok (item_decoded seq x)) (take (length (payload_records got)) acc)
     \<and> seqs_from (pr_next_seq (dx_prod d)) (got @ left)"
proof -
  have ok: "\<forall>x. Put x \<in> set ops \<longrightarrow> event_item_ok x"
    using assms(2) by (auto simp: list_all_iff)
  obtain left where left: "duplex_rep d' left"
    "payload_records (got @ left) = map (\<lambda>(seq, x). item_image seq x) acc"
    "seqs_from (pr_next_seq (dx_prod d)) (got @ left)"
    using event_queue.run_queue_fifo [OF assms(1) ok assms(3)] by auto
  have "\<forall>(seq, x) \<in> set acc. event_item_ok x"
    using run_queue_accepted [OF assms(3)] ok by fastforce
  then show ?thesis
    using left decode_prefix [OF left(2)] by blast
qed

theorem event_ring_fifo_witness:
  "\<exists>acc got d' left.
     run_queue push_event ring_get (fresh_duplex 8192)
       [Get, Put (5, 0, Ev_Beacon 7), Put (6, 0, Ev_LogLine 4 1 [104, 105]), Get] = (acc, got, d')
     \<and> duplex_rep d' left
     \<and> payload_records (got @ left) = map (\<lambda>(seq, x). item_image seq x) acc
     \<and> seqs_from 0 (got @ left)"
proof -
  let ?d = "fresh_duplex 8192"
  let ?ops = "[Get, Put (5, 0, Ev_Beacon 7), Put (6, 0, Ev_LogLine 4 1 [104, 105]), Get]"
  obtain acc got d' where run: "run_queue push_event ring_get ?d ?ops = (acc, got, d')"
    by (cases "run_queue push_event ring_get ?d ?ops") auto
  have "list_all qop_ok ?ops" by (simp add: event_item_ok_def)
  then show ?thesis
    using event_ring_fifo [OF fresh_duplex_rep [OF ring_size_ok_8192] _ run] run
    by (auto simp: fresh_duplex_def)
qed

text \<open>
  One push, exactly. On a ring that holds \<open>recs\<close>, a push is refused, and then changes nothing,
  exactly when the free bytes do not cover the record and the pad it needs; otherwise the queue grows
  by at most one pad, present exactly when the record does not fit in the contiguous tail, and by the
  record, which carries the sequence number returned.
\<close>

theorem push_event_exact:
  assumes "duplex_rep d recs" and "event_item_ok x"
  shows "let s = unat (pr_size (dx_prod d));
             tail = s - (unat (rm_cons (dx_mem d)) + ring_total recs) mod s;
             need = item_len x + (if tail < item_len x then tail else 0);
             q = pr_next_seq (dx_prod d);
             ps = (if tail < item_len x then [pad_record tail q] else []);
             seq = (if tail < item_len x then q + 1 else q)
         in unat (free_bytes (dx_prod d) (dx_mem d)) = s - ring_total recs
          \<and> (if unat (free_bytes (dx_prod d) (dx_mem d)) < need
             then push_event d x = (Err RingFull, d)
             else \<exists>d'. push_event d x = (Ok seq, d') \<and> pr_next_seq (dx_prod d') = seq + 1
                \<and> duplex_rep d' (recs @ ps @ [item_image seq x]))"
proof -
  let ?s = "unat (pr_size (dx_prod d))" and ?P = "ring_pos (dx_mem d) recs" and ?l = "item_len x"
  have rep: "ring_rep (pr_size (dx_prod d)) (dx_mem d) recs"
    using assms(1) by (simp add: duplex_rep_def)
  then have tot: "ring_total recs \<le> ?s" and sz: "ring_size_ok (pr_size (dx_prod d))"
    by (simp_all add: ring_rep_def)
  have fr: "unat (free_bytes (dx_prod d) (dx_mem d)) = ?s - ring_total recs"
    using unat_free [OF tot, of "unat (rm_cons (dx_mem d))"] ring_rep_pos(2) [OF rep]
    by (simp add: free_bytes_def ring_pos_def)
  have "?P mod ?s < ?s" using ring_size_facts(1) [OF sz] by (intro mod_less_divisor) simp
  then have pos: "0 < ?s - ?P mod ?s" by linarith
  have pl: "pad_len ?s ?P ?l = (if ?s - ?P mod ?s < ?l then ?s - ?P mod ?s else 0)"
    by (simp add: pad_len_def)
  have pl0: "0 < pad_len ?s ?P ?l \<longleftrightarrow> ?s - ?P mod ?s < ?l"
    unfolding pl using pos by (simp split: if_splits)
  have pads: "pads ?s ?P ?l q = (if ?s - ?P mod ?s < ?l then [pad_record (?s - ?P mod ?s) q] else [])" for q
    unfolding pads_def pl0 by (simp add: pl)
  have rs: "record_seq ?s ?P ?l q = (if ?s - ?P mod ?s < ?l then q + 1 else q)" for q
    unfolding record_seq_def pl0 ..
  have "?s < ring_total recs + pad_len ?s ?P ?l + ?l
      \<longleftrightarrow> ?s - ring_total recs < ?l + (if ?s - ?P mod ?s < ?l then ?s - ?P mod ?s else 0)"
    using tot unfolding pl by auto
  then show ?thesis
    using push_event_cases [OF assms refl refl refl refl] fr
    unfolding Let_def ring_pos_def [symmetric] pads rs by simp
qed

theorem push_event_exact_witness:
  "\<exists>d'. push_event (fresh_duplex 8192) (5, 0, Ev_Beacon 7) = (Ok 0, d')
      \<and> duplex_rep d' [item_image 0 (5, 0, Ev_Beacon 7)]"
proof -
  have "event_item_ok (5, 0, Ev_Beacon 7)" by (simp add: event_item_ok_def)
  moreover have "item_len (5, 0, Ev_Beacon 7) = 24"
    by (simp add: item_len_def encoded_event_len_def record_len_def pad8_def)
  ultimately show ?thesis
    using push_event_exact [OF fresh_duplex_rep [OF ring_size_ok_8192], of "(5, 0, Ev_Beacon 7)"]
    by (auto simp: fresh_duplex_def Let_def)
qed

text \<open>
  No event is ever stuck: on an empty ring of any legal size, whatever its indices, a push of
  any encodable event succeeds, so a producer that waits for the consumer to drain gets through.
\<close>

theorem empty_ring_accepts_event:
  assumes "duplex_rep d []" and "event_item_ok x"
  shows "\<exists>seq d'. push_event d x = (Ok seq, d')"
proof -
  let ?s = "unat (pr_size (dx_prod d))" and ?P = "ring_pos (dx_mem d) []"
  have "4096 \<le> ?s" using assms(1) ring_size_facts(1) by (auto simp: duplex_rep_def ring_rep_def)
  moreover have "item_len x \<le> 1064"
    using encoded_event_len_bounds assms(2) by (simp add: item_len_def event_item_ok_def)
  ultimately have "\<not> ?s < pad_len ?s ?P (item_len x) + item_len x"
    by (auto simp: pad_len_def)
  then show ?thesis
    using push_event_cases [OF assms refl refl refl refl] by auto
qed

theorem empty_ring_accepts_event_witness:
  "\<exists>seq d'. push_event (fresh_duplex 8192) (5, 0, Ev_AssertViolation 1 1 (replicate 600 65)) = (Ok seq, d')"
  using empty_ring_accepts_event [OF fresh_duplex_rep [OF ring_size_ok_8192]]
  by (simp add: event_item_ok_def)

text \<open>
  A push whose encoder fails also reports \<open>RingFull\<close>, publishes nothing and keeps the queue,
  but it has consumed the record's sequence number and, when a pad was needed, has written that pad
  over the tail and consumed a second number: the next record leaves a gap in the sequence, although
  the comment on \<open>try_push\<close> promises that nothing is written and no number consumed.
\<close>

theorem try_push_failed_encode:
  assumes rep: "ring_rep (pr_size self) m recs" and len: "len \<le> MAX_RECORD_LEN"
    and fits: "ring_total recs + pad_len (unat (pr_size self)) (ring_pos m recs) len + len \<le> unat (pr_size self)"
    and enc: "\<And>dst seq. length dst = len \<Longrightarrow> encode dst seq = Err e"
  shows "\<exists>m'. try_push self m len encode =
       (Err RingFull,
        self\<lparr>pr_next_seq := record_seq (unat (pr_size self)) (ring_pos m recs) len (pr_next_seq self) + 1\<rparr>, m')
     \<and> rm_data m' = padded_data (unat (pr_size self)) (rm_data m) (ring_pos m recs) len (pr_next_seq self)
     \<and> rm_prod m' = rm_prod m \<and> rm_cons m' = rm_cons m \<and> ring_rep (pr_size self) m' recs"
proof -
  let ?s = "unat (pr_size self)" and ?P = "ring_pos m recs" and ?C = "unat (rm_cons m)"
  let ?n = "pad_len ?s ?P len" and ?q = "pr_next_seq self"
  let ?pd = "padded_data ?s (rm_data m) ?P len ?q"
  note pos = ring_rep_pos [OF rep]
  have sz: "ring_size_ok (pr_size self)" and data: "length (rm_data m) = ?s"
    and old: "stored ?s (rm_data m) ?C recs"
    using rep by (simp_all add: ring_rep_def)
  have len': "len \<le> 4096" using len by simp
  note pl = pad_len_props [OF sz pos(1) len']
  have fr: "unat (free (rm_prod m) (rm_cons m) (pr_size self)) = ?s - ring_total recs"
    using unat_free [of "ring_total recs" "pr_size self" ?C] rep pos(2) by (simp add: ring_rep_def ring_pos_def)
  have nd: "unat (bytes_needed (rm_prod m) (pr_size self) (of_nat len)) = ?n + len"
    using unat_needed [OF sz len', of ?P] pos(2) by simp
  have l: "unat (of_nat len :: u32) = len" using len by (simp add: unat_of_nat)
  have full: "\<not> free (rm_prod m) (rm_cons m) (pr_size self) < bytes_needed (rm_prod m) (pr_size self) (of_nat len)"
    and more: "of_nat len < bytes_needed (rm_prod m) (pr_size self) (of_nat len) \<longleftrightarrow> 0 < ?n"
    unfolding word_less_nat_alt fr nd l using fits by auto
  have padded: "(if 0 < ?n then push_pad self (rm_data m) (rm_prod m) else Ok (self, rm_data m, rm_prod m))
      = Ok (self\<lparr>pr_next_seq := record_seq ?s ?P len ?q\<rparr>, ?pd, of_nat (?P + ?n))"
    using push_pad_eq [OF sz pos(1) len' data] pos(2) by (simp add: record_seq_def padded_data_def)
  have lpd: "length ?pd = ?s"
    using pl data len' by (auto simp: padded_data_def)
  have wr: "slice_mut ?pd (of_nat (?P + ?n) AND (pr_size self - 1)) len (\<lambda>dst. encode dst seq) = Err e" for seq
    using enc lpd record_window [OF sz len', of ?P] unat_off [OF sz, of "?P + ?n"]
    by (simp add: slice_mut_def res_simps)
  have "stored ?s ?pd ?C recs"
    using old pl data fits ring_size_facts(1) [OF sz] len'
    by (auto simp: padded_data_def ring_pos_def intro!: stored_patch)
  then have keep: "ring_rep (pr_size self) (m\<lparr>rm_data := ?pd\<rparr>) recs"
    using rep lpd by (simp add: ring_rep_def)
  show ?thesis
    using wr keep unfolding try_push_def push_loaded_def Let_def more padded
    by (intro exI [of _ "m\<lparr>rm_data := ?pd\<rparr>"]) (simp add: full alloc_seq_def publish_def)
qed

theorem try_push_failed_encode_witness:
  "\<exists>m'. try_push \<lparr>pr_size = 8192, pr_next_seq = 0\<rparr> (dx_mem (fresh_duplex 8192)) 328
          (\<lambda>dst seq. encode_event dst seq 0 0 (Ev_NameIntern 1 (replicate 300 65)))
        = (Err RingFull, \<lparr>pr_size = 8192, pr_next_seq = 1\<rparr>, m')"
proof -
  have "ring_rep (pr_size \<lparr>pr_size = 8192, pr_next_seq = 0\<rparr>) (dx_mem (fresh_duplex 8192)) []"
    using fresh_duplex_rep [OF ring_size_ok_8192] by (simp add: duplex_rep_def fresh_duplex_def)
  moreover have "pad_len 8192 (ring_pos (dx_mem (fresh_duplex 8192)) []) 328 = 0"
    by (simp add: pad_len_def ring_pos_def fresh_duplex_def)
  moreover have "encode_event dst seq 0 0 (Ev_NameIntern 1 (replicate 300 65)) = Err FieldTooLong" for dst seq
    by (simp add: encode_event_eq)
  ultimately show ?thesis
    using try_push_failed_encode [of "\<lparr>pr_size = 8192, pr_next_seq = 0\<rparr>" "dx_mem (fresh_duplex 8192)" "[]" 328
        "\<lambda>dst seq. encode_event dst seq 0 0 (Ev_NameIntern 1 (replicate 300 65))" FieldTooLong]
    by (auto simp: record_seq_def)
qed

end
