(* ===== verification/Ring_Spsc.thy ===== *)
theory Ring_Spsc
  imports Ring_Fifo
begin

text \<open>
  The two halves of a ring running concurrently. A push is three actions, the load of the indices
  (after which the consumer may move on), the writes into the ring's bytes and the release store of
  the producer index; a pop is the load of the producer index, the copy and the release store of the
  consumer index. \<open>spsc_step\<close> interleaves the actions of one producer and one consumer arbitrarily;
  the outcome of each action is computed by \<open>push_loaded\<close> and \<open>pop_loaded\<close>, the bodies of
  \<open>try_push\<close> and \<open>pop_into\<close>. The theorem is that every reachable state still holds the FIFO
  queue, with stale index snapshots on either side.
\<close>

section \<open>States and steps\<close>

datatype push_phase = P_Idle | P_Loaded event_item u32 | P_Written u32

datatype pop_phase = C_Idle | C_Loaded u32 | C_Copied u32 bytes

record spsc =
  sp_mem :: ring_mem
  sp_prod :: producer
  sp_cons :: consumer
  sp_push :: push_phase
  sp_pop :: pop_phase
  sp_accepted :: "(u32 \<times> event_item) list"
  sp_got :: "bytes list"

definition push_item ::
  "producer \<Rightarrow> bytes \<Rightarrow> u32 \<Rightarrow> u32 \<Rightarrow> event_item \<Rightarrow> (ring_full, u32) res \<times> producer \<times> bytes \<times> u32 option" where
  "push_item p data prd cons x =
     push_loaded p data prd cons (item_len x)
       (\<lambda>dst seq. encode_event dst seq (fst x) (fst (snd x)) (snd (snd x)))"

inductive spsc_step :: "spsc \<Rightarrow> spsc \<Rightarrow> bool" where
  push_load: "sp_push st = P_Idle \<Longrightarrow> event_item_ok x \<Longrightarrow>
    spsc_step st (st\<lparr>sp_push := P_Loaded x (rm_cons (sp_mem st))\<rparr>)"
| push_write: "sp_push st = P_Loaded x c \<Longrightarrow>
    push_item (sp_prod st) (rm_data (sp_mem st)) (rm_prod (sp_mem st)) c x = (Ok seq, p, data, Some new) \<Longrightarrow>
    spsc_step st (st\<lparr>sp_push := P_Written new, sp_prod := p, sp_mem := (sp_mem st)\<lparr>rm_data := data\<rparr>,
                    sp_accepted := sp_accepted st @ [(seq, x)]\<rparr>)"
| push_refused: "sp_push st = P_Loaded x c \<Longrightarrow>
    push_item (sp_prod st) (rm_data (sp_mem st)) (rm_prod (sp_mem st)) c x = (Err e, p, data, None) \<Longrightarrow>
    spsc_step st (st\<lparr>sp_push := P_Idle, sp_prod := p, sp_mem := (sp_mem st)\<lparr>rm_data := data\<rparr>\<rparr>)"
| push_publish: "sp_push st = P_Written new \<Longrightarrow>
    spsc_step st (st\<lparr>sp_push := P_Idle, sp_mem := (sp_mem st)\<lparr>rm_prod := new\<rparr>\<rparr>)"
| pop_load: "sp_pop st = C_Idle \<Longrightarrow> spsc_step st (st\<lparr>sp_pop := C_Loaded (rm_prod (sp_mem st))\<rparr>)"
| pop_copy: "sp_pop st = C_Loaded prd \<Longrightarrow>
    pop_loaded (sp_cons st) (rm_data (sp_mem st)) prd (rm_cons (sp_mem st)) (replicate MAX_RECORD_LEN 0)
      = (Ok (Some n), scratch, Some new) \<Longrightarrow>
    spsc_step st (st\<lparr>sp_pop := C_Copied new (take n scratch)\<rparr>)"
| pop_none: "sp_pop st = C_Loaded prd \<Longrightarrow>
    pop_loaded (sp_cons st) (rm_data (sp_mem st)) prd (rm_cons (sp_mem st)) (replicate MAX_RECORD_LEN 0)
      = (r, scratch, None) \<Longrightarrow>
    spsc_step st (st\<lparr>sp_pop := C_Idle\<rparr>)"
| pop_publish: "sp_pop st = C_Copied new r \<Longrightarrow>
    spsc_step st (st\<lparr>sp_pop := C_Idle, sp_mem := (sp_mem st)\<lparr>rm_cons := new\<rparr>, sp_got := sp_got st @ [r]\<rparr>)"

inductive_cases spsc_stepE: "spsc_step st st'"

definition spsc_init :: "u32 \<Rightarrow> u32 \<Rightarrow> u32 \<Rightarrow> bytes \<Rightarrow> spsc" where
  "spsc_init sz start seq data =
     \<lparr>sp_mem = \<lparr>rm_data = data, rm_prod = start, rm_cons = start\<rparr>,
      sp_prod = \<lparr>pr_size = sz, pr_next_seq = seq\<rparr>, sp_cons = \<lparr>co_size = sz\<rparr>,
      sp_push = P_Idle, sp_pop = C_Idle, sp_accepted = [], sp_got = []\<rparr>"

section \<open>The invariant\<close>

text \<open>
  \<open>recs\<close> are the published records, \<open>pend\<close> those written but not yet published. A producer
  snapshot of the consumer index lies at most \<open>k\<close> consumed bytes behind, all still covered by one
  lap; a consumer snapshot of the producer index ends after a prefix of \<open>recs\<close>.
\<close>

fun push_inv :: "u32 \<Rightarrow> ring_mem \<Rightarrow> bytes list \<Rightarrow> bytes list \<Rightarrow> push_phase \<Rightarrow> bool" where
  "push_inv sz m recs pend P_Idle \<longleftrightarrow> pend = []"
| "push_inv sz m recs pend (P_Loaded x c) \<longleftrightarrow>
     pend = [] \<and> event_item_ok x \<and> unat c mod 8 = 0
     \<and> (\<exists>k. rm_cons m = c + of_nat k \<and> k mod 8 = 0 \<and> k + ring_total recs \<le> unat sz)"
| "push_inv sz m recs pend (P_Written new) \<longleftrightarrow>
     new = rm_prod m + of_nat (ring_total pend) \<and> ring_total recs + ring_total pend \<le> unat sz
     \<and> list_all good_record pend \<and> stored (unat sz) (rm_data m) (ring_pos m recs) pend"

fun pop_inv :: "ring_mem \<Rightarrow> bytes list \<Rightarrow> pop_phase \<Rightarrow> bool" where
  "pop_inv m recs C_Idle \<longleftrightarrow> True"
| "pop_inv m recs (C_Loaded prd) \<longleftrightarrow> (\<exists>j. prd = rm_cons m + of_nat (ring_total (take j recs)))"
| "pop_inv m recs (C_Copied new r) \<longleftrightarrow>
     new = rm_cons m + of_nat (length r) \<and> (\<exists>rs. recs = r # rs)"

definition spsc_inv :: "u32 \<Rightarrow> u32 \<Rightarrow> spsc \<Rightarrow> bytes list \<Rightarrow> bytes list \<Rightarrow> bool" where
  "spsc_inv sz seq0 st recs pend \<longleftrightarrow>
     pr_size (sp_prod st) = sz \<and> co_size (sp_cons st) = sz
     \<and> ring_rep sz (sp_mem st) recs
     \<and> push_inv sz (sp_mem st) recs pend (sp_push st)
     \<and> pop_inv (sp_mem st) recs (sp_pop st)
     \<and> payload_records (sp_got st @ recs @ pend) = map (\<lambda>(seq, x). item_image seq x) (sp_accepted st)
     \<and> seqs_from seq0 (sp_got st @ recs @ pend)
     \<and> pr_next_seq (sp_prod st) = seq0 + of_nat (length (sp_got st @ recs @ pend))
     \<and> (\<forall>(seq, x) \<in> set (sp_accepted st). event_item_ok x)"

lemma spsc_inv_init:
  assumes "ring_size_ok sz" and "length data = unat sz" and "unat start mod 8 = 0"
  shows "spsc_inv sz seq (spsc_init sz start seq data) [] []"
  using assms by (simp add: spsc_inv_def spsc_init_def ring_rep_def)

lemma ring_rep_prefix:
  assumes "ring_rep sz m recs"
  shows "ring_rep sz (m\<lparr>rm_prod := rm_cons m + of_nat (ring_total (take j recs))\<rparr>) (take j recs)"
proof -
  have split: "recs = take j recs @ drop j recs" by simp
  have "ring_total recs = ring_total (take j recs) + ring_total (drop j recs)"
    by (subst split) (simp only: total_simps)
  moreover have "stored (unat sz) (rm_data m) (unat (rm_cons m)) (take j recs)"
    using assms stored_append [of "unat sz" "rm_data m" "unat (rm_cons m)" "take j recs" "drop j recs"]
    by (simp add: ring_rep_def)
  moreover have "list_all good_record (take j recs)"
    using assms by (auto simp: ring_rep_def list_all_iff dest: in_set_takeD)
  ultimately show ?thesis using assms by (simp add: ring_rep_def)
qed

text \<open>The pop of a represented prefix, seen from the loaded producer index.\<close>

lemma pop_loaded_prefix:
  assumes rep: "ring_rep (co_size co) m recs"
    and prd: "prd = rm_cons m + of_nat (ring_total (take j recs))"
  shows "pop_loaded co (rm_data m) prd (rm_cons m) (replicate MAX_RECORD_LEN 0) =
     (case take j recs of
        [] \<Rightarrow> (Ok None, replicate MAX_RECORD_LEN 0, None)
      | r # _ \<Rightarrow> (Ok (Some (length r)), patch (replicate MAX_RECORD_LEN 0) 0 r,
                 Some (rm_cons m + of_nat (length r))))"
proof -
  have rep': "ring_rep (co_size co) (m\<lparr>rm_prod := prd\<rparr>) (take j recs)"
    unfolding prd by (rule ring_rep_prefix [OF rep])
  have "length r \<le> 4096" if "take j recs = r # rs" for r rs
    using rep' that good_record_length by (auto simp: ring_rep_def)
  moreover have "8 \<le> length r" if "take j recs = r # rs" for r rs
    using rep' that good_record_length by (auto simp: ring_rep_def)
  ultimately show ?thesis
    using pop_loaded_rep [OF rep', of "replicate MAX_RECORD_LEN 0"]
    by (cases "take j recs") auto
qed

section \<open>Preservation\<close>

text \<open>
  A push with a stale consumer index: either refused without effect, or written entirely into
  bytes that hold no published record.
\<close>

lemma push_item_stale:
  assumes rep: "ring_rep (pr_size p) m recs" and x: "event_item_ok x"
    and c: "unat c mod 8 = 0" "rm_cons m = c + of_nat k" "k mod 8 = 0" "k + ring_total recs \<le> unat (pr_size p)"
    and push: "push_item p (rm_data m) (rm_prod m) c x = (r, p', data, new)"
  shows "(r = Err RingFull \<and> p' = p \<and> data = rm_data m \<and> new = None) \<or>
     (\<exists>ps seq. r = Ok seq \<and> p' = p\<lparr>pr_next_seq := seq + 1\<rparr>
        \<and> new = Some (rm_prod m + of_nat (ring_total (ps @ [item_image seq x])))
        \<and> ring_total recs + ring_total (ps @ [item_image seq x]) \<le> unat (pr_size p)
        \<and> list_all good_record (ps @ [item_image seq x]) \<and> list_all is_pad_record ps
        \<and> seqs_from (pr_next_seq p) (ps @ [item_image seq x])
        \<and> ring_rep (pr_size p) (m\<lparr>rm_data := data\<rparr>) recs
        \<and> stored (unat (pr_size p)) data (ring_pos m recs) (ps @ [item_image seq x]))"
proof -
  let ?s = "unat (pr_size p)" and ?l = "item_len x" and ?q = "pr_next_seq p"
  define C P where "C = unat c" and "P = unat c + k + ring_total recs"
  let ?ps = "pads ?s P ?l ?q" and ?seq = "record_seq ?s P ?l ?q"
  let ?img = "item_image ?seq x"
  have sz: "ring_size_ok (pr_size p)" and data0: "length (rm_data m) = ?s"
    and st: "stored ?s (rm_data m) (unat (rm_cons m)) recs"
    using rep by (simp_all add: ring_rep_def)
  have P8: "P mod 8 = 0"
    unfolding P_def using c total_mod8 rep by (intro add_mod8) (auto simp: ring_rep_def)
  have prd: "rm_prod m = of_nat P" and cw: "c = of_nat C" and consw: "rm_cons m = of_nat (C + k)"
    using rep c by (simp_all add: P_def C_def ring_rep_def)
  have CP: "C \<le> P" "P \<le> C + ?s" using c by (simp_all add: P_def C_def)
  have xx: "event_encodable (snd (snd x))" "snd (snd x) \<noteq> Ev_Pad" using x by (simp_all add: event_item_ok_def)
  have img: "length (item_image q x) = ?l" "good_record (item_image q x)"
       "record_seq_of (item_image q x) = q" "\<not> is_pad_record (item_image q x)" for q
    using event_ring.good_image [of x q] event_ring.image_header_fields [of x q] x length_event_image [OF xx(1)]
    unfolding item_split by (simp_all add: item_image_def item_len_def)
  have l: "?l \<le> 4096" "length ?img \<le> 4096" using img(1) good_record_length [OF img(2)] by simp_all
  have enc: "encode_event dst ?seq (fst x) (fst (snd x)) (snd (snd x)) = Ok (?img, ?l)"
    if "length dst = ?l" for dst
    using that xx by (simp add: encode_event_eq item_len_def item_image_def patch_whole length_event_image)
  have eq: "push_item p (rm_data m) (rm_prod m) c x =
     (if C + ?s < P + pad_len ?s P ?l + ?l then (Err RingFull, p, rm_data m, None)
      else (Ok ?seq, p\<lparr>pr_next_seq := ?seq + 1\<rparr>, pushed_data ?s (rm_data m) P ?img ?q,
            Some (of_nat (P + pad_len ?s P ?l + ?l))))"
    unfolding push_item_def prd cw
    by (rule push_loaded_eq [OF sz P8 l(1) data0 CP refl _ img(1)]) (rule enc)
  show ?thesis
  proof (cases "C + ?s < P + pad_len ?s P ?l + ?l")
    case True
    with eq push show ?thesis by simp
  next
    case False
    then have f: "P + pad_len ?s P (length ?img) + length ?img \<le> C + ?s" using img by simp
    note sp = stored_pushed [OF sz P8 l(2) data0 f CP(1), where seq = ?q]
    have tp: "ring_total ?ps = pad_len ?s P ?l"
      by (rule total_pads [OF sz P8 l(1)])
    have cm: "unat (rm_cons m) mod ?s = (C + k) mod ?s"
      unfolding consw by (rule unat_mod_ring [OF sz])
    have pm: "ring_pos m recs mod ?s = P mod ?s"
      using cm unfolding ring_pos_def P_def C_def by (metis mod_add_left_eq)
    have d: "data = pushed_data ?s (rm_data m) P ?img ?q" using eq push False by simp
    have "stored ?s data (C + k) recs"
      unfolding d using st stored_mod [OF cm] by (intro sp(2)) (auto simp: P_def C_def)
    then have rep': "ring_rep (pr_size p) (m\<lparr>rm_data := data\<rparr>) recs"
      using rep stored_mod [OF cm] length_pushed_data(2) [OF sz P8 l(2) data0, of ?q]
      by (simp add: ring_rep_def d)
    have st': "stored ?s data (ring_pos m recs) (?ps @ [?img])"
      using sp(1) img stored_mod [OF pm] by (simp add: d)
    have total: "k + ring_total recs + ring_total (?ps @ [?img]) \<le> ?s"
      using False img(1) tp by (simp add: P_def C_def)
    note q = pads_seqs [OF sz P8 l(1), of ?q]
    have "seqs_from ?q (?ps @ [?img])"
      using q img by (simp add: seqs_from_append)
    moreover have "new = Some (rm_prod m + of_nat (ring_total (?ps @ [?img])))"
      using eq push False img by (auto simp: prd tp add.assoc)
    ultimately show ?thesis
      using eq push False rep' st' total q(1) good_pads [OF sz P8 l(1)] img
      by (intro disjI2 exI [of _ ?ps] exI [of _ ?seq]) auto
  qed
qed

lemma push_publish_rep:
  assumes rep: "ring_rep sz m recs" and "push_inv sz m recs pend (P_Written new)"
  shows "ring_rep sz (m\<lparr>rm_prod := new\<rparr>) (recs @ pend)"
  using assms by (auto simp: ring_rep_def stored_append ring_pos_def)

text \<open>Popping the head moves both halves' view of the queue forward by one record.\<close>

lemma pop_publish_push_inv:
  assumes rep: "ring_rep sz m (r # rs)" and inv: "push_inv sz m (r # rs) pend ph"
  shows "push_inv sz (m\<lparr>rm_cons := rm_cons m + of_nat (length r)\<rparr>) rs pend ph"
proof (cases ph)
  case (P_Loaded x c)
  then obtain k where k: "rm_cons m = c + of_nat k" "k mod 8 = 0" "k + ring_total (r # rs) \<le> unat sz"
    using inv by auto
  have "length r mod 8 = 0"
    using rep good_record_length by (auto simp: ring_rep_def)
  with k have "rm_cons m + of_nat (length r) = c + of_nat (k + length r) \<and> (k + length r) mod 8 = 0
      \<and> k + length r + ring_total rs \<le> unat sz"
    using add_mod8 [of k "length r"] by simp
  then have "\<exists>k. rm_cons m + of_nat (length r) = c + of_nat k \<and> k mod 8 = 0 \<and> k + ring_total rs \<le> unat sz"
    by (rule exI)
  with inv P_Loaded show ?thesis by simp
next
  case (P_Written new)
  have sz: "ring_size_ok sz" using rep by (simp add: ring_rep_def)
  have "unat (of_nat (unat (rm_cons m) + length r) :: u32) mod unat sz = (unat (rm_cons m) + length r) mod unat sz"
    by (rule unat_mod_ring [OF sz])
  then have "(unat (of_nat (unat (rm_cons m) + length r) :: u32) + ring_total rs) mod unat sz
      = (unat (rm_cons m) + length r + ring_total rs) mod unat sz"
    by (metis mod_add_left_eq)
  then have "ring_pos (m\<lparr>rm_cons := rm_cons m + of_nat (length r)\<rparr>) rs mod unat sz = ring_pos m (r # rs) mod unat sz"
    by (simp add: ring_pos_def add.assoc)
  then have "stored (unat sz) (rm_data m) (ring_pos (m\<lparr>rm_cons := rm_cons m + of_nat (length r)\<rparr>) rs) pend
      = stored (unat sz) (rm_data m) (ring_pos m (r # rs)) pend"
    by (rule stored_mod)
  with inv P_Written show ?thesis by simp
qed (use inv in simp)

text \<open>A producer that has loaded its indices: what the invariant says of its snapshot.\<close>

lemma spsc_inv_loaded:
  assumes "spsc_inv sz seq0 st recs pend" and "sp_push st = P_Loaded x c"
  obtains k where "ring_rep (pr_size (sp_prod st)) (sp_mem st) recs" "event_item_ok x" "pend = []"
    "unat c mod 8 = 0" "rm_cons (sp_mem st) = c + of_nat k" "k mod 8 = 0"
    "k + ring_total recs \<le> unat (pr_size (sp_prod st))"
  using assms by (auto simp: spsc_inv_def)

lemma push_write_inv:
  assumes inv: "spsc_inv sz seq0 st recs pend" and ph: "sp_push st = P_Loaded x c"
    and push: "push_item (sp_prod st) (rm_data (sp_mem st)) (rm_prod (sp_mem st)) c x = (Ok seq, p, data, Some new)"
  shows "\<exists>pend'. spsc_inv sz seq0 (st\<lparr>sp_push := P_Written new, sp_prod := p,
      sp_mem := (sp_mem st)\<lparr>rm_data := data\<rparr>, sp_accepted := sp_accepted st @ [(seq, x)]\<rparr>) recs pend'"
proof -
  obtain k where k: "ring_rep (pr_size (sp_prod st)) (sp_mem st) recs" "event_item_ok x" "pend = []"
    "unat c mod 8 = 0" "rm_cons (sp_mem st) = c + of_nat k" "k mod 8 = 0"
    "k + ring_total recs \<le> unat (pr_size (sp_prod st))"
    using inv ph by (rule spsc_inv_loaded)
  obtain ps where ps: "p = (sp_prod st)\<lparr>pr_next_seq := seq + 1\<rparr>"
    "new = rm_prod (sp_mem st) + of_nat (ring_total (ps @ [item_image seq x]))"
    "ring_total recs + ring_total (ps @ [item_image seq x]) \<le> unat (pr_size (sp_prod st))"
    "list_all good_record (ps @ [item_image seq x])" "list_all is_pad_record ps"
    "seqs_from (pr_next_seq (sp_prod st)) (ps @ [item_image seq x])"
    "ring_rep (pr_size (sp_prod st)) ((sp_mem st)\<lparr>rm_data := data\<rparr>) recs"
    "stored (unat (pr_size (sp_prod st))) data (ring_pos (sp_mem st) recs) (ps @ [item_image seq x])"
    using push_item_stale [OF k(1,2,4-7) push] by auto
  have pos: "ring_pos ((sp_mem st)\<lparr>rm_data := data\<rparr>) recs = ring_pos (sp_mem st) recs"
    by (simp add: ring_pos_def)
  have pi: "pop_inv ((sp_mem st)\<lparr>rm_data := data\<rparr>) recs (sp_pop st) = pop_inv (sp_mem st) recs (sp_pop st)"
    by (cases "sp_pop st") simp_all
  note np = event_queue.image_not_pad [OF k(2)] event_queue.image_seq [OF k(2)]
  have "seq = pr_next_seq (sp_prod st) + of_nat (length ps)"
    using ps(6) np by (simp add: seqs_from_append)
  then show ?thesis
    using inv ps np event_queue.pads_only [OF ps(5)] k
    by (intro exI [of _ "ps @ [item_image seq x]"])
       (simp add: spsc_inv_def pos pi seqs_from_append algebra_simps)
qed

lemma push_refused_inv:
  assumes inv: "spsc_inv sz seq0 st recs pend" and ph: "sp_push st = P_Loaded x c"
    and push: "push_item (sp_prod st) (rm_data (sp_mem st)) (rm_prod (sp_mem st)) c x = (Err e, p, data, None)"
  shows "spsc_inv sz seq0 (st\<lparr>sp_push := P_Idle, sp_prod := p, sp_mem := (sp_mem st)\<lparr>rm_data := data\<rparr>\<rparr>) recs pend"
proof -
  obtain k where k: "ring_rep (pr_size (sp_prod st)) (sp_mem st) recs" "event_item_ok x" "pend = []"
    "unat c mod 8 = 0" "rm_cons (sp_mem st) = c + of_nat k" "k mod 8 = 0"
    "k + ring_total recs \<le> unat (pr_size (sp_prod st))"
    using inv ph by (rule spsc_inv_loaded)
  have "p = sp_prod st \<and> data = rm_data (sp_mem st)"
    using push_item_stale [OF k(1,2,4-7) push] by auto
  then show ?thesis using inv k by (simp add: spsc_inv_def)
qed

lemma push_publish_inv:
  assumes inv: "spsc_inv sz seq0 st recs pend" and ph: "sp_push st = P_Written new"
  shows "spsc_inv sz seq0 (st\<lparr>sp_push := P_Idle, sp_mem := (sp_mem st)\<lparr>rm_prod := new\<rparr>\<rparr>) (recs @ pend) []"
proof -
  have "pop_inv ((sp_mem st)\<lparr>rm_prod := new\<rparr>) (recs @ pend) (sp_pop st)"
  proof (cases "sp_pop st")
    case (C_Loaded prd)
    then obtain j where "prd = rm_cons (sp_mem st) + of_nat (ring_total (take j recs))"
      using inv by (auto simp: spsc_inv_def)
    then show ?thesis
      using C_Loaded by (auto intro!: exI [of _ "min j (length recs)"] simp: min_def)
  qed (use inv in \<open>auto simp: spsc_inv_def\<close>)
  moreover have "ring_rep sz ((sp_mem st)\<lparr>rm_prod := new\<rparr>) (recs @ pend)"
    using inv ph push_publish_rep [of sz "sp_mem st" recs pend new] by (simp add: spsc_inv_def)
  ultimately show ?thesis using inv by (simp add: spsc_inv_def)
qed

lemma pop_copy_inv:
  assumes inv: "spsc_inv sz seq0 st recs pend" and ph: "sp_pop st = C_Loaded prd"
    and pop: "pop_loaded (sp_cons st) (rm_data (sp_mem st)) prd (rm_cons (sp_mem st))
      (replicate MAX_RECORD_LEN 0) = (Ok (Some n), scratch, Some new)"
  shows "spsc_inv sz seq0 (st\<lparr>sp_pop := C_Copied new (take n scratch)\<rparr>) recs pend"
proof -
  obtain j where "prd = rm_cons (sp_mem st) + of_nat (ring_total (take j recs))"
    using inv ph by (auto simp: spsc_inv_def)
  then obtain r rs where "take j recs = r # rs" "n = length r" "take n scratch = r"
    "new = rm_cons (sp_mem st) + of_nat (length r)"
    using pop pop_loaded_prefix [of "sp_cons st" "sp_mem st" recs prd j] inv
    by (auto simp: spsc_inv_def split: list.splits)
  then show ?thesis
    using inv by (cases recs; cases j; auto simp: spsc_inv_def)
qed

lemma pop_publish_inv:
  assumes inv: "spsc_inv sz seq0 st recs pend" and ph: "sp_pop st = C_Copied new r"
  shows "\<exists>rs. spsc_inv sz seq0
     (st\<lparr>sp_pop := C_Idle, sp_mem := (sp_mem st)\<lparr>rm_cons := new\<rparr>, sp_got := sp_got st @ [r]\<rparr>) rs pend"
proof -
  obtain rs where recs: "recs = r # rs" and new: "new = rm_cons (sp_mem st) + of_nat (length r)"
    using inv ph by (auto simp: spsc_inv_def)
  show ?thesis
    using inv ring_rep_tl [of sz "sp_mem st" r rs] pop_publish_push_inv [of sz "sp_mem st" r rs pend "sp_push st"]
    by (intro exI [of _ rs]) (auto simp: spsc_inv_def recs new)
qed

lemma spsc_inv_step:
  assumes "spsc_step st st'" and inv: "spsc_inv sz seq0 st recs pend"
  shows "\<exists>recs' pend'. spsc_inv sz seq0 st' recs' pend'"
  using assms
proof (induction rule: spsc_step.induct)
  case (push_load st x)
  then have "spsc_inv sz seq0 (st\<lparr>sp_push := P_Loaded x (rm_cons (sp_mem st))\<rparr>) recs pend"
    by (auto simp: spsc_inv_def ring_rep_def intro!: exI [of _ 0])
  then show ?case by blast
next
  case (pop_load st)
  then have "spsc_inv sz seq0 (st\<lparr>sp_pop := C_Loaded (rm_prod (sp_mem st))\<rparr>) recs pend"
    by (auto simp: spsc_inv_def ring_rep_def intro!: exI [of _ "length recs"])
  then show ?case by blast
next
  case (pop_none st prd r scratch)
  then have "spsc_inv sz seq0 (st\<lparr>sp_pop := C_Idle\<rparr>) recs pend"
    by (simp add: spsc_inv_def)
  then show ?case by blast
next
  case (push_write st x c seq p data new)
  show ?case using push_write_inv [OF push_write.prems push_write.hyps] by blast
next
  case (push_refused st x c e p data)
  show ?case using push_refused_inv [OF push_refused.prems push_refused.hyps] by blast
next
  case (push_publish st new)
  show ?case using push_publish_inv [OF push_publish.prems push_publish.hyps] by blast
next
  case (pop_copy st prd n scratch new)
  show ?case using pop_copy_inv [OF pop_copy.prems pop_copy.hyps] by blast
next
  case (pop_publish st new r)
  show ?case using pop_publish_inv [OF pop_publish.prems pop_publish.hyps] by blast
qed

lemma spsc_inv_reachable:
  assumes "spsc_step\<^sup>*\<^sup>* st st'" and "spsc_inv sz seq0 st recs pend"
  shows "\<exists>recs' pend'. spsc_inv sz seq0 st' recs' pend'"
  using assms by (induction rule: rtranclp_induct) (use spsc_inv_step in blast)+

text \<open>Whatever its snapshot, the next action of either half is defined, and a pop finds no corruption.\<close>

definition push_no_fault :: "spsc \<Rightarrow> bool" where
  "push_no_fault st =
     (case sp_push st of
        P_Loaded x c \<Rightarrow> \<not> is_panic (fst (push_item (sp_prod st) (rm_data (sp_mem st)) (rm_prod (sp_mem st)) c x))
      | _ \<Rightarrow> True)"

definition pop_no_fault :: "spsc \<Rightarrow> bool" where
  "pop_no_fault st =
     (case sp_pop st of
        C_Loaded prd \<Rightarrow> is_ok (fst (pop_loaded (sp_cons st) (rm_data (sp_mem st)) prd (rm_cons (sp_mem st))
                                   (replicate MAX_RECORD_LEN 0)))
      | _ \<Rightarrow> True)"

lemma spsc_no_fault:
  assumes inv: "spsc_inv sz seq0 st recs pend"
  shows "push_no_fault st" and "pop_no_fault st"
proof -
  show "push_no_fault st"
  proof (cases "sp_push st")
    case (P_Loaded x c)
    obtain k where k: "ring_rep (pr_size (sp_prod st)) (sp_mem st) recs" "event_item_ok x" "pend = []"
      "unat c mod 8 = 0" "rm_cons (sp_mem st) = c + of_nat k" "k mod 8 = 0"
      "k + ring_total recs \<le> unat (pr_size (sp_prod st))"
      using inv P_Loaded by (rule spsc_inv_loaded)
    obtain r p data new where
      push: "push_item (sp_prod st) (rm_data (sp_mem st)) (rm_prod (sp_mem st)) c x = (r, p, data, new)"
      by (cases "push_item (sp_prod st) (rm_data (sp_mem st)) (rm_prod (sp_mem st)) c x") auto
    show ?thesis
      using push_item_stale [OF k(1,2,4-7) push] push P_Loaded by (auto simp: push_no_fault_def)
  qed (simp_all add: push_no_fault_def)
  show "pop_no_fault st"
  proof (cases "sp_pop st")
    case (C_Loaded prd)
    then obtain j where "prd = rm_cons (sp_mem st) + of_nat (ring_total (take j recs))"
      using inv by (auto simp: spsc_inv_def)
    then show ?thesis
      using pop_loaded_prefix [of "sp_cons st" "sp_mem st" recs prd j] inv C_Loaded
      by (auto simp: pop_no_fault_def spsc_inv_def split: list.splits)
  qed (simp_all add: pop_no_fault_def)
qed

section \<open>Property\<close>

text \<open>
  C9. Under every interleaving of one producer and one consumer, with index snapshots taken at any
  earlier moment, the ring stays a FIFO: in every reachable state the records delivered, then the
  published and the written ones, are the accepted events in order, with consecutive sequence
  numbers; every delivered event decodes to the event pushed; and neither side ever faults.
\<close>

theorem spsc_fifo:
  assumes "ring_size_ok sz" and "length data = unat sz" and "unat start mod 8 = 0"
    and "spsc_step\<^sup>*\<^sup>* (spsc_init sz start seq0 data) st"
  shows "\<exists>queued. payload_records (sp_got st @ queued) = map (\<lambda>(seq, x). item_image seq x) (sp_accepted st)
     \<and> seqs_from seq0 (sp_got st @ queued)
     \<and> map decode_event (payload_records (sp_got st))
       = map (\<lambda>(seq, x). Ok (item_decoded seq x)) (take (length (payload_records (sp_got st))) (sp_accepted st))
     \<and> push_no_fault st \<and> pop_no_fault st"
proof -
  obtain recs pend where inv: "spsc_inv sz seq0 st recs pend"
    using spsc_inv_reachable [OF assms(4) spsc_inv_init [OF assms(1-3)]] by blast
  have eq: "payload_records (sp_got st @ recs @ pend) = map (\<lambda>(seq, x). item_image seq x) (sp_accepted st)"
    and sq: "seqs_from seq0 (sp_got st @ recs @ pend)"
    and ok: "\<forall>(seq, x) \<in> set (sp_accepted st). event_item_ok x"
    using inv by (simp_all add: spsc_inv_def)
  have "map decode_event (payload_records (sp_got st))
       = map (\<lambda>(seq, x). Ok (item_decoded seq x)) (take (length (payload_records (sp_got st))) (sp_accepted st))"
    by (rule decode_prefix [OF _ ok, where left = "recs @ pend"]) (use eq in simp)
  with eq sq spsc_no_fault [OF inv] show ?thesis by blast
qed

theorem spsc_fifo_witness:
  "\<exists>st queued. spsc_step\<^sup>*\<^sup>* (spsc_init 8192 0xFFFFFFF8 0 (replicate 8192 0)) st
     \<and> sp_push st = P_Loaded (5, 0, Ev_Beacon 7) 0xFFFFFFF8
     \<and> payload_records (sp_got st @ queued) = map (\<lambda>(seq, x). item_image seq x) (sp_accepted st)
     \<and> push_no_fault st"
proof -
  let ?st = "spsc_init 8192 0xFFFFFFF8 0 (replicate 8192 0)"
  let ?st' = "?st\<lparr>sp_push := P_Loaded (5, 0, Ev_Beacon 7) (rm_cons (sp_mem ?st))\<rparr>"
  have "spsc_step ?st ?st'"
    by (rule push_load) (simp_all add: spsc_init_def event_item_ok_def)
  then have reach: "spsc_step\<^sup>*\<^sup>* ?st ?st'" by blast
  have "unat (0xFFFFFFF8 :: u32) mod 8 = 0" by simp
  then show ?thesis
    using spsc_fifo [OF ring_size_ok_8192 _ _ reach] reach
    by (intro exI [of _ ?st']) (auto simp: spsc_init_def)
qed

end
