(* ===== verification/Wire_Header.thy ===== *)
theory Wire_Header
  imports Wire_Ring
begin

text \<open>
  The channel header: \<^verbatim>\<open>crates/detguest-wire/src/header.rs\<close>. Layout constants, ring identities with
  their index cells, ring descriptors and the attach-path validation. The lemmas characterise
  validation as the layout a host can rely on (rings inside the page, behind the manifest, disjoint)
  and give the header round trip.
\<close>

section \<open>Layout\<close>

definition CHANNEL_MAGIC :: u64 where [simp]: "CHANNEL_MAGIC = 0x5453455547544544"
definition PROTO_VERSION :: u32 where [simp]: "PROTO_VERSION = 1"
definition CHANNEL_SIZE :: nat where [simp]: "CHANNEL_SIZE = 0x200000"
definition CHANNEL_SIZE_PAGES :: u32 where "CHANNEL_SIZE_PAGES = of_nat (CHANNEL_SIZE div 4096)"
definition FLAG_AGENT_READY :: u32 where [simp]: "FLAG_AGENT_READY = push_bit 0 1"
definition FLAG_WORKLOAD_ATTACHED :: u32 where [simp]: "FLAG_WORKLOAD_ATTACHED = push_bit 1 1"

definition OFF_MAGIC :: nat where [simp]: "OFF_MAGIC = 0x000"
definition OFF_PROTO_VERSION :: nat where [simp]: "OFF_PROTO_VERSION = 0x008"
definition OFF_HEADER_FLAGS :: nat where [simp]: "OFF_HEADER_FLAGS = 0x00C"
definition OFF_RING_DESC :: nat where [simp]: "OFF_RING_DESC = 0x010"
definition OFF_RESERVED :: nat where [simp]: "OFF_RESERVED = 0x030"
definition OFF_RING_A_DROPPED_RECORDS :: nat where [simp]: "OFF_RING_A_DROPPED_RECORDS = 0x040"
definition OFF_RING_A_DROPPED_BYTES :: nat where [simp]: "OFF_RING_A_DROPPED_BYTES = 0x048"
definition OFF_RING_W_DROPPED_RECORDS :: nat where [simp]: "OFF_RING_W_DROPPED_RECORDS = 0x050"
definition OFF_RING_W_DROPPED_BYTES :: nat where [simp]: "OFF_RING_W_DROPPED_BYTES = 0x058"
definition OFF_RING_W_DROPPED_BY_KIND :: nat where [simp]: "OFF_RING_W_DROPPED_BY_KIND = 0x060"
definition DROPPED_BY_KIND_SLOTS :: nat where [simp]: "DROPPED_BY_KIND_SLOTS = 16"
definition OFF_RING_C_PROD :: nat where [simp]: "OFF_RING_C_PROD = 0x100"
definition OFF_RING_C_CONS :: nat where [simp]: "OFF_RING_C_CONS = 0x140"
definition OFF_RING_I_PROD :: nat where [simp]: "OFF_RING_I_PROD = 0x180"
definition OFF_RING_I_CONS :: nat where [simp]: "OFF_RING_I_CONS = 0x1C0"
definition OFF_RING_A_PROD :: nat where [simp]: "OFF_RING_A_PROD = 0x200"
definition OFF_RING_A_CONS :: nat where [simp]: "OFF_RING_A_CONS = 0x240"
definition OFF_RING_W_PROD :: nat where [simp]: "OFF_RING_W_PROD = 0x280"
definition OFF_RING_W_CONS :: nat where [simp]: "OFF_RING_W_CONS = 0x2C0"
definition OFF_MANIFEST :: nat where [simp]: "OFF_MANIFEST = 0x1000"
definition OFF_RING_C_DATA :: nat where [simp]: "OFF_RING_C_DATA = 0x8000"
definition RING_C_SIZE :: u32 where [simp]: "RING_C_SIZE = 0x4000"
definition OFF_RING_I_DATA :: nat where [simp]: "OFF_RING_I_DATA = 0xC000"
definition RING_I_SIZE :: u32 where [simp]: "RING_I_SIZE = 0x4000"
definition OFF_RING_A_DATA :: nat where [simp]: "OFF_RING_A_DATA = 0x10000"
definition RING_A_SIZE :: u32 where [simp]: "RING_A_SIZE = 0x10000"
definition OFF_RING_W_DATA :: nat where [simp]: "OFF_RING_W_DATA = 0x20000"
definition RING_W_SIZE :: u32 where [simp]: "RING_W_SIZE = 0x100000"
definition OFF_RESERVED_TAIL :: nat where [simp]: "OFF_RESERVED_TAIL = OFF_RING_W_DATA + unat RING_W_SIZE"

section \<open>Rings\<close>

record ring_desc =
  rd_offset :: u32
  rd_size :: u32

datatype ring_id = RingC | RingI | RingA | RingW

definition RingId_as_u8 :: "ring_id \<Rightarrow> u8" where
  "RingId_as_u8 r = (case r of RingC \<Rightarrow> 0 | RingI \<Rightarrow> 1 | RingA \<Rightarrow> 2 | RingW \<Rightarrow> 3)"

definition RingId_ALL :: "ring_id list" where
  "RingId_ALL = [RingC, RingI, RingA, RingW]"

definition prod_offset :: "ring_id \<Rightarrow> nat" where
  "prod_offset r =
     (case r of RingC \<Rightarrow> OFF_RING_C_PROD | RingI \<Rightarrow> OFF_RING_I_PROD | RingA \<Rightarrow> OFF_RING_A_PROD
      | RingW \<Rightarrow> OFF_RING_W_PROD)"

definition cons_offset :: "ring_id \<Rightarrow> nat" where
  "cons_offset r =
     (case r of RingC \<Rightarrow> OFF_RING_C_CONS | RingI \<Rightarrow> OFF_RING_I_CONS | RingA \<Rightarrow> OFF_RING_A_CONS
      | RingW \<Rightarrow> OFF_RING_W_CONS)"

definition canonical_desc :: "ring_id \<Rightarrow> ring_desc" where
  "canonical_desc r =
     (case r of
        RingC \<Rightarrow> \<lparr>rd_offset = of_nat OFF_RING_C_DATA, rd_size = RING_C_SIZE\<rparr>
      | RingI \<Rightarrow> \<lparr>rd_offset = of_nat OFF_RING_I_DATA, rd_size = RING_I_SIZE\<rparr>
      | RingA \<Rightarrow> \<lparr>rd_offset = of_nat OFF_RING_A_DATA, rd_size = RING_A_SIZE\<rparr>
      | RingW \<Rightarrow> \<lparr>rd_offset = of_nat OFF_RING_W_DATA, rd_size = RING_W_SIZE\<rparr>)"

text \<open>The derived order of the enum: its discriminants.\<close>

lemma RingId_as_u8_inj [simp]: "RingId_as_u8 a = RingId_as_u8 b \<longleftrightarrow> a = b"
  by (cases a; cases b) (simp_all add: RingId_as_u8_def)

instantiation ring_id :: linorder
begin

definition less_eq_ring_id :: "ring_id \<Rightarrow> ring_id \<Rightarrow> bool" where
  "less_eq_ring_id a b \<longleftrightarrow> RingId_as_u8 a \<le> RingId_as_u8 b"

definition less_ring_id :: "ring_id \<Rightarrow> ring_id \<Rightarrow> bool" where
  "less_ring_id a b \<longleftrightarrow> RingId_as_u8 a < RingId_as_u8 b"

instance
  by standard (auto simp: less_eq_ring_id_def less_ring_id_def order.strict_iff_order)

end

definition RingDesc_validate :: "ring_desc \<Rightarrow> (decode_error, unit) res" where
  "RingDesc_validate self =
     (if rd_size self = 0 \<or> \<not> is_power_of_two (rd_size self) then Err BadField
      else let off = unat (rd_offset self); sz = unat (rd_size self)
      in if off < OFF_RING_C_DATA \<or> off + sz \<ge> 2 ^ 64 \<or> off + sz > CHANNEL_SIZE then Err BadField
         else if off mod 8 \<noteq> 0 then Err BadField
         else Ok ())"

section \<open>The header\<close>

record channel_header =
  ch_magic :: u64
  ch_proto_version :: u32
  ch_header_flags :: u32
  ch_ring_desc :: "ring_desc list"

definition ChannelHeader_canonical :: channel_header where
  "ChannelHeader_canonical =
     \<lparr>ch_magic = CHANNEL_MAGIC, ch_proto_version = PROTO_VERSION, ch_header_flags = 0,
      ch_ring_desc = [canonical_desc RingC, canonical_desc RingI, canonical_desc RingA, canonical_desc RingW]\<rparr>"

text \<open>The loops over the descriptor array, from index \<open>i\<close> on.\<close>

primrec write_descs :: "nat \<Rightarrow> ring_desc list \<Rightarrow> bytes \<Rightarrow> (encode_error, bytes) res" where
  "write_descs i [] buf = Ok buf"
| "write_descs i (d # ds) buf =
     (let pos = OFF_RING_DESC + i * 8
      in bind_res (put_le 4 buf pos (rd_offset d)) (\<lambda>buf.
         bind_res (put_le 4 buf (pos + 4) (rd_size d)) (\<lambda>buf.
         write_descs (i + 1) ds buf)))"

definition ChannelHeader_write_to :: "channel_header \<Rightarrow> bytes \<Rightarrow> (encode_error, bytes) res" where
  "ChannelHeader_write_to self buf =
     (if length buf < OFF_RESERVED then Err BufferTooSmall
      else bind_res (put_le 8 buf OFF_MAGIC (ch_magic self)) (\<lambda>buf.
           bind_res (put_le 4 buf OFF_PROTO_VERSION (ch_proto_version self)) (\<lambda>buf.
           bind_res (put_le 4 buf OFF_HEADER_FLAGS (ch_header_flags self)) (\<lambda>buf.
           write_descs 0 (ch_ring_desc self) buf))))"

primrec read_descs :: "nat \<Rightarrow> nat \<Rightarrow> bytes \<Rightarrow> (decode_error, ring_desc list) res" where
  "read_descs 0 i buf = Ok []"
| "read_descs (Suc n) i buf =
     (let pos = OFF_RING_DESC + i * 8
      in bind_res (get_le 4 buf pos) (\<lambda>off.
         bind_res (get_le 4 buf (pos + 4)) (\<lambda>sz.
         bind_res (read_descs n (i + 1) buf) (\<lambda>ds.
         Ok (\<lparr>rd_offset = off, rd_size = sz\<rparr> # ds)))))"

definition ChannelHeader_read_from :: "bytes \<Rightarrow> (decode_error, channel_header) res" where
  "ChannelHeader_read_from buf =
     (if length buf < OFF_RESERVED then Err Truncated
      else bind_res (get_le 8 buf OFF_MAGIC) (\<lambda>magic.
           bind_res (get_le 4 buf OFF_PROTO_VERSION) (\<lambda>proto_version.
           bind_res (get_le 4 buf OFF_HEADER_FLAGS) (\<lambda>header_flags.
           bind_res (read_descs 4 0 buf) (\<lambda>ring_desc.
           Ok \<lparr>ch_magic = magic, ch_proto_version = proto_version, ch_header_flags = header_flags,
               ch_ring_desc = ring_desc\<rparr>)))))"

definition descs_overlap :: "ring_desc \<Rightarrow> ring_desc \<Rightarrow> bool" where
  "descs_overlap a b \<longleftrightarrow>
     (let a_end = ucast (rd_offset a) + ucast (rd_size a) :: u64;
          b_end = ucast (rd_offset b) + ucast (rd_size b) :: u64
      in ucast (rd_offset a) < b_end \<and> ucast (rd_offset b) < a_end)"

definition index_pairs :: "nat \<Rightarrow> (nat \<times> nat) list" where
  "index_pairs n = concat (map (\<lambda>i. map (\<lambda>j. (i, j)) [i + 1..<n]) [0..<n])"

definition ChannelHeader_validate :: "channel_header \<Rightarrow> (decode_error, unit) res" where
  "ChannelHeader_validate self =
     (if ch_magic self \<noteq> CHANNEL_MAGIC then Err BadMagic
      else if ch_proto_version self \<noteq> PROTO_VERSION then Err BadVersion
      else bind_res (check_all RingDesc_validate (ch_ring_desc self)) (\<lambda>_.
           check_all (\<lambda>(i, j).
               bind_res (index (ch_ring_desc self) i) (\<lambda>a.
               bind_res (index (ch_ring_desc self) j) (\<lambda>b.
               if descs_overlap a b then Err BadField else Ok ())))
             (index_pairs (length (ch_ring_desc self)))))"

section \<open>Header round trip\<close>

definition desc_bytes :: "ring_desc \<Rightarrow> bytes" where
  "desc_bytes d = to_le_bytes 4 (rd_offset d) @ to_le_bytes 4 (rd_size d)"

definition channel_header_bytes :: "channel_header \<Rightarrow> bytes" where
  "channel_header_bytes h = to_le_bytes 8 (ch_magic h) @ to_le_bytes 4 (ch_proto_version h)
     @ to_le_bytes 4 (ch_header_flags h) @ concat (map desc_bytes (ch_ring_desc h))"

lemma length_desc_bytes [simp]: "length (desc_bytes d) = 8"
  by (simp add: desc_bytes_def)

lemma length_descs [simp]: "length (concat (map desc_bytes ds)) = 8 * length ds"
  by (induction ds) simp_all

lemma write_descs_eq:
  "16 + (i + length ds) * 8 \<le> length buf \<Longrightarrow>
     write_descs i ds buf = Ok (patch buf (16 + i * 8) (concat (map desc_bytes ds)))"
proof (induction ds arbitrary: i buf)
  case (Cons d ds)
  let ?b = "patch buf (16 + i * 8) (desc_bytes d)"
  have one: "patch (patch buf (16 + i * 8) (to_le_bytes 4 (rd_offset d))) (20 + i * 8) (to_le_bytes 4 (rd_size d)) = ?b"
    using Cons.prems by (simp add: stores desc_bytes_def)
  have "write_descs (Suc i) ds ?b = Ok (patch ?b (16 + Suc i * 8) (concat (map desc_bytes ds)))"
    using Cons.prems by (intro Cons.IH) simp
  also have "patch ?b (16 + Suc i * 8) (concat (map desc_bytes ds))
      = patch buf (16 + i * 8) (concat (map desc_bytes (d # ds)))"
    using Cons.prems by (simp add: stores)
  finally show ?case
    using Cons.prems by (simp add: res_simps Let_def one)
qed simp

lemma write_header_eq:
  assumes "length (ch_ring_desc h) = 4" and "48 \<le> length buf"
  shows "ChannelHeader_write_to h buf = Ok (patch buf 0 (channel_header_bytes h))"
  using assms write_descs_eq [of 0 "ch_ring_desc h"]
  by (simp add: ChannelHeader_write_to_def res_simps stores channel_header_bytes_def)

lemma read_descs_eq:
  "16 + 8 * (i + n) \<le> length buf \<Longrightarrow>
     read_descs n i buf = Ok (map (\<lambda>k. \<lparr>rd_offset = le_at 4 buf (16 + 8 * k), rd_size = le_at 4 buf (20 + 8 * k)\<rparr>) [i..<i + n])"
proof (induction n arbitrary: i)
  case (Suc n)
  have "read_descs n (Suc i) buf = Ok (map (\<lambda>k. \<lparr>rd_offset = le_at 4 buf (16 + 8 * k), rd_size = le_at 4 buf (20 + 8 * k)\<rparr>) [Suc i..<Suc i + n])"
    using Suc.prems by (intro Suc.IH) simp
  with Suc.prems show ?case
    by (simp add: res_simps Let_def mult.commute upt_rec [of i] del: upt_Suc)
qed simp

lemma read_header_eq:
  "ChannelHeader_read_from buf =
     (if length buf < 48 then Err Truncated
      else Ok \<lparr>ch_magic = le_at 8 buf 0, ch_proto_version = le_at 4 buf 8, ch_header_flags = le_at 4 buf 12,
               ch_ring_desc = map (\<lambda>k. \<lparr>rd_offset = le_at 4 buf (16 + 8 * k), rd_size = le_at 4 buf (20 + 8 * k)\<rparr>) [0..<4]\<rparr>)"
  by (simp add: ChannelHeader_read_from_def res_simps read_descs_eq)

lemma read_header_written:
  assumes "length (ch_ring_desc h) = 4"
  shows "ChannelHeader_read_from (channel_header_bytes h @ rest) = Ok h"
proof -
  obtain a b c d where ds: "ch_ring_desc h = [a, b, c, d]"
    using assms by (auto simp: length_Suc_conv numeral_eq_Suc)
  show ?thesis
    by (simp add: read_header_eq channel_header_bytes_def ds bufs desc_bytes_def upt_rec
        channel_header.equality)
qed

section \<open>Validation\<close>

text \<open>What a validated descriptor promises, over natural numbers.\<close>

definition ring_placed :: "ring_desc \<Rightarrow> bool" where
  "ring_placed d \<longleftrightarrow> is_power_of_two (rd_size d) \<and> OFF_RING_C_DATA \<le> unat (rd_offset d)
     \<and> unat (rd_offset d) + unat (rd_size d) \<le> CHANNEL_SIZE \<and> unat (rd_offset d) mod 8 = 0"

definition desc_disjoint :: "ring_desc \<Rightarrow> ring_desc \<Rightarrow> bool" where
  "desc_disjoint a b \<longleftrightarrow> unat (rd_offset a) + unat (rd_size a) \<le> unat (rd_offset b)
     \<or> unat (rd_offset b) + unat (rd_size b) \<le> unat (rd_offset a)"

lemma is_power_of_two_pos: "is_power_of_two w \<Longrightarrow> 0 < unat w"
  by (auto simp: is_power_of_two_iff)

lemma desc_validate_eq: "RingDesc_validate d = (if ring_placed d then Ok () else Err BadField)"
proof -
  have "unat (rd_offset d) + unat (rd_size d) < 2 ^ 64"
    using unsigned_less [of "rd_offset d", where ?'a = nat] unsigned_less [of "rd_size d", where ?'a = nat] by simp
  then show ?thesis
    using is_power_of_two_pos [of "rd_size d"]
    by (auto simp: RingDesc_validate_def ring_placed_def Let_def unat_eq_0 [symmetric])
qed

lemma descs_overlap_eq: "descs_overlap a b \<longleftrightarrow> \<not> desc_disjoint a b"
proof -
  have u: "unat (ucast x + ucast y :: u64) = unat x + unat y" "unat (ucast x :: u64) = unat x" for x y :: u32
  proof -
    have b: "unat x < 2 ^ 32" "unat y < 2 ^ 32"
      using unsigned_less [of x, where ?'a = nat] unsigned_less [of y, where ?'a = nat] by simp_all
    then have c: "unat (ucast x :: u64) = unat x" "unat (ucast y :: u64) = unat y"
      by (simp_all add: unsigned_ucast_eq take_bit_nat_eq_self)
    then show "unat (ucast x :: u64) = unat x" by simp
    show "unat (ucast x + ucast y :: u64) = unat x + unat y"
      using b c by (subst unat_add_no_wrap) simp_all
  qed
  show ?thesis
    by (auto simp: descs_overlap_def Let_def word_less_nat_alt u desc_disjoint_def)
qed

lemma index_pairs_set: "(i, j) \<in> set (index_pairs n) \<longleftrightarrow> i < j \<and> j < n"
  by (force simp: index_pairs_def)

lemma validate_pairs_eq:
  "check_all (\<lambda>(i, j). bind_res (index ds i) (\<lambda>a. bind_res (index ds j) (\<lambda>b.
       if descs_overlap a b then Err BadField else Ok ()))) (index_pairs (length ds))
   = (if sorted_wrt desc_disjoint ds then Ok () else Err BadField)"
  (is "check_all ?f ?ps = _")
proof -
  have f: "?f (i, j) = (if desc_disjoint (ds ! i) (ds ! j) then Ok () else Err BadField)"
    if "(i, j) \<in> set ?ps" for i j
    using that by (auto simp: index_pairs_set index_def descs_overlap_eq)
  have ok: "check_all ?f ?ps = Ok () \<longleftrightarrow> sorted_wrt desc_disjoint ds"
  proof -
    have "check_all ?f ?ps = Ok () \<longleftrightarrow> (\<forall>(i, j) \<in> set ?ps. desc_disjoint (ds ! i) (ds ! j))"
      unfolding check_all_Ok using f by (fastforce split: if_splits)
    also have "\<dots> \<longleftrightarrow> sorted_wrt desc_disjoint ds"
      by (fastforce simp: sorted_wrt_iff_nth_less index_pairs_set)
    finally show ?thesis .
  qed
  have "check_all ?f ?ps \<noteq> Panic"
    using f by (intro check_all_not_Panic) (auto split: if_splits prod.splits)
  moreover have "check_all ?f ?ps = Err e \<Longrightarrow> e = BadField" for e
    using f by (auto dest!: check_all_Err split: if_splits)
  ultimately show ?thesis
    using ok by (cases "check_all ?f ?ps") auto
qed

lemma validate_descs_eq:
  "check_all RingDesc_validate ds = (if list_all ring_placed ds then Ok () else Err BadField)"
  by (induction ds) (simp_all add: desc_validate_eq)

lemma header_validate_eq:
  "ChannelHeader_validate h =
     (if ch_magic h \<noteq> CHANNEL_MAGIC then Err BadMagic
      else if ch_proto_version h \<noteq> PROTO_VERSION then Err BadVersion
      else if list_all ring_placed (ch_ring_desc h) \<and> sorted_wrt desc_disjoint (ch_ring_desc h)
      then Ok () else Err BadField)"
  by (simp only: ChannelHeader_validate_def validate_descs_eq validate_pairs_eq) simp

lemma canonical_valid: "ChannelHeader_validate ChannelHeader_canonical = Ok ()"
proof -
  have "list_all ring_placed (ch_ring_desc ChannelHeader_canonical)"
    "sorted_wrt desc_disjoint (ch_ring_desc ChannelHeader_canonical)"
    using pow2_sizes by (simp_all add: ChannelHeader_canonical_def canonical_desc_def ring_placed_def desc_disjoint_def)
  moreover have "ch_magic ChannelHeader_canonical = CHANNEL_MAGIC" "ch_proto_version ChannelHeader_canonical = PROTO_VERSION"
    by (simp_all add: ChannelHeader_canonical_def)
  ultimately show ?thesis
    by (simp only: header_validate_eq) simp
qed

section \<open>Properties\<close>

text \<open>
  Attach validation is exact: a header is accepted precisely when its magic and version match,
  every ring is a power of two of bytes inside the 2 MiB page, behind the header and the manifest and
  8-aligned, and no two ring data areas share a byte; otherwise the first violated rule names the
  error.
\<close>

theorem channel_header_validate_exact:
  "ChannelHeader_validate h =
     (if ch_magic h \<noteq> CHANNEL_MAGIC then Err BadMagic
      else if ch_proto_version h \<noteq> PROTO_VERSION then Err BadVersion
      else if list_all ring_placed (ch_ring_desc h) \<and> sorted_wrt desc_disjoint (ch_ring_desc h)
      then Ok () else Err BadField)"
  by (rule header_validate_eq)

text \<open>
  The header survives the page: written at the start of any page it is read back unchanged,
  only its 48 bytes are touched, and reading is total.
\<close>

theorem channel_header_round_trip:
  assumes "length (ch_ring_desc h) = 4"
  shows "case ChannelHeader_write_to h buf of
      Panic \<Rightarrow> False
    | Err e \<Rightarrow> e = BufferTooSmall \<and> length buf < OFF_RESERVED
    | Ok b \<Rightarrow> length b = length buf \<and> drop OFF_RESERVED b = drop OFF_RESERVED buf
        \<and> ChannelHeader_read_from b = Ok h"
proof (cases "length buf < 48")
  case False
  have len: "length (channel_header_bytes h) = 48"
    using assms by (simp add: channel_header_bytes_def)
  then have "patch buf 0 (channel_header_bytes h) = channel_header_bytes h @ drop 48 buf"
    by (simp add: patch_def)
  with False len assms show ?thesis
    by (simp add: write_header_eq read_header_written)
qed (simp add: ChannelHeader_write_to_def)

theorem channel_header_round_trip_witness:
  "case ChannelHeader_write_to ChannelHeader_canonical (replicate 64 1) of
      Ok b \<Rightarrow> ChannelHeader_read_from b = Ok ChannelHeader_canonical | _ \<Rightarrow> False"
  using channel_header_round_trip [of ChannelHeader_canonical "replicate 64 1"]
  by (auto simp: ChannelHeader_canonical_def split: res.splits)

text \<open>
  The canonical layout is valid and usable: the canonical header passes validation, both halves
  of every canonical ring can be built, and the index cells of the four rings lie on distinct cache
  lines between the drop counters and the manifest.
\<close>

theorem canonical_layout:
  "ChannelHeader_validate ChannelHeader_canonical = Ok ()
   \<and> list_all (\<lambda>r. ring_size_ok (rd_size (canonical_desc r))) RingId_ALL
   \<and> distinct (map prod_offset RingId_ALL @ map cons_offset RingId_ALL)
   \<and> list_all (\<lambda>o'. o' mod 64 = 0 \<and> OFF_RING_W_DROPPED_BY_KIND + DROPPED_BY_KIND_SLOTS * 8 \<le> o'
        \<and> o' + 64 \<le> OFF_MANIFEST) (map prod_offset RingId_ALL @ map cons_offset RingId_ALL)"
proof -
  have "list_all (\<lambda>r. ring_size_ok (rd_size (canonical_desc r))) RingId_ALL"
    using pow2_sizes by (simp add: RingId_ALL_def canonical_desc_def ring_size_ok_def)
  with canonical_valid show ?thesis
    by (simp add: RingId_ALL_def prod_offset_def cons_offset_def)
qed

text \<open>
  Validation is weaker than what the ring halves need: a header with a ring of 8 bytes passes
  it, and building a producer or a consumer over that ring then panics.
\<close>

theorem validated_ring_can_panic:
  "\<exists>h. ChannelHeader_validate h = Ok () \<and> length (ch_ring_desc h) = 4
     \<and> (Producer_from_raw (rd_size (ch_ring_desc h ! 0)) 0 :: (decode_error, producer) res) = Panic
     \<and> (Consumer_from_raw (rd_size (ch_ring_desc h ! 0)) :: (decode_error, consumer) res) = Panic"
proof -
  let ?h = "ChannelHeader_canonical\<lparr>ch_ring_desc := [\<lparr>rd_offset = 0x8000, rd_size = 8\<rparr>,
     canonical_desc RingI, canonical_desc RingA, canonical_desc RingW]\<rparr>"
  have "list_all ring_placed (ch_ring_desc ?h)" "sorted_wrt desc_disjoint (ch_ring_desc ?h)"
    using pow2_sizes by (simp_all add: canonical_desc_def ring_placed_def desc_disjoint_def)
  then have "ChannelHeader_validate ?h = Ok ()"
    by (simp only: header_validate_eq) (simp add: ChannelHeader_canonical_def)
  then show ?thesis
    by (intro exI [of _ ?h]) (simp add: Producer_from_raw_def Consumer_from_raw_def)
qed

end
