(* ===== verification/Wire_Manifest.thy ===== *)
theory Wire_Manifest
  imports Wire_Header
begin

text \<open>
  The region manifest: \<^verbatim>\<open>crates/detguest-wire/src/manifest.rs\<close>. A header with the seqlock generation,
  64 region slots and a pool of 1024 extents, all at fixed offsets of the manifest area. Both slot
  arrays satisfy one interface, the locale \<open>slot_store\<close>: a slot reads back what was written to it
  and is untouched by writes to other slots. The seqlock lemmas give the parity discipline of the
  writer helpers.
\<close>

section \<open>Layout\<close>

definition MANIFEST_MAGIC :: u32 where [simp]: "MANIFEST_MAGIC = 0x46445444"
definition MANIFEST_VERSION :: u16 where [simp]: "MANIFEST_VERSION = 1"
definition REGION_CAPACITY :: nat where [simp]: "REGION_CAPACITY = 64"
definition EXTENT_CAPACITY :: nat where [simp]: "EXTENT_CAPACITY = 1024"
definition MAX_REGION_NAME :: nat where [simp]: "MAX_REGION_NAME = 56"
definition REGION_FLAG_DEAD :: u32 where [simp]: "REGION_FLAG_DEAD = push_bit 31 1"
definition REGION_FLAG_FRAMEBUFFER :: u32 where [simp]: "REGION_FLAG_FRAMEBUFFER = push_bit 0 1"
definition REGION_FLAG_HOT :: u32 where [simp]: "REGION_FLAG_HOT = push_bit 1 1"
definition REGION_FLAG_HOST_WRITABLE :: u32 where [simp]: "REGION_FLAG_HOST_WRITABLE = push_bit 2 1"
definition OFF_GENERATION :: nat where [simp]: "OFF_GENERATION = 0x8"
definition OFF_ENTRIES :: nat where [simp]: "OFF_ENTRIES = 0x20"
definition REGION_ENTRY_SIZE :: nat where [simp]: "REGION_ENTRY_SIZE = 96"
definition OFF_EXTENTS :: nat where [simp]: "OFF_EXTENTS = OFF_ENTRIES + REGION_CAPACITY * REGION_ENTRY_SIZE"
definition EXTENT_SIZE :: nat where [simp]: "EXTENT_SIZE = 16"
definition MANIFEST_TOTAL_SIZE :: nat where
  [simp]: "MANIFEST_TOTAL_SIZE = OFF_EXTENTS + EXTENT_CAPACITY * EXTENT_SIZE"

section \<open>Header\<close>

record manifest_header =
  mh_magic :: u32
  mh_manifest_version :: u16
  mh_region_capacity :: u16
  mh_generation :: u64
  mh_region_count :: u32
  mh_extent_count :: u32

definition ManifestHeader_read_from :: "bytes \<Rightarrow> (decode_error, manifest_header) res" where
  "ManifestHeader_read_from m =
     (if length m < OFF_ENTRIES then Err Truncated
      else bind_res (get_le 4 m 0) (\<lambda>magic.
           bind_res (get_le 2 m 4) (\<lambda>manifest_version.
           bind_res (get_le 2 m 6) (\<lambda>region_capacity.
           bind_res (get_le 8 m 8) (\<lambda>generation.
           bind_res (get_le 4 m 16) (\<lambda>region_count.
           bind_res (get_le 4 m 20) (\<lambda>extent_count.
           Ok \<lparr>mh_magic = magic, mh_manifest_version = manifest_version,
               mh_region_capacity = region_capacity, mh_generation = generation,
               mh_region_count = region_count, mh_extent_count = extent_count\<rparr>)))))))"

definition ManifestHeader_write_to :: "manifest_header \<Rightarrow> bytes \<Rightarrow> (encode_error, bytes) res" where
  "ManifestHeader_write_to self m =
     (if length m < OFF_ENTRIES then Err BufferTooSmall
      else bind_res (put_le 4 m 0 (mh_magic self)) (\<lambda>m.
           bind_res (put_le 2 m 4 (mh_manifest_version self)) (\<lambda>m.
           bind_res (put_le 2 m 6 (mh_region_capacity self)) (\<lambda>m.
           bind_res (put_le 8 m 8 (mh_generation self)) (\<lambda>m.
           bind_res (put_le 4 m 16 (mh_region_count self)) (\<lambda>m.
           bind_res (put_le 4 m 20 (mh_extent_count self)) (\<lambda>m.
           put_slice m 24 32 (replicate 8 0))))))))"

definition ManifestHeader_validate :: "manifest_header \<Rightarrow> (decode_error, unit) res" where
  "ManifestHeader_validate self =
     (if mh_magic self \<noteq> MANIFEST_MAGIC then Err BadMagic
      else if mh_manifest_version self \<noteq> MANIFEST_VERSION then Err BadVersion
      else if unat (mh_region_capacity self) \<noteq> REGION_CAPACITY
           \<or> unat (mh_region_count self) > REGION_CAPACITY
           \<or> unat (mh_extent_count self) > EXTENT_CAPACITY then Err BadField
      else Ok ())"

section \<open>Region entries\<close>

record region_entry =
  ent_region_id :: u32
  ent_name_id :: u32
  ent_layout_version :: u32
  ent_flags :: u32
  ent_gva :: u64
  ent_len :: u64
  ent_extent_off :: u32
  ent_extent_n :: u32
  ent_name :: bytes

definition RegionEntry_offset :: "nat \<Rightarrow> nat" where
  "RegionEntry_offset i = OFF_ENTRIES + i * REGION_ENTRY_SIZE"

definition pack_name :: "bytes \<Rightarrow> (encode_error, bytes) res" where
  "pack_name name =
     (if length name > MAX_REGION_NAME then Err FieldTooLong
      else put_slice (replicate MAX_REGION_NAME 0) 0 (length name) name)"

definition name_bytes :: "region_entry \<Rightarrow> bytes" where
  "name_bytes self = takeWhile (\<lambda>b. b \<noteq> 0) (ent_name self)"

definition is_live :: "region_entry \<Rightarrow> bool" where
  "is_live self \<longleftrightarrow> ent_flags self AND REGION_FLAG_DEAD = 0"

definition RegionEntry_read_from :: "bytes \<Rightarrow> nat \<Rightarrow> (decode_error, region_entry) res" where
  "RegionEntry_read_from m i =
     (if i \<ge> REGION_CAPACITY then Err BadField
      else let pos = RegionEntry_offset i
      in if length m < pos + REGION_ENTRY_SIZE then Err Truncated
         else bind_res (slice m pos (pos + REGION_ENTRY_SIZE)) (\<lambda>e.
              bind_res (slice e 40 96) (\<lambda>name.
              bind_res (get_le 4 e 0) (\<lambda>region_id.
              bind_res (get_le 4 e 4) (\<lambda>name_id.
              bind_res (get_le 4 e 8) (\<lambda>layout_version.
              bind_res (get_le 4 e 12) (\<lambda>flags.
              bind_res (get_le 8 e 16) (\<lambda>gva.
              bind_res (get_le 8 e 24) (\<lambda>len.
              bind_res (get_le 4 e 32) (\<lambda>extent_off.
              bind_res (get_le 4 e 36) (\<lambda>extent_n.
              Ok \<lparr>ent_region_id = region_id, ent_name_id = name_id, ent_layout_version = layout_version,
                  ent_flags = flags, ent_gva = gva, ent_len = len, ent_extent_off = extent_off,
                  ent_extent_n = extent_n, ent_name = name\<rparr>)))))))))))"

definition RegionEntry_write_to :: "region_entry \<Rightarrow> bytes \<Rightarrow> nat \<Rightarrow> (encode_error, bytes) res" where
  "RegionEntry_write_to self m i =
     (if i \<ge> REGION_CAPACITY then Err FieldTooLong
      else let pos = RegionEntry_offset i
      in if length m < pos + REGION_ENTRY_SIZE then Err BufferTooSmall
         else bind_res (slice m pos (pos + REGION_ENTRY_SIZE)) (\<lambda>e.
              bind_res (put_le 4 e 0 (ent_region_id self)) (\<lambda>e.
              bind_res (put_le 4 e 4 (ent_name_id self)) (\<lambda>e.
              bind_res (put_le 4 e 8 (ent_layout_version self)) (\<lambda>e.
              bind_res (put_le 4 e 12 (ent_flags self)) (\<lambda>e.
              bind_res (put_le 8 e 16 (ent_gva self)) (\<lambda>e.
              bind_res (put_le 8 e 24 (ent_len self)) (\<lambda>e.
              bind_res (put_le 4 e 32 (ent_extent_off self)) (\<lambda>e.
              bind_res (put_le 4 e 36 (ent_extent_n self)) (\<lambda>e.
              bind_res (put_slice e 40 96 (ent_name self)) (\<lambda>e.
              put_slice m pos (pos + REGION_ENTRY_SIZE) e)))))))))))"

definition validate_extents :: "region_entry \<Rightarrow> manifest_header \<Rightarrow> (decode_error, unit) res" where
  "validate_extents self hdr =
     (let off = unat (ent_extent_off self); n = unat (ent_extent_n self)
      in if off + n < 2 ^ 64 \<and> off + n \<le> unat (mh_extent_count hdr) then Ok () else Err BadField)"

section \<open>Extents\<close>

record extent =
  ext_gpa :: u64
  ext_len :: u64

definition Extent_offset :: "nat \<Rightarrow> nat" where
  "Extent_offset i = OFF_EXTENTS + i * EXTENT_SIZE"

definition Extent_read_from :: "bytes \<Rightarrow> nat \<Rightarrow> (decode_error, extent) res" where
  "Extent_read_from m i =
     (if i \<ge> EXTENT_CAPACITY then Err BadField
      else let pos = Extent_offset i
      in if length m < pos + EXTENT_SIZE then Err Truncated
         else bind_res (get_le 8 m pos) (\<lambda>gpa.
              bind_res (get_le 8 m (pos + 8)) (\<lambda>len.
              Ok \<lparr>ext_gpa = gpa, ext_len = len\<rparr>)))"

definition Extent_write_to :: "extent \<Rightarrow> bytes \<Rightarrow> nat \<Rightarrow> (encode_error, bytes) res" where
  "Extent_write_to self m i =
     (if i \<ge> EXTENT_CAPACITY then Err FieldTooLong
      else let pos = Extent_offset i
      in if length m < pos + EXTENT_SIZE then Err BufferTooSmall
         else bind_res (put_le 8 m pos (ext_gpa self)) (\<lambda>m.
              put_le 8 m (pos + 8) (ext_len self)))"

section \<open>Initialisation and the seqlock word\<close>

definition init_manifest :: "bytes \<Rightarrow> (encode_error, bytes) res" where
  "init_manifest m =
     ManifestHeader_write_to
       \<lparr>mh_magic = MANIFEST_MAGIC, mh_manifest_version = MANIFEST_VERSION,
        mh_region_capacity = of_nat REGION_CAPACITY, mh_generation = 0, mh_region_count = 0,
        mh_extent_count = 0\<rparr> m"

definition read_generation :: "bytes \<Rightarrow> (decode_error, u64) res" where
  "read_generation m =
     (if length m < OFF_GENERATION + 8 then Err Truncated else get_le 8 m OFF_GENERATION)"

definition writer_begin :: "bytes \<Rightarrow> (encode_error, bytes \<times> u64) res" where
  "writer_begin m =
     bind_res (map_err (\<lambda>_. BufferTooSmall) (read_generation m)) (\<lambda>g.
     if g mod 2 \<noteq> 0 then Err SeqlockMisuse
     else bind_res (put_le 8 m OFF_GENERATION (g + 1)) (\<lambda>m. Ok (m, g + 1)))"

definition writer_end :: "bytes \<Rightarrow> (encode_error, bytes \<times> u64) res" where
  "writer_end m =
     bind_res (map_err (\<lambda>_. BufferTooSmall) (read_generation m)) (\<lambda>g.
     if g mod 2 \<noteq> 1 then Err SeqlockMisuse
     else bind_res (put_le 8 m OFF_GENERATION (g + 1)) (\<lambda>m. Ok (m, g + 1)))"

section \<open>Slot arrays\<close>

text \<open>
  An array of fixed-stride slots inside a buffer. \<open>get\<close> and \<open>put\<close> are the code's accessors;
  \<open>image\<close> and \<open>parse\<close> say what a slot's bytes mean.
\<close>

locale slot_store =
  fixes get :: "bytes \<Rightarrow> nat \<Rightarrow> (decode_error, 'x) res"
    and put :: "'x \<Rightarrow> bytes \<Rightarrow> nat \<Rightarrow> (encode_error, bytes) res"
    and wf :: "'x \<Rightarrow> bool"
    and cap base stride :: nat
    and image :: "'x \<Rightarrow> bytes"
    and parse :: "bytes \<Rightarrow> 'x"
  assumes length_image: "wf x \<Longrightarrow> length (image x) = stride"
    and parse_image: "wf x \<Longrightarrow> parse (image x) = x"
    and get_eq: "get m i =
      (if cap \<le> i then Err BadField
       else if length m < base + i * stride + stride then Err Truncated
       else Ok (parse (take stride (drop (base + i * stride) m))))"
    and put_eq: "wf x \<Longrightarrow> put x m i =
      (if cap \<le> i then Err FieldTooLong
       else if length m < base + i * stride + stride then Err BufferTooSmall
       else Ok (patch m (base + i * stride) (image x)))"
begin

text \<open>Writes all of \<open>xs\<close> into the slots from \<open>i\<close> on.\<close>

primrec put_all :: "'x list \<Rightarrow> bytes \<Rightarrow> nat \<Rightarrow> (encode_error, bytes) res" where
  "put_all [] m i = Ok m"
| "put_all (x # xs) m i = bind_res (put x m i) (\<lambda>m. put_all xs m (i + 1))"

lemma slot_total: "wf x \<Longrightarrow> put x m i \<noteq> Panic" "get m i \<noteq> Panic"
  by (simp_all add: get_eq put_eq)

lemma put_OkD:
  assumes "wf x" and "put x m i = Ok m'"
  shows "i < cap" and "base + i * stride + stride \<le> length m"
    and "m' = patch m (base + i * stride) (image x)" and "length m' = length m"
  using assms length_image [OF assms(1)] by (auto simp: put_eq split: if_splits)

lemma get_put_same: "wf x \<Longrightarrow> put x m i = Ok m' \<Longrightarrow> get m' i = Ok x"
  using put_OkD [of x m i m'] by (simp add: get_eq bufs length_image parse_image)

lemma get_put_other:
  assumes "wf x" and "put x m i = Ok m'" and "i \<noteq> j"
  shows "get m' j = get m j"
proof (cases "base + j * stride + stride \<le> length m")
  case True
  have "j * stride + stride \<le> i * stride \<or> i * stride + stride \<le> j * stride"
    using assms(3) by (metis Suc_leI add.commute linorder_neqE_nat mult_Suc mult_le_mono1)
  then have "take stride (drop (base + j * stride) m') = take stride (drop (base + j * stride) m)"
    using put_OkD [OF assms(1,2)] length_image [OF assms(1)] by (auto simp: bufs)
  with True show ?thesis using put_OkD [OF assms(1,2)] by (simp add: get_eq)
next
  case False
  then show ?thesis using put_OkD(4) [OF assms(1,2)] by (simp add: get_eq)
qed

text \<open>Bytes in front of the array and behind its last slot are never touched.\<close>

lemma put_frame_before: "wf x \<Longrightarrow> put x m i = Ok m' \<Longrightarrow> take base m' = take base m"
  using put_OkD [of x m i m'] by (simp add: take_patch_before length_image)

lemma put_frame_after:
  assumes "wf x" and "put x m i = Ok m'"
  shows "drop (base + cap * stride) m' = drop (base + cap * stride) m"
proof -
  have "i * stride + stride \<le> cap * stride"
    using put_OkD(1) [OF assms] by (metis Suc_leI add.commute mult_Suc mult_le_mono1)
  then show ?thesis
    using put_OkD [OF assms] length_image [OF assms(1)]
    by (simp add: patch_def add.commute)
qed

lemma put_all_get:
  assumes "list_all wf xs" and "put_all xs m i = Ok m'"
  shows "length m' = length m
     \<and> (\<forall>j. get m' j = (if i \<le> j \<and> j < i + length xs then Ok (xs ! (j - i)) else get m j))
     \<and> take base m' = take base m \<and> drop (base + cap * stride) m' = drop (base + cap * stride) m"
  using assms
proof (induction xs arbitrary: m i)
  case (Cons x xs)
  then have x: "wf x" by simp
  from Cons.prems obtain m1 where m1: "put x m i = Ok m1" "put_all xs m1 (i + 1) = Ok m'"
    by (auto simp: bind_res_eq_Ok)
  note IH = Cons.IH [OF _ m1(2)]
  have "get m1 j = (if j = i then Ok x else get m j)" for j
    using get_put_same [OF x m1(1)] get_put_other [OF x m1(1), of j] by auto
  then show ?case
    using IH Cons.prems(1) put_OkD(4) [OF x m1(1)] put_frame_before [OF x m1(1)] put_frame_after [OF x m1(1)]
    by (auto simp: nth_Cons')
qed auto

lemma put_all_Ok:
  "list_all wf xs \<Longrightarrow> i + length xs \<le> cap \<Longrightarrow> base + cap * stride \<le> length m \<Longrightarrow> \<exists>m'. put_all xs m i = Ok m'"
proof (induction xs arbitrary: m i)
  case (Cons x xs)
  then have "Suc i * stride \<le> cap * stride" by (intro mult_le_mono1) simp
  then have p: "put x m i = Ok (patch m (base + i * stride) (image x))"
    using Cons.prems by (simp add: put_eq)
  with Cons \<open>Suc i * stride \<le> cap * stride\<close> show ?case
    by (simp add: length_image)
qed simp

end

section \<open>The two slot arrays\<close>

definition entry_image :: "region_entry \<Rightarrow> bytes" where
  "entry_image e = to_le_bytes 4 (ent_region_id e) @ to_le_bytes 4 (ent_name_id e)
     @ to_le_bytes 4 (ent_layout_version e) @ to_le_bytes 4 (ent_flags e) @ to_le_bytes 8 (ent_gva e)
     @ to_le_bytes 8 (ent_len e) @ to_le_bytes 4 (ent_extent_off e) @ to_le_bytes 4 (ent_extent_n e) @ ent_name e"

definition entry_parse :: "bytes \<Rightarrow> region_entry" where
  "entry_parse e =
     \<lparr>ent_region_id = le_at 4 e 0, ent_name_id = le_at 4 e 4, ent_layout_version = le_at 4 e 8,
      ent_flags = le_at 4 e 12, ent_gva = le_at 8 e 16, ent_len = le_at 8 e 24,
      ent_extent_off = le_at 4 e 32, ent_extent_n = le_at 4 e 36, ent_name = take 56 (drop 40 e)\<rparr>"

definition entry_wf :: "region_entry \<Rightarrow> bool" where
  "entry_wf e \<longleftrightarrow> length (ent_name e) = MAX_REGION_NAME"

lemma entry_write_eq:
  assumes "entry_wf e"
  shows "RegionEntry_write_to e m i =
     (if 64 \<le> i then Err FieldTooLong
      else if length m < 32 + i * 96 + 96 then Err BufferTooSmall
      else Ok (patch m (32 + i * 96) (entry_image e)))"
proof (cases "64 \<le> i \<or> length m < 32 + i * 96 + 96")
  case True
  then show ?thesis by (auto simp: RegionEntry_write_to_def RegionEntry_offset_def Let_def)
next
  case False
  define w where "w = take 96 (drop (32 + i * 96) m)"
  have w: "length w = 96" "slice m (32 + i * 96) (128 + i * 96) = Ok w"
    using False by (auto simp: w_def slice_def min_def)
  have "patch w 0 (entry_image e) = entry_image e" "length (entry_image e) = 96"
    using assms w by (auto intro!: patch_whole simp: entry_image_def entry_wf_def)
  then show ?thesis
    using False assms w
    by (simp add: RegionEntry_write_to_def RegionEntry_offset_def Let_def res_simps stores entry_wf_def
        entry_image_def)
qed

lemma entry_read_eq:
  "RegionEntry_read_from m i =
     (if 64 \<le> i then Err BadField
      else if length m < 32 + i * 96 + 96 then Err Truncated
      else Ok (entry_parse (take 96 (drop (32 + i * 96) m))))"
proof (cases "64 \<le> i \<or> length m < 32 + i * 96 + 96")
  case True
  then show ?thesis by (auto simp: RegionEntry_read_from_def RegionEntry_offset_def Let_def)
next
  case False
  define w where "w = take 96 (drop (32 + i * 96) m)"
  have "length w = 96" "slice m (32 + i * 96) (128 + i * 96) = Ok w"
    using False by (auto simp: w_def slice_def min_def)
  with False show ?thesis
    by (simp add: RegionEntry_read_from_def RegionEntry_offset_def Let_def res_simps entry_parse_def
        flip: w_def)
qed

lemma entry_parse_image: "entry_wf e \<Longrightarrow> entry_parse (entry_image e) = e"
  by (simp add: entry_parse_def entry_image_def entry_wf_def bufs)

interpretation entries: slot_store RegionEntry_read_from RegionEntry_write_to entry_wf 64 32 96
  entry_image entry_parse
  by unfold_locales
     (simp_all add: entry_write_eq entry_read_eq entry_parse_image, simp add: entry_image_def entry_wf_def)

definition extent_image :: "extent \<Rightarrow> bytes" where
  "extent_image e = to_le_bytes 8 (ext_gpa e) @ to_le_bytes 8 (ext_len e)"

definition extent_parse :: "bytes \<Rightarrow> extent" where
  "extent_parse b = \<lparr>ext_gpa = le_at 8 b 0, ext_len = le_at 8 b 8\<rparr>"

interpretation extents: slot_store Extent_read_from Extent_write_to "\<lambda>_. True" 1024 6176 16
  extent_image extent_parse
  by unfold_locales
     (simp_all add: Extent_read_from_def Extent_write_to_def Extent_offset_def Let_def res_simps stores
       extent_image_def extent_parse_def bufs)

section \<open>Header and seqlock lemmas\<close>

definition manifest_header_bytes :: "manifest_header \<Rightarrow> bytes" where
  "manifest_header_bytes h = to_le_bytes 4 (mh_magic h) @ to_le_bytes 2 (mh_manifest_version h)
     @ to_le_bytes 2 (mh_region_capacity h) @ to_le_bytes 8 (mh_generation h)
     @ to_le_bytes 4 (mh_region_count h) @ to_le_bytes 4 (mh_extent_count h) @ replicate 8 0"

lemma manifest_write_eq:
  "ManifestHeader_write_to h m =
     (if length m < 32 then Err BufferTooSmall else Ok (patch m 0 (manifest_header_bytes h)))"
  by (simp add: ManifestHeader_write_to_def res_simps stores manifest_header_bytes_def)

lemma manifest_read_eq:
  "ManifestHeader_read_from m =
     (if length m < 32 then Err Truncated
      else Ok \<lparr>mh_magic = le_at 4 m 0, mh_manifest_version = le_at 2 m 4, mh_region_capacity = le_at 2 m 6,
               mh_generation = le_at 8 m 8, mh_region_count = le_at 4 m 16, mh_extent_count = le_at 4 m 20\<rparr>)"
  by (simp add: ManifestHeader_read_from_def res_simps)

lemma manifest_read_written:
  "32 \<le> length m \<Longrightarrow> ManifestHeader_read_from (patch m 0 (manifest_header_bytes h)) = Ok h"
  by (simp add: manifest_read_eq manifest_header_bytes_def bufs)

lemma read_generation_eq:
  "read_generation m = (if length m < 16 then Err Truncated else Ok (le_at 8 m 8))"
  by (simp add: read_generation_def res_simps)

lemma writer_begin_eq:
  "writer_begin m =
     (if length m < 16 then Err BufferTooSmall
      else if odd (unat (le_at 8 m 8 :: u64)) then Err SeqlockMisuse
      else Ok (patch m 8 (to_le_bytes 8 (le_at 8 m 8 + 1 :: u64)), le_at 8 m 8 + 1))"
proof -
  have "(g :: u64) mod 2 \<noteq> 0 \<longleftrightarrow> odd (unat g)" for g
    by (simp add: word_unat_eq_iff unat_mod odd_iff_mod_2_eq_one)
  then show ?thesis by (simp add: writer_begin_def read_generation_eq res_simps)
qed

lemma writer_end_eq:
  "writer_end m =
     (if length m < 16 then Err BufferTooSmall
      else if even (unat (le_at 8 m 8 :: u64)) then Err SeqlockMisuse
      else Ok (patch m 8 (to_le_bytes 8 (le_at 8 m 8 + 1 :: u64)), le_at 8 m 8 + 1))"
proof -
  have "(g :: u64) mod 2 \<noteq> 1 \<longleftrightarrow> even (unat g)" for g
    by (simp add: word_unat_eq_iff unat_mod even_iff_mod_2_eq_zero)
  then show ?thesis by (simp add: writer_end_def read_generation_eq res_simps)
qed

lemma odd_plus_1: "odd (unat (g + 1 :: u64)) \<longleftrightarrow> even (unat g)"
proof -
  have "unat (g + 1) = take_bit 64 (Suc (unat g))"
    by (simp add: unat_word_ariths take_bit_eq_mod)
  then show ?thesis by (simp add: even_take_bit_eq)
qed

section \<open>Properties\<close>

text \<open>
  The manifest area is a faithful store. Writing the entries of any live slots and any extents,
  then reading any slot of either array, gives what was written last to that slot; neither array
  reaches the header with the seqlock word, and the entry array does not reach the extent pool.
\<close>

theorem manifest_slots_store:
  assumes "entry_wf e" and "RegionEntry_write_to e m i = Ok m1" and "Extent_write_to x m1 k = Ok m2"
  shows "RegionEntry_read_from m2 i = Ok e \<and> Extent_read_from m2 k = Ok x
     \<and> (\<forall>j \<in> - {i}. RegionEntry_read_from m2 j = RegionEntry_read_from m j)
     \<and> (\<forall>j \<in> - {k}. Extent_read_from m2 j = Extent_read_from m j)
     \<and> ManifestHeader_read_from m2 = ManifestHeader_read_from m
     \<and> read_generation m2 = read_generation m"
proof -
  note e = entries.put_OkD [OF assms(1,2)] and x = extents.put_OkD [OF TrueI assms(3)]
  have pool: "drop 6176 m1 = drop 6176 m"
    using entries.put_frame_after [OF assms(1,2)] by simp
  have front: "take 6176 m2 = take 6176 m1" "take 32 m1 = take 32 m"
    using extents.put_frame_before [OF TrueI assms(3)] entries.put_frame_before [OF assms(1,2)] by simp_all
  have same_entry: "RegionEntry_read_from m2 j = RegionEntry_read_from m1 j" for j
  proof -
    have "take 96 (drop (32 + j * 96) m2) = take 96 (drop (32 + j * 96) m1)" if "j < 64"
    proof -
      have "min 96 (6176 - (32 + j * 96)) = 96" using that by simp
      then show ?thesis
        using arg_cong [OF front(1), of "\<lambda>b. take 96 (drop (32 + j * 96) b)"]
        by (simp only: drop_take take_take)
    qed
    then show ?thesis using x(4) by (simp add: entries.get_eq)
  qed
  have same_ext: "Extent_read_from m1 j = Extent_read_from m j" for j
  proof -
    have "take 16 (drop (6176 + j * 16) m1) = take 16 (drop (6176 + j * 16) m)"
      using arg_cong [OF pool, of "\<lambda>b. take 16 (drop (j * 16) b)"] by (simp add: add.commute)
    then show ?thesis using e(4) by (simp add: extents.get_eq)
  qed
  have head: "take 32 m2 = take 32 m" "length m2 = length m"
    using arg_cong [OF front(1), of "take 32"] front(2) e(4) x(4) by simp_all
  note le = le_at_take_cong [OF head(1)]
  show ?thesis
    using entries.get_put_same [OF assms(1,2)] entries.get_put_other [OF assms(1,2)]
      extents.get_put_same [OF TrueI assms(3)] extents.get_put_other [OF TrueI assms(3)]
      same_entry same_ext head(2)
    by (auto simp: manifest_read_eq read_generation_eq le)
qed

theorem manifest_slots_store_witness:
  "\<exists>m1 m2. RegionEntry_write_to (entry_parse (replicate 96 7)) (replicate 22560 0) 63 = Ok m1
     \<and> Extent_write_to \<lparr>ext_gpa = 4096, ext_len = 8\<rparr> m1 1023 = Ok m2
     \<and> RegionEntry_read_from m2 63 = Ok (entry_parse (replicate 96 7))
     \<and> Extent_read_from m2 1023 = Ok \<lparr>ext_gpa = 4096, ext_len = 8\<rparr>"
proof -
  have wf: "entry_wf (entry_parse (replicate 96 7))"
    by (simp add: entry_wf_def entry_parse_def)
  obtain m1 where m1: "RegionEntry_write_to (entry_parse (replicate 96 7)) (replicate 22560 0) 63 = Ok m1"
    using wf by (simp add: entries.put_eq)
  then have "length m1 = 22560" using entries.put_OkD(4) [OF wf] by simp
  then obtain m2 where "Extent_write_to \<lparr>ext_gpa = 4096, ext_len = 8\<rparr> m1 1023 = Ok m2"
    by (simp add: extents.put_eq)
  with m1 manifest_slots_store [OF wf m1] show ?thesis by blast
qed

text \<open>
  The seqlock discipline: opening a write succeeds exactly on an even generation and leaves it
  odd, closing exactly on an odd one and leaves it even, each advances the word by one and changes
  nothing else; an open write cannot be nested and a close needs an open write.
\<close>

theorem seqlock_discipline:
  assumes "16 \<le> length m"
  shows "case writer_begin m of
      Panic \<Rightarrow> False
    | Err e \<Rightarrow> e = SeqlockMisuse \<and> odd (unat (le_at 8 m 8 :: u64))
        \<and> (\<exists>m'. writer_end m = Ok (m', le_at 8 m 8 + 1))
    | Ok (m1, g) \<Rightarrow> even (unat (le_at 8 m 8 :: u64)) \<and> g = le_at 8 m 8 + 1 \<and> odd (unat g)
        \<and> read_generation m1 = Ok g \<and> writer_begin m1 = Err SeqlockMisuse \<and> writer_end m = Err SeqlockMisuse
        \<and> (\<exists>m2. writer_end m1 = Ok (m2, g + 1) \<and> even (unat (g + 1)) \<and> read_generation m2 = Ok (g + 1)
            \<and> take 8 m2 = take 8 m \<and> drop 16 m2 = drop 16 m)"
proof (cases "odd (unat (le_at 8 m 8 :: u64))")
  case True
  then show ?thesis using assms by (simp add: writer_begin_eq writer_end_eq)
next
  case False
  let ?g = "le_at 8 m 8 + 1 :: u64"
  let ?m1 = "patch m 8 (to_le_bytes 8 ?g)"
  have gen: "le_at 8 ?m1 8 = ?g" "length ?m1 = length m"
    using assms by (simp_all add: bufs)
  have odd: "odd (unat ?g)" using False unfolding odd_plus_1 by simp
  then have even: "even (unat (?g + 1))" unfolding odd_plus_1 [of ?g, symmetric] using odd_plus_1 [of ?g] by blast
  have frame: "take 8 (patch ?m1 8 (to_le_bytes 8 h)) = take 8 m" "drop 16 (patch ?m1 8 (to_le_bytes 8 h)) = drop 16 m"
    for h :: u64
    using assms by (simp_all add: patch_def)
  show ?thesis
    using False assms gen odd even frame
    by (simp add: writer_begin_eq writer_end_eq read_generation_eq bufs)
qed

theorem seqlock_discipline_witness:
  "case writer_begin (replicate 32 0) of
     Ok (m1, g) \<Rightarrow> g = 1 \<and> writer_begin m1 = Err SeqlockMisuse \<and> (\<exists>m2. writer_end m1 = Ok (m2, 2))
   | _ \<Rightarrow> False"
proof -
  have "le_at 8 (replicate 32 0) 8 = (0 :: u64)" by (simp add: le_at_def numeral_eq_Suc)
  then show ?thesis
    using seqlock_discipline [of "replicate 32 0"] by (auto split: res.splits prod.splits)
qed

text \<open>
  Manifest headers survive the area, initialisation gives a valid empty manifest with an even
  generation, and validation accepts exactly the layout version and counts within the capacities.
\<close>

theorem manifest_header_store:
  "(case ManifestHeader_write_to h m of
      Panic \<Rightarrow> False
    | Err e \<Rightarrow> e = BufferTooSmall \<and> length m < OFF_ENTRIES
    | Ok m' \<Rightarrow> length m' = length m \<and> drop OFF_ENTRIES m' = drop OFF_ENTRIES m
        \<and> ManifestHeader_read_from m' = Ok h)
   \<and> (case init_manifest m of
        Ok m' \<Rightarrow> (case ManifestHeader_read_from m' of
            Ok h0 \<Rightarrow> ManifestHeader_validate h0 = Ok () \<and> mh_region_count h0 = 0
              \<and> read_generation m' = Ok 0
          | _ \<Rightarrow> False)
      | _ \<Rightarrow> length m < OFF_ENTRIES)
   \<and> (ManifestHeader_validate h = Ok ()) =
       (mh_magic h = MANIFEST_MAGIC \<and> mh_manifest_version h = MANIFEST_VERSION
        \<and> unat (mh_region_capacity h) = REGION_CAPACITY \<and> unat (mh_region_count h) \<le> REGION_CAPACITY
        \<and> unat (mh_extent_count h) \<le> EXTENT_CAPACITY)"
proof -
  have len: "length (manifest_header_bytes h) = 32" for h by (simp add: manifest_header_bytes_def)
  have gen: "32 \<le> length m \<Longrightarrow> le_at 8 (patch m 0 (manifest_header_bytes h)) 8 = mh_generation h" for h
    by (simp add: manifest_header_bytes_def bufs)
  show ?thesis
    by (auto simp: manifest_write_eq manifest_read_written len drop_patch_0 init_manifest_def
        ManifestHeader_validate_def read_generation_eq gen)
qed

text \<open>Region names of at most 56 bytes without NUL are recovered from their packed field.\<close>

theorem region_name_round_trip:
  assumes "length name \<le> MAX_REGION_NAME" and "0 \<notin> set name"
  shows "\<exists>packed. pack_name name = Ok packed \<and> length packed = MAX_REGION_NAME
     \<and> name_bytes (e\<lparr>ent_name := packed\<rparr>) = name"
proof -
  have "takeWhile (\<lambda>b. b \<noteq> 0) (name @ replicate n 0) = name" for n
    using assms(2) by (cases n) (auto simp: takeWhile_append)
  moreover have "pack_name name = Ok (name @ replicate (56 - length name) 0)"
    using assms(1) by (simp add: pack_name_def res_simps patch_def)
  ultimately show ?thesis
    using assms(1) by (simp add: name_bytes_def)
qed

theorem region_name_round_trip_witness:
  "\<exists>packed. pack_name [119, 114, 97, 109] = Ok packed
     \<and> name_bytes ((entry_parse [])\<lparr>ent_name := packed\<rparr>) = [119, 114, 97, 109]"
  using region_name_round_trip [of "[119, 114, 97, 109]" "entry_parse []"] by auto

end
