(* ===== verification/Wire_Regionipc.thy ===== *)
theory Wire_Regionipc
  imports Wire_Manifest
begin

text \<open>
  The region-registration datagrams between SDK and agent:
  \<^verbatim>\<open>crates/detguest-wire/src/regionipc.rs\<close>. Requests and replies are exact-length messages: decoding
  refuses trailing bytes, so encoder and decoder determine each other on well-formed messages.
\<close>

section \<open>Constants\<close>

definition REGIONIPC_MAGIC :: u32 where [simp]: "REGIONIPC_MAGIC = 0x52524744"
definition REGIONIPC_VERSION :: u16 where [simp]: "REGIONIPC_VERSION = 1"
definition REGIONIPC_MAX_DATAGRAM :: nat where [simp]: "REGIONIPC_MAX_DATAGRAM = 128"
definition KIND_REGISTER :: u16 where [simp]: "KIND_REGISTER = 1"
definition KIND_UNREGISTER :: u16 where [simp]: "KIND_UNREGISTER = 2"
definition KIND_REPLY :: u16 where [simp]: "KIND_REPLY = 3"
definition STATUS_OK :: u16 where [simp]: "STATUS_OK = 0"
definition STATUS_MANIFEST_FULL :: u16 where [simp]: "STATUS_MANIFEST_FULL = 1"
definition STATUS_TOO_MANY_EXTENTS :: u16 where [simp]: "STATUS_TOO_MANY_EXTENTS = 2"
definition STATUS_NOT_PINNED :: u16 where [simp]: "STATUS_NOT_PINNED = 3"
definition STATUS_NAME_TOO_LONG :: u16 where [simp]: "STATUS_NAME_TOO_LONG = 4"
definition STATUS_BAD_REQUEST :: u16 where [simp]: "STATUS_BAD_REQUEST = 5"
definition STATUS_UNKNOWN_PID :: u16 where [simp]: "STATUS_UNKNOWN_PID = 6"
definition STATUS_UNKNOWN_REGION :: u16 where [simp]: "STATUS_UNKNOWN_REGION = 7"
definition STATUS_INTERNAL :: u16 where [simp]: "STATUS_INTERNAL = 8"
definition FLAG_DEAD :: u32 where [simp]: "FLAG_DEAD = push_bit 31 1"
definition HEADER_LEN :: nat where [simp]: "HEADER_LEN = 8"
definition REG_OFF_FLAGS :: nat where [simp]: "REG_OFF_FLAGS = 8"
definition REG_OFF_LAYOUT :: nat where [simp]: "REG_OFF_LAYOUT = 12"
definition REG_OFF_NAME_ID :: nat where [simp]: "REG_OFF_NAME_ID = 16"
definition REG_OFF_GVA :: nat where [simp]: "REG_OFF_GVA = 20"
definition REG_OFF_LEN :: nat where [simp]: "REG_OFF_LEN = 28"
definition REG_OFF_NAME_LEN :: nat where [simp]: "REG_OFF_NAME_LEN = 36"
definition REG_OFF_NAME :: nat where [simp]: "REG_OFF_NAME = 38"
definition UNREG_OFF_REGION_ID :: nat where [simp]: "UNREG_OFF_REGION_ID = 8"
definition UNREG_LEN :: nat where [simp]: "UNREG_LEN = 12"
definition REPLY_OFF_STATUS :: nat where [simp]: "REPLY_OFF_STATUS = 8"
definition REPLY_OFF_RESERVED :: nat where [simp]: "REPLY_OFF_RESERVED = 10"
definition REPLY_OFF_REGION_ID :: nat where [simp]: "REPLY_OFF_REGION_ID = 12"
definition REPLY_OFF_NAME_ID :: nat where [simp]: "REPLY_OFF_NAME_ID = 16"
definition REPLY_OFF_GENERATION :: nat where [simp]: "REPLY_OFF_GENERATION = 20"
definition REPLY_LEN :: nat where [simp]: "REPLY_LEN = 28"
definition MAX_NAME_LEN :: nat where [simp]: "MAX_NAME_LEN = MAX_REGION_NAME"

section \<open>Messages\<close>

datatype request = Register u32 u32 u32 u64 u64 bytes | Unregister u32

record reply =
  rep_status :: u16
  rep_region_id :: u32
  rep_name_id :: u32
  rep_manifest_generation :: u64

definition write_header :: "bytes \<Rightarrow> u16 \<Rightarrow> (encode_error, bytes) res" where
  "write_header out kind =
     bind_res (put_le 4 out 0 REGIONIPC_MAGIC) (\<lambda>out.
     bind_res (put_le 2 out 4 REGIONIPC_VERSION) (\<lambda>out.
     put_le 2 out 6 kind))"

definition check_header :: "bytes \<Rightarrow> (decode_error, u16) res" where
  "check_header bytes =
     (if length bytes < HEADER_LEN then Err Truncated
      else bind_res (get_le 4 bytes 0) (\<lambda>magic.
           if magic \<noteq> REGIONIPC_MAGIC then Err BadMagic
           else bind_res (get_le 2 bytes 4) (\<lambda>version.
                if version \<noteq> REGIONIPC_VERSION then Err BadVersion
                else get_le 2 bytes 6)))"

definition encode_request :: "request \<Rightarrow> bytes \<Rightarrow> (encode_error, bytes \<times> nat) res" where
  "encode_request req out =
     (case req of
        Register flags layout_version name_id gva len name \<Rightarrow>
          if name = [] \<or> length name > MAX_NAME_LEN then Err FieldTooLong
          else let n = REG_OFF_NAME + length name
          in if length out < n then Err BufferTooSmall
             else bind_res (write_header out KIND_REGISTER) (\<lambda>out.
                  bind_res (put_le 4 out REG_OFF_FLAGS flags) (\<lambda>out.
                  bind_res (put_le 4 out REG_OFF_LAYOUT layout_version) (\<lambda>out.
                  bind_res (put_le 4 out REG_OFF_NAME_ID name_id) (\<lambda>out.
                  bind_res (put_le 8 out REG_OFF_GVA gva) (\<lambda>out.
                  bind_res (put_le 8 out REG_OFF_LEN len) (\<lambda>out.
                  bind_res (put_le 2 out REG_OFF_NAME_LEN (of_nat (length name) :: u16)) (\<lambda>out.
                  bind_res (put_slice out REG_OFF_NAME n name) (\<lambda>out.
                  Ok (out, n)))))))))
      | Unregister region_id \<Rightarrow>
          if length out < UNREG_LEN then Err BufferTooSmall
          else bind_res (write_header out KIND_UNREGISTER) (\<lambda>out.
               bind_res (put_le 4 out UNREG_OFF_REGION_ID region_id) (\<lambda>out.
               Ok (out, UNREG_LEN))))"

definition decode_request :: "bytes \<Rightarrow> (decode_error, request) res" where
  "decode_request bytes =
     bind_res (check_header bytes) (\<lambda>kind.
     if kind = KIND_REGISTER then
       if length bytes < REG_OFF_NAME then Err Truncated
       else bind_res (get_le 4 bytes REG_OFF_FLAGS) (\<lambda>flags.
            bind_res (get_le 4 bytes REG_OFF_LAYOUT) (\<lambda>layout_version.
            bind_res (get_le 4 bytes REG_OFF_NAME_ID) (\<lambda>name_id.
            bind_res (get_le 8 bytes REG_OFF_GVA) (\<lambda>gva.
            bind_res (get_le 8 bytes REG_OFF_LEN) (\<lambda>len.
            bind_res (get_le 2 bytes REG_OFF_NAME_LEN) (\<lambda>nl :: u16.
            let name_len = unat nl
            in if name_len = 0 \<or> name_len > MAX_NAME_LEN then Err BadField
               else if length bytes < REG_OFF_NAME + name_len then Err Truncated
               else if length bytes \<noteq> REG_OFF_NAME + name_len then Err BadLen
               else if flags AND FLAG_DEAD \<noteq> 0 \<or> name_id = 0 \<or> len = 0 then Err BadField
               else bind_res (slice bytes REG_OFF_NAME (REG_OFF_NAME + name_len)) (\<lambda>name.
                    Ok (Register flags layout_version name_id gva len name))))))))
     else if kind = KIND_UNREGISTER then
       if length bytes < UNREG_LEN then Err Truncated
       else if length bytes \<noteq> UNREG_LEN then Err BadLen
       else bind_res (get_le 4 bytes UNREG_OFF_REGION_ID) (\<lambda>region_id. Ok (Unregister region_id))
     else Err BadField)"

definition encode_reply :: "reply \<Rightarrow> bytes \<Rightarrow> (encode_error, bytes \<times> nat) res" where
  "encode_reply reply out =
     (if length out < REPLY_LEN then Err BufferTooSmall
      else bind_res (write_header out KIND_REPLY) (\<lambda>out.
           bind_res (put_le 2 out REPLY_OFF_STATUS (rep_status reply)) (\<lambda>out.
           bind_res (put_le 2 out REPLY_OFF_RESERVED (0 :: u16)) (\<lambda>out.
           bind_res (put_le 4 out REPLY_OFF_REGION_ID (rep_region_id reply)) (\<lambda>out.
           bind_res (put_le 4 out REPLY_OFF_NAME_ID (rep_name_id reply)) (\<lambda>out.
           bind_res (put_le 8 out REPLY_OFF_GENERATION (rep_manifest_generation reply)) (\<lambda>out.
           Ok (out, REPLY_LEN))))))))"

definition decode_reply :: "bytes \<Rightarrow> (decode_error, reply) res" where
  "decode_reply bytes =
     bind_res (check_header bytes) (\<lambda>kind.
     if kind \<noteq> KIND_REPLY then Err BadField
     else if length bytes < REPLY_LEN then Err Truncated
     else if length bytes \<noteq> REPLY_LEN then Err BadLen
     else bind_res (get_le 2 bytes REPLY_OFF_STATUS) (\<lambda>status.
          bind_res (get_le 4 bytes REPLY_OFF_REGION_ID) (\<lambda>region_id.
          bind_res (get_le 4 bytes REPLY_OFF_NAME_ID) (\<lambda>name_id.
          bind_res (get_le 8 bytes REPLY_OFF_GENERATION) (\<lambda>manifest_generation.
          Ok \<lparr>rep_status = status, rep_region_id = region_id, rep_name_id = name_id,
              rep_manifest_generation = manifest_generation\<rparr>)))))"

section \<open>Images\<close>

definition ipc_header :: "u16 \<Rightarrow> bytes" where
  "ipc_header kind = to_le_bytes 4 REGIONIPC_MAGIC @ to_le_bytes 2 REGIONIPC_VERSION @ to_le_bytes 2 kind"

fun request_image :: "request \<Rightarrow> bytes" where
  "request_image (Register flags layout name_id gva len name) =
     ipc_header KIND_REGISTER @ to_le_bytes 4 flags @ to_le_bytes 4 layout @ to_le_bytes 4 name_id
     @ to_le_bytes 8 gva @ to_le_bytes 8 len @ to_le_bytes 2 (of_nat (length name) :: u16) @ name"
| "request_image (Unregister region_id) = ipc_header KIND_UNREGISTER @ to_le_bytes 4 region_id"

definition reply_image :: "reply \<Rightarrow> bytes" where
  "reply_image r = ipc_header KIND_REPLY @ to_le_bytes 2 (rep_status r) @ to_le_bytes 2 (0 :: u16)
     @ to_le_bytes 4 (rep_region_id r) @ to_le_bytes 4 (rep_name_id r) @ to_le_bytes 8 (rep_manifest_generation r)"

text \<open>What the encoder demands of a request, and what the decoder demands in addition.\<close>

fun name_fits :: "request \<Rightarrow> bool" where
  "name_fits (Register _ _ _ _ _ name) \<longleftrightarrow> name \<noteq> [] \<and> length name \<le> MAX_NAME_LEN"
| "name_fits (Unregister _) \<longleftrightarrow> True"

fun fields_ok :: "request \<Rightarrow> bool" where
  "fields_ok (Register flags _ name_id _ len _) \<longleftrightarrow> flags AND FLAG_DEAD = 0 \<and> name_id \<noteq> 0 \<and> len \<noteq> 0"
| "fields_ok (Unregister _) \<longleftrightarrow> True"

lemma length_ipc_header [simp]: "length (ipc_header k) = 8"
  by (simp add: ipc_header_def)

lemma encode_request_eq:
  "encode_request req out =
     (if \<not> name_fits req then Err FieldTooLong
      else if length out < length (request_image req) then Err BufferTooSmall
      else Ok (patch out 0 (request_image req), length (request_image req)))"
  by (cases req) (auto simp: encode_request_def write_header_def ipc_header_def Let_def res_simps stores)

lemma check_header_image: "check_header (ipc_header k @ rest) = Ok k"
  by (simp add: check_header_def ipc_header_def res_simps bufs)

lemma decode_request_image:
  assumes "name_fits req"
  shows "decode_request (request_image req) = (if fields_ok req then Ok req else Err BadField)"
proof (cases req)
  case (Register flags layout name_id gva len name)
  then have n: "unat (of_nat (length name) :: u16) = length name" "0 < length name" "length name \<le> 56"
    using assms by (auto simp: unat_of_nat)
  have h: "check_header (request_image req) = Ok 1"
    unfolding Register by (simp add: check_header_image)
  show ?thesis
    unfolding decode_request_def h
    using n by (simp add: Register ipc_header_def res_simps bufs Let_def)
next
  case (Unregister i)
  have "check_header (request_image req) = Ok 2"
    unfolding Unregister by (simp add: check_header_image)
  then show ?thesis
    by (simp add: decode_request_def Unregister ipc_header_def res_simps bufs)
qed

lemma check_header_OkD:
  assumes "check_header b = Ok k"
  shows "8 \<le> length b" and "b = ipc_header k @ drop 8 b"
proof -
  show len: "8 \<le> length b" using assms by (auto simp: check_header_def split: if_splits)
  have "le_at 4 b 0 = REGIONIPC_MAGIC" "le_at 2 b 4 = REGIONIPC_VERSION" "le_at 2 b 6 = k"
    using assms len by (auto simp: check_header_def res_simps split: if_splits)
  moreover have "b = to_le_bytes 4 (le_at 4 b 0 :: u32) @ to_le_bytes 2 (le_at 2 b 4 :: u16)
      @ to_le_bytes 2 (le_at 2 b 6 :: u16) @ drop 8 b"
    using len by (simp add: le_collapse)
  ultimately show "b = ipc_header k @ drop 8 b"
    by (simp add: ipc_header_def)
qed

lemma check_header_total: "check_header b \<noteq> Panic"
  by (auto simp: check_header_def res_simps)

lemma decode_request_OkD:
  assumes "decode_request b = Ok req"
  shows "name_fits req \<and> fields_ok req \<and> b = request_image req"
proof -
  obtain k where k: "check_header b = Ok k"
    using assms by (auto simp: decode_request_def bind_res_eq_Ok)
  note h = check_header_OkD [OF k]
  consider (reg) "k = 1" | (unreg) "k = 2"
    using assms k by (auto simp: decode_request_def split: if_splits)
  then show ?thesis
  proof cases
    case reg
    let ?n = "unat (le_at 2 b 36 :: u16)"
    have b: "38 \<le> length b" using assms k reg by (auto simp: decode_request_def split: if_splits)
    then have f: "req = Register (le_at 4 b 8) (le_at 4 b 12) (le_at 4 b 16) (le_at 8 b 20) (le_at 8 b 28) (drop 38 b)"
      "0 < ?n" "?n \<le> 56" "length b = 38 + ?n" "(le_at 4 b 8 :: u32) AND FLAG_DEAD = 0"
      "le_at 4 b 16 \<noteq> (0::u32)" "le_at 8 b 28 \<noteq> (0::u64)"
      using assms k reg by (auto simp: decode_request_def res_simps Let_def split: if_splits)
    have d: "drop 8 b = to_le_bytes 4 (le_at 4 b 8 :: u32) @ to_le_bytes 4 (le_at 4 b 12 :: u32)
        @ to_le_bytes 4 (le_at 4 b 16 :: u32) @ to_le_bytes 8 (le_at 8 b 20 :: u64)
        @ to_le_bytes 8 (le_at 8 b 28 :: u64) @ to_le_bytes 2 (le_at 2 b 36 :: u16) @ drop 38 b"
      using b by (simp add: le_collapse)
    have nl: "(of_nat (length b - 38) :: u16) = le_at 2 b 36"
      using f(4) by simp
    have img: "b = request_image req"
      using h(2) d nl unfolding f(1) by (simp add: reg)
    have "name_fits req" "fields_ok req"
      unfolding f(1) using f(2-7) by auto
    with img show ?thesis by blast
  next
    case unreg
    have b: "length b = 12" using assms k unreg by (auto simp: decode_request_def split: if_splits)
    then have f: "req = Unregister (le_at 4 b 8)"
      using assms k unreg by (auto simp: decode_request_def res_simps split: if_splits)
    have "drop 8 b = to_le_bytes 4 (le_at 4 b 8 :: u32)"
      using b le_collapse [of 12 8 4 b, where 'a = 32] by simp
    then show ?thesis using h(2) f unreg by simp
  qed
qed

lemma decode_request_total: "decode_request b \<noteq> Panic"
  using check_header_total [of b]
  by (auto simp: decode_request_def bind_res_eq_Panic res_simps Let_def split: if_splits)

lemma reply_image_len [simp]: "length (reply_image r) = 28"
  by (simp add: reply_image_def)

lemma encode_reply_eq:
  "encode_reply r out =
     (if length out < 28 then Err BufferTooSmall else Ok (patch out 0 (reply_image r), 28))"
  by (simp add: encode_reply_def write_header_def reply_image_def ipc_header_def res_simps stores)

lemma decode_reply_image: "decode_reply (reply_image r) = Ok r"
proof -
  have "check_header (reply_image r) = Ok 3"
    by (simp add: reply_image_def check_header_image)
  then show ?thesis
    by (simp add: decode_reply_def res_simps) (simp add: reply_image_def ipc_header_def bufs)
qed

lemma decode_reply_total: "decode_reply b \<noteq> Panic"
  using check_header_total [of b]
  by (auto simp: decode_reply_def bind_res_eq_Panic res_simps split: if_splits)

section \<open>Properties\<close>

text \<open>
  A request datagram is accepted exactly when it is, byte for byte, the image of an acceptable
  request: name of 1 to 56 bytes, dead bit clear, nonzero name id and length, nothing behind the
  message. So decoding is injective and inverts encoding; no input makes it panic.
\<close>

theorem region_request_exact:
  "(decode_request b = Ok req \<longleftrightarrow> name_fits req \<and> fields_ok req \<and> b = request_image req)
   \<and> decode_request b \<noteq> Panic"
  using decode_request_OkD decode_request_image decode_request_total by auto

text \<open>
  Encoding a request writes exactly its image into any buffer that holds it, and refuses exactly
  over-long or empty names and short buffers; a request whose fields the protocol forbids is still
  encoded, and refused by the receiver.
\<close>

theorem region_request_encode:
  "case encode_request req out of
     Panic \<Rightarrow> False
   | Err e \<Rightarrow> e = (if name_fits req then BufferTooSmall else FieldTooLong)
   | Ok (b, n) \<Rightarrow> name_fits req \<and> length b = length out \<and> drop n b = drop n out \<and> n \<le> REGIONIPC_MAX_DATAGRAM
       \<and> decode_request (take n b) = (if fields_ok req then Ok req else Err BadField)"
proof -
  have "length (request_image req) \<le> 94" if "name_fits req"
    using that by (cases req) auto
  then show ?thesis
    by (auto simp: encode_request_eq decode_request_image drop_patch_0)
qed

text \<open>Replies survive the socket: exact length, every field preserved, decoding total.\<close>

theorem region_reply_round_trip:
  "(case encode_reply r out of
      Panic \<Rightarrow> False
    | Err e \<Rightarrow> e = BufferTooSmall \<and> length out < REPLY_LEN
    | Ok (b, n) \<Rightarrow> n = REPLY_LEN \<and> length b = length out \<and> decode_reply (take n b) = Ok r
        \<and> (length out = REPLY_LEN \<or> decode_reply b = Err BadLen))
   \<and> decode_reply b' \<noteq> Panic"
proof -
  have "decode_reply (patch out 0 (reply_image r)) = Err BadLen" if "28 < length out"
  proof -
    have "patch out 0 (reply_image r) = ipc_header KIND_REPLY @ drop 8 (patch out 0 (reply_image r))"
      using that by (simp add: patch_def reply_image_def)
    then have "check_header (patch out 0 (reply_image r)) = Ok 3"
      using check_header_image [of KIND_REPLY "drop 8 (patch out 0 (reply_image r))"] by simp
    with that show ?thesis by (simp add: decode_reply_def)
  qed
  moreover have "take 28 (patch out 0 (reply_image r)) = reply_image r"
    using take_patch_0 [of "reply_image r" out] by simp
  ultimately show ?thesis
    by (cases "length out" "28 :: nat" rule: linorder_cases)
       (auto simp: encode_reply_eq decode_reply_image decode_reply_total)
qed

end
