(* ===== verification/Host_Guestmem.thy ===== *)
theory Host_Guestmem
  imports Wire_Regionipc
begin

text \<open>
  Guest-physical memory as the host sees it: \<^verbatim>\<open>crates/detguest-host/src/guestmem.rs\<close>. The trait
  \<open>GuestMem\<close> is implemented by the hypervisor, outside this repository, so its two methods are a
  record of functions that every host operation takes as a parameter; what callers rely on is the
  locale \<open>guest_memory\<close>. The crate's own implementation, the segmented \<open>MockGuestMem\<close>, is shown to
  satisfy it.
\<close>

section \<open>The trait\<close>

datatype mem_error = Unmapped u64 nat | MemOverflow

record 'm guest_mem =
  gm_read :: "'m \<Rightarrow> u64 \<Rightarrow> nat \<Rightarrow> (mem_error, bytes) res"
  gm_write :: "'m \<Rightarrow> u64 \<Rightarrow> bytes \<Rightarrow> (mem_error, 'm) res"

definition read_u32 :: "'m guest_mem \<Rightarrow> 'm \<Rightarrow> u64 \<Rightarrow> (mem_error, u32) res" where
  "read_u32 ops m gpa = bind_res (gm_read ops m gpa 4) (\<lambda>b. Ok (from_le_bytes b))"

definition read_u64 :: "'m guest_mem \<Rightarrow> 'm \<Rightarrow> u64 \<Rightarrow> (mem_error, u64) res" where
  "read_u64 ops m gpa = bind_res (gm_read ops m gpa 8) (\<lambda>b. Ok (from_le_bytes b))"

definition write_u32 :: "'m guest_mem \<Rightarrow> 'm \<Rightarrow> u64 \<Rightarrow> u32 \<Rightarrow> (mem_error, 'm) res" where
  "write_u32 ops m gpa v = gm_write ops m gpa (to_le_bytes 4 v)"

text \<open>
  What callers rely on, for memories that satisfy the implementation's own invariant \<open>inv\<close>: reads
  and writes are total functions of the range; a mapped range can be read piecewise and written, a
  write shows in every range that contains it and in no range it avoids.
\<close>

locale guest_memory =
  fixes ops :: "'m guest_mem" and inv :: "'m \<Rightarrow> bool"
  assumes read_length: "inv m \<Longrightarrow> gm_read ops m g n = Ok b \<Longrightarrow> length b = n"
    and read_total: "inv m \<Longrightarrow> gm_read ops m g n \<noteq> Panic"
    and write_total: "inv m \<Longrightarrow> gm_write ops m g src \<noteq> Panic"
    and read_part: "inv m \<Longrightarrow> gm_read ops m g n = Ok b \<Longrightarrow> i + k \<le> n \<Longrightarrow>
      gm_read ops m (g + of_nat i) k = Ok (take k (drop i b))"
    and write_mapped: "inv m \<Longrightarrow> gm_read ops m g (length src) = Ok b \<Longrightarrow> \<exists>m'. gm_write ops m g src = Ok m'"
    and write_inv: "inv m \<Longrightarrow> gm_write ops m g src = Ok m' \<Longrightarrow> inv m'"
    and write_inside: "inv m \<Longrightarrow> gm_read ops m g n = Ok b \<Longrightarrow> i + length src \<le> n \<Longrightarrow>
      gm_write ops m (g + of_nat i) src = Ok m' \<Longrightarrow> gm_read ops m' g n = Ok (patch b i src)"
begin

text \<open>A mapped window, such as the channel page, behaves as one byte array.\<close>

lemma window_read:
  "inv m \<Longrightarrow> gm_read ops m g n = Ok page \<Longrightarrow> i + k \<le> n \<Longrightarrow>
     gm_read ops m (g + of_nat i) k = Ok (take k (drop i page))"
  by (rule read_part)

lemma window_write:
  assumes "inv m" and "gm_read ops m g n = Ok page" and "i + length src \<le> n"
  shows "\<exists>m'. gm_write ops m (g + of_nat i) src = Ok m' \<and> inv m' \<and> gm_read ops m' g n = Ok (patch page i src)"
proof -
  obtain m' where m': "gm_write ops m (g + of_nat i) src = Ok m'"
    using write_mapped [OF assms(1) read_part [OF assms]] by blast
  with assms write_inside write_inv show ?thesis by blast
qed

lemma window_read_u32:
  "inv m \<Longrightarrow> gm_read ops m g n = Ok page \<Longrightarrow> i + 4 \<le> n \<Longrightarrow> read_u32 ops m (g + of_nat i) = Ok (le_at 4 page i)"
  by (simp add: read_u32_def window_read le_at_def)

lemma window_read_u64:
  "inv m \<Longrightarrow> gm_read ops m g n = Ok page \<Longrightarrow> i + 8 \<le> n \<Longrightarrow> read_u64 ops m (g + of_nat i) = Ok (le_at 8 page i)"
  by (simp add: read_u64_def window_read le_at_def)

end

section \<open>The segmented mock\<close>

record segment =
  seg_base :: u64
  seg_data :: bytes

type_synonym mock_guest_mem = "segment list"

definition seg_end :: "segment \<Rightarrow> u64" where
  "seg_end s = seg_base s + of_nat (length (seg_data s))"

definition checked_add :: "u64 \<Rightarrow> nat \<Rightarrow> u64 option" where
  "checked_add a n = (if unat a + n < 2 ^ 64 then Some (a + of_nat n) else None)"

definition add_segment :: "mock_guest_mem \<Rightarrow> u64 \<Rightarrow> bytes \<Rightarrow> ('e, mock_guest_mem) res" where
  "add_segment segs base data =
     (case checked_add base (length data) of
        None \<Rightarrow> Panic
      | Some e \<Rightarrow>
          if list_all (\<lambda>s. case checked_add (seg_base s) (length (seg_data s)) of
                             None \<Rightarrow> False | Some s_end \<Rightarrow> e \<le> seg_base s \<or> base \<ge> s_end) segs
          then Ok (segs @ [\<lparr>seg_base = base, seg_data = data\<rparr>]) else Panic)"

definition with_zeroed :: "u64 \<Rightarrow> nat \<Rightarrow> ('e, mock_guest_mem) res" where
  "with_zeroed base len = add_segment [] base (replicate len 0)"

text \<open>\<open>locate\<close>: the first segment, from index \<open>i\<close> on, that contains the range.\<close>

fun locate_from :: "nat \<Rightarrow> segment list \<Rightarrow> u64 \<Rightarrow> u64 \<Rightarrow> (nat \<times> nat) option" where
  "locate_from i [] gpa e = None"
| "locate_from i (s # segs) gpa e =
     (if gpa \<ge> seg_base s \<and> e \<le> seg_end s then Some (i, unat (gpa - seg_base s))
      else locate_from (i + 1) segs gpa e)"

definition locate :: "mock_guest_mem \<Rightarrow> u64 \<Rightarrow> nat \<Rightarrow> (nat \<times> nat) option" where
  "locate segs gpa len =
     (case checked_add gpa len of None \<Rightarrow> None | Some e \<Rightarrow> locate_from 0 segs gpa e)"

definition mock_read :: "mock_guest_mem \<Rightarrow> u64 \<Rightarrow> nat \<Rightarrow> (mem_error, bytes) res" where
  "mock_read segs gpa len =
     (case locate segs gpa len of
        Some (seg, off) \<Rightarrow> bind_res (index segs seg) (\<lambda>s. slice (seg_data s) off (off + len))
      | None \<Rightarrow> Err (Unmapped gpa len))"

definition mock_write :: "mock_guest_mem \<Rightarrow> u64 \<Rightarrow> bytes \<Rightarrow> (mem_error, mock_guest_mem) res" where
  "mock_write segs gpa buf =
     (case locate segs gpa (length buf) of
        Some (seg, off) \<Rightarrow>
          bind_res (index segs seg) (\<lambda>s.
          bind_res (put_slice (seg_data s) off (off + length buf) buf) (\<lambda>d.
          Ok (segs[seg := s\<lparr>seg_data := d\<rparr>])))
      | None \<Rightarrow> Err (Unmapped gpa (length buf)))"

definition mock_ops :: "mock_guest_mem guest_mem" where
  "mock_ops = \<lparr>gm_read = mock_read, gm_write = mock_write\<rparr>"

section \<open>The mock satisfies the interface\<close>

definition covers :: "segment \<Rightarrow> u64 \<Rightarrow> nat \<Rightarrow> bool" where
  "covers s g n \<longleftrightarrow> unat (seg_base s) \<le> unat g \<and> unat g + n \<le> unat (seg_base s) + length (seg_data s)"

definition seg_fits :: "segment \<Rightarrow> bool" where
  "seg_fits s \<longleftrightarrow> unat (seg_base s) + length (seg_data s) < 2 ^ 64"

definition seg_disjoint :: "segment \<Rightarrow> segment \<Rightarrow> bool" where
  "seg_disjoint a b \<longleftrightarrow> unat (seg_base a) + length (seg_data a) \<le> unat (seg_base b)
     \<or> unat (seg_base b) + length (seg_data b) \<le> unat (seg_base a)"

definition mock_inv :: "mock_guest_mem \<Rightarrow> bool" where
  "mock_inv segs \<longleftrightarrow> list_all seg_fits segs \<and> sorted_wrt seg_disjoint segs"

lemma unat_of_nat64: "n < 2 ^ 64 \<Longrightarrow> unat (of_nat n :: u64) = n"
  by (simp add: unat_of_nat)

lemma unat_plus: "unat (a :: u64) + n < 2 ^ 64 \<Longrightarrow> unat (a + of_nat n) = unat a + n"
  using unat_of_nat64 [of n] by (subst unat_add_no_wrap) simp_all

lemma located:
  assumes "seg_fits s" and "unat g + n < 2 ^ 64"
  shows "g \<ge> seg_base s \<and> g + of_nat n \<le> seg_end s \<longleftrightarrow> covers s g n"
  using assms by (simp add: seg_end_def covers_def seg_fits_def word_le_nat_alt unat_plus)

lemma locate_from_Some:
  "list_all seg_fits segs \<Longrightarrow> unat g + n < 2 ^ 64 \<Longrightarrow> locate_from i segs g (g + of_nat n) = Some (k, off) \<Longrightarrow>
     i \<le> k \<and> k < i + length segs \<and> covers (segs ! (k - i)) g n
     \<and> off = unat g - unat (seg_base (segs ! (k - i)))"
proof (induction segs arbitrary: i)
  case (Cons s segs)
  show ?case
  proof (cases "covers s g n")
    case True
    then show ?thesis
      using Cons.prems located [of s g n] by (auto simp: covers_def word_le_nat_alt unat_sub_word)
  next
    case False
    then have "locate_from (i + 1) segs g (g + of_nat n) = Some (k, off)"
      using Cons.prems located [of s g n] by (auto split: if_splits)
    then show ?thesis using Cons.IH [of "i + 1"] Cons.prems by (auto simp: nth_Cons' Suc_diff_le)
  qed
qed simp

lemma locate_from_None:
  "list_all seg_fits segs \<Longrightarrow> unat g + n < 2 ^ 64 \<Longrightarrow>
     locate_from i segs g (g + of_nat n) = None \<longleftrightarrow> (\<forall>s \<in> set segs. \<not> covers s g n)"
  by (induction segs arbitrary: i) (auto simp: located)

lemma locate_Some:
  assumes "mock_inv segs" and "locate segs g n = Some (k, off)"
  shows "k < length segs" and "covers (segs ! k) g n" and "off = unat g - unat (seg_base (segs ! k))"
  using assms locate_from_Some [of segs g n 0 k off]
  by (auto simp: locate_def checked_add_def mock_inv_def split: if_splits)

lemma locate_None:
  assumes "mock_inv segs"
  shows "locate segs g n = None \<longleftrightarrow> (\<forall>s \<in> set segs. \<not> covers s g n)"
proof (cases "unat g + n < 2 ^ 64")
  case True
  then show ?thesis
    using assms locate_from_None [of segs g n 0] by (simp add: locate_def checked_add_def mock_inv_def)
next
  case False
  have "\<not> covers s g n" if "s \<in> set segs" for s
    using assms that False by (auto simp: mock_inv_def list_all_iff seg_fits_def covers_def)
  with False show ?thesis by (simp add: locate_def checked_add_def)
qed

lemma covers_unique:
  assumes "mock_inv segs" and "i < length segs" and "j < length segs"
    and "covers (segs ! i) g n" and "covers (segs ! j) g n" and "0 < n"
  shows "i = j"
proof (rule ccontr)
  assume "i \<noteq> j"
  then have "seg_disjoint (segs ! i) (segs ! j) \<or> seg_disjoint (segs ! j) (segs ! i)"
    using assms(1-3) by (auto simp: mock_inv_def sorted_wrt_iff_nth_less neq_iff)
  then show False using assms(4-6) by (auto simp: seg_disjoint_def covers_def)
qed

definition seg_window :: "segment \<Rightarrow> u64 \<Rightarrow> nat \<Rightarrow> bytes" where
  "seg_window s g n = take n (drop (unat g - unat (seg_base s)) (seg_data s))"

lemma mock_read_located:
  assumes "mock_inv segs" and "locate segs g n = Some (k, off)"
  shows "mock_read segs g n = Ok (seg_window (segs ! k) g n)"
proof -
  note l = locate_Some [OF assms]
  from l(2) have "off + n \<le> length (seg_data (segs ! k))" by (auto simp: covers_def l(3))
  with assms l show ?thesis by (simp add: mock_read_def res_simps seg_window_def)
qed

lemma mock_read_eq:
  assumes inv: "mock_inv segs" and k: "k < length segs" "covers (segs ! k) g n"
  shows "mock_read segs g n = Ok (seg_window (segs ! k) g n)"
proof -
  have "locate segs g n \<noteq> None" using locate_None [OF inv] k nth_mem by blast
  then obtain j off where l: "locate segs g n = Some (j, off)" by auto
  note lj = locate_Some [OF inv l]
  have "seg_window (segs ! j) g n = seg_window (segs ! k) g n"
    using covers_unique [OF inv lj(1) k(1) lj(2) k(2)] by (cases "n = 0") (auto simp: seg_window_def)
  with mock_read_located [OF inv l] show ?thesis by simp
qed

lemma mock_read_OkD:
  assumes "mock_inv segs" and "mock_read segs g n = Ok b"
  obtains k where "k < length segs" "covers (segs ! k) g n" "b = seg_window (segs ! k) g n"
proof -
  obtain k off where l: "locate segs g n = Some (k, off)"
    using assms(2) by (cases "locate segs g n") (auto simp: mock_read_def)
  then show thesis
    using that locate_Some [OF assms(1) l] mock_read_located [OF assms(1) l] assms(2) by simp
qed

lemma length_seg_window: "covers s g n \<Longrightarrow> length (seg_window s g n) = n"
  by (auto simp: covers_def seg_window_def)

lemma mock_write_located:
  assumes "mock_inv segs" and "locate segs g (length src) = Some (k, off)"
  shows "mock_write segs g src =
     Ok (segs[k := (segs ! k)\<lparr>seg_data := patch (seg_data (segs ! k)) off src\<rparr>])"
proof -
  note l = locate_Some [OF assms]
  from l(2) have "off + length src \<le> length (seg_data (segs ! k))" by (auto simp: covers_def l(3))
  with assms l(1) show ?thesis by (simp add: mock_write_def res_simps)
qed

lemma mock_write_OkD:
  assumes "mock_inv segs" and "mock_write segs g src = Ok segs'"
  obtains k where "k < length segs" "covers (segs ! k) g (length src)"
    "segs' = segs[k := (segs ! k)\<lparr>seg_data :=
       patch (seg_data (segs ! k)) (unat g - unat (seg_base (segs ! k))) src\<rparr>]"
proof -
  obtain k off where l: "locate segs g (length src) = Some (k, off)"
    using assms(2) by (cases "locate segs g (length src)") (auto simp: mock_write_def)
  then show thesis
    using that locate_Some [OF assms(1) l] mock_write_located [OF assms(1) l] assms(2) by simp
qed

lemma mock_write_inv:
  assumes inv: "mock_inv segs" and w: "mock_write segs g src = Ok segs'"
  shows "mock_inv segs'"
proof -
  obtain k where k: "k < length segs" "covers (segs ! k) g (length src)"
    "segs' = segs[k := (segs ! k)\<lparr>seg_data :=
       patch (seg_data (segs ! k)) (unat g - unat (seg_base (segs ! k))) src\<rparr>]"
    using inv w by (rule mock_write_OkD)
  let ?s = "(segs ! k)\<lparr>seg_data := patch (seg_data (segs ! k)) (unat g - unat (seg_base (segs ! k))) src\<rparr>"
  have len: "length (seg_data ?s) = length (seg_data (segs ! k))" "seg_base ?s = seg_base (segs ! k)"
    using k(2) by (auto simp: covers_def)
  have "list_all seg_fits segs'"
    using inv k(1) len unfolding k(3) mock_inv_def list_all_length
    by (auto simp: nth_list_update seg_fits_def)
  moreover have "sorted_wrt seg_disjoint segs'"
    using inv k(1) len unfolding k(3) mock_inv_def sorted_wrt_iff_nth_less
    by (auto simp: nth_list_update seg_disjoint_def)
  ultimately show ?thesis by (simp add: mock_inv_def)
qed

lemma seg_window_part:
  assumes "covers s g n" and "seg_fits s" and "i + k \<le> n"
  shows "covers s (g + of_nat i) k" and "seg_window s (g + of_nat i) k = take k (drop i (seg_window s g n))"
proof -
  have u: "unat (g + of_nat i) = unat g + i"
    using assms by (intro unat_plus) (auto simp: covers_def seg_fits_def)
  then show "covers s (g + of_nat i) k"
    using assms by (auto simp: covers_def)
  have "unat g + i - unat (seg_base s) = i + (unat g - unat (seg_base s))"
    using assms(1) by (auto simp: covers_def)
  then show "seg_window s (g + of_nat i) k = take k (drop i (seg_window s g n))"
    using assms(3) u by (simp add: seg_window_def drop_take min_def add.commute)
qed

lemma mock_write_inside:
  assumes inv: "mock_inv segs" and r: "mock_read segs g n = Ok b" and i: "i + length src \<le> n"
    and w: "mock_write segs (g + of_nat i) src = Ok segs'"
  shows "mock_read segs' g n = Ok (patch b i src)"
proof -
  obtain k where k: "k < length segs" "covers (segs ! k) g n" "b = seg_window (segs ! k) g n"
    using inv r by (rule mock_read_OkD)
  obtain j where j: "j < length segs" "covers (segs ! j) (g + of_nat i) (length src)"
    "segs' = segs[j := (segs ! j)\<lparr>seg_data :=
       patch (seg_data (segs ! j)) (unat (g + of_nat i) - unat (seg_base (segs ! j))) src\<rparr>]"
    using inv w by (rule mock_write_OkD)
  have fits: "seg_fits (segs ! k)" using inv k(1) by (simp add: mock_inv_def list_all_length)
  show ?thesis
  proof (cases "src = []")
    case True
    then have "segs' = segs" using j(1,3) by simp
    with True r show ?thesis by simp
  next
    case False
    let ?a = "unat g - unat (seg_base (segs ! k))"
    have jk: "j = k"
      using covers_unique [OF inv j(1) k(1) j(2) seg_window_part(1) [OF k(2) fits i]] False by simp
    have u: "unat (g + of_nat i) - unat (seg_base (segs ! k)) = ?a + i"
      using k(2) fits i by (subst unat_plus) (auto simp: covers_def seg_fits_def)
    let ?s = "(segs ! k)\<lparr>seg_data := patch (seg_data (segs ! k)) (?a + i) src\<rparr>"
    have s': "segs' ! k = ?s" using j jk u k(1) by simp
    have an: "?a + n \<le> length (seg_data (segs ! k))" using k(2) by (auto simp: covers_def)
    then have "covers ?s g n" using k(2) i by (auto simp: covers_def)
    then have "mock_read segs' g n = Ok (seg_window ?s g n)"
      using mock_read_eq [OF mock_write_inv [OF inv w], of k g n] s' k(1) j(3) by simp
    also have "seg_window ?s g n = patch b i src"
      using window_patch [OF i an] k(3) by (simp add: seg_window_def)
    finally show ?thesis .
  qed
qed

interpretation mock: guest_memory mock_ops mock_inv
proof unfold_locales
  fix m g n b assume "mock_inv m" "gm_read mock_ops m g n = Ok b"
  then show "length b = n"
    by (auto simp: mock_ops_def elim!: mock_read_OkD dest: length_seg_window)
next
  fix m g n assume "mock_inv m"
  then show "gm_read mock_ops m g n \<noteq> Panic"
    by (cases "locate m g n") (auto simp: mock_ops_def mock_read_located, simp add: mock_read_def)
next
  fix m g src assume "mock_inv m"
  then show "gm_write mock_ops m g src \<noteq> Panic"
    by (cases "locate m g (length src)") (auto simp: mock_ops_def mock_write_located, simp add: mock_write_def)
next
  fix m g n b i k assume inv: "mock_inv m" and r: "gm_read mock_ops m g n = Ok b" and i: "i + k \<le> n"
  obtain j where j: "j < length m" "covers (m ! j) g n" "b = seg_window (m ! j) g n"
    using inv r by (auto simp: mock_ops_def elim: mock_read_OkD)
  have "seg_fits (m ! j)" using inv j(1) by (simp add: mock_inv_def list_all_length)
  then show "gm_read mock_ops m (g + of_nat i) k = Ok (take k (drop i b))"
    using mock_read_eq [OF inv j(1)] seg_window_part [OF j(2) _ i] j(3) by (simp add: mock_ops_def)
next
  fix m g b and src :: bytes assume inv: "mock_inv m" and r: "gm_read mock_ops m g (length src) = Ok b"
  obtain j where "j < length m" "covers (m ! j) g (length src)"
    using inv r by (auto simp: mock_ops_def elim: mock_read_OkD)
  then have "locate m g (length src) \<noteq> None" using locate_None [OF inv] nth_mem by blast
  then show "\<exists>m'. gm_write mock_ops m g src = Ok m'"
    using mock_write_located [OF inv] by (auto simp: mock_ops_def)
qed (use mock_write_inv mock_write_inside in \<open>auto simp: mock_ops_def\<close>)

text \<open>Memories built through the public constructors satisfy the invariant.\<close>

lemma add_segment_inv:
  assumes "mock_inv segs" and "add_segment segs base data = Ok segs'"
  shows "mock_inv segs'"
proof -
  let ?s = "\<lparr>seg_base = base, seg_data = data\<rparr>"
  from assms have s': "segs' = segs @ [?s]" and f: "unat base + length data < 2 ^ 64"
    and d: "list_all (\<lambda>s. case checked_add (seg_base s) (length (seg_data s)) of None \<Rightarrow> False
              | Some s_end \<Rightarrow> base + of_nat (length data) \<le> seg_base s \<or> base \<ge> s_end) segs"
    by (auto simp: add_segment_def checked_add_def split: if_splits)
  have "seg_disjoint s ?s" if "s \<in> set segs" for s
    using d f that unfolding list_all_iff
    by (auto simp: checked_add_def seg_disjoint_def word_le_nat_alt unat_plus split: if_splits)
  then show ?thesis
    using assms(1) f by (auto simp: s' mock_inv_def seg_fits_def sorted_wrt_append)
qed

section \<open>Property\<close>

text \<open>
  The mock memory is a memory: what is written to any range inside a readable window is read
  back from that window, bytes around it are unchanged, the invariant of disjoint segments is kept,
  and no access panics; reads return exactly the requested number of bytes.
\<close>

theorem mock_memory_laws:
  assumes "mock_inv segs" and "mock_read segs g n = Ok b" and "i + length src \<le> n"
  shows "\<exists>segs'. mock_write segs (g + of_nat i) src = Ok segs' \<and> mock_inv segs'
     \<and> mock_read segs' g n = Ok (patch b i src) \<and> length b = n
     \<and> mock_read segs' (g + of_nat i) (length src) = Ok src"
proof -
  have r: "gm_read mock_ops segs g n = Ok b" using assms(2) by (simp add: mock_ops_def)
  obtain m' where m': "gm_write mock_ops segs (g + of_nat i) src = Ok m'" "mock_inv m'"
    "gm_read mock_ops m' g n = Ok (patch b i src)"
    using mock.window_write [OF assms(1) r assms(3)] by blast
  have len: "length b = n" by (rule mock.read_length [OF assms(1) r])
  have "gm_read mock_ops m' (g + of_nat i) (length src) = Ok src"
    using mock.read_part [OF m'(2,3), of i "length src"] assms(3) len by (simp add: bufs)
  with m' len show ?thesis by (auto simp: mock_ops_def)
qed

theorem mock_memory_laws_witness:
  "\<exists>segs segs'. with_zeroed 0x1000 16 = (Ok segs :: (mem_error, mock_guest_mem) res)
     \<and> mock_write segs 0x1004 [1, 2, 3] = Ok segs'
     \<and> mock_read segs' 0x1000 16 = Ok (patch (replicate 16 0) 4 [1, 2, 3])"
proof -
  let ?m = "[\<lparr>seg_base = 0x1000, seg_data = replicate 16 0\<rparr>]"
  have z: "with_zeroed 0x1000 16 = (Ok ?m :: (mem_error, mock_guest_mem) res)"
    by (simp add: with_zeroed_def add_segment_def checked_add_def)
  have inv: "mock_inv ?m" by (simp add: mock_inv_def seg_fits_def)
  have "mock_read ?m 0x1000 16 = Ok (seg_window (?m ! 0) 0x1000 16)"
    by (rule mock_read_eq [OF inv]) (simp_all add: covers_def)
  then have r: "mock_read ?m 0x1000 16 = Ok (replicate 16 0)" by (simp add: seg_window_def)
  show ?thesis
    using mock_memory_laws [OF inv r, of 4 "[1, 2, 3]"] z by auto
qed

end
