(* ===== verification/Btree_Map.thy ===== *)
theory Btree_Map
  imports Prelude
begin

text \<open>
  The standard library's \<open>BTreeMap\<close>, as the host crate uses it (\<open>new\<close>, \<open>get\<close>, \<open>insert\<close>,
  \<open>remove\<close>, iteration in key order, \<open>collect\<close> from an iterator): an association list sorted by key.
  The interface is the locale \<open>ordered_map\<close>; its client lemma is that rebuilding a map from its own
  iteration gives the map back, which is what checkpoint and restore rest on.
\<close>

type_synonym ('k, 'v) btmap = "('k \<times> 'v) list"

fun bt_get :: "('k::linorder, 'v) btmap \<Rightarrow> 'k \<Rightarrow> 'v option" where
  "bt_get [] k = None"
| "bt_get ((a, b) # m) k = (if k = a then Some b else bt_get m k)"

fun bt_insert :: "'k::linorder \<Rightarrow> 'v \<Rightarrow> ('k, 'v) btmap \<Rightarrow> ('k, 'v) btmap" where
  "bt_insert k v [] = [(k, v)]"
| "bt_insert k v ((a, b) # m) =
     (if k < a then (k, v) # (a, b) # m else if k = a then (k, v) # m else (a, b) # bt_insert k v m)"

fun bt_remove :: "'k::linorder \<Rightarrow> ('k, 'v) btmap \<Rightarrow> ('k, 'v) btmap" where
  "bt_remove k [] = []"
| "bt_remove k ((a, b) # m) = (if k = a then m else (a, b) # bt_remove k m)"

definition bt_collect :: "('k::linorder \<times> 'v) list \<Rightarrow> ('k, 'v) btmap" where
  "bt_collect entries = fold (\<lambda>(k, v) m. bt_insert k v m) entries []"

definition bt_wf :: "('k::linorder, 'v) btmap \<Rightarrow> bool" where
  "bt_wf m \<longleftrightarrow> sorted_wrt (<) (map fst m)"

lemma bt_insert_keys: "set (map fst (bt_insert k v m)) = insert k (set (map fst m))"
  by (induction k v m rule: bt_insert.induct) auto

lemma bt_remove_keys: "set (map fst (bt_remove k m)) \<subseteq> set (map fst m)"
  by (induction k m rule: bt_remove.induct) auto

lemma bt_wf_insert: "bt_wf m \<Longrightarrow> bt_wf (bt_insert k v m)"
proof (induction k v m rule: bt_insert.induct)
  case (2 k v a b m)
  then show ?case
    using bt_insert_keys [of k v m] by (auto simp: bt_wf_def)
qed (simp add: bt_wf_def)

lemma bt_wf_remove: "bt_wf m \<Longrightarrow> bt_wf (bt_remove k m)"
proof (induction k m rule: bt_remove.induct)
  case (2 k a b m)
  then show ?case
    using bt_remove_keys [of k m] by (fastforce simp: bt_wf_def)
qed (simp add: bt_wf_def)

lemma bt_get_None: "bt_get m k = None \<longleftrightarrow> k \<notin> set (map fst m)"
  by (induction m k rule: bt_get.induct) auto

lemma bt_get_insert: "bt_wf m \<Longrightarrow> bt_get (bt_insert k v m) j = (if j = k then Some v else bt_get m j)"
  by (induction k v m rule: bt_insert.induct) (auto simp: bt_wf_def)

lemma bt_get_remove: "bt_wf m \<Longrightarrow> bt_get (bt_remove k m) j = (if j = k then None else bt_get m j)"
proof (induction k m rule: bt_remove.induct)
  case (2 k a b m)
  then have "a \<notin> set (map fst m)" by (auto simp: bt_wf_def)
  with 2 show ?case
    using bt_get_None [of m a] by (auto simp: bt_wf_def)
qed simp

lemma bt_ext: "bt_wf m \<Longrightarrow> bt_wf m' \<Longrightarrow> bt_get m = bt_get m' \<Longrightarrow> m = m'"
proof (induction m arbitrary: m')
  case Nil
  then show ?case by (cases m') (auto simp: fun_eq_iff split: if_splits)
next
  case (Cons p m)
  obtain a b where p: "p = (a, b)" by (cases p)
  obtain c d n where m': "m' = (c, d) # n"
    using Cons.prems(3) p by (cases m') (auto simp: fun_eq_iff split: if_splits)
  have low: "\<forall>k \<in> set (map fst m). a < k" "\<forall>k \<in> set (map fst n). c < k"
    using Cons.prems(1,2) by (auto simp: bt_wf_def p m')
  have g: "bt_get ((a, b) # m) k = bt_get ((c, d) # n) k" for k
    using fun_cong [OF Cons.prems(3), of k] by (simp only: p m')
  have ac: "a = c"
  proof (rule ccontr)
    assume "a \<noteq> c"
    then have "bt_get n a \<noteq> None" "bt_get m c \<noteq> None" using g [of a] g [of c] by (auto intro: sym)
    then show False using low bt_get_None [of n a] bt_get_None [of m c] by fastforce
  qed
  have "bt_get m k = bt_get n k" for k
    using g [of k] low bt_get_None [of m a] bt_get_None [of n a] ac by (cases "k = a") auto
  then have "m = n"
    using Cons.prems(1,2) by (intro Cons.IH) (auto simp: bt_wf_def p m')
  with g [of a] ac show ?case by (simp add: p m')
qed

text \<open>The interface a client of the map relies on.\<close>

locale ordered_map =
  fixes wf :: "'m \<Rightarrow> bool" and empty :: 'm and get :: "'m \<Rightarrow> 'k::linorder \<Rightarrow> 'v option"
    and ins :: "'k \<Rightarrow> 'v \<Rightarrow> 'm \<Rightarrow> 'm" and entries :: "'m \<Rightarrow> ('k \<times> 'v) list"
  assumes wf_empty: "wf empty"
    and wf_ins: "wf m \<Longrightarrow> wf (ins k v m)"
    and get_empty: "get empty k = None"
    and get_ins: "wf m \<Longrightarrow> get (ins k v m) j = (if j = k then Some v else get m j)"
    and ext: "wf m \<Longrightarrow> wf m' \<Longrightarrow> get m = get m' \<Longrightarrow> m = m'"
    and entries_sorted: "wf m \<Longrightarrow> sorted_wrt (<) (map fst (entries m))"
    and get_entries: "wf m \<Longrightarrow> get m = map_of (entries m)"
begin

definition collect :: "('k \<times> 'v) list \<Rightarrow> 'm" where
  "collect es = fold (\<lambda>(k, v) m. ins k v m) es empty"

lemma wf_fold: "wf m \<Longrightarrow> wf (fold (\<lambda>(k, v) m. ins k v m) es m)"
  by (induction es arbitrary: m) (auto simp: wf_ins)

lemma wf_collect: "wf (collect es)"
  by (simp add: collect_def wf_fold wf_empty)

lemma get_fold:
  "wf m \<Longrightarrow> get (fold (\<lambda>(k, v) m. ins k v m) es m) j
     = (case map_of (rev es) j of Some v \<Rightarrow> Some v | None \<Rightarrow> get m j)"
proof (induction es arbitrary: m)
  case (Cons e es)
  then show ?case
    by (cases e) (auto simp: wf_ins get_ins map_add_def split: option.splits)
qed simp

lemma get_collect: "get (collect es) = map_of (rev es)"
  by (auto simp: collect_def get_fold wf_empty get_empty fun_eq_iff split: option.splits)

lemma collect_entries:
  assumes "wf m"
  shows "collect (entries m) = m"
proof (rule ext [OF wf_collect assms])
  have "distinct (map fst (entries m))"
    using entries_sorted [OF assms] by (auto simp: sorted_wrt_iff_nth_less distinct_conv_nth neq_iff)
  then show "get (collect (entries m)) = get m"
    using get_entries [OF assms] map_of_inject_set [of "rev (entries m)" "entries m"]
    by (simp add: get_collect rev_map [symmetric])
qed

end

lemma bt_get_map_of: "bt_get m k = map_of m k"
  by (induction m k rule: bt_get.induct) auto

interpretation btmap: ordered_map bt_wf "[]" bt_get bt_insert "\<lambda>m. m"
proof unfold_locales
  show "bt_wf m \<Longrightarrow> bt_wf m' \<Longrightarrow> bt_get m = bt_get m' \<Longrightarrow> m = m'" for m m' :: "('k::linorder, 'v) btmap"
    by (rule bt_ext)
qed (auto simp: bt_wf_insert bt_get_insert fun_eq_iff bt_get_map_of [symmetric], simp_all add: bt_wf_def)

lemma bt_collect_eq: "bt_collect = btmap.collect"
  by (simp add: bt_collect_def [abs_def] btmap.collect_def [abs_def])

end
