(* ===== verification/Wire_Ports.thy ===== *)
theory Wire_Ports
  imports Prelude
begin

text \<open>
  The detcall register ABI of \<^verbatim>\<open>crates/detguest-wire/src/ports.rs\<close>: port numbers, the status word
  of a channel-init commit and the packed \<open>FaultDecision\<close>. The lemmas show that packing and
  unpacking are inverse on representable decisions, that unpacking is total, and exactly which
  bits are lost when a decision is out of range.
\<close>

section \<open>Ports and status words\<close>

definition PORT_RANGE_START :: u16 where [simp]: "PORT_RANGE_START = 0xD370"
definition PORT_RANGE_END :: u16 where [simp]: "PORT_RANGE_END = 0xD39F"
definition PORT_IDENT :: u16 where [simp]: "PORT_IDENT = 0xD370"
definition PORT_INIT_LO :: u16 where [simp]: "PORT_INIT_LO = 0xD374"
definition PORT_INIT_HI :: u16 where [simp]: "PORT_INIT_HI = 0xD378"
definition PORT_INIT_GO :: u16 where [simp]: "PORT_INIT_GO = 0xD37C"
definition PORT_DOORBELL :: u16 where [simp]: "PORT_DOORBELL = 0xD380"
definition PORT_INJECT :: u16 where [simp]: "PORT_INJECT = 0xD384"
definition PORT_QUIESCE_ACK :: u16 where [simp]: "PORT_QUIESCE_ACK = 0xD388"
definition IDENT_VALUE :: u32 where [simp]: "IDENT_VALUE = 0xD37E0001"
definition DOORBELL_RING_A :: u32 where [simp]: "DOORBELL_RING_A = push_bit 0 1"
definition DOORBELL_RING_W :: u32 where [simp]: "DOORBELL_RING_W = push_bit 1 1"

datatype init_status = InitOk | BadGpa | BadMagicVersion | AlreadyAttached

definition InitStatus_as_u32 :: "init_status \<Rightarrow> u32" where
  "InitStatus_as_u32 s =
     (case s of InitOk \<Rightarrow> 0 | BadGpa \<Rightarrow> 1 | BadMagicVersion \<Rightarrow> 2 | AlreadyAttached \<Rightarrow> 3)"

definition InitStatus_from_u32 :: "u32 \<Rightarrow> init_status option" where
  "InitStatus_from_u32 v =
     (if v = 0 then Some InitOk
      else if v = 1 then Some BadGpa
      else if v = 2 then Some BadMagicVersion
      else if v = 3 then Some AlreadyAttached
      else None)"

lemma InitStatus_round_trip [simp]: "InitStatus_from_u32 (InitStatus_as_u32 s) = Some s"
  by (cases s) (simp_all add: InitStatus_from_u32_def InitStatus_as_u32_def)

section \<open>Fault decisions\<close>

definition FAULT_ARG_MAX :: u32 where [simp]: "FAULT_ARG_MAX = 0x00FFFFFF"

datatype fault_decision = Proceed | Platform u8 u32 | Workload u8 u32

definition FaultDecision_pack :: "fault_decision \<Rightarrow> u32" where
  "FaultDecision_pack d =
     (case d of
        Proceed \<Rightarrow> 0
      | Platform kind arg \<Rightarrow> ucast kind OR push_bit 8 (arg AND FAULT_ARG_MAX)
      | Workload kind arg \<Rightarrow> ucast kind OR push_bit 8 (arg AND FAULT_ARG_MAX))"

definition FaultDecision_unpack :: "u32 \<Rightarrow> fault_decision" where
  "FaultDecision_unpack v =
     (let kind = ucast (v AND 0xFF) :: u8; arg = drop_bit 8 v
      in if kind = 0 then Proceed
         else if 1 \<le> kind \<and> kind \<le> 63 then Platform kind arg
         else Workload kind arg)"

text \<open>The ranges \<open>pack\<close> asserts in debug builds: what a decision must satisfy to be representable.\<close>

definition fault_representable :: "fault_decision \<Rightarrow> bool" where
  "fault_representable d =
     (case d of
        Proceed \<Rightarrow> True
      | Platform kind arg \<Rightarrow> 1 \<le> kind \<and> kind \<le> 63 \<and> arg \<le> FAULT_ARG_MAX
      | Workload kind arg \<Rightarrow> 64 \<le> kind \<and> arg \<le> FAULT_ARG_MAX)"

lemma FAULT_ARG_MAX_mask: "FAULT_ARG_MAX = mask 24"
  by (simp add: mask_eq_decr_exp)

lemma arg_and_max: "(arg AND FAULT_ARG_MAX) = take_bit 24 arg"
  by (simp only: FAULT_ARG_MAX_mask take_bit_eq_mask)

lemma le_max_take_bit: "arg \<le> FAULT_ARG_MAX \<Longrightarrow> take_bit 24 arg = (arg :: u32)"
proof -
  assume "arg \<le> FAULT_ARG_MAX"
  then have "unat arg < 2 ^ 24"
    by (simp add: word_le_nat_alt)
  then have "take_bit 24 (unat arg) = unat arg"
    by (simp add: take_bit_eq_mod)
  then show ?thesis
    by (simp add: word_unat_eq_iff unsigned_take_bit_eq)
qed

lemma and_0xFF: "x AND 0xFF = take_bit 8 (x :: u32)"
  by (simp add: take_bit_eq_mask mask_eq_decr_exp)

lemma low_byte_packed: "(ucast ((ucast kind OR push_bit 8 arg) AND 0xFF :: u32) :: u8) = kind"
  unfolding and_0xFF by (rule bit_word_eqI) (simp add: bit_simps)

lemma high_bits_packed: "drop_bit 8 (ucast (kind :: u8) OR push_bit 8 arg :: u32) = take_bit 24 arg"
proof (rule bit_word_eqI)
  fix n assume "n < LENGTH(32)"
  moreover have "\<not> bit kind (8 + n)"
    using bit_imp_le_length [of kind "8 + n"] by auto
  ultimately show "bit (drop_bit 8 (ucast kind OR push_bit 8 arg :: u32)) n = bit (take_bit 24 arg) n"
    by (auto simp: bit_simps)
qed

lemma split_word32: "ucast (ucast (v AND 0xFF) :: u8) OR push_bit 8 (drop_bit 8 v) = (v :: u32)"
  unfolding and_0xFF
proof (rule bit_word_eqI)
  fix n assume "n < LENGTH(32)"
  moreover have "8 \<le> n \<Longrightarrow> 8 + (n - 8) = n" by simp
  ultimately show "bit (ucast (ucast (take_bit 8 v) :: u8) OR push_bit 8 (drop_bit 8 v)) n = bit v n"
    by (cases "n < 8") (auto simp: bit_simps)
qed

lemma unpack_packed:
  "FaultDecision_unpack (ucast kind OR push_bit 8 (arg AND FAULT_ARG_MAX)) =
     (if kind = 0 then Proceed
      else if kind \<le> 63 then Platform kind (take_bit 24 arg)
      else Workload kind (take_bit 24 arg))"
  unfolding FaultDecision_unpack_def Let_def low_byte_packed high_bits_packed arg_and_max
  by (auto simp add: word_le_nat_alt unat_eq_0 [symmetric])

text \<open>Unpacking inverts packing on every decision in range.\<close>

theorem fault_decision_round_trip:
  assumes "fault_representable d"
  shows "FaultDecision_unpack (FaultDecision_pack d) = d"
proof (cases d)
  case Proceed
  then show ?thesis by (simp add: FaultDecision_pack_def FaultDecision_unpack_def)
next
  case (Platform k a)
  with assms have "k \<noteq> 0" "k \<le> 63" "take_bit 24 a = a"
    by (auto simp: fault_representable_def le_max_take_bit simp del: FAULT_ARG_MAX_def)
  with Platform show ?thesis
    by (simp only: FaultDecision_pack_def fault_decision.case unpack_packed if_True if_False simp_thms)
next
  case (Workload k a)
  with assms have "k \<noteq> 0" "\<not> k \<le> 63" "take_bit 24 a = a"
    by (auto simp: fault_representable_def le_max_take_bit word_le_nat_alt simp del: FAULT_ARG_MAX_def)
  with Workload show ?thesis
    by (simp only: FaultDecision_pack_def fault_decision.case unpack_packed if_True if_False simp_thms)
qed

theorem fault_decision_round_trip_witness:
  "FaultDecision_unpack (FaultDecision_pack (Workload 200 0xFFFFFF)) = Workload 200 0xFFFFFF
   \<and> FaultDecision_pack (Workload 200 0xFFFFFF) = 0xFFFFFFC8"
  using fault_decision_round_trip [of "Workload 200 0xFFFFFF"]
  by (simp add: fault_representable_def FaultDecision_pack_def)

text \<open>
  Unpacking is total and canonical: every status word decodes to a representable decision,
  and packing it again gives the word back, except that a word of kind 0 collapses to 0.
\<close>

theorem fault_decision_unpack_total:
  "fault_representable (FaultDecision_unpack v)
   \<and> FaultDecision_pack (FaultDecision_unpack v) = (if v AND 0xFF = 0 then 0 else v)"
proof -
  let ?k = "ucast (v AND 0xFF) :: u8"
  have arg: "drop_bit 8 v AND FAULT_ARG_MAX = drop_bit 8 v" and arg_le: "drop_bit 8 v \<le> FAULT_ARG_MAX"
  proof -
    show "drop_bit 8 v AND FAULT_ARG_MAX = drop_bit 8 v"
      unfolding arg_and_max by (rule bit_word_eqI) (auto simp: bit_simps dest: bit_imp_le_length)
    then show "drop_bit 8 v \<le> FAULT_ARG_MAX"
      by (metis word_and_le1)
  qed
  have zero: "?k = 0 \<longleftrightarrow> v AND 0xFF = 0"
    by (auto simp: and_0xFF word_unat_eq_iff unsigned_ucast_eq unsigned_take_bit_eq)
  have repack: "ucast ?k OR push_bit 8 (drop_bit 8 v AND FAULT_ARG_MAX) = v"
    unfolding arg by (rule split_word32)
  have rep: "fault_representable (FaultDecision_unpack v)"
    using arg_le unfolding FaultDecision_unpack_def Let_def fault_representable_def
    by (auto simp: word_le_nat_alt unat_eq_0 [symmetric] simp del: FAULT_ARG_MAX_def)
  have "FaultDecision_pack (FaultDecision_unpack v) = (if ?k = 0 then 0 else v)"
    unfolding FaultDecision_unpack_def Let_def FaultDecision_pack_def
    by (simp only: repack fault_decision.case split: if_split) simp
  with rep zero show ?thesis by simp
qed

end
