(* ===== verification/Host_Channel.thy ===== *)
theory Host_Channel
  imports Host_Guestmem Btree_Map Wire_Ports
begin

text \<open>
  The attached channel on the host side: \<^verbatim>\<open>crates/detguest-host/src/lib.rs\<close> and
  \<^verbatim>\<open>crates/detguest-host/src/channel.rs\<close>. The channel owns the guest memory handle, the validated
  header and the host-only state (interned names, pending inject queries, producer sequence numbers
  and metrics). Every mutation of channel memory is reported to a sink; the recording sink of the
  crate is the list of its operations, which the state-changing operations extend.

  The lemmas show that attaching accepts exactly the headers that validate, that the status word
  distinguishes an unreadable page from a bad header, and that checkpointed host state is restored
  exactly. The view of a ring inside the channel page (\<open>page_ring\<close>) connects the host's accesses to
  the ring theories.
\<close>

section \<open>Sink operations and errors\<close>

datatype sink_op = RingPush ring_id bytes u32 | ConsBump ring_id u32 | PioAnswer u16 u32

type_synonym sink = "sink_op list"

definition ring_push :: "ring_id \<Rightarrow> bytes \<Rightarrow> u32 \<Rightarrow> sink \<Rightarrow> sink" where
  "ring_push ring bytes new_prod ops = ops @ [RingPush ring bytes new_prod]"

definition cons_bump :: "ring_id \<Rightarrow> u32 \<Rightarrow> sink \<Rightarrow> sink" where
  "cons_bump ring new_cons ops = ops @ [ConsBump ring new_cons]"

definition pio_answer :: "u16 \<Rightarrow> u32 \<Rightarrow> sink \<Rightarrow> sink" where
  "pio_answer port value ops = ops @ [PioAnswer port value]"

datatype wire_error =
    WE_Mem mem_error | WE_Decode decode_error | WE_CorruptIndices ring_id | WE_SeqlockLivelock

datatype push_error = PE_RingFull | PE_Mem mem_error | PE_Encode encode_error

datatype region_read_error = RE_NameNotFound | RE_OutOfBounds | RE_Wire wire_error | RE_Mem mem_error

datatype attach_error =
    AE_BadMagic u64 | AE_BadVersion u32 | AE_RingOutOfBounds ring_id | AE_BadRingSize ring_id
  | AE_RingsOverlap | AE_Mem mem_error | AE_AlreadyAttached

definition AttachError_init_status :: "attach_error \<Rightarrow> init_status" where
  "AttachError_init_status e =
     (case e of AE_Mem _ \<Rightarrow> BadGpa | AE_AlreadyAttached \<Rightarrow> AlreadyAttached | _ \<Rightarrow> BadMagicVersion)"

section \<open>Channel state\<close>

text \<open>A \<open>String\<close> is its UTF-8 bytes.\<close>

record intern_entry =
  ie_name :: bytes
  ie_reachable_decl :: bool

record drop_counters =
  dc_ring_a_records :: u64
  dc_ring_a_bytes :: u64
  dc_ring_w_records :: u64
  dc_ring_w_bytes :: u64
  dc_ring_w_by_kind :: "u64 list"

record 'm channel =
  c_gm :: 'm
  c_base :: u64
  c_header :: channel_header
  c_interns :: "(u32, intern_entry) btmap"
  c_pending_injects :: "(u32, u32) btmap"
  c_next_seq_c :: u32
  c_next_seq_i :: u32
  c_unknown_kind_records :: u64
  c_unmatched_injects :: u64
  c_intern_redefinitions :: u64

record producer_seqs =
  ps_ring_c :: u32
  ps_ring_i :: u32

record intern_snapshot_entry =
  is_name_id :: u32
  is_name :: bytes
  is_reachable_decl :: bool

definition ring_index :: "ring_id \<Rightarrow> nat" where
  "ring_index r = unat (RingId_as_u8 r)"

definition attach_check_ring :: "channel_header \<Rightarrow> ring_id \<Rightarrow> (attach_error, unit) res" where
  "attach_check_ring header ring =
     bind_res (index (ch_ring_desc header) (ring_index ring)) (\<lambda>d.
     if rd_size d = 0 \<or> \<not> is_power_of_two (rd_size d) then Err (AE_BadRingSize ring)
     else if \<not> is_ok (RingDesc_validate d) then Err (AE_RingOutOfBounds ring)
     else Ok ())"

definition attach :: "'m guest_mem \<Rightarrow> 'm \<Rightarrow> u64 \<Rightarrow> (attach_error, 'm channel) res" where
  "attach ops gm base_gpa =
     bind_res (map_err AE_Mem (gm_read ops gm base_gpa OFF_RESERVED)) (\<lambda>hdr_bytes.
     case ChannelHeader_read_from hdr_bytes of
       Ok header \<Rightarrow>
         if ch_magic header \<noteq> CHANNEL_MAGIC then Err (AE_BadMagic (ch_magic header))
         else if ch_proto_version header \<noteq> PROTO_VERSION
         then Err (AE_BadVersion (ch_proto_version header))
         else bind_res (check_all (attach_check_ring header) RingId_ALL) (\<lambda>_.
              bind_res (check_all (\<lambda>(i, j).
                  bind_res (index (ch_ring_desc header) i) (\<lambda>a.
                  bind_res (index (ch_ring_desc header) j) (\<lambda>b.
                  if descs_overlap a b then Err AE_RingsOverlap else Ok ()))) (index_pairs 4)) (\<lambda>_.
              Ok \<lparr>c_gm = gm, c_base = base_gpa, c_header = header, c_interns = [],
                  c_pending_injects = [], c_next_seq_c = 0, c_next_seq_i = 0,
                  c_unknown_kind_records = 0, c_unmatched_injects = 0, c_intern_redefinitions = 0\<rparr>))
     | _ \<Rightarrow> Panic)"

definition Channel_producer_seqs :: "'m channel \<Rightarrow> producer_seqs" where
  "Channel_producer_seqs self = \<lparr>ps_ring_c = c_next_seq_c self, ps_ring_i = c_next_seq_i self\<rparr>"

definition restore_producer_seqs :: "producer_seqs \<Rightarrow> 'm channel \<Rightarrow> 'm channel" where
  "restore_producer_seqs seqs self =
     self\<lparr>c_next_seq_c := ps_ring_c seqs, c_next_seq_i := ps_ring_i seqs\<rparr>"

definition Channel_interns :: "'m channel \<Rightarrow> intern_snapshot_entry list" where
  "Channel_interns self =
     map (\<lambda>(id, e). \<lparr>is_name_id = id, is_name = ie_name e, is_reachable_decl = ie_reachable_decl e\<rparr>)
       (c_interns self)"

definition restore_interns :: "intern_snapshot_entry list \<Rightarrow> 'm channel \<Rightarrow> 'm channel" where
  "restore_interns entries self =
     self\<lparr>c_interns := bt_collect
       (map (\<lambda>e. (is_name_id e, \<lparr>ie_name = is_name e, ie_reachable_decl = is_reachable_decl e\<rparr>)) entries)\<rparr>"

definition Channel_pending_injects :: "'m channel \<Rightarrow> (u32 \<times> u32) list" where
  "Channel_pending_injects self = map (\<lambda>(iseq, name_id). (iseq, name_id)) (c_pending_injects self)"

definition restore_pending_injects :: "(u32 \<times> u32) list \<Rightarrow> 'm channel \<Rightarrow> 'm channel" where
  "restore_pending_injects entries self = self\<lparr>c_pending_injects := bt_collect entries\<rparr>"

definition Channel_ring_desc :: "'m channel \<Rightarrow> ring_id \<Rightarrow> ring_desc" where
  "Channel_ring_desc self ring = ch_ring_desc (c_header self) ! ring_index ring"

definition prod_gpa :: "'m channel \<Rightarrow> ring_id \<Rightarrow> u64" where
  "prod_gpa self ring = c_base self + of_nat (prod_offset ring)"

definition cons_gpa :: "'m channel \<Rightarrow> ring_id \<Rightarrow> u64" where
  "cons_gpa self ring = c_base self + of_nat (cons_offset ring)"

definition data_gpa :: "'m channel \<Rightarrow> ring_id \<Rightarrow> u64" where
  "data_gpa self ring = c_base self + ucast (rd_offset (Channel_ring_desc self ring))"

definition intern_name :: "'m channel \<Rightarrow> u32 \<Rightarrow> bytes option" where
  "intern_name self name_id = map_option ie_name (bt_get (c_interns self) name_id)"

definition declared_reachables :: "'m channel \<Rightarrow> u32 list" where
  "declared_reachables self = map fst (filter (\<lambda>(_, e). ie_reachable_decl e) (c_interns self))"

primrec read_kind_slots :: "'m guest_mem \<Rightarrow> 'm channel \<Rightarrow> nat \<Rightarrow> nat \<Rightarrow> (mem_error, u64 list) res" where
  "read_kind_slots ops self i 0 = Ok []"
| "read_kind_slots ops self i (Suc n) =
     bind_res (read_u64 ops (c_gm self) (c_base self + of_nat (OFF_RING_W_DROPPED_BY_KIND + i * 8))) (\<lambda>x.
     bind_res (read_kind_slots ops self (i + 1) n) (\<lambda>xs. Ok (x # xs)))"

definition Channel_drop_counters :: "'m guest_mem \<Rightarrow> 'm channel \<Rightarrow> (mem_error, drop_counters) res" where
  "Channel_drop_counters ops self =
     (let rd = (\<lambda>off. read_u64 ops (c_gm self) (c_base self + of_nat off))
      in bind_res (rd OFF_RING_A_DROPPED_RECORDS) (\<lambda>a_records.
         bind_res (rd OFF_RING_A_DROPPED_BYTES) (\<lambda>a_bytes.
         bind_res (rd OFF_RING_W_DROPPED_RECORDS) (\<lambda>w_records.
         bind_res (rd OFF_RING_W_DROPPED_BYTES) (\<lambda>w_bytes.
         bind_res (read_kind_slots ops self 0 16) (\<lambda>by_kind.
         Ok \<lparr>dc_ring_a_records = a_records, dc_ring_a_bytes = a_bytes, dc_ring_w_records = w_records,
             dc_ring_w_bytes = w_bytes, dc_ring_w_by_kind = by_kind\<rparr>))))))"

definition take_pending_inject :: "u32 \<Rightarrow> 'm channel \<Rightarrow> u32 option \<times> 'm channel" where
  "take_pending_inject iseq self =
     (bt_get (c_pending_injects self) iseq,
      self\<lparr>c_pending_injects := bt_remove iseq (c_pending_injects self)\<rparr>)"

section \<open>Attaching\<close>

lemma attach_rings_eq:
  assumes "length (ch_ring_desc h) = 4"
  shows "is_ok (check_all (attach_check_ring h) RingId_ALL) \<longleftrightarrow> list_all ring_placed (ch_ring_desc h)"
    and "check_all (attach_check_ring h) RingId_ALL \<noteq> Panic"
    and "check_all (attach_check_ring h) RingId_ALL = Err e \<Longrightarrow> AttachError_init_status e = BadMagicVersion"
proof -
  obtain a b c d where ds: "ch_ring_desc h = [a, b, c, d]"
    using assms by (auto simp: length_Suc_conv numeral_eq_Suc)
  have idx: "ring_index RingC = 0" "ring_index RingI = 1" "ring_index RingA = 2" "ring_index RingW = 3"
    by (simp_all add: ring_index_def RingId_as_u8_def)
  have chk: "attach_check_ring h r = Ok () \<longleftrightarrow> ring_placed (ch_ring_desc h ! ring_index r)"
    "attach_check_ring h r \<noteq> Panic"
    "attach_check_ring h r = Err e \<Longrightarrow> AttachError_init_status e = BadMagicVersion" for r e
    using is_power_of_two_pos [of "rd_size (ch_ring_desc h ! ring_index r)"]
    by (cases r; auto simp: attach_check_ring_def idx ds index_def desc_validate_eq ring_placed_def
        AttachError_init_status_def unat_eq_0 [symmetric] split: if_splits)+
  have "is_ok (check_all (attach_check_ring h) RingId_ALL) \<longleftrightarrow> check_all (attach_check_ring h) RingId_ALL = Ok ()"
    by (cases "check_all (attach_check_ring h) RingId_ALL") auto
  also have "\<dots> \<longleftrightarrow> list_all ring_placed (ch_ring_desc h)"
    unfolding check_all_Ok chk(1) by (auto simp: RingId_ALL_def idx ds)
  finally show "is_ok (check_all (attach_check_ring h) RingId_ALL) \<longleftrightarrow> list_all ring_placed (ch_ring_desc h)" .
  show "check_all (attach_check_ring h) RingId_ALL \<noteq> Panic"
    by (rule check_all_not_Panic) (rule chk(2))
  show "check_all (attach_check_ring h) RingId_ALL = Err e \<Longrightarrow> AttachError_init_status e = BadMagicVersion"
    by (auto dest!: check_all_Err intro: chk(3))
qed

lemma attach_pairs_eq:
  assumes "length ds = 4"
  shows "check_all (\<lambda>(i, j). bind_res (index ds i) (\<lambda>a. bind_res (index ds j) (\<lambda>b.
       if descs_overlap a b then Err AE_RingsOverlap else Ok ()))) (index_pairs 4)
   = (if sorted_wrt desc_disjoint ds then Ok () else Err AE_RingsOverlap)"
proof -
  obtain a b c d where ds: "ds = [a, b, c, d]"
    using assms by (auto simp: length_Suc_conv numeral_eq_Suc)
  have "index_pairs 4 = [(0, 1), (0, 2), (0, 3), (1, 2), (1, 3), (2, 3)]"
    by (simp add: index_pairs_def upt_rec)
  then show ?thesis
    by (simp add: ds index_def descs_overlap_eq)
qed

definition fresh_channel :: "'m \<Rightarrow> u64 \<Rightarrow> channel_header \<Rightarrow> 'm channel" where
  "fresh_channel gm base header =
     \<lparr>c_gm = gm, c_base = base, c_header = header, c_interns = [], c_pending_injects = [],
      c_next_seq_c = 0, c_next_seq_i = 0, c_unknown_kind_records = 0, c_unmatched_injects = 0,
      c_intern_redefinitions = 0\<rparr>"

lemma read_header_length: "ChannelHeader_read_from b = Ok h \<Longrightarrow> length (ch_ring_desc h) = 4"
  by (auto simp: read_header_eq split: if_splits)

lemma attach_header:
  assumes b: "gm_read ops gm base OFF_RESERVED = Ok b" and h: "ChannelHeader_read_from b = Ok h"
  shows "(attach ops gm base = Ok ch \<longleftrightarrow> ChannelHeader_validate h = Ok () \<and> ch = fresh_channel gm base h)
     \<and> attach ops gm base \<noteq> Panic
     \<and> (\<forall>e. attach ops gm base = Err e \<longrightarrow> AttachError_init_status e = BadMagicVersion)"
proof -
  have len: "length (ch_ring_desc h) = 4" by (rule read_header_length [OF h])
  note r = attach_rings_eq [OF len] and p = attach_pairs_eq [OF len]
  let ?c = "check_all (attach_check_ring h) RingId_ALL"
  have bad: "AttachError_init_status (AE_BadMagic x) = BadMagicVersion"
    "AttachError_init_status (AE_BadVersion y) = BadMagicVersion"
    "AttachError_init_status AE_RingsOverlap = BadMagicVersion" for x y
    by (simp_all add: AttachError_init_status_def)
  consider (ok) "?c = Ok ()" "list_all ring_placed (ch_ring_desc h)"
    | (err) e where "?c = Err e" "\<not> list_all ring_placed (ch_ring_desc h)"
    using r(1,2) by (cases ?c) auto
  then show ?thesis
  proof cases
    case ok
    then show ?thesis
      using b h p bad by (auto simp: attach_def header_validate_eq fresh_channel_def)
  next
    case (err e)
    then show ?thesis
      using b h r(3) [of e] bad by (auto simp: attach_def header_validate_eq)
  qed
qed

section \<open>Rings inside the page\<close>

definition page_ring :: "channel_header \<Rightarrow> bytes \<Rightarrow> ring_id \<Rightarrow> ring_mem" where
  "page_ring h page ring =
     (let d = ch_ring_desc h ! ring_index ring
      in \<lparr>rm_data = take (unat (rd_size d)) (drop (unat (rd_offset d)) page),
          rm_prod = le_at 4 page (prod_offset ring), rm_cons = le_at 4 page (cons_offset ring)\<rparr>)"

text \<open>An attached channel whose whole page is mapped, with the page's bytes.\<close>

definition attached :: "'m guest_mem \<Rightarrow> ('m \<Rightarrow> bool) \<Rightarrow> 'm channel \<Rightarrow> bytes \<Rightarrow> bool" where
  "attached ops minv ch page \<longleftrightarrow>
     minv (c_gm ch) \<and> gm_read ops (c_gm ch) (c_base ch) CHANNEL_SIZE = Ok page
     \<and> length (ch_ring_desc (c_header ch)) = 4 \<and> ChannelHeader_validate (c_header ch) = Ok ()"

lemma ring_index_less: "ring_index r < 4"
  by (cases r) (simp_all add: ring_index_def RingId_as_u8_def)

lemma ring_index_inj: "ring_index a = ring_index b \<longleftrightarrow> a = b"
  by (auto simp: ring_index_def word_unat_eq_iff [symmetric])

lemma cell_offsets:
  "prod_offset r + 4 \<le> 0x1000" "cons_offset r + 4 \<le> 0x1000" "0x100 \<le> prod_offset r" "0x100 \<le> cons_offset r"
  by (cases r; simp add: prod_offset_def cons_offset_def)+

lemma cell_disjoint:
  "prod_offset a \<noteq> cons_offset b \<and> (prod_offset a + 4 \<le> cons_offset b \<or> cons_offset b + 4 \<le> prod_offset a)"
  "a \<noteq> b \<Longrightarrow> prod_offset a + 4 \<le> prod_offset b \<or> prod_offset b + 4 \<le> prod_offset a"
  "a \<noteq> b \<Longrightarrow> cons_offset a + 4 \<le> cons_offset b \<or> cons_offset b + 4 \<le> cons_offset a"
  by (cases a; cases b; simp add: prod_offset_def cons_offset_def)+

lemma header_ring_placed:
  assumes "length (ch_ring_desc h) = 4" and "ChannelHeader_validate h = Ok ()"
  shows "ring_placed (ch_ring_desc h ! ring_index r)"
    and "a \<noteq> b \<Longrightarrow> desc_disjoint (ch_ring_desc h ! ring_index a) (ch_ring_desc h ! ring_index b)"
proof -
  have v: "list_all ring_placed (ch_ring_desc h)" "sorted_wrt desc_disjoint (ch_ring_desc h)"
    using assms(2) by (auto simp: header_validate_eq split: if_splits)
  show "ring_placed (ch_ring_desc h ! ring_index r)"
    using v(1) ring_index_less [of r] assms(1) by (simp add: list_all_length)
  assume "a \<noteq> b"
  then have "ring_index a < ring_index b \<or> ring_index b < ring_index a"
    using ring_index_inj [of a b] by linarith
  then show "desc_disjoint (ch_ring_desc h ! ring_index a) (ch_ring_desc h ! ring_index b)"
    using v(2) ring_index_less assms(1) by (auto simp: sorted_wrt_iff_nth_less desc_disjoint_def)
qed

lemma cells_below: "ring_placed d \<Longrightarrow> prod_offset r + 4 \<le> unat (rd_offset d) \<and> cons_offset r + 4 \<le> unat (rd_offset d)"
  using cell_offsets [of r] by (auto simp: ring_placed_def)

text \<open>A store into one ring's data area, or into one index cell, changes that ring's view only.\<close>

lemma page_ring_data:
  assumes h: "length (ch_ring_desc h) = 4" "ChannelHeader_validate h = Ok ()"
    and page: "length page = CHANNEL_SIZE" and d: "d = ch_ring_desc h ! ring_index r"
    and i: "i + length src \<le> unat (rd_size d)"
  shows "page_ring h (patch page (unat (rd_offset d) + i) src) r
       = (page_ring h page r)\<lparr>rm_data := patch (rm_data (page_ring h page r)) i src\<rparr>"
    and "a \<noteq> r \<Longrightarrow> page_ring h (patch page (unat (rd_offset d) + i) src) a = page_ring h page a"
proof -
  have pl: "ring_placed d" using header_ring_placed(1) [OF h] d by simp
  then have fit: "unat (rd_offset d) + unat (rd_size d) \<le> length page" by (simp add: ring_placed_def page)
  have c: "prod_offset x + 4 \<le> unat (rd_offset d)" "cons_offset x + 4 \<le> unat (rd_offset d)" for x
    using cells_below [OF pl] by simp_all
  have cell: "le_at 4 (patch page (unat (rd_offset d) + i) src) (prod_offset x) = (le_at 4 page (prod_offset x) :: u32)"
    "le_at 4 (patch page (unat (rd_offset d) + i) src) (cons_offset x) = (le_at 4 page (cons_offset x) :: u32)" for x
    using c [of x] fit i by (auto intro!: le_at_patch_before)
  show "page_ring h (patch page (unat (rd_offset d) + i) src) r
       = (page_ring h page r)\<lparr>rm_data := patch (rm_data (page_ring h page r)) i src\<rparr>"
    using window_patch [OF i fit] by (simp add: page_ring_def Let_def d [symmetric] cell)
  assume "a \<noteq> r"
  then have dj: "desc_disjoint (ch_ring_desc h ! ring_index a) d"
    using header_ring_placed(2) [OF h, of a r] d by simp
  let ?e = "ch_ring_desc h ! ring_index a"
  have "take (unat (rd_size ?e)) (drop (unat (rd_offset ?e)) (patch page (unat (rd_offset d) + i) src))
      = take (unat (rd_size ?e)) (drop (unat (rd_offset ?e)) page)"
    using dj unfolding desc_disjoint_def
  proof
    assume "unat (rd_offset ?e) + unat (rd_size ?e) \<le> unat (rd_offset d)"
    then show ?thesis using fit i by (intro take_drop_patch_before) auto
  next
    assume "unat (rd_offset d) + unat (rd_size d) \<le> unat (rd_offset ?e)"
    then show ?thesis using fit i by (intro take_drop_patch_after) auto
  qed
  then show "page_ring h (patch page (unat (rd_offset d) + i) src) a = page_ring h page a"
    by (simp add: page_ring_def Let_def cell)
qed

lemma page_ring_cells:
  assumes h: "length (ch_ring_desc h) = 4" "ChannelHeader_validate h = Ok ()"
    and page: "length page = CHANNEL_SIZE"
  shows "page_ring h (patch page (prod_offset r) (to_le_bytes 4 v)) a
       = (if a = r then (page_ring h page a)\<lparr>rm_prod := v\<rparr> else page_ring h page a)"
    and "page_ring h (patch page (cons_offset r) (to_le_bytes 4 v)) a
       = (if a = r then (page_ring h page a)\<lparr>rm_cons := v\<rparr> else page_ring h page a)"
proof -
  let ?d = "ch_ring_desc h ! ring_index a"
  have pl: "ring_placed ?d" by (rule header_ring_placed(1) [OF h])
  have len: "prod_offset x + 4 \<le> length page" "cons_offset x + 4 \<le> length page" for x
    using cell_offsets [of x] by (simp_all add: page)
  have dat: "take n (drop (unat (rd_offset ?d)) (patch page (prod_offset r) (to_le_bytes 4 v)))
       = take n (drop (unat (rd_offset ?d)) page)"
    "take n (drop (unat (rd_offset ?d)) (patch page (cons_offset r) (to_le_bytes 4 v)))
       = take n (drop (unat (rd_offset ?d)) page)" for n
    using cells_below [OF pl, of r] len [of r] by (auto intro!: take_drop_patch_after)
  have same: "le_at 4 (patch page (prod_offset r) (to_le_bytes 4 v)) (prod_offset r) = v"
    "le_at 4 (patch page (cons_offset r) (to_le_bytes 4 v)) (cons_offset r) = v"
    using len [of r] by (simp_all add: le_at_patch_same)
  have other: "le_at 4 (patch page i (to_le_bytes 4 v)) j = (le_at 4 page j :: u32)"
    if "i + 4 \<le> length page" "i + 4 \<le> j \<or> j + 4 \<le> i" for i j
    using that by (elim disjE) (auto intro: le_at_patch_before le_at_patch_after)
  show "page_ring h (patch page (prod_offset r) (to_le_bytes 4 v)) a
       = (if a = r then (page_ring h page a)\<lparr>rm_prod := v\<rparr> else page_ring h page a)"
    using other [OF len(1) [of r], of "prod_offset a"] other [OF len(1) [of r], of "cons_offset a"]
      cell_disjoint(1) [of r a] cell_disjoint(2) [of r a] same(1)
    by (auto simp: page_ring_def Let_def dat)
  show "page_ring h (patch page (cons_offset r) (to_le_bytes 4 v)) a
       = (if a = r then (page_ring h page a)\<lparr>rm_cons := v\<rparr> else page_ring h page a)"
    using other [OF len(2) [of r], of "prod_offset a"] other [OF len(2) [of r], of "cons_offset a"]
      cell_disjoint(1) [of a r] cell_disjoint(3) [of r a] same(2)
    by (auto simp: page_ring_def Let_def dat)
qed

lemma page_ring_size:
  assumes "length (ch_ring_desc h) = 4" "ChannelHeader_validate h = Ok ()" "length page = CHANNEL_SIZE"
  shows "length (rm_data (page_ring h page r)) = unat (rd_size (ch_ring_desc h ! ring_index r))"
  using header_ring_placed(1) [OF assms(1,2), of r] assms(3)
  by (auto simp: page_ring_def Let_def ring_placed_def)

section \<open>A fresh channel over the mock memory\<close>

definition zero_page :: bytes where
  "zero_page = channel_header_bytes ChannelHeader_canonical @ replicate (CHANNEL_SIZE - OFF_RESERVED) 0"

definition page_mem :: "bytes \<Rightarrow> mock_guest_mem" where
  "page_mem page = [\<lparr>seg_base = 0x10000000, seg_data = page\<rparr>]"

definition mock_channel :: "bytes \<Rightarrow> mock_guest_mem channel" where
  "mock_channel page = fresh_channel (page_mem page) 0x10000000 ChannelHeader_canonical"

lemma canonical_descs: "length (ch_ring_desc ChannelHeader_canonical) = 4"
  by (simp add: ChannelHeader_canonical_def)

lemma canonical_ring: "ch_ring_desc ChannelHeader_canonical ! ring_index r = canonical_desc r"
  "rd_size (canonical_desc RingC) = 0x4000" "rd_size (canonical_desc RingI) = 0x4000"
  "rd_size (canonical_desc RingA) = 0x10000" "rd_size (canonical_desc RingW) = 0x100000"
  by (cases r; simp add: ChannelHeader_canonical_def ring_index_def RingId_as_u8_def)
     (simp_all add: canonical_desc_def)

lemma length_canonical_bytes: "length (channel_header_bytes ChannelHeader_canonical) = 48"
  using canonical_descs by (simp add: channel_header_bytes_def)

lemma length_zero_page: "length zero_page = CHANNEL_SIZE"
  by (simp add: zero_page_def length_canonical_bytes)

lemma page_mem_inv: "length page = CHANNEL_SIZE \<Longrightarrow> mock_inv (page_mem page)"
  by (simp add: page_mem_def mock_inv_def seg_fits_def)

lemma page_mem_read:
  assumes "length page = CHANNEL_SIZE"
  shows "gm_read mock_ops (page_mem page) 0x10000000 CHANNEL_SIZE = Ok page"
proof -
  have "mock_read (page_mem page) 0x10000000 CHANNEL_SIZE = Ok (seg_window (page_mem page ! 0) 0x10000000 CHANNEL_SIZE)"
    using assms by (intro mock_read_eq [OF page_mem_inv]) (simp_all add: page_mem_def covers_def)
  then show ?thesis using assms by (simp add: mock_ops_def seg_window_def page_mem_def)
qed

lemma mock_channel_attached:
  assumes "length page = CHANNEL_SIZE"
  shows "attached mock_ops mock_inv (mock_channel page) page"
  using assms page_mem_inv page_mem_read canonical_valid canonical_descs
  by (simp add: attached_def mock_channel_def fresh_channel_def)

lemma from_le_zeros: "from_le_bytes (replicate n 0) = 0"
  by (induction n) simp_all

lemma zero_page_ring:
  "page_ring ChannelHeader_canonical zero_page r =
     \<lparr>rm_data = replicate (unat (rd_size (ch_ring_desc ChannelHeader_canonical ! ring_index r))) 0, rm_prod = 0, rm_cons = 0\<rparr>"
proof -
  let ?d = "ch_ring_desc ChannelHeader_canonical ! ring_index r"
  have pl: "ring_placed ?d" by (rule header_ring_placed(1) [OF canonical_descs canonical_valid])
  have win: "take n (drop i zero_page) = replicate n 0" if "48 \<le> i" "i + n \<le> CHANNEL_SIZE" for i n
    using that by (auto simp: zero_page_def length_canonical_bytes)
  have "take (unat (rd_size ?d)) (drop (unat (rd_offset ?d)) zero_page) = replicate (unat (rd_size ?d)) 0"
    using pl by (intro win) (auto simp: ring_placed_def)
  moreover have "le_at 4 zero_page (prod_offset r) = (0 :: u32)" "le_at 4 zero_page (cons_offset r) = (0 :: u32)"
    using cell_offsets [of r] by (simp_all add: le_at_def win from_le_zeros)
  ultimately show ?thesis by (simp add: page_ring_def Let_def)
qed

section \<open>Properties\<close>

text \<open>
  Attaching is exact: it succeeds precisely when the header bytes can be read and the header
  validates, and then yields the channel over that header with empty host state; it never panics, and
  when it fails the status word tells an unreadable header (\<open>BadGpa\<close>) from a header that does not
  validate (\<open>BadMagicVersion\<close>).
\<close>

theorem attach_exact:
  assumes "guest_memory ops minv" and "minv gm"
  shows "(attach ops gm base = Ok ch \<longleftrightarrow>
        (\<exists>b h. gm_read ops gm base OFF_RESERVED = Ok b \<and> ChannelHeader_read_from b = Ok h
           \<and> ChannelHeader_validate h = Ok () \<and> ch = fresh_channel gm base h))
     \<and> attach ops gm base \<noteq> Panic
     \<and> (\<forall>e. attach ops gm base = Err e \<longrightarrow>
          AttachError_init_status e = (if is_ok (gm_read ops gm base OFF_RESERVED) then BadMagicVersion else BadGpa))"
proof (cases "gm_read ops gm base OFF_RESERVED")
  case (Ok b)
  have "length b = 48" using guest_memory.read_length [OF assms Ok] by simp
  then obtain h where h: "ChannelHeader_read_from b = Ok h" by (simp add: read_header_eq)
  then show ?thesis
    using attach_header [OF Ok h, of ch] Ok by auto
next
  case (Err e)
  then show ?thesis by (auto simp: attach_def AttachError_init_status_def)
next
  case Panic
  then show ?thesis using guest_memory.read_total [OF assms, of base OFF_RESERVED] by blast
qed

theorem attach_exact_witness:
  "let gm = [\<lparr>seg_base = 0x10000000, seg_data = channel_header_bytes ChannelHeader_canonical\<rparr>]
   in attach mock_ops gm 0x10000000 = Ok (fresh_channel gm 0x10000000 ChannelHeader_canonical)
    \<and> (case attach mock_ops gm 0x20000000 of Err e \<Rightarrow> AttachError_init_status e = BadGpa | _ \<Rightarrow> False)"
proof -
  let ?b = "channel_header_bytes ChannelHeader_canonical"
  let ?gm = "[\<lparr>seg_base = 0x10000000, seg_data = ?b\<rparr>]"
  note len = canonical_descs and lb = length_canonical_bytes
  have inv: "mock_inv ?gm" by (simp add: mock_inv_def seg_fits_def lb)
  have "mock_read ?gm 0x10000000 48 = Ok (seg_window (?gm ! 0) 0x10000000 48)"
    by (rule mock_read_eq [OF inv]) (simp_all add: covers_def lb)
  then have rd: "gm_read mock_ops ?gm 0x10000000 OFF_RESERVED = Ok ?b"
    by (simp add: mock_ops_def seg_window_def lb)
  have un: "gm_read mock_ops ?gm 0x20000000 OFF_RESERVED = Err (Unmapped 0x20000000 48)"
    by (simp add: mock_ops_def mock_read_def locate_def checked_add_def seg_end_def lb)
  have h: "ChannelHeader_read_from ?b = Ok ChannelHeader_canonical"
    using read_header_written [OF len, of "[]"] by simp
  have v: "ChannelHeader_validate ChannelHeader_canonical = Ok ()" by (rule canonical_valid)
  show ?thesis
    using attach_exact [OF mock.guest_memory_axioms inv, of "0x10000000" "fresh_channel ?gm 0x10000000 ChannelHeader_canonical"]
      attach_exact [OF mock.guest_memory_axioms inv, of "0x20000000"] rd h v un
    by (auto simp: Let_def split: res.splits)
qed

text \<open>
  C34. Checkpointing loses no host state: exporting the producer sequence numbers, the intern map and
  the pending-inject table of a channel and restoring them into a freshly attached one gives a
  channel with exactly those sequence numbers, names and pending queries; only the warning metrics
  start again at zero.
\<close>

theorem checkpoint_round_trip:
  assumes "bt_wf (c_interns ch)" and "bt_wf (c_pending_injects ch)"
  shows "restore_pending_injects (Channel_pending_injects ch)
       (restore_interns (Channel_interns ch)
         (restore_producer_seqs (Channel_producer_seqs ch) (fresh_channel gm base h)))
     = ch\<lparr>c_gm := gm, c_base := base, c_header := h, c_unknown_kind_records := 0,
          c_unmatched_injects := 0, c_intern_redefinitions := 0\<rparr>"
proof -
  have "map (\<lambda>e. (is_name_id e, \<lparr>ie_name = is_name e, ie_reachable_decl = is_reachable_decl e\<rparr>)) (Channel_interns ch)
      = c_interns ch"
    by (auto simp: Channel_interns_def comp_def case_prod_beta prod_eq_iff intro!: map_idI intern_entry.equality)
  then have i: "bt_collect (map (\<lambda>e. (is_name_id e, \<lparr>ie_name = is_name e, ie_reachable_decl = is_reachable_decl e\<rparr>))
      (Channel_interns ch)) = c_interns ch"
    using btmap.collect_entries [OF assms(1)] by (simp add: bt_collect_eq)
  have "Channel_pending_injects ch = c_pending_injects ch"
    by (simp add: Channel_pending_injects_def case_prod_beta map_idI)
  then have p: "bt_collect (Channel_pending_injects ch) = c_pending_injects ch"
    using btmap.collect_entries [OF assms(2)] by (simp add: bt_collect_eq)
  show ?thesis
    by (simp add: restore_pending_injects_def restore_interns_def restore_producer_seqs_def i p
        Channel_producer_seqs_def fresh_channel_def)
qed

theorem checkpoint_round_trip_witness:
  "let ch = (fresh_channel () 0 ChannelHeader_canonical)
       \<lparr>c_interns := [(1, \<lparr>ie_name = [0x61], ie_reachable_decl = True\<rparr>), (7, \<lparr>ie_name = [0x62], ie_reachable_decl = False\<rparr>)],
        c_pending_injects := [(3, 7)], c_next_seq_c := 5\<rparr>
   in restore_pending_injects (Channel_pending_injects ch)
       (restore_interns (Channel_interns ch)
         (restore_producer_seqs (Channel_producer_seqs ch) (fresh_channel () 0 ChannelHeader_canonical))) = ch"
  unfolding Let_def
  by (subst checkpoint_round_trip) (simp_all add: bt_wf_def fresh_channel_def)

end
