(* ===== verification/Host_Commands.thy ===== *)
theory Host_Commands
  imports Host_Channel Ring_Fifo
begin

text \<open>
  The host as a ring producer: \<^verbatim>\<open>crates/detguest-host/src/commands.rs\<close>. Commands go to ring C,
  workload-control records to ring I. Operations return their result together with the channel and
  the sink they leave, because an access that fails midway leaves the earlier stores behind.

  The lemmas show that on any mapped channel page, whatever the guest wrote into the indices, a push
  stays inside its own ring, never panics and reports exactly one mutation when it succeeds; and that
  on a ring that represents a queue it is the producer half of the wire crate.
\<close>

section \<open>Operations\<close>

text \<open>Consecutive stores, each followed by \<open>?\<close>: the first failure stops, earlier stores remain.\<close>

primrec gm_writes :: "'m guest_mem \<Rightarrow> (u64 \<times> bytes) list \<Rightarrow> 'm \<Rightarrow> (mem_error, unit) res \<times> 'm" where
  "gm_writes ops [] m = (Ok (), m)"
| "gm_writes ops (w # ws) m =
     (case gm_write ops m (fst w) (snd w) of
        Ok m' \<Rightarrow> gm_writes ops ws m'
      | Err e \<Rightarrow> (Err e, m)
      | Panic \<Rightarrow> (Panic, m))"

text \<open>The scratch span: tail pad (if any) and record, the record's place in it and the next seq.\<close>

definition push_span ::
  "u32 \<Rightarrow> nat \<Rightarrow> u32 \<Rightarrow> u32 \<Rightarrow> (bytes \<Rightarrow> u32 \<Rightarrow> (push_error, bytes \<times> nat) res) \<Rightarrow> u32
    \<Rightarrow> (push_error, bytes \<times> nat \<times> u32) res" where
  "push_span needed total_len prd sz encode seq =
     bind_res
       (let span = replicate (unat needed) 0
        in if needed > of_nat total_len
           then let tail = unat (contiguous_tail prd sz)
                in bind_res (slice span 0 tail) (\<lambda>dst.
                   bind_res (map_err PE_Encode (encode_pad dst tail seq)) (\<lambda>(dst, _).
                   bind_res (put_slice span 0 tail dst) (\<lambda>span.
                   Ok (span, tail, seq + 1))))
           else Ok (span, 0, seq)) (\<lambda>(span, record_at, seq).
     bind_res (slice span record_at (record_at + total_len)) (\<lambda>dst.
     bind_res (encode dst seq) (\<lambda>(dst, n).
     bind_res (put_slice span record_at (record_at + total_len) dst) (\<lambda>span.
     Ok (span, record_at, seq + 1)))))"

text \<open>\<open>push_record\<close>; the callers discard the sequence number of a push that failed.\<close>

definition push_record ::
  "'m guest_mem \<Rightarrow> ring_id \<Rightarrow> nat \<Rightarrow> (bytes \<Rightarrow> u32 \<Rightarrow> (push_error, bytes \<times> nat) res) \<Rightarrow> u32
    \<Rightarrow> 'm channel \<Rightarrow> sink \<Rightarrow> (push_error, nat \<times> u32) res \<times> 'm channel \<times> sink" where
  "push_record ops ring total_len encode seq self sink =
     (let desc = Channel_ring_desc self ring; sz = rd_size desc; msk = sz - 1; data = data_gpa self ring
      in case bind_res (map_err PE_Mem (read_u32 ops (c_gm self) (prod_gpa self ring))) (\<lambda>prd.
              bind_res (map_err PE_Mem (read_u32 ops (c_gm self) (cons_gpa self ring))) (\<lambda>cons.
              let needed = bytes_needed prd sz (of_nat total_len)
              in if free prd cons sz < needed then Err PE_RingFull
                 else bind_res (push_span needed total_len prd sz encode seq) (\<lambda>(span, record_at, seq).
                      Ok (prd, needed, span, record_at, seq)))) of
           Err e \<Rightarrow> (Err e, self, sink)
         | Panic \<Rightarrow> (Panic, self, sink)
         | Ok (prd, needed, span, record_at, seq) \<Rightarrow>
             (let pos = (if record_at > 0 then prd + of_nat record_at else prd);
                  new_prod = prd + needed;
                  pad = (if record_at > 0 then [(data + ucast (prd AND msk), take record_at span)] else []);
                  (r, gm) = gm_writes ops
                    (pad @ [(data + ucast (pos AND msk), drop record_at span),
                            (prod_gpa self ring, to_le_bytes 4 new_prod)]) (c_gm self);
                  self = self\<lparr>c_gm := gm\<rparr>
              in case r of
                   Ok _ \<Rightarrow> (Ok (total_len, seq), self, ring_push ring span new_prod sink)
                 | Err e \<Rightarrow> (Err (PE_Mem e), self, sink)
                 | Panic \<Rightarrow> (Panic, self, sink)))"

definition push_command ::
  "'m guest_mem \<Rightarrow> command \<Rightarrow> 'm channel \<Rightarrow> sink \<Rightarrow> (push_error, unit) res \<times> 'm channel \<times> sink" where
  "push_command ops cmd self sink =
     (let payload_len = (case cmd of Cmd_Quiesce _ _ \<Rightarrow> 16 | Cmd_ReverifyRegions \<Rightarrow> 0 | _ \<Rightarrow> 8);
          (r, self, sink) = push_record ops RingC (record_len payload_len)
            (\<lambda>buf s. map_err PE_Encode (encode_command buf s cmd)) (c_next_seq_c self) self sink
      in case r of
           Ok (_, seq) \<Rightarrow> (Ok (), self\<lparr>c_next_seq_c := seq\<rparr>, sink)
         | Err e \<Rightarrow> (Err e, self, sink)
         | Panic \<Rightarrow> (Panic, self, sink))"

definition push_workload_ctrl ::
  "'m guest_mem \<Rightarrow> workload_ctrl \<Rightarrow> 'm channel \<Rightarrow> sink \<Rightarrow> (push_error, unit) res \<times> 'm channel \<times> sink" where
  "push_workload_ctrl ops rec self sink =
     (let (r, self, sink) = push_record ops RingI (record_len 8)
            (\<lambda>buf s. map_err PE_Encode (encode_workload_ctrl buf s 0 rec)) (c_next_seq_i self) self sink
      in case r of
           Ok (_, seq) \<Rightarrow> (Ok (), self\<lparr>c_next_seq_i := seq\<rparr>, sink)
         | Err e \<Rightarrow> (Err e, self, sink)
         | Panic \<Rightarrow> (Panic, self, sink))"

section \<open>Index arithmetic on rings of any size\<close>

text \<open>Attaching only requires a power of two, so these do not assume a minimum ring size.\<close>

lemma pow2_small:
  assumes "is_power_of_two (sz :: u32)"
  shows "0 < unat sz" "unat sz \<le> 2 ^ 31"
proof -
  from assms obtain k where "k < 32" "unat sz = 2 ^ k" by (auto simp: is_power_of_two_iff)
  then show "0 < unat sz" "unat sz \<le> 2 ^ 31"
    using power_increasing [of k 31 "2 :: nat"] by simp_all
qed

lemma any_tail:
  assumes "is_power_of_two sz"
  shows "unat (contiguous_tail prd sz) = unat sz - unat prd mod unat sz"
proof -
  have "unat (prd AND (sz - 1)) < unat sz"
    using pow2_small(1) [OF assms] by (simp add: unat_and_mask_pow2 [OF assms])
  then show ?thesis
    by (simp add: contiguous_tail_def unat_sub_word word_le_nat_alt unat_and_mask_pow2 [OF assms])
qed

lemma any_needed:
  assumes "is_power_of_two sz" and "len \<le> 4096"
  shows "unat (bytes_needed prd sz (of_nat len)) = pad_len (unat sz) (unat prd) len + len"
proof -
  have l: "unat (of_nat len :: u32) = len" using assms by (simp add: unat_of_nat)
  have "unat sz - unat prd mod unat sz + len < 2 ^ 32"
    using assms pow2_small(2) [OF assms(1)] by simp
  then show ?thesis
    using any_tail [OF assms(1), of prd] l
    by (auto simp: bytes_needed_def Let_def pad_len_def word_less_nat_alt unat_add_no_wrap)
qed

lemma any_free: "unat (free prd cons sz) = unat sz - unat (used prd cons)"
  by (auto simp: free_def saturating_sub_def word_le_nat_alt unat_sub_word)

lemma any_window:
  assumes "is_power_of_two (sz :: u32)" and "pad_len (unat sz) p len + len \<le> unat sz"
  shows "(p + pad_len (unat sz) p len) mod unat sz + len \<le> unat sz"
    and "p mod unat sz + pad_len (unat sz) p len \<le> unat sz"
proof -
  let ?s = "unat sz"
  have s: "p mod ?s < ?s" using pow2_small(1) [OF assms(1)] by simp
  have "(p + (?s - p mod ?s)) mod ?s = (p mod ?s + (?s - p mod ?s)) mod ?s" by (simp only: mod_add_left_eq)
  also have "\<dots> = 0" using s by simp
  finally have "(p + (?s - p mod ?s)) mod ?s = 0" .
  then show "(p + pad_len ?s p len) mod ?s + len \<le> ?s" "p mod ?s + pad_len ?s p len \<le> ?s"
    using s assms(2) by (auto simp: pad_len_def)
qed

lemma any_mod:
  assumes "is_power_of_two (sz :: u32)"
  shows "unat (prd + of_nat n :: u32) mod unat sz = (unat prd + n) mod unat sz"
proof -
  from assms obtain k where k: "k < 32" "unat sz = 2 ^ k" by (auto simp: is_power_of_two_iff)
  have "unat sz dvd 2 ^ 32" unfolding k(2) using k(1) by (intro le_imp_power_dvd) simp
  then have "(unat prd + n) mod 2 ^ 32 mod unat sz = (unat prd + n) mod unat sz" by (rule mod_mod_cancel)
  moreover have "unat (prd + of_nat n :: u32) = (unat prd + n) mod 2 ^ 32"
    by (simp add: unat_word_ariths unat_of_nat mod_simps)
  ultimately show ?thesis by simp
qed

section \<open>Pushing on any mapped page\<close>

lemma encode_pad_short:
  assumes "0 < t" "t < 8" "length buf = t"
  shows "encode_pad buf t seq = Panic"
proof -
  have "unat (of_nat t :: u16) = t" using assms by (simp add: unat_pad_len)
  with assms show ?thesis
    by (auto simp: encode_pad_def RecordHeader_write_to_def Let_def put_le_def put_slice_def)
qed

text \<open>The span of a push: pads and record, back to back.\<close>

definition span_bytes :: "nat \<Rightarrow> nat \<Rightarrow> u32 \<Rightarrow> bytes \<Rightarrow> bytes" where
  "span_bytes s P seq r = concat (pads s P (length r) seq @ [r])"

lemma push_span_eq:
  assumes sz: "is_power_of_two sz" and len: "0 < len" "len \<le> 4096"
    and n: "n = pad_len (unat sz) (unat prd) len"
    and seq': "seq' = record_seq (unat sz) (unat prd) len seq"
    and enc: "\<And>dst. length dst = len \<Longrightarrow> encode dst seq' = Ok (r, k)" and r: "length r = len"
  shows "push_span (bytes_needed prd sz (of_nat len)) len prd sz encode seq =
     (if 0 < n \<and> n < 8 then Panic
      else Ok (span_bytes (unat sz) (unat prd) seq r, n, seq' + 1))"
proof -
  have nd: "unat (bytes_needed prd sz (of_nat len)) = n + len" using any_needed [OF sz len(2)] n by simp
  have l: "unat (of_nat len :: u32) = len" using len by (simp add: unat_of_nat)
  have more: "of_nat len < bytes_needed prd sz (of_nat len) \<longleftrightarrow> 0 < n"
    unfolding word_less_nat_alt nd l by simp
  have tail: "0 < n \<Longrightarrow> unat (contiguous_tail prd sz) = n" and nl: "n < len"
    using any_tail [OF sz, of prd] n len by (auto simp: pad_len_def split: if_splits)
  consider "n = 0" | "0 < n" "n < 8" | "8 \<le> n" by linarith
  then show ?thesis
  proof cases
    case 1
    then show ?thesis
      using enc [of "replicate len 0"] n r seq'
      by (simp add: push_span_def more nd res_simps patch_whole span_bytes_def pads_def record_seq_def)
  next
    case 2
    then show ?thesis
      using tail by (simp add: push_span_def more nd res_simps encode_pad_short Let_def)
  next
    case 3
    have pr: "length (pad_record n seq) = n"
      using 3 nl len(2) by (intro length_pad_record) auto
    have "encode_pad (replicate n 0) n seq = Ok (pad_record n seq, n)"
      using 3 nl len encode_pad_eq [of n "replicate n 0" seq] pr by (simp add: patch_whole)
    moreover have "patch (replicate (n + len) 0) 0 (pad_record n seq) = pad_record n seq @ replicate len 0"
      using pr by (simp add: patch_def)
    moreover have "patch (pad_record n seq @ replicate len 0) n r = pad_record n seq @ r"
      using pr r by (simp add: patch_def)
    ultimately show ?thesis
      using 3 tail enc [of "replicate len 0"] n r pr seq'
      by (simp add: push_span_def more nd res_simps Let_def span_bytes_def pads_def record_seq_def)
  qed
qed

lemma span_split:
  assumes n: "n = pad_len s P (length r)" and "length r \<le> 4096" and "n = 0 \<or> 8 \<le> n"
  shows "map f (pads s P (length r) seq) = (if 0 < n then [f (take n (span_bytes s P seq r))] else [])"
    and "drop n (span_bytes s P seq r) = r" and "0 < n \<Longrightarrow> length (take n (span_bytes s P seq r)) = n"
    and "length (span_bytes s P seq r) = n + length r"
proof -
  have "n < length r \<or> n = 0" using n by (auto simp: pad_len_def)
  then have "0 < n \<Longrightarrow> length (pad_record n seq) = n" using assms(2,3) by (intro length_pad_record) auto
  then show "map f (pads s P (length r) seq) = (if 0 < n then [f (take n (span_bytes s P seq r))] else [])"
    "drop n (span_bytes s P seq r) = r" "0 < n \<Longrightarrow> length (take n (span_bytes s P seq r)) = n"
    "length (span_bytes s P seq r) = n + length r"
    by (auto simp: span_bytes_def pads_def n [symmetric])
qed

text \<open>The stores of a successful push, relative to the page.\<close>

definition push_stores :: "ring_desc \<Rightarrow> ring_id \<Rightarrow> u32 \<Rightarrow> u32 \<Rightarrow> bytes \<Rightarrow> (nat \<times> bytes) list" where
  "push_stores d ring prd seq r =
     (let s = unat (rd_size d); P = unat prd; n = pad_len s P (length r)
      in map (\<lambda>p. (unat (rd_offset d) + P mod s, p)) (pads s P (length r) seq)
         @ [(unat (rd_offset d) + (P + n) mod s, r), (prod_offset ring, to_le_bytes 4 (prd + of_nat (n + length r)))])"

lemma push_stores_inside:
  assumes "ring_placed d" and n: "n = pad_len (unat (rd_size d)) (unat prd) (length r)"
    and "length r \<le> 4096" and "n = 0 \<or> 8 \<le> n" and "n + length r \<le> unat (rd_size d)"
  shows "list_all (\<lambda>(i, src). i + length src \<le> CHANNEL_SIZE) (push_stores d ring prd seq r)"
proof -
  have sz: "is_power_of_two (rd_size d)" and fit: "unat (rd_offset d) + unat (rd_size d) \<le> CHANNEL_SIZE"
    using assms(1) by (auto simp: ring_placed_def)
  note w = any_window [OF sz, of "unat prd" "length r", folded n, OF assms(5)]
  note sp = span_split [OF n assms(3,4)]
  show ?thesis
    using w fit sp(3) [of seq] cell_offsets(1) [of ring]
    by (auto simp: push_stores_def Let_def sp(1) n [symmetric])
qed

text \<open>They lie in the ring's data or are the producer index.\<close>

lemma push_stores_ring:
  assumes "ring_placed d" and n: "n = pad_len (unat (rd_size d)) (unat prd) (length r)"
    and "length r \<le> 4096" and "n = 0 \<or> 8 \<le> n" and "n + length r \<le> unat (rd_size d)"
  shows "list_all (\<lambda>(i, src). unat (rd_offset d) \<le> i \<and> i + length src \<le> unat (rd_offset d) + unat (rd_size d)
      \<or> i = prod_offset ring \<and> length src = 4) (push_stores d ring prd seq r)"
proof -
  have sz: "is_power_of_two (rd_size d)" using assms(1) by (simp add: ring_placed_def)
  note w = any_window [OF sz, of "unat prd" "length r", folded n, OF assms(5)] and sp = span_split [OF n assms(3,4)]
  show ?thesis
    using w sp(3) [of seq] by (auto simp: push_stores_def Let_def sp(1) n [symmetric])
qed

text \<open>Stores inside a mapped window are stores into its bytes.\<close>

definition apply_stores :: "(nat \<times> bytes) list \<Rightarrow> bytes \<Rightarrow> bytes" where
  "apply_stores ws page = fold (\<lambda>(i, src) p. patch p i src) ws page"

text \<open>Bytes outside the stores stay.\<close>

lemma nth_apply_stores:
  assumes "list_all (\<lambda>(i, src). i + length src \<le> length page) ws" and "list_all (\<lambda>(i, src). k < i \<or> i + length src \<le> k) ws"
    and "k < length page"
  shows "apply_stores ws page ! k = page ! k"
  using assms
proof (induction ws arbitrary: page)
  case (Cons w ws)
  obtain i src where w: "w = (i, src)" by (cases w)
  have i: "i + length src \<le> length page" "k < i \<or> i + length src \<le> k" using Cons.prems(1,2) by (simp_all add: w)
  have "apply_stores ws (patch page i src) ! k = patch page i src ! k"
    using Cons.prems i(1) by (intro Cons.IH) (simp_all add: w)
  also have "\<dots> = page ! k" using i Cons.prems(3) by (simp add: nth_patch_outside)
  finally show ?case by (simp add: w apply_stores_def)
qed (simp add: apply_stores_def)

context guest_memory
begin

lemma window_writes:
  "inv m \<Longrightarrow> gm_read ops m g n = Ok page \<Longrightarrow> list_all (\<lambda>(i, src). i + length src \<le> n) ws \<Longrightarrow>
     \<exists>m'. gm_writes ops (map (\<lambda>(i, src). (g + of_nat i, src)) ws) m = (Ok (), m') \<and> inv m'
        \<and> gm_read ops m' g n = Ok (apply_stores ws page)"
proof (induction ws arbitrary: m page)
  case Nil
  then show ?case by (simp add: apply_stores_def)
next
  case (Cons w ws)
  obtain i src where w: "w = (i, src)" by (cases w)
  obtain m1 where m1: "gm_write ops m (g + of_nat i) src = Ok m1" "inv m1"
    "gm_read ops m1 g n = Ok (patch page i src)"
    using window_write [OF Cons.prems(1,2), of i src] Cons.prems(3) w by auto
  then show ?case
    using Cons.IH [OF m1(2,3)] Cons.prems(3) by (simp add: w apply_stores_def)
qed

lemma attached_length: "attached ops inv ch page \<Longrightarrow> length page = CHANNEL_SIZE"
  using read_length by (auto simp: attached_def)

lemma attached_cells:
  assumes "attached ops inv ch page"
  shows "read_u32 ops (c_gm ch) (prod_gpa ch r) = Ok (rm_prod (page_ring (c_header ch) page r))"
    and "read_u32 ops (c_gm ch) (cons_gpa ch r) = Ok (rm_cons (page_ring (c_header ch) page r))"
  using assms window_read_u32 [of "c_gm ch" "c_base ch" CHANNEL_SIZE page] cell_offsets [of r]
  by (simp_all add: attached_def prod_gpa_def cons_gpa_def page_ring_def Let_def)

end

lemma ring_address:
  assumes "is_power_of_two (rd_size (Channel_ring_desc ch r))"
  shows "data_gpa ch r + ucast (pos AND (rd_size (Channel_ring_desc ch r) - 1))
     = c_base ch + of_nat (unat (rd_offset (Channel_ring_desc ch r)) + unat pos mod unat (rd_size (Channel_ring_desc ch r)))"
proof -
  have u: "(ucast x :: u64) = of_nat (unat x)" for x :: u32 by simp
  show ?thesis
    unfolding data_gpa_def u unat_and_mask_pow2 [OF assms] by (simp only: of_nat_add add.assoc)
qed

text \<open>A push that fits, as the page it leaves.\<close>

definition pushed_page :: "channel_header \<Rightarrow> bytes \<Rightarrow> ring_id \<Rightarrow> u32 \<Rightarrow> bytes \<Rightarrow> bytes" where
  "pushed_page h page ring seq r =
     apply_stores (push_stores (ch_ring_desc h ! ring_index ring) ring (rm_prod (page_ring h page ring)) seq r) page"

definition push_writes :: "'m guest_mem \<Rightarrow> 'm channel \<Rightarrow> ring_id \<Rightarrow> u32 \<Rightarrow> u32 \<Rightarrow> bytes \<Rightarrow> (mem_error, unit) res \<times> 'm" where
  "push_writes ops ch ring prd seq r =
     gm_writes ops (map (\<lambda>(i, src). (c_base ch + of_nat i, src)) (push_stores (Channel_ring_desc ch ring) ring prd seq r)) (c_gm ch)"

lemma push_record_eq:
  assumes mem: "guest_memory ops minv" and att: "attached ops minv ch page" and len: "0 < len" "len \<le> 4096"
    and v: "v = page_ring (c_header ch) page ring"
    and s: "s = unat (rd_size (Channel_ring_desc ch ring))" and P: "P = unat (rm_prod v)"
    and n: "n = pad_len s P len" and rs: "rs = record_seq s P len seq"
    and enc: "\<And>dst. length dst = len \<Longrightarrow> encode dst rs = Ok (r, k)" and r: "length r = len"
  shows "if s < unat (used (rm_prod v) (rm_cons v)) + n + len
     then push_record ops ring len encode seq ch sink = (Err PE_RingFull, ch, sink)
     else if 0 < n \<and> n < 8 then push_record ops ring len encode seq ch sink = (Panic, ch, sink)
     else \<exists>m'. push_record ops ring len encode seq ch sink =
          (Ok (len, rs + 1), ch\<lparr>c_gm := m'\<rparr>,
           sink @ [RingPush ring (span_bytes s P seq r) (rm_prod v + of_nat (n + len))])
        \<and> attached ops minv (ch\<lparr>c_gm := m'\<rparr>) (pushed_page (c_header ch) page ring seq r)
        \<and> push_writes ops ch ring (rm_prod v) seq r = (Ok (), m')"
proof -
  let ?d = "Channel_ring_desc ch ring" and ?prd = "rm_prod v" and ?cons = "rm_cons v"
  have desc: "?d = ch_ring_desc (c_header ch) ! ring_index ring" by (simp add: Channel_ring_desc_def)
  have pl: "ring_placed ?d" using att header_ring_placed(1) unfolding desc by (simp add: attached_def)
  then have sz: "is_power_of_two (rd_size ?d)" by (simp add: ring_placed_def)
  note cells = guest_memory.attached_cells [OF mem att, of ring, folded v]
  have full: "free ?prd ?cons (rd_size ?d) < bytes_needed ?prd (rd_size ?d) (of_nat len) \<longleftrightarrow>
      s < unat (used ?prd ?cons) + n + len"
    unfolding word_less_nat_alt any_free any_needed [OF sz len(2)] using len by (auto simp: s n P)
  have nw: "bytes_needed ?prd (rd_size ?d) (of_nat len) = of_nat (n + len)"
    using arg_cong [OF any_needed [OF sz len(2), of ?prd], of "of_nat :: nat \<Rightarrow> u32"] by (simp add: s n P)
  have span: "push_span (bytes_needed ?prd (rd_size ?d) (of_nat len)) len ?prd (rd_size ?d) encode seq =
      (if 0 < n \<and> n < 8 then Panic else Ok (span_bytes s P seq r, n, rs + 1))"
    using push_span_eq [OF sz len refl refl _ r, of encode ?prd seq k] enc
    by (simp add: s n P rs)
  have addr: "data_gpa ch ring + ucast (?prd AND (rd_size ?d - 1)) = c_base ch + of_nat (unat (rd_offset ?d) + P mod s)"
    "data_gpa ch ring + ucast ((if 0 < n then ?prd + of_nat n else ?prd) AND (rd_size ?d - 1))
       = c_base ch + of_nat (unat (rd_offset ?d) + (P + n) mod s)"
    using ring_address [OF sz, of ?prd] ring_address [OF sz, of "?prd + of_nat n"] any_mod [OF sz, of ?prd n]
    by (simp_all add: s P)
  show ?thesis
  proof (cases "s < unat (used ?prd ?cons) + n + len \<or> (0 < n \<and> n < 8)")
    case True
    then show ?thesis
      by (auto simp: push_record_def Let_def cells full span)
  next
    case False
    let ?ws = "push_stores ?d ring ?prd seq r"
    have n8: "n = 0 \<or> 8 \<le> n" and n': "n = pad_len (unat (rd_size ?d)) (unat ?prd) (length r)"
      and n'': "n = pad_len s P (length r)"
      using False n r s P by auto
    note sp = span_split [OF n'' _ n8, where seq = seq, unfolded r, OF len(2)]
    have ws: "map (\<lambda>(i, src). (c_base ch + of_nat i, src)) ?ws =
        (if 0 < n then [(c_base ch + of_nat (unat (rd_offset ?d) + P mod s), take n (span_bytes s P seq r))] else [])
        @ [(c_base ch + of_nat (unat (rd_offset ?d) + (P + n) mod s), drop n (span_bytes s P seq r)),
           (prod_gpa ch ring, to_le_bytes 4 (?prd + bytes_needed ?prd (rd_size ?d) (of_nat len)))]"
      unfolding nw using sp(2)
      by (simp add: push_stores_def Let_def sp(1) r prod_gpa_def s [symmetric] P [symmetric] n [symmetric])
    have "list_all (\<lambda>(i, src). i + length src \<le> CHANNEL_SIZE) ?ws"
      using push_stores_inside [OF pl n' _ n8] len(2) False r s by auto
    then obtain m' where m': "gm_writes ops (map (\<lambda>(i, src). (c_base ch + of_nat i, src)) ?ws) (c_gm ch) = (Ok (), m')"
      "minv m'" "gm_read ops m' (c_base ch) CHANNEL_SIZE = Ok (apply_stores ?ws page)"
      using guest_memory.window_writes [OF mem] att unfolding attached_def by blast
    have pp: "pushed_page (c_header ch) page ring seq r = apply_stores ?ws page"
      by (simp add: pushed_page_def v desc)
    note gw = m'(1) [unfolded ws addr [symmetric]]
    have pw: "push_writes ops ch ring ?prd seq r = (Ok (), m')" using m'(1) by (simp only: push_writes_def)
    show ?thesis
      unfolding nw [symmetric] pp pw using False m'(2,3) att gw
      by (cases "n = 0")
         (auto simp: push_record_def Let_def cells full span ring_push_def attached_def intro!: exI [of _ m'])
  qed
qed

text \<open>What a push shows through the views of the rings.\<close>

lemma pushed_page_views:
  assumes h: "length (ch_ring_desc h) = 4" "ChannelHeader_validate h = Ok ()"
    and page: "length page = CHANNEL_SIZE" and v: "v = page_ring h page ring"
    and s: "s = unat (rd_size (ch_ring_desc h ! ring_index ring))" and P: "P = unat (rm_prod v)"
    and n: "n = pad_len s P (length r)" and r: "length r \<le> 4096" and n8: "n = 0 \<or> 8 \<le> n"
    and fits: "n + length r \<le> s"
  shows "page_ring h (pushed_page h page ring seq r) ring =
      v\<lparr>rm_data := pushed_data s (rm_data v) P r seq, rm_prod := rm_prod v + of_nat (n + length r)\<rparr>"
    and "a \<noteq> ring \<Longrightarrow> page_ring h (pushed_page h page ring seq r) a = page_ring h page a"
    and "length (pushed_page h page ring seq r) = CHANNEL_SIZE"
proof -
  let ?d = "ch_ring_desc h ! ring_index ring" and ?pad = "take n (span_bytes s P seq r)"
  let ?p1 = "if 0 < n then patch page (unat (rd_offset ?d) + P mod s) ?pad else page"
  let ?p2 = "patch ?p1 (unat (rd_offset ?d) + (P + n) mod s) r"
  have pl: "ring_placed ?d" by (rule header_ring_placed(1) [OF h])
  then have sz: "is_power_of_two (rd_size ?d)" and fit: "unat (rd_offset ?d) + s \<le> CHANNEL_SIZE"
    by (simp_all add: ring_placed_def s)
  note w = any_window [OF sz, of P "length r", folded s n, OF fits]
  note sp = span_split [OF n r n8, where seq = seq]
  have eq: "pushed_page h page ring seq r = patch ?p2 (prod_offset ring) (to_le_bytes 4 (rm_prod v + of_nat (n + length r)))"
    by (simp add: pushed_page_def push_stores_def Let_def apply_stores_def v [symmetric] s [symmetric]
        P [symmetric] n [symmetric] sp(1))
  have pd: "pads s P (length r) seq = (if 0 < n then [?pad] else [])" using sp(1) [of "\<lambda>x. x"] by simp
  have dat: "padded_data s (rm_data v) P (length r) seq = (if 0 < n then patch (rm_data v) (P mod s) ?pad else rm_data v)"
    using pd by (auto simp: padded_data_def pads_def n split: if_splits)
  have l1: "length ?p1 = CHANNEL_SIZE" using w(2) fit sp(3) page by auto
  then have l2: "length ?p2 = CHANNEL_SIZE" using w(1) fit by simp
  have v1: "page_ring h ?p1 a = (if a = ring then v\<lparr>rm_data := padded_data s (rm_data v) P (length r) seq\<rparr> else page_ring h page a)" for a
    using page_ring_data [OF h page refl, of "P mod s" ?pad ring] w(2) sp(3)
    by (auto simp: dat v [symmetric] s [symmetric])
  have v2: "page_ring h ?p2 a = (if a = ring then v\<lparr>rm_data := pushed_data s (rm_data v) P r seq\<rparr> else page_ring h page a)" for a
    using page_ring_data [OF h l1 refl, of "(P + n) mod s" r ring] w(1) v1
    by (auto simp: s [symmetric] pushed_data_def n [symmetric])
  show "page_ring h (pushed_page h page ring seq r) ring =
      v\<lparr>rm_data := pushed_data s (rm_data v) P r seq, rm_prod := rm_prod v + of_nat (n + length r)\<rparr>"
    "a \<noteq> ring \<Longrightarrow> page_ring h (pushed_page h page ring seq r) a = page_ring h page a"
    using page_ring_cells(1) [OF h l2] v2 by (simp_all add: eq)
  show "length (pushed_page h page ring seq r) = CHANNEL_SIZE"
    using l2 cell_offsets(1) [of ring] by (simp add: eq)
qed

text \<open>Positions matter only modulo the ring size.\<close>

lemma push_at_mod:
  assumes "P mod s = Q mod s"
  shows "pad_len s P len = pad_len s Q len" and "pads s P len seq = pads s Q len seq"
    and "record_seq s P len seq = record_seq s Q len seq"
    and "pushed_data s data P r seq = pushed_data s data Q r seq"
    and "span_bytes s P seq r = span_bytes s Q seq r"
proof -
  have "pad_len s P len = pad_len s Q len" for len using assms by (simp add: pad_len_def)
  moreover have "(P + n) mod s = (Q + n) mod s" for n using assms by (metis mod_add_left_eq)
  ultimately show "pad_len s P len = pad_len s Q len" "pads s P len seq = pads s Q len seq"
    "record_seq s P len seq = record_seq s Q len seq"
    "pushed_data s data P r seq = pushed_data s data Q r seq" "span_bytes s P seq r = span_bytes s Q seq r"
    using assms by (simp_all add: pads_def record_seq_def pushed_data_def padded_data_def span_bytes_def)
qed

lemma ring_rep_prod_mod:
  "ring_rep sz m recs \<Longrightarrow> unat (rm_prod m) mod unat sz = ring_pos m recs mod unat sz"
  using unat_mod_ring [of sz "ring_pos m recs"] ring_rep_pos(2) [of sz m recs] by (simp add: ring_rep_def)

lemma ring_rep_used: "ring_rep sz m recs \<Longrightarrow> unat (used (rm_prod m) (rm_cons m)) = ring_total recs"
  using ring_size_facts(2) [of sz] unat_used [of "ring_total recs" "unat (rm_cons m)"]
  by (simp add: ring_rep_def)

text \<open>On a ring that represents a queue the host's push is the producer half of the wire crate.\<close>

lemma push_record_refines:
  assumes mem: "guest_memory ops minv" and att: "attached ops minv ch page"
    and m: "m = page_ring (c_header ch) page ring" and rep: "ring_rep sz m recs"
    and sz: "sz = rd_size (Channel_ring_desc ch ring)"
    and len: "0 < len" "len \<le> 4096" and P: "P = ring_pos m recs"
    and rs: "rs = record_seq (unat sz) P len seq"
    and enc: "\<forall>dst. length dst = len \<longrightarrow> enc dst rs = Ok (r, k)" and r: "length r = len"
    and encode: "encode = (\<lambda>dst q. map_err PE_Encode (enc dst q))"
  shows "case try_push \<lparr>pr_size = sz, pr_next_seq = seq\<rparr> m len enc of
      (Ok q, p', m') \<Rightarrow>
         q = rs \<and> m' = pushed_mem sz m P r seq \<and> pr_next_seq p' = rs + 1
         \<and> ring_total recs + pad_len (unat sz) P len + len \<le> unat sz
         \<and> (\<exists>gm' page'. push_record ops ring len encode seq ch sink =
               (Ok (len, pr_next_seq p'), ch\<lparr>c_gm := gm'\<rparr>,
                sink @ [RingPush ring (concat (pads (unat sz) P len seq @ [r])) (rm_prod m')])
             \<and> attached ops minv (ch\<lparr>c_gm := gm'\<rparr>) page'
             \<and> (\<forall>a. page_ring (c_header ch) page' a = (if a = ring then m' else page_ring (c_header ch) page a)))
    | (Err _, _) \<Rightarrow> push_record ops ring len encode seq ch sink = (Err PE_RingFull, ch, sink)
    | (Panic, _) \<Rightarrow> False"
proof -
  let ?s = "unat sz" and ?p = "\<lparr>pr_size = sz, pr_next_seq = seq\<rparr>" and ?Q = "unat (rm_prod m)"
  let ?n = "pad_len ?s P len"
  have PQ: "?Q mod ?s = P mod ?s" using ring_rep_prod_mod [OF rep] P by simp
  note at = push_at_mod [OF PQ]
  have ok: "ring_size_ok sz" and P8: "P mod 8 = 0" and pr: "of_nat P = rm_prod m"
    using rep ring_rep_pos [OF rep] P by (auto simp: ring_rep_def)
  have n8: "?n = 0 \<or> 8 \<le> ?n" using pad_len_props(1) [OF ok P8 len(2)] by (cases "?n = 0") auto
  have enc': "encode dst rs = Ok (r, k)" if "length dst = len" for dst
    using enc that by (simp add: encode)
  have tp: "try_push ?p m len enc =
      (if ?s < ring_total recs + ?n + len then (Err RingFull, ?p, m)
       else (Ok rs, ?p\<lparr>pr_next_seq := rs + 1\<rparr>, pushed_mem sz m P r seq))"
    using try_push_eq [where self = ?p and m = m and recs = recs and encode = enc and k = k, OF _ r len(2) _ enc [rule_format]] rep P rs
    by simp
  have desc: "Channel_ring_desc ch ring = ch_ring_desc (c_header ch) ! ring_index ring"
    by (simp add: Channel_ring_desc_def)
  have push: "if ?s < ring_total recs + ?n + len
     then push_record ops ring len encode seq ch sink = (Err PE_RingFull, ch, sink)
     else \<exists>m'. push_record ops ring len encode seq ch sink =
          (Ok (len, rs + 1), ch\<lparr>c_gm := m'\<rparr>, sink @ [RingPush ring (span_bytes ?s P seq r) (rm_prod m + of_nat (?n + len))])
        \<and> attached ops minv (ch\<lparr>c_gm := m'\<rparr>) (pushed_page (c_header ch) page ring seq r)"
    using push_record_eq [OF mem att len m, of ?s ?Q ?n rs seq encode r k sink] enc' n8 r
    by (auto simp: sz [symmetric] at rs ring_rep_used [OF rep] split: if_splits)
  show ?thesis
  proof (cases "?s < ring_total recs + ?n + len")
    case True
    then show ?thesis using push tp by simp
  next
    case False
    then obtain gm' where gm': "push_record ops ring len encode seq ch sink =
          (Ok (len, rs + 1), ch\<lparr>c_gm := gm'\<rparr>, sink @ [RingPush ring (span_bytes ?s P seq r) (rm_prod m + of_nat (?n + len))])"
        "attached ops minv (ch\<lparr>c_gm := gm'\<rparr>) (pushed_page (c_header ch) page ring seq r)"
      using push by auto
    have h: "length (ch_ring_desc (c_header ch)) = 4" "ChannelHeader_validate (c_header ch) = Ok ()"
      using att by (simp_all add: attached_def)
    note pv = pushed_page_views [OF h guest_memory.attached_length [OF mem att] m, where s = ?s and P = ?Q and n = ?n and r = r and seq = seq]
    have pm: "pushed_mem sz m P r seq = m\<lparr>rm_data := pushed_data ?s (rm_data m) ?Q r seq, rm_prod := rm_prod m + of_nat (?n + len)\<rparr>"
      unfolding at by (simp add: pushed_mem_def r pr [symmetric] algebra_simps)
    have views: "page_ring (c_header ch) (pushed_page (c_header ch) page ring seq r) a
        = (if a = ring then pushed_mem sz m P r seq else page_ring (c_header ch) page a)" for a
      using pv(1,2) False n8 len(2) r unfolding pm by (simp add: sz desc [symmetric] at [unfolded sz])
    have "rm_prod (pushed_mem sz m P r seq) = rm_prod m + of_nat (?n + len)" by (simp add: pm)
    then have "push_record ops ring len encode seq ch sink =
        (Ok (len, rs + 1), ch\<lparr>c_gm := gm'\<rparr>,
         sink @ [RingPush ring (concat (pads ?s P len seq @ [r])) (rm_prod (pushed_mem sz m P r seq))])"
      using gm'(1) r by (simp only: span_bytes_def)
    with False tp gm'(2) views show ?thesis
      by (auto intro!: exI [of _ gm'] exI [of _ "pushed_page (c_header ch) page ring seq r"])
  qed
qed

text \<open>The same for the records of a codec; rings C and I are instances.\<close>

context ring_codec
begin

lemma host_push:
  assumes mem: "guest_memory ops minv" and att: "attached ops minv ch page" and x: "ok x"
    and m: "m = page_ring (c_header ch) page ring" and sz: "sz = rd_size (Channel_ring_desc ch ring)"
    and rep: "ring_rep sz m recs"
  shows "case try_push \<lparr>pr_size = sz, pr_next_seq = seq\<rparr> m (rlen x) (\<lambda>dst s. enc dst s x) of
      (Ok q, p', m') \<Rightarrow>
        \<exists>gm' page' ps. push_record ops ring (rlen x) (\<lambda>buf s. map_err PE_Encode (enc buf s x)) seq ch sink =
            (Ok (rlen x, pr_next_seq p'), ch\<lparr>c_gm := gm'\<rparr>,
             sink @ [RingPush ring (concat (ps @ [image q x])) (rm_prod m')])
          \<and> attached ops minv (ch\<lparr>c_gm := gm'\<rparr>) page'
          \<and> (\<forall>a. page_ring (c_header ch) page' a = (if a = ring then m' else page_ring (c_header ch) page a))
          \<and> ring_rep sz m' (recs @ ps @ [image q x]) \<and> list_all is_pad_record ps
    | (Err _, _) \<Rightarrow>
        push_record ops ring (rlen x) (\<lambda>buf s. map_err PE_Encode (enc buf s x)) seq ch sink = (Err PE_RingFull, ch, sink)
    | (Panic, _) \<Rightarrow> False"
proof -
  let ?P = "ring_pos m recs" and ?l = "rlen x"
  let ?q = "record_seq (unat sz) ?P ?l seq"
  have l: "0 < ?l" "?l \<le> 4096" using rlen_bounds [OF x] by auto
  have e: "\<forall>dst. length dst = ?l \<longrightarrow> enc dst ?q x = Ok (image ?q x, ?l)"
    using enc_exact [OF x] by simp
  note ref = push_record_refines [OF mem att m rep sz l refl refl _ length_image [OF x],
      where enc = "\<lambda>dst s. enc dst s x" and seq = seq and k = ?l and sink = sink, OF e refl]
  have "ring_size_ok sz" and "?P mod 8 = 0"
    using rep ring_rep_pos(1) by (auto simp: ring_rep_def)
  then have pads: "list_all is_pad_record (pads (unat sz) ?P ?l seq)"
    using l(2) by (intro pads_seqs(1))
  have r: "ring_total recs + pad_len (unat sz) ?P ?l + ?l \<le> unat sz \<Longrightarrow>
      ring_rep sz (pushed_mem sz m ?P (image ?q x) seq) (recs @ pads (unat sz) ?P ?l seq @ [image ?q x])"
    using pushed_mem_rep [OF rep good_image [OF x] refl] by (simp add: length_image [OF x])
  obtain q p' m' where tp: "try_push \<lparr>pr_size = sz, pr_next_seq = seq\<rparr> m ?l (\<lambda>dst s. enc dst s x) = (q, p', m')"
    by (rule prod_cases3)
  show ?thesis
  proof (cases q)
    case (Ok y)
    then show ?thesis using ref pads r unfolding tp prod.case Ok res.case by blast
  qed (use ref tp in simp_all)
qed

end

section \<open>Properties\<close>

lemma payload_len_eq:
  "record_len (case cmd of Cmd_Quiesce _ _ \<Rightarrow> 16 | Cmd_ReverifyRegions \<Rightarrow> 0 | _ \<Rightarrow> 8) = command_len cmd"
  by (cases cmd) (simp_all add: command_len_def)

lemma push_command_eq:
  "push_command ops cmd ch sink =
     (case push_record ops RingC (command_len cmd) (\<lambda>buf s. map_err PE_Encode (encode_command buf s cmd))
             (c_next_seq_c ch) ch sink of
        (Ok (_, seq), ch, sink) \<Rightarrow> (Ok (), ch\<lparr>c_next_seq_c := seq\<rparr>, sink)
      | (Err e, ch, sink) \<Rightarrow> (Err e, ch, sink)
      | (Panic, ch, sink) \<Rightarrow> (Panic, ch, sink))"
  unfolding push_command_def Let_def payload_len_eq by (auto split: prod.splits res.splits)

text \<open>
  C8. Pushing a command is the producer half of ring C: whenever the ring represents a queue of
  records, the push does what the wire crate's \<open>try_push\<close> does on the same memory with the same
  sequence number. On success the queue gains the command, behind a tail pad if one was needed, the
  sink receives one report whose bytes are exactly those records and whose index is the published
  one, and no other ring changes; on a full ring neither memory nor sequence number nor sink change.
\<close>

theorem push_command_queues:
  assumes "guest_memory ops minv" and "attached ops minv ch page"
    and "m = page_ring (c_header ch) page RingC" and "sz = rd_size (Channel_ring_desc ch RingC)"
    and "ring_rep sz m recs"
  shows "case try_push \<lparr>pr_size = sz, pr_next_seq = c_next_seq_c ch\<rparr> m (command_len cmd)
              (\<lambda>dst s. encode_command dst s cmd) of
      (Ok seq, p', m') \<Rightarrow>
        \<exists>gm' page' ps. push_command ops cmd ch sink =
            (Ok (), ch\<lparr>c_gm := gm', c_next_seq_c := pr_next_seq p'\<rparr>,
             sink @ [RingPush RingC (concat (ps @ [command_image seq cmd])) (rm_prod m')])
          \<and> attached ops minv (ch\<lparr>c_gm := gm', c_next_seq_c := pr_next_seq p'\<rparr>) page'
          \<and> (\<forall>a. page_ring (c_header ch) page' a = (if a = RingC then m' else page_ring (c_header ch) page a))
          \<and> ring_rep sz m' (recs @ ps @ [command_image seq cmd]) \<and> list_all is_pad_record ps
    | (Err _, _) \<Rightarrow> push_command ops cmd ch sink = (Err PE_RingFull, ch, sink)
    | (Panic, _) \<Rightarrow> False"
proof -
  note push = command_ring.host_push [OF assms(1,2) TrueI assms(3-5), of cmd "c_next_seq_c ch" sink]
  obtain q p' m' where tp: "try_push \<lparr>pr_size = sz, pr_next_seq = c_next_seq_c ch\<rparr> m (command_len cmd)
      (\<lambda>dst s. encode_command dst s cmd) = (q, p', m')"
    by (rule prod_cases3)
  have att: "attached ops minv (c\<lparr>c_next_seq_c := s\<rparr>) p = attached ops minv c p" for c s p
    by (simp add: attached_def)
  show ?thesis
  proof (cases q)
    case (Ok y)
    from push obtain gm' page' ps where
      "push_record ops RingC (command_len cmd) (\<lambda>buf s. map_err PE_Encode (encode_command buf s cmd)) (c_next_seq_c ch) ch sink =
        (Ok (command_len cmd, pr_next_seq p'), ch\<lparr>c_gm := gm'\<rparr>,
         sink @ [RingPush RingC (concat (ps @ [command_image y cmd])) (rm_prod m')])"
      "attached ops minv (ch\<lparr>c_gm := gm'\<rparr>) page'"
      "\<forall>a. page_ring (c_header ch) page' a = (if a = RingC then m' else page_ring (c_header ch) page a)"
      "ring_rep sz m' (recs @ ps @ [command_image y cmd])" "list_all is_pad_record ps"
      unfolding tp Ok by auto
    then show ?thesis
      unfolding tp Ok push_command_eq by (auto simp: att intro!: exI [of _ gm'] exI [of _ page'] exI [of _ ps])
  qed (use push in \<open>simp_all add: tp push_command_eq\<close>)
qed

theorem push_command_queues_witness:
  "\<exists>gm' page' ps. push_command mock_ops (Cmd_Resume 7) (mock_channel zero_page) [] =
       (Ok (), (mock_channel zero_page)\<lparr>c_gm := gm', c_next_seq_c := 1\<rparr>,
        [RingPush RingC (concat (ps @ [command_image 0 (Cmd_Resume 7)])) 24])
     \<and> ring_rep 0x4000 (page_ring ChannelHeader_canonical page' RingC) (ps @ [command_image 0 (Cmd_Resume 7)])"
proof -
  let ?m = "page_ring ChannelHeader_canonical zero_page RingC" and ?l = "command_len (Cmd_Resume 7)"
  have hdr: "c_header (mock_channel zero_page) = ChannelHeader_canonical" "c_next_seq_c (mock_channel zero_page) = 0"
    by (simp_all add: mock_channel_def fresh_channel_def)
  have d: "rd_size (Channel_ring_desc (mock_channel zero_page) RingC) = 0x4000"
    by (simp add: Channel_ring_desc_def hdr canonical_ring)
  have m: "?m = \<lparr>rm_data = replicate 0x4000 0, rm_prod = 0, rm_cons = 0\<rparr>"
    using zero_page_ring [of RingC] by (simp add: canonical_ring)
  have rep: "ring_rep 0x4000 ?m []"
    using pow2_sizes by (simp add: m ring_rep_def ring_size_ok_def)
  have l: "?l = 24" by (simp add: command_len_def record_len_def pad8_def)
  have tp: "try_push \<lparr>pr_size = 0x4000, pr_next_seq = 0\<rparr> ?m ?l (\<lambda>dst s. encode_command dst s (Cmd_Resume 7)) =
      (Ok 0, \<lparr>pr_size = 0x4000, pr_next_seq = 1\<rparr>, pushed_mem 0x4000 ?m 0 (command_image 0 (Cmd_Resume 7)) 0)"
    by (subst try_push_eq [where r = "command_image 0 (Cmd_Resume 7)" and k = 24 and seq = 0 and recs = "[]"])
       (simp_all add: rep [unfolded m] l length_command_image encode_command_eq patch_whole record_seq_def pad_len_def ring_pos_def m)
  have pm: "rm_prod (pushed_mem 0x4000 ?m 0 (command_image 0 (Cmd_Resume 7)) 0) = 24"
    by (simp add: pushed_mem_def pad_len_def l length_command_image)
  note q = push_command_queues [OF mock.guest_memory_axioms mock_channel_attached [OF length_zero_page] refl refl,
      of "[]" "Cmd_Resume 7" "[]", unfolded hdr d, OF rep, unfolded tp prod.case res.case pm append_Nil producer.simps]
  from q obtain gm' page' ps where
    "push_command mock_ops (Cmd_Resume 7) (mock_channel zero_page) [] =
       (Ok (), (mock_channel zero_page)\<lparr>c_gm := gm', c_next_seq_c := 1\<rparr>,
        [RingPush RingC (concat (ps @ [command_image 0 (Cmd_Resume 7)])) 24])"
    "\<forall>a. page_ring ChannelHeader_canonical page' a =
       (if a = RingC then pushed_mem 0x4000 ?m 0 (command_image 0 (Cmd_Resume 7)) 0
        else page_ring ChannelHeader_canonical zero_page a)"
    "ring_rep 0x4000 (pushed_mem 0x4000 ?m 0 (command_image 0 (Cmd_Resume 7)) 0) (ps @ [command_image 0 (Cmd_Resume 7)])"
    by blast
  then show ?thesis
    by (intro exI [of _ gm'] exI [of _ page'] exI [of _ ps]) simp
qed

lemma push_command_any:
  assumes "guest_memory ops minv" and "attached ops minv ch page"
    and "v = page_ring (c_header ch) page RingC" and "s = unat (rd_size (Channel_ring_desc ch RingC))"
    and "n = pad_len s (unat (rm_prod v)) (command_len cmd)"
    and rs: "rs = record_seq s (unat (rm_prod v)) (command_len cmd) (c_next_seq_c ch)"
  shows "if s < unat (used (rm_prod v) (rm_cons v)) + n + command_len cmd
     then push_command ops cmd ch sink = (Err PE_RingFull, ch, sink)
     else if 0 < n \<and> n < 8 then push_command ops cmd ch sink = (Panic, ch, sink)
     else \<exists>m'. push_command ops cmd ch sink =
          (Ok (), ch\<lparr>c_gm := m', c_next_seq_c := rs + 1\<rparr>,
           sink @ [RingPush RingC (span_bytes s (unat (rm_prod v)) (c_next_seq_c ch) (command_image rs cmd))
             (rm_prod v + of_nat (n + command_len cmd))])
        \<and> attached ops minv (ch\<lparr>c_gm := m', c_next_seq_c := rs + 1\<rparr>)
            (pushed_page (c_header ch) page RingC (c_next_seq_c ch) (command_image rs cmd))
        \<and> push_writes ops ch RingC (rm_prod v) (c_next_seq_c ch) (command_image rs cmd) = (Ok (), m')"
proof -
  let ?l = "command_len cmd"
  let ?push = "push_record ops RingC ?l (\<lambda>b q. map_err PE_Encode (encode_command b q cmd)) (c_next_seq_c ch) ch sink"
  have l: "0 < ?l" "?l \<le> 4096" using command_len_bounds [of cmd] by auto
  have "if s < unat (used (rm_prod v) (rm_cons v)) + n + ?l then ?push = (Err PE_RingFull, ch, sink)
     else if 0 < n \<and> n < 8 then ?push = (Panic, ch, sink)
     else \<exists>m'. ?push = (Ok (?l, rs + 1), ch\<lparr>c_gm := m'\<rparr>,
           sink @ [RingPush RingC (span_bytes s (unat (rm_prod v)) (c_next_seq_c ch) (command_image rs cmd))
             (rm_prod v + of_nat (n + ?l))])
        \<and> attached ops minv (ch\<lparr>c_gm := m'\<rparr>)
            (pushed_page (c_header ch) page RingC (c_next_seq_c ch) (command_image rs cmd))
        \<and> push_writes ops ch RingC (rm_prod v) (c_next_seq_c ch) (command_image rs cmd) = (Ok (), m')"
    by (rule push_record_eq [OF assms(1,2) l assms(3,4) refl assms(5) rs, where k = ?l])
       (simp_all add: encode_command_eq patch_whole length_command_image)
  moreover have "attached ops minv (c\<lparr>c_next_seq_c := q\<rparr>) p = attached ops minv c p" for c q p
    by (simp add: attached_def)
  ultimately show ?thesis
    by (fastforce simp: push_command_eq split: if_splits)
qed

lemma pushed_page_frame:
  assumes h: "length (ch_ring_desc h) = 4" "ChannelHeader_validate h = Ok ()" and page: "length page = CHANNEL_SIZE"
    and d: "d = ch_ring_desc h ! ring_index ring" and n: "n = pad_len (unat (rd_size d)) (unat (rm_prod (page_ring h page ring))) (length r)"
    and fit: "length r \<le> 4096" "n = 0 \<or> 8 \<le> n" "n + length r \<le> unat (rd_size d)"
    and k: "k < CHANNEL_SIZE" "k < unat (rd_offset d) \<or> unat (rd_offset d) + unat (rd_size d) \<le> k" "k < prod_offset ring \<or> prod_offset ring + 4 \<le> k"
  shows "pushed_page h page ring seq r ! k = page ! k"
proof -
  let ?ws = "push_stores d ring (rm_prod (page_ring h page ring)) seq r"
  have pl: "ring_placed d" unfolding d by (rule header_ring_placed(1) [OF h])
  have out: "k < i \<or> i + length src \<le> k"
    if "unat (rd_offset d) \<le> i \<and> i + length src \<le> unat (rd_offset d) + unat (rd_size d) \<or> i = prod_offset ring \<and> length src = 4" for i src
    using that k by auto
  have "list_all (\<lambda>(i, src). k < i \<or> i + length src \<le> k) ?ws"
    by (rule list.pred_mono_strong [OF push_stores_ring [OF pl n fit, of ring seq]]) (simp only: split_paired_all prod.case, rule out)
  then show ?thesis
    unfolding pushed_page_def d [symmetric] using push_stores_inside [OF pl n fit, of ring seq] page k(1)
    by (intro nth_apply_stores) simp_all
qed



end
