(* ===== verification/Host_Manifest.thy ===== *)
theory Host_Manifest
  imports Host_Commands
begin

text \<open>
  Reading the region manifest and published regions: \<^verbatim>\<open>crates/detguest-host/src/manifest.rs\<close>. The
  seqlock loop takes the memory that each access sees as a sequence, so that a manifest that changes
  under the reader is covered; the channel's own operation reads the memory of the paused guest.

  The lemmas show that the loop ends and returns only snapshots taken between two equal even
  generations, that the result is the parse of the manifest area and internally consistent, and that
  a region read is a slice of the concatenation of the region's extents.
\<close>

section \<open>Operations\<close>

definition SEQLOCK_RETRIES :: nat where [simp]: "SEQLOCK_RETRIES = 64"

record region_manifest =
  rgm_header :: manifest_header
  rgm_entries :: "region_entry list"
  rgm_extents :: "extent list"

record resolved_region =
  rr_region_id :: u32
  rr_layout_version :: u32
  rr_len :: u64
  rr_flags :: u32
  rr_extents :: "extent list"

definition resolve :: "region_manifest \<Rightarrow> bytes \<Rightarrow> resolved_region option" where
  "resolve self name =
     (case find (\<lambda>e. is_live e \<and> name_bytes e = name) (rgm_entries self) of
        None \<Rightarrow> None
      | Some e \<Rightarrow>
          (let off = unat (ent_extent_off e); n = unat (ent_extent_n e)
           in if off + n \<le> length (rgm_extents self)
              then Some \<lparr>rr_region_id = ent_region_id e, rr_layout_version = ent_layout_version e,
                         rr_len = ent_len e, rr_flags = ent_flags e,
                         rr_extents = take n (drop off (rgm_extents self))\<rparr>
              else None))"

text \<open>A \<open>for\<close> loop that pushes the results of a fallible read.\<close>

primrec collect_res :: "('i \<Rightarrow> ('e, 'a) res) \<Rightarrow> 'i list \<Rightarrow> ('e, 'a list) res" where
  "collect_res f [] = Ok []"
| "collect_res f (i # is) = bind_res (f i) (\<lambda>x. bind_res (collect_res f is) (\<lambda>xs. Ok (x # xs)))"

definition parse_manifest :: "bytes \<Rightarrow> (wire_error, region_manifest) res" where
  "parse_manifest area =
     map_err WE_Decode
       (bind_res (ManifestHeader_read_from area) (\<lambda>header.
        bind_res (ManifestHeader_validate header) (\<lambda>_.
        bind_res (collect_res (RegionEntry_read_from area) [0..<REGION_CAPACITY]) (\<lambda>entries.
        bind_res (collect_res (Extent_read_from area) [0..<unat (mh_extent_count header)]) (\<lambda>extents.
        bind_res (check_all (\<lambda>e. validate_extents e header) (filter is_live entries)) (\<lambda>_.
        Ok \<lparr>rgm_header = header, rgm_entries = entries, rgm_extents = extents\<rparr>))))))"

definition gen_gpa :: "u64 \<Rightarrow> u64" where
  "gen_gpa base = base + of_nat (OFF_MANIFEST + OFF_GENERATION)"

definition area_gpa :: "u64 \<Rightarrow> u64" where
  "area_gpa base = base + of_nat OFF_MANIFEST"

text \<open>\<open>ms k\<close> is the memory that the \<open>k\<close>-th access of the loop sees.\<close>

primrec manifest_loop ::
  "'m guest_mem \<Rightarrow> (nat \<Rightarrow> 'm) \<Rightarrow> u64 \<Rightarrow> nat \<Rightarrow> nat \<Rightarrow> (wire_error, region_manifest) res" where
  "manifest_loop ops ms base 0 = (\<lambda>k. Err WE_SeqlockLivelock)"
| "manifest_loop ops ms base (Suc n) = (\<lambda>k.
     bind_res (map_err WE_Mem (read_u64 ops (ms k) (gen_gpa base))) (\<lambda>g1.
     if g1 mod 2 \<noteq> 0 then manifest_loop ops ms base n (k + 1)
     else bind_res (map_err WE_Mem (gm_read ops (ms (k + 1)) (area_gpa base) MANIFEST_TOTAL_SIZE)) (\<lambda>area.
          bind_res (map_err WE_Mem (read_u64 ops (ms (k + 2)) (gen_gpa base))) (\<lambda>g2.
          if g1 \<noteq> g2 then manifest_loop ops ms base n (k + 3) else parse_manifest area))))"

definition Channel_read_manifest :: "'m guest_mem \<Rightarrow> 'm channel \<Rightarrow> (wire_error, region_manifest) res" where
  "Channel_read_manifest ops self = manifest_loop ops (\<lambda>_. c_gm self) (c_base self) SEQLOCK_RETRIES 0"

text \<open>The coverage sum, and the walk over the extents that fills the rest of the buffer.\<close>

primrec covered_from :: "u64 \<Rightarrow> extent list \<Rightarrow> u64 option" where
  "covered_from a [] = Some a"
| "covered_from a (x # xs) =
     (case checked_add a (unat (ext_len x)) of None \<Rightarrow> None | Some b \<Rightarrow> covered_from b xs)"

primrec walk_extents ::
  "'m guest_mem \<Rightarrow> 'm \<Rightarrow> extent list \<Rightarrow> bytes \<Rightarrow> u64 \<Rightarrow> (region_read_error, bytes) res" where
  "walk_extents ops gm [] rest to_skip = Ok rest"
| "walk_extents ops gm (x # xs) rest to_skip =
     (if rest = [] then Ok rest
      else if to_skip \<ge> ext_len x then walk_extents ops gm xs rest (to_skip - ext_len x)
      else let n = unat (min (ext_len x - to_skip) (of_nat (length rest)))
           in bind_res (ok_or (checked_add (ext_gpa x) (unat to_skip)) RE_OutOfBounds) (\<lambda>gpa.
              bind_res (map_err RE_Mem (gm_read ops gm gpa n)) (\<lambda>chunk.
              bind_res (walk_extents ops gm xs (drop n rest) 0) (\<lambda>tail.
              Ok (chunk @ tail)))))"

definition Channel_read_region ::
  "'m guest_mem \<Rightarrow> 'm channel \<Rightarrow> bytes \<Rightarrow> u64 \<Rightarrow> bytes \<Rightarrow> (region_read_error, bytes) res" where
  "Channel_read_region ops self name offset buf =
     bind_res (map_err RE_Wire (Channel_read_manifest ops self)) (\<lambda>manifest.
     bind_res (ok_or (resolve manifest name) RE_NameNotFound) (\<lambda>region.
     bind_res (ok_or (checked_add offset (length buf)) RE_OutOfBounds) (\<lambda>end_off.
     if end_off > rr_len region then Err RE_OutOfBounds
     else bind_res (ok_or (covered_from 0 (rr_extents region)) RE_OutOfBounds) (\<lambda>covered.
          if covered < rr_len region then Err RE_OutOfBounds
          else walk_extents ops (c_gm self) (rr_extents region) buf offset))))"

section \<open>Parsing\<close>

lemma collect_res_Ok:
  "collect_res f is = Ok xs \<longleftrightarrow> length xs = length is \<and> (\<forall>k < length is. f (is ! k) = Ok (xs ! k))"
proof (induction "is" arbitrary: xs)
  case (Cons i "is")
  show ?case
    by (cases xs) (auto simp: bind_res_eq_Ok Cons.IH nth_Cons' less_Suc_eq_0_disj)
qed auto

lemma collect_res_not_Panic: "(\<And>i. f i \<noteq> Panic) \<Longrightarrow> collect_res f is \<noteq> Panic"
  by (induction "is") (auto simp: bind_res_eq_Panic)

lemma validate_extents_not_Panic: "validate_extents e h \<noteq> Panic"
  by (simp add: validate_extents_def Let_def)

lemma parse_manifest_not_Panic: "parse_manifest area \<noteq> Panic"
proof -
  have "collect_res (RegionEntry_read_from area) js \<noteq> Panic" "collect_res (Extent_read_from area) js \<noteq> Panic"
    "check_all (\<lambda>e. validate_extents e h) es \<noteq> Panic" for js h es
    using entries.slot_total(2) extents.slot_total(2) validate_extents_not_Panic
    by (auto intro!: collect_res_not_Panic check_all_not_Panic)
  then show ?thesis
    by (auto simp: parse_manifest_def bind_res_eq_Panic manifest_read_eq ManifestHeader_validate_def split: if_splits)
qed

text \<open>What a parsed manifest promises.\<close>

definition manifest_consistent :: "region_manifest \<Rightarrow> bool" where
  "manifest_consistent m \<longleftrightarrow>
     length (rgm_entries m) = REGION_CAPACITY \<and> length (rgm_extents m) = unat (mh_extent_count (rgm_header m))
     \<and> ManifestHeader_validate (rgm_header m) = Ok ()
     \<and> list_all (\<lambda>e. is_live e \<longrightarrow> unat (ent_extent_off e) + unat (ent_extent_n e) \<le> length (rgm_extents m)) (rgm_entries m)"

lemma parse_manifest_consistent:
  assumes "parse_manifest area = Ok m"
  shows "manifest_consistent m"
    and "ManifestHeader_read_from area = Ok (rgm_header m)"
    and "i < REGION_CAPACITY \<Longrightarrow> RegionEntry_read_from area i = Ok (rgm_entries m ! i)"
    and "i < length (rgm_extents m) \<Longrightarrow> Extent_read_from area i = Ok (rgm_extents m ! i)"
  using assms
  by (auto simp: parse_manifest_def bind_res_eq_Ok collect_res_Ok check_all_Ok manifest_consistent_def
      validate_extents_def Let_def list_all_iff split: if_splits)

section \<open>The seqlock loop\<close>

lemma manifest_loop_snapshot:
  "manifest_loop ops ms base n k = Ok m \<Longrightarrow>
     \<exists>i g area. read_u64 ops (ms i) (gen_gpa base) = Ok g \<and> g mod 2 = 0
       \<and> gm_read ops (ms (i + 1)) (area_gpa base) MANIFEST_TOTAL_SIZE = Ok area
       \<and> read_u64 ops (ms (i + 2)) (gen_gpa base) = Ok g \<and> parse_manifest area = Ok m"
proof (induction n arbitrary: k)
  case (Suc n)
  from Suc.prems obtain g1 where g1: "read_u64 ops (ms k) (gen_gpa base) = Ok g1"
    by (auto simp: bind_res_eq_Ok)
  show ?case
  proof (cases "g1 mod 2 = 0")
    case True
    with Suc.prems g1 obtain area g2 where a: "gm_read ops (ms (k + 1)) (area_gpa base) MANIFEST_TOTAL_SIZE = Ok area"
        "read_u64 ops (ms (k + 2)) (gen_gpa base) = Ok g2"
        "(if g1 \<noteq> g2 then manifest_loop ops ms base n (k + 3) else parse_manifest area) = Ok m"
      by (auto simp: bind_res_eq_Ok)
    show ?thesis
    proof (cases "g1 = g2")
      case eq: True
      then have "parse_manifest area = Ok m" using a(3) by simp
      with a(1,2) g1 True eq show ?thesis
        by (intro exI [of _ k] exI [of _ g1] exI [of _ area]) (simp only: eq simp_thms)
    next
      case False
      then show ?thesis using a(3) Suc.IH [of "k + 3"] by simp
    qed
  qed (use Suc g1 in auto)
qed simp

lemma manifest_loop_total:
  "(\<And>i g l. gm_read ops (ms i) g l \<noteq> Panic) \<Longrightarrow> manifest_loop ops ms base n k \<noteq> Panic"
  using parse_manifest_not_Panic
  by (induction n arbitrary: k) (auto simp: bind_res_eq_Panic read_u64_def split: if_splits)

text \<open>Over a constant memory the first even generation decides, and an odd one never clears.\<close>

lemma manifest_loop_const:
  assumes "read_u64 ops gm (gen_gpa base) = Ok g" and "gm_read ops gm (area_gpa base) MANIFEST_TOTAL_SIZE = Ok area"
  shows "manifest_loop ops (\<lambda>_. gm) base (Suc n) k = (if g mod 2 \<noteq> 0 then Err WE_SeqlockLivelock else parse_manifest area)"
proof (induction n arbitrary: k)
  case (Suc n)
  then show ?case by (subst manifest_loop.simps(2)) (simp add: assms del: manifest_loop.simps MANIFEST_TOTAL_SIZE_def)
qed (simp add: assms del: MANIFEST_TOTAL_SIZE_def)

section \<open>Walking extents\<close>

definition extents_mapped :: "'m guest_mem \<Rightarrow> 'm \<Rightarrow> extent list \<Rightarrow> bytes list \<Rightarrow> bool" where
  "extents_mapped ops gm xs bs \<longleftrightarrow>
     list_all2 (\<lambda>x b. gm_read ops gm (ext_gpa x) (unat (ext_len x)) = Ok b
        \<and> unat (ext_gpa x) + unat (ext_len x) < 2 ^ 64) xs bs"

lemma covered_from_eq:
  "covered_from a xs = (let t = unat a + sum_list (map (\<lambda>x. unat (ext_len x)) xs)
     in if t < 2 ^ 64 then Some (of_nat t) else None)"
proof (induction xs arbitrary: a)
  case (Cons x xs)
  show ?case
    using Cons.IH [of "a + of_nat (unat (ext_len x))"] unat_plus [of a "unat (ext_len x)"]
    by (auto simp: checked_add_def Let_def add.assoc)
next
  case Nil
  show ?case using unsigned_less [of a, where ?'a = nat] by (simp add: Let_def)
qed

context guest_memory
begin

lemma walk_extents_eq:
  "inv gm \<Longrightarrow> extents_mapped ops gm xs bs \<Longrightarrow> length rest < 2 ^ 64 \<Longrightarrow>
     unat to_skip + length rest \<le> length (concat bs) \<Longrightarrow>
     walk_extents ops gm xs rest to_skip = Ok (take (length rest) (drop (unat to_skip) (concat bs)))"
proof (induction xs arbitrary: bs rest to_skip)
  case Nil
  then show ?case by (simp add: extents_mapped_def)
next
  case (Cons x xs)
  obtain b bs' where bs: "bs = b # bs'" and rd: "gm_read ops gm (ext_gpa x) (unat (ext_len x)) = Ok b"
      "unat (ext_gpa x) + unat (ext_len x) < 2 ^ 64" and m: "extents_mapped ops gm xs bs'"
    using Cons.prems(2) by (cases bs) (auto simp: extents_mapped_def)
  have lb: "length b = unat (ext_len x)" by (rule read_length [OF Cons.prems(1) rd(1)])
  consider "rest = []" | "rest \<noteq> []" "ext_len x \<le> to_skip" | (here) "rest \<noteq> []" "to_skip < ext_len x"
    by fastforce
  then show ?case
  proof cases
    case 2
    then have u: "unat (to_skip - ext_len x) = unat to_skip - length b" by (simp add: unat_sub_word lb)
    have "length b \<le> unat to_skip" using 2 by (simp add: word_le_nat_alt lb)
    then show ?thesis
      using 2 Cons.IH [OF Cons.prems(1) m Cons.prems(3), of "to_skip - ext_len x"] Cons.prems(4) u by (simp add: bs)
  next
    case here
    let ?n = "unat (min (ext_len x - to_skip) (of_nat (length rest)))"
    have skip: "unat to_skip < length b" using here by (simp add: word_less_nat_alt lb)
    have "unat (ext_len x - to_skip) = length b - unat to_skip"
      using here by (simp add: unat_sub_word lb)
    then have n: "?n = min (length b - unat to_skip) (length rest)"
      using Cons.prems(3) unat_of_nat64 [of "length rest"] by (auto simp: min_def word_le_nat_alt)
    have chk: "checked_add (ext_gpa x) (unat to_skip) = Some (ext_gpa x + of_nat (unat to_skip))"
      using rd(2) skip by (simp add: checked_add_def lb)
    have chunk: "gm_read ops gm (ext_gpa x + of_nat (unat to_skip)) ?n = Ok (take ?n (drop (unat to_skip) b))"
      using skip n lb by (intro read_part [OF Cons.prems(1) rd(1)]) simp
    have tl: "walk_extents ops gm xs (drop ?n rest) 0 = Ok (take (length rest - ?n) (concat bs'))"
      using Cons.IH [OF Cons.prems(1) m, of "drop ?n rest" 0] Cons.prems(3,4) n skip by (auto simp: bs)
    have "take ?n (drop (unat to_skip) b) @ take (length rest - ?n) (concat bs')
        = take (length rest) (drop (unat to_skip) (concat bs))"
      using skip unfolding n bs by (auto simp: min_def)
    moreover have "\<not> ext_len x \<le> to_skip" using here by simp
    ultimately show ?thesis
      using here(1) chk chunk tl by (simp add: Let_def del: of_nat_unat)
  qed simp
qed

end

lemma parse_manifest_Ok:
  assumes "ManifestHeader_read_from area = Ok h" and "ManifestHeader_validate h = Ok ()" and "n = unat (mh_extent_count h)"
    and "\<And>i. i < REGION_CAPACITY \<Longrightarrow> RegionEntry_read_from area i = Ok (es i)"
    and "\<And>i. i < n \<Longrightarrow> Extent_read_from area i = Ok (xs i)"
    and "\<And>i. i < REGION_CAPACITY \<Longrightarrow> is_live (es i) \<Longrightarrow> unat (ent_extent_off (es i)) + unat (ent_extent_n (es i)) \<le> n"
  shows "parse_manifest area = Ok \<lparr>rgm_header = h, rgm_entries = map es [0..<REGION_CAPACITY], rgm_extents = map xs [0..<n]\<rparr>"
proof -
  have e: "collect_res (RegionEntry_read_from area) [0..<REGION_CAPACITY] = Ok (map es [0..<REGION_CAPACITY])"
    "collect_res (Extent_read_from area) [0..<n] = Ok (map xs [0..<n])"
    unfolding collect_res_Ok using assms(4,5) by auto
  have "n < 2 ^ 32" using assms(3) unsigned_less [of "mh_extent_count h", where ?'a = nat] by simp
  then have "check_all (\<lambda>e. validate_extents e h) (filter is_live (map es [0..<REGION_CAPACITY])) = Ok ()"
    unfolding check_all_Ok using assms(3,6) by (fastforce simp: validate_extents_def)
  then show ?thesis
    unfolding parse_manifest_def using assms(1,2) e by (simp add: assms(3) del: REGION_CAPACITY_def)
qed

section \<open>A page with one published region\<close>

definition demo_header :: manifest_header where
  "demo_header = \<lparr>mh_magic = MANIFEST_MAGIC, mh_manifest_version = MANIFEST_VERSION, mh_region_capacity = 64,
     mh_generation = 2, mh_region_count = 1, mh_extent_count = 1\<rparr>"

definition demo_entry :: region_entry where
  "demo_entry = \<lparr>ent_region_id = 0, ent_name_id = 1, ent_layout_version = 1, ent_flags = 0, ent_gva = 0x7000,
     ent_len = 40, ent_extent_off = 0, ent_extent_n = 1, ent_name = 0x77 # replicate 55 0\<rparr>"

definition demo_extent :: extent where
  "demo_extent = \<lparr>ext_gpa = 0x10000000, ext_len = 48\<rparr>"

definition demo_area :: bytes where
  "demo_area = patch (patch (patch (replicate MANIFEST_TOTAL_SIZE 0) 0 (manifest_header_bytes demo_header))
     32 (entry_image demo_entry)) 6176 (extent_image demo_extent)"

definition demo_page :: bytes where
  "demo_page = patch zero_page OFF_MANIFEST demo_area"

lemma demo_lengths:
  "length (manifest_header_bytes demo_header) = 32" "length (entry_image demo_entry) = 96"
  "length (extent_image demo_extent) = 16" "length demo_area = MANIFEST_TOTAL_SIZE" "length demo_page = CHANNEL_SIZE"
proof -
  show l: "length (manifest_header_bytes demo_header) = 32" "length (entry_image demo_entry) = 96"
    "length (extent_image demo_extent) = 16"
    by (simp_all add: manifest_header_bytes_def entry_image_def extent_image_def demo_entry_def)
  then show a: "length demo_area = MANIFEST_TOTAL_SIZE" by (simp add: demo_area_def)
  then show "length demo_page = CHANNEL_SIZE" using length_zero_page by (simp add: demo_page_def)
qed

lemma demo_reads:
  "ManifestHeader_read_from demo_area = Ok demo_header"
  "i < REGION_CAPACITY \<Longrightarrow> RegionEntry_read_from demo_area i = Ok (if i = 0 then demo_entry else entry_parse (replicate 96 0))"
  "Extent_read_from demo_area 0 = Ok demo_extent"
proof -
  let ?a0 = "patch (replicate MANIFEST_TOTAL_SIZE 0) 0 (manifest_header_bytes demo_header)"
  let ?a1 = "patch ?a0 32 (entry_image demo_entry)"
  note l = demo_lengths(1-3)
  have w1: "RegionEntry_write_to demo_entry ?a0 0 = Ok ?a1"
    using l by (subst entry_write_eq) (simp_all add: entry_wf_def demo_entry_def)
  have w2: "Extent_write_to demo_extent ?a1 0 = Ok demo_area"
    using l by (subst extents.put_eq) (simp_all add: demo_area_def)
  have wf: "entry_wf demo_entry" by (simp add: entry_wf_def demo_entry_def)
  have e1: "RegionEntry_read_from demo_area i = RegionEntry_read_from ?a1 i" if "i < 64"
  proof -
    have "i * 96 + 96 \<le> 64 * 96" using that by (intro order_trans [OF _ mult_le_mono1 [of "Suc i" 64 96]]) simp_all
    then show ?thesis using that l by (simp add: entry_read_eq demo_area_def bufs)
  qed
  show "ManifestHeader_read_from demo_area = Ok demo_header"
    using l manifest_read_written [of "replicate MANIFEST_TOTAL_SIZE 0" demo_header]
    by (simp add: demo_area_def manifest_read_eq bufs)
  show "Extent_read_from demo_area 0 = Ok demo_extent" by (rule extents.get_put_same [OF TrueI w2])
  assume i: "i < REGION_CAPACITY"
  show "RegionEntry_read_from demo_area i = Ok (if i = 0 then demo_entry else entry_parse (replicate 96 0))"
  proof (cases "i = 0")
    case True
    then show ?thesis using e1 entries.get_put_same [OF wf w1] by simp
  next
    case False
    have "RegionEntry_read_from ?a1 i = RegionEntry_read_from ?a0 i"
      using entries.get_put_other [OF wf w1, of i] False by simp
    also have "\<dots> = Ok (entry_parse (replicate 96 0))"
    proof -
      have "i * 96 + 96 \<le> 64 * 96" using i by (intro order_trans [OF _ mult_le_mono1 [of "Suc i" 64 96]]) simp_all
      then show ?thesis using i l by (simp add: entry_read_eq bufs)
    qed
    finally show ?thesis using e1 False i by simp
  qed
qed

lemma demo_parse:
  "parse_manifest demo_area = Ok \<lparr>rgm_header = demo_header,
     rgm_entries = map (\<lambda>i. if i = 0 then demo_entry else entry_parse (replicate 96 0)) [0..<REGION_CAPACITY],
     rgm_extents = [demo_extent]\<rparr>"
proof -
  have z: "unat (ent_extent_off (entry_parse (replicate 96 0))) + unat (ent_extent_n (entry_parse (replicate 96 0))) = 0"
    by (simp add: entry_parse_def le_at_def from_le_zeros)
  have "parse_manifest demo_area = Ok \<lparr>rgm_header = demo_header,
     rgm_entries = map (\<lambda>i. if i = 0 then demo_entry else entry_parse (replicate 96 0)) [0..<REGION_CAPACITY],
     rgm_extents = map (\<lambda>_. demo_extent) [0..<1]\<rparr>"
    using z by (intro parse_manifest_Ok demo_reads)
       (auto simp: demo_header_def ManifestHeader_validate_def demo_reads(3) demo_entry_def)
  then show ?thesis by simp
qed

lemma demo_resolve:
  "resolve \<lparr>rgm_header = demo_header,
     rgm_entries = map (\<lambda>i. if i = 0 then demo_entry else entry_parse (replicate 96 0)) [0..<REGION_CAPACITY],
     rgm_extents = [demo_extent]\<rparr> [0x77]
   = Some \<lparr>rr_region_id = 0, rr_layout_version = 1, rr_len = 40, rr_flags = 0, rr_extents = [demo_extent]\<rparr>"
proof -
  have "map (\<lambda>i. if i = 0 then demo_entry else entry_parse (replicate 96 0)) [0..<REGION_CAPACITY]
      = demo_entry # map (\<lambda>i. if i = 0 then demo_entry else entry_parse (replicate 96 0)) [1..<REGION_CAPACITY]"
    by (subst upt_rec) simp
  moreover have "is_live demo_entry \<and> name_bytes demo_entry = [0x77]"
    by (simp add: is_live_def name_bytes_def demo_entry_def)
  ultimately show ?thesis by (simp add: resolve_def demo_entry_def del: REGION_CAPACITY_def)
qed

section \<open>Properties\<close>

lemma manifest_of_page:
  assumes mem: "guest_memory ops minv" and att: "attached ops minv ch page"
    and area: "area = take MANIFEST_TOTAL_SIZE (drop OFF_MANIFEST page)" and g: "g = (le_at 8 area OFF_GENERATION :: u64)"
  shows "Channel_read_manifest ops ch = (if g mod 2 \<noteq> 0 then Err WE_SeqlockLivelock else parse_manifest area)"
proof -
  note win = guest_memory.window_read [OF mem, of "c_gm ch" "c_base ch" CHANNEL_SIZE page]
  have a: "gm_read ops (c_gm ch) (area_gpa (c_base ch)) MANIFEST_TOTAL_SIZE = Ok area"
    using att win [of OFF_MANIFEST MANIFEST_TOTAL_SIZE] by (simp add: area_gpa_def area attached_def)
  have gr: "read_u64 ops (c_gm ch) (gen_gpa (c_base ch)) = Ok g"
    using att guest_memory.window_read_u64 [OF mem, of "c_gm ch" "c_base ch" CHANNEL_SIZE page "OFF_MANIFEST + OFF_GENERATION"]
    by (simp add: gen_gpa_def g area attached_def bufs)
  show ?thesis using manifest_loop_const [OF gr a, of 63 0] by (simp add: Channel_read_manifest_def)
qed

text \<open>
  C32. Reading the manifest of a paused guest is exact and bounded: it is the parse of the manifest
  area when the generation is even, and the livelock error after the retry bound when a registration
  was in progress; it never panics. What it returns is consistent: 64 entries, as many extents as the
  header counts, the generation that was read, and every live region resolves to extents inside the
  pool.
\<close>

theorem read_manifest_exact:
  assumes mem: "guest_memory ops minv" and att: "attached ops minv ch page"
    and area: "area = take MANIFEST_TOTAL_SIZE (drop OFF_MANIFEST page)" and g: "g = (le_at 8 area OFF_GENERATION :: u64)"
  shows "Channel_read_manifest ops ch = (if g mod 2 \<noteq> 0 then Err WE_SeqlockLivelock else parse_manifest area)
     \<and> Channel_read_manifest ops ch \<noteq> Panic
     \<and> (\<forall>m. Channel_read_manifest ops ch = Ok m \<longrightarrow>
          manifest_consistent m \<and> mh_generation (rgm_header m) = g
          \<and> (\<forall>e \<in> set (rgm_entries m). is_live e \<longrightarrow> resolve m (name_bytes e) \<noteq> None))"
proof -
  have len: "length area = MANIFEST_TOTAL_SIZE"
    using guest_memory.attached_length [OF mem att] by (simp add: area)
  note loop = manifest_of_page [OF mem att area g]
  have "manifest_consistent m \<and> mh_generation (rgm_header m) = g
      \<and> (\<forall>e \<in> set (rgm_entries m). is_live e \<longrightarrow> resolve m (name_bytes e) \<noteq> None)"
    if "parse_manifest area = Ok m" for m
  proof -
    note p = parse_manifest_consistent [OF that]
    have "mh_generation (rgm_header m) = g" using arg_cong [OF p(2), of "case_res mh_generation (\<lambda>_. 0) 0"] len by (simp add: manifest_read_eq g)
    moreover have "resolve m (name_bytes e) \<noteq> None" if e: "e \<in> set (rgm_entries m)" "is_live e" for e
    proof -
      obtain f where f: "find (\<lambda>x. is_live x \<and> name_bytes x = name_bytes e) (rgm_entries m) = Some f"
        using e by (cases "find (\<lambda>x. is_live x \<and> name_bytes x = name_bytes e) (rgm_entries m)") (auto simp: find_None_iff)
      then have "f \<in> set (rgm_entries m)" "is_live f" by (auto simp: find_Some_iff)
      then show ?thesis using f p(1) by (auto simp: resolve_def Let_def manifest_consistent_def list_all_iff)
    qed
    ultimately show ?thesis using p(1) by blast
  qed
  then show ?thesis using loop parse_manifest_not_Panic [of area] by (auto split: if_splits)
qed

lemma demo_channel:
  "attached mock_ops mock_inv (mock_channel demo_page) demo_page"
  "take MANIFEST_TOTAL_SIZE (drop OFF_MANIFEST demo_page) = demo_area"
  "(le_at 8 demo_area OFF_GENERATION :: u64) = 2"
proof -
  show "attached mock_ops mock_inv (mock_channel demo_page) demo_page"
    by (rule mock_channel_attached [OF demo_lengths(5)])
  show "take MANIFEST_TOTAL_SIZE (drop OFF_MANIFEST demo_page) = demo_area"
    using demo_lengths(4) length_zero_page by (simp add: demo_page_def bufs)
  have "ManifestHeader_read_from demo_area = Ok demo_header" by (rule demo_reads(1))
  from arg_cong [OF this, of "case_res mh_generation (\<lambda>_. 0) 0"]
  show "(le_at 8 demo_area OFF_GENERATION :: u64) = 2"
    using demo_lengths(4) by (simp add: manifest_read_eq demo_header_def)
qed

theorem read_manifest_exact_witness:
  "\<exists>m. Channel_read_manifest mock_ops (mock_channel demo_page) = Ok m \<and> manifest_consistent m
     \<and> mh_generation (rgm_header m) = 2"
  using read_manifest_exact [OF mock.guest_memory_axioms demo_channel(1) refl refl, unfolded demo_channel(2,3)] demo_parse
  by auto

lemma demo_manifest:
  "Channel_read_manifest mock_ops (mock_channel demo_page) = Ok \<lparr>rgm_header = demo_header,
     rgm_entries = map (\<lambda>i. if i = 0 then demo_entry else entry_parse (replicate 96 0)) [0..<REGION_CAPACITY],
     rgm_extents = [demo_extent]\<rparr>"
proof -
  have att: "mock_inv (page_mem demo_page)" "gm_read mock_ops (page_mem demo_page) 0x10000000 CHANNEL_SIZE = Ok demo_page"
    using page_mem_inv page_mem_read demo_lengths(5) by simp_all
  have "gm_read mock_ops (page_mem demo_page) (area_gpa 0x10000000) MANIFEST_TOTAL_SIZE = Ok demo_area"
    using mock.window_read [OF att, of OFF_MANIFEST MANIFEST_TOTAL_SIZE] demo_channel(2) by (simp add: area_gpa_def)
  moreover have "read_u64 mock_ops (page_mem demo_page) (gen_gpa 0x10000000) = Ok 2"
    using mock.window_read_u64 [OF att, of "OFF_MANIFEST + OFF_GENERATION"] demo_channel(3)
    by (simp add: gen_gpa_def demo_channel(2) [symmetric] bufs)
  ultimately show ?thesis
    using manifest_loop_const [of mock_ops "page_mem demo_page" "0x10000000" 2 demo_area 63 0] demo_parse
    by (simp add: Channel_read_manifest_def mock_channel_def fresh_channel_def)
qed

lemma region_slice:
  assumes mem: "guest_memory ops minv" and inv: "minv (c_gm ch)"
    and m: "Channel_read_manifest ops ch = Ok m" and r: "resolve m name = Some region"
    and x: "extents_mapped ops (c_gm ch) (rr_extents region) bs" and buf: "length buf < 2 ^ 64"
  shows "Channel_read_region ops ch name offset buf =
     (if unat offset + length buf \<le> unat (rr_len region) \<and> unat (rr_len region) \<le> length (concat bs)
         \<and> length (concat bs) < 2 ^ 64
      then Ok (take (length buf) (drop (unat offset) (concat bs))) else Err RE_OutOfBounds)"
proof -
  have "length b = unat (ext_len y)"
    if "gm_read ops (c_gm ch) (ext_gpa y) (unat (ext_len y)) = Ok b" for y b
    by (rule guest_memory.read_length [OF mem inv that])
  then have "list_all2 (\<lambda>y b. length b = unat (ext_len y)) (rr_extents region) bs"
    using x unfolding extents_mapped_def by (auto elim!: list_all2_mono)
  then have sum: "sum_list (map (\<lambda>y. unat (ext_len y)) (rr_extents region)) = length (concat bs)"
    by (induction rule: list_all2_induct) simp_all
  have rl: "unat (rr_len region) < 2 ^ 64" using unsigned_less [of "rr_len region", where ?'a = nat] by simp
  have add: "checked_add offset (length buf) = (if unat offset + length buf < 2 ^ 64 then Some (offset + of_nat (length buf)) else None)"
    by (simp add: checked_add_def)
  have cov: "covered_from 0 (rr_extents region) = (if length (concat bs) < 2 ^ 64 then Some (of_nat (length (concat bs))) else None)"
    by (simp add: covered_from_eq Let_def sum)
  consider (over) "\<not> unat offset + length buf \<le> unat (rr_len region)" | (short) "unat offset + length buf \<le> unat (rr_len region)"
      "\<not> (unat (rr_len region) \<le> length (concat bs) \<and> length (concat bs) < 2 ^ 64)"
    | (ok) "unat offset + length buf \<le> unat (rr_len region)" "unat (rr_len region) \<le> length (concat bs)" "length (concat bs) < 2 ^ 64"
    by blast
  then show ?thesis
  proof cases
    case over
    then show ?thesis
      using unat_plus [of offset "length buf"] by (auto simp: Channel_read_region_def m r add word_less_nat_alt)
  next
    case short
    then show ?thesis
      using unat_plus [of offset "length buf"] rl unat_of_nat64 [of "length (concat bs)"]
      by (auto simp: Channel_read_region_def m r add cov word_less_nat_alt)
  next
    case ok
    have "walk_extents ops (c_gm ch) (rr_extents region) buf offset = Ok (take (length buf) (drop (unat offset) (concat bs)))"
      using ok by (intro guest_memory.walk_extents_eq [OF mem inv x buf]) simp
    then show ?thesis
      using ok unat_plus [of offset "length buf"] rl unat_of_nat64 [of "length (concat bs)"]
      by (auto simp: Channel_read_region_def m r add cov word_less_nat_alt)
  qed
qed

text \<open>
  A region read is a slice of the region: over mapped extents, reading into a buffer at an offset
  returns exactly that many bytes of the extents' concatenation from that offset, and anything that
  would leave the region's length or exceed what the extents cover is refused as out of bounds.
\<close>

theorem read_region_slice:
  assumes mem: "guest_memory ops minv" and inv: "minv (c_gm ch)"
    and m: "Channel_read_manifest ops ch = Ok m" and r: "resolve m name = Some region"
    and x: "extents_mapped ops (c_gm ch) (rr_extents region) bs" and buf: "length buf < 2 ^ 64"
  shows "Channel_read_region ops ch name offset buf =
     (if unat offset + length buf \<le> unat (rr_len region) \<and> unat (rr_len region) \<le> length (concat bs)
         \<and> length (concat bs) < 2 ^ 64
      then Ok (take (length buf) (drop (unat offset) (concat bs))) else Err RE_OutOfBounds)"
  using assms by (rule region_slice)

theorem read_region_slice_witness:
  "Channel_read_region mock_ops (mock_channel demo_page) [0x77] 4 [9, 9, 9, 9]
     = Ok (take 4 (drop 4 (channel_header_bytes ChannelHeader_canonical)))
   \<and> Channel_read_region mock_ops (mock_channel demo_page) [0x77] 38 [9, 9, 9, 9] = Err RE_OutOfBounds"
proof -
  let ?b = "channel_header_bytes ChannelHeader_canonical"
  have gm: "c_gm (mock_channel demo_page) = page_mem demo_page"
    by (simp add: mock_channel_def fresh_channel_def)
  have inv: "mock_inv (c_gm (mock_channel demo_page))" using page_mem_inv demo_lengths(5) by (simp add: gm)
  have "take 48 demo_page = ?b"
    using demo_lengths(4) length_zero_page by (simp add: demo_page_def take_patch_before zero_page_def length_canonical_bytes)
  then have "gm_read mock_ops (page_mem demo_page) 0x10000000 48 = Ok ?b"
    using mock.window_read [OF page_mem_inv [OF demo_lengths(5)] page_mem_read [OF demo_lengths(5)], of 0 48] by simp
  then have x: "extents_mapped mock_ops (c_gm (mock_channel demo_page)) [demo_extent] [?b]"
    by (simp add: extents_mapped_def gm demo_extent_def)
  have four: "Suc (Suc (Suc (Suc 0))) = 4" by simp
  show ?thesis
    using read_region_slice [OF mock.guest_memory_axioms inv demo_manifest demo_resolve, of "[?b]"] x length_canonical_bytes
    by (simp add: four)
qed

end
