(* ===== verification/Utf8_Lossy.thy ===== *)
theory Utf8_Lossy
  imports Prelude
begin

text \<open>
  The standard library's \<open>String::from_utf8_lossy\<close>, which the host applies to interned names: valid
  UTF-8 sequences are copied, each maximal invalid prefix becomes U+FFFD. A \<open>String\<close> is its bytes.
  The lemmas show that the result is well-formed, that well-formed input is unchanged, and hence that
  the conversion is idempotent, so a name restored from a checkpoint equals the drained one.
\<close>

definition is_cont :: "u8 \<Rightarrow> bool" where
  "is_cont b \<longleftrightarrow> 0x80 \<le> b \<and> b \<le> 0xBF"

text \<open>The second byte's range after a three- and a four-byte lead.\<close>

definition second3 :: "u8 \<Rightarrow> u8 \<Rightarrow> bool" where
  "second3 b c \<longleftrightarrow>
     (if b = 0xE0 then 0xA0 \<le> c \<and> c \<le> 0xBF
      else if b = 0xED then 0x80 \<le> c \<and> c \<le> 0x9F
      else 0x80 \<le> c \<and> c \<le> 0xBF)"

definition second4 :: "u8 \<Rightarrow> u8 \<Rightarrow> bool" where
  "second4 b c \<longleftrightarrow>
     (if b = 0xF0 then 0x90 \<le> c \<and> c \<le> 0xBF
      else if b = 0xF4 then 0x80 \<le> c \<and> c \<le> 0x8F
      else 0x80 \<le> c \<and> c \<le> 0xBF)"

text \<open>
  One step of the decoder: whether a character starts here, and how many bytes it takes (or how many
  bytes the invalid prefix has). Bytes past the end read as zero, which no range accepts.
\<close>

definition utf8_class :: "u8 \<Rightarrow> (nat \<Rightarrow> u8) \<Rightarrow> bool \<times> nat" where
  "utf8_class b g =
     (if b < 0x80 then (True, 1)
      else if 0xC2 \<le> b \<and> b \<le> 0xDF then (if is_cont (g 0) then (True, 2) else (False, 1))
      else if 0xE0 \<le> b \<and> b \<le> 0xEF then
        (if second3 b (g 0) then (if is_cont (g 1) then (True, 3) else (False, 2)) else (False, 1))
      else if 0xF0 \<le> b \<and> b \<le> 0xF4 then
        (if second4 b (g 0)
         then (if is_cont (g 1) then (if is_cont (g 2) then (True, 4) else (False, 3)) else (False, 2))
         else (False, 1))
      else (False, 1))"

definition safe_get :: "bytes \<Rightarrow> nat \<Rightarrow> u8" where
  "safe_get bs i = (if i < length bs then bs ! i else 0)"

definition utf8_step :: "u8 \<Rightarrow> bytes \<Rightarrow> bool \<times> nat" where
  "utf8_step b rest = utf8_class b (safe_get rest)"

definition REPLACEMENT :: bytes where [simp]: "REPLACEMENT = [0xEF, 0xBF, 0xBD]"

function from_utf8_lossy :: "bytes \<Rightarrow> bytes" where
  "from_utf8_lossy [] = []"
| "from_utf8_lossy (b # rest) =
     (case utf8_step b rest of
        (ok, n) \<Rightarrow> (if ok then b # take (n - 1) rest else REPLACEMENT) @ from_utf8_lossy (drop (n - 1) rest))"
  by pat_completeness auto
termination
  by (relation "measure length") auto

function utf8_valid :: "bytes \<Rightarrow> bool" where
  "utf8_valid [] \<longleftrightarrow> True"
| "utf8_valid (b # rest) \<longleftrightarrow>
     (case utf8_step b rest of (ok, n) \<Rightarrow> ok \<and> utf8_valid (drop (n - 1) rest))"
  by pat_completeness auto
termination
  by (relation "measure length") auto

lemma not_cont_zero: "\<not> is_cont 0" "\<not> second3 b 0" "\<not> second4 b 0"
  by (auto simp: is_cont_def second3_def second4_def)

text \<open>A character that starts here lies inside the buffer, and what follows it does not matter.\<close>

lemma utf8_step_inside:
  assumes "utf8_step b rest = (True, n)"
  shows "0 < n" and "n - 1 \<le> length rest"
proof -
  have "is_cont (safe_get rest i) \<Longrightarrow> Suc i \<le> length rest" for i
    by (cases "i < length rest") (auto simp: safe_get_def not_cont_zero)
  then show "0 < n" "n - 1 \<le> length rest"
    using assms by (auto simp: utf8_step_def utf8_class_def numeral_eq_Suc split: if_splits)
qed

lemma utf8_class_cong:
  assumes "utf8_class b g = (True, n)" and "\<And>i. i < n - 1 \<Longrightarrow> g i = h i"
  shows "utf8_class b h = (True, n)"
proof -
  have "n = 1 \<or> n = 2 \<or> n = 3 \<or> n = 4" using assms(1) by (auto simp: utf8_class_def split: if_splits)
  then consider "n = 1" | "n = 2" "h 0 = g 0" | "n = 3" "h 0 = g 0" "h 1 = g 1"
    | "n = 4" "h 0 = g 0" "h 1 = g 1" "h 2 = g 2"
    using assms(2) [of 0] assms(2) [of 1] assms(2) [of 2] by auto
  then show ?thesis
    by cases (use assms(1) in \<open>auto simp: utf8_class_def split: if_splits\<close>)
qed

lemma utf8_step_extend:
  assumes "utf8_step b rest = (True, n)"
  shows "utf8_step b (take (n - 1) rest @ more) = (True, n)"
  unfolding utf8_step_def
proof (rule utf8_class_cong)
  show "utf8_class b (safe_get rest) = (True, n)" using assms by (simp add: utf8_step_def)
  show "safe_get rest i = safe_get (take (n - 1) rest @ more) i" if "i < n - 1" for i
    using that utf8_step_inside(2) [OF assms] by (auto simp: safe_get_def nth_append)
qed

lemma replacement_step: "utf8_step 0xEF (0xBF # 0xBD # more) = (True, 3)"
  by (simp add: utf8_step_def utf8_class_def safe_get_def second3_def is_cont_def)

lemma lossy_valid: "utf8_valid (from_utf8_lossy bs)"
proof (induction bs rule: from_utf8_lossy.induct)
  case (2 b rest)
  obtain ok n where st: "utf8_step b rest = (ok, n)" by (cases "utf8_step b rest")
  note IH = "2.IH" [OF st [symmetric]]
  show ?case
  proof (cases ok)
    case True
    have "length (take (n - 1) rest) = n - 1" using utf8_step_inside(2) [of b rest n] st True by simp
    then have d: "drop (n - 1) (take (n - 1) rest @ xs) = xs" for xs by simp
    show ?thesis
      using utf8_step_extend st True IH d by simp
  next
    case False
    then show ?thesis using IH st replacement_step by simp
  qed
qed simp

lemma lossy_id: "utf8_valid bs \<Longrightarrow> from_utf8_lossy bs = bs"
proof (induction bs rule: utf8_valid.induct)
  case (2 b rest)
  obtain ok n where st: "utf8_step b rest = (ok, n)" by (cases "utf8_step b rest")
  then show ?case using "2.IH" [OF st [symmetric]] "2.prems" by simp
qed simp

lemma lossy_idem: "from_utf8_lossy (from_utf8_lossy bs) = from_utf8_lossy bs"
  by (rule lossy_id [OF lossy_valid])

end
