(* ===== verification/Host_Drain.thy ===== *)
theory Host_Drain
  imports Host_Commands Utf8_Lossy
begin

text \<open>
  Draining the guest's rings: \<^verbatim>\<open>crates/detguest-host/src/drain.rs\<close>. The loop over the records
  of a ring is a terminating function (its measure is the number of bytes still available); it
  returns the channel and the events it leaves even when it stops with an error, because by then the
  intern table, the pending queries and the counters have been updated.

  The code's \<open>debug_assert\<close> that a record position leaves at least eight bytes before the end of the ring is
  \<open>drain_asserts\<close>: the drain itself is modelled as a release build runs it.

  The lemmas show that draining in a release build never panics and touches no guest memory but the two
  consumer indices, whatever the guest wrote, and that the assertion of a debug build holds when the consumer
  indices are aligned and can fail when they are not; that a ring that represents a queue of records is drained
  completely and in order; that the intern table keeps the first binding of a name id; and what an
  error on ring W does to the events of ring A.
\<close>

section \<open>Drained events\<close>

datatype owned_payload =
    Own_Hello u32 u32 u64
  | Own_NameIntern u32 bytes bool
  | Own_AssertViolation u32 u32 bytes
  | Own_Reachable u32
  | Own_Beacon u32
  | Own_InjectQuery u32 u32
  | Own_RegionRegister region_event
  | Own_RegionUpdate region_event
  | Own_WorkloadStarted u32 u32
  | Own_WorkloadExited u32 i32 i32
  | Own_LogLine u8 u8 bytes
  | Own_QuiesceReady u64
  | Own_FrameMark u32
  | Own_Ready u32 u32 u64

record guest_event =
  ge_ring :: ring_id
  ge_seq :: u32
  ge_vnanos :: u64
  ge_truncated :: bool
  ge_raw_record :: bytes
  ge_payload :: owned_payload

definition to_owned :: "u8 \<Rightarrow> event_payload \<Rightarrow> owned_payload option" where
  "to_owned flags p =
     (case p of
        Ev_Pad \<Rightarrow> None
      | Ev_Hello a b c \<Rightarrow> Some (Own_Hello a b c)
      | Ev_NameIntern name_id name \<Rightarrow> Some (Own_NameIntern name_id name (flags AND FLAG_REACHABLE_DECL \<noteq> 0))
      | Ev_AssertViolation a b d \<Rightarrow> Some (Own_AssertViolation a b d)
      | Ev_Reachable a \<Rightarrow> Some (Own_Reachable a)
      | Ev_Beacon a \<Rightarrow> Some (Own_Beacon a)
      | Ev_InjectQuery iseq name_id \<Rightarrow> Some (Own_InjectQuery iseq name_id)
      | Ev_RegionRegister r \<Rightarrow> Some (Own_RegionRegister r)
      | Ev_RegionUpdate r \<Rightarrow> Some (Own_RegionUpdate r)
      | Ev_WorkloadStarted a b \<Rightarrow> Some (Own_WorkloadStarted a b)
      | Ev_WorkloadExited a b c \<Rightarrow> Some (Own_WorkloadExited a b c)
      | Ev_LogLine a b m \<Rightarrow> Some (Own_LogLine a b m)
      | Ev_QuiesceReady a \<Rightarrow> Some (Own_QuiesceReady a)
      | Ev_FrameMark a \<Rightarrow> Some (Own_FrameMark a)
      | Ev_Ready a b c \<Rightarrow> Some (Own_Ready a b c))"

section \<open>Folding one record into the host state\<close>

definition fold_intern :: "u32 \<Rightarrow> bytes \<Rightarrow> bool \<Rightarrow> 'm channel \<Rightarrow> 'm channel" where
  "fold_intern name_id name reachable_decl self =
     (let lossy = from_utf8_lossy name
      in case bt_get (c_interns self) name_id of
           Some e \<Rightarrow>
             (let e' = e\<lparr>ie_reachable_decl := ie_reachable_decl e \<or> reachable_decl\<rparr>;
                  self = self\<lparr>c_interns := bt_insert name_id e' (c_interns self)\<rparr>
              in if ie_name e \<noteq> lossy
                 then self\<lparr>c_intern_redefinitions := c_intern_redefinitions self + 1\<rparr> else self)
         | None \<Rightarrow>
             self\<lparr>c_interns := bt_insert name_id \<lparr>ie_name = lossy, ie_reachable_decl = reachable_decl\<rparr> (c_interns self)\<rparr>)"

definition fold_payload :: "owned_payload \<Rightarrow> 'm channel \<Rightarrow> 'm channel" where
  "fold_payload owned self =
     (case owned of
        Own_NameIntern name_id name reachable_decl \<Rightarrow> fold_intern name_id name reachable_decl self
      | Own_InjectQuery iseq name_id \<Rightarrow>
          self\<lparr>c_pending_injects := bt_insert iseq name_id (c_pending_injects self)\<rparr>
      | _ \<Rightarrow> self)"

text \<open>
  What one decoded record does: \<open>None\<close> for an error that ends the drain, otherwise the channel and the
  events after it.
\<close>

definition fold_record ::
  "ring_id \<Rightarrow> bytes \<Rightarrow> 'm channel \<times> guest_event list \<Rightarrow> (wire_error, 'm channel \<times> guest_event list) res" where
  "fold_record ring rec = (\<lambda>(self, out).
     case decode_event rec of
       Ok (hdr, payload) \<Rightarrow>
         (case to_owned (rh_flags hdr) payload of
            Some owned \<Rightarrow>
              Ok (fold_payload owned self,
                  out @ [\<lparr>ge_ring = ring, ge_seq = rh_seq hdr, ge_vnanos = rh_vnanos hdr,
                          ge_truncated = (rh_flags hdr AND FLAG_TRUNCATED \<noteq> 0), ge_raw_record = rec,
                          ge_payload = owned\<rparr>])
          | None \<Rightarrow> Ok (self, out))
     | Err (UnknownKind k) \<Rightarrow> Ok (self\<lparr>c_unknown_kind_records := c_unknown_kind_records self + 1\<rparr>, out)
     | Err e \<Rightarrow> Err (WE_Decode e)
     | Panic \<Rightarrow> Panic)"

section \<open>The loop\<close>

text \<open>The record at a position: its length once framed, \<open>None\<close> for a partial record.\<close>

definition peek_len :: "u32 \<Rightarrow> u32 \<Rightarrow> bytes \<Rightarrow> (wire_error, u32 option) res" where
  "peek_len avail tail rec =
     (let len = ucast (le_at 2 rec 0 :: u16) :: u32;
          min_len = (if rec ! 2 = 0 then of_nat PAD_MIN_LEN else of_nat MIN_RECORD_LEN)
      in if len mod of_nat RECORD_ALIGN \<noteq> 0 \<or> len < min_len \<or> unat len > MAX_RECORD_LEN
         then Err (WE_Decode BadLen)
         else if len > avail then Ok None
         else if len > tail then Err (WE_Decode BadLen)
         else Ok (Some len))"

definition drain_next ::
  "'m guest_mem \<Rightarrow> ring_id \<Rightarrow> u32 \<Rightarrow> u32 \<Rightarrow> 'm channel \<Rightarrow> (wire_error, (u32 \<times> bytes) option) res" where
  "drain_next ops ring pos avail self =
     (let sz = rd_size (Channel_ring_desc self ring); data = data_gpa self ring;
          off = pos AND (sz - 1); tail = sz - off
      in bind_res (map_err WE_Mem (gm_read ops (c_gm self) (data + ucast off) PAD_MIN_LEN)) (\<lambda>rec.
         bind_res (peek_len avail tail rec) (\<lambda>l.
         case l of
           None \<Rightarrow> Ok None
         | Some len \<Rightarrow>
             bind_res (map_err WE_Mem (gm_read ops (c_gm self) (data + ucast off) (unat len))) (\<lambda>rec.
             Ok (Some (len, rec))))))"

lemma peek_len_Some:
  assumes "peek_len avail tail rec = Ok (Some len)"
  shows "8 \<le> unat len" and "unat len \<le> unat avail" and "unat len \<le> 4096"
  using assms by (auto simp: peek_len_def Let_def word_le_nat_alt word_less_nat_alt not_less split: if_splits)

lemma drain_next_Some:
  assumes "drain_next ops ring pos avail self = Ok (Some (len, rec))"
  shows "8 \<le> unat len" and "unat len \<le> unat avail" and "unat len \<le> 4096"
  using assms peek_len_Some
  by (auto simp: drain_next_def Let_def bind_res_eq_Ok split: option.splits)

lemma drain_next_less:
  assumes "drain_next ops ring pos avail self = Ok (Some (len, rec))"
  shows "unat (avail - len) < unat avail"
proof -
  note l = drain_next_Some [OF assms]
  then have "unat (avail - len) = unat avail - unat len" by (intro unat_sub_word) (simp add: word_le_nat_alt)
  with l show ?thesis by simp
qed

function drain_loop ::
  "'m guest_mem \<Rightarrow> ring_id \<Rightarrow> u32 \<Rightarrow> u32 \<Rightarrow> 'm channel \<Rightarrow> guest_event list
    \<Rightarrow> (wire_error, u32) res \<times> 'm channel \<times> guest_event list" where
  "drain_loop ops ring pos avail self out =
     (if avail < of_nat PAD_MIN_LEN then (Ok pos, self, out)
      else case drain_next ops ring pos avail self of
             Err e \<Rightarrow> (Err e, self, out)
           | Panic \<Rightarrow> (Panic, self, out)
           | Ok None \<Rightarrow> (Ok pos, self, out)
           | Ok (Some (len, rec)) \<Rightarrow>
               (case fold_record ring rec (self, out) of
                  Err e \<Rightarrow> (Err e, self, out)
                | Panic \<Rightarrow> (Panic, self, out)
                | Ok (self, out) \<Rightarrow> drain_loop ops ring (pos + len) (avail - len) self out))"
  by pat_completeness auto
termination
  by (relation "measure (\<lambda>(ops, ring, pos, avail, self, out). unat avail)") (auto intro: drain_next_less)

declare drain_loop.simps [simp del]

text \<open>The assertion of the loop, at every position it visits.\<close>

function drain_asserts :: "'m guest_mem \<Rightarrow> ring_id \<Rightarrow> u32 \<Rightarrow> u32 \<Rightarrow> 'm channel \<Rightarrow> guest_event list \<Rightarrow> bool" where
  "drain_asserts ops ring pos avail self out \<longleftrightarrow>
     avail < of_nat PAD_MIN_LEN
   \<or> (of_nat PAD_MIN_LEN \<le> rd_size (Channel_ring_desc self ring) - (pos AND (rd_size (Channel_ring_desc self ring) - 1))
      \<and> (case drain_next ops ring pos avail self of
            Ok (Some (len, rec)) \<Rightarrow>
              (case fold_record ring rec (self, out) of
                 Ok (self, out) \<Rightarrow> drain_asserts ops ring (pos + len) (avail - len) self out
               | _ \<Rightarrow> True)
          | _ \<Rightarrow> True))"
  by pat_completeness auto
termination
  by (relation "measure (\<lambda>(ops, ring, pos, avail, self, out). unat avail)") (auto intro: drain_next_less)

declare drain_asserts.simps [simp del]

definition drain_ring ::
  "'m guest_mem \<Rightarrow> ring_id \<Rightarrow> 'm channel \<Rightarrow> sink \<Rightarrow> guest_event list
    \<Rightarrow> (wire_error, unit) res \<times> 'm channel \<times> sink \<times> guest_event list" where
  "drain_ring ops ring self sink out =
     (let sz = rd_size (Channel_ring_desc self ring)
      in case bind_res (map_err WE_Mem (read_u32 ops (c_gm self) (prod_gpa self ring))) (\<lambda>prd.
              bind_res (map_err WE_Mem (read_u32 ops (c_gm self) (cons_gpa self ring))) (\<lambda>cons.
              let avail = prd - cons
              in if avail > sz then Err (WE_CorruptIndices ring) else Ok (cons, avail))) of
           Err e \<Rightarrow> (Err e, self, sink, out)
         | Panic \<Rightarrow> (Panic, self, sink, out)
         | Ok (cons, avail) \<Rightarrow>
             (case drain_loop ops ring cons avail self out of
                (Err e, self, out) \<Rightarrow> (Err e, self, sink, out)
              | (Panic, self, out) \<Rightarrow> (Panic, self, sink, out)
              | (Ok pos, self, out) \<Rightarrow>
                  if pos \<noteq> cons
                  then case write_u32 ops (c_gm self) (cons_gpa self ring) pos of
                         Ok gm \<Rightarrow> (Ok (), self\<lparr>c_gm := gm\<rparr>, cons_bump ring pos sink, out)
                       | Err e \<Rightarrow> (Err (WE_Mem e), self, sink, out)
                       | Panic \<Rightarrow> (Panic, self, sink, out)
                  else (Ok (), self, sink, out)))"

definition drain_events ::
  "'m guest_mem \<Rightarrow> 'm channel \<Rightarrow> sink \<Rightarrow> (wire_error, guest_event list) res \<times> 'm channel \<times> sink" where
  "drain_events ops self sink =
     (case drain_ring ops RingA self sink [] of
        (Err e, self, sink, out) \<Rightarrow> (Err e, self, sink)
      | (Panic, self, sink, out) \<Rightarrow> (Panic, self, sink)
      | (Ok _, self, sink, out) \<Rightarrow>
          (case drain_ring ops RingW self sink out of
             (Err e, self, sink, out) \<Rightarrow> (Err e, self, sink)
           | (Panic, self, sink, out) \<Rightarrow> (Panic, self, sink)
           | (Ok _, self, sink, out) \<Rightarrow> (Ok out, self, sink)))"

definition ring_asserts :: "'m guest_mem \<Rightarrow> ring_id \<Rightarrow> 'm channel \<Rightarrow> guest_event list \<Rightarrow> bool" where
  "ring_asserts ops ring self out \<longleftrightarrow>
     (case (read_u32 ops (c_gm self) (prod_gpa self ring), read_u32 ops (c_gm self) (cons_gpa self ring)) of
        (Ok prd, Ok cons) \<Rightarrow>
          prd - cons > rd_size (Channel_ring_desc self ring) \<or> drain_asserts ops ring cons (prd - cons) self out
      | _ \<Rightarrow> True)"

definition events_asserts :: "'m guest_mem \<Rightarrow> 'm channel \<Rightarrow> sink \<Rightarrow> bool" where
  "events_asserts ops self sink \<longleftrightarrow> ring_asserts ops RingA self []
     \<and> (case drain_ring ops RingA self sink [] of (Ok _, self, sink, out) \<Rightarrow> ring_asserts ops RingW self out | _ \<Rightarrow> True)"

section \<open>Frame\<close>

text \<open>What the fold leaves alone, and what it keeps of the tables.\<close>

definition drain_frame :: "'m channel \<Rightarrow> 'm channel \<Rightarrow> bool" where
  "drain_frame ch ch' \<longleftrightarrow>
     c_gm ch' = c_gm ch \<and> c_base ch' = c_base ch \<and> c_header ch' = c_header ch
     \<and> Channel_producer_seqs ch' = Channel_producer_seqs ch \<and> c_unmatched_injects ch' = c_unmatched_injects ch
     \<and> (bt_wf (c_interns ch) \<longrightarrow> bt_wf (c_interns ch'))
     \<and> (bt_wf (c_pending_injects ch) \<longrightarrow> bt_wf (c_pending_injects ch'))"

lemma drain_frame_refl [simp]: "drain_frame ch ch"
  by (simp add: drain_frame_def)

lemma drain_frame_trans: "drain_frame a b \<Longrightarrow> drain_frame b c \<Longrightarrow> drain_frame a c"
  by (simp add: drain_frame_def)

lemma fold_payload_frame: "drain_frame self (fold_payload owned self)"
  by (cases owned)
     (auto simp: fold_payload_def fold_intern_def drain_frame_def Channel_producer_seqs_def Let_def bt_wf_insert
       split: option.splits)

text \<open>An event that was appended is the decoding of its own bytes.\<close>

definition event_sound :: "guest_event \<Rightarrow> bool" where
  "event_sound e \<longleftrightarrow>
     (case decode_event (ge_raw_record e) of
        Ok (hdr, payload) \<Rightarrow>
          to_owned (rh_flags hdr) payload = Some (ge_payload e) \<and> ge_seq e = rh_seq hdr \<and> ge_vnanos e = rh_vnanos hdr
          \<and> (ge_truncated e \<longleftrightarrow> rh_flags hdr AND FLAG_TRUNCATED \<noteq> 0)
      | _ \<Rightarrow> False)"

lemma fold_record_OkD:
  assumes "fold_record ring rec (self, out) = Ok (self', out')"
  shows "drain_frame self self'" and "\<exists>evs. out' = out @ evs \<and> list_all (\<lambda>e. event_sound e \<and> ge_ring e = ring) evs"
proof -
  consider (unknown) k where "decode_event rec = Err (UnknownKind k)"
    | (ok) hdr p where "decode_event rec = Ok (hdr, p)"
    using assms by (auto simp: fold_record_def split: res.splits decode_error.splits)
  then have "drain_frame self self' \<and> (\<exists>evs. out' = out @ evs \<and> list_all (\<lambda>e. event_sound e \<and> ge_ring e = ring) evs)"
  proof cases
    case unknown
    then show ?thesis using assms by (auto simp: fold_record_def drain_frame_def Channel_producer_seqs_def)
  next
    case ok
    then show ?thesis
      using assms fold_payload_frame by (cases "to_owned (rh_flags hdr) p") (auto simp: fold_record_def event_sound_def)
  qed
  then show "drain_frame self self'" "\<exists>evs. out' = out @ evs \<and> list_all (\<lambda>e. event_sound e \<and> ge_ring e = ring) evs"
    by simp_all
qed

lemma fold_record_not_Panic: "fold_record ring rec st \<noteq> Panic"
  using decode_event_not_Panic [of rec]
  by (cases st) (auto simp: fold_record_def split: res.splits decode_error.splits option.splits)

text \<open>Record lengths are multiples of eight, so the loop keeps an aligned position aligned.\<close>

lemma drain_next_aligned:
  assumes "drain_next ops ring pos avail self = Ok (Some (len, rec))"
  shows "unat len mod 8 = 0"
proof -
  obtain rec' where "peek_len avail (rd_size (Channel_ring_desc self ring) - (pos AND (rd_size (Channel_ring_desc self ring) - 1))) rec' = Ok (Some len)"
    using assms by (auto simp: drain_next_def Let_def bind_res_eq_Ok split: option.splits)
  then have "len mod 8 = 0" by (auto simp: peek_len_def Let_def split: if_splits)
  then show ?thesis using unat_mod [of len 8] by simp
qed

lemma aligned_add:
  fixes pos len :: u32
  assumes "unat pos mod 8 = 0" and "unat len mod 8 = 0"
  shows "unat (pos + len) mod 8 = 0"
proof -
  have "unat (pos + len) mod 8 = (unat pos + unat len) mod 8"
    by (simp add: unat_word_ariths mod_mod_cancel)
  then show ?thesis using assms by (simp add: mod_add_eq [symmetric])
qed

lemma aligned_tail:
  assumes sz: "is_power_of_two (sz :: u32)" "8 \<le> sz" and pos: "unat pos mod 8 = 0"
  shows "8 \<le> sz - (pos AND (sz - 1))"
proof -
  obtain k where k: "k < 32" "unat sz = 2 ^ k" using sz(1) by (auto simp: is_power_of_two_iff)
  have "(2 :: nat) ^ 3 \<le> 2 ^ k" using sz(2) k(2) by (simp add: word_le_nat_alt)
  then have "3 \<le> k" by (metis one_less_numeral_iff power_le_imp_le_exp semiring_norm(76))
  then have d: "8 dvd unat sz" using le_imp_power_dvd [of 3 k "2 :: nat"] k(2) by simp
  moreover have "8 dvd unat pos" using pos by auto
  ultimately have "8 dvd unat pos mod unat sz" by (simp add: dvd_mod)
  moreover have "unat pos mod unat sz < unat sz" using k(2) by simp
  ultimately have "8 \<le> unat sz - unat pos mod unat sz" using d by (metis dvd_diff_nat dvd_imp_le zero_less_diff)
  then show ?thesis using any_tail [OF sz(1), of pos] by (simp add: word_le_nat_alt contiguous_tail_def)
qed

lemma aligned_asserts:
  assumes "is_power_of_two (rd_size (Channel_ring_desc self ring))"
  shows "unat pos mod 8 = 0 \<Longrightarrow> avail \<le> rd_size (Channel_ring_desc self ring) \<Longrightarrow> drain_asserts ops ring pos avail self out"
  using assms
proof (induction "unat avail" arbitrary: pos avail self out rule: less_induct)
  case (less avail pos self out)
  let ?sz = "rd_size (Channel_ring_desc self ring)"
  show ?case
  proof (cases "avail < 8")
    case True
    then show ?thesis by (simp add: drain_asserts.simps)
  next
    case False
    then have "8 \<le> ?sz" using less.prems(2) by simp
    note tail = aligned_tail [OF less.prems(3) this less.prems(1)]
    have step: "drain_asserts ops ring (pos + len) (avail - len) s1 o1"
      if nx: "drain_next ops ring pos avail self = Ok (Some (len, rec))" and f: "fold_record ring rec (self, out) = Ok (s1, o1)" for len rec s1 o1
    proof -
      have d: "Channel_ring_desc s1 ring = Channel_ring_desc self ring"
        using fold_record_OkD(1) [OF f] by (simp add: drain_frame_def Channel_ring_desc_def)
      have "avail - len \<le> ?sz" using less.prems(2) drain_next_less [OF nx] by (simp add: word_le_nat_alt)
      then show ?thesis
        using less.hyps [OF drain_next_less [OF nx] aligned_add [OF less.prems(1) drain_next_aligned [OF nx]]] less.prems(3) by (simp add: d)
    qed
    show ?thesis
      using tail step by (subst drain_asserts.simps) (auto split: res.splits option.splits)
  qed
qed

context guest_memory
begin

lemma drain_next_not_Panic: "inv (c_gm self) \<Longrightarrow> drain_next ops ring pos avail self \<noteq> Panic"
  using read_total [of "c_gm self"]
  by (auto simp: drain_next_def Let_def bind_res_eq_Panic peek_len_def split: option.splits if_splits)

lemma drain_loop_frame:
  "inv (c_gm self) \<Longrightarrow> drain_loop ops ring pos avail self out = (r, self', out') \<Longrightarrow>
     r \<noteq> Panic \<and> drain_frame self self' \<and> (\<exists>evs. out' = out @ evs \<and> list_all (\<lambda>e. event_sound e \<and> ge_ring e = ring) evs)"
proof (induction "unat avail" arbitrary: pos avail self out rule: less_induct)
  case less
  note unf = less.prems(2) [unfolded drain_loop.simps [of ops ring pos]]
  show ?case
  proof (cases "avail < 8")
    case True
    then show ?thesis using unf by auto
  next
    case False
    show ?thesis
    proof (cases "\<exists>len rec. drain_next ops ring pos avail self = Ok (Some (len, rec))")
      case True
      then obtain len rec where nx: "drain_next ops ring pos avail self = Ok (Some (len, rec))" by blast
      show ?thesis
      proof (cases "fold_record ring rec (self, out)")
        case (Ok st)
        then obtain s1 o1 where f: "fold_record ring rec (self, out) = Ok (s1, o1)" by (cases st) auto
        note fr = fold_record_OkD [OF f]
        have "drain_loop ops ring (pos + len) (avail - len) s1 o1 = (r, self', out')"
          using unf False nx f by simp
        moreover have "inv (c_gm s1)" using fr(1) less.prems(1) by (simp add: drain_frame_def)
        ultimately have "r \<noteq> Panic \<and> drain_frame s1 self' \<and> (\<exists>evs. out' = o1 @ evs \<and> list_all (\<lambda>e. event_sound e \<and> ge_ring e = ring) evs)"
          using less.hyps [OF drain_next_less [OF nx]] by blast
        then show ?thesis using fr drain_frame_trans by (fastforce simp: list_all_append)
      qed (use unf False nx fold_record_not_Panic in auto)
    next
      case no: False
      then show ?thesis
        using unf False drain_next_not_Panic [OF less.prems(1), of ring pos avail]
        by (cases "drain_next ops ring pos avail self") (auto split: option.splits)
    qed
  qed
qed

text \<open>Draining a ring writes nothing but its consumer cell.\<close>

lemma attached_frame: "attached ops inv ch page \<Longrightarrow> drain_frame ch ch' \<Longrightarrow> attached ops inv ch' page"
  by (simp add: attached_def drain_frame_def)

lemma attached_write_cons:
  assumes "attached ops inv ch page"
  shows "\<exists>gm. write_u32 ops (c_gm ch) (cons_gpa ch ring) v = Ok gm
     \<and> attached ops inv (ch\<lparr>c_gm := gm\<rparr>) (patch page (cons_offset ring) (to_le_bytes 4 v))"
  using assms window_write [of "c_gm ch" "c_base ch" CHANNEL_SIZE page "cons_offset ring" "to_le_bytes 4 v"]
    cell_offsets(2) [of ring]
  by (auto simp: write_u32_def cons_gpa_def attached_def)

lemma patch_cons_same:
  assumes "attached ops inv ch page"
  shows "patch page (cons_offset ring) (to_le_bytes 4 (rm_cons (page_ring (c_header ch) page ring))) = page"
  using attached_length [OF assms] cell_offsets(2) [of ring]
  by (simp add: page_ring_def Let_def to_le_bytes_le_at patch_self)

lemma drain_ring_frame:
  assumes att: "attached ops inv ch page" and d: "drain_ring ops ring ch sink out = (r, ch', sink', out')"
    and m: "m = page_ring (c_header ch) page ring"
  shows "r \<noteq> Panic \<and> (\<exists>gm. drain_frame (ch\<lparr>c_gm := gm\<rparr>) ch')
    \<and> (\<exists>evs. out' = out @ evs \<and> list_all (\<lambda>e. event_sound e \<and> ge_ring e = ring) evs)
    \<and> (\<exists>c. attached ops inv ch' (patch page (cons_offset ring) (to_le_bytes 4 (c :: u32)))
       \<and> (if c = rm_cons m then sink' = sink else sink' = sink @ [ConsBump ring c] \<and> r = Ok ()))"
proof -
  note cells = attached_cells [OF att, of ring, folded m] and same = patch_cons_same [OF att, of ring, folded m]
  have inv: "inv (c_gm ch)" using att by (simp add: attached_def)
  show ?thesis
  proof (cases "rm_prod m - rm_cons m > rd_size (Channel_ring_desc ch ring)")
    case True
    then have "r = Err (WE_CorruptIndices ring)" "ch' = ch" "sink' = sink" "out' = out"
      using d by (auto simp: drain_ring_def Let_def cells)
    then show ?thesis using att same by (auto intro!: exI [of _ "rm_cons m"] exI [of _ "c_gm ch"])
  next
    case False
    obtain r1 ch1 out1 where l: "drain_loop ops ring (rm_cons m) (rm_prod m - rm_cons m) ch out = (r1, ch1, out1)"
      by (rule prod_cases3)
    note fr = drain_loop_frame [OF inv l]
    then have att1: "attached ops inv ch1 page" using attached_frame [OF att] by blast
    show ?thesis
    proof (cases "\<exists>pos. r1 = Ok pos \<and> pos \<noteq> rm_cons m")
      case True
      then obtain pos where pos: "r1 = Ok pos" "pos \<noteq> rm_cons m" by blast
      obtain gm where gm: "write_u32 ops (c_gm ch1) (cons_gpa ch1 ring) pos = Ok gm"
          "attached ops inv (ch1\<lparr>c_gm := gm\<rparr>) (patch page (cons_offset ring) (to_le_bytes 4 pos))"
        using attached_write_cons [OF att1] by blast
      have e: "r = Ok ()" "ch' = ch1\<lparr>c_gm := gm\<rparr>" "sink' = sink @ [ConsBump ring pos]" "out' = out1"
        using d False l pos gm(1) by (auto simp: drain_ring_def Let_def cells cons_bump_def)
      have "drain_frame (ch\<lparr>c_gm := gm\<rparr>) ch'"
        using fr by (simp add: e drain_frame_def Channel_producer_seqs_def)
      then show ?thesis using fr gm(2) pos(2) e by auto
    next
      case no: False
      then have "r = Panic \<longleftrightarrow> r1 = Panic" "ch' = ch1" "sink' = sink" "out' = out1"
        using d False l by (auto simp: drain_ring_def Let_def cells split: res.splits if_splits)
      then show ?thesis using fr att1 same by (auto intro!: exI [of _ "rm_cons m"] exI [of _ "c_gm ch"])
    qed
  qed
qed

lemma ring_asserts_aligned:
  assumes att: "attached ops inv ch page" and al: "unat (rm_cons (page_ring (c_header ch) page ring)) mod 8 = 0"
  shows "ring_asserts ops ring ch out"
proof -
  have pw: "is_power_of_two (rd_size (Channel_ring_desc ch ring))"
    using att header_ring_placed(1) [of "c_header ch" ring] by (simp add: attached_def Channel_ring_desc_def ring_placed_def)
  have "drain_asserts ops ring (rm_cons (page_ring (c_header ch) page ring)) avail ch out" if "\<not> rd_size (Channel_ring_desc ch ring) < avail" for avail
    using aligned_asserts [OF pw al] that by (simp add: not_less)
  then show ?thesis using attached_cells [OF att, of ring] by (auto simp: ring_asserts_def)
qed

end

section \<open>Draining a queue\<close>

text \<open>What draining the records of a queue should do: fold them, in order.\<close>

primrec fold_records ::
  "ring_id \<Rightarrow> bytes list \<Rightarrow> 'm channel \<times> guest_event list \<Rightarrow> (wire_error, 'm channel \<times> guest_event list) res" where
  "fold_records ring [] st = Ok st"
| "fold_records ring (r # rs) st = bind_res (fold_record ring r st) (fold_records ring rs)"

lemma fold_records_frame:
  "fold_records ring rs (ch, out) = Ok (ch', out') \<Longrightarrow> drain_frame ch ch'"
proof (induction rs arbitrary: ch out)
  case (Cons r rs)
  then obtain c o1 where f: "fold_record ring r (ch, out) = Ok (c, o1)" "fold_records ring rs (c, o1) = Ok (ch', out')"
    by (auto simp: bind_res_eq_Ok)
  from fold_record_OkD(1) [OF f(1)] Cons.IH [OF f(2)] show ?case by (rule drain_frame_trans)
qed simp

text \<open>The same without the error plumbing, for records the drain accepts.\<close>

definition event_of :: "ring_id \<Rightarrow> bytes \<Rightarrow> guest_event option" where
  "event_of ring r =
     (case decode_event r of
        Ok (hdr, p) \<Rightarrow>
          map_option (\<lambda>owned. \<lparr>ge_ring = ring, ge_seq = rh_seq hdr, ge_vnanos = rh_vnanos hdr,
             ge_truncated = (rh_flags hdr AND FLAG_TRUNCATED \<noteq> 0), ge_raw_record = r, ge_payload = owned\<rparr>)
            (to_owned (rh_flags hdr) p)
      | _ \<Rightarrow> None)"

definition absorb :: "bytes \<Rightarrow> 'm channel \<Rightarrow> 'm channel" where
  "absorb r ch =
     (case decode_event r of
        Ok (hdr, p) \<Rightarrow> (case to_owned (rh_flags hdr) p of Some owned \<Rightarrow> fold_payload owned ch | None \<Rightarrow> ch)
      | _ \<Rightarrow> ch\<lparr>c_unknown_kind_records := c_unknown_kind_records ch + 1\<rparr>)"

lemma fold_record_eq:
  "drainable r \<Longrightarrow> fold_record ring r (ch, out) =
     Ok (absorb r ch, out @ (case event_of ring r of Some e \<Rightarrow> [e] | None \<Rightarrow> []))"
  by (auto simp: drainable_def fold_record_def absorb_def event_of_def
      split: res.splits decode_error.splits option.splits)

lemma fold_records_eq:
  "list_all drainable rs \<Longrightarrow> fold_records ring rs (ch, out) = Ok (fold absorb rs ch, out @ List.map_filter (event_of ring) rs)"
  by (induction rs arbitrary: ch out) (auto simp: fold_record_eq map_filter_simps split: option.splits)

lemma absorb_gm: "absorb r (ch\<lparr>c_gm := gm\<rparr>) = (absorb r ch)\<lparr>c_gm := gm\<rparr>"
  by (auto simp: absorb_def fold_payload_def fold_intern_def Let_def split: res.splits option.splits owned_payload.splits)

lemma fold_absorb_gm: "fold absorb rs (ch\<lparr>c_gm := gm\<rparr>) = (fold absorb rs ch)\<lparr>c_gm := gm\<rparr>"
  by (induction rs arbitrary: ch) (simp_all add: absorb_gm)

lemma fold_absorb_frame: "list_all drainable rs \<Longrightarrow> drain_frame ch (fold absorb rs ch)"
  using fold_records_frame [of RingA rs ch "[]" "fold absorb rs ch"] fold_records_eq [of rs RingA ch "[]"] by simp

lemma peek_len_good:
  assumes g: "good_record r" and w: "take (length r) win = r" and a: "length r \<le> unat avail" and t: "length r \<le> unat tail"
  shows "peek_len avail tail (take 8 win) = Ok (Some (of_nat (length r)))"
proof -
  have l: "8 \<le> length r" "length r \<le> 4096" "length r mod 8 = 0" using good_record_length [OF g] by simp_all
  have f: "pop_frame_ok r" "unat (le_at 2 r 0 :: u16) = length r" using good_record_frame [OF g] by simp_all
  have t8: "take 8 win = take 8 r" using arg_cong [OF w, of "take 8"] l by (simp add: min_def)
  have le: "le_at 2 (take 8 win) 0 = (le_at 2 r 0 :: u16)" "take 8 win ! 2 = r ! 2"
    unfolding t8 using l by (simp_all add: bufs)
  have u: "unat (of_nat (length r) :: u32) = length r" using l by (simp add: unat_of_nat)
  have len: "(ucast (le_at 2 r 0 :: u16) :: u32) = of_nat (length r)"
    unfolding f(2) [symmetric] by simp
  have m: "(of_nat (length r) :: u32) mod 8 = 0"
    using l(3) by (simp add: word_unat_eq_iff unat_mod u del: unsigned_of_nat)
  show ?thesis
    using f l a t unfolding peek_len_def Let_def le len
    by (simp add: word_less_nat_alt u m pop_frame_ok_def del: unsigned_of_nat split: if_splits)
qed

context guest_memory
begin

text \<open>Reads from a ring's data area are reads from its view.\<close>

lemma ring_read:
  assumes att: "attached ops inv ch page" and m: "m = page_ring (c_header ch) page ring"
    and s: "s = unat (rd_size (Channel_ring_desc ch ring))" and n: "unat pos mod s + n \<le> s"
  shows "gm_read ops (c_gm ch) (data_gpa ch ring + ucast (pos AND (rd_size (Channel_ring_desc ch ring) - 1))) n
     = Ok (take n (drop (unat pos mod s) (rm_data m)))"
proof -
  let ?d = "Channel_ring_desc ch ring"
  have d: "?d = ch_ring_desc (c_header ch) ! ring_index ring" by (simp add: Channel_ring_desc_def)
  have pl: "ring_placed ?d" using att header_ring_placed(1) unfolding d by (simp add: attached_def)
  then have fit: "unat (rd_offset ?d) + (unat pos mod s) + n \<le> CHANNEL_SIZE" and sz: "is_power_of_two (rd_size ?d)"
    using n by (auto simp: ring_placed_def s)
  have "take n (drop (unat pos mod s) (rm_data m)) = take n (drop (unat (rd_offset ?d) + unat pos mod s) page)"
    using n by (simp add: m page_ring_def Let_def d [symmetric] s [symmetric] drop_take min_def add.commute)
  then show ?thesis
    using window_read [of "c_gm ch" "c_base ch" CHANNEL_SIZE page "unat (rd_offset ?d) + unat pos mod s" n] fit att
    by (simp add: ring_address [OF sz] s [symmetric] attached_def)
qed

lemma drain_next_rep:
  assumes att: "attached ops inv ch page" and m: "m = page_ring (c_header ch) page ring"
    and s: "s = unat (rd_size (Channel_ring_desc ch ring))"
    and st: "stored s (rm_data m) (unat pos) (r # rs)" and g: "good_record r" and a: "length r \<le> unat avail"
  shows "drain_next ops ring pos avail ch = Ok (Some (of_nat (length r), r))"
proof -
  let ?sz = "rd_size (Channel_ring_desc ch ring)" and ?win = "drop (unat pos mod s) (rm_data m)"
  have w: "unat pos mod s + length r \<le> s" "take (length r) ?win = r" using st by auto
  have l: "8 \<le> length r" "length r \<le> 4096" using good_record_length [OF g] by auto
  have "ring_placed (Channel_ring_desc ch ring)"
    using att header_ring_placed(1) by (simp add: attached_def Channel_ring_desc_def)
  then have sz: "is_power_of_two ?sz" by (simp add: ring_placed_def)
  have tail: "unat (?sz - (pos AND (?sz - 1))) = s - unat pos mod s"
    using any_tail [OF sz, of pos] by (simp add: contiguous_tail_def s)
  have u: "unat (of_nat (length r) :: u32) = length r" using l by (simp add: unat_of_nat)
  have rd: "gm_read ops (c_gm ch) (data_gpa ch ring + ucast (pos AND (?sz - 1))) 8 = Ok (take 8 ?win)"
    "gm_read ops (c_gm ch) (data_gpa ch ring + ucast (pos AND (?sz - 1))) (length r) = Ok r"
    using ring_read [OF att m s, of pos 8] ring_read [OF att m s, of pos "length r"] w l by auto
  have "peek_len avail (?sz - (pos AND (?sz - 1))) (take 8 ?win) = Ok (Some (of_nat (length r)))"
    using w tail by (intro peek_len_good [OF g w(2) a]) simp
  then show ?thesis by (simp add: drain_next_def Let_def rd u del: unsigned_of_nat)
qed

lemma drain_loop_rep:
  "attached ops inv ch page \<Longrightarrow> m = page_ring (c_header ch) page ring \<Longrightarrow>
   s = unat (rd_size (Channel_ring_desc ch ring)) \<Longrightarrow> stored s (rm_data m) (unat pos) recs \<Longrightarrow>
   list_all good_record recs \<Longrightarrow> ring_total recs < 2 ^ 32 \<Longrightarrow> fold_records ring recs (ch, out) = Ok (ch', out') \<Longrightarrow>
   drain_loop ops ring pos (of_nat (ring_total recs)) ch out = (Ok (pos + of_nat (ring_total recs)), ch', out')"
proof (induction recs arbitrary: pos ch out)
  case Nil
  then show ?case by (simp add: drain_loop.simps)
next
  case (Cons r rs)
  obtain c o1 where f: "fold_record ring r (ch, out) = Ok (c, o1)" "fold_records ring rs (c, o1) = Ok (ch', out')"
    using Cons.prems(7) by (auto simp: bind_res_eq_Ok)
  have fr: "drain_frame ch c" by (rule fold_record_OkD(1) [OF f(1)])
  have same: "c_header c = c_header ch" "Channel_ring_desc c ring = Channel_ring_desc ch ring"
    using fr by (simp_all add: drain_frame_def Channel_ring_desc_def)
  have l: "8 \<le> length r" using Cons.prems(5) good_record_length by auto
  have pl: "ring_placed (Channel_ring_desc ch ring)"
    using Cons.prems(1) header_ring_placed(1) by (simp add: attached_def Channel_ring_desc_def)
  have av: "unat (of_nat (ring_total (r # rs)) :: u32) = ring_total (r # rs)"
    using Cons.prems(6) by (simp only: unat_of_nat) simp
  have nx: "drain_next ops ring pos (of_nat (ring_total (r # rs))) ch = Ok (Some (of_nat (length r), r))"
    using Cons.prems(5) by (intro drain_next_rep [OF Cons.prems(1-4)]) (simp_all only: av, simp_all)
  have sub: "of_nat (ring_total (r # rs)) - of_nat (length r) = (of_nat (ring_total rs) :: u32)" by simp
  have "stored s (rm_data m) (unat (pos + of_nat (length r))) rs"
    using Cons.prems(3,4) any_mod [of "rd_size (Channel_ring_desc ch ring)" pos "length r"] pl
      stored_mod [of "unat (pos + of_nat (length r))" s "unat pos + length r"]
    by (simp add: ring_placed_def)
  then have "drain_loop ops ring (pos + of_nat (length r)) (of_nat (ring_total rs)) c o1
      = (Ok (pos + of_nat (length r) + of_nat (ring_total rs)), ch', out')"
    using Cons.prems Cons.IH [OF attached_frame [OF Cons.prems(1) fr] _ _ _ _ _ f(2)] by (simp add: same)
  moreover have "\<not> (of_nat (ring_total (r # rs)) :: u32) < 8"
    using l by (simp only: word_less_nat_alt av) simp
  ultimately show ?case
    using nx f(1) by (subst drain_loop.simps) (simp only: sub, simp add: add.assoc)
qed

lemma drain_ring_rep:
  assumes att: "attached ops inv ch page" and m: "m = page_ring (c_header ch) page ring"
    and sz: "sz = rd_size (Channel_ring_desc ch ring)" and rep: "ring_rep sz m recs" and dr: "list_all drainable recs"
  shows "\<exists>gm. drain_ring ops ring ch sink out =
        (Ok (), (fold absorb recs ch)\<lparr>c_gm := gm\<rparr>,
         sink @ (if recs = [] then [] else [ConsBump ring (rm_prod m)]), out @ List.map_filter (event_of ring) recs)
     \<and> attached ops inv ((fold absorb recs ch)\<lparr>c_gm := gm\<rparr>) (patch page (cons_offset ring) (to_le_bytes 4 (rm_prod m)))"
proof -
  let ?ch = "fold absorb recs ch" and ?tot = "ring_total recs"
  note cells = attached_cells [OF att, of ring, folded m]
  have size: "ring_size_ok sz" and st: "stored (unat sz) (rm_data m) (unat (rm_cons m)) recs"
    and good: "list_all good_record recs" and prd: "rm_prod m = rm_cons m + of_nat ?tot" and tot: "?tot \<le> unat sz"
    using rep by (simp_all add: ring_rep_def)
  have small: "?tot < 2 ^ 32" using tot ring_size_facts(2) [OF size] by simp
  have av: "rm_prod m - rm_cons m = of_nat ?tot" using prd by simp
  have u: "unat (of_nat ?tot :: u32) = ?tot" using small by (simp only: unat_of_nat) simp
  have ok: "\<not> rd_size (Channel_ring_desc ch ring) < of_nat ?tot"
    using tot by (simp add: word_less_nat_alt u sz [symmetric] not_less del: unsigned_of_nat)
  have loop: "drain_loop ops ring (rm_cons m) (of_nat ?tot) ch out
      = (Ok (rm_prod m), ?ch, out @ List.map_filter (event_of ring) recs)"
    using drain_loop_rep [OF att m _ _ good small fold_records_eq [OF dr]] st by (simp add: sz prd)
  have fr: "drain_frame ch ?ch" by (rule fold_absorb_frame [OF dr])
  then have att': "attached ops inv ?ch page" by (rule attached_frame [OF att])
  show ?thesis
  proof (cases "recs = []")
    case True
    then have "rm_prod m = rm_cons m" "rm_cons m = rm_cons (page_ring (c_header ch) page ring)" using prd m by auto
    then show ?thesis
      using True att loop patch_cons_same [OF att, of ring]
      by (intro exI [of _ "c_gm ch"]) (simp add: drain_ring_def Let_def cells map_filter_simps)
  next
    case False
    then obtain r rs where "recs = r # rs" by (cases recs) auto
    then have "0 < ?tot" using good good_record_length [of r] by auto
    then have "of_nat ?tot \<noteq> (0 :: u32)" by (simp only: word_unat_eq_iff u) simp
    then have ne: "rm_prod m \<noteq> rm_cons m" using prd by simp
    obtain gm where gm: "write_u32 ops (c_gm ?ch) (cons_gpa ?ch ring) (rm_prod m) = Ok gm"
        "attached ops inv (?ch\<lparr>c_gm := gm\<rparr>) (patch page (cons_offset ring) (to_le_bytes 4 (rm_prod m)))"
      using attached_write_cons [OF att'] by blast
    have "drain_ring ops ring ch sink out =
        (Ok (), ?ch\<lparr>c_gm := gm\<rparr>, sink @ [ConsBump ring (rm_prod m)], out @ List.map_filter (event_of ring) recs)"
      using ne gm(1) ok by (simp add: drain_ring_def Let_def cells av loop cons_bump_def)
    with gm(2) False show ?thesis by auto
  qed
qed

end

section \<open>The intern table\<close>

text \<open>The binding a record carries, and what absorbing it does to a name id.\<close>

definition binding_of :: "bytes \<Rightarrow> (u32 \<times> bytes) option" where
  "binding_of r = (case decode_event r of Ok (_, Ev_NameIntern i n) \<Rightarrow> Some (i, n) | _ \<Rightarrow> None)"

lemma absorb_wf: "bt_wf (c_interns ch) \<Longrightarrow> bt_wf (c_interns (absorb r ch))"
  using fold_payload_frame [of ch]
  by (auto simp: absorb_def drain_frame_def split: res.splits option.splits)

lemma fold_intern_name:
  assumes "bt_wf (c_interns ch)"
  shows "intern_name (fold_intern j n d ch) i =
     (if i = j \<and> intern_name ch i = None then Some (from_utf8_lossy n) else intern_name ch i)"
  using assms by (auto simp: fold_intern_def intern_name_def Let_def bt_get_insert split: option.splits)

lemma absorb_intern:
  assumes "bt_wf (c_interns ch)"
  shows "intern_name (absorb r ch) i =
     (case binding_of r of
        Some (j, n) \<Rightarrow> if i = j \<and> intern_name ch i = None then Some (from_utf8_lossy n) else intern_name ch i
      | None \<Rightarrow> intern_name ch i)"
proof (cases "decode_event r")
  case (Ok x)
  obtain hdr p where x: "x = (hdr, p)" by (cases x)
  have "intern_name (ch\<lparr>c_pending_injects := q\<rparr>) i = intern_name ch i" for q by (simp add: intern_name_def)
  then show ?thesis
    using Ok x fold_intern_name [OF assms]
    by (cases p) (simp_all add: absorb_def binding_of_def to_owned_def fold_payload_def)
qed (simp_all add: absorb_def binding_of_def intern_name_def)

section \<open>A page with one event on ring A\<close>

definition intern_record :: bytes where
  "intern_record = event_image 0 5 0 (Ev_NameIntern 9 [0x61, 0xFF])"

definition event_page :: "u32 \<Rightarrow> bytes" where
  "event_page w_prod =
     patch (patch (patch zero_page OFF_RING_A_DATA intern_record) (prod_offset RingA) (to_le_bytes 4 (32 :: u32)))
       (prod_offset RingW) (to_le_bytes 4 w_prod)"

lemma intern_record_facts:
  "length intern_record = 32" "good_record intern_record"
  "decode_event intern_record = Ok (event_header 0 5 0 (Ev_NameIntern 9 [0x61, 0xFF]), Ev_NameIntern 9 [0x61, 0xFF])"
proof -
  have enc: "event_encodable (Ev_NameIntern 9 [0x61, 0xFF])" by simp
  show "length intern_record = 32"
    unfolding intern_record_def length_event_image [OF enc] by (simp add: encoded_event_len_def record_len_def pad8_def)
  show "good_record intern_record"
    unfolding intern_record_def using event_ring.good_image [of "(5, 0, Ev_NameIntern 9 [0x61, 0xFF])" 0] by simp
  show "decode_event intern_record = Ok (event_header 0 5 0 (Ev_NameIntern 9 [0x61, 0xFF]), Ev_NameIntern 9 [0x61, 0xFF])"
    unfolding intern_record_def using decode_event_image [OF enc, of 0 5 0 "[]"] by simp
qed

lemma intern_record_event:
  "drainable intern_record"
  "event_of RingA intern_record = Some \<lparr>ge_ring = RingA, ge_seq = 0, ge_vnanos = 5, ge_truncated = False,
     ge_raw_record = intern_record, ge_payload = Own_NameIntern 9 [0x61, 0xFF] False\<rparr>"
  "binding_of intern_record = Some (9, [0x61, 0xFF])"
  by (simp_all add: drainable_def event_of_def binding_of_def intern_record_facts to_owned_def event_header_def
      plain_header_def event_flags_def)

lemma event_page_facts:
  "length (event_page w) = CHANNEL_SIZE"
  "page_ring ChannelHeader_canonical (event_page w) RingA =
     \<lparr>rm_data = patch (replicate 0x10000 0) 0 intern_record, rm_prod = 32, rm_cons = 0\<rparr>"
  "page_ring ChannelHeader_canonical (event_page w) RingW =
     \<lparr>rm_data = replicate 0x100000 0, rm_prod = w, rm_cons = 0\<rparr>"
proof -
  let ?p1 = "patch zero_page OFF_RING_A_DATA intern_record"
  let ?p2 = "patch ?p1 (prod_offset RingA) (to_le_bytes 4 (32 :: u32))"
  note h = canonical_descs canonical_valid
  have l1: "length ?p1 = CHANNEL_SIZE" using length_zero_page by (simp add: intern_record_facts)
  then have l2: "length ?p2 = CHANNEL_SIZE" by (simp add: prod_offset_def)
  then show "length (event_page w) = CHANNEL_SIZE" by (simp add: event_page_def prod_offset_def)
  have off: "unat (rd_offset (canonical_desc RingA)) = OFF_RING_A_DATA" by (simp add: canonical_desc_def)
  note d = page_ring_data [OF h length_zero_page refl, of 0 intern_record RingA, unfolded canonical_ring off]
  have v1: "page_ring ChannelHeader_canonical ?p1 RingA = \<lparr>rm_data = patch (replicate 0x10000 0) 0 intern_record, rm_prod = 0, rm_cons = 0\<rparr>"
    "page_ring ChannelHeader_canonical ?p1 RingW = \<lparr>rm_data = replicate 0x100000 0, rm_prod = 0, rm_cons = 0\<rparr>"
    using d zero_page_ring [of RingA] zero_page_ring [of RingW]
    by (simp_all add: intern_record_facts canonical_ring)
  show "page_ring ChannelHeader_canonical (event_page w) RingA =
     \<lparr>rm_data = patch (replicate 0x10000 0) 0 intern_record, rm_prod = 32, rm_cons = 0\<rparr>"
    "page_ring ChannelHeader_canonical (event_page w) RingW = \<lparr>rm_data = replicate 0x100000 0, rm_prod = w, rm_cons = 0\<rparr>"
    unfolding event_page_def page_ring_cells(1) [OF h l2] page_ring_cells(1) [OF h l1] v1 by simp_all
qed

lemma event_page_rep:
  "ring_rep 0x10000 \<lparr>rm_data = patch (replicate 0x10000 0) 0 intern_record, rm_prod = 32, rm_cons = 0\<rparr> [intern_record]"
  "ring_rep 0x100000 \<lparr>rm_data = replicate 0x100000 0, rm_prod = 0, rm_cons = 0\<rparr> []"
  using pow2_sizes take_patch_0 [of intern_record "replicate 0x10000 0", unfolded intern_record_facts(1)]
  by (simp_all add: ring_rep_def ring_size_ok_def intern_record_facts ring_total_def)

section \<open>Properties\<close>

lemma two_cons_views:
  assumes h: "length (ch_ring_desc h) = 4" "ChannelHeader_validate h = Ok ()" and len: "length page = CHANNEL_SIZE"
  shows "page_ring h (patch (patch page (cons_offset RingA) (to_le_bytes 4 x)) (cons_offset RingW) (to_le_bytes 4 y)) r =
     (if r = RingA then (page_ring h page r)\<lparr>rm_cons := x\<rparr>
      else if r = RingW then (page_ring h page r)\<lparr>rm_cons := y\<rparr> else page_ring h page r)"
proof -
  have "length (patch page (cons_offset RingA) (to_le_bytes 4 x)) = CHANNEL_SIZE"
    using len cell_offsets(2) [of RingA] by simp
  then show ?thesis by (simp add: page_ring_cells(2) [OF h] len)
qed

definition bumped :: "ring_id \<Rightarrow> ring_mem \<Rightarrow> bytes list \<Rightarrow> sink" where
  "bumped ring m recs = (if recs = [] then [] else [ConsBump ring (rm_prod m)])"

lemma drain_events_rep:
  assumes mem: "guest_memory ops minv" and att: "attached ops minv ch page"
    and ma: "ma = page_ring (c_header ch) page RingA" and mw: "mw = page_ring (c_header ch) page RingW"
    and ra: "ring_rep (rd_size (Channel_ring_desc ch RingA)) ma recs_a" "list_all drainable recs_a"
    and rw: "ring_rep (rd_size (Channel_ring_desc ch RingW)) mw recs_w" "list_all drainable recs_w"
  shows "\<exists>gm page'. drain_events ops ch sink =
        (Ok (List.map_filter (event_of RingA) recs_a @ List.map_filter (event_of RingW) recs_w),
         (fold absorb (recs_a @ recs_w) ch)\<lparr>c_gm := gm\<rparr>, sink @ bumped RingA ma recs_a @ bumped RingW mw recs_w)
     \<and> attached ops minv ((fold absorb (recs_a @ recs_w) ch)\<lparr>c_gm := gm\<rparr>) page'
     \<and> page' = patch (patch page (cons_offset RingA) (to_le_bytes 4 (rm_prod ma)))
                 (cons_offset RingW) (to_le_bytes 4 (rm_prod mw))
     \<and> (\<forall>r. page_ring (c_header ch) page' r =
          (let m = page_ring (c_header ch) page r in if r = RingA \<or> r = RingW then m\<lparr>rm_cons := rm_prod m\<rparr> else m))"
proof -
  let ?c1 = "fold absorb recs_a ch" and ?p1 = "patch page (cons_offset RingA) (to_le_bytes 4 (rm_prod ma))"
  let ?p2 = "patch ?p1 (cons_offset RingW) (to_le_bytes 4 (rm_prod mw))"
  note ring = guest_memory.drain_ring_rep [OF mem]
  obtain g1 where g1: "drain_ring ops RingA ch sink [] =
        (Ok (), ?c1\<lparr>c_gm := g1\<rparr>, sink @ bumped RingA ma recs_a, List.map_filter (event_of RingA) recs_a)"
      "attached ops minv (?c1\<lparr>c_gm := g1\<rparr>) ?p1"
    using ring [OF att ma refl ra, of sink "[]"] by (auto simp: bumped_def)
  have fr: "drain_frame ch ?c1" by (rule fold_absorb_frame [OF ra(2)])
  then have same: "c_header (?c1\<lparr>c_gm := g1\<rparr>) = c_header ch"
    "Channel_ring_desc (?c1\<lparr>c_gm := g1\<rparr>) RingW = Channel_ring_desc ch RingW"
    by (simp_all add: drain_frame_def Channel_ring_desc_def)
  have h: "length (ch_ring_desc (c_header ch)) = 4" "ChannelHeader_validate (c_header ch) = Ok ()"
    using att by (simp_all add: attached_def)
  note v1 = page_ring_cells(2) [OF h guest_memory.attached_length [OF mem att]]
  have mw': "mw = page_ring (c_header (?c1\<lparr>c_gm := g1\<rparr>)) ?p1 RingW" by (simp add: same(1) [simplified] v1 mw)
  obtain g2 where g2: "drain_ring ops RingW (?c1\<lparr>c_gm := g1\<rparr>) (sink @ bumped RingA ma recs_a) (List.map_filter (event_of RingA) recs_a) =
        (Ok (), (fold absorb recs_w (?c1\<lparr>c_gm := g1\<rparr>))\<lparr>c_gm := g2\<rparr>, (sink @ bumped RingA ma recs_a) @ bumped RingW mw recs_w,
         List.map_filter (event_of RingA) recs_a @ List.map_filter (event_of RingW) recs_w)"
      "attached ops minv ((fold absorb recs_w (?c1\<lparr>c_gm := g1\<rparr>))\<lparr>c_gm := g2\<rparr>) ?p2"
    using ring [OF g1(2) mw' refl, unfolded same(2), OF rw, of "sink @ bumped RingA ma recs_a"] unfolding bumped_def by blast
  have c2: "(fold absorb recs_w (?c1\<lparr>c_gm := g1\<rparr>))\<lparr>c_gm := g2\<rparr> = (fold absorb (recs_a @ recs_w) ch)\<lparr>c_gm := g2\<rparr>"
    by (simp add: fold_absorb_gm)
  have "page_ring (c_header ch) ?p2 r =
      (let m = page_ring (c_header ch) page r in if r = RingA \<or> r = RingW then m\<lparr>rm_cons := rm_prod m\<rparr> else m)" for r
    unfolding two_cons_views [OF h guest_memory.attached_length [OF mem att]] by (simp add: ma mw Let_def)
  then show ?thesis
    using g2(2) unfolding c2
    by (intro exI [of _ g2] exI [of _ ?p2]) (simp add: drain_events_def g1(1) g2(1) c2 [simplified])
qed

text \<open>
  C7. Draining delivers everything, once and in order: when rings A and W represent queues of
  records that decode (or have a kind unknown to this version), \<open>drain_events\<close> returns the events of
  ring A followed by those of ring W, each in ring order, pads and unknown kinds left out; the intern
  table, the pending queries and the counters absorb the records in that order; both rings are empty
  afterwards and nothing else in the page changes; and the sink gets one index bump per non-empty
  ring.
\<close>

theorem drain_events_delivers:
  assumes mem: "guest_memory ops minv" and att: "attached ops minv ch page"
    and ma: "ma = page_ring (c_header ch) page RingA" and mw: "mw = page_ring (c_header ch) page RingW"
    and ra: "ring_rep (rd_size (Channel_ring_desc ch RingA)) ma recs_a" "list_all drainable recs_a"
    and rw: "ring_rep (rd_size (Channel_ring_desc ch RingW)) mw recs_w" "list_all drainable recs_w"
  shows "\<exists>gm page'. drain_events ops ch sink =
        (Ok (List.map_filter (event_of RingA) recs_a @ List.map_filter (event_of RingW) recs_w),
         (fold absorb (recs_a @ recs_w) ch)\<lparr>c_gm := gm\<rparr>, sink @ bumped RingA ma recs_a @ bumped RingW mw recs_w)
     \<and> attached ops minv ((fold absorb (recs_a @ recs_w) ch)\<lparr>c_gm := gm\<rparr>) page'
     \<and> page' = patch (patch page (cons_offset RingA) (to_le_bytes 4 (rm_prod ma)))
                 (cons_offset RingW) (to_le_bytes 4 (rm_prod mw))
     \<and> (\<forall>r. page_ring (c_header ch) page' r =
          (let m = page_ring (c_header ch) page r in if r = RingA \<or> r = RingW then m\<lparr>rm_cons := rm_prod m\<rparr> else m))"
  by (rule drain_events_rep [OF assms])

lemma event_channel:
  "attached mock_ops mock_inv (mock_channel (event_page w)) (event_page w)"
  "c_header (mock_channel (event_page w)) = ChannelHeader_canonical"
  "rd_size (Channel_ring_desc (mock_channel (event_page w)) RingA) = 0x10000"
  "rd_size (Channel_ring_desc (mock_channel (event_page w)) RingW) = 0x100000"
  using mock_channel_attached [OF event_page_facts(1)]
  by (simp_all add: mock_channel_def fresh_channel_def Channel_ring_desc_def canonical_ring)

theorem drain_events_delivers_witness:
  "\<exists>gm. drain_events mock_ops (mock_channel (event_page 0)) [] =
     (Ok [\<lparr>ge_ring = RingA, ge_seq = 0, ge_vnanos = 5, ge_truncated = False, ge_raw_record = intern_record,
           ge_payload = Own_NameIntern 9 [0x61, 0xFF] False\<rparr>],
      (absorb intern_record (mock_channel (event_page 0)))\<lparr>c_gm := gm\<rparr>, [ConsBump RingA 32])"
  using drain_events_delivers [OF mock.guest_memory_axioms event_channel(1) [of 0] refl refl,
      where recs_a = "[intern_record]" and recs_w = "[]" and sink = "[]", unfolded event_channel event_page_facts,
      OF event_page_rep(1) _ event_page_rep(2)]
  by (auto simp: intern_record_event bumped_def map_filter_simps)

lemma drain_events_frame:
  assumes mem: "guest_memory ops minv" and att: "attached ops minv ch page"
    and d: "drain_events ops ch sink = (r, ch', sink')"
    and wf: "bt_wf (c_interns ch)" "bt_wf (c_pending_injects ch)"
  shows "r \<noteq> Panic \<and> bt_wf (c_interns ch') \<and> bt_wf (c_pending_injects ch')
     \<and> c_header ch' = c_header ch \<and> Channel_producer_seqs ch' = Channel_producer_seqs ch
     \<and> (\<exists>x y. attached ops minv ch' (patch (patch page (cons_offset RingA) (to_le_bytes 4 (x :: u32)))
            (cons_offset RingW) (to_le_bytes 4 (y :: u32))))
     \<and> (\<forall>evs. r = Ok evs \<longrightarrow> list_all event_sound evs \<and> list_all (\<lambda>e. ge_ring e = RingA \<or> ge_ring e = RingW) evs)"
proof -
  note frame = guest_memory.drain_ring_frame [OF mem]
  obtain ra ca sa oa where a: "drain_ring ops RingA ch sink [] = (ra, ca, sa, oa)" by (rule prod_cases4)
  from frame [OF att a refl] obtain ga x evs where fa: "ra \<noteq> Panic" "drain_frame (ch\<lparr>c_gm := ga\<rparr>) ca"
      "oa = evs" "list_all (\<lambda>e. event_sound e \<and> ge_ring e = RingA) evs"
      "attached ops minv ca (patch page (cons_offset RingA) (to_le_bytes 4 (x :: u32)))"
    by auto
  let ?p = "patch page (cons_offset RingA) (to_le_bytes 4 x)"
  have keep: "patch ?p (cons_offset RingW) (to_le_bytes 4 (rm_cons (page_ring (c_header ca) ?p RingW))) = ?p"
    by (rule guest_memory.patch_cons_same [OF mem fa(5)])
  obtain rw cw sw ow where w: "drain_ring ops RingW ca sa oa = (rw, cw, sw, ow)" by (rule prod_cases4)
  from frame [OF fa(5) w refl] obtain gw y evs' where fw: "rw \<noteq> Panic" "drain_frame (ca\<lparr>c_gm := gw\<rparr>) cw"
      "ow = oa @ evs'" "list_all (\<lambda>e. event_sound e \<and> ge_ring e = RingW) evs'"
      "attached ops minv cw (patch ?p (cons_offset RingW) (to_le_bytes 4 (y :: u32)))"
    by auto
  have sound: "list_all event_sound ow" "list_all (\<lambda>e. ge_ring e = RingA \<or> ge_ring e = RingW) ow"
    using fa(3,4) fw(3,4) by (auto simp: list_all_iff)
  show ?thesis
  proof (cases ra)
    case (Ok u)
    then have "ch' = cw" "r = (case rw of Ok _ \<Rightarrow> Ok ow | Err e \<Rightarrow> Err e | Panic \<Rightarrow> Panic)"
      using d a w by (auto simp: drain_events_def split: res.splits)
    then show ?thesis
      using fa fw wf sound by (cases rw) (auto simp: drain_frame_def Channel_producer_seqs_def)
  next
    case (Err e)
    then have "ch' = ca" "r = Err e" using d a by (auto simp: drain_events_def)
    then show ?thesis
      using fa(2,5) wf keep by (auto simp: drain_frame_def Channel_producer_seqs_def) metis+
  qed (use fa in simp)
qed

lemma events_asserts_aligned:
  assumes mem: "guest_memory ops minv" and att: "attached ops minv ch page"
    and al: "unat (rm_cons (page_ring (c_header ch) page RingA)) mod 8 = 0" "unat (rm_cons (page_ring (c_header ch) page RingW)) mod 8 = 0"
  shows "events_asserts ops ch sink"
proof -
  obtain ra ca sa oa where a: "drain_ring ops RingA ch sink [] = (ra, ca, sa, oa)" by (rule prod_cases4)
  from guest_memory.drain_ring_frame [OF mem att a refl] obtain g x where f: "drain_frame (ch\<lparr>c_gm := g\<rparr>) ca"
      "attached ops minv ca (patch page (cons_offset RingA) (to_le_bytes 4 (x :: u32)))"
    by auto
  have h: "length (ch_ring_desc (c_header ch)) = 4" "ChannelHeader_validate (c_header ch) = Ok ()" using att by (simp_all add: attached_def)
  have "c_header ca = c_header ch" using f(1) by (simp add: drain_frame_def)
  moreover have "page_ring (c_header ch) (patch page (cons_offset RingA) (to_le_bytes 4 x)) RingW = page_ring (c_header ch) page RingW"
    using page_ring_cells(2) [OF h guest_memory.attached_length [OF mem att]] by simp
  ultimately have "ring_asserts ops RingW ca oa"
    using guest_memory.ring_asserts_aligned [OF mem f(2), of RingW] al(2) by simp
  then show ?thesis
    using guest_memory.ring_asserts_aligned [OF mem att al(1)] a by (simp add: events_asserts_def split: res.splits)
qed

text \<open>
  C17. Draining is safe on any memory: whatever bytes the guest left in the page, \<open>drain_events\<close> as a release build
  runs it terminates without a panic; it writes nothing but the consumer indices of rings A and W; the producer sequence
  numbers and the order of both host tables survive; and every event it returns is the decoding of the raw record it
  carries, from ring A or W. A debug build adds one assertion to the loop, and it holds at every record as long as the
  two consumer indices in the page are multiples of eight, whatever else the guest wrote; the indices are
  guest-writable, and a misaligned one makes the assertion fail (\<open>drain_assertion_reachable\<close>).
\<close>

theorem drain_events_contained:
  assumes mem: "guest_memory ops minv" and att: "attached ops minv ch page"
    and d: "drain_events ops ch sink = (r, ch', sink')"
    and wf: "bt_wf (c_interns ch)" "bt_wf (c_pending_injects ch)"
  shows "r \<noteq> Panic \<and> bt_wf (c_interns ch') \<and> bt_wf (c_pending_injects ch')
     \<and> c_header ch' = c_header ch \<and> Channel_producer_seqs ch' = Channel_producer_seqs ch
     \<and> (\<exists>x y. attached ops minv ch' (patch (patch page (cons_offset RingA) (to_le_bytes 4 (x :: u32)))
            (cons_offset RingW) (to_le_bytes 4 (y :: u32))))
     \<and> (\<forall>evs. r = Ok evs \<longrightarrow> list_all event_sound evs \<and> list_all (\<lambda>e. ge_ring e = RingA \<or> ge_ring e = RingW) evs)
     \<and> (unat (rm_cons (page_ring (c_header ch) page RingA)) mod 8 = 0 \<longrightarrow> unat (rm_cons (page_ring (c_header ch) page RingW)) mod 8 = 0 \<longrightarrow>
          events_asserts ops ch sink)"
  using drain_events_frame [OF assms] events_asserts_aligned [OF mem att, of sink] by simp

theorem drain_events_contained_witness:
  "case drain_events mock_ops (mock_channel (event_page 0xFFFFFFF0)) [] of (r, ch', sink') \<Rightarrow>
     r \<noteq> Panic \<and> bt_wf (c_interns ch') \<and> Channel_producer_seqs ch' = \<lparr>ps_ring_c = 0, ps_ring_i = 0\<rparr>"
  using drain_events_contained [OF mock.guest_memory_axioms event_channel(1) [of "0xFFFFFFF0"], where sink = "[]"]
  by (auto simp: mock_channel_def fresh_channel_def bt_wf_def Channel_producer_seqs_def split: prod.splits)

text \<open>
  The assertion of the drain loop can be made to fail by the guest: with eight bytes available from a consumer index
  that lies four bytes before the end of the ring, the tail is shorter than the smallest record. A release build
  answers such a page with an error.
\<close>

theorem drain_assertion_reachable:
  "let page = patch (patch zero_page (prod_offset RingA) (to_le_bytes 4 (0x10004 :: u32))) (cons_offset RingA) (to_le_bytes 4 (0xFFFC :: u32))
   in \<not> events_asserts mock_ops (mock_channel page) []"
proof -
  let ?p1 = "patch zero_page (prod_offset RingA) (to_le_bytes 4 (0x10004 :: u32))"
  let ?page = "patch ?p1 (cons_offset RingA) (to_le_bytes 4 (0xFFFC :: u32))"
  let ?ch = "mock_channel ?page"
  have len: "length ?p1 = CHANNEL_SIZE" "length ?page = CHANNEL_SIZE"
    using length_zero_page by (simp_all add: prod_offset_def cons_offset_def)
  have hdr: "c_header ?ch = ChannelHeader_canonical" by (simp add: mock_channel_def fresh_channel_def)
  have v: "rm_prod (page_ring ChannelHeader_canonical ?page RingA) = 0x10004" "rm_cons (page_ring ChannelHeader_canonical ?page RingA) = 0xFFFC"
    by (simp_all add: page_ring_cells [OF canonical_descs canonical_valid] len(1) length_zero_page)
  note cells = guest_memory.attached_cells [OF mock.guest_memory_axioms mock_channel_attached [OF len(2)], of RingA, unfolded hdr v]
  have d: "rd_size (Channel_ring_desc ?ch RingA) = 0x10000" by (simp add: Channel_ring_desc_def hdr canonical_ring)
  have "\<not> drain_asserts mock_ops RingA 0xFFFC 8 ?ch []" by (subst drain_asserts.simps) (simp add: d)
  then show ?thesis using cells by (simp add: events_asserts_def ring_asserts_def d)
qed

text \<open>
  An error on ring W loses the events of ring A: when ring A holds records and ring W's indices
  are corrupt, \<open>drain_events\<close> reports the corruption and returns no events, but ring A's consumer index
  has already been advanced past its records and reported to the sink, so no later drain sees them.
\<close>

theorem drain_error_loses_events:
  assumes mem: "guest_memory ops minv" and att: "attached ops minv ch page"
    and ma: "ma = page_ring (c_header ch) page RingA" and mw: "mw = page_ring (c_header ch) page RingW"
    and ra: "ring_rep (rd_size (Channel_ring_desc ch RingA)) ma recs" "list_all drainable recs"
    and bad: "rd_size (Channel_ring_desc ch RingW) < used (rm_prod mw) (rm_cons mw)"
  shows "\<exists>gm page'. drain_events ops ch sink =
        (Err (WE_CorruptIndices RingW), (fold absorb recs ch)\<lparr>c_gm := gm\<rparr>, sink @ bumped RingA ma recs)
     \<and> attached ops minv ((fold absorb recs ch)\<lparr>c_gm := gm\<rparr>) page'
     \<and> ring_rep (rd_size (Channel_ring_desc ch RingA)) (page_ring (c_header ch) page' RingA) []"
proof -
  let ?c = "fold absorb recs ch" and ?p = "patch page (cons_offset RingA) (to_le_bytes 4 (rm_prod ma))"
  obtain g where g: "drain_ring ops RingA ch sink [] =
        (Ok (), ?c\<lparr>c_gm := g\<rparr>, sink @ bumped RingA ma recs, List.map_filter (event_of RingA) recs)"
      "attached ops minv (?c\<lparr>c_gm := g\<rparr>) ?p"
    using guest_memory.drain_ring_rep [OF mem att ma refl ra, of sink "[]"] by (auto simp: bumped_def)
  have "drain_frame ch ?c" by (rule fold_absorb_frame [OF ra(2)])
  then have same: "c_header (?c\<lparr>c_gm := g\<rparr>) = c_header ch"
    "Channel_ring_desc (?c\<lparr>c_gm := g\<rparr>) RingW = Channel_ring_desc ch RingW"
    by (simp_all add: drain_frame_def Channel_ring_desc_def)
  have h: "length (ch_ring_desc (c_header ch)) = 4" "ChannelHeader_validate (c_header ch) = Ok ()"
    using att by (simp_all add: attached_def)
  note v = page_ring_cells(2) [OF h guest_memory.attached_length [OF mem att]]
  have mw': "page_ring (c_header (?c\<lparr>c_gm := g\<rparr>)) ?p RingW = mw" by (simp add: same(1) [simplified] v mw)
  note cells = guest_memory.attached_cells [OF mem g(2), of RingW, unfolded mw']
  have "drain_ring ops RingW (?c\<lparr>c_gm := g\<rparr>) s out = (Err (WE_CorruptIndices RingW), ?c\<lparr>c_gm := g\<rparr>, s, out)" for s out
    unfolding drain_ring_def Let_def cells same(2) using bad by (simp add: used_def)
  then have d: "drain_events ops ch sink = (Err (WE_CorruptIndices RingW), ?c\<lparr>c_gm := g\<rparr>, sink @ bumped RingA ma recs)"
    by (simp add: drain_events_def g(1))
  have e: "ring_rep (rd_size (Channel_ring_desc ch RingA)) (page_ring (c_header ch) ?p RingA) []"
    using ra(1) ring_rep_drained by (simp add: v ma)
  show ?thesis
    by (intro exI [of _ g] exI [of _ ?p] conjI d g(2) e)
qed

theorem drain_error_loses_events_witness:
  "\<exists>gm. drain_events mock_ops (mock_channel (event_page 0xFFFFFFF0)) [] =
     (Err (WE_CorruptIndices RingW), (absorb intern_record (mock_channel (event_page 0xFFFFFFF0)))\<lparr>c_gm := gm\<rparr>,
      [ConsBump RingA 32])"
  using drain_error_loses_events [OF mock.guest_memory_axioms event_channel(1) [of "0xFFFFFFF0"] refl refl,
      where recs = "[intern_record]" and sink = "[]", unfolded event_channel event_page_facts, OF event_page_rep(1)]
  by (auto simp: intern_record_event bumped_def used_def)

lemma map_filter_append: "List.map_filter f (xs @ ys) = List.map_filter f xs @ List.map_filter f ys"
  by (simp add: List.map_filter_def)

lemma fold_absorb_intern:
  assumes "bt_wf (c_interns ch)"
  shows "intern_name (fold absorb recs ch) i =
     (case intern_name ch i of
        Some n \<Rightarrow> Some n
      | None \<Rightarrow> map_option from_utf8_lossy (map_of (List.map_filter binding_of recs) i))"
  using assms
proof (induction recs arbitrary: ch)
  case Nil
  then show ?case by (simp add: map_filter_simps split: option.splits)
next
  case (Cons r rs)
  have wf: "bt_wf (c_interns (absorb r ch))" using absorb_wf [OF Cons.prems] .
  show ?case
    using Cons.IH [OF wf] absorb_intern [OF Cons.prems, of r i]
    by (auto simp: map_filter_simps split: option.splits if_splits prod.splits)
qed

text \<open>
  First binding wins: after absorbing any records in any number of drains, a name id resolves to
  the binding it had before, or else to the lossy UTF-8 form of the first \<open>NameIntern\<close> record that
  names it; later bindings of the same id never change the name.
\<close>

theorem intern_first_wins:
  assumes "bt_wf (c_interns ch)"
  shows "intern_name (fold absorb recs ch) i =
     (case intern_name ch i of
        Some n \<Rightarrow> Some n
      | None \<Rightarrow> map_option from_utf8_lossy (map_of (List.map_filter binding_of recs) i))"
  by (rule fold_absorb_intern [OF assms])

theorem intern_first_wins_witness:
  "intern_name (fold absorb [intern_record, event_image 1 6 0 (Ev_NameIntern 9 [0x62])] (mock_channel zero_page)) 9
     = Some [0x61, 0xEF, 0xBF, 0xBD]"
proof -
  have "bt_wf (c_interns (mock_channel zero_page))" "intern_name (mock_channel zero_page) 9 = None"
    by (simp_all add: mock_channel_def fresh_channel_def bt_wf_def intern_name_def)
  moreover have "from_utf8_lossy [0x61, 0xFF] = [0x61, 0xEF, 0xBF, 0xBD]"
    by (simp add: utf8_step_def utf8_class_def)
  ultimately show ?thesis
    using intern_first_wins [of "mock_channel zero_page" "[intern_record, event_image 1 6 0 (Ev_NameIntern 9 [0x62])]" 9]
    by (simp add: intern_record_event map_filter_simps)
qed

end
