(* ===== verification/Host_Inject.thy ===== *)
theory Host_Inject
  imports Host_Channel
begin

text \<open>
  Answering inject points: \<^verbatim>\<open>crates/detguest-host/src/inject.rs\<close>. The trait \<open>FaultPlan\<close> is a decision
  function over the plan's state, a parameter of the responder; the crate's two plans are the rule
  table and the log replayer. Names are the bytes of the interned string.

  The lemmas show what an answer does to the channel, that the glob matcher is exactly pattern
  substitution, and that replaying the decisions recorded from a run answers every query alike
  and reports a divergence whenever the queries differ from the log.
\<close>

section \<open>The responder\<close>

type_synonym 'p decider = "'p \<Rightarrow> u32 \<Rightarrow> u32 \<Rightarrow> bytes option \<Rightarrow> fault_decision \<times> 'p"

definition answer ::
  "'p decider \<Rightarrow> 'p \<Rightarrow> 'm channel \<Rightarrow> u32 \<Rightarrow> sink \<Rightarrow> u32 \<times> 'p \<times> 'm channel \<times> sink" where
  "answer decide plan channel iseq sink =
     (let (pending, channel) = take_pending_inject iseq channel;
          (val, plan, channel) =
            (case pending of
               Some name_id \<Rightarrow>
                 (let (d, plan) = decide plan iseq name_id (intern_name channel name_id)
                  in (FaultDecision_pack d, plan, channel))
             | None \<Rightarrow>
                 (FaultDecision_pack Proceed, plan,
                  channel\<lparr>c_unmatched_injects := c_unmatched_injects channel + 1\<rparr>))
      in (val, plan, channel, pio_answer PORT_INJECT val sink))"

section \<open>Glob patterns\<close>

fun glob_inner :: "bytes \<Rightarrow> bytes \<Rightarrow> bool" where
  "glob_inner [] t \<longleftrightarrow> t = []"
| "glob_inner (c # rest) t \<longleftrightarrow>
     (if c = 0x2A then list_ex (\<lambda>k. glob_inner rest (drop k t)) [0..<length t + 1]
      else case t of [] \<Rightarrow> False | tc # tr \<Rightarrow> tc = c \<and> glob_inner rest tr)"

definition glob_match :: "bytes \<Rightarrow> bytes \<Rightarrow> bool" where
  "glob_match pattern text = glob_inner pattern text"

section \<open>The rule table\<close>

record fault_rule =
  fr_name_glob :: bytes
  fr_occurrence :: "u32 option"
  fr_decision :: fault_decision

record table_plan =
  tp_rules :: "fault_rule list"
  tp_hits :: "u32 list"
  tp_decisions :: "(u32 \<times> fault_decision) list"

definition TableFaultPlan_new :: "fault_rule list \<Rightarrow> table_plan" where
  "TableFaultPlan_new rules = \<lparr>tp_rules = rules, tp_hits = replicate (length rules) 0, tp_decisions = []\<rparr>"

text \<open>
  The loop over the rules from index \<open>i\<close> on. A new plan has one counter per rule and a decision
  keeps their number (\<open>table_decide_slots\<close>), so the indexing is in range.
\<close>

fun table_scan :: "nat \<Rightarrow> fault_rule list \<Rightarrow> bytes option \<Rightarrow> u32 list \<Rightarrow> fault_decision \<times> u32 list" where
  "table_scan i [] name hits = (Proceed, hits)"
| "table_scan i (rule # rules) name hits =
     (let matches_name = (case name of Some n \<Rightarrow> glob_match (fr_name_glob rule) n | None \<Rightarrow> fr_name_glob rule = [0x2A])
      in if \<not> matches_name then table_scan (i + 1) rules name hits
         else let occ = hits ! i; hits = hits[i := occ + 1]
              in if fr_occurrence rule = None \<or> fr_occurrence rule = Some occ then (fr_decision rule, hits)
                 else table_scan (i + 1) rules name hits)"

definition table_decide :: "table_plan decider" where
  "table_decide self iseq name_id name =
     (let (out, hits) = table_scan 0 (tp_rules self) name (tp_hits self)
      in (out, self\<lparr>tp_hits := hits, tp_decisions := tp_decisions self @ [(iseq, out)]\<rparr>))"

lemma table_scan_slots: "length (snd (table_scan i rules name hits)) = length hits"
  by (induction i rules name hits rule: table_scan.induct) (simp_all add: Let_def)

lemma table_decide_slots:
  "length (tp_hits (TableFaultPlan_new rules)) = length (tp_rules (TableFaultPlan_new rules))"
  "length (tp_hits p) = length (tp_rules p) \<Longrightarrow>
     length (tp_hits (snd (table_decide p iseq name_id name))) = length (tp_rules (snd (table_decide p iseq name_id name)))"
  using table_scan_slots [of 0 "tp_rules p" name "tp_hits p"]
  by (auto simp: TableFaultPlan_new_def table_decide_def split: prod.splits)

section \<open>Log replay\<close>

record logged_decision =
  ld_iseq :: u32
  ld_name_id :: u32
  ld_decision :: fault_decision

datatype log_divergence = IseqMismatch u32 u32 | NameIdMismatch u32 u32 u32 | PastEnd u32

record log_plan =
  lp_log :: "logged_decision list"
  lp_cursor :: nat
  lp_divergences :: "log_divergence list"

definition LogFaultPlan_new :: "logged_decision list \<Rightarrow> log_plan" where
  "LogFaultPlan_new decisions = \<lparr>lp_log = decisions, lp_cursor = 0, lp_divergences = []\<rparr>"

definition remaining :: "log_plan \<Rightarrow> nat" where
  "remaining self = length (lp_log self) - lp_cursor self"

definition log_decide :: "log_plan decider" where
  "log_decide self iseq name_id name =
     (if lp_cursor self \<ge> length (lp_log self)
      then (Proceed, self\<lparr>lp_divergences := lp_divergences self @ [PastEnd iseq]\<rparr>)
      else let entry = lp_log self ! lp_cursor self; self = self\<lparr>lp_cursor := lp_cursor self + 1\<rparr>
           in if ld_iseq entry \<noteq> iseq
              then (Proceed, self\<lparr>lp_divergences := lp_divergences self @ [IseqMismatch (ld_iseq entry) iseq]\<rparr>)
              else if ld_name_id entry \<noteq> name_id
              then (Proceed, self\<lparr>lp_divergences := lp_divergences self @ [NameIdMismatch iseq (ld_name_id entry) name_id]\<rparr>)
              else (ld_decision entry, self))"

section \<open>Globs are substitution\<close>

text \<open>A pattern with its stars replaced, in order, by the given words.\<close>

fun glob_fill :: "bytes \<Rightarrow> bytes list \<Rightarrow> bytes option" where
  "glob_fill [] ws = (if ws = [] then Some [] else None)"
| "glob_fill (c # p) ws =
     (if c = 0x2A then (case ws of [] \<Rightarrow> None | w # ws' \<Rightarrow> map_option (\<lambda>t. w @ t) (glob_fill p ws'))
      else map_option (\<lambda>t. c # t) (glob_fill p ws))"

lemma glob_inner_fill: "glob_inner p t \<longleftrightarrow> (\<exists>ws. glob_fill p ws = Some t)"
proof (induction p arbitrary: t)
  case Nil
  then show ?case by (auto intro: exI [of _ "[]"])
next
  case (Cons c p)
  show ?case
  proof (cases "c = 0x2A")
    case True
    have "glob_inner (c # p) t \<longleftrightarrow> (\<exists>k \<le> length t. \<exists>ws. glob_fill p ws = Some (drop k t))"
      unfolding glob_inner.simps list_ex_iff using True Cons.IH
      by (simp del: upt_Suc) (auto simp: less_Suc_eq_le)
    also have "\<dots> \<longleftrightarrow> (\<exists>w ws u. glob_fill p ws = Some u \<and> t = w @ u)"
      by (metis append_take_drop_id append_eq_conv_conj le_add1 length_append)
    also have "\<dots> \<longleftrightarrow> (\<exists>ws. glob_fill (c # p) ws = Some t)"
    proof
      assume "\<exists>w ws u. glob_fill p ws = Some u \<and> t = w @ u"
      then obtain w ws u where "glob_fill p ws = Some u" "t = w @ u" by blast
      then have "glob_fill (c # p) (w # ws) = Some t" using True by simp
      then show "\<exists>ws. glob_fill (c # p) ws = Some t" ..
    next
      assume "\<exists>ws. glob_fill (c # p) ws = Some t"
      then obtain ws where "glob_fill (c # p) ws = Some t" ..
      with True show "\<exists>w ws u. glob_fill p ws = Some u \<and> t = w @ u" by (cases ws) auto
    qed
    finally show ?thesis .
  next
    case False
    then show ?thesis using Cons.IH by (cases t) auto
  qed
qed

section \<open>Running a plan\<close>

type_synonym query = "u32 \<times> u32 \<times> bytes option"

fun run_plan :: "'p decider \<Rightarrow> 'p \<Rightarrow> query list \<Rightarrow> fault_decision list \<times> 'p" where
  "run_plan decide p [] = ([], p)"
| "run_plan decide p ((iseq, name_id, name) # qs) =
     (let (d, p) = decide p iseq name_id name; (ds, p) = run_plan decide p qs in (d # ds, p))"

text \<open>A plan that keeps a record of its decisions, as the recording leg of a run relies on.\<close>

locale recording_plan =
  fixes decide :: "'p decider" and recorded :: "'p \<Rightarrow> (u32 \<times> fault_decision) list"
  assumes decide_records: "decide p i n nm = (d, p') \<Longrightarrow> recorded p' = recorded p @ [(i, d)]"
begin

lemma run_records:
  "run_plan decide p qs = (ds, p') \<Longrightarrow> recorded p' = recorded p @ zip (map fst qs) ds \<and> length ds = length qs"
proof (induction qs arbitrary: p ds p')
  case (Cons q qs)
  obtain i n nm where q: "q = (i, n, nm)" by (cases q)
  obtain d p1 where d: "decide p i n nm = (d, p1)" by (cases "decide p i n nm")
  obtain es p2 where r: "run_plan decide p1 qs = (es, p2)" by (cases "run_plan decide p1 qs")
  have "ds = d # es" "p' = p2" using Cons.prems by (simp_all add: q d r)
  then show ?case using Cons.IH [OF r] decide_records [OF d] by (simp add: q)
qed simp

end

interpretation table: recording_plan table_decide tp_decisions
  by unfold_locales (auto simp: table_decide_def Let_def split: prod.splits)

text \<open>The queries a log answers, and the log of a run.\<close>

definition log_of :: "query list \<Rightarrow> fault_decision list \<Rightarrow> logged_decision list" where
  "log_of qs ds = map (\<lambda>((i, n, _), d). \<lparr>ld_iseq = i, ld_name_id = n, ld_decision = d\<rparr>) (zip qs ds)"

definition query_keys :: "query list \<Rightarrow> (u32 \<times> u32) list" where
  "query_keys qs = map (\<lambda>(i, n, _). (i, n)) qs"

definition log_keys :: "logged_decision list \<Rightarrow> (u32 \<times> u32) list" where
  "log_keys es = map (\<lambda>e. (ld_iseq e, ld_name_id e)) es"

text \<open>A run of the log plan from any cursor: divergences only accumulate.\<close>

lemma log_run:
  assumes "run_plan log_decide p qs = (ds, p')" and "es = drop (lp_cursor p) (lp_log p)"
    and "lp_cursor p \<le> length (lp_log p)"
  shows "lp_log p' = lp_log p \<and> lp_cursor p' = min (length (lp_log p)) (lp_cursor p + length qs)
     \<and> (\<exists>dv. lp_divergences p' = lp_divergences p @ dv
         \<and> (dv = [] \<longleftrightarrow> length qs \<le> length es \<and> query_keys qs = take (length qs) (log_keys es))
         \<and> (dv = [] \<longrightarrow> ds = take (length qs) (map ld_decision es)))"
  using assms
proof (induction qs arbitrary: p ds es p')
  case Nil
  then show ?case by (simp add: query_keys_def)
next
  case (Cons q qs)
  obtain i n nm where q: "q = (i, n, nm)" by (cases q)
  obtain d p1 where d: "log_decide p i n nm = (d, p1)" by (cases "log_decide p i n nm")
  obtain fs p2 where r: "run_plan log_decide p1 qs = (fs, p2)" by (cases "run_plan log_decide p1 qs")
  have eq: "ds = d # fs" "p' = p2" using Cons.prems(1) by (simp_all add: q d r)
  show ?case
  proof (cases "lp_cursor p < length (lp_log p)")
    case False
    then have p1: "p1 = p\<lparr>lp_divergences := lp_divergences p @ [PastEnd i]\<rparr>" and es: "es = []"
      using d Cons.prems(2) by (simp_all add: log_decide_def)
    with Cons.IH [OF r refl] False Cons.prems(3) show ?thesis by (auto simp: eq)
  next
    case True
    let ?e = "lp_log p ! lp_cursor p" and ?es = "drop (Suc (lp_cursor p)) (lp_log p)"
    have es: "es = ?e # ?es" using True Cons.prems(2) by (simp add: Cons_nth_drop_Suc)
    have p1: "lp_log p1 = lp_log p" "lp_cursor p1 = Suc (lp_cursor p)"
      using d True by (auto simp: log_decide_def Let_def split: if_splits)
    obtain dv where dv: "lp_divergences p1 = lp_divergences p @ dv" "dv = [] \<longleftrightarrow> (ld_iseq ?e, ld_name_id ?e) = (i, n)"
        "dv = [] \<longrightarrow> d = ld_decision ?e"
      using d True by (auto simp: log_decide_def Let_def split: if_splits)
    have "drop (lp_cursor p1) (lp_log p1) = ?es" "lp_cursor p1 \<le> length (lp_log p1)" using p1 True by simp_all
    with Cons.IH [OF r] show ?thesis
      using dv p1 True unfolding es eq by (fastforce simp: q query_keys_def log_keys_def)
  qed
qed

section \<open>Properties\<close>

text \<open>
  An inject query is answered once: answering consumes the pending query, asks the plan about
  exactly the recorded name id and its interned name, returns the packed decision and reports it; a
  query that is not pending (never drained, or already answered) gets \<open>Proceed\<close> without consulting the
  plan and is counted. No guest memory is written and no other pending query is touched.
\<close>

theorem inject_answer_once:
  assumes "bt_wf (c_pending_injects ch)" and "answer decide plan ch iseq sink = (v, plan', ch', sink')"
  shows "sink' = sink @ [PioAnswer PORT_INJECT v]
     \<and> bt_get (c_pending_injects ch') = (bt_get (c_pending_injects ch))(iseq := None)
     \<and> (case bt_get (c_pending_injects ch) iseq of
          Some n \<Rightarrow> (\<exists>d. decide plan iseq n (intern_name ch n) = (d, plan') \<and> v = FaultDecision_pack d)
            \<and> c_unmatched_injects ch' = c_unmatched_injects ch
        | None \<Rightarrow> v = 0 \<and> plan' = plan \<and> c_unmatched_injects ch' = c_unmatched_injects ch + 1)
     \<and> c_gm ch' = c_gm ch \<and> c_interns ch' = c_interns ch"
proof -
  let ?ch = "ch\<lparr>c_pending_injects := bt_remove iseq (c_pending_injects ch)\<rparr>"
  have "intern_name ?ch n = intern_name ch n" for n by (simp add: intern_name_def)
  then show ?thesis
    using assms
    by (auto simp: answer_def take_pending_inject_def Let_def pio_answer_def bt_get_remove fun_eq_iff
        FaultDecision_pack_def split: option.splits prod.splits)
qed

theorem inject_answer_once_witness:
  "let ch = (fresh_channel () 0 ChannelHeader_canonical)\<lparr>c_pending_injects := [(4, 9), (5, 9)]\<rparr>
   in case answer table_decide (TableFaultPlan_new [\<lparr>fr_name_glob = [0x2A], fr_occurrence = None, fr_decision = Platform 1 5\<rparr>])
             ch 4 [] of
        (v, plan', ch', sink') \<Rightarrow> v = FaultDecision_pack (Platform 1 5) \<and> bt_get (c_pending_injects ch') 4 = None
          \<and> bt_get (c_pending_injects ch') 5 = Some 9 \<and> sink' = [PioAnswer PORT_INJECT v]"
proof -
  let ?ch = "(fresh_channel () 0 ChannelHeader_canonical)\<lparr>c_pending_injects := [(4, 9), (5, 9)]\<rparr>"
  let ?p = "TableFaultPlan_new [\<lparr>fr_name_glob = [0x2A], fr_occurrence = None, fr_decision = Platform 1 5\<rparr>]"
  obtain v plan' ch' sink' where a: "answer table_decide ?p ?ch 4 [] = (v, plan', ch', sink')" by (rule prod_cases4)
  have wf: "bt_wf (c_pending_injects ?ch)" by (simp add: bt_wf_def)
  have "intern_name ?ch 9 = None" by (simp add: fresh_channel_def intern_name_def)
  then have "fst (table_decide ?p 4 9 (intern_name ?ch 9)) = Platform 1 5"
    by (simp add: table_decide_def TableFaultPlan_new_def)
  then show ?thesis
    using inject_answer_once [OF wf a] a by (auto simp: Let_def)
qed

text \<open>
  Glob matching is substitution: a pattern matches a name exactly when its stars can be replaced,
  in order, by byte strings (possibly empty) so that the result is the name.
\<close>

theorem glob_match_exact: "glob_match pattern text \<longleftrightarrow> (\<exists>ws. glob_fill pattern ws = Some text)"
  by (simp add: glob_match_def glob_inner_fill)

text \<open>
  C33. Replay is faithful and divergence is loud: the decisions a rule table takes in a run are
  recorded in order, and the log plan built from them answers the same queries with the same
  decisions, no divergence and an empty remainder. Conversely, for any log and any queries, a replay
  that reports no divergence and leaves nothing over asked exactly the logged queries and got exactly
  the logged decisions.
\<close>

theorem record_replay_exact:
  assumes "run_plan table_decide (TableFaultPlan_new rules) qs = (ds, t)"
    and "run_plan log_decide (LogFaultPlan_new es) qs' = (ds', p)"
  shows "tp_decisions t = zip (map fst qs) ds
     \<and> (lp_divergences p = [] \<and> remaining p = 0 \<longleftrightarrow> query_keys qs' = log_keys es)
     \<and> (query_keys qs' = log_keys es \<longrightarrow> ds' = map ld_decision es)
     \<and> (es = log_of qs ds \<and> qs' = qs \<longrightarrow> ds' = ds \<and> lp_divergences p = [] \<and> remaining p = 0)"
proof -
  have t: "tp_decisions t = zip (map fst qs) ds" "length ds = length qs"
    using table.run_records [OF assms(1)] by (simp_all add: TableFaultPlan_new_def)
  obtain dv where r: "lp_log p = es" "lp_cursor p = min (length es) (length qs')" "lp_divergences p = dv"
      "dv = [] \<longleftrightarrow> length qs' \<le> length es \<and> query_keys qs' = take (length qs') (log_keys es)"
      "dv = [] \<longrightarrow> ds' = take (length qs') (map ld_decision es)"
    using log_run [OF assms(2) refl] by (auto simp: LogFaultPlan_new_def)
  have len: "length (query_keys qs') = length qs'" "length (log_keys es) = length es"
    by (simp_all add: query_keys_def log_keys_def)
  have exact: "lp_divergences p = [] \<and> remaining p = 0 \<longleftrightarrow> query_keys qs' = log_keys es"
  proof
    assume "lp_divergences p = [] \<and> remaining p = 0"
    then have "length es = length qs'" "query_keys qs' = take (length qs') (log_keys es)"
      using r by (auto simp: remaining_def)
    then show "query_keys qs' = log_keys es" using len by simp
  next
    assume k: "query_keys qs' = log_keys es"
    then have "length es = length qs'" using len by metis
    with k r len show "lp_divergences p = [] \<and> remaining p = 0" by (simp add: remaining_def)
  qed
  have dec: "query_keys qs' = log_keys es \<longrightarrow> ds' = map ld_decision es"
  proof
    assume k: "query_keys qs' = log_keys es"
    then have "length es = length qs'" using len by metis
    with k exact r show "ds' = map ld_decision es" by simp
  qed
  have "query_keys qs = log_keys (log_of qs ds)" "map ld_decision (log_of qs ds) = ds"
    using t(2) by (auto simp: query_keys_def log_keys_def log_of_def comp_def case_prod_beta
        map_fst_zip [symmetric] intro!: nth_equalityI)
  with t exact dec show ?thesis by auto
qed

theorem record_replay_exact_witness:
  "\<exists>ds t p. run_plan table_decide (TableFaultPlan_new [\<lparr>fr_name_glob = [0x69, 0x2A], fr_occurrence = Some 1,
        fr_decision = Platform 2 64\<rparr>]) [(1, 7, Some [0x69, 0x6F]), (2, 7, Some [0x69, 0x6F])] = (ds, t)
     \<and> ds = [Proceed, Platform 2 64] \<and> tp_decisions t = [(1, Proceed), (2, Platform 2 64)]
     \<and> run_plan log_decide (LogFaultPlan_new (log_of [(1, 7, Some [0x69, 0x6F]), (2, 7, Some [0x69, 0x6F])] ds))
         [(1, 7, Some [0x69, 0x6F]), (2, 7, Some [0x69, 0x6F])] = (ds, p)
     \<and> lp_divergences p = []"
proof -
  let ?qs = "[(1, 7, Some [0x69, 0x6F]), (2, 7, Some [0x69, 0x6F])] :: query list"
  let ?t = "TableFaultPlan_new [\<lparr>fr_name_glob = [0x69, 0x2A], fr_occurrence = Some 1, fr_decision = Platform 2 64\<rparr>]"
  obtain ds t where t: "run_plan table_decide ?t ?qs = (ds, t)" by (cases "run_plan table_decide ?t ?qs")
  obtain ds' p where p: "run_plan log_decide (LogFaultPlan_new (log_of ?qs ds)) ?qs = (ds', p)"
    by (cases "run_plan log_decide (LogFaultPlan_new (log_of ?qs ds)) ?qs")
  have "ds = [Proceed, Platform 2 64]"
    using t by (simp add: table_decide_def TableFaultPlan_new_def glob_match_def)
  then show ?thesis
    using record_replay_exact [OF t p] t p by auto
qed

end
