(* ===== verification/Host_Replay.thy ===== *)
theory Host_Replay
  imports Host_Drain Host_Inject
begin

text \<open>
  Replaying a recorded trace of host mutations: \<^verbatim>\<open>crates/detguest-host/src/replay.rs\<close>. The recording
  leg runs pushes, drains and answers, interleaved with arbitrary guest writes; the replaying leg
  applies the recorded operations, with the same guest writes in between. The lemmas show that the
  two legs perform the same stores, so they end with the same guest memory and report the same trace.
\<close>

section \<open>Operations\<close>

definition apply_sink_op ::
  "'m guest_mem \<Rightarrow> sink_op \<Rightarrow> 'm channel \<Rightarrow> sink \<Rightarrow> (mem_error, unit) res \<times> 'm channel \<times> sink" where
  "apply_sink_op ops sop ch sink =
     (case sop of
        RingPush ring bytes new_prod \<Rightarrow>
          (let sz = rd_size (Channel_ring_desc ch ring); msk = sz - 1; data = data_gpa ch ring;
               old_prod = new_prod - of_nat (length bytes); off = old_prod AND msk; tail = unat (sz - off);
               stores = (if length bytes \<le> tail then [(data + ucast off, bytes)]
                         else [(data + ucast off, take tail bytes), (data, drop tail bytes)]);
               (r, gm) = gm_writes ops (stores @ [(prod_gpa ch ring, to_le_bytes 4 new_prod)]) (c_gm ch);
               ch = ch\<lparr>c_gm := gm\<rparr>
           in case r of
                Ok _ \<Rightarrow> (Ok (), ch, ring_push ring bytes new_prod sink)
              | Err e \<Rightarrow> (Err e, ch, sink)
              | Panic \<Rightarrow> (Panic, ch, sink))
      | ConsBump ring new_cons \<Rightarrow>
          (case write_u32 ops (c_gm ch) (cons_gpa ch ring) new_cons of
             Ok gm \<Rightarrow> (Ok (), ch\<lparr>c_gm := gm\<rparr>, cons_bump ring new_cons sink)
           | Err e \<Rightarrow> (Err e, ch, sink)
           | Panic \<Rightarrow> (Panic, ch, sink))
      | PioAnswer port v \<Rightarrow> (Ok (), ch, pio_answer port v sink))"

primrec apply_trace ::
  "'m guest_mem \<Rightarrow> sink_op list \<Rightarrow> 'm channel \<Rightarrow> sink \<Rightarrow> (mem_error, unit) res \<times> 'm channel \<times> sink" where
  "apply_trace ops [] ch sink = (Ok (), ch, sink)"
| "apply_trace ops (sop # sops) ch sink =
     (case apply_sink_op ops sop ch sink of
        (Ok _, ch, sink) \<Rightarrow> apply_trace ops sops ch sink
      | (Err e, ch, sink) \<Rightarrow> (Err e, ch, sink)
      | (Panic, ch, sink) \<Rightarrow> (Panic, ch, sink))"

section \<open>Recording and replaying legs\<close>

datatype 'm host_step = StepPush command | StepCtrl workload_ctrl | StepDrain | StepAnswer u32 | StepGuest "'m \<Rightarrow> 'm"

datatype 'm leg = LegHost sink | LegGuest "'m \<Rightarrow> 'm"

fun record_step :: "'m guest_mem \<Rightarrow> 'p decider \<Rightarrow> 'm host_step \<Rightarrow> 'm channel \<times> 'p \<Rightarrow> 'm leg \<times> 'm channel \<times> 'p" where
  "record_step ops decide (StepPush cmd) (ch, plan) =
     (case push_command ops cmd ch [] of (_, ch, tr) \<Rightarrow> (LegHost tr, ch, plan))"
| "record_step ops decide (StepCtrl rec) (ch, plan) =
     (case push_workload_ctrl ops rec ch [] of (_, ch, tr) \<Rightarrow> (LegHost tr, ch, plan))"
| "record_step ops decide StepDrain (ch, plan) =
     (case drain_events ops ch [] of (_, ch, tr) \<Rightarrow> (LegHost tr, ch, plan))"
| "record_step ops decide (StepAnswer iseq) (ch, plan) =
     (case answer decide plan ch iseq [] of (_, plan, ch, tr) \<Rightarrow> (LegHost tr, ch, plan))"
| "record_step ops decide (StepGuest f) (ch, plan) = (LegGuest f, ch\<lparr>c_gm := f (c_gm ch)\<rparr>, plan)"

primrec record_leg :: "'m guest_mem \<Rightarrow> 'p decider \<Rightarrow> 'm host_step list \<Rightarrow> 'm channel \<times> 'p \<Rightarrow> 'm leg list \<times> 'm channel" where
  "record_leg ops decide [] st = ([], fst st)"
| "record_leg ops decide (s # ss) st =
     (case record_step ops decide s st of (l, st) \<Rightarrow>
      case record_leg ops decide ss st of (ls, ch) \<Rightarrow> (l # ls, ch))"

fun replay_leg :: "'m guest_mem \<Rightarrow> 'm leg list \<Rightarrow> 'm channel \<Rightarrow> sink \<Rightarrow> (mem_error, unit) res \<times> 'm channel \<times> sink" where
  "replay_leg ops [] ch sink = (Ok (), ch, sink)"
| "replay_leg ops (LegGuest f # ls) ch sink = replay_leg ops ls (ch\<lparr>c_gm := f (c_gm ch)\<rparr>) sink"
| "replay_leg ops (LegHost tr # ls) ch sink =
     (case apply_trace ops tr ch sink of
        (Ok _, ch, sink) \<Rightarrow> replay_leg ops ls ch sink
      | (Err e, ch, sink) \<Rightarrow> (Err e, ch, sink)
      | (Panic, ch, sink) \<Rightarrow> (Panic, ch, sink))"

primrec leg_trace :: "'m leg \<Rightarrow> sink" where
  "leg_trace (LegHost tr) = tr"
| "leg_trace (LegGuest f) = []"

section \<open>What one recorded step replays to\<close>

definition same_mem :: "'m channel \<Rightarrow> 'm channel \<Rightarrow> bool" where
  "same_mem a b \<longleftrightarrow> c_gm a = c_gm b \<and> c_base a = c_base b \<and> c_header a = c_header b"

text \<open>A trace takes any channel over the first memory to the second, and reports itself.\<close>

definition replays :: "'m guest_mem \<Rightarrow> sink \<Rightarrow> 'm channel \<Rightarrow> 'm channel \<Rightarrow> bool" where
  "replays ops tr ch ch' \<longleftrightarrow>
     c_base ch' = c_base ch \<and> c_header ch' = c_header ch
     \<and> (\<forall>c s. same_mem c ch \<longrightarrow> apply_trace ops tr c s = (Ok (), c\<lparr>c_gm := c_gm ch'\<rparr>, s @ tr))"

lemma apply_trace_append:
  "apply_trace ops (xs @ ys) ch s =
     (case apply_trace ops xs ch s of
        (Ok _, ch, s) \<Rightarrow> apply_trace ops ys ch s | (Err e, ch, s) \<Rightarrow> (Err e, ch, s) | (Panic, ch, s) \<Rightarrow> (Panic, ch, s))"
  by (induction xs arbitrary: ch s) (auto split: prod.splits res.splits)

lemma replays_append:
  assumes "replays ops xs a b" and "replays ops ys b c"
  shows "replays ops (xs @ ys) a c"
proof -
  have "same_mem (d\<lparr>c_gm := c_gm b\<rparr>) b" if "same_mem d a" for d
    using that assms(1) by (simp add: same_mem_def replays_def)
  then show ?thesis using assms by (simp add: replays_def apply_trace_append)
qed

lemma replays_none: "c_gm ch' = c_gm ch \<Longrightarrow> c_base ch' = c_base ch \<Longrightarrow> c_header ch' = c_header ch \<Longrightarrow> replays ops [] ch ch'"
  by (auto simp: replays_def same_mem_def)

lemma replays_cong: "c_gm b = c_gm c \<Longrightarrow> c_base b = c_base c \<Longrightarrow> c_header b = c_header c \<Longrightarrow> replays ops tr a b = replays ops tr a c"
  by (simp add: replays_def)

text \<open>The stores of a push, recomputed from its report.\<close>

lemma replays_push:
  assumes pl: "ring_placed (Channel_ring_desc ch ring)" and s: "s = unat (rd_size (Channel_ring_desc ch ring))"
    and n: "n = pad_len s (unat prd) (length r)" and r: "0 < length r" "length r \<le> 4096" and n8: "n = 0 \<or> 8 \<le> n"
    and w: "push_writes ops ch ring prd seq r = (Ok (), m')"
  shows "replays ops [RingPush ring (span_bytes s (unat prd) seq r) (prd + of_nat (n + length r))] ch (ch\<lparr>c_gm := m'\<rparr>)"
proof -
  let ?d = "Channel_ring_desc ch ring" and ?P = "unat prd"
  let ?span = "span_bytes s ?P seq r"
  have sz: "is_power_of_two (rd_size ?d)" using pl by (simp add: ring_placed_def)
  note sp = span_split [OF n r(2) n8, where seq = seq]
  have addr: "data_gpa ch ring + ucast (prd AND (rd_size ?d - 1)) = c_base ch + of_nat (unat (rd_offset ?d) + ?P mod s)"
    "data_gpa ch ring = c_base ch + of_nat (unat (rd_offset ?d))"
    using ring_address [OF sz, of prd] ring_address [OF sz, of 0] by (simp_all add: s)
  have tail: "unat (rd_size ?d - (prd AND (rd_size ?d - 1))) = s - ?P mod s"
    using any_tail [OF sz, of prd] by (simp add: contiguous_tail_def s)
  have lt: "?P mod s < s" using pow2_small(1) [OF sz] by (simp add: s)
  have fits: "length r \<le> s - ?P mod s \<longleftrightarrow> n = 0" "0 < n \<Longrightarrow> n = s - ?P mod s"
    using n r lt by (auto simp: pad_len_def split: if_splits)
  have wrap: "(?P + n) mod s = 0" if "0 < n"
  proof -
    have "?P mod s + n = s" using fits(2) that lt by simp
    then have "(?P mod s + n) mod s = 0" by simp
    then show ?thesis by (simp add: mod_add_left_eq)
  qed
  have stores: "(if length ?span \<le> s - ?P mod s
        then [(data_gpa ch ring + ucast (prd AND (rd_size ?d - 1)), ?span)]
        else [(data_gpa ch ring + ucast (prd AND (rd_size ?d - 1)), take (s - ?P mod s) ?span),
              (data_gpa ch ring, drop (s - ?P mod s) ?span)])
      @ [(prod_gpa ch ring, to_le_bytes 4 (prd + of_nat (n + length r)))]
    = map (\<lambda>(i, src). (c_base ch + of_nat i, src)) (push_stores ?d ring prd seq r)"
  proof (cases "n = 0")
    case True
    then have "?span = r" using sp(2) by simp
    then show ?thesis using fits(1) sp(1) True
      by (simp add: addr(1) push_stores_def Let_def s [symmetric] n [symmetric] prod_gpa_def del: of_nat_add)
  next
    case False
    then have "s - ?P mod s = n" and "n < length ?span" and "(?P + n) mod s = 0" using fits(2) sp(4) r wrap by linarith+
    then show ?thesis using False sp(2,3) unfolding addr(1)
      by (simp add: sp(1) addr(2) push_stores_def Let_def s [symmetric] n [symmetric] prod_gpa_def del: of_nat_add)
  qed
  have "apply_sink_op ops (RingPush ring ?span (prd + of_nat (n + length r))) c t
      = (Ok (), c\<lparr>c_gm := m'\<rparr>, t @ [RingPush ring ?span (prd + of_nat (n + length r))])" if "same_mem c ch" for c t
  proof -
    have eq: "Channel_ring_desc c ring = ?d" "data_gpa c ring = data_gpa ch ring" "prod_gpa c ring = prod_gpa ch ring" "c_gm c = c_gm ch"
      using that by (simp_all add: same_mem_def Channel_ring_desc_def data_gpa_def prod_gpa_def)
    have old: "prd + of_nat (n + length r) - of_nat (length ?span) = prd" by (simp add: sp(4))
    show ?thesis
      using w unfolding push_writes_def stores [symmetric]
      unfolding apply_sink_op_def sink_op.case eq old Let_def tail by (simp add: ring_push_def)
  qed
  then show ?thesis by (simp add: replays_def)
qed

text \<open>A push of any record of the codecs, on any page: it either changes nothing or replays from its report.\<close>

context ring_codec
begin

lemma push_record_replays:
  assumes mem: "guest_memory ops minv" and att: "attached ops minv ch page" and x: "ok x"
    and p: "push_record ops ring (rlen x) (\<lambda>buf s. map_err PE_Encode (enc buf s x)) seq ch [] = (q, ch', tr)"
  shows "replays ops tr ch ch' \<and> (\<exists>page'. attached ops minv ch' page')"
proof -
  let ?v = "page_ring (c_header ch) page ring" and ?s = "unat (rd_size (Channel_ring_desc ch ring))"
  let ?rs = "record_seq ?s (unat (rm_prod ?v)) (rlen x) seq" and ?n = "pad_len ?s (unat (rm_prod ?v)) (rlen x)"
  have len: "0 < rlen x" "rlen x \<le> 4096" using rlen_bounds [OF x] by simp_all
  have img: "length (image ?rs x) = rlen x" by (rule length_image [OF x])
  have pl: "ring_placed (Channel_ring_desc ch ring)"
    using att header_ring_placed(1) [of "c_header ch" ring] by (simp add: attached_def Channel_ring_desc_def)
  have eq: "if ?s < unat (used (rm_prod ?v) (rm_cons ?v)) + ?n + rlen x then (q, ch', tr) = (Err PE_RingFull, ch, [])
     else if 0 < ?n \<and> ?n < 8 then (q, ch', tr) = (Panic, ch, [])
     else \<exists>m'. (q, ch', tr) = (Ok (rlen x, ?rs + 1), ch\<lparr>c_gm := m'\<rparr>,
         [] @ [RingPush ring (span_bytes ?s (unat (rm_prod ?v)) seq (image ?rs x)) (rm_prod ?v + of_nat (?n + rlen x))])
       \<and> attached ops minv (ch\<lparr>c_gm := m'\<rparr>) (pushed_page (c_header ch) page ring seq (image ?rs x))
       \<and> push_writes ops ch ring (rm_prod ?v) seq (image ?rs x) = (Ok (), m')"
    unfolding p [symmetric]
    by (rule push_record_eq [OF mem att len refl refl refl refl refl _ img]) (simp add: enc_exact [OF x])
  consider "q = Err PE_RingFull" "ch' = ch" "tr = []" | "q = Panic" "ch' = ch" "tr = []"
    | m' where "ch' = ch\<lparr>c_gm := m'\<rparr>" "?n = 0 \<or> 8 \<le> ?n"
        "tr = [RingPush ring (span_bytes ?s (unat (rm_prod ?v)) seq (image ?rs x)) (rm_prod ?v + of_nat (?n + rlen x))]"
        "attached ops minv (ch\<lparr>c_gm := m'\<rparr>) (pushed_page (c_header ch) page ring seq (image ?rs x))"
        "push_writes ops ch ring (rm_prod ?v) seq (image ?rs x) = (Ok (), m')"
    using eq by (auto split: if_splits)
  then show ?thesis
  proof cases
    case (3 m')
    then show ?thesis using replays_push [OF pl refl, of ?n "rm_prod ?v" "image ?rs x" ops seq m'] img len by auto
  qed (use att in \<open>auto intro: replays_none\<close>)
qed

end

text \<open>A drain's only store is the consumer index it reports.\<close>

lemma replays_cons:
  "write_u32 ops (c_gm ch) (cons_gpa ch ring) v = Ok gm \<Longrightarrow> replays ops [ConsBump ring v] ch (ch\<lparr>c_gm := gm\<rparr>)"
  by (simp add: replays_def same_mem_def apply_sink_op_def cons_gpa_def cons_bump_def)

context guest_memory
begin

lemma drain_ring_replays:
  assumes att: "attached ops inv ch page" and d: "drain_ring ops ring ch sink out = (r, ch', sink', out')"
  shows "\<exists>tr. sink' = sink @ tr \<and> replays ops tr ch ch'"
proof -
  let ?m = "page_ring (c_header ch) page ring"
  note cells = attached_cells [OF att, of ring]
  obtain r1 ch1 out1 where l: "drain_loop ops ring (rm_cons ?m) (rm_prod ?m - rm_cons ?m) ch out = (r1, ch1, out1)"
    by (rule prod_cases3)
  have "inv (c_gm ch)" using att by (simp add: attached_def)
  from drain_loop_frame [OF this l]
  have same: "c_gm ch1 = c_gm ch" "c_base ch1 = c_base ch" "c_header ch1 = c_header ch" by (simp_all add: drain_frame_def)
  have gpa: "cons_gpa ch1 ring = cons_gpa ch ring" using same by (simp add: cons_gpa_def)
  have "(c_gm ch' = c_gm ch \<and> c_base ch' = c_base ch \<and> c_header ch' = c_header ch \<and> sink' = sink)
    \<or> (\<exists>v gm. write_u32 ops (c_gm ch) (cons_gpa ch ring) v = Ok gm \<and> sink' = sink @ [ConsBump ring v]
           \<and> ch' = ch1\<lparr>c_gm := gm\<rparr>)"
    using d l same gpa by (auto simp: drain_ring_def Let_def cells cons_bump_def split: res.splits if_splits)
  then show ?thesis
  proof (elim disjE exE conjE)
    fix v gm assume w: "write_u32 ops (c_gm ch) (cons_gpa ch ring) v = Ok gm" "sink' = sink @ [ConsBump ring v]" "ch' = ch1\<lparr>c_gm := gm\<rparr>"
    have "replays ops [ConsBump ring v] ch ch'"
      using replays_cons [OF w(1)] by (subst replays_cong [where c = "ch\<lparr>c_gm := gm\<rparr>"]) (simp_all add: w(3) same)
    then show ?thesis using w(2) by blast
  qed (auto intro: replays_none)
qed

lemma drain_events_replays:
  assumes att: "attached ops inv ch page" and d: "drain_events ops ch [] = (r, ch', tr)"
  shows "replays ops tr ch ch' \<and> (\<exists>page'. attached ops inv ch' page')"
proof -
  obtain ra ca sa oa where a: "drain_ring ops RingA ch [] [] = (ra, ca, sa, oa)" by (rule prod_cases4)
  from drain_ring_frame [OF att a refl] obtain pa where pa: "attached ops inv ca pa" by blast
  have ra: "replays ops sa ch ca" using drain_ring_replays [OF att a] by simp
  show ?thesis
  proof (cases "is_ok ra")
    case True
    obtain rw cw sw ow where w: "drain_ring ops RingW ca sa oa = (rw, cw, sw, ow)" by (rule prod_cases4)
    from drain_ring_frame [OF pa w refl] obtain pw where pw: "attached ops inv cw pw" by blast
    have "ch' = cw" "tr = sw" using d True by (auto simp: drain_events_def a w split: res.splits)
    then show ?thesis using drain_ring_replays [OF pa w] replays_append [OF ra] pw by blast
  next
    case False
    then have "ch' = ca" "tr = sa" using d by (auto simp: drain_events_def a split: res.splits)
    then show ?thesis using ra pa by blast
  qed
qed

end

section \<open>The recording leg replays\<close>

lemma answer_replays:
  assumes "answer decide plan ch iseq [] = (v, plan', ch', tr)"
  shows "replays ops tr ch ch' \<and> c_gm ch' = c_gm ch"
  using assms
  by (auto simp: answer_def take_pending_inject_def Let_def pio_answer_def replays_def same_mem_def apply_sink_op_def
      split: prod.splits option.splits)

lemma push_steps_replay:
  assumes mem: "guest_memory ops minv" and att: "attached ops minv ch page"
  shows "push_command ops cmd ch [] = (q, ch', tr) \<Longrightarrow> replays ops tr ch ch' \<and> (\<exists>page'. attached ops minv ch' page')"
    and "push_workload_ctrl ops rec ch [] = (q', ch', tr) \<Longrightarrow> replays ops tr ch ch' \<and> (\<exists>page'. attached ops minv ch' page')"
proof -
  have upd: "replays ops tr ch (c\<lparr>c_next_seq_c := x\<rparr>) = replays ops tr ch c" "attached ops minv (c\<lparr>c_next_seq_c := x\<rparr>) page' = attached ops minv c page'"
    "replays ops tr ch (c\<lparr>c_next_seq_i := x\<rparr>) = replays ops tr ch c" "attached ops minv (c\<lparr>c_next_seq_i := x\<rparr>) page' = attached ops minv c page'"
    for c x page' by (simp_all add: replays_def attached_def)
  obtain a b c where p: "push_record ops RingC (command_len cmd) (\<lambda>buf s. map_err PE_Encode (encode_command buf s cmd))
      (c_next_seq_c ch) ch [] = (a, b, c)" by (rule prod_cases3)
  show "replays ops tr ch ch' \<and> (\<exists>page'. attached ops minv ch' page')" if "push_command ops cmd ch [] = (q, ch', tr)"
    using command_ring.push_record_replays [OF mem att TrueI p] that
    by (auto simp: push_command_eq p upd split: res.splits)
  obtain a b c where p: "push_record ops RingI (record_len 8)
      (\<lambda>buf s. map_err PE_Encode (encode_workload_ctrl buf s 0 rec)) (c_next_seq_i ch) ch [] = (a, b, c)" by (rule prod_cases3)
  have "replays ops c ch b \<and> (\<exists>page'. attached ops minv b page')"
    using ctrl_ring.push_record_replays [OF mem att TrueI, where x = "(0, rec)" and ring = RingI and seq = "c_next_seq_i ch"] p
    by (simp add: record_len_def pad8_def)
  then show "replays ops tr ch ch' \<and> (\<exists>page'. attached ops minv ch' page')" if "push_workload_ctrl ops rec ch [] = (q', ch', tr)"
    using that by (auto simp: push_workload_ctrl_def p upd split: res.splits)
qed

lemma is_ok_iff: "is_ok r \<longleftrightarrow> (\<exists>x. r = Ok x)"
  by (cases r) simp_all

text \<open>The guest may write anything anywhere, as long as the channel page stays mapped.\<close>

definition keeps_page :: "'m guest_mem \<Rightarrow> ('m \<Rightarrow> bool) \<Rightarrow> u64 \<Rightarrow> 'm host_step \<Rightarrow> bool" where
  "keeps_page ops minv base s \<longleftrightarrow>
     (case s of StepGuest f \<Rightarrow>
        \<forall>m. minv m \<and> is_ok (gm_read ops m base CHANNEL_SIZE) \<longrightarrow> minv (f m) \<and> is_ok (gm_read ops (f m) base CHANNEL_SIZE)
      | _ \<Rightarrow> True)"

lemma record_step_host:
  assumes mem: "guest_memory ops minv" and att: "attached ops minv ch page"
    and r: "record_step ops decide s (ch, plan) = (LegHost tr, ch', plan')"
  shows "replays ops tr ch ch' \<and> (\<exists>page'. attached ops minv ch' page')"
proof (cases s)
  case (StepAnswer iseq)
  obtain v p' c t where a: "answer decide plan ch iseq [] = (v, p', c, t)" by (rule prod_cases4)
  then have "replays ops tr ch ch'" "c_gm ch' = c_gm ch"
    using answer_replays [OF a] r StepAnswer by auto
  then show ?thesis using att by (auto simp: attached_def replays_def)
qed (use r push_steps_replay [OF mem att] guest_memory.drain_events_replays [OF mem att] in \<open>auto split: prod.splits\<close>)

lemma record_step_guest:
  assumes att: "attached ops minv ch page" and k: "keeps_page ops minv (c_base ch) s"
    and r: "record_step ops decide s (ch, plan) = (LegGuest f, ch', plan')"
  shows "ch' = ch\<lparr>c_gm := f (c_gm ch)\<rparr> \<and> (\<exists>page'. attached ops minv ch' page')"
proof -
  have "s = StepGuest f" "ch' = ch\<lparr>c_gm := f (c_gm ch)\<rparr>" using r by (cases s; auto split: prod.splits)+
  then show ?thesis using att k by (auto simp: attached_def keeps_page_def is_ok_iff)
qed

text \<open>
  C1. The sink trace alone replays every host mutation: record a run of command pushes, control
  pushes, drains and fault answers, failing ones included, interleaved with arbitrary guest writes;
  then, on any channel over the same memory, applying each step's reported operations with the same
  guest writes in between succeeds, leaves exactly the memory the recorded run left, and reports
  exactly the recorded trace.
\<close>

theorem replay_reproduces:
  assumes "guest_memory ops minv" and "attached ops minv ch page"
    and "\<forall>s\<in>set steps. keeps_page ops minv (c_base ch) s"
    and "record_leg ops decide steps (ch, plan) = (legs, ch')" and "same_mem ch0 ch"
  shows "replay_leg ops legs ch0 s0 = (Ok (), ch0\<lparr>c_gm := c_gm ch'\<rparr>, s0 @ concat (map leg_trace legs))"
  using assms(2-)
proof (induction steps arbitrary: ch plan page legs ch0 s0)
  case Nil
  then show ?case by (auto simp: same_mem_def)
next
  case (Cons s steps)
  obtain l ch1 plan1 where st: "record_step ops decide s (ch, plan) = (l, ch1, plan1)" by (rule prod_cases3)
  obtain ls where ls: "record_leg ops decide steps (ch1, plan1) = (ls, ch')" "legs = l # ls"
    using Cons.prems(3) st by (auto split: prod.splits)
  show ?case
  proof (cases l)
    case (LegHost tr)
    then have h: "replays ops tr ch ch1" "\<exists>page'. attached ops minv ch1 page'"
      using record_step_host [OF assms(1) Cons.prems(1) st [unfolded LegHost]] by auto
    then obtain page' where "attached ops minv ch1 page'" by blast
    from Cons.IH [OF this _ ls(1), of "ch0\<lparr>c_gm := c_gm ch1\<rparr>" "s0 @ tr"] show ?thesis
      using h(1) Cons.prems(2,4) by (simp add: ls(2) LegHost replays_def same_mem_def)
  next
    case (LegGuest f)
    then have g: "ch1 = ch\<lparr>c_gm := f (c_gm ch)\<rparr>" "\<exists>page'. attached ops minv ch1 page'"
      using record_step_guest [OF Cons.prems(1) _ st [unfolded LegGuest]] Cons.prems(2) by auto
    then obtain page' where "attached ops minv ch1 page'" by blast
    from Cons.IH [OF this _ ls(1), of "ch0\<lparr>c_gm := c_gm ch1\<rparr>" s0] show ?thesis
      using g(1) Cons.prems(2,4) by (simp add: ls(2) LegGuest same_mem_def)
  qed
qed

text \<open>The host pushes a command, the guest puts an event on ring A, the host drains it and answers a query.\<close>

definition replay_steps :: "mock_guest_mem host_step list" where
  "replay_steps = [StepPush Cmd_ReverifyRegions, StepGuest (\<lambda>_. page_mem (event_page 0)), StepDrain, StepAnswer 1]"

lemma replay_steps_keep: "\<forall>s\<in>set replay_steps. keeps_page mock_ops mock_inv 0x10000000 s"
  using page_mem_inv [OF event_page_facts(1) [of 0]] page_mem_read [OF event_page_facts(1) [of 0]]
  by (simp add: replay_steps_def keeps_page_def)

theorem replay_reproduces_witness:
  "case record_leg mock_ops log_decide replay_steps (mock_channel zero_page, LogFaultPlan_new []) of
     (legs, ch') \<Rightarrow> replay_leg mock_ops legs (mock_channel zero_page) [] =
       (Ok (), (mock_channel zero_page)\<lparr>c_gm := c_gm ch'\<rparr>, concat (map leg_trace legs))"
proof -
  have "c_base (mock_channel zero_page) = 0x10000000" by (simp add: mock_channel_def fresh_channel_def)
  then show ?thesis
    using replay_reproduces [OF mock.guest_memory_axioms mock_channel_attached [OF length_zero_page],
        where steps = replay_steps and ?s0.0 = "[]" and ?ch0.0 = "mock_channel zero_page"] replay_steps_keep
    by (auto simp: same_mem_def split: prod.splits)
qed

end
