(* ===== verification/Sdk_Intern.thy ===== *)
theory Sdk_Intern
  imports Wire_Events
begin

text \<open>
  The workload's name table: \<^verbatim>\<open>crates/detguest-sdk/src/intern.rs\<close>. Names are handed ids from one
  upwards in the order of their first use and each entry carries the hit counters of its name. The
  invariant \<open>intern_wf\<close> says that the ids are exactly the positions; it makes the table a bijection
  between names and ids, for any sequence of calls.
\<close>

section \<open>Operations\<close>

record sdk_intern_entry =
  in_name :: bytes
  in_id :: u32
  in_reachable_hits :: u32
  in_assert_passes :: u32
  in_assert_failures :: u32

record intern_table =
  it_entries :: "sdk_intern_entry list"
  it_next_id :: u32

record interned_name =
  nm_id :: u32
  nm_is_new :: bool

record assert_counts =
  ac_pass_count :: u32
  ac_fail_count :: u32

datatype intern_error = NameTooLong | TableFull | UnknownName

definition InternTable_default :: intern_table where
  "InternTable_default = \<lparr>it_entries = [], it_next_id = 1\<rparr>"

definition valid_name :: "bytes \<Rightarrow> bool" where
  "valid_name name \<longleftrightarrow> length name \<le> MAX_NAME"

definition intern :: "bytes \<Rightarrow> intern_table \<Rightarrow> (intern_error, interned_name) res \<times> intern_table" where
  "intern name self =
     (if \<not> valid_name name then (Err NameTooLong, self)
      else case find (\<lambda>entry. in_name entry = name) (it_entries self) of
             Some entry \<Rightarrow> (Ok \<lparr>nm_id = in_id entry, nm_is_new = False\<rparr>, self)
           | None \<Rightarrow>
               (let new_id = it_next_id self
                in if new_id = - 1 then (Err TableFull, self)
                   else (Ok \<lparr>nm_id = new_id, nm_is_new = True\<rparr>,
                         self\<lparr>it_next_id := new_id + 1,
                           it_entries := it_entries self @
                             [\<lparr>in_name = name, in_id = new_id, in_reachable_hits = 0,
                               in_assert_passes = 0, in_assert_failures = 0\<rparr>]\<rparr>)))"

text \<open>\<open>entry_mut\<close>: the first entry with the id, updated in place.\<close>

primrec entry_mut ::
  "u32 \<Rightarrow> (sdk_intern_entry \<Rightarrow> sdk_intern_entry) \<Rightarrow> sdk_intern_entry list \<Rightarrow> (sdk_intern_entry \<times> sdk_intern_entry list) option" where
  "entry_mut k f [] = None"
| "entry_mut k f (x # xs) =
     (if in_id x = k then Some (f x, f x # xs) else map_option (\<lambda>(y, ys). (y, x # ys)) (entry_mut k f xs))"

definition record_reachable :: "u32 \<Rightarrow> intern_table \<Rightarrow> (intern_error, u32) res \<times> intern_table" where
  "record_reachable k self =
     (case entry_mut k (\<lambda>e. e\<lparr>in_reachable_hits := saturating_add (in_reachable_hits e) 1\<rparr>) (it_entries self) of
        None \<Rightarrow> (Err UnknownName, self)
      | Some (e, es) \<Rightarrow> (Ok (in_reachable_hits e), self\<lparr>it_entries := es\<rparr>))"

definition record_assert :: "u32 \<Rightarrow> bool \<Rightarrow> intern_table \<Rightarrow> (intern_error, assert_counts) res \<times> intern_table" where
  "record_assert k passed self =
     (case entry_mut k
             (\<lambda>e. if passed then e\<lparr>in_assert_passes := saturating_add (in_assert_passes e) 1\<rparr>
                  else e\<lparr>in_assert_failures := saturating_add (in_assert_failures e) 1\<rparr>) (it_entries self) of
        None \<Rightarrow> (Err UnknownName, self)
      | Some (e, es) \<Rightarrow>
          (Ok \<lparr>ac_pass_count = in_assert_passes e, ac_fail_count = in_assert_failures e\<rparr>, self\<lparr>it_entries := es\<rparr>))"

section \<open>The table is a list of names\<close>

definition intern_names :: "intern_table \<Rightarrow> bytes list" where
  "intern_names t = map in_name (it_entries t)"

definition intern_wf :: "intern_table \<Rightarrow> bool" where
  "intern_wf t \<longleftrightarrow>
     map in_id (it_entries t) = map (\<lambda>i. of_nat (Suc i)) [0..<length (it_entries t)]
     \<and> unat (it_next_id t) = Suc (length (it_entries t))
     \<and> distinct (intern_names t) \<and> list_all valid_name (intern_names t)"

lemma intern_wf_default: "intern_wf InternTable_default"
  by (simp add: intern_wf_def InternTable_default_def intern_names_def)

lemma intern_wf_bound: "intern_wf t \<Longrightarrow> Suc (length (it_entries t)) < 2 ^ 32"
proof -
  assume "intern_wf t"
  moreover have "unat (it_next_id t) < 2 ^ LENGTH(32)" by (rule unsigned_less)
  ultimately show ?thesis by (simp add: intern_wf_def)
qed

lemma intern_wf_id:
  assumes "intern_wf t" and "i < length (it_entries t)"
  shows "in_id (it_entries t ! i) = of_nat (Suc i)" and "unat (in_id (it_entries t ! i)) = Suc i"
proof -
  have "map in_id (it_entries t) ! i = map (\<lambda>i. of_nat (Suc i)) [0..<length (it_entries t)] ! i"
    using assms(1) by (simp add: intern_wf_def)
  then show e: "in_id (it_entries t ! i) = of_nat (Suc i)" using assms(2) by simp
  show "unat (in_id (it_entries t ! i)) = Suc i"
    using intern_wf_bound [OF assms(1)] assms(2) by (simp add: e unat_of_nat del: of_nat_Suc)
qed

text \<open>Interning, on a well-formed table: the three outcomes, by position in the list of names.\<close>

lemma find_name_Some:
  "find (\<lambda>e. in_name e = name) es = Some e \<Longrightarrow> \<exists>i < length es. es ! i = e \<and> map in_name es ! i = name"
  by (auto simp: find_Some_iff)

lemma intern_known:
  assumes "intern_wf t" and "i < length (it_entries t)" and "intern_names t ! i = name"
  shows "intern name t = (Ok \<lparr>nm_id = of_nat (Suc i), nm_is_new = False\<rparr>, t)"
proof -
  have valid: "valid_name name" using assms by (auto simp: intern_wf_def list_all_length intern_names_def)
  have "name \<in> set (intern_names t)" using assms(2,3) by (auto simp: intern_names_def)
  then have "find (\<lambda>e. in_name e = name) (it_entries t) \<noteq> None" by (auto simp: find_None_iff intern_names_def)
  then obtain e j where e: "find (\<lambda>e. in_name e = name) (it_entries t) = Some e"
      "j < length (it_entries t)" "it_entries t ! j = e" "intern_names t ! j = name"
    using find_name_Some unfolding intern_names_def by (metis option.exhaust)
  have "distinct (intern_names t)" using assms(1) by (simp add: intern_wf_def)
  then have "j = i" using nth_eq_iff_index_eq [of "intern_names t" j i] e assms(2,3) by (simp add: intern_names_def)
  then show ?thesis using e valid intern_wf_id(1) [OF assms(1,2)] by (simp add: intern_def)
qed

lemma intern_new:
  assumes wf: "intern_wf t" and new: "name \<notin> set (intern_names t)" and v: "valid_name name"
    and room: "length (it_entries t) < 2 ^ 32 - 2"
  defines "t' \<equiv> snd (intern name t)"
  shows "fst (intern name t) = Ok \<lparr>nm_id = of_nat (Suc (length (it_entries t))), nm_is_new = True\<rparr>"
    and "intern_names t' = intern_names t @ [name]" and "intern_wf t'"
    and "it_entries t' = it_entries t @ [\<lparr>in_name = name, in_id = of_nat (Suc (length (it_entries t))),
           in_reachable_hits = 0, in_assert_passes = 0, in_assert_failures = 0\<rparr>]"
proof -
  have f: "find (\<lambda>e. in_name e = name) (it_entries t) = None"
    using new by (auto simp: find_None_iff intern_names_def)
  have nx: "unat (it_next_id t) = Suc (length (it_entries t))" using wf by (simp add: intern_wf_def)
  then have nx': "it_next_id t = of_nat (Suc (length (it_entries t)))" by (metis of_nat_unat ucast_id)
  have "it_next_id t \<noteq> - 1"
  proof
    assume "it_next_id t = - 1"
    then have "unat (it_next_id t) = 2 ^ 32 - 1" by (simp add: unat_minus_one)
    then show False using nx room by simp
  qed
  then have eq: "intern name t = (Ok \<lparr>nm_id = of_nat (Suc (length (it_entries t))), nm_is_new = True\<rparr>,
      t\<lparr>it_next_id := it_next_id t + 1, it_entries := it_entries t @
        [\<lparr>in_name = name, in_id = of_nat (Suc (length (it_entries t))), in_reachable_hits = 0,
          in_assert_passes = 0, in_assert_failures = 0\<rparr>]\<rparr>)"
    using f v by (simp add: intern_def Let_def nx')
  show "fst (intern name t) = Ok \<lparr>nm_id = of_nat (Suc (length (it_entries t))), nm_is_new = True\<rparr>"
    and "intern_names t' = intern_names t @ [name]"
    and "it_entries t' = it_entries t @ [\<lparr>in_name = name, in_id = of_nat (Suc (length (it_entries t))),
           in_reachable_hits = 0, in_assert_passes = 0, in_assert_failures = 0\<rparr>]"
    by (simp_all add: eq t'_def intern_names_def)
  have "unat (it_next_id t + 1) = Suc (Suc (length (it_entries t)))"
    using nx room by (simp add: unat_word_ariths)
  then show "intern_wf t'"
    using wf new v by (simp add: eq t'_def intern_wf_def intern_names_def)
qed

lemma intern_invalid: "\<not> valid_name name \<Longrightarrow> intern name t = (Err NameTooLong, t)"
  by (simp add: intern_def)

text \<open>The counters of one entry change, names and ids stay.\<close>

lemma entry_mut_nth:
  assumes "i < length es" and "in_id (es ! i) = k" and "\<forall>j < i. in_id (es ! j) \<noteq> k"
  shows "entry_mut k f es = Some (f (es ! i), es[i := f (es ! i)])"
  using assms
proof (induction es arbitrary: i)
  case (Cons x es)
  show ?case
  proof (cases i)
    case (Suc j)
    then have "in_id x \<noteq> k" using Cons.prems(3) by force
    moreover have "\<forall>l < j. in_id (es ! l) \<noteq> k" using Cons.prems(3) Suc by force
    ultimately show ?thesis using Cons.IH [of j] Cons.prems Suc by simp
  qed (use Cons.prems in simp)
qed simp

lemma entry_mut_wf:
  assumes "intern_wf t" and "i < length (it_entries t)"
  shows "entry_mut (of_nat (Suc i)) f (it_entries t) = Some (f (it_entries t ! i), (it_entries t)[i := f (it_entries t ! i)])"
proof (rule entry_mut_nth [OF assms(2)])
  show "in_id (it_entries t ! i) = of_nat (Suc i)" by (rule intern_wf_id(1) [OF assms])
  have "unat (in_id (it_entries t ! j)) \<noteq> unat (in_id (it_entries t ! i))" if "j < i" for j
    using intern_wf_id(2) [OF assms(1), of j] intern_wf_id(2) [OF assms] that assms(2) by simp
  then show "\<forall>j < i. in_id (it_entries t ! j) \<noteq> of_nat (Suc i)"
    using intern_wf_id(1) [OF assms] by metis
qed

lemma intern_wf_update:
  assumes "intern_wf t" and "i < length (it_entries t)"
    and "in_name e = in_name (it_entries t ! i)" and "in_id e = in_id (it_entries t ! i)"
  shows "intern_wf (t\<lparr>it_entries := (it_entries t)[i := e]\<rparr>)"
    and "intern_names (t\<lparr>it_entries := (it_entries t)[i := e]\<rparr>) = intern_names t"
proof -
  show n: "intern_names (t\<lparr>it_entries := (it_entries t)[i := e]\<rparr>) = intern_names t"
    using assms(3) by (simp add: intern_names_def map_update list_update_same_conv assms(2))
  have "map in_id ((it_entries t)[i := e]) = map in_id (it_entries t)"
    using assms(4) by (simp add: map_update list_update_same_conv assms(2))
  then show "intern_wf (t\<lparr>it_entries := (it_entries t)[i := e]\<rparr>)"
    using assms(1) n by (simp add: intern_wf_def)
qed

section \<open>Any sequence of names\<close>

definition named :: "intern_table \<Rightarrow> u32 \<Rightarrow> bytes \<Rightarrow> bool" where
  "named t k name \<longleftrightarrow> (\<exists>i < length (intern_names t). k = of_nat (Suc i) \<and> intern_names t ! i = name)"

lemma length_intern_names: "length (intern_names t) = length (it_entries t)"
  by (simp add: intern_names_def)

lemma named_inj:
  assumes "intern_wf t" and "named t a x" and "named t b y"
  shows "a = b \<longleftrightarrow> x = y" and "a \<noteq> 0"
proof -
  obtain i j where ij: "i < length (it_entries t)" "a = of_nat (Suc i)" "intern_names t ! i = x"
      "j < length (it_entries t)" "b = of_nat (Suc j)" "intern_names t ! j = y"
    using assms(2,3) by (auto simp: named_def length_intern_names)
  have u: "unat a = Suc i" "unat b = Suc j"
    using intern_wf_bound [OF assms(1)] ij by (simp_all add: unat_of_nat del: of_nat_Suc)
  then show "a \<noteq> 0" by auto
  have "distinct (intern_names t)" using assms(1) by (simp add: intern_wf_def)
  then have "i = j \<longleftrightarrow> x = y"
    using nth_eq_iff_index_eq [of "intern_names t" i j] ij(1,3,4,6) by (simp add: length_intern_names)
  moreover have "a = b \<longleftrightarrow> i = j" using u ij(2,5) by (metis Suc_inject)
  ultimately show "a = b \<longleftrightarrow> x = y" by simp
qed

lemma named_append: "named t k x \<Longrightarrow> intern_names t' = intern_names t @ ys \<Longrightarrow> named t' k x"
  by (fastforce simp: named_def nth_append)

text \<open>One call: the table grows by at most the name, and the answer names it.\<close>

lemma intern_step:
  assumes wf: "intern_wf t" and room: "length (it_entries t) < 2 ^ 32 - 2" and r: "intern name t = (r, t')"
  shows "intern_wf t' \<and> (\<exists>ys. intern_names t' = intern_names t @ ys \<and> length ys \<le> 1)
    \<and> (case r of
         Ok q \<Rightarrow> valid_name name \<and> named t' (nm_id q) name \<and> (nm_is_new q \<longleftrightarrow> name \<notin> set (intern_names t))
               \<and> set (intern_names t') = insert name (set (intern_names t))
       | Err e \<Rightarrow> e = NameTooLong \<and> \<not> valid_name name \<and> t' = t
       | Panic \<Rightarrow> False)"
proof (cases "valid_name name")
  case v: True
  show ?thesis
  proof (cases "name \<in> set (intern_names t)")
    case True
    then obtain i where i: "i < length (it_entries t)" "intern_names t ! i = name"
      by (auto simp: in_set_conv_nth intern_names_def)
    then show ?thesis
      using intern_known [OF wf i] r v wf True by (auto simp: named_def length_intern_names)
  next
    case False
    note new = intern_new [OF wf False v room]
    have "named t' (of_nat (Suc (length (it_entries t)))) name"
      using new(2) r by (auto simp: named_def nth_append length_intern_names intro!: exI [of _ "length (it_entries t)"])
    then show ?thesis using new(1,2,3) r v False by auto
  qed
qed (use intern_invalid [of name t] r wf in auto)

primrec intern_all :: "bytes list \<Rightarrow> intern_table \<Rightarrow> (intern_error, interned_name) res list \<times> intern_table" where
  "intern_all [] t = ([], t)"
| "intern_all (n # ns) t = (case intern n t of (r, t) \<Rightarrow> case intern_all ns t of (rs, t) \<Rightarrow> (r # rs, t))"

lemma intern_all_run:
  "intern_wf t \<Longrightarrow> length (it_entries t) + length names < 2 ^ 32 - 2 \<Longrightarrow> intern_all names t = (rs, t') \<Longrightarrow>
     intern_wf t' \<and> (\<exists>ys. intern_names t' = intern_names t @ ys) \<and> length rs = length names
     \<and> (\<forall>i < length names. case rs ! i of
          Ok q \<Rightarrow> valid_name (names ! i) \<and> named t' (nm_id q) (names ! i)
                \<and> (nm_is_new q \<longleftrightarrow> names ! i \<notin> set (intern_names t) \<union> set (take i names))
        | Err e \<Rightarrow> e = NameTooLong \<and> \<not> valid_name (names ! i)
        | Panic \<Rightarrow> False)"
proof (induction names arbitrary: t rs)
  case (Cons n ns)
  obtain r t1 where r: "intern n t = (r, t1)" by (rule prod.exhaust)
  obtain rs1 where rs: "intern_all ns t1 = (rs1, t')" "rs = r # rs1"
    using Cons.prems(3) r by (auto split: prod.splits)
  note st = intern_step [OF Cons.prems(1) _ r]
  have len: "length (it_entries t) < 2 ^ 32 - 2" using Cons.prems(2) by simp
  obtain ys where ys: "intern_names t1 = intern_names t @ ys" "length ys \<le> 1" using st [OF len] by blast
  have "length (it_entries t1) \<le> Suc (length (it_entries t))"
    using arg_cong [OF ys(1), of length] ys(2) by (simp add: intern_names_def)
  then have run: "intern_wf t'" "\<exists>zs. intern_names t' = intern_names t1 @ zs" "length rs1 = length ns"
      "\<forall>i < length ns. case rs1 ! i of
          Ok q \<Rightarrow> valid_name (ns ! i) \<and> named t' (nm_id q) (ns ! i)
                \<and> (nm_is_new q \<longleftrightarrow> ns ! i \<notin> set (intern_names t1) \<union> set (take i ns))
        | Err e \<Rightarrow> e = NameTooLong \<and> \<not> valid_name (ns ! i) | Panic \<Rightarrow> False"
    using Cons.IH [OF _ _ rs(1)] st [OF len] Cons.prems(2) by auto
  then obtain zs where zs: "intern_names t' = intern_names t1 @ zs" by blast
  have seen: "x \<notin> set (intern_names t1) \<longleftrightarrow> x \<notin> insert n (set (intern_names t))" if "valid_name x" for x
    using st [OF len] that by (cases r) auto
  have "case rs ! i of Ok q \<Rightarrow> valid_name ((n # ns) ! i) \<and> named t' (nm_id q) ((n # ns) ! i)
          \<and> (nm_is_new q \<longleftrightarrow> (n # ns) ! i \<notin> set (intern_names t) \<union> set (take i (n # ns)))
        | Err e \<Rightarrow> e = NameTooLong \<and> \<not> valid_name ((n # ns) ! i) | Panic \<Rightarrow> False" if "i < length (n # ns)" for i
  proof (cases i)
    case 0
    then show ?thesis using st [OF len] named_append [OF _ zs] by (auto simp: rs(2) split: res.splits)
  next
    case (Suc j)
    then have "j < length ns" using that by simp
    with run(4) have "case rs1 ! j of
          Ok q \<Rightarrow> valid_name (ns ! j) \<and> named t' (nm_id q) (ns ! j)
                \<and> (nm_is_new q \<longleftrightarrow> ns ! j \<notin> set (intern_names t1) \<union> set (take j ns))
        | Err e \<Rightarrow> e = NameTooLong \<and> \<not> valid_name (ns ! j) | Panic \<Rightarrow> False" by blast
    then show ?thesis using seen [of "ns ! j"] Suc by (auto simp: rs(2) split: res.splits)
  qed
  then show ?case using run(1,3) zs ys(1) rs(2) by auto
qed auto

section \<open>Properties\<close>

text \<open>
  C30. Interning is a bijection: over any sequence of calls, a call fails exactly when its name is
  longer than 256 bytes, two calls answer the same id exactly when their names are equal, no id is
  zero, and a call reports a new name exactly when the name did not occur before.
\<close>

theorem intern_bijection:
  assumes "intern_all names InternTable_default = (rs, t)" and "length names < 2 ^ 32 - 2"
  shows "length rs = length names
    \<and> (\<forall>i < length names. case rs ! i of
          Ok q \<Rightarrow> length (names ! i) \<le> 256 \<and> nm_id q \<noteq> 0 \<and> (nm_is_new q \<longleftrightarrow> names ! i \<notin> set (take i names))
        | Err e \<Rightarrow> e = NameTooLong \<and> 256 < length (names ! i)
        | Panic \<Rightarrow> False)
    \<and> (\<forall>i < length names. \<forall>j < length names. \<forall>a b. rs ! i = Ok a \<and> rs ! j = Ok b \<longrightarrow>
          (nm_id a = nm_id b \<longleftrightarrow> names ! i = names ! j))"
proof -
  have empty: "it_entries InternTable_default = []" "intern_names InternTable_default = []"
    by (simp_all add: InternTable_default_def intern_names_def)
  have run: "intern_wf t" "length rs = length names"
    "\<And>i. i < length names \<Longrightarrow> case rs ! i of
          Ok q \<Rightarrow> valid_name (names ! i) \<and> named t (nm_id q) (names ! i)
                \<and> (nm_is_new q \<longleftrightarrow> names ! i \<notin> set (take i names))
        | Err e \<Rightarrow> e = NameTooLong \<and> \<not> valid_name (names ! i) | Panic \<Rightarrow> False"
    using intern_all_run [OF intern_wf_default _ assms(1), unfolded empty list.set Un_empty_left] assms(2) by simp_all
  have "nm_id a = nm_id b \<longleftrightarrow> names ! i = names ! j"
    if "i < length names" "j < length names" "rs ! i = Ok a" "rs ! j = Ok b" for i j a b
    using named_inj(1) [OF run(1)] run(3) [OF that(1)] run(3) [OF that(2)] that(3,4) by simp
  moreover have "case rs ! i of
          Ok q \<Rightarrow> length (names ! i) \<le> 256 \<and> nm_id q \<noteq> 0 \<and> (nm_is_new q \<longleftrightarrow> names ! i \<notin> set (take i names))
        | Err e \<Rightarrow> e = NameTooLong \<and> 256 < length (names ! i) | Panic \<Rightarrow> False" if "i < length names" for i
    using run(3) [OF that] named_inj(2) [OF run(1)] by (auto simp: valid_name_def split: res.splits)
  ultimately show ?thesis using run(2) by blast
qed

theorem intern_bijection_witness:
  "case intern_all [[0x61], replicate 300 0, [0x62], [0x61]] InternTable_default of (rs, t) \<Rightarrow>
     rs = [Ok \<lparr>nm_id = 1, nm_is_new = True\<rparr>, Err NameTooLong, Ok \<lparr>nm_id = 2, nm_is_new = True\<rparr>,
           Ok \<lparr>nm_id = 1, nm_is_new = False\<rparr>]
     \<and> (case rs ! 3 of Ok q \<Rightarrow> nm_id q \<noteq> 0 | _ \<Rightarrow> False)"
  using intern_bijection [of "[[0x61], replicate 300 0, [0x62], [0x61]]"]
  by (simp add: intern_def InternTable_default_def valid_name_def)

end
