(* ===== verification/Sdk_Stats.thy ===== *)
theory Sdk_Stats
  imports Sdk_Intern
begin

text \<open>
  The workload's counters: the coverage beacons of \<^verbatim>\<open>crates/detguest-sdk/src/beacons.rs\<close> and the
  published statistics region of \<^verbatim>\<open>crates/detguest-sdk/src/stats_region.rs\<close>. The region's two name
  tables share their slot discipline, which is the locale \<open>slot_table\<close>: a fixed array in which a
  name takes the first free slot and keeps it.
\<close>

section \<open>Beacons\<close>

definition BEACON_SLOTS :: nat where [simp]: "BEACON_SLOTS = 65536"

record beacon_counters =
  bc_counts :: "u32 list"
  bc_seen :: "bool list"

record beacon_hit =
  bh_id :: u32
  bh_first_hit :: bool

definition BeaconCounters_default :: beacon_counters where
  "BeaconCounters_default = \<lparr>bc_counts = replicate BEACON_SLOTS 0, bc_seen = replicate BEACON_SLOTS False\<rparr>"

definition hit :: "u32 \<Rightarrow> beacon_counters \<Rightarrow> beacon_hit \<times> beacon_counters" where
  "hit beacon self =
     (let i = unat (beacon AND (of_nat BEACON_SLOTS - 1));
          self = self\<lparr>bc_counts := (bc_counts self)[i := saturating_add (bc_counts self ! i) 1]\<rparr>;
          first_hit = (\<not> bc_seen self ! i);
          self = self\<lparr>bc_seen := (bc_seen self)[i := True]\<rparr>
      in (\<lparr>bh_id = of_nat i, bh_first_hit = first_hit\<rparr>, self))"

section \<open>The statistics region\<close>

definition NAME_SLOTS :: nat where [simp]: "NAME_SLOTS = 1024"

definition STATS_REGION_SIZE :: nat where [simp]: "STATS_REGION_SIZE = 0x46040"

record reachable_stat =
  rs_name_id :: u32
  rs_hits :: u32

record assert_stat =
  as_name_id :: u32
  as_pass_lo :: u32
  as_fail_lo :: u32
  as_pad :: u32

record stats_region =
  sr_stats_version :: u32
  sr_pad0 :: u32
  sr_asserts_passed_total :: u64
  sr_asserts_failed_total :: u64
  sr_reachable_names :: u64
  sr_inject_queries_total :: u64
  sr_reserved :: bytes
  sr_beacon_counts :: "u32 list"
  sr_reachable :: "reachable_stat list"
  sr_assertions :: "assert_stat list"

definition StatsRegion_default :: stats_region where
  "StatsRegion_default =
     \<lparr>sr_stats_version = 1, sr_pad0 = 0, sr_asserts_passed_total = 0, sr_asserts_failed_total = 0,
      sr_reachable_names = 0, sr_inject_queries_total = 0, sr_reserved = replicate 24 0,
      sr_beacon_counts = replicate BEACON_SLOTS 0,
      sr_reachable = replicate NAME_SLOTS \<lparr>rs_name_id = 0, rs_hits = 0\<rparr>,
      sr_assertions = replicate NAME_SLOTS \<lparr>as_name_id = 0, as_pass_lo = 0, as_fail_lo = 0, as_pad = 0\<rparr>\<rparr>"

definition record_beacon :: "u32 \<Rightarrow> stats_region \<Rightarrow> stats_region" where
  "record_beacon beacon self =
     (let slot = unat (beacon AND (of_nat BEACON_SLOTS - 1))
      in self\<lparr>sr_beacon_counts := (sr_beacon_counts self)[slot := saturating_add (sr_beacon_counts self ! slot) 1]\<rparr>)"

text \<open>\<open>Iterator::position\<close>, and \<open>named_slot\<close>: the slot of the name, or else the first free one.\<close>

primrec position :: "('a \<Rightarrow> bool) \<Rightarrow> 'a list \<Rightarrow> nat option" where
  "position P [] = None"
| "position P (x # xs) = (if P x then Some 0 else map_option Suc (position P xs))"

definition named_slot :: "('a \<Rightarrow> u32) \<Rightarrow> 'a list \<Rightarrow> u32 \<Rightarrow> nat option" where
  "named_slot key entries name_id =
     (case position (\<lambda>entry. key entry = name_id) entries of
        Some i \<Rightarrow> Some i
      | None \<Rightarrow> position (\<lambda>entry. key entry = 0) entries)"

definition StatsRegion_record_reachable :: "u32 \<Rightarrow> u32 \<Rightarrow> stats_region \<Rightarrow> stats_region" where
  "StatsRegion_record_reachable name_id hits self =
     (case named_slot rs_name_id (sr_reachable self) name_id of
        Some i \<Rightarrow> self\<lparr>sr_reachable := (sr_reachable self)[i := (sr_reachable self ! i)\<lparr>rs_name_id := name_id, rs_hits := hits\<rparr>]\<rparr>
      | None \<Rightarrow> self)"

definition StatsRegion_record_assert :: "u32 \<Rightarrow> u32 \<Rightarrow> u32 \<Rightarrow> stats_region \<Rightarrow> stats_region" where
  "StatsRegion_record_assert name_id pass fail self =
     (case named_slot as_name_id (sr_assertions self) name_id of
        Some i \<Rightarrow> self\<lparr>sr_assertions := (sr_assertions self)[i :=
                    (sr_assertions self ! i)\<lparr>as_name_id := name_id, as_pass_lo := pass, as_fail_lo := fail\<rparr>]\<rparr>
      | None \<Rightarrow> self)"

section \<open>Positions\<close>

lemma position_None: "position P xs = None \<longleftrightarrow> (\<forall>x \<in> set xs. \<not> P x)"
  by (induction xs) auto

lemma position_Some: "position P xs = Some i \<longleftrightarrow> i < length xs \<and> P (xs ! i) \<and> (\<forall>j < i. \<not> P (xs ! j))"
proof (induction xs arbitrary: i)
  case (Cons x xs)
  show ?case
    by (cases i) (auto simp: Cons.IH nth_Cons' less_Suc_eq_0_disj split: if_splits)
qed simp

text \<open>Distinct words in the order of their first occurrence.\<close>

definition firsts :: "'a list \<Rightarrow> 'a list" where
  "firsts xs = rev (remdups (rev xs))"

lemma firsts_Nil [simp]: "firsts [] = []"
  by (simp add: firsts_def)

lemma firsts_snoc: "firsts (xs @ [x]) = (if x \<in> set xs then firsts xs else firsts xs @ [x])"
  by (simp add: firsts_def)

lemma firsts_set [simp]: "set (firsts xs) = set xs" "distinct (firsts xs)"
  by (simp_all add: firsts_def)

section \<open>Slot tables\<close>

locale slot_table =
  fixes key :: "'e \<Rightarrow> u32" and store :: "u32 \<Rightarrow> 'v \<Rightarrow> 'e \<Rightarrow> 'e" and val :: "'e \<Rightarrow> 'v"
  assumes key_store: "key (store n v e) = n" and val_store: "val (store n v e) = v"
begin

definition put :: "u32 \<times> 'v \<Rightarrow> 'e list \<Rightarrow> 'e list" where
  "put = (\<lambda>(n, v) xs. case named_slot key xs n of Some i \<Rightarrow> xs[i := store n v (xs ! i)] | None \<Rightarrow> xs)"

definition get :: "u32 \<Rightarrow> 'e list \<Rightarrow> 'v option" where
  "get n xs = map_option val (find (\<lambda>e. key e = n) xs)"

text \<open>The first slots hold the names \<open>ks\<close>, the rest are free.\<close>

definition rep :: "'e list \<Rightarrow> u32 list \<Rightarrow> bool" where
  "rep xs ks \<longleftrightarrow> map key xs = ks @ replicate (length xs - length ks) 0 \<and> length ks \<le> length xs
     \<and> distinct ks \<and> 0 \<notin> set ks"

lemma rep_nth:
  assumes "rep xs ks" and "i < length xs"
  shows "key (xs ! i) = (if i < length ks then ks ! i else 0)"
  using arg_cong [of _ _ "\<lambda>l. l ! i", OF conjunct1 [OF assms(1) [unfolded rep_def]]] assms(2)
  by (simp add: nth_append)

lemma find_nth:
  assumes "rep xs ks" and "i < length ks"
  shows "find (\<lambda>e. key e = ks ! i) xs = Some (xs ! i)"
proof -
  have d: "distinct ks" and l: "length ks \<le> length xs" using assms(1) by (simp_all add: rep_def)
  have "key (xs ! j) \<noteq> ks ! i" if "j < i" for j
    using rep_nth [OF assms(1), of j] that assms(2) l d by (simp add: nth_eq_iff_index_eq)
  then show ?thesis
    using rep_nth [OF assms(1), of i] assms(2) l by (auto simp: find_Some_iff intro!: exI [of _ i])
qed

lemma get_nth: "rep xs ks \<Longrightarrow> i < length ks \<Longrightarrow> get (ks ! i) xs = Some (val (xs ! i))"
  by (simp add: get_def find_nth)

lemma get_None: "rep xs ks \<Longrightarrow> n \<noteq> 0 \<Longrightarrow> n \<notin> set ks \<Longrightarrow> get n xs = None"
proof -
  assume r: "rep xs ks" "n \<noteq> 0" "n \<notin> set ks"
  have "set (map key xs) \<subseteq> set ks \<union> {0}" using r(1) by (auto simp: rep_def)
  then show ?thesis using r(2,3) by (fastforce simp: get_def find_None_iff)
qed

lemma slot_known:
  assumes "rep xs ks" and "i < length ks"
  shows "named_slot key xs (ks ! i) = Some i"
proof -
  have "position (\<lambda>e. key e = ks ! i) xs = Some i"
    using assms rep_nth [OF assms(1)] by (auto simp: position_Some rep_def nth_eq_iff_index_eq)
  then show ?thesis by (simp add: named_slot_def)
qed

lemma slot_new:
  assumes "rep xs ks" and "n \<notin> set ks" and "n \<noteq> 0"
  shows "named_slot key xs n = (if length ks < length xs then Some (length ks) else None)"
proof -
  have "set (map key xs) \<subseteq> set ks \<union> {0}" using assms(1) by (auto simp: rep_def)
  then have none: "position (\<lambda>e. key e = n) xs = None" using assms(2,3) by (auto simp: position_None)
  show ?thesis
  proof (cases "length ks < length xs")
    case True
    have "key (xs ! j) \<noteq> 0" if "j < length ks" for j
      using rep_nth [OF assms(1), of j] that True assms(1) by (auto simp: rep_def in_set_conv_nth)
    then have "position (\<lambda>e. key e = 0) xs = Some (length ks)"
      using rep_nth [OF assms(1) True] True by (simp add: position_Some)
    then show ?thesis using none True by (simp add: named_slot_def)
  next
    case False
    then have "map key xs = ks" using assms(1) by (simp add: rep_def)
    then have "0 \<notin> set (map key xs)" using assms(1) by (simp add: rep_def)
    then have "position (\<lambda>e. key e = 0) xs = None" by (force simp: position_None)
    then show ?thesis using none False by (simp add: named_slot_def)
  qed
qed

lemma rep_store:
  assumes r: "rep xs ks" and i: "i < length ks' " "length ks' \<le> length xs" and n: "ks' ! i = n" "n \<noteq> 0"
    and ks': "ks' = ks \<or> (ks' = ks @ [n] \<and> n \<notin> set ks \<and> i = length ks)"
  shows "rep (xs[i := store n v e]) ks'"
    and "m \<noteq> 0 \<Longrightarrow> get m (xs[i := store n v e]) = (if m = n then Some v else get m xs)"
proof -
  let ?xs = "xs[i := store n v e]"
  have "map key ?xs = (map key xs)[i := n]" by (simp add: map_update key_store)
  also have "\<dots> = ks' @ replicate (length xs - length ks') 0"
  proof (cases "ks' = ks")
    case True
    then show ?thesis using r i(1) n(1) by (auto simp: rep_def list_update_append list_update_id)
  next
    case False
    then have k: "ks' = ks @ [n]" "i = length ks" using ks' by auto
    then obtain d where d: "length xs - length ks = Suc d" using i(2) by (cases "length xs - length ks") auto
    then have "length xs - Suc (length ks) = d" by simp
    then show ?thesis using r d by (simp add: rep_def k list_update_append)
  qed
  finally show r': "rep ?xs ks'" using r i(2) ks' n(2) by (auto simp: rep_def)
  show "get m ?xs = (if m = n then Some v else get m xs)" if "m \<noteq> 0"
  proof (cases "m \<in> set ks'")
    case True
    then obtain j where j: "j < length ks'" "m = ks' ! j" by (auto simp: in_set_conv_nth)
    have d: "distinct ks'" using r' by (simp add: rep_def)
    show ?thesis
    proof (cases "j = i")
      case True
      then show ?thesis using get_nth [OF r' j(1)] j i n(1) by (simp add: val_store)
    next
      case False
      then have "j < length ks" "ks ! j = m" using j ks' by (auto simp: nth_append split: if_splits)
      then show ?thesis using get_nth [OF r' j(1)] get_nth [OF r, of j] False j d i(1) n(1)
        by (auto simp: nth_eq_iff_index_eq)
    qed
  next
    case False
    moreover have "set ks \<subseteq> set ks'" using ks' by (elim disjE conjE) auto
    moreover have "n \<in> set ks'" using nth_mem [OF i(1)] n(1) by simp
    ultimately have "m \<notin> set ks" "m \<noteq> n" by auto
    then show ?thesis using get_None [OF r' that False] get_None [OF r that] by simp
  qed
qed

lemma put_get:
  assumes r: "rep xs ks" and n: "n \<noteq> 0"
    and ks': "ks' = (if n \<in> set ks \<or> length xs \<le> length ks then ks else ks @ [n])"
  shows "rep (put (n, v) xs) ks'"
    and "m \<noteq> 0 \<Longrightarrow> get m (put (n, v) xs) = (if m = n \<and> n \<in> set ks' then Some v else get m xs)"
proof -
  have len: "length ks \<le> length xs" using r by (simp add: rep_def)
  consider (known) i where "i < length ks" "ks ! i = n" | (new) "n \<notin> set ks" "length ks < length xs"
    | (full) "n \<notin> set ks" "length xs \<le> length ks"
    by (metis in_set_conv_nth not_le)
  then have "rep (put (n, v) xs) ks' \<and>
      (m \<noteq> 0 \<longrightarrow> get m (put (n, v) xs) = (if m = n \<and> n \<in> set ks' then Some v else get m xs))"
  proof cases
    case (known i)
    then have k: "ks' = ks" "n \<in> set ks" using ks' nth_mem by auto
    then show ?thesis
      using rep_store(1) [OF r, of i ks n v "xs ! i"] rep_store(2) [OF r, of i ks n m v "xs ! i"] known len n slot_known [OF r known(1)] by (simp add: put_def)
  next
    case new
    then have "ks' = ks @ [n]" using ks' by simp
    then show ?thesis
      using rep_store(1) [OF r, of "length ks" "ks @ [n]" n v "xs ! length ks"]
        rep_store(2) [OF r, of "length ks" "ks @ [n]" n m v "xs ! length ks"] new n slot_new [OF r new(1) n]
      by (simp add: put_def)
  next
    case full
    then show ?thesis using slot_new [OF r full(1) n] ks' r by (simp add: put_def)
  qed
  then show "rep (put (n, v) xs) ks'"
    "m \<noteq> 0 \<Longrightarrow> get m (put (n, v) xs) = (if m = n \<and> n \<in> set ks' then Some v else get m xs)" by blast+
qed

lemma length_put [simp]: "length (put u xs) = length xs"
  by (simp add: put_def split: prod.splits option.splits)

text \<open>
  Any sequence of updates on free slots: the names seen first keep their last value, the others are
  not recorded.
\<close>

lemma rep_free: "list_all (\<lambda>e. key e = 0) xs \<Longrightarrow> rep xs []"
  by (induction xs) (auto simp: rep_def)

lemma put_all:
  assumes free: "list_all (\<lambda>e. key e = 0) xs" and nz: "0 \<notin> set (map fst us)"
  shows "rep (fold put us xs) (take (length xs) (firsts (map fst us)))
     \<and> (\<forall>m. m \<noteq> 0 \<longrightarrow> get m (fold put us xs) =
          (if m \<in> set (take (length xs) (firsts (map fst us))) then map_of (rev us) m else None))"
  using nz
proof (induction us rule: rev_induct)
  case Nil
  then show ?case using rep_free [OF free] get_None [OF rep_free [OF free]] by simp
next
  case (snoc u us)
  obtain n v where u: "u = (n, v)" by (rule prod.exhaust)
  let ?f = "firsts (map fst us)" and ?N = "length xs"
  have n: "n \<noteq> 0" using snoc.prems u by auto
  have r: "rep (fold put us xs) (take ?N ?f)" using snoc by simp
  have l: "length (fold put us xs) = ?N" by (induction us arbitrary: xs) simp_all
  have t: "take ?N (firsts (map fst (us @ [u]))) =
      (if n \<in> set (take ?N ?f) \<or> length (fold put us xs) \<le> length (take ?N ?f) then take ?N ?f else take ?N ?f @ [n])"
    using set_take_subset [of ?N ?f] by (auto simp: firsts_snoc u l min_def split: if_splits)
  note pg = put_get [OF r n t, where v = v]
  have "get m (put (n, v) (fold put us xs)) =
      (if m \<in> set (take ?N (firsts (map fst (us @ [u])))) then map_of (rev (us @ [u])) m else None)" if "m \<noteq> 0" for m
  proof -
    have "m \<noteq> n \<Longrightarrow> m \<in> set (take ?N (firsts (map fst (us @ [u])))) \<longleftrightarrow> m \<in> set (take ?N ?f)" using t by auto
    moreover have "get m (fold put us xs) = (if m \<in> set (take ?N ?f) then map_of (rev us) m else None)" if "m \<noteq> n"
      using snoc \<open>m \<noteq> 0\<close> by simp
    moreover have "n \<notin> set (take ?N (firsts (map fst (us @ [u])))) \<Longrightarrow> get n (fold put us xs) = None"
      using t snoc n by (auto split: if_splits)
    ultimately show ?thesis using pg(2) [OF that] by (auto simp: u)
  qed
  then show ?case using pg(1) by (simp add: u)
qed

end

interpretation reach: slot_table rs_name_id "\<lambda>n h e. e\<lparr>rs_name_id := n, rs_hits := h\<rparr>" rs_hits
  by unfold_locales simp_all

interpretation asserts: slot_table as_name_id
  "\<lambda>n (p, f) e. e\<lparr>as_name_id := n, as_pass_lo := p, as_fail_lo := f\<rparr>" "\<lambda>e. (as_pass_lo e, as_fail_lo e)"
  by unfold_locales (simp_all split: prod.splits)

lemma record_reachable_put: "sr_reachable (StatsRegion_record_reachable n h r) = reach.put (n, h) (sr_reachable r)"
  by (simp add: StatsRegion_record_reachable_def reach.put_def split: option.splits)

lemma record_assert_put: "sr_assertions (StatsRegion_record_assert n p f r) = asserts.put (n, (p, f)) (sr_assertions r)"
  by (simp add: StatsRegion_record_assert_def asserts.put_def split: option.splits)

section \<open>Beacon counts\<close>

lemma beacon_index: "unat (b AND (of_nat BEACON_SLOTS - 1)) = unat (b :: u32) mod 65536"
  using unat_and_mask_pow2 [OF pow2_sizes(5), of b] by simp

definition beacon_slot :: "u32 \<Rightarrow> nat" where
  "beacon_slot b = unat b mod 65536"

text \<open>The counters after the hits \<open>bs\<close>.\<close>

definition beacon_rep :: "beacon_counters \<Rightarrow> u32 list \<Rightarrow> bool" where
  "beacon_rep c bs \<longleftrightarrow> length (bc_counts c) = 65536 \<and> length (bc_seen c) = 65536
     \<and> (\<forall>k < 65536. unat (bc_counts c ! k) = min (length (filter (\<lambda>b. beacon_slot b = k) bs)) (2 ^ 32 - 1)
          \<and> (bc_seen c ! k \<longleftrightarrow> k \<in> beacon_slot ` set bs))"

lemma beacon_rep_default: "beacon_rep BeaconCounters_default []"
  by (simp add: beacon_rep_def BeaconCounters_default_def)

lemma hit_rep:
  assumes "beacon_rep c bs"
  shows "fst (hit b c) = \<lparr>bh_id = of_nat (beacon_slot b), bh_first_hit = (beacon_slot b \<notin> beacon_slot ` set bs)\<rparr>"
    and "beacon_rep (snd (hit b c)) (bs @ [b])"
proof -
  have i: "beacon_slot b < 65536" by (simp add: beacon_slot_def)
  have eq: "hit b c = (\<lparr>bh_id = of_nat (beacon_slot b), bh_first_hit = (\<not> bc_seen c ! beacon_slot b)\<rparr>,
      c\<lparr>bc_counts := (bc_counts c)[beacon_slot b := saturating_add (bc_counts c ! beacon_slot b) 1],
        bc_seen := (bc_seen c)[beacon_slot b := True]\<rparr>)"
    unfolding hit_def Let_def beacon_index beacon_slot_def by simp
  show "fst (hit b c) = \<lparr>bh_id = of_nat (beacon_slot b), bh_first_hit = (beacon_slot b \<notin> beacon_slot ` set bs)\<rparr>"
    using assms i by (simp add: eq beacon_rep_def)
  have "unat (saturating_add (bc_counts c ! k) 1) = min (Suc (length (filter (\<lambda>b. beacon_slot b = k) bs))) (2 ^ 32 - 1)"
    if "k < 65536" for k
    using saturating_step [of "bc_counts c ! k" "length (filter (\<lambda>b. beacon_slot b = k) bs)"] assms that
    by (simp add: beacon_rep_def)
  then show "beacon_rep (snd (hit b c)) (bs @ [b])"
    using assms i by (auto simp: eq beacon_rep_def nth_list_update)
qed

primrec hits :: "u32 list \<Rightarrow> beacon_counters \<Rightarrow> beacon_hit list \<times> beacon_counters" where
  "hits [] c = ([], c)"
| "hits (b # bs) c = (case hit b c of (h, c) \<Rightarrow> case hits bs c of (hs, c) \<Rightarrow> (h # hs, c))"

lemma hits_run:
  "beacon_rep c ps \<Longrightarrow> hits bs c = (hs, c') \<Longrightarrow>
     beacon_rep c' (ps @ bs) \<and> length hs = length bs
     \<and> (\<forall>i < length bs. hs ! i = \<lparr>bh_id = of_nat (beacon_slot (bs ! i)),
          bh_first_hit = (beacon_slot (bs ! i) \<notin> beacon_slot ` set (ps @ take i bs))\<rparr>)"
proof (induction bs arbitrary: c ps hs)
  case (Cons b bs)
  obtain h c1 hs1 where h: "hit b c = (h, c1)" "hits bs c1 = (hs1, c')" "hs = h # hs1"
    using Cons.prems(2) by (auto split: prod.splits)
  note st = hit_rep [OF Cons.prems(1), of b, unfolded h(1) fst_conv snd_conv]
  note IH = Cons.IH [OF st(2) h(2)]
  have "hs ! i = \<lparr>bh_id = of_nat (beacon_slot ((b # bs) ! i)),
      bh_first_hit = (beacon_slot ((b # bs) ! i) \<notin> beacon_slot ` set (ps @ take i (b # bs)))\<rparr>"
    if "i < length (b # bs)" for i
    using st(1) IH that by (cases i) (simp_all add: h(3))
  then show ?case using IH by (simp add: h(3))
qed simp

lemma record_beacon_counts:
  "sr_beacon_counts r = bc_counts c \<Longrightarrow> sr_beacon_counts (record_beacon b r) = bc_counts (snd (hit b c))"
  by (simp add: record_beacon_def hit_def Let_def)

section \<open>Properties\<close>

text \<open>
  Beacons count exactly: after any sequence of hits, each of the 65536 slots holds the number of
  hits that fall on it, saturated at the 32-bit maximum, and a hit is reported as the first exactly
  when no earlier hit fell on its slot.
\<close>

theorem beacon_counts_exact:
  assumes "hits bs BeaconCounters_default = (hs, c)"
  shows "(\<forall>k < 65536. unat (bc_counts c ! k) = min (length (filter (\<lambda>b. unat b mod 65536 = k) bs)) (2 ^ 32 - 1))
    \<and> length hs = length bs
    \<and> (\<forall>i < length bs. unat (bh_id (hs ! i)) = unat (bs ! i) mod 65536
        \<and> (bh_first_hit (hs ! i) \<longleftrightarrow> (\<forall>j < i. unat (bs ! j) mod 65536 \<noteq> unat (bs ! i) mod 65536)))"
proof -
  note run = hits_run [OF beacon_rep_default assms]
  have "unat (bh_id (hs ! i)) = unat (bs ! i) mod 65536" if "i < length bs" for i
    using run that by (simp add: beacon_slot_def unat_of_nat)
  moreover have "bh_first_hit (hs ! i) \<longleftrightarrow> (\<forall>j < i. unat (bs ! j) mod 65536 \<noteq> unat (bs ! i) mod 65536)"
    if "i < length bs" for i
  proof -
    have "set (take i bs) = (!) bs ` {0..<i}" using nth_image [of i bs] that by simp
    then have "v \<notin> beacon_slot ` set (take i bs) \<longleftrightarrow> (\<forall>j < i. unat (bs ! j) mod 65536 \<noteq> v)" for v
      by (auto simp: beacon_slot_def image_iff)
    then show ?thesis using run that by (simp add: beacon_slot_def [of "bs ! i"])
  qed
  ultimately show ?thesis using run by (simp add: beacon_rep_def beacon_slot_def)
qed

theorem beacon_counts_exact_witness:
  "case hits [1, 0x10001] BeaconCounters_default of (hs, c) \<Rightarrow>
     unat (bc_counts c ! 1) = 2 \<and> \<not> bh_first_hit (hs ! 1) \<and> bh_first_hit (hs ! 0)"
proof -
  obtain hs c where h: "hits [1, 0x10001] BeaconCounters_default = (hs, c)" by (rule prod.exhaust)
  have "filter (\<lambda>b :: u32. unat b mod 65536 = 1) [1, 0x10001] = [1, 0x10001]" by simp
  then show ?thesis using beacon_counts_exact [OF h] unfolding h by (simp add: All_less_Suc)
qed

text \<open>
  The published name table is a bounded map: whatever hit counts are recorded for whatever names,
  the first 1024 distinct names keep a slot each with their latest count, and later names are not
  recorded; entries never move or disappear.
\<close>

theorem reachable_stats_exact:
  assumes "0 \<notin> fst ` set us" and "m \<noteq> 0"
  shows "map_option rs_hits (find (\<lambda>e. rs_name_id e = m)
       (sr_reachable (fold (\<lambda>(n, h). StatsRegion_record_reachable n h) us StatsRegion_default))) =
     (if m \<in> set (take 1024 (firsts (map fst us))) then map_of (rev us) m else None)"
proof -
  have eq: "sr_reachable (fold (\<lambda>(n, h). StatsRegion_record_reachable n h) us r) = fold reach.put us (sr_reachable r)" for r
    by (induction us arbitrary: r) (auto simp: record_reachable_put)
  have "list_all (\<lambda>e. rs_name_id e = 0) (sr_reachable StatsRegion_default)" "length (sr_reachable StatsRegion_default) = 1024"
    by (simp_all add: StatsRegion_default_def list_all_iff)
  then show ?thesis
    using reach.put_all [of "sr_reachable StatsRegion_default" us] assms by (simp add: eq reach.get_def)
qed

theorem reachable_stats_exact_witness:
  "map_option rs_hits (find (\<lambda>e. rs_name_id e = 7)
     (sr_reachable (fold (\<lambda>(n, h). StatsRegion_record_reachable n h) [(7, 1), (8, 1), (7, 2)] StatsRegion_default))) = Some 2"
  using reachable_stats_exact [of "[(7, 1), (8, 1), (7, 2)]" 7] by (simp add: firsts_def)

end
