(* ===== verification/Page_Ring.thy ===== *)
theory Page_Ring
  imports Host_Channel Ring_Fifo
begin

text \<open>
  The guest's ring halves over the shared page. In the guest the producer and consumer of
  \<^verbatim>\<open>crates/detguest-wire/src/ring.rs\<close> work on the page through raw pointers; \<open>page_push\<close> is such an access
  on the page's bytes. The lemmas carry the queue reading of a ring to the page: a push on one ring
  is a push on its queue and touches neither the other rings nor the manifest area nor the header.
  Both the SDK and the agent build on them.
\<close>

section \<open>Accesses\<close>

text \<open>The ring halves through the page: a push stores data and producer index, a pop the consumer index.\<close>

definition page_push ::
  "channel_header \<Rightarrow> ring_id \<Rightarrow> producer \<Rightarrow> bytes \<Rightarrow> nat \<Rightarrow> (bytes \<Rightarrow> u32 \<Rightarrow> (encode_error, bytes \<times> nat) res)
    \<Rightarrow> (ring_full, u32) res \<times> producer \<times> bytes" where
  "page_push h ring p page total_len encode =
     (case try_push p (page_ring h page ring) total_len encode of (r, p, rm) \<Rightarrow>
        (r, p, patch (patch page (unat (rd_offset (ch_ring_desc h ! ring_index ring))) (rm_data rm))
                 (prod_offset ring) (to_le_bytes 4 (rm_prod rm))))"


definition fetch_add_u64 :: "nat \<Rightarrow> u64 \<Rightarrow> bytes \<Rightarrow> bytes" where
  "fetch_add_u64 offset v page = patch page offset (to_le_bytes 8 (le_at 8 page offset + v))"


section \<open>Views\<close>

lemma page_push_views:
  assumes h: "length (ch_ring_desc h) = 4" "ChannelHeader_validate h = Ok ()" and len: "length page = CHANNEL_SIZE"
    and p: "page_push h ring p page n enc = (r, p', page')"
    and t: "try_push p (page_ring h page ring) n enc = (r', q', m')" and d: "length (rm_data m') = unat (rd_size (ch_ring_desc h ! ring_index ring))"
    and c: "rm_cons m' = rm_cons (page_ring h page ring)"
  shows "r = r'" and "p' = q'" and "length page' = CHANNEL_SIZE"
    and "page_ring h page' a = (if a = ring then m' else page_ring h page a)"
proof -
  let ?o = "unat (rd_offset (ch_ring_desc h ! ring_index ring))"
  have eq: "r = r'" "p' = q'" "page' = patch (patch page ?o (rm_data m')) (prod_offset ring) (to_le_bytes 4 (rm_prod m'))"
    using p t by (simp_all add: page_push_def)
  then show "r = r'" "p' = q'" by simp_all
  have "ring_placed (ch_ring_desc h ! ring_index ring)" by (rule header_ring_placed(1) [OF h])
  then have l1: "length (patch page ?o (rm_data m')) = CHANNEL_SIZE" using d len by (simp add: ring_placed_def)
  then show "length page' = CHANNEL_SIZE" using cell_offsets(1) [of ring] by (simp add: eq(3))
  note v = page_ring_data [OF h len refl, of 0 "rm_data m'" ring, unfolded add_0_right add_0_left, OF d [THEN eq_imp_le]]
  have "rm_data (page_ring h (patch page ?o (rm_data m')) ring) = rm_data m'"
    using v(1) page_ring_size [OF h len, of ring] d by (simp add: patch_whole)
  then show "page_ring h page' a = (if a = ring then m' else page_ring h page a)"
    using v(1) v(2) [of a] c unfolding eq(3) page_ring_cells(1) [OF h l1] by (cases m') (auto simp: patch_whole)
qed

text \<open>A push writes neither the header fields nor the manifest area.\<close>

lemma page_push_outside:
  assumes h: "length (ch_ring_desc h) = 4" "ChannelHeader_validate h = Ok ()" and len: "length page = CHANNEL_SIZE"
    and p: "page_push h ring p page n enc = (r, p', page')"
    and t: "try_push p (page_ring h page ring) n enc = (r', q', m')" and d: "length (rm_data m') = unat (rd_size (ch_ring_desc h ! ring_index ring))"
  shows "take 0x100 page' = take 0x100 page" and "take 0x7000 (drop 0x1000 page') = take 0x7000 (drop 0x1000 page)"
proof -
  let ?o = "unat (rd_offset (ch_ring_desc h ! ring_index ring))"
  have eq: "page' = patch (patch page ?o (rm_data m')) (prod_offset ring) (to_le_bytes 4 (rm_prod m'))"
    using p t by (simp add: page_push_def)
  have pl: "0x8000 \<le> ?o" "?o + length (rm_data m') \<le> length page"
    using header_ring_placed(1) [OF h, of ring] d len by (simp_all add: ring_placed_def)
  then have l1: "length (patch page ?o (rm_data m')) = length page" by simp
  have c: "0x100 \<le> prod_offset ring" "prod_offset ring + 4 \<le> 0x1000" "prod_offset ring + 4 \<le> length page"
    using cell_offsets(1,3) [of ring] len by simp_all
  show "take 0x100 page' = take 0x100 page"
    unfolding eq using c pl l1 by (simp add: take_patch_before)
  show "take 0x7000 (drop 0x1000 page') = take 0x7000 (drop 0x1000 page)"
    unfolding eq using c pl l1 by (simp add: take_drop_patch_after take_drop_patch_before)
qed

lemma page_push_refused:
  assumes h: "length (ch_ring_desc h) = 4" "ChannelHeader_validate h = Ok ()" and len: "length page = CHANNEL_SIZE"
    and t: "try_push p (page_ring h page ring) n enc = (r, p', page_ring h page ring)"
  shows "page_push h ring p page n enc = (r, p', page)"
proof -
  let ?d = "ch_ring_desc h ! ring_index ring"
  have "ring_placed ?d" by (rule header_ring_placed(1) [OF h])
  then have "patch page (unat (rd_offset ?d)) (rm_data (page_ring h page ring)) = page"
    using len by (simp add: page_ring_def Let_def patch_self ring_placed_def)
  then show ?thesis
    using t len cell_offsets(1) [of ring] by (simp add: page_push_def page_ring_def Let_def to_le_bytes_le_at patch_self)
qed


text \<open>The drop counters lie below every index cell.\<close>

lemma page_ring_low:
  assumes h: "length (ch_ring_desc h) = 4" "ChannelHeader_validate h = Ok ()" and len: "length page = CHANNEL_SIZE"
    and i: "i + length src \<le> 0x100"
  shows "page_ring h (patch page i src) a = page_ring h page a"
proof -
  let ?d = "ch_ring_desc h ! ring_index a"
  have b: "i + length src \<le> length page" "i + length src \<le> prod_offset a" "i + length src \<le> cons_offset a"
    using i len cell_offsets(3,4) [of a] by simp_all
  then have "i + length src \<le> unat (rd_offset ?d)"
    using cells_below [OF header_ring_placed(1) [OF h], of a a] by linarith
  then have "take n (drop (unat (rd_offset ?d)) (patch page i src)) = take n (drop (unat (rd_offset ?d)) page)" for n
    using b(1) by (intro take_drop_patch_after) auto
  then show ?thesis using b by (simp add: page_ring_def Let_def le_at_patch_after)
qed

lemma length_fetch_add: "off + 8 \<le> length page \<Longrightarrow> length (fetch_add_u64 off v page) = length page"
  by (simp add: fetch_add_u64_def)

lemma fetch_add_read:
  assumes "off + 8 \<le> length page"
  shows "le_at 8 (fetch_add_u64 off v page) off = (le_at 8 page off + v :: u64)"
    and "off + 8 \<le> off' \<or> off' + 8 \<le> off \<Longrightarrow> le_at 8 (fetch_add_u64 off v page) off' = (le_at 8 page off' :: u64)"
  using assms by (auto simp: fetch_add_u64_def le_at_patch_same le_at_patch_before le_at_patch_after)


lemma payload_item: "list_all is_pad_record ps \<Longrightarrow> event_item_ok x \<Longrightarrow>
    payload_records (recs @ ps @ [item_image seq x]) = payload_records recs @ [item_image seq x]"
  using event_queue.pads_only event_queue.image_not_pad by simp


text \<open>A successful pop consumes at least eight of the published bytes, so the polling loop ends.\<close>

lemma pop_into_decreases:
  assumes "pop_into c rm scratch = (Ok (Some len), rm', scratch')"
  shows "unat (used (rm_prod rm') (rm_cons rm')) < unat (used (rm_prod rm) (rm_cons rm))"
    and "len \<le> length scratch'"
proof -
  let ?a = "rm_prod rm - rm_cons rm"
  have rm': "rm' = rm\<lparr>rm_cons := rm_cons rm + of_nat len\<rparr>" "8 \<le> len" "len \<le> 4096" "of_nat len \<le> ?a" "len \<le> length scratch'"
    using assms
    by (auto simp: pop_into_def pop_loaded_def publish_def used_def Let_def copy_out_def slice_def
        split: if_splits res.splits)
  then have "unat (of_nat len :: u32) = len" by (simp add: unat_of_nat)
  moreover from this have "unat (?a - of_nat len) = unat ?a - len" "len \<le> unat ?a"
    using rm'(4) by (simp_all add: unat_sub_if_size word_le_nat_alt)
  ultimately show "unat (used (rm_prod rm') (rm_cons rm')) < unat (used (rm_prod rm) (rm_cons rm))"
    using rm'(1,2) by (simp add: used_def diff_diff_eq)
  show "len \<le> length scratch'" by (rule rm'(5))
qed

section \<open>Pushing events\<close>

text \<open>A producer half that fits its ring, and the records queued there, all decodable.\<close>

definition page_queue :: "channel_header \<Rightarrow> ring_id \<Rightarrow> producer \<Rightarrow> bytes \<Rightarrow> bytes list \<Rightarrow> bool" where
  "page_queue h ring p page recs \<longleftrightarrow> length page = CHANNEL_SIZE \<and> length (ch_ring_desc h) = 4 \<and> ChannelHeader_validate h = Ok ()
     \<and> pr_size p = rd_size (ch_ring_desc h ! ring_index ring)
     \<and> ring_rep (pr_size p) (page_ring h page ring) recs \<and> list_all decodable recs"

lemma page_queue_seq [simp]: "page_queue h ring (p\<lparr>pr_next_seq := q\<rparr>) = page_queue h ring p"
  by (simp add: page_queue_def [abs_def])

text \<open>Where a push may write: the ring's data and its producer cell.\<close>

definition push_frame :: "channel_header \<Rightarrow> ring_id \<Rightarrow> bytes \<Rightarrow> bytes \<Rightarrow> bool" where
  "push_frame h ring page page' \<longleftrightarrow> length page' = length page
     \<and> (\<forall>a. a \<noteq> ring \<longrightarrow> page_ring h page' a = page_ring h page a)
     \<and> take 0x100 page' = take 0x100 page \<and> take 0x7000 (drop 0x1000 page') = take 0x7000 (drop 0x1000 page)"

lemma push_frame_refl: "push_frame h ring page page"
  by (simp add: push_frame_def)

lemma push_frame_trans: "push_frame h ring p q \<Longrightarrow> push_frame h ring q r \<Longrightarrow> push_frame h ring p r"
  by (simp add: push_frame_def)

lemma page_push_cases:
  assumes q: "page_queue h ring p page recs" and x: "event_item_ok (vn, extra, ev)"
  shows "if unat (pr_size p) < ring_total recs
            + pad_len (unat (pr_size p)) (ring_pos (page_ring h page ring) recs) (encoded_event_len ev) + encoded_event_len ev
     then page_push h ring p page (encoded_event_len ev) (\<lambda>buf seq. encode_event buf seq vn extra ev) = (Err RingFull, p, page)
     else \<exists>seq page' ps.
        page_push h ring p page (encoded_event_len ev) (\<lambda>buf seq. encode_event buf seq vn extra ev)
          = (Ok seq, p\<lparr>pr_next_seq := seq + 1\<rparr>, page')
        \<and> page_queue h ring p page' (recs @ ps @ [item_image seq (vn, extra, ev)]) \<and> list_all is_pad_record ps
        \<and> seqs_from (pr_next_seq p) (ps @ [item_image seq (vn, extra, ev)]) \<and> push_frame h ring page page'"
proof -
  let ?m = "page_ring h page ring" and ?x = "(vn, extra, ev)" and ?len = "encoded_event_len ev"
  let ?d = "\<lparr>dx_prod = p, dx_cons = \<lparr>co_size = pr_size p\<rparr>, dx_mem = ?m\<rparr>"
  let ?enc = "\<lambda>buf seq. encode_event buf seq vn extra ev"
  have h: "length (ch_ring_desc h) = 4" "ChannelHeader_validate h = Ok ()" "length page = CHANNEL_SIZE"
    and sz: "pr_size p = rd_size (ch_ring_desc h ! ring_index ring)" using q by (simp_all add: page_queue_def)
  have d: "duplex_rep ?d recs" using q by (auto simp: duplex_rep_def page_queue_def)
  have il: "item_len ?x = ?len" by (simp add: item_len_def)
  obtain r p' m' where t: "try_push p ?m ?len ?enc = (r, p', m')" by (rule prod_cases3)
  then have pe: "push_event ?d ?x = (r, ?d\<lparr>dx_prod := p', dx_mem := m'\<rparr>)"
    by (simp add: push_event_def ring_put_def)
  have c: "rm_cons m' = rm_cons ?m" using t by (auto simp: try_push_def split: prod.splits)
  note cases = push_event_cases [OF d x refl refl refl refl, unfolded il pe duplex.simps]
  show ?thesis
  proof (cases "unat (pr_size p) < ring_total recs + pad_len (unat (pr_size p)) (ring_pos ?m recs) ?len + ?len")
    case True
    then have "r = Err RingFull" "p' = p" "m' = ?m" using cases by auto
    then show ?thesis using True page_push_refused [OF h] t by simp
  next
    case False
    define seq where "seq = record_seq (unat (pr_size p)) (ring_pos ?m recs) ?len (pr_next_seq p)"
    have r: "r = Ok seq" using cases False by (auto simp: seq_def)
    obtain ps where ps: "duplex_rep (?d\<lparr>dx_prod := p', dx_mem := m'\<rparr>) (recs @ ps @ [item_image seq ?x])"
        "list_all is_pad_record ps" "seqs_from (pr_next_seq p) (ps @ [item_image seq ?x])" "pr_next_seq p' = seq + 1"
      using event_queue.put_Ok [OF d x, of seq] pe r by auto
    then have rep: "ring_rep (pr_size p) m' (recs @ ps @ [item_image seq ?x])" and "pr_size p' = pr_size p"
      by (simp_all add: duplex_rep_def)
    then have p': "p' = p\<lparr>pr_next_seq := seq + 1\<rparr>" using ps(4) by (cases p'; cases p) simp
    have dl: "length (rm_data m') = unat (rd_size (ch_ring_desc h ! ring_index ring))"
      using rep sz by (simp add: ring_rep_def)
    obtain r2 p2 page' where pp: "page_push h ring p page ?len ?enc = (r2, p2, page')" by (rule prod_cases3)
    note v = page_push_views [OF h pp t dl c]
    have "list_all decodable (recs @ ps @ [item_image seq ?x])"
      using q ps(2) rep decodable_item [OF x] decodable_pad by (auto simp: page_queue_def ring_rep_def list_all_iff)
    then have "page_queue h ring p page' (recs @ ps @ [item_image seq ?x])"
      using q v(3) rep v(4) [of ring] by (simp add: page_queue_def)
    moreover have "push_frame h ring page page'"
      using v(3,4) h(3) page_push_outside [OF h pp t dl] by (simp add: push_frame_def)
    ultimately show ?thesis using pp v(1,2) r p' False ps(2,3) by auto
  qed
qed

text \<open>An empty ring always has room.\<close>

lemma empty_fits:
  assumes "ring_rep sz rm []" and "event_item_ok (vn, extra, ev)"
  shows "\<not> unat sz < ring_total [] + pad_len (unat sz) P (encoded_event_len ev) + encoded_event_len ev"
proof -
  have "4096 \<le> unat sz" using assms(1) ring_size_facts(1) by (auto simp: ring_rep_def)
  moreover have "encoded_event_len ev \<le> 1064" using encoded_event_len_bounds assms(2) by (simp add: event_item_ok_def)
  ultimately show ?thesis by (auto simp: pad_len_def)
qed

section \<open>Draining a ring\<close>

text \<open>A reader that pops everything queued, used by the hosts of the examples.\<close>

primrec pop_all :: "nat \<Rightarrow> consumer \<Rightarrow> ring_mem \<Rightarrow> bytes list \<times> ring_mem" where
  "pop_all 0 c rm = ([], rm)"
| "pop_all (Suc n) c rm =
     (case pop_into c rm (replicate MAX_RECORD_LEN 0) of
        (Ok (Some k), rm, scratch) \<Rightarrow> (case pop_all n c rm of (rs, rm) \<Rightarrow> (take k scratch # rs, rm))
      | _ \<Rightarrow> ([], rm))"

lemma pop_all_rep:
  "ring_rep (co_size c) rm recs \<Longrightarrow> length recs \<le> n \<Longrightarrow>
     \<exists>v. pop_all n c rm = (recs, rm\<lparr>rm_cons := v\<rparr>) \<and> ring_rep (co_size c) (rm\<lparr>rm_cons := v\<rparr>) []"
proof (induction n arbitrary: rm recs)
  case 0
  then show ?case by (intro exI [of _ "rm_cons rm"]) simp
next
  case (Suc n)
  note pop = pop_into_rep [OF Suc.prems(1), of "replicate MAX_RECORD_LEN 0"]
  show ?case
  proof (cases recs)
    case Nil
    then show ?thesis using pop Suc.prems(1) by (intro exI [of _ "rm_cons rm"]) simp
  next
    case (Cons r rs)
    have "8 \<le> length r" "length r \<le> 4096" using Suc.prems(1) Cons good_record_length by (auto simp: ring_rep_def)
    then show ?thesis
      using pop Suc.IH [OF ring_rep_tl [OF Suc.prems(1) [unfolded Cons]]] Suc.prems(2) Cons by (auto simp: take_patch_0)
  qed
qed

lemma length_records: "ring_rep sz rm recs \<Longrightarrow> length recs \<le> unat sz"
proof -
  assume r: "ring_rep sz rm recs"
  then have "list_all good_record recs" "ring_total recs \<le> unat sz" by (auto simp: ring_rep_def)
  moreover have "list_all good_record rs \<Longrightarrow> length rs \<le> ring_total rs" for rs
  proof (induction rs)
    case (Cons a rs)
    then have "8 \<le> length a" using good_record_length [of a] by simp
    then show ?case using Cons by simp
  qed simp
  ultimately show ?thesis by fastforce
qed

end
