(* ===== verification/Sdk_Channel.thy ===== *)
theory Sdk_Channel
  imports Sdk_Stats Page_Ring Utf8_Lossy
begin

text \<open>
  The workload's end of the channel: \<^verbatim>\<open>crates/detguest-sdk/src/channel.rs\<close> and \<^verbatim>\<open>pio.rs\<close>.

  A \<open>machine\<close> is what the workload shares with the outside: the mapped channel page, the process-wide
  event clock and agent connection, and the world behind the ports, the pv-pad device and the kernel. The record \<open>sdk_env\<close>
  holds what lies outside the sources: a port write or read exits to the hypervisor, which may use the
  page before it answers; a spin of a waiting loop lets the hypervisor act in the same way. The ring
  halves access the page through raw pointers; \<open>page_push\<close> and \<open>page_pop\<close> are those accesses on the
  page's bytes. The retry loop of a critical event may not end and is a partial function.
\<close>

section \<open>Errors and environment\<close>

datatype io_error = IoInvalidData | IoInvalidInput | IoOs

datatype region_error = RegManifestFull | RegTooManyExtents | RegNotPinned | RegNameTooLong | RegAgentUnavailable

datatype init_error =
    NoChannel
  | BadChannelHeader u64
  | ProtocolVersionMismatch u32 u32
  | PioPermissionDenied
  | AgentSocket io_error
  | StatsRegion region_error

record 'w machine =
  m_page :: bytes
  m_vnanos :: u64
  m_client :: bool
  m_world :: 'w

record 'w sdk_env =
  e_out :: "u16 \<Rightarrow> u32 \<Rightarrow> 'w \<times> bytes \<Rightarrow> (init_error, unit) res \<times> 'w \<times> bytes"
  e_in :: "u16 \<Rightarrow> 'w \<times> bytes \<Rightarrow> (init_error, u32) res \<times> 'w \<times> bytes"
  e_spin :: "'w \<times> bytes \<Rightarrow> 'w \<times> bytes"
  e_mmio_read :: "nat \<Rightarrow> 'w \<Rightarrow> u32"
  e_mmio_write :: "nat \<Rightarrow> u32 \<Rightarrow> 'w \<Rightarrow> 'w"
  e_iopl :: "'w \<Rightarrow> bool"
  e_map_pv_pad :: "'w \<Rightarrow> (init_error, unit) res"
  e_mmap :: "int \<Rightarrow> 'w \<Rightarrow> (init_error, unit) res"
  e_mlock :: "u64 \<Rightarrow> u64 \<Rightarrow> 'w \<Rightarrow> bool"
  e_connect :: "'w \<times> bytes \<Rightarrow> bool \<times> 'w \<times> bytes"
  e_send :: "bytes \<Rightarrow> 'w \<times> bytes \<Rightarrow> int \<times> 'w \<times> bytes"
  e_recv :: "nat \<Rightarrow> 'w \<times> bytes \<Rightarrow> bytes option \<times> 'w \<times> bytes"

definition map_decode_error :: "decode_error \<Rightarrow> init_error" where
  "map_decode_error err = AgentSocket IoInvalidData"

section \<open>Ports and the pv-pad\<close>

definition PV_PAD_SIZE :: nat where [simp]: "PV_PAD_SIZE = 0x1000"
definition PVPAD_PAD0_OFF :: nat where [simp]: "PVPAD_PAD0_OFF = 0x08"
definition PVPAD_FRAME_COUNTER_OFF :: nat where [simp]: "PVPAD_FRAME_COUNTER_OFF = 0x1C"
definition PVPAD_PAD_COUNT :: u8 where [simp]: "PVPAD_PAD_COUNT = 4"

record mapped_mmio =
  mm_len :: nat

record pio_state =
  ps_pv_pad :: "mapped_mmio option"

definition detcall_out :: "'w sdk_env \<Rightarrow> u16 \<Rightarrow> u32 \<Rightarrow> 'w machine \<Rightarrow> (init_error, unit) res \<times> 'w machine" where
  "detcall_out env port v m =
     (case e_out env port v (m_world m, m_page m) of (r, w, page) \<Rightarrow> (r, m\<lparr>m_world := w, m_page := page\<rparr>))"

definition detcall_in :: "'w sdk_env \<Rightarrow> u16 \<Rightarrow> 'w machine \<Rightarrow> (init_error, u32) res \<times> 'w machine" where
  "detcall_in env port m =
     (case e_in env port (m_world m, m_page m) of (r, w, page) \<Rightarrow> (r, m\<lparr>m_world := w, m_page := page\<rparr>))"

definition spin_loop :: "'w sdk_env \<Rightarrow> 'w machine \<Rightarrow> 'w machine" where
  "spin_loop env m = (case e_spin env (m_world m, m_page m) of (w, page) \<Rightarrow> m\<lparr>m_world := w, m_page := page\<rparr>)"

definition doorbell_w :: "'w sdk_env \<Rightarrow> 'w machine \<Rightarrow> (init_error, unit) res \<times> 'w machine" where
  "doorbell_w env m = detcall_out env PORT_DOORBELL DOORBELL_RING_W m"

definition MappedMmio_read_u32 :: "'w sdk_env \<Rightarrow> mapped_mmio \<Rightarrow> nat \<Rightarrow> 'w machine \<Rightarrow> u32" where
  "MappedMmio_read_u32 env self offset m =
     (if offset + 4 > mm_len self then 0 else e_mmio_read env offset (m_world m))"

definition MappedMmio_write_u32 :: "'w sdk_env \<Rightarrow> mapped_mmio \<Rightarrow> nat \<Rightarrow> u32 \<Rightarrow> 'w machine \<Rightarrow> 'w machine" where
  "MappedMmio_write_u32 env self offset v m =
     (if offset + 4 > mm_len self then m else m\<lparr>m_world := e_mmio_write env offset v (m_world m)\<rparr>)"

definition PioState_poll_input :: "'w sdk_env \<Rightarrow> pio_state \<Rightarrow> u8 \<Rightarrow> 'w machine \<Rightarrow> u32" where
  "PioState_poll_input env self port m =
     (if port \<ge> PVPAD_PAD_COUNT then 0
      else case ps_pv_pad self of
             None \<Rightarrow> 0
           | Some pv_pad \<Rightarrow> MappedMmio_read_u32 env pv_pad (PVPAD_PAD0_OFF + unat port * 4) m)"

definition write_frame_counter :: "'w sdk_env \<Rightarrow> pio_state \<Rightarrow> u32 \<Rightarrow> 'w machine \<Rightarrow> 'w machine" where
  "write_frame_counter env self frame_index m =
     (case ps_pv_pad self of
        None \<Rightarrow> m
      | Some pv_pad \<Rightarrow> MappedMmio_write_u32 env pv_pad PVPAD_FRAME_COUNTER_OFF frame_index m)"

definition pio_init :: "'w sdk_env \<Rightarrow> 'w machine \<Rightarrow> (init_error, pio_state) res" where
  "pio_init env m =
     bind_res (if e_iopl env (m_world m) then Ok () else Err PioPermissionDenied) (\<lambda>_.
     bind_res (e_map_pv_pad env (m_world m)) (\<lambda>_.
     Ok \<lparr>ps_pv_pad = Some \<lparr>mm_len = PV_PAD_SIZE\<rparr>\<rparr>))"

section \<open>The channel fd\<close>

text \<open>\<open>str::parse::<i32>\<close>: an optional sign, at least one decimal digit, and a value in range.\<close>

fun parse_digits :: "nat \<Rightarrow> bytes \<Rightarrow> nat option" where
  "parse_digits acc [] = Some acc"
| "parse_digits acc (c # cs) =
     (if 0x30 \<le> c \<and> c \<le> 0x39 then parse_digits (acc * 10 + unat (c - 0x30)) cs else None)"

definition parse_i32 :: "bytes \<Rightarrow> int option" where
  "parse_i32 s =
     (case s of
        [] \<Rightarrow> None
      | c # cs \<Rightarrow>
          (let neg = (c = 0x2D); ds = (if c = 0x2D \<or> c = 0x2B then cs else s)
           in if ds = [] then None
              else case parse_digits 0 ds of
                     None \<Rightarrow> None
                   | Some n \<Rightarrow>
                       (let v = (if neg then - int n else int n)
                        in if - (2 ^ 31) \<le> v \<and> v < 2 ^ 31 then Some v else None)))"

definition parse_channel_fd :: "bytes \<Rightarrow> (io_error, int) res" where
  "parse_channel_fd raw =
     (if \<not> utf8_valid raw then Err IoInvalidData else ok_or (parse_i32 raw) IoInvalidInput)"

definition standalone_panic_enabled :: "bytes option \<Rightarrow> bool" where
  "standalone_panic_enabled v \<longleftrightarrow> v = Some [0x31]"

section \<open>The mapped channel\<close>

record mapped_channel =
  mc_header :: channel_header
  mc_ring_w :: producer
  mc_ring_i :: consumer

definition read_and_validate_header :: "bytes \<Rightarrow> (init_error, channel_header) res" where
  "read_and_validate_header page =
     bind_res (map_err map_decode_error (ChannelHeader_read_from page)) (\<lambda>header.
     if ch_magic header \<noteq> CHANNEL_MAGIC then Err (BadChannelHeader (ch_magic header))
     else if ch_proto_version header \<noteq> PROTO_VERSION
     then Err (ProtocolVersionMismatch PROTO_VERSION (ch_proto_version header))
     else bind_res (map_err map_decode_error (ChannelHeader_validate header)) (\<lambda>_. Ok header))"

definition MappedChannel_map :: "bytes \<Rightarrow> (init_error, mapped_channel) res" where
  "MappedChannel_map page =
     bind_res (read_and_validate_header page) (\<lambda>header.
     bind_res (index (ch_ring_desc header) (ring_index RingW)) (\<lambda>ring_w.
     bind_res (index (ch_ring_desc header) (ring_index RingI)) (\<lambda>ring_i.
     bind_res (Producer_from_raw (rd_size ring_w) 0) (\<lambda>producer_w.
     bind_res (Consumer_from_raw (rd_size ring_i)) (\<lambda>consumer_i.
     Ok \<lparr>mc_header = header, mc_ring_w = producer_w, mc_ring_i = consumer_i\<rparr>)))))"

definition set_workload_attached :: "bytes \<Rightarrow> bytes" where
  "set_workload_attached page =
     patch page OFF_HEADER_FLAGS (to_le_bytes 4 (le_at 4 page OFF_HEADER_FLAGS OR FLAG_WORKLOAD_ATTACHED))"

definition mark_workload_attached :: "'w machine \<Rightarrow> 'w machine" where
  "mark_workload_attached m = m\<lparr>m_page := set_workload_attached (m_page m)\<rparr>"

definition sdk_push_event ::
  "mapped_channel \<Rightarrow> bytes \<Rightarrow> nat \<Rightarrow> u64 \<Rightarrow> u8 \<Rightarrow> event_payload \<Rightarrow> (ring_full, unit) res \<times> mapped_channel \<times> bytes" where
  "sdk_push_event self page len vnanos extra_flags ev =
     (case page_push (mc_header self) RingW (mc_ring_w self) page len
             (\<lambda>buf seq. encode_event buf seq vnanos extra_flags ev) of
        (r, p, page) \<Rightarrow> (bind_res r (\<lambda>_. Ok ()), self\<lparr>mc_ring_w := p\<rparr>, page))"

section \<open>Emitting events\<close>

datatype event_class = Critical | Droppable

definition event_kind_of :: "event_payload \<Rightarrow> event_kind" where
  "event_kind_of ev =
     (case ev of
        Ev_Pad \<Rightarrow> EK_Pad
      | Ev_Hello _ _ _ \<Rightarrow> EK_Hello
      | Ev_NameIntern _ _ \<Rightarrow> EK_NameIntern
      | Ev_AssertViolation _ _ _ \<Rightarrow> EK_AssertViolation
      | Ev_Reachable _ \<Rightarrow> EK_Reachable
      | Ev_Beacon _ \<Rightarrow> EK_Beacon
      | Ev_InjectQuery _ _ \<Rightarrow> EK_InjectQuery
      | Ev_RegionRegister _ \<Rightarrow> EK_RegionRegister
      | Ev_RegionUpdate _ \<Rightarrow> EK_RegionUpdate
      | Ev_WorkloadStarted _ _ \<Rightarrow> EK_WorkloadStarted
      | Ev_WorkloadExited _ _ _ \<Rightarrow> EK_WorkloadExited
      | Ev_LogLine _ _ _ \<Rightarrow> EK_LogLine
      | Ev_QuiesceReady _ \<Rightarrow> EK_QuiesceReady
      | Ev_FrameMark _ \<Rightarrow> EK_FrameMark
      | Ev_Ready _ _ _ \<Rightarrow> EK_Ready)"

definition drops_bump :: "event_kind \<Rightarrow> nat \<Rightarrow> bytes \<Rightarrow> bytes" where
  "drops_bump kind n page =
     fetch_add_u64 (OFF_RING_W_DROPPED_BY_KIND + unat (EventKind_as_u8 kind) * 8) 1
       (fetch_add_u64 OFF_RING_W_DROPPED_BYTES (of_nat n)
         (fetch_add_u64 OFF_RING_W_DROPPED_RECORDS 1 page))"

type_synonym 'w emitted = "((init_error, unit) res \<times> mapped_channel \<times> 'w machine) option"

partial_function (option) emit_critical ::
  "'w sdk_env \<Rightarrow> nat \<Rightarrow> u64 \<Rightarrow> u8 \<Rightarrow> event_payload \<Rightarrow> mapped_channel \<Rightarrow> 'w machine \<Rightarrow> 'w emitted" where
  "emit_critical env len vnanos extra_flags ev self m =
     (case sdk_push_event self (m_page m) len vnanos extra_flags ev of
        (Ok _, self, page) \<Rightarrow> Some (Ok (), self, m\<lparr>m_page := page\<rparr>)
      | (Panic, self, page) \<Rightarrow> Some (Panic, self, m\<lparr>m_page := page\<rparr>)
      | (Err _, self, page) \<Rightarrow>
          (case doorbell_w env (m\<lparr>m_page := page\<rparr>) of
             (Ok _, m) \<Rightarrow> emit_critical env len vnanos extra_flags ev self m
           | (Err e, m) \<Rightarrow> Some (Err e, self, m)
           | (Panic, m) \<Rightarrow> Some (Panic, self, m)))"

definition RingW_emit ::
  "'w sdk_env \<Rightarrow> u64 \<Rightarrow> u8 \<Rightarrow> event_payload \<Rightarrow> event_class \<Rightarrow> mapped_channel \<Rightarrow> 'w machine \<Rightarrow> 'w emitted" where
  "RingW_emit env vnanos extra_flags ev class self m =
     (let len = encoded_event_len ev
      in if len > MAX_RECORD_LEN then Some (Err (AgentSocket IoInvalidInput), self, m)
         else case class of
                Droppable \<Rightarrow>
                  (case sdk_push_event self (m_page m) len vnanos extra_flags ev of
                     (Ok _, self, page) \<Rightarrow> Some (Ok (), self, m\<lparr>m_page := page\<rparr>)
                   | (Err _, self, page) \<Rightarrow>
                       Some (Ok (), self, m\<lparr>m_page := drops_bump (event_kind_of ev) len page\<rparr>)
                   | (Panic, self, page) \<Rightarrow> Some (Panic, self, m\<lparr>m_page := page\<rparr>))
              | Critical \<Rightarrow> emit_critical env len vnanos extra_flags ev self m)"

definition emit_w_event ::
  "'w sdk_env \<Rightarrow> u64 \<Rightarrow> u8 \<Rightarrow> event_payload \<Rightarrow> event_class \<Rightarrow> mapped_channel \<Rightarrow> 'w machine \<Rightarrow> 'w emitted" where
  "emit_w_event = RingW_emit"

definition emit_w_event_with_doorbell ::
  "'w sdk_env \<Rightarrow> u64 \<Rightarrow> u8 \<Rightarrow> event_payload \<Rightarrow> event_class \<Rightarrow> mapped_channel \<Rightarrow> 'w machine \<Rightarrow> 'w emitted" where
  "emit_w_event_with_doorbell env vnanos extra_flags ev class self m =
     Option.bind (emit_w_event env vnanos extra_flags ev class self m) (\<lambda>(r, self, m).
       case r of
         Ok _ \<Rightarrow> (case doorbell_w env m of (r, m) \<Rightarrow> Some (r, self, m))
       | _ \<Rightarrow> Some (r, self, m))"

section \<open>Control records\<close>

function poll_ring :: "consumer \<Rightarrow> ring_mem \<Rightarrow> bytes \<Rightarrow> (init_error, workload_ctrl option) res \<times> ring_mem" where
  "poll_ring c rm scratch =
     (case pop_into c rm scratch of
        (Ok None, rm, scratch) \<Rightarrow> (Ok None, rm)
      | (Err e, rm, scratch) \<Rightarrow> (Err (map_decode_error e), rm)
      | (Panic, rm, scratch) \<Rightarrow> (Panic, rm)
      | (Ok (Some len), rm', scratch) \<Rightarrow>
          (case (slice scratch 0 len :: (unit, bytes) res) of
             Ok rec \<Rightarrow>
               (case decode_workload_ctrl rec of
                  Ok (_, ctrl) \<Rightarrow> (Ok (Some ctrl), rm')
                | Err (UnknownKind _) \<Rightarrow> poll_ring c rm' scratch
                | Err e \<Rightarrow> (Err (map_decode_error e), rm')
                | Panic \<Rightarrow> (Panic, rm'))
           | _ \<Rightarrow> (Panic, rm')))"
  by pat_completeness auto

termination
  by (relation "measure (\<lambda>(c, rm, scratch). unat (used (rm_prod rm) (rm_cons rm)))") (auto dest: sym [THEN pop_into_decreases(1)])

declare poll_ring.simps [simp del]

definition poll_workload_ctrl :: "mapped_channel \<Rightarrow> 'w machine \<Rightarrow> (init_error, workload_ctrl option) res \<times> 'w machine" where
  "poll_workload_ctrl self m =
     (case poll_ring (mc_ring_i self) (page_ring (mc_header self) (m_page m) RingI) (replicate MAX_RECORD_LEN 0) of
        (r, rm) \<Rightarrow> (r, m\<lparr>m_page := patch (m_page m) (cons_offset RingI) (to_le_bytes 4 (rm_cons rm))\<rparr>))"

section \<open>Rings in the workload's page\<close>

text \<open>The page holds a valid channel, and the workload's halves fit it.\<close>

definition mapped :: "mapped_channel \<Rightarrow> bytes \<Rightarrow> bool" where
  "mapped self page \<longleftrightarrow> length page = CHANNEL_SIZE
     \<and> length (ch_ring_desc (mc_header self)) = 4 \<and> ChannelHeader_validate (mc_header self) = Ok ()
     \<and> pr_size (mc_ring_w self) = rd_size (ch_ring_desc (mc_header self) ! ring_index RingW)
     \<and> co_size (mc_ring_i self) = rd_size (ch_ring_desc (mc_header self) ! ring_index RingI)"

definition ring_w :: "mapped_channel \<Rightarrow> bytes \<Rightarrow> bytes list \<Rightarrow> bool" where
  "ring_w self page recs \<longleftrightarrow> ring_rep (pr_size (mc_ring_w self)) (page_ring (mc_header self) page RingW) recs
     \<and> list_all decodable recs"

definition ring_a :: "mapped_channel \<Rightarrow> bytes \<Rightarrow> ring_mem" where
  "ring_a self page = page_ring (mc_header self) page RingA"

text \<open>A push by the workload is a push on the queue of ring W; the other rings do not change.\<close>

lemma sdk_push_cases:
  assumes m: "mapped self page" and w: "ring_w self page recs" and x: "event_item_ok (vn, extra, ev)"
    and len: "len = encoded_event_len ev"
  shows "if unat (pr_size (mc_ring_w self))
          < ring_total recs + pad_len (unat (pr_size (mc_ring_w self))) (ring_pos (page_ring (mc_header self) page RingW) recs) len + len
     then sdk_push_event self page len vn extra ev = (Err RingFull, self, page)
     else \<exists>seq page' ps. sdk_push_event self page len vn extra ev
          = (Ok (), self\<lparr>mc_ring_w := (mc_ring_w self)\<lparr>pr_next_seq := seq + 1\<rparr>\<rparr>, page')
        \<and> mapped self page' \<and> ring_w self page' (recs @ ps @ [item_image seq (vn, extra, ev)])
        \<and> list_all is_pad_record ps \<and> seqs_from (pr_next_seq (mc_ring_w self)) (ps @ [item_image seq (vn, extra, ev)])
        \<and> (\<forall>a. a \<noteq> RingW \<longrightarrow> page_ring (mc_header self) page' a = page_ring (mc_header self) page a)"
proof -
  have q: "page_queue (mc_header self) RingW (mc_ring_w self) page recs"
    using m w by (simp add: mapped_def ring_w_def page_queue_def)
  have of_queue: "page_queue (mc_header self) RingW (mc_ring_w self) page' rs \<Longrightarrow> mapped self page' \<and> ring_w self page' rs" for page' rs
    using m by (auto simp: mapped_def ring_w_def page_queue_def)
  have eq: "page_push (mc_header self) RingW (mc_ring_w self) page len (\<lambda>buf seq. encode_event buf seq vn extra ev) = (r, p, page')
      \<Longrightarrow> sdk_push_event self page len vn extra ev = (bind_res r (\<lambda>_. Ok ()), self\<lparr>mc_ring_w := p\<rparr>, page')" for r p page'
    by (simp add: sdk_push_event_def)
  note c = page_push_cases [OF q x, folded len]
  show ?thesis
  proof (cases "unat (pr_size (mc_ring_w self)) < ring_total recs
      + pad_len (unat (pr_size (mc_ring_w self))) (ring_pos (page_ring (mc_header self) page RingW) recs) len + len")
    case True
    then show ?thesis using c eq by fastforce
  next
    case False
    then show ?thesis using c eq of_queue unfolding push_frame_def by fastforce
  qed
qed

text \<open>The drop counters lie below every index cell.\<close>

definition kind_slot :: "event_kind \<Rightarrow> nat" where
  "kind_slot k = OFF_RING_W_DROPPED_BY_KIND + unat (EventKind_as_u8 k) * 8"

lemma kind_slot_bounds: "OFF_RING_W_DROPPED_BY_KIND \<le> kind_slot k" "kind_slot k + 8 \<le> 0xE0"
  by (cases k; simp add: kind_slot_def EventKind_as_u8_def)+

lemma kind_slot_disjoint: "k \<noteq> l \<Longrightarrow> kind_slot k + 8 \<le> kind_slot l \<or> kind_slot l + 8 \<le> kind_slot k"
proof -
  assume "k \<noteq> l"
  then have "EventKind_as_u8 k \<noteq> EventKind_as_u8 l" by (metis EventKind_round_trip option.inject)
  then have "unat (EventKind_as_u8 k) \<noteq> unat (EventKind_as_u8 l)" by (simp add: word_unat_eq_iff)
  then show ?thesis by (auto simp: kind_slot_def)
qed

lemma drops_bump_eq:
  "drops_bump k n page = fetch_add_u64 (kind_slot k) 1
     (fetch_add_u64 OFF_RING_W_DROPPED_BYTES (of_nat n) (fetch_add_u64 OFF_RING_W_DROPPED_RECORDS 1 page))"
  by (simp only: drops_bump_def kind_slot_def)

lemma drops_bump_reads:
  assumes "length page = CHANNEL_SIZE"
  shows "length (drops_bump k n page) = CHANNEL_SIZE"
    and "le_at 8 (drops_bump k n page) OFF_RING_W_DROPPED_RECORDS = (le_at 8 page OFF_RING_W_DROPPED_RECORDS + 1 :: u64)"
    and "le_at 8 (drops_bump k n page) OFF_RING_W_DROPPED_BYTES = (le_at 8 page OFF_RING_W_DROPPED_BYTES + of_nat n :: u64)"
    and "le_at 8 (drops_bump k n page) (kind_slot l) = (le_at 8 page (kind_slot l) + (if l = k then 1 else 0) :: u64)"
  using assms kind_slot_bounds [of k] kind_slot_bounds [of l] kind_slot_disjoint [of l k]
  by (auto simp: drops_bump_eq length_fetch_add fetch_add_read)

lemma drops_bump_rings:
  assumes "length (ch_ring_desc h) = 4" "ChannelHeader_validate h = Ok ()" "length page = CHANNEL_SIZE"
  shows "page_ring h (drops_bump k n page) a = page_ring h page a"
  using assms kind_slot_bounds [of k]
  by (simp add: drops_bump_eq fetch_add_u64_def page_ring_low)

section \<open>Properties\<close>

text \<open>
  A droppable event is published or accounted: emitting it never blocks and never rings the
  doorbell. Either ring W gains exactly that event, or it is full, no ring changes, and the record,
  byte and per-kind drop counters grow by one, by the record's length and by one.
\<close>

theorem emit_droppable_accounts:
  assumes "mapped self (m_page m)" and "ring_w self (m_page m) recs" and "event_item_ok (vn, extra, ev)"
  shows "\<exists>self' m'. emit_w_event env vn extra ev Droppable self m = Some (Ok (), self', m')
     \<and> m_world m' = m_world m \<and> mapped self' (m_page m')
     \<and> ((\<exists>seq ps. ring_w self' (m_page m') (recs @ ps @ [item_image seq (vn, extra, ev)]) \<and> list_all is_pad_record ps)
        \<or> (self' = self \<and> (\<forall>a. page_ring (mc_header self) (m_page m') a = page_ring (mc_header self) (m_page m) a)
           \<and> le_at 8 (m_page m') OFF_RING_W_DROPPED_RECORDS = (le_at 8 (m_page m) OFF_RING_W_DROPPED_RECORDS + 1 :: u64)
           \<and> le_at 8 (m_page m') OFF_RING_W_DROPPED_BYTES
             = (le_at 8 (m_page m) OFF_RING_W_DROPPED_BYTES + of_nat (encoded_event_len ev) :: u64)
           \<and> (\<forall>k. le_at 8 (m_page m') (kind_slot k)
             = (le_at 8 (m_page m) (kind_slot k) + (if k = event_kind_of ev then 1 else 0) :: u64))))"
proof -
  have len: "\<not> encoded_event_len ev > MAX_RECORD_LEN"
    using event_ring.rlen_bounds [of "(vn, extra, ev)"] assms(3) by (simp add: event_item_ok_def)
  have m: "length (m_page m) = CHANNEL_SIZE" "length (ch_ring_desc (mc_header self)) = 4"
    "ChannelHeader_validate (mc_header self) = Ok ()" using assms(1) by (simp_all add: mapped_def)
  note c = sdk_push_cases [OF assms refl]
  show ?thesis
  proof (cases "sdk_push_event self (m_page m) (encoded_event_len ev) vn extra ev = (Err RingFull, self, m_page m)")
    case True
    let ?m = "m\<lparr>m_page := drops_bump (event_kind_of ev) (encoded_event_len ev) (m_page m)\<rparr>"
    have "emit_w_event env vn extra ev Droppable self m = Some (Ok (), self, ?m)"
      using True len by (simp add: emit_w_event_def RingW_emit_def Let_def)
    moreover have "mapped self (m_page ?m)" using assms(1) drops_bump_reads(1) [OF m(1)] by (simp add: mapped_def)
    ultimately show ?thesis
      using drops_bump_reads(2-4) [OF m(1)] drops_bump_rings [OF m(2,3,1)]
      by (intro exI [of _ self] exI [of _ ?m]) simp
  next
    case False
    then obtain seq page' ps where p: "sdk_push_event self (m_page m) (encoded_event_len ev) vn extra ev
          = (Ok (), self\<lparr>mc_ring_w := (mc_ring_w self)\<lparr>pr_next_seq := seq + 1\<rparr>\<rparr>, page')"
        "mapped self page'" "ring_w self page' (recs @ ps @ [item_image seq (vn, extra, ev)])" "list_all is_pad_record ps"
      using c by (auto split: if_splits)
    then show ?thesis using len
      by (intro exI [of _ "self\<lparr>mc_ring_w := (mc_ring_w self)\<lparr>pr_next_seq := seq + 1\<rparr>\<rparr>"] exI [of _ "m\<lparr>m_page := page'\<rparr>"])
         (auto simp: emit_w_event_def RingW_emit_def Let_def mapped_def ring_w_def)
  qed
qed

text \<open>
  A host that serves port writes: it takes some of the records queued on ring W, in order, and after
  finitely many writes it has taken them all. \<open>winv\<close> is what it keeps true of itself and of ring A,
  which the workload never touches, \<open>patience\<close> bounds
  the writes it may still leave records behind, and \<open>log\<close> lists the records it has taken, pads aside.
\<close>

definition host_serves ::
  "'w sdk_env \<Rightarrow> mapped_channel \<Rightarrow> ('w \<Rightarrow> ring_mem \<Rightarrow> bool) \<Rightarrow> ('w \<Rightarrow> nat) \<Rightarrow> ('w \<Rightarrow> bytes list) \<Rightarrow> bool" where
  "host_serves env self winv patience log \<longleftrightarrow>
     (\<forall>w page recs. winv w (ring_a self page) \<and> mapped self page \<and> ring_w self page recs \<longrightarrow>
        (\<exists>w' page' got recs'. e_out env PORT_DOORBELL DOORBELL_RING_W (w, page) = (Ok (), w', page')
           \<and> winv w' (ring_a self page') \<and> mapped self page' \<and> recs = got @ recs' \<and> ring_w self page' recs'
           \<and> log w' = log w @ payload_records got \<and> (recs' = [] \<or> patience w' < patience w)))"

text \<open>All that was ever published on ring W: what the host has taken, then what is still queued.\<close>

definition published :: "mapped_channel \<Rightarrow> ('w \<Rightarrow> bytes list) \<Rightarrow> 'w machine \<Rightarrow> bytes list \<Rightarrow> bool" where
  "published self log m strm \<longleftrightarrow> mapped self (m_page m)
     \<and> (\<exists>recs. ring_w self (m_page m) recs \<and> strm = log (m_world m) @ payload_records recs)"

lemma mapped_seq [simp]:
  "mapped (self\<lparr>mc_ring_w := (mc_ring_w self)\<lparr>pr_next_seq := q\<rparr>\<rparr>) = mapped self"
  "ring_w (self\<lparr>mc_ring_w := (mc_ring_w self)\<lparr>pr_next_seq := q\<rparr>\<rparr>) = ring_w self"
  "published (self\<lparr>mc_ring_w := (mc_ring_w self)\<lparr>pr_next_seq := q\<rparr>\<rparr>) = published self"
  "host_serves env (self\<lparr>mc_ring_w := (mc_ring_w self)\<lparr>pr_next_seq := q\<rparr>\<rparr>) = host_serves env self"
  "ring_a (self\<lparr>mc_ring_w := (mc_ring_w self)\<lparr>pr_next_seq := q\<rparr>\<rparr>) = ring_a self"
  by (simp_all add: mapped_def [abs_def] ring_w_def [abs_def] published_def [abs_def] ring_a_def [abs_def] host_serves_def [abs_def])

lemma emit_critical_ends:
  assumes "host_serves env self winv patience log" and x: "event_item_ok (vn, extra, ev)"
  shows "winv (m_world m) (ring_a self (m_page m)) \<Longrightarrow> published self log m strm \<Longrightarrow>
     \<exists>m' seq. emit_critical env (encoded_event_len ev) vn extra ev self m
         = Some (Ok (), self\<lparr>mc_ring_w := (mc_ring_w self)\<lparr>pr_next_seq := seq + 1\<rparr>\<rparr>, m')
       \<and> winv (m_world m') (ring_a self (m_page m')) \<and> m_vnanos m' = m_vnanos m \<and> m_client m' = m_client m
       \<and> published self log m' (strm @ [item_image seq (vn, extra, ev)])"
proof -
  assume "winv (m_world m) (ring_a self (m_page m))" and "published self log m strm"
  then obtain recs where "winv (m_world m) (ring_a self (m_page m))" "mapped self (m_page m)" "ring_w self (m_page m) recs"
      "strm = log (m_world m) @ payload_records recs" by (auto simp: published_def)
  then show ?thesis
  proof (induction "if recs = [] then 0 else Suc (patience (m_world m))" arbitrary: m recs rule: less_induct)
    case less
    note c = sdk_push_cases [OF less.prems(2,3) x refl]
    show ?case
    proof (cases "sdk_push_event self (m_page m) (encoded_event_len ev) vn extra ev = (Err RingFull, self, m_page m)")
      case False
      then obtain seq page' ps where p: "sdk_push_event self (m_page m) (encoded_event_len ev) vn extra ev
            = (Ok (), self\<lparr>mc_ring_w := (mc_ring_w self)\<lparr>pr_next_seq := seq + 1\<rparr>\<rparr>, page')"
          "mapped self page'" "ring_w self page' (recs @ ps @ [item_image seq (vn, extra, ev)])" "list_all is_pad_record ps"
          "ring_a self page' = ring_a self (m_page m)"
        using c by (auto simp: ring_a_def split: if_splits)
      have "published self log (m\<lparr>m_page := page'\<rparr>) (strm @ [item_image seq (vn, extra, ev)])"
        using p(2,3) payload_item [OF p(4) x] less.prems(4)
        by (auto simp: published_def intro!: exI [of _ "recs @ ps @ [item_image seq (vn, extra, ev)]"])
      then show ?thesis
        using p(1,5) less.prems(1) by (intro exI [of _ "m\<lparr>m_page := page'\<rparr>"] exI [of _ seq]) (simp add: emit_critical.simps [of env _ _ _ _ self m])
    next
      case full: True
      then have ne: "recs \<noteq> []" using c empty_fits [OF _ x] less.prems(3) by (auto simp: ring_w_def split: if_splits)
      obtain w' page' got recs' where d: "e_out env PORT_DOORBELL DOORBELL_RING_W (m_world m, m_page m) = (Ok (), w', page')"
          "winv w' (ring_a self page')" "mapped self page'" "recs = got @ recs'" "ring_w self page' recs'"
          "log w' = log (m_world m) @ payload_records got" "recs' = [] \<or> patience w' < patience (m_world m)"
        using assms(1) less.prems unfolding host_serves_def by blast
      let ?m = "m\<lparr>m_world := w', m_page := page'\<rparr>"
      have step: "emit_critical env (encoded_event_len ev) vn extra ev self m
          = emit_critical env (encoded_event_len ev) vn extra ev self ?m"
        using full d(1) by (subst emit_critical.simps) (simp add: doorbell_w_def detcall_out_def)
      have lt: "(if recs' = [] then 0 else Suc (patience (m_world ?m))) < (if recs = [] then 0 else Suc (patience (m_world m)))"
        using d(7) ne by auto
      have "strm = log (m_world ?m) @ payload_records recs'" using less.prems(4) d(4,6) by simp
      from less.hyps [OF lt _ _ _ this] show ?thesis using d(2,3,5) unfolding step by simp
    qed
  qed
qed

text \<open>
  C27. A critical event is never lost: against a host that takes all records after finitely many port
  writes, emitting it returns, and what was published on ring W, taken or still queued, grows by
  exactly that event.
\<close>

theorem emit_critical_publishes:
  assumes "host_serves env self winv patience log" and "winv (m_world m) (ring_a self (m_page m))"
    and "published self log m strm" and "event_item_ok (vn, extra, ev)"
  shows "\<exists>self' m' seq. emit_w_event env vn extra ev Critical self m = Some (Ok (), self', m')
     \<and> published self' log m' (strm @ [item_image seq (vn, extra, ev)])
     \<and> pr_next_seq (mc_ring_w self') = seq + 1"
proof -
  have len: "\<not> encoded_event_len ev > MAX_RECORD_LEN"
    using event_ring.rlen_bounds [of "(vn, extra, ev)"] assms(4) by (simp add: event_item_ok_def)
  then show ?thesis
    using emit_critical_ends [OF assms(1,4,2,3)] by (auto simp: emit_w_event_def RingW_emit_def Let_def)
qed

section \<open>Polling\<close>

definition ctrl_readable :: "bytes \<Rightarrow> bool" where
  "ctrl_readable r \<longleftrightarrow> (case decode_workload_ctrl r of Ok _ \<Rightarrow> True | Err (UnknownKind _) \<Rightarrow> True | _ \<Rightarrow> False)"

fun next_ctrl :: "bytes list \<Rightarrow> workload_ctrl option \<times> bytes list" where
  "next_ctrl [] = (None, [])"
| "next_ctrl (r # rs) = (case decode_workload_ctrl r of Ok (_, c) \<Rightarrow> (Some c, rs) | _ \<Rightarrow> next_ctrl rs)"

lemma poll_ring_rep:
  "ring_rep (co_size c) rm recs \<Longrightarrow> list_all ctrl_readable recs \<Longrightarrow> length scratch = MAX_RECORD_LEN \<Longrightarrow>
     \<exists>v. poll_ring c rm scratch = (Ok (fst (next_ctrl recs)), rm\<lparr>rm_cons := v\<rparr>)
       \<and> ring_rep (co_size c) (rm\<lparr>rm_cons := v\<rparr>) (snd (next_ctrl recs))"
proof (induction recs arbitrary: rm scratch)
  case Nil
  then show ?case using pop_into_rep [OF Nil(1)]
    by (intro exI [of _ "rm_cons rm"]) (simp add: poll_ring.simps [of c rm])
next
  case (Cons r rs)
  let ?rm = "rm\<lparr>rm_cons := rm_cons rm + of_nat (length r)\<rparr>"
  have len: "8 \<le> length r" "length r \<le> 4096" using Cons.prems(1) good_record_length by (auto simp: ring_rep_def)
  have pop: "pop_into c rm scratch = (Ok (Some (length r)), ?rm, patch scratch 0 r)"
    using pop_into_rep [OF Cons.prems(1), of scratch] len Cons.prems(3) by simp
  have sl: "(slice (patch scratch 0 r) 0 (length r) :: (unit, bytes) res) = Ok r"
    using len Cons.prems(3) by (simp add: slice_def take_patch_0)
  note tl = ring_rep_tl [OF Cons.prems(1)]
  have r: "ctrl_readable r" and rs: "list_all ctrl_readable rs" using Cons.prems(2) by simp_all
  show ?case
  proof (cases "decode_workload_ctrl r")
    case (Ok x)
    then show ?thesis using tl pop sl
      by (intro exI [of _ "rm_cons rm + of_nat (length r)"]) (cases x; simp add: poll_ring.simps [of c rm])
  next
    case (Err e)
    then obtain k where e: "e = UnknownKind k" using r by (cases e) (simp_all add: ctrl_readable_def)
    have eq: "poll_ring c rm scratch = poll_ring c ?rm (patch scratch 0 r)"
      using Err e by (subst poll_ring.simps) (simp add: pop sl)
    have "length (patch scratch 0 r) = MAX_RECORD_LEN" using len Cons.prems(3) by simp
    from Cons.IH [OF tl rs this] show ?thesis unfolding eq using Err by auto
  next
    case Panic
    then show ?thesis using decode_ctrl_not_Panic by blast
  qed
qed

section \<open>Fixtures\<close>

definition demo_channel :: mapped_channel where
  "demo_channel = \<lparr>mc_header = ChannelHeader_canonical, mc_ring_w = \<lparr>pr_size = 0x100000, pr_next_seq = 0\<rparr>,
     mc_ring_i = \<lparr>co_size = 0x4000\<rparr>\<rparr>"

text \<open>A host that pops everything queued on ring W whenever a port is written, and keeps the records.\<close>

definition draining_env :: "mapped_channel \<Rightarrow> bytes list sdk_env" where
  "draining_env self = \<lparr>e_out = (\<lambda>port v (w, page).
       case pop_all (unat (pr_size (mc_ring_w self))) \<lparr>co_size = pr_size (mc_ring_w self)\<rparr> (page_ring (mc_header self) page RingW) of
         (rs, rm) \<Rightarrow> (Ok (), w @ payload_records rs, patch page (cons_offset RingW) (to_le_bytes 4 (rm_cons rm)))),
     e_in = (\<lambda>port (w, page). (Ok 0, w, page)), e_spin = (\<lambda>x. x), e_mmio_read = (\<lambda>_ _. 0), e_mmio_write = (\<lambda>_ _ w. w),
     e_iopl = (\<lambda>_. True), e_map_pv_pad = (\<lambda>_. Ok ()), e_mmap = (\<lambda>_ _. Ok ()), e_mlock = (\<lambda>_ _ _. True),
     e_connect = (\<lambda>(w, page). (False, w, page)), e_send = (\<lambda>_ (w, page). (- 1, w, page)), e_recv = (\<lambda>_ (w, page). (None, w, page))\<rparr>"

lemma demo_mapped: "mapped demo_channel zero_page" "ring_w demo_channel zero_page []"
proof -
  show "mapped demo_channel zero_page"
    using canonical_descs canonical_valid length_zero_page canonical_ring by (simp add: mapped_def demo_channel_def)
  have "ring_size_ok 0x100000" by (simp add: ring_size_ok_def pow2_sizes)
  then show "ring_w demo_channel zero_page []"
    using zero_page_ring [of RingW] by (simp add: ring_w_def demo_channel_def ring_rep_def canonical_ring)
qed

lemma draining_env_serves: "host_serves (draining_env self) self (\<lambda>_ _. True) (\<lambda>_. 0) (\<lambda>w. w)"
  unfolding host_serves_def
proof (intro allI impI, elim conjE)
  fix w page recs assume m: "mapped self page" and r: "ring_w self page recs"
  let ?h = "mc_header self" and ?sz = "pr_size (mc_ring_w self)"
  have h: "length (ch_ring_desc ?h) = 4" "ChannelHeader_validate ?h = Ok ()" "length page = CHANNEL_SIZE"
    using m by (simp_all add: mapped_def)
  obtain v where v: "pop_all (unat ?sz) \<lparr>co_size = ?sz\<rparr> (page_ring ?h page RingW) = (recs, (page_ring ?h page RingW)\<lparr>rm_cons := v\<rparr>)"
      "ring_rep ?sz ((page_ring ?h page RingW)\<lparr>rm_cons := v\<rparr>) []"
    using pop_all_rep [of "\<lparr>co_size = ?sz\<rparr>"] r length_records by (fastforce simp: ring_w_def)
  let ?page = "patch page (cons_offset RingW) (to_le_bytes 4 v)"
  have "mapped self ?page" "ring_w self ?page []"
    using m v(2) cell_offsets(2) [of RingW] by (simp_all add: mapped_def ring_w_def page_ring_cells(2) [OF h])
  then show "\<exists>w' page' got recs'. e_out (draining_env self) PORT_DOORBELL DOORBELL_RING_W (w, page) = (Ok (), w', page')
      \<and> True \<and> mapped self page' \<and> recs = got @ recs' \<and> ring_w self page' recs'
      \<and> w' = w @ payload_records got \<and> (recs' = [] \<or> (0 :: nat) < 0)"
    using v(1) by (intro exI [of _ "w @ payload_records recs"] exI [of _ ?page] exI [of _ recs] exI [of _ "[]"]) (simp add: draining_env_def)
qed

lemma demo_published: "published demo_channel (\<lambda>w. w) \<lparr>m_page = zero_page, m_vnanos = 1, m_client = False, m_world = []\<rparr> []"
  using demo_mapped by (auto simp: published_def intro: exI [of _ "[]"])

theorem emit_critical_publishes_witness:
  "\<exists>self' m' seq. emit_w_event (draining_env demo_channel) 7 0 (Ev_FrameMark 42) Critical demo_channel
       \<lparr>m_page = zero_page, m_vnanos = 1, m_client = False, m_world = []\<rparr> = Some (Ok (), self', m')
     \<and> published self' (\<lambda>w. w) m' [item_image seq (7, 0, Ev_FrameMark 42)]"
  using emit_critical_publishes [OF draining_env_serves _ demo_published, of 7 0 "Ev_FrameMark 42"]
  by (auto simp: event_item_ok_def)

theorem emit_droppable_accounts_witness:
  "\<exists>self' m'. emit_w_event (draining_env demo_channel) 7 0 (Ev_Beacon 3) Droppable demo_channel
       \<lparr>m_page = zero_page, m_vnanos = 1, m_client = False, m_world = []\<rparr> = Some (Ok (), self', m') \<and> mapped self' (m_page m')"
  using emit_droppable_accounts [of demo_channel "\<lparr>m_page = zero_page, m_vnanos = 1, m_client = False, m_world = []\<rparr>" "[]" 7 0 "Ev_Beacon 3" "draining_env demo_channel"]
    demo_mapped by (auto simp: event_item_ok_def)

section \<open>Attaching and polling\<close>

text \<open>
  The workload maps exactly the channels it can use: mapping a page succeeds precisely when its
  header is valid and rings W and I hold a maximal record, and then both halves fit the page; a valid
  header with a smaller ring W or I is not an error but a panic.
\<close>

theorem map_channel_exact:
  assumes "length page = CHANNEL_SIZE" and "ChannelHeader_read_from page = Ok h"
    and "w = rd_size (ch_ring_desc h ! ring_index RingW)" and "i = rd_size (ch_ring_desc h ! ring_index RingI)"
  shows "if ChannelHeader_validate h \<noteq> Ok () then \<exists>e. MappedChannel_map page = Err e
     else if ring_size_ok w \<and> ring_size_ok i
     then \<exists>self. MappedChannel_map page = Ok self \<and> mapped self page \<and> mc_header self = h
        \<and> pr_next_seq (mc_ring_w self) = 0
     else MappedChannel_map page = Panic"
proof -
  have len: "length (ch_ring_desc h) = 4" using assms(2) by (auto simp: read_header_eq split: if_splits)
  have rv: "read_and_validate_header page = (if ch_magic h \<noteq> CHANNEL_MAGIC then Err (BadChannelHeader (ch_magic h))
      else if ch_proto_version h \<noteq> PROTO_VERSION then Err (ProtocolVersionMismatch PROTO_VERSION (ch_proto_version h))
      else bind_res (map_err map_decode_error (ChannelHeader_validate h)) (\<lambda>_. Ok h))"
    using assms(2) by (simp add: read_and_validate_header_def)
  show ?thesis
  proof (cases "ChannelHeader_validate h = Ok ()")
    case True
    then have "read_and_validate_header page = Ok h"
      unfolding rv by (auto simp: header_validate_eq split: if_splits)
    then have "MappedChannel_map page =
        bind_res (Producer_from_raw w 0) (\<lambda>p. bind_res (Consumer_from_raw i) (\<lambda>c.
          Ok \<lparr>mc_header = h, mc_ring_w = p, mc_ring_i = c\<rparr>))"
      using len ring_index_less assms(3,4) by (simp add: MappedChannel_map_def index_def)
    then show ?thesis
      using True len assms by (auto simp: Producer_from_raw_def Consumer_from_raw_def ring_size_ok_def mapped_def)
  next
    case False
    then obtain e where "ChannelHeader_validate h = Err e"
      using header_validate_eq [of h] by (auto split: if_splits)
    then have "\<exists>e. read_and_validate_header page = Err e" unfolding rv by simp
    then show ?thesis using False by (auto simp: MappedChannel_map_def)
  qed
qed

theorem map_channel_exact_witness:
  "\<exists>self. MappedChannel_map zero_page = Ok self \<and> mapped self zero_page"
proof -
  have "ChannelHeader_read_from zero_page = Ok ChannelHeader_canonical"
    unfolding zero_page_def by (rule read_header_written [OF canonical_descs])
  moreover have "ring_size_ok 0x100000" "ring_size_ok 0x4000" by (simp_all add: ring_size_ok_def pow2_sizes)
  ultimately show ?thesis
    using map_channel_exact [OF length_zero_page, of ChannelHeader_canonical "0x100000" "0x4000"]
    by (auto simp: canonical_valid canonical_ring)
qed

lemma poll_ctrl_rep:
  assumes m: "mapped self (m_page m)"
    and rep: "ring_rep (co_size (mc_ring_i self)) (page_ring (mc_header self) (m_page m) RingI) recs"
    and ok: "list_all ctrl_readable recs"
  shows "\<exists>page'. poll_workload_ctrl self m = (Ok (fst (next_ctrl recs)), m\<lparr>m_page := page'\<rparr>) \<and> mapped self page'
     \<and> ring_rep (co_size (mc_ring_i self)) (page_ring (mc_header self) page' RingI) (snd (next_ctrl recs))
     \<and> (\<exists>v :: u32. page' = patch (m_page m) (cons_offset RingI) (to_le_bytes 4 v))"
proof -
  let ?h = "mc_header self" and ?rm = "page_ring (mc_header self) (m_page m) RingI"
  have h: "length (ch_ring_desc ?h) = 4" "ChannelHeader_validate ?h = Ok ()" "length (m_page m) = CHANNEL_SIZE"
    using m by (simp_all add: mapped_def)
  obtain v where v: "poll_ring (mc_ring_i self) ?rm (replicate MAX_RECORD_LEN 0) = (Ok (fst (next_ctrl recs)), ?rm\<lparr>rm_cons := v\<rparr>)"
      "ring_rep (co_size (mc_ring_i self)) (?rm\<lparr>rm_cons := v\<rparr>) (snd (next_ctrl recs))"
    using poll_ring_rep [OF rep ok] by force
  let ?page = "patch (m_page m) (cons_offset RingI) (to_le_bytes 4 v)"
  have "mapped self ?page" using m cell_offsets(2) [of RingI] by (simp add: mapped_def)
  then show ?thesis
    using v page_ring_cells(2) [OF h] by (intro exI [of _ ?page]) (auto simp: poll_workload_ctrl_def)
qed

end
