(* ===== verification/Sdk_Regions.thy ===== *)
theory Sdk_Regions
  imports Sdk_Channel Wire_Regionipc
begin

text \<open>
  Publishing memory regions from the workload: \<^verbatim>\<open>crates/detguest-sdk/src/regions.rs\<close> and the agent
  connection of \<^verbatim>\<open>crates/detguest-sdk/src/agent_client.rs\<close>. Pinning and the socket are operations of
  the environment; the prefault loop, the request/reply exchange with its cached connection, and the
  handle that unregisters once are modelled.
\<close>

section \<open>Flags and validation\<close>

type_synonym region_flags = u32

definition RegionFlags_FRAMEBUFFER :: region_flags where [simp]: "RegionFlags_FRAMEBUFFER = REGION_FLAG_FRAMEBUFFER"
definition RegionFlags_HOT :: region_flags where [simp]: "RegionFlags_HOT = REGION_FLAG_HOT"
definition RegionFlags_HOST_WRITABLE :: region_flags where [simp]: "RegionFlags_HOST_WRITABLE = REGION_FLAG_HOST_WRITABLE"

definition RegionFlags_empty :: region_flags where [simp]: "RegionFlags_empty = 0"

definition RegionFlags_bits :: "region_flags \<Rightarrow> u32" where
  "RegionFlags_bits self = self"

definition RegionFlags_from_bits_retain :: "u32 \<Rightarrow> region_flags" where
  "RegionFlags_from_bits_retain bits = bits"

definition RegionFlags_bitand :: "region_flags \<Rightarrow> region_flags \<Rightarrow> region_flags" where
  "RegionFlags_bitand self rhs = self AND rhs"

definition RegionFlags_contains :: "region_flags \<Rightarrow> region_flags \<Rightarrow> bool" where
  "RegionFlags_contains self other \<longleftrightarrow> self AND other = other"

definition RegionFlags_bitor :: "region_flags \<Rightarrow> region_flags \<Rightarrow> region_flags" where
  "RegionFlags_bitor self rhs = self OR rhs"

definition validate_region :: "bytes \<Rightarrow> u64 \<Rightarrow> u64 \<Rightarrow> (region_error, unit) res" where
  "validate_region name ptr len =
     (if length name > MAX_REGION_NAME then Err RegNameTooLong
      else if len = 0 \<or> ptr = 0 then Err RegNotPinned
      else Ok ())"

section \<open>Prefaulting\<close>

text \<open>The addresses the loop reads, from offset \<open>at\<close> on.\<close>

lemma prefault_step: "at < (len :: u64) \<Longrightarrow> unat at < unat (saturating_add at (4096 - ((ptr + at) AND 0xFFF)))"
proof -
  assume lt: "at < len"
  have "(ptr + at) AND 0xFFF \<le> 0xFFF" by (rule word_and_le1)
  then have "1 \<le> unat (4096 - ((ptr + at) AND 0xFFF))"
    by (subst unat_sub_word) (auto simp: word_le_nat_alt)
  moreover have "unat at < 2 ^ 64 - 1"
  proof -
    have "unat len < 2 ^ LENGTH(64)" by (rule unsigned_less)
    then show ?thesis using lt by (simp add: word_less_nat_alt)
  qed
  ultimately show ?thesis by (simp add: unat_saturating_add)
qed

function prefault :: "u64 \<Rightarrow> u64 \<Rightarrow> u64 \<Rightarrow> u64 list" where
  "prefault ptr len at =
     (if at < len then (ptr + at) # prefault ptr len (saturating_add at (4096 - ((ptr + at) AND 0xFFF))) else [])"
  by pat_completeness auto
termination
  by (relation "measure (\<lambda>(ptr, len, at). unat len - unat at)")
     (use prefault_step in \<open>auto intro!: diff_less_mono2 simp: word_less_nat_alt\<close>)

declare prefault.simps [simp del]

definition pin_and_prefault :: "'w sdk_env \<Rightarrow> u64 \<Rightarrow> u64 \<Rightarrow> 'w machine \<Rightarrow> (region_error, u64 list) res" where
  "pin_and_prefault env ptr len m =
     (if \<not> e_mlock env ptr len (m_world m) then Err RegNotPinned
      else Ok (prefault ptr len 0 @ [ptr + (len - 1)]))"

section \<open>The agent connection\<close>

definition AgentClient_connect :: "'w sdk_env \<Rightarrow> 'w machine \<Rightarrow> (region_error, unit) res \<times> 'w machine" where
  "AgentClient_connect env m =
     (case e_connect env (m_world m, m_page m) of (ok, w, page) \<Rightarrow>
        (if ok then Ok () else Err RegAgentUnavailable, m\<lparr>m_world := w, m_page := page\<rparr>))"

definition AgentClient_call :: "'w sdk_env \<Rightarrow> request \<Rightarrow> 'w machine \<Rightarrow> (region_error, reply) res \<times> 'w machine" where
  "AgentClient_call env req m =
     (case map_err (\<lambda>_. RegNameTooLong) (encode_request req (replicate REGIONIPC_MAX_DATAGRAM 0)) of
        Err e \<Rightarrow> (Err e, m)
      | Panic \<Rightarrow> (Panic, m)
      | Ok (buf, n) \<Rightarrow>
          (case e_send env (take n buf) (m_world m, m_page m) of (sent, w, page) \<Rightarrow>
             let m = m\<lparr>m_world := w, m_page := page\<rparr>
             in if sent \<noteq> int n then (Err RegAgentUnavailable, m)
                else case e_recv env REGIONIPC_MAX_DATAGRAM (m_world m, m_page m) of (got, w, page) \<Rightarrow>
                       let m = m\<lparr>m_world := w, m_page := page\<rparr>
                       in case got of
                            None \<Rightarrow> (Err RegAgentUnavailable, m)
                          | Some b \<Rightarrow>
                              if b = [] then (Err RegAgentUnavailable, m)
                              else (map_err (\<lambda>_. RegAgentUnavailable) (decode_reply (take REGIONIPC_MAX_DATAGRAM b)), m)))"

definition agent_call :: "'w sdk_env \<Rightarrow> request \<Rightarrow> 'w machine \<Rightarrow> (region_error, reply) res \<times> 'w machine" where
  "agent_call env req m =
     (case (if m_client m then (Ok (), m) else AgentClient_connect env m) of
        (Ok _, m) \<Rightarrow>
          (case AgentClient_call env req (m\<lparr>m_client := True\<rparr>) of
             (Ok reply, m) \<Rightarrow> (Ok reply, m)
           | (Err e, m) \<Rightarrow> (Err e, m\<lparr>m_client := False\<rparr>)
           | (Panic, m) \<Rightarrow> (Panic, m))
      | (Err e, m) \<Rightarrow> (Err e, m)
      | (Panic, m) \<Rightarrow> (Panic, m))"

definition status_to_error :: "u16 \<Rightarrow> region_error" where
  "status_to_error status =
     (if status = STATUS_MANIFEST_FULL then RegManifestFull
      else if status = STATUS_TOO_MANY_EXTENTS then RegTooManyExtents
      else if status = STATUS_NOT_PINNED then RegNotPinned
      else if status = STATUS_NAME_TOO_LONG then RegNameTooLong
      else RegAgentUnavailable)"

section \<open>Handles\<close>

record region_handle =
  hd_region_id :: u32
  hd_live :: bool

definition RegionHandle_new :: "u32 \<Rightarrow> region_handle" where
  "RegionHandle_new region_id = \<lparr>hd_region_id = region_id, hd_live = True\<rparr>"

definition send_unregister :: "'w sdk_env \<Rightarrow> region_handle \<Rightarrow> 'w machine \<Rightarrow> region_handle \<times> 'w machine" where
  "send_unregister env self m =
     (if hd_live self
      then (self\<lparr>hd_live := False\<rparr>, snd (agent_call env (Unregister (hd_region_id self)) m))
      else (self, m))"

text \<open>\<open>unregister\<close> consumes the handle, so its drop runs right after it.\<close>

definition RegionHandle_drop :: "'w sdk_env \<Rightarrow> region_handle \<Rightarrow> 'w machine \<Rightarrow> 'w machine" where
  "RegionHandle_drop env self m = snd (send_unregister env self m)"

definition unregister :: "'w sdk_env \<Rightarrow> region_handle \<Rightarrow> 'w machine \<Rightarrow> 'w machine" where
  "unregister env self m = (case send_unregister env self m of (self, m) \<Rightarrow> RegionHandle_drop env self m)"

section \<open>Every page is touched\<close>

lemma page_end:
  fixes x :: u64
  shows "unat (4096 - (x AND 0xFFF)) = 4096 - unat x mod 4096"
proof -
  have "unat (x AND 0xFFF) = unat x mod 4096"
    using unat_and_mask_pow2 [of "0x1000" x] is_power_of_twoI [of "0x1000 :: u64" 12] by simp
  moreover have "x AND 0xFFF \<le> 4096" using calculation by (simp add: word_le_nat_alt)
  ultimately show ?thesis by (subst unat_sub_word) simp_all
qed

text \<open>
  From an offset that is zero or starts a page, the loop reads one address in each page that the rest
  of the range meets.
\<close>

lemma prefault_touches:
  assumes "unat ptr + unat len \<le> 2 ^ 64 - 1" and "unat at \<le> k" and "k < unat len"
    and "unat at = 0 \<or> (unat ptr + unat at) mod 4096 = 0"
  shows "\<exists>a \<in> set (prefault ptr len at). unat a div 4096 = (unat ptr + k) div 4096"
  using assms
proof (induction ptr len at rule: prefault.induct)
  case (1 ptr len at)
  let ?x = "unat ptr + unat at" and ?n = "saturating_add at (4096 - ((ptr + at) AND 0xFFF))"
  have lt: "at < len" using "1.prems"(2,3) by (simp add: word_less_nat_alt)
  have x: "unat (ptr + at) = ?x" using "1.prems"(1-3) by (subst unat_add_no_wrap) simp_all
  have n: "unat ?n = min (unat at + (4096 - ?x mod 4096)) (2 ^ 64 - 1)"
    by (simp add: unat_saturating_add page_end x)
  define q r where "q = ?x div 4096" and r: "r = ?x mod 4096"
  then have qr: "?x = 4096 * q + r" "r < 4096" by simp_all
  note n = n [folded r]
  show ?case
  proof (cases "unat ?n \<le> k")
    case True
    then have n': "unat ?n = unat at + (4096 - r)" using n "1.prems"(1,3) by simp
    have "unat ptr + unat ?n = ?x + (4096 - r)" by (simp only: n' add.assoc)
    then have "unat ptr + unat ?n = 4096 * (q + 1)" using qr by simp
    then have "(unat ptr + unat ?n) mod 4096 = 0" by simp
    then show ?thesis using "1.IH" [OF lt "1.prems"(1) True "1.prems"(3)] lt by (simp add: prefault.simps [of ptr len at])
  next
    case False
    then have "k < unat at + (4096 - r)" using n by simp
    then have "4096 * q \<le> unat ptr + k" "unat ptr + k < 4096 * q + 4096"
      using "1.prems"(2) qr by linarith+
    then have "(unat ptr + k) div 4096 = q" by (intro div_nat_eqI) simp_all
    then have "(unat ptr + k) div 4096 = ?x div 4096" by (simp add: \<open>q = ?x div 4096\<close>)
    then show ?thesis using lt x by (simp add: prefault.simps [of ptr len at])
  qed
qed

lemma prefault_within: "a \<in> set (prefault ptr len at) \<Longrightarrow> \<exists>k. unat at \<le> unat k \<and> k < len \<and> a = ptr + k"
proof (induction ptr len at rule: prefault.induct)
  case (1 ptr len at)
  let ?n = "saturating_add at (4096 - ((ptr + at) AND 0xFFF))"
  have lt: "at < len" using "1.prems" by (simp add: prefault.simps [of ptr len at] split: if_splits)
  then have "a = ptr + at \<or> a \<in> set (prefault ptr len ?n)"
    using "1.prems" by (simp add: prefault.simps [of ptr len at])
  then show ?case
  proof
    assume "a \<in> set (prefault ptr len ?n)"
    then obtain k where "unat ?n \<le> unat k" "k < len" "a = ptr + k" using "1.IH" [OF lt] by blast
    then show ?thesis using prefault_step [OF lt, of ptr] by (intro exI [of _ k]) simp
  qed (use lt in blast)
qed

text \<open>
  C29. Pinning touches the whole region: when the kernel locks a non-empty range that does not wrap
  around the address space, the prefault loop ends, every address it reads lies in the range, and it
  reads an address in every page the range meets.
\<close>

theorem pin_and_prefault_covers:
  assumes "e_mlock env ptr len (m_world m)" and "0 < unat len" and "unat ptr + unat len \<le> 2 ^ 64 - 1"
  shows "\<exists>touched. pin_and_prefault env ptr len m = Ok touched
     \<and> (\<forall>a \<in> set touched. \<exists>k < unat len. unat a = unat ptr + k)
     \<and> (\<forall>k < unat len. \<exists>a \<in> set touched. unat a div 4096 = (unat ptr + k) div 4096)"
proof -
  let ?t = "prefault ptr len 0 @ [ptr + (len - 1)]"
  have at: "unat (ptr + k) = unat ptr + unat k" if "k < len" for k
    using that assms(3) by (subst unat_add_no_wrap) (simp_all add: word_less_nat_alt)
  have last: "len - 1 < len" "unat (len - 1) = unat len - 1"
    using assms(2) by (auto simp: word_less_nat_alt unat_sub_if_size)
  have "\<exists>k < unat len. unat a = unat ptr + k" if "a \<in> set ?t" for a
  proof -
    have "a = ptr + (len - 1) \<or> a \<in> set (prefault ptr len 0)" using that by auto
    then obtain k where "k < len" "a = ptr + k" using prefault_within last(1) by blast
    then show ?thesis using at by (intro exI [of _ "unat k"]) (simp add: word_less_nat_alt)
  qed
  moreover have "\<exists>a \<in> set ?t. unat a div 4096 = (unat ptr + k) div 4096" if "k < unat len" for k
    using prefault_touches [OF assms(3) _ that, of 0] by auto
  ultimately show ?thesis using assms(1) by (simp add: pin_and_prefault_def)
qed

theorem pin_and_prefault_covers_witness:
  "\<exists>touched. pin_and_prefault (draining_env demo_channel) 0x1800 0x1000 \<lparr>m_page = zero_page, m_vnanos = 1, m_client = False, m_world = []\<rparr> = Ok touched
     \<and> (\<exists>a \<in> set touched. unat a div 4096 = 1) \<and> (\<exists>a \<in> set touched. unat a div 4096 = 2)"
proof -
  let ?m = "\<lparr>m_page = zero_page, m_vnanos = 1, m_client = False, m_world = []\<rparr>"
  have "e_mlock (draining_env demo_channel) 0x1800 0x1000 (m_world ?m)" by (simp add: draining_env_def)
  then obtain t where t: "pin_and_prefault (draining_env demo_channel) 0x1800 0x1000 ?m = Ok t"
      "\<forall>k < unat (0x1000 :: u64). \<exists>a \<in> set t. unat a div 4096 = (unat (0x1800 :: u64) + k) div 4096"
    using pin_and_prefault_covers [of "draining_env demo_channel" "0x1800" "0x1000" ?m] by auto
  show ?thesis using t(1) t(2) [rule_format, of 0] t(2) [rule_format, of "0x800"] by (intro exI [of _ t]) simp
qed

end
