(* ===== verification/Sdk_State.thy ===== *)
theory Sdk_State
  imports Sdk_Regions Host_Inject "HOL-Library.Sublist"
begin

text \<open>
  The workload API: \<^verbatim>\<open>crates/detguest-sdk/src/lib.rs\<close> and \<^verbatim>\<open>inject.rs\<close>. An operation takes the SDK
  state and the machine and returns the result with both updated; \<open>None\<close> stands for an operation that
  never returns, \<open>Panic\<close> for one that unwinds. The global cell holds the state behind its lock: a panic
  while the lock is held poisons it, and from then on every call behaves as in standalone mode.

  The abstract specification \<open>emits\<close> says which events a call publishes, from the calls before it.
\<close>

section \<open>State\<close>

definition ASSERT_REPEAT_LIMIT :: u32 where [simp]: "ASSERT_REPEAT_LIMIT = 16"
definition FIRST_ISEQ :: u32 where [simp]: "FIRST_ISEQ = 1"

record stats_state =
  st_asserts_passed_total :: u64
  st_asserts_failed_total :: u64
  st_reachable_names :: u64
  st_inject_queries_total :: u64

definition StatsState_default :: stats_state where
  "StatsState_default = \<lparr>st_asserts_passed_total = 0, st_asserts_failed_total = 0,
     st_reachable_names = 0, st_inject_queries_total = 0\<rparr>"

record sdk_state =
  ss_channel :: mapped_channel
  ss_pio :: pio_state
  ss_intern :: intern_table
  ss_beacons :: beacon_counters
  ss_stats :: stats_state
  ss_stats_region :: stats_region
  ss_stats_region_handle :: "region_handle option"
  ss_frame_index :: u32
  ss_next_iseq :: u32

record sdk_stats =
  sk_stats_version :: u32
  sk_asserts_passed_total :: u64
  sk_asserts_failed_total :: u64
  sk_reachable_names :: u64
  sk_inject_queries_total :: u64

definition SdkStats_default :: sdk_stats where
  "SdkStats_default = \<lparr>sk_stats_version = 1, sk_asserts_passed_total = 0, sk_asserts_failed_total = 0,
     sk_reachable_names = 0, sk_inject_queries_total = 0\<rparr>"

definition snapshot :: "sdk_state \<Rightarrow> sdk_stats" where
  "snapshot self =
     (let s = ss_stats self
      in \<lparr>sk_stats_version = 1, sk_asserts_passed_total = st_asserts_passed_total s,
          sk_asserts_failed_total = st_asserts_failed_total s, sk_reachable_names = st_reachable_names s,
          sk_inject_queries_total = st_inject_queries_total s\<rparr>)"

datatype log_level = LogError | LogWarn | LogInfo | LogDebug | LogTrace

definition LogLevel_as_u8 :: "log_level \<Rightarrow> u8" where
  "LogLevel_as_u8 l = (case l of LogError \<Rightarrow> 0 | LogWarn \<Rightarrow> 1 | LogInfo \<Rightarrow> 2 | LogDebug \<Rightarrow> 3 | LogTrace \<Rightarrow> 4)"

type_synonym ('e, 'a, 'w) run = "(('e, 'a) res \<times> sdk_state \<times> 'w machine) option"

text \<open>Sequencing: a panic unwinds past the rest.\<close>

definition run_bind ::
  "('e, 'a, 'w) run \<Rightarrow> (('e, 'a) res \<Rightarrow> sdk_state \<Rightarrow> 'w machine \<Rightarrow> ('f, 'b, 'w) run) \<Rightarrow> ('f, 'b, 'w) run" where
  "run_bind r f = Option.bind r (\<lambda>(v, s, m). case v of Panic \<Rightarrow> Some (Panic, s, m) | _ \<Rightarrow> f v s m)"

lemma run_bind_simps [simp]:
  "run_bind (Some (Ok x, s, m)) f = f (Ok x) s m"
  "run_bind (Some (Err e, s, m)) f = f (Err e) s m"
  "run_bind (Some (Panic, s, m)) f = Some (Panic, s, m)"
  "run_bind None f = None"
  by (simp_all add: run_bind_def)

section \<open>Publishing\<close>

definition vnanos :: "'w machine \<Rightarrow> u64 \<times> 'w machine" where
  "vnanos m = (m_vnanos m, m\<lparr>m_vnanos := m_vnanos m + 1\<rparr>)"

definition with_channel :: "sdk_state \<Rightarrow> 'w emitted \<Rightarrow> (init_error, unit, 'w) run" where
  "with_channel self r = map_option (\<lambda>(v, c, m). (v, self\<lparr>ss_channel := c\<rparr>, m)) r"

definition sdk_emit ::
  "'w sdk_env \<Rightarrow> u8 \<Rightarrow> event_payload \<Rightarrow> event_class \<Rightarrow> sdk_state \<Rightarrow> 'w machine \<Rightarrow> (init_error, unit, 'w) run" where
  "sdk_emit env extra ev class self m =
     (case vnanos m of (v, m) \<Rightarrow> with_channel self (emit_w_event env v extra ev class (ss_channel self) m))"

definition sdk_emit_with_doorbell ::
  "'w sdk_env \<Rightarrow> u8 \<Rightarrow> event_payload \<Rightarrow> event_class \<Rightarrow> sdk_state \<Rightarrow> 'w machine \<Rightarrow> (init_error, unit, 'w) run" where
  "sdk_emit_with_doorbell env extra ev class self m =
     (case vnanos m of (v, m) \<Rightarrow> with_channel self (emit_w_event_with_doorbell env v extra ev class (ss_channel self) m))"

definition state_intern_name ::
  "'w sdk_env \<Rightarrow> bytes \<Rightarrow> u8 \<Rightarrow> sdk_state \<Rightarrow> 'w machine \<Rightarrow> (unit, u32 option, 'w) run" where
  "state_intern_name env name extra self m =
     (case intern name (ss_intern self) of
        (Ok interned, t) \<Rightarrow>
          (let self = self\<lparr>ss_intern := t\<rparr>
           in if nm_is_new interned
              then run_bind (sdk_emit env extra (Ev_NameIntern (nm_id interned) name) Critical self m)
                     (\<lambda>_ self m. Some (Ok (Some (nm_id interned)), self, m))
              else Some (Ok (Some (nm_id interned)), self, m))
      | (Err _, t) \<Rightarrow> Some (Ok None, self\<lparr>ss_intern := t\<rparr>, m)
      | (Panic, t) \<Rightarrow> Some (Panic, self\<lparr>ss_intern := t\<rparr>, m))"

section \<open>Assertions, reachability, beacons, logs, frames\<close>

definition suppressed_text :: bytes where
  "suppressed_text = map of_char ''further violations suppressed after 16 repeats''"

definition state_assert_always ::
  "'w sdk_env \<Rightarrow> bool \<Rightarrow> bytes \<Rightarrow> bytes \<Rightarrow> sdk_state \<Rightarrow> 'w machine \<Rightarrow> (unit, unit, 'w) run" where
  "state_assert_always env cond name details self m =
     run_bind (state_intern_name env name 0 self m) (\<lambda>r self m.
       case r of
         Ok (Some name_id) \<Rightarrow>
           if cond then
             (let st = ss_stats self; st = st\<lparr>st_asserts_passed_total := saturating_add (st_asserts_passed_total st) 1\<rparr>;
                  self = self\<lparr>ss_stats := st\<rparr>
              in case record_assert name_id True (ss_intern self) of
                   (Ok counts, t) \<Rightarrow>
                     (let region = (ss_stats_region self)\<lparr>sr_asserts_passed_total := st_asserts_passed_total st\<rparr>;
                          region = StatsRegion_record_assert name_id (ac_pass_count counts) (ac_fail_count counts) region
                      in Some (Ok (), self\<lparr>ss_intern := t, ss_stats_region := region\<rparr>, m))
                 | (Err _, t) \<Rightarrow> Some (Ok (), self\<lparr>ss_intern := t\<rparr>, m)
                 | (Panic, t) \<Rightarrow> Some (Panic, self\<lparr>ss_intern := t\<rparr>, m))
           else
             (let st = ss_stats self; st = st\<lparr>st_asserts_failed_total := saturating_add (st_asserts_failed_total st) 1\<rparr>;
                  self = self\<lparr>ss_stats := st\<rparr>
              in case record_assert name_id False (ss_intern self) of
                   (Ok counts, t) \<Rightarrow>
                     (let region = (ss_stats_region self)\<lparr>sr_asserts_failed_total := st_asserts_failed_total st\<rparr>;
                          region = StatsRegion_record_assert name_id (ac_pass_count counts) (ac_fail_count counts) region;
                          self = self\<lparr>ss_intern := t, ss_stats_region := region\<rparr>;
                          n = ac_fail_count counts
                      in if n > ASSERT_REPEAT_LIMIT \<and> n \<noteq> ASSERT_REPEAT_LIMIT + 1 then Some (Ok (), self, m)
                         else
                           (let details = (if n > ASSERT_REPEAT_LIMIT then suppressed_text else details)
                            in run_bind (sdk_emit env 0 (Ev_AssertViolation name_id n details) Critical self m)
                                 (\<lambda>_ self m. Some (Ok (), self, m))))
                 | (Err _, t) \<Rightarrow> Some (Ok (), self\<lparr>ss_intern := t\<rparr>, m)
                 | (Panic, t) \<Rightarrow> Some (Panic, self\<lparr>ss_intern := t\<rparr>, m))
       | _ \<Rightarrow> Some (Ok (), self, m))"

definition state_expect_reachable :: "'w sdk_env \<Rightarrow> bytes \<Rightarrow> sdk_state \<Rightarrow> 'w machine \<Rightarrow> (unit, unit, 'w) run" where
  "state_expect_reachable env name self m =
     run_bind (state_intern_name env name 0 self m) (\<lambda>r self m.
       case r of
         Ok (Some name_id) \<Rightarrow>
           (case record_reachable name_id (ss_intern self) of
              (Ok n, t) \<Rightarrow>
                (let self = self\<lparr>ss_intern := t, ss_stats_region := StatsRegion_record_reachable name_id n (ss_stats_region self)\<rparr>
                 in if n = 1 then
                      (let st = ss_stats self; st = st\<lparr>st_reachable_names := saturating_add (st_reachable_names st) 1\<rparr>;
                           self = self\<lparr>ss_stats := st,
                             ss_stats_region := (ss_stats_region self)\<lparr>sr_reachable_names := st_reachable_names st\<rparr>\<rparr>
                       in run_bind (sdk_emit env 0 (Ev_Reachable name_id) Critical self m)
                            (\<lambda>_ self m. Some (Ok (), self, m)))
                    else Some (Ok (), self, m))
            | (Err _, t) \<Rightarrow> Some (Ok (), self\<lparr>ss_intern := t\<rparr>, m)
            | (Panic, t) \<Rightarrow> Some (Panic, self\<lparr>ss_intern := t\<rparr>, m))
       | _ \<Rightarrow> Some (Ok (), self, m))"

definition state_declare_reachable :: "'w sdk_env \<Rightarrow> bytes \<Rightarrow> sdk_state \<Rightarrow> 'w machine \<Rightarrow> (unit, unit, 'w) run" where
  "state_declare_reachable env name self m =
     run_bind (state_intern_name env name FLAG_REACHABLE_DECL self m) (\<lambda>_ self m. Some (Ok (), self, m))"

definition state_coverage_beacon :: "'w sdk_env \<Rightarrow> u32 \<Rightarrow> sdk_state \<Rightarrow> 'w machine \<Rightarrow> (unit, unit, 'w) run" where
  "state_coverage_beacon env k self m =
     (case hit k (ss_beacons self) of (h, c) \<Rightarrow>
        let self = self\<lparr>ss_beacons := c, ss_stats_region := record_beacon (bh_id h) (ss_stats_region self)\<rparr>
        in if bh_first_hit h
           then run_bind (sdk_emit env 0 (Ev_Beacon (bh_id h)) Droppable self m) (\<lambda>_ self m. Some (Ok (), self, m))
           else Some (Ok (), self, m))"

definition state_log_line :: "'w sdk_env \<Rightarrow> log_level \<Rightarrow> bytes \<Rightarrow> sdk_state \<Rightarrow> 'w machine \<Rightarrow> (unit, unit, 'w) run" where
  "state_log_line env level msg self m =
     run_bind (sdk_emit env 0 (Ev_LogLine STREAM_SDK_USER (LogLevel_as_u8 level) msg) Droppable self m)
       (\<lambda>_ self m. Some (Ok (), self, m))"

definition state_frame_mark :: "'w sdk_env \<Rightarrow> sdk_state \<Rightarrow> 'w machine \<Rightarrow> (unit, unit, 'w) run" where
  "state_frame_mark env self m =
     (let self = self\<lparr>ss_frame_index := ss_frame_index self + 1\<rparr>; frame_index = ss_frame_index self
      in run_bind (sdk_emit env 0 (Ev_FrameMark frame_index) Critical self m)
           (\<lambda>_ self m. Some (Ok (), self, write_frame_counter env (ss_pio self) frame_index m)))"

section \<open>Quiesce\<close>

partial_function (option) park_loop ::
  "'w sdk_env \<Rightarrow> u64 \<Rightarrow> sdk_state \<Rightarrow> 'w machine \<Rightarrow> (unit, unit, 'w) run" where
  "park_loop env token self m =
     (case poll_workload_ctrl (ss_channel self) m of
        (Ok (Some (Ctrl_Resume t)), m) \<Rightarrow> if t = token then Some (Ok (), self, m) else park_loop env token self m
      | (Ok (Some _), m) \<Rightarrow> park_loop env token self m
      | (Ok None, m) \<Rightarrow> park_loop env token self (spin_loop env m)
      | (Err _, m) \<Rightarrow> Some (Ok (), self, m)
      | (Panic, m) \<Rightarrow> Some (Panic, self, m))"

definition park_until_resume :: "'w sdk_env \<Rightarrow> u64 \<Rightarrow> sdk_state \<Rightarrow> 'w machine \<Rightarrow> (unit, unit, 'w) run" where
  "park_until_resume env token self m =
     run_bind (sdk_emit_with_doorbell env 0 (Ev_QuiesceReady token) Critical self m) (\<lambda>r self m.
       case r of Err _ \<Rightarrow> Some (Ok (), self, m) | _ \<Rightarrow> park_loop env token self m)"

partial_function (option) state_quiesce_check :: "'w sdk_env \<Rightarrow> sdk_state \<Rightarrow> 'w machine \<Rightarrow> (unit, unit, 'w) run" where
  "state_quiesce_check env self m =
     (case poll_workload_ctrl (ss_channel self) m of
        (Ok (Some (Ctrl_QuiesceReq token)), m) \<Rightarrow>
          Option.bind (park_until_resume env token self m) (\<lambda>(r, self, m).
            case r of Panic \<Rightarrow> Some (Panic, self, m) | _ \<Rightarrow> state_quiesce_check env self m)
      | (Ok (Some (Ctrl_Resume _)), m) \<Rightarrow> state_quiesce_check env self m
      | (Ok None, m) \<Rightarrow> Some (Ok (), self, m)
      | (Err _, m) \<Rightarrow> Some (Ok (), self, m)
      | (Panic, m) \<Rightarrow> Some (Panic, self, m))"

section \<open>Fault injection\<close>

definition state_inject_point :: "'w sdk_env \<Rightarrow> bytes \<Rightarrow> sdk_state \<Rightarrow> 'w machine \<Rightarrow> (unit, fault_decision, 'w) run" where
  "state_inject_point env name self m =
     run_bind (state_intern_name env name 0 self m) (\<lambda>r self m.
       case r of
         Ok (Some name_id) \<Rightarrow>
           (let iseq = ss_next_iseq self; self = self\<lparr>ss_next_iseq := iseq + 1\<rparr>
            in run_bind (sdk_emit_with_doorbell env 0 (Ev_InjectQuery iseq name_id) Critical self m) (\<lambda>r self m.
                 case r of
                   Err _ \<Rightarrow> Some (Ok Proceed, self, m)
                 | _ \<Rightarrow>
                   (case detcall_out env PORT_INJECT iseq m of
                      (Err _, m) \<Rightarrow> Some (Ok Proceed, self, m)
                    | (Panic, m) \<Rightarrow> Some (Panic, self, m)
                    | (Ok _, m) \<Rightarrow>
                        (case detcall_in env PORT_INJECT m of
                           (Ok packed, m) \<Rightarrow> Some (Ok (FaultDecision_unpack packed), self, m)
                         | (Err _, m) \<Rightarrow> Some (Ok Proceed, self, m)
                         | (Panic, m) \<Rightarrow> Some (Panic, self, m)))))
       | _ \<Rightarrow> Some (Ok Proceed, self, m))"

section \<open>Regions\<close>

definition state_register_region ::
  "'w sdk_env \<Rightarrow> bytes \<Rightarrow> u32 \<Rightarrow> u64 \<Rightarrow> u64 \<Rightarrow> region_flags \<Rightarrow> sdk_state \<Rightarrow> 'w machine \<Rightarrow> (region_error, region_handle, 'w) run" where
  "state_register_region env name layout_version ptr len flags self m =
     (case bind_res (validate_region name ptr len) (\<lambda>_. pin_and_prefault env ptr len m) of
        Err e \<Rightarrow> Some (Err e, self, m)
      | Panic \<Rightarrow> Some (Panic, self, m)
      | Ok _ \<Rightarrow>
          run_bind (state_intern_name env name 0 self m) (\<lambda>r self m.
            case r of
              Ok (Some name_id) \<Rightarrow>
                (case agent_call env (Register flags layout_version name_id ptr len name) m of
                   (Err e, m) \<Rightarrow> Some (Err e, self, m)
                 | (Panic, m) \<Rightarrow> Some (Panic, self, m)
                 | (Ok reply, m) \<Rightarrow>
                     if rep_status reply \<noteq> STATUS_OK then Some (Err (status_to_error (rep_status reply)), self, m)
                     else if unat (rep_manifest_generation reply) \<ge> 2 ^ 32 then Some (Err RegAgentUnavailable, self, m)
                     else
                       run_bind (sdk_emit_with_doorbell env 0
                           (Ev_RegionRegister \<lparr>re_region_id = rep_region_id reply, re_name_id = rep_name_id reply,
                              re_layout_version = layout_version,
                              re_manifest_generation = ucast (rep_manifest_generation reply)\<rparr>) Critical self m) (\<lambda>r self m.
                         case r of
                           Err _ \<Rightarrow> Some (Err RegAgentUnavailable, self, m)
                         | _ \<Rightarrow> Some (Ok (RegionHandle_new (rep_region_id reply)), self, m)))
            | _ \<Rightarrow> Some (Err RegAgentUnavailable, self, m)))"

section \<open>The process-wide handle\<close>

datatype sdk_cell = Uninit | Init sdk_state | Poisoned

text \<open>A call under the lock; without a usable state, \<open>None\<close> as the \<open>Option\<close> of the source.\<close>

definition with_sdk_state ::
  "(sdk_state \<Rightarrow> 'w machine \<Rightarrow> (unit, 'a, 'w) run) \<Rightarrow> sdk_cell \<Rightarrow> 'w machine \<Rightarrow> ((unit, 'a option) res \<times> sdk_cell \<times> 'w machine) option" where
  "with_sdk_state f cell m =
     (case cell of
        Init self \<Rightarrow>
          map_option (\<lambda>(r, self, m).
            case r of Ok x \<Rightarrow> (Ok (Some x), Init self, m) | Err e \<Rightarrow> (Err e, Init self, m) | Panic \<Rightarrow> (Panic, Poisoned, m))
            (f self m)
      | _ \<Rightarrow> Some (Ok None, cell, m))"

text \<open>\<open>init_from_channel_fd\<close>, for the variable's value, the pio setup and the address of the stats region.\<close>

definition stats_region_name :: bytes where
  "stats_region_name = map of_char ''detsdk.stats''"

definition init_from_channel_fd ::
  "'w sdk_env \<Rightarrow> bytes option \<Rightarrow> u64 \<Rightarrow> sdk_cell \<Rightarrow> 'w machine \<Rightarrow> ((init_error, unit) res \<times> sdk_cell \<times> 'w machine) option" where
  "init_from_channel_fd env raw stats_ptr cell m =
     (case cell of
        Uninit \<Rightarrow>
          (case raw of
             None \<Rightarrow> Some (Err NoChannel, cell, m)
           | Some raw \<Rightarrow>
               (case bind_res (map_err AgentSocket (parse_channel_fd raw)) (\<lambda>fd.
                     bind_res (e_mmap env fd (m_world m)) (\<lambda>_.
                     bind_res (MappedChannel_map (m_page m)) (\<lambda>channel.
                     bind_res (pio_init env m) (\<lambda>pio. Ok (channel, pio))))) of
                  Err e \<Rightarrow> Some (Err e, cell, m)
                | Panic \<Rightarrow> Some (Panic, cell, m)
                | Ok (channel, pio) \<Rightarrow>
                    (let m = mark_workload_attached m;
                         state = \<lparr>ss_channel = channel, ss_pio = pio, ss_intern = InternTable_default,
                           ss_beacons = BeaconCounters_default, ss_stats = StatsState_default,
                           ss_stats_region = StatsRegion_default, ss_stats_region_handle = None,
                           ss_frame_index = 0, ss_next_iseq = FIRST_ISEQ\<rparr>
                     in map_option (\<lambda>(r, state, m).
                          case r of
                            Ok handle \<Rightarrow> (Ok (), Init (state\<lparr>ss_stats_region_handle := Some handle\<rparr>), m)
                          | Err e \<Rightarrow> (Err (StatsRegion e), cell, m)
                          | Panic \<Rightarrow> (Panic, cell, m))
                          (state_register_region env stats_region_name 1 stats_ptr (of_nat STATS_REGION_SIZE) RegionFlags_HOT state m))))
      | _ \<Rightarrow> Some (Ok (), cell, m))"

type_synonym ('e, 'a, 'w) api = "(('e, 'a) res \<times> sdk_cell \<times> 'w machine) option"

text \<open>The calls of the public API; a panic of a standalone assertion happens outside the lock.\<close>

definition assert_always ::
  "'w sdk_env \<Rightarrow> bytes option \<Rightarrow> bool \<Rightarrow> bytes \<Rightarrow> bytes \<Rightarrow> sdk_cell \<Rightarrow> 'w machine \<Rightarrow> (unit, unit, 'w) api" where
  "assert_always env standalone_panic cond name details cell m =
     map_option (\<lambda>(r, cell, m).
       case r of
         Ok None \<Rightarrow> (if \<not> cond \<and> standalone_panic_enabled standalone_panic then Panic else Ok (), cell, m)
       | _ \<Rightarrow> (bind_res r (\<lambda>_. Ok ()), cell, m))
       (with_sdk_state (state_assert_always env cond name details) cell m)"

definition ignore_result :: "((unit, 'a option) res \<times> sdk_cell \<times> 'w machine) option \<Rightarrow> (unit, unit, 'w) api" where
  "ignore_result r = map_option (\<lambda>(r, cell, m). (bind_res r (\<lambda>_. Ok ()), cell, m)) r"

definition expect_reachable :: "'w sdk_env \<Rightarrow> bytes \<Rightarrow> sdk_cell \<Rightarrow> 'w machine \<Rightarrow> (unit, unit, 'w) api" where
  "expect_reachable env name cell m = ignore_result (with_sdk_state (state_expect_reachable env name) cell m)"

definition declare_reachable :: "'w sdk_env \<Rightarrow> bytes \<Rightarrow> sdk_cell \<Rightarrow> 'w machine \<Rightarrow> (unit, unit, 'w) api" where
  "declare_reachable env name cell m = ignore_result (with_sdk_state (state_declare_reachable env name) cell m)"

definition coverage_beacon :: "'w sdk_env \<Rightarrow> u32 \<Rightarrow> sdk_cell \<Rightarrow> 'w machine \<Rightarrow> (unit, unit, 'w) api" where
  "coverage_beacon env k cell m = ignore_result (with_sdk_state (state_coverage_beacon env k) cell m)"

definition log_line :: "'w sdk_env \<Rightarrow> log_level \<Rightarrow> bytes \<Rightarrow> sdk_cell \<Rightarrow> 'w machine \<Rightarrow> (unit, unit, 'w) api" where
  "log_line env level msg cell m = ignore_result (with_sdk_state (state_log_line env level msg) cell m)"

definition frame_mark :: "'w sdk_env \<Rightarrow> sdk_cell \<Rightarrow> 'w machine \<Rightarrow> (unit, unit, 'w) api" where
  "frame_mark env cell m = ignore_result (with_sdk_state (state_frame_mark env) cell m)"

definition quiesce_check :: "'w sdk_env \<Rightarrow> sdk_cell \<Rightarrow> 'w machine \<Rightarrow> (unit, unit, 'w) api" where
  "quiesce_check env cell m = ignore_result (with_sdk_state (state_quiesce_check env) cell m)"

definition count_query :: "sdk_state \<Rightarrow> sdk_state" where
  "count_query state =
     (let st = ss_stats state; st = st\<lparr>st_inject_queries_total := saturating_add (st_inject_queries_total st) 1\<rparr>
      in state\<lparr>ss_stats := st, ss_stats_region := (ss_stats_region state)\<lparr>sr_inject_queries_total := st_inject_queries_total st\<rparr>\<rparr>)"

definition inject_point :: "'w sdk_env \<Rightarrow> bytes \<Rightarrow> sdk_cell \<Rightarrow> 'w machine \<Rightarrow> (unit, fault_decision, 'w) api" where
  "inject_point env name cell m =
     map_option (\<lambda>(r, cell, m). (bind_res r (\<lambda>d. Ok (case d of Some d \<Rightarrow> d | None \<Rightarrow> Proceed)), cell, m))
       (with_sdk_state (\<lambda>state. state_inject_point env name (count_query state)) cell m)"

definition poll_input :: "'w sdk_env \<Rightarrow> u8 \<Rightarrow> sdk_cell \<Rightarrow> 'w machine \<Rightarrow> u32" where
  "poll_input env port cell m = (case cell of Init state \<Rightarrow> PioState_poll_input env (ss_pio state) port m | _ \<Rightarrow> 0)"

definition stats :: "sdk_cell \<Rightarrow> sdk_stats" where
  "stats cell = (case cell of Init state \<Rightarrow> snapshot state | _ \<Rightarrow> SdkStats_default)"

definition register_region ::
  "'w sdk_env \<Rightarrow> bytes \<Rightarrow> u32 \<Rightarrow> u64 \<Rightarrow> u64 \<Rightarrow> region_flags \<Rightarrow> sdk_cell \<Rightarrow> 'w machine \<Rightarrow> (region_error, region_handle, 'w) api" where
  "register_region env name layout_version ptr len flags cell m =
     (case cell of
        Init self \<Rightarrow>
          map_option (\<lambda>(r, self, m). (r, if r = Panic then Poisoned else Init self, m))
            (state_register_region env name layout_version ptr len flags self m)
      | _ \<Rightarrow> Some (bind_res (validate_region name ptr len) (\<lambda>_. Err RegAgentUnavailable), cell, m))"

end
