(* ===== verification/Sdk_Spec.thy ===== *)
theory Sdk_Spec
  imports Sdk_State
begin

text \<open>
  What the workload API promises: \<open>emits h c\<close> lists the events that call \<open>c\<close> publishes after the calls
  \<open>h\<close>, with their class and flags, and the counters are counts over \<open>h\<close>. The refinement shows that the
  SDK of \<^verbatim>\<open>crates/detguest-sdk/src/lib.rs\<close>, on the channel page and against a serving host, publishes
  exactly those events in that order, droppable ones possibly left out, and that its statistics are
  the counts.
\<close>

section \<open>Specification\<close>

text \<open>\<open>CIntern\<close> is the name a region registration introduces.\<close>

datatype sdk_call =
    CAssert bool bytes bytes
  | CReachable bytes
  | CDeclare bytes
  | CBeacon u32
  | CLog log_level bytes
  | CFrame
  | CInject bytes
  | CIntern bytes

type_synonym item = "event_class \<times> u8 \<times> event_payload"

definition count :: "('a \<Rightarrow> bool) \<Rightarrow> 'a list \<Rightarrow> nat" where
  "count P xs = length (filter P xs)"

lemma count_simps [simp]: "count P [] = 0" "count P (xs @ ys) = count P xs + count P ys" "count P [x] = (if P x then 1 else 0)"
  by (simp_all add: count_def)

fun call_name :: "sdk_call \<Rightarrow> bytes list" where
  "call_name (CAssert _ n _) = [n]"
| "call_name (CReachable n) = [n]"
| "call_name (CDeclare n) = [n]"
| "call_name (CInject n) = [n]"
| "call_name (CIntern n) = [n]"
| "call_name _ = []"

fun is_assert :: "bool \<Rightarrow> bytes \<Rightarrow> sdk_call \<Rightarrow> bool" where
  "is_assert b n (CAssert b' n' _) \<longleftrightarrow> b' = b \<and> n' = n"
| "is_assert b n _ \<longleftrightarrow> False"

fun is_reachable :: "bytes \<Rightarrow> sdk_call \<Rightarrow> bool" where
  "is_reachable n (CReachable n') \<longleftrightarrow> n' = n"
| "is_reachable n _ \<longleftrightarrow> False"

fun counted_assert :: "bool \<Rightarrow> sdk_call \<Rightarrow> bool" where
  "counted_assert b (CAssert b' n _) \<longleftrightarrow> b' = b \<and> valid_name n"
| "counted_assert b _ \<longleftrightarrow> False"

fun reached_name :: "sdk_call \<Rightarrow> bytes list" where
  "reached_name (CReachable n) = (if valid_name n then [n] else [])"
| "reached_name _ = []"

fun is_inject :: "sdk_call \<Rightarrow> bool" where
  "is_inject (CInject _) \<longleftrightarrow> True"
| "is_inject _ \<longleftrightarrow> False"

fun is_query :: "sdk_call \<Rightarrow> bool" where
  "is_query (CInject n) \<longleftrightarrow> valid_name n"
| "is_query _ \<longleftrightarrow> False"

fun beacon_ids :: "sdk_call \<Rightarrow> u32 list" where
  "beacon_ids (CBeacon b) = [b]"
| "beacon_ids _ = []"

definition names :: "sdk_call list \<Rightarrow> bytes list" where
  "names h = firsts (filter valid_name (concat (map call_name h)))"

definition beacons :: "sdk_call list \<Rightarrow> u32 list" where
  "beacons h = concat (map beacon_ids h)"

definition reached :: "sdk_call list \<Rightarrow> bytes list" where
  "reached h = firsts (concat (map reached_name h))"

text \<open>The id of a name: its place among the names so far, or the next one.\<close>

definition name_index :: "bytes list \<Rightarrow> bytes \<Rightarrow> nat" where
  "name_index ns n = length (takeWhile (\<lambda>x. x \<noteq> n) ns)"

definition id_of :: "bytes list \<Rightarrow> bytes \<Rightarrow> u32" where
  "id_of ns n = of_nat (Suc (name_index ns n))"

definition introduces :: "bytes list \<Rightarrow> u8 \<Rightarrow> bytes \<Rightarrow> item list" where
  "introduces ns flags n = (if n \<in> set ns then [] else [(Critical, flags, Ev_NameIntern (id_of ns n) n)])"

definition violation :: "u32 \<Rightarrow> nat \<Rightarrow> bytes \<Rightarrow> item list" where
  "violation k i details =
     (if i \<le> 16 then [(Critical, 0, Ev_AssertViolation k (of_nat i) details)]
      else if i = 17 then [(Critical, 0, Ev_AssertViolation k 17 suppressed_text)]
      else [])"

fun emits :: "sdk_call list \<Rightarrow> sdk_call \<Rightarrow> item list" where
  "emits h (CAssert b n d) =
     (if valid_name n
      then introduces (names h) 0 n @ (if b then [] else violation (id_of (names h) n) (Suc (count (is_assert False n) h)) d)
      else [])"
| "emits h (CReachable n) =
     (if valid_name n
      then introduces (names h) 0 n @ (if n \<in> set (reached h) then [] else [(Critical, 0, Ev_Reachable (id_of (names h) n))])
      else [])"
| "emits h (CDeclare n) = (if valid_name n then introduces (names h) FLAG_REACHABLE_DECL n else [])"
| "emits h (CIntern n) = (if valid_name n then introduces (names h) 0 n else [])"
| "emits h (CBeacon b) =
     (if beacon_slot b \<in> beacon_slot ` set (beacons h) then [] else [(Droppable, 0, Ev_Beacon (of_nat (beacon_slot b)))])"
| "emits h (CLog l msg) = [(Droppable, 0, Ev_LogLine STREAM_SDK_USER (LogLevel_as_u8 l) msg)]"
| "emits h CFrame = [(Critical, 0, Ev_FrameMark (of_nat (Suc (count (\<lambda>c. c = CFrame) h))))]"
| "emits h (CInject n) =
     (if valid_name n
      then introduces (names h) 0 n @ [(Critical, 0, Ev_InjectQuery (of_nat (Suc (count is_query h))) (id_of (names h) n))]
      else [])"

primrec emits_all :: "sdk_call list \<Rightarrow> sdk_call list \<Rightarrow> item list" where
  "emits_all h [] = []"
| "emits_all h (c # cs) = emits h c @ emits_all (h @ [c]) cs"

text \<open>The records published for a list of events: every critical one, in order, and some droppable ones.\<close>

inductive delivered :: "item list \<Rightarrow> bytes list \<Rightarrow> bool" where
  delivered_Nil: "delivered [] []"
| delivered_Cons: "delivered xs rs \<Longrightarrow> delivered ((class, extra, ev) # xs) (item_image seq (vn, extra, ev) # rs)"
| delivered_dropped: "delivered xs rs \<Longrightarrow> delivered ((Droppable, extra, ev) # xs) rs"

lemma delivered_append: "delivered xs rs \<Longrightarrow> delivered ys qs \<Longrightarrow> delivered (xs @ ys) (rs @ qs)"
  by (induction rule: delivered.induct) (auto intro: delivered.intros)

lemma delivered_one: "delivered [(class, extra, ev)] [item_image seq (vn, extra, ev)]"
  by (intro delivered.intros)

section \<open>Names and histories\<close>

lemma names_snoc:
  "names (h @ [c]) = (case call_name c of
     [n] \<Rightarrow> if valid_name n \<and> n \<notin> set (names h) then names h @ [n] else names h | _ \<Rightarrow> names h)"
  by (cases c) (auto simp: names_def firsts_snoc)

lemma names_distinct: "distinct (names h)" "list_all valid_name (names h)"
  by (simp_all add: names_def list_all_iff)

lemma reached_snoc:
  "reached (h @ [c]) = (case reached_name c of [n] \<Rightarrow> if n \<notin> set (reached h) then reached h @ [n] else reached h | _ \<Rightarrow> reached h)"
  by (cases c) (auto simp: reached_def firsts_snoc)

lemma reached_iff: "valid_name n \<Longrightarrow> n \<in> set (reached h) \<longleftrightarrow> 0 < count (is_reachable n) h"
proof (induction h rule: rev_induct)
  case (snoc c h)
  then show ?case by (cases c) (auto simp: reached_snoc)
qed (simp add: reached_def)

lemma unnamed_counts:
  assumes "valid_name n" and "n \<notin> set (names h)"
  shows "count (is_assert b n) h = 0" and "count (is_reachable n) h = 0"
proof -
  have "count (is_assert b n) h = 0 \<and> count (is_reachable n) h = 0"
    using assms
  proof (induction h rule: rev_induct)
    case (snoc c h)
    then show ?case by (cases c) (auto simp: names_snoc split: if_splits)
  qed simp
  then show "count (is_assert b n) h = 0" "count (is_reachable n) h = 0" by simp_all
qed

lemma name_index_nth: "n \<in> set ns \<Longrightarrow> name_index ns n < length ns \<and> ns ! name_index ns n = n"
proof -
  assume "n \<in> set ns"
  then have "dropWhile (\<lambda>x. x \<noteq> n) ns \<noteq> []" by (auto simp: dropWhile_eq_Nil_conv)
  moreover have "length (takeWhile (\<lambda>x. x \<noteq> n) ns) + length (dropWhile (\<lambda>x. x \<noteq> n) ns) = length ns"
    by (metis length_append takeWhile_dropWhile_id)
  ultimately have "length (takeWhile (\<lambda>x. x \<noteq> n) ns) < length ns" by (cases "dropWhile (\<lambda>x. x \<noteq> n) ns") auto
  then show ?thesis using nth_length_takeWhile [of "\<lambda>x. x \<noteq> n" ns] by (simp add: name_index_def)
qed

lemma name_index_new:
  assumes "n \<notin> set ns"
  shows "name_index ns n = length ns" and "name_index (ns @ [n]) n = length ns"
proof -
  have "\<And>x. x \<in> set ns \<Longrightarrow> x \<noteq> n" using assms by auto
  then show "name_index ns n = length ns" "name_index (ns @ [n]) n = length ns"
    by (simp_all add: name_index_def takeWhile_eq_all_conv [THEN iffD2] takeWhile_append2)
qed

lemma name_index_append: "n \<in> set ns \<Longrightarrow> name_index (ns @ ms) n = name_index ns n"
  by (simp add: name_index_def takeWhile_append1)

section \<open>Saturated counters\<close>

definition sat :: "nat \<Rightarrow> 'a::len word" where
  "sat n = of_nat (min n (2 ^ LENGTH('a) - 1))"

lemma unat_sat: "unat (sat n :: 'a::len word) = min n (2 ^ LENGTH('a) - 1)"
proof -
  have "(0 :: nat) < 2 ^ LENGTH('a)" by simp
  then have "min n (2 ^ LENGTH('a) - 1) < 2 ^ LENGTH('a)" by linarith
  then show ?thesis unfolding sat_def unat_of_nat by (rule mod_less)
qed

lemma sat_Suc [simp]: "saturating_add (sat n) 1 = sat (Suc n)"
  by (rule word_unat_eq_iff [THEN iffD2]) (simp add: unat_sat saturating_step del: unat_1)

lemma sat_0 [simp]: "sat 0 = 0"
  by (simp add: sat_def)

section \<open>A served channel\<close>

text \<open>
  The host behind the injection port and the frame counter: a port access may take records off ring W
  and answers; a store to the frame counter takes none.
\<close>

definition takes ::
  "mapped_channel \<Rightarrow> ('w \<Rightarrow> ring_mem \<Rightarrow> bool) \<Rightarrow> ('w \<Rightarrow> bytes list) \<Rightarrow> 'w \<times> bytes \<Rightarrow> 'w \<times> bytes \<Rightarrow> bool" where
  "takes self winv log x y \<longleftrightarrow>
     (\<forall>recs. winv (fst x) (ring_a self (snd x)) \<and> mapped self (snd x) \<and> ring_w self (snd x) recs \<longrightarrow>
        winv (fst y) (ring_a self (snd y)) \<and> mapped self (snd y)
        \<and> (\<exists>got recs'. recs = got @ recs' \<and> ring_w self (snd y) recs' \<and> log (fst y) = log (fst x) @ payload_records got))"

definition host_answers :: "'w sdk_env \<Rightarrow> mapped_channel \<Rightarrow> ('w \<Rightarrow> ring_mem \<Rightarrow> bool) \<Rightarrow> ('w \<Rightarrow> bytes list) \<Rightarrow> bool" where
  "host_answers env self winv log \<longleftrightarrow>
     (\<forall>v x. \<exists>y. e_out env PORT_INJECT v x = (Ok (), y) \<and> takes self winv log x y)
     \<and> (\<forall>x. \<exists>packed y. e_in env PORT_INJECT x = (Ok packed, y) \<and> takes self winv log x y)
     \<and> (\<forall>off v w a. winv w a \<longrightarrow> winv (e_mmio_write env off v w) a \<and> log (e_mmio_write env off v w) = log w)"

lemma host_answers_seq [simp]:
  "host_answers env (self\<lparr>mc_ring_w := (mc_ring_w self)\<lparr>pr_next_seq := q\<rparr>\<rparr>) = host_answers env self"
  by (simp add: host_answers_def [abs_def] takes_def [abs_def])

text \<open>
  The workload's view of a channel in service; with \<open>ans\<close>, the host also answers the injection port.
\<close>

definition live ::
  "bool \<Rightarrow> channel_header \<Rightarrow> 'w sdk_env \<Rightarrow> ('w \<Rightarrow> ring_mem \<Rightarrow> bool) \<Rightarrow> ('w \<Rightarrow> nat) \<Rightarrow> ('w \<Rightarrow> bytes list) \<Rightarrow> mapped_channel \<Rightarrow> 'w machine \<Rightarrow> bytes list \<Rightarrow> bool" where
  "live ans hdr env winv patience log c m strm \<longleftrightarrow> mc_header c = hdr \<and> host_serves env c winv patience log \<and> (ans \<longrightarrow> host_answers env c winv log)
     \<and> winv (m_world m) (ring_a c (m_page m)) \<and> published c log m strm"

lemma host_serves_takes:
  assumes "host_serves env self winv patience log" and "e_out env PORT_DOORBELL DOORBELL_RING_W x = (r, y)"
  shows "takes self winv log x y"
  unfolding takes_def
proof (intro allI impI, elim conjE)
  fix recs assume "winv (fst x) (ring_a self (snd x))" "mapped self (snd x)" "ring_w self (snd x) recs"
  then obtain w' page' got recs' where "e_out env PORT_DOORBELL DOORBELL_RING_W (fst x, snd x) = (Ok (), w', page')"
      "winv w' (ring_a self page')" "mapped self page'" "recs = got @ recs'" "ring_w self page' recs'" "log w' = log (fst x) @ payload_records got"
    using assms(1) unfolding host_serves_def by blast
  moreover from this have "y = (w', page')" using assms(2) by simp
  ultimately show "winv (fst y) (ring_a self (snd y)) \<and> mapped self (snd y)
      \<and> (\<exists>got recs'. recs = got @ recs' \<and> ring_w self (snd y) recs' \<and> log (fst y) = log (fst x) @ payload_records got)"
    by auto
qed

lemma live_vnanos [simp]: "live ans hdr env winv patience log c (m\<lparr>m_vnanos := v\<rparr>) strm = live ans hdr env winv patience log c m strm"
  by (simp add: live_def published_def)

lemma live_port:
  assumes "live ans hdr env winv patience log c m strm" and "takes c winv log (m_world m, m_page m) (w, page)"
  shows "live ans hdr env winv patience log c (m\<lparr>m_world := w, m_page := page\<rparr>) strm"
  using assms by (fastforce simp: live_def published_def takes_def)

lemma sdk_emit_critical:
  assumes l: "live ans hdr env winv patience log (ss_channel s) m strm" and x: "event_encodable ev" "ev \<noteq> Ev_Pad"
  shows "\<exists>c m' rs. sdk_emit env extra ev Critical s m = Some (Ok (), s\<lparr>ss_channel := c\<rparr>, m')
     \<and> live ans hdr env winv patience log c m' (strm @ rs) \<and> delivered [(Critical, extra, ev)] rs"
proof -
  let ?m = "m\<lparr>m_vnanos := m_vnanos m + 1\<rparr>"
  have ok: "event_item_ok (m_vnanos m, extra, ev)" using x by (simp add: event_item_ok_def)
  then have len: "\<not> encoded_event_len ev > MAX_RECORD_LEN"
    using event_ring.rlen_bounds [of "(m_vnanos m, extra, ev)"] by (simp add: event_item_ok_def)
  have "host_serves env (ss_channel s) winv patience log" "winv (m_world ?m) (ring_a (ss_channel s) (m_page ?m))" "published (ss_channel s) log ?m strm"
    using l by (simp_all add: live_def published_def)
  from emit_critical_ends [OF this(1) ok this(2,3)] obtain m' seq where e:
      "emit_critical env (encoded_event_len ev) (m_vnanos m) extra ev (ss_channel s) ?m
         = Some (Ok (), (ss_channel s)\<lparr>mc_ring_w := (mc_ring_w (ss_channel s))\<lparr>pr_next_seq := seq + 1\<rparr>\<rparr>, m')"
      "winv (m_world m') (ring_a (ss_channel s) (m_page m'))" "published (ss_channel s) log m' (strm @ [item_image seq (m_vnanos m, extra, ev)])" by auto
  then show ?thesis
    using l len delivered_one
    by (intro exI [of _ "(ss_channel s)\<lparr>mc_ring_w := (mc_ring_w (ss_channel s))\<lparr>pr_next_seq := seq + 1\<rparr>\<rparr>"] exI [of _ m']
          exI [of _ "[item_image seq (m_vnanos m, extra, ev)]"])
       (simp add: sdk_emit_def vnanos_def with_channel_def emit_w_event_def RingW_emit_def Let_def live_def)
qed

lemma sdk_emit_droppable:
  assumes l: "live ans hdr env winv patience log (ss_channel s) m strm" and x: "event_encodable ev" "ev \<noteq> Ev_Pad"
  shows "\<exists>c m' rs. sdk_emit env extra ev Droppable s m = Some (Ok (), s\<lparr>ss_channel := c\<rparr>, m')
     \<and> live ans hdr env winv patience log c m' (strm @ rs) \<and> delivered [(Droppable, extra, ev)] rs"
proof -
  let ?m = "m\<lparr>m_vnanos := m_vnanos m + 1\<rparr>" and ?c = "ss_channel s"
  have ok: "event_item_ok (m_vnanos m, extra, ev)" using x by (simp add: event_item_ok_def)
  then have len: "\<not> encoded_event_len ev > MAX_RECORD_LEN"
    using event_ring.rlen_bounds [of "(m_vnanos m, extra, ev)"] by (simp add: event_item_ok_def)
  obtain recs where r: "mapped ?c (m_page m)" "ring_w ?c (m_page m) recs" "strm = log (m_world m) @ payload_records recs"
    using l by (auto simp: live_def published_def)
  note c = sdk_push_cases [OF r(1,2) ok refl]
  show ?thesis
  proof (cases "sdk_push_event ?c (m_page m) (encoded_event_len ev) (m_vnanos m) extra ev = (Err RingFull, ?c, m_page m)")
    case True
    let ?m' = "?m\<lparr>m_page := drops_bump (event_kind_of ev) (encoded_event_len ev) (m_page m)\<rparr>"
    have h: "length (ch_ring_desc (mc_header ?c)) = 4" "ChannelHeader_validate (mc_header ?c) = Ok ()" "length (m_page m) = CHANNEL_SIZE"
      using r(1) by (simp_all add: mapped_def)
    have "mapped ?c (m_page ?m')" "ring_w ?c (m_page ?m') recs" "ring_a ?c (m_page ?m') = ring_a ?c (m_page m)"
      using r(1,2) drops_bump_reads(1) [OF h(3)] drops_bump_rings [OF h] by (simp_all add: mapped_def ring_w_def ring_a_def)
    then have "live ans hdr env winv patience log ?c ?m' strm" using l r(3) by (auto simp: live_def published_def)
    then show ?thesis using True len
      by (intro exI [of _ ?c] exI [of _ ?m'] exI [of _ "[]"])
         (simp add: sdk_emit_def vnanos_def with_channel_def emit_w_event_def RingW_emit_def Let_def delivered_Nil delivered_dropped)
  next
    case False
    then obtain seq page' ps where p: "sdk_push_event ?c (m_page m) (encoded_event_len ev) (m_vnanos m) extra ev
          = (Ok (), ?c\<lparr>mc_ring_w := (mc_ring_w ?c)\<lparr>pr_next_seq := seq + 1\<rparr>\<rparr>, page')"
        "mapped ?c page'" "ring_w ?c page' (recs @ ps @ [item_image seq (m_vnanos m, extra, ev)])" "list_all is_pad_record ps"
        "ring_a ?c page' = ring_a ?c (m_page m)"
      using c by (auto simp: ring_a_def split: if_splits)
    have "live ans hdr env winv patience log ?c (?m\<lparr>m_page := page'\<rparr>) (strm @ [item_image seq (m_vnanos m, extra, ev)])"
      using l p(2,3,5) payload_item [OF p(4) ok] r(3) by (auto simp: live_def published_def intro!: exI [of _ "recs @ ps @ [item_image seq (m_vnanos m, extra, ev)]"])
    then show ?thesis using p(1) len delivered_one
      by (intro exI [of _ "?c\<lparr>mc_ring_w := (mc_ring_w ?c)\<lparr>pr_next_seq := seq + 1\<rparr>\<rparr>"] exI [of _ "?m\<lparr>m_page := page'\<rparr>"]
            exI [of _ "[item_image seq (m_vnanos m, extra, ev)]"])
         (simp add: sdk_emit_def vnanos_def with_channel_def emit_w_event_def RingW_emit_def Let_def live_def)
  qed
qed

lemma live_doorbell:
  assumes "live ans hdr env winv patience log c m strm"
  shows "\<exists>m'. doorbell_w env m = (Ok (), m') \<and> live ans hdr env winv patience log c m' strm"
proof -
  obtain recs where r: "mapped c (m_page m)" "ring_w c (m_page m) recs" "strm = log (m_world m) @ payload_records recs"
    and h: "host_serves env c winv patience log" "winv (m_world m) (ring_a c (m_page m))"
    using assms by (auto simp: live_def published_def)
  obtain w' page' got recs' where d: "e_out env PORT_DOORBELL DOORBELL_RING_W (m_world m, m_page m) = (Ok (), w', page')"
      "winv w' (ring_a c page')" "mapped c page'" "recs = got @ recs'" "ring_w c page' recs'" "log w' = log (m_world m) @ payload_records got"
    using h r(1,2) unfolding host_serves_def by blast
  have "live ans hdr env winv patience log c (m\<lparr>m_world := w', m_page := page'\<rparr>) strm"
    using assms r d by (auto simp: live_def published_def)
  then show ?thesis using d(1) by (simp add: doorbell_w_def detcall_out_def)
qed

lemma sdk_emit_doorbell_critical:
  assumes l: "live ans hdr env winv patience log (ss_channel s) m strm" and x: "event_encodable ev" "ev \<noteq> Ev_Pad"
  shows "\<exists>c m' rs. sdk_emit_with_doorbell env extra ev Critical s m = Some (Ok (), s\<lparr>ss_channel := c\<rparr>, m')
     \<and> live ans hdr env winv patience log c m' (strm @ rs) \<and> delivered [(Critical, extra, ev)] rs"
proof -
  obtain c m1 rs where e: "sdk_emit env extra ev Critical s m = Some (Ok (), s\<lparr>ss_channel := c\<rparr>, m1)"
      "live ans hdr env winv patience log c m1 (strm @ rs)" "delivered [(Critical, extra, ev)] rs"
    using sdk_emit_critical [OF assms] by blast
  obtain m' where d: "doorbell_w env m1 = (Ok (), m')" "live ans hdr env winv patience log c m' (strm @ rs)"
    using live_doorbell [OF e(2)] by blast
  obtain c' where em: "emit_w_event env (m_vnanos m) extra ev Critical (ss_channel s) (m\<lparr>m_vnanos := m_vnanos m + 1\<rparr>) = Some (Ok (), c', m1)"
      "s\<lparr>ss_channel := c'\<rparr> = s\<lparr>ss_channel := c\<rparr>"
    using e(1) by (auto simp: sdk_emit_def vnanos_def with_channel_def)
  then have "c' = c" by (cases s) simp
  then show ?thesis
    using em(1) d e(3)
    by (intro exI [of _ c] exI [of _ m'] exI [of _ rs])
       (simp add: sdk_emit_with_doorbell_def vnanos_def with_channel_def emit_w_event_with_doorbell_def)
qed

section \<open>The name table\<close>

definition entry_counts :: "sdk_call list \<Rightarrow> sdk_intern_entry \<Rightarrow> bool" where
  "entry_counts h e \<longleftrightarrow> in_reachable_hits e = sat (count (is_reachable (in_name e)) h)
     \<and> in_assert_passes e = sat (count (is_assert True (in_name e)) h)
     \<and> in_assert_failures e = sat (count (is_assert False (in_name e)) h)"

definition table_rep :: "intern_table \<Rightarrow> bytes list \<Rightarrow> sdk_call list \<Rightarrow> bool" where
  "table_rep t ns h \<longleftrightarrow> intern_wf t \<and> intern_names t = ns \<and> list_all (entry_counts h) (it_entries t)"

definition add_name :: "bytes list \<Rightarrow> bytes \<Rightarrow> bytes list" where
  "add_name ns n = (if n \<in> set ns then ns else ns @ [n])"

lemma table_length: "table_rep t ns h \<Longrightarrow> length ns = length (it_entries t)"
  by (auto simp: table_rep_def intern_names_def)

lemma state_intern_rep:
  assumes l: "live ans hdr env winv patience log (ss_channel s) m strm"
    and t: "table_rep (ss_intern s) (names h) h" and n: "valid_name n" and room: "length (names h) < 2 ^ 32 - 2"
  shows "\<exists>t' c m' rs. state_intern_name env n extra s m
       = Some (Ok (Some (id_of (names h) n)), s\<lparr>ss_intern := t', ss_channel := c\<rparr>, m')
     \<and> table_rep t' (add_name (names h) n) h \<and> live ans hdr env winv patience log c m' (strm @ rs)
     \<and> delivered (introduces (names h) extra n) rs"
proof (cases "n \<in> set (names h)")
  case True
  let ?t = "ss_intern s" and ?i = "name_index (names h) n"
  have i: "?i < length (it_entries ?t)" "intern_names ?t ! ?i = n" and wf: "intern_wf ?t"
    using name_index_nth [OF True] table_length [OF t] t by (simp_all add: table_rep_def)
  have "s\<lparr>ss_intern := ss_intern s, ss_channel := ss_channel s\<rparr> = s" by simp
  then show ?thesis using intern_known [OF wf i] True l t
    by (intro exI [of _ "ss_intern s"] exI [of _ "ss_channel s"] exI [of _ m] exI [of _ "[]"])
       (simp add: state_intern_name_def introduces_def add_name_def delivered_Nil id_of_def del: of_nat_Suc)
next
  case False
  let ?t = "ss_intern s" and ?k = "of_nat (Suc (length (it_entries (ss_intern s)))) :: u32"
  have wf: "intern_wf ?t" and new: "n \<notin> set (intern_names ?t)" and len: "length (it_entries ?t) < 2 ^ 32 - 2"
    using t False room table_length [OF t] by (simp_all add: table_rep_def)
  note nw = intern_new [OF wf new n len]
  obtain t' where t': "intern n ?t = (Ok \<lparr>nm_id = ?k, nm_is_new = True\<rparr>, t')" "intern_names t' = intern_names ?t @ [n]" "intern_wf t'"
      "it_entries t' = it_entries ?t @ [\<lparr>in_name = n, in_id = ?k, in_reachable_hits = 0, in_assert_passes = 0, in_assert_failures = 0\<rparr>]"
    using nw by (metis prod.collapse)
  have k: "id_of (names h) n = ?k" using name_index_new(1) [OF False] table_length [OF t] by (simp add: id_of_def)
  have l': "live ans hdr env winv patience log (ss_channel (s\<lparr>ss_intern := t'\<rparr>)) m strm" using l by simp
  have "event_encodable (Ev_NameIntern ?k n)" using n by (simp add: valid_name_def)
  from sdk_emit_critical [OF l' this, where extra = extra] obtain c m' rs where e:
      "sdk_emit env extra (Ev_NameIntern ?k n) Critical (s\<lparr>ss_intern := t'\<rparr>) m = Some (Ok (), s\<lparr>ss_intern := t', ss_channel := c\<rparr>, m')"
      "live ans hdr env winv patience log c m' (strm @ rs)" "delivered [(Critical, extra, Ev_NameIntern ?k n)] rs" by auto
  have "table_rep t' (add_name (names h) n) h"
    using t t'(2-4) False unnamed_counts [OF n False] by (simp add: table_rep_def add_name_def entry_counts_def)
  then show ?thesis using e t'(1) False k
    by (intro exI [of _ t'] exI [of _ c] exI [of _ m'] exI [of _ rs])
       (simp add: state_intern_name_def introduces_def Let_def del: of_nat_Suc)
qed

lemma state_intern_refused: "\<not> valid_name n \<Longrightarrow> state_intern_name env n extra s m = Some (Ok None, s, m)"
  by (simp add: state_intern_name_def intern_invalid)

text \<open>One counter of one name grows; the call \<open>c\<close> counts for that name only.\<close>

lemma table_rep_bump:
  assumes t: "table_rep t ns h" and n: "n \<in> set ns"
    and keep: "\<And>e. in_name (f e) = in_name e" "\<And>e. in_id (f e) = in_id e"
    and bump: "\<And>e. in_name e = n \<Longrightarrow> entry_counts h e \<Longrightarrow> entry_counts (h @ [c]) (f e)"
    and other: "\<And>e. in_name e \<noteq> n \<Longrightarrow> entry_counts h e \<Longrightarrow> entry_counts (h @ [c]) e"
  shows "\<exists>e es. entry_mut (id_of ns n) f (it_entries t) = Some (f e, es) \<and> in_name e = n \<and> entry_counts h e
     \<and> table_rep (t\<lparr>it_entries := es\<rparr>) ns (h @ [c])"
proof -
  let ?i = "name_index ns n" and ?es = "it_entries t"
  have wf: "intern_wf t" and ns: "intern_names t = ns" and all: "list_all (entry_counts h) ?es"
    using t by (simp_all add: table_rep_def)
  have i: "?i < length ?es" "in_name (?es ! ?i) = n"
    using name_index_nth [OF n] table_length [OF t] ns by (auto simp: intern_names_def)
  note upd = intern_wf_update [OF wf i(1), of "f (?es ! ?i)", OF keep]
  have "entry_counts (h @ [c]) (?es[?i := f (?es ! ?i)] ! j)" if "j < length ?es" for j
  proof (cases "j = ?i")
    case True
    then show ?thesis using bump [OF i(2)] all i(1) by (simp add: list_all_length)
  next
    case False
    have "distinct (map in_name ?es)" using wf by (simp add: intern_wf_def intern_names_def)
    then have "in_name (?es ! j) \<noteq> n" using False i that nth_eq_iff_index_eq [of "map in_name ?es" j ?i] by auto
    then show ?thesis using other all that False by (simp add: list_all_length)
  qed
  then have "table_rep (t\<lparr>it_entries := ?es[?i := f (?es ! ?i)]\<rparr>) ns (h @ [c])"
    using upd ns by (simp add: table_rep_def list_all_length)
  then show ?thesis
    using entry_mut_wf [OF wf i(1), of f] i all by (auto simp: id_of_def list_all_length simp del: of_nat_Suc)
qed

lemma record_assert_rep:
  assumes "table_rep t ns h" and "n \<in> set ns"
  shows "\<exists>t'. record_assert (id_of ns n) b t
       = (Ok \<lparr>ac_pass_count = sat (count (is_assert True n) (h @ [CAssert b n d])),
              ac_fail_count = sat (count (is_assert False n) (h @ [CAssert b n d]))\<rparr>, t')
     \<and> table_rep t' ns (h @ [CAssert b n d])"
proof -
  let ?f = "\<lambda>e. if b then e\<lparr>in_assert_passes := saturating_add (in_assert_passes e) 1\<rparr>
                else e\<lparr>in_assert_failures := saturating_add (in_assert_failures e) 1\<rparr>"
  have "\<exists>e es. entry_mut (id_of ns n) ?f (it_entries t) = Some (?f e, es) \<and> in_name e = n \<and> entry_counts h e
      \<and> table_rep (t\<lparr>it_entries := es\<rparr>) ns (h @ [CAssert b n d])"
    by (rule table_rep_bump [OF assms]) (auto simp: entry_counts_def)
  then show ?thesis by (auto simp: record_assert_def entry_counts_def)
qed

lemma record_reachable_rep:
  assumes "table_rep t ns h" and "n \<in> set ns"
  shows "\<exists>t'. record_reachable (id_of ns n) t = (Ok (sat (Suc (count (is_reachable n) h))), t')
     \<and> table_rep t' ns (h @ [CReachable n])"
proof -
  let ?f = "\<lambda>e. e\<lparr>in_reachable_hits := saturating_add (in_reachable_hits e) 1\<rparr>"
  have "\<exists>e es. entry_mut (id_of ns n) ?f (it_entries t) = Some (?f e, es) \<and> in_name e = n \<and> entry_counts h e
      \<and> table_rep (t\<lparr>it_entries := es\<rparr>) ns (h @ [CReachable n])"
    by (rule table_rep_bump [OF assms]) (auto simp: entry_counts_def)
  then show ?thesis by (auto simp: record_reachable_def entry_counts_def)
qed

section \<open>Calls\<close>

definition stats_rep :: "sdk_state \<Rightarrow> sdk_call list \<Rightarrow> bool" where
  "stats_rep s h \<longleftrightarrow>
     ss_stats s = \<lparr>st_asserts_passed_total = sat (count (counted_assert True) h),
       st_asserts_failed_total = sat (count (counted_assert False) h),
       st_reachable_names = sat (length (reached h)), st_inject_queries_total = sat (count is_inject h)\<rparr>
     \<and> sr_stats_version (ss_stats_region s) = 1
     \<and> sr_asserts_passed_total (ss_stats_region s) = st_asserts_passed_total (ss_stats s)
     \<and> sr_asserts_failed_total (ss_stats_region s) = st_asserts_failed_total (ss_stats s)
     \<and> sr_reachable_names (ss_stats_region s) = st_reachable_names (ss_stats s)
     \<and> sr_inject_queries_total (ss_stats_region s) = st_inject_queries_total (ss_stats s)
     \<and> sr_beacon_counts (ss_stats_region s) = bc_counts (ss_beacons s)"

definition sdk_rep :: "sdk_state \<Rightarrow> sdk_call list \<Rightarrow> bool" where
  "sdk_rep s h \<longleftrightarrow> table_rep (ss_intern s) (names h) h \<and> beacon_rep (ss_beacons s) (beacons h)
     \<and> ss_frame_index s = of_nat (count (\<lambda>c. c = CFrame) h)
     \<and> ss_next_iseq s = of_nat (Suc (count is_query h)) \<and> stats_rep s h"

definition call_ok ::
  "channel_header \<Rightarrow> 'w sdk_env \<Rightarrow> ('w \<Rightarrow> ring_mem \<Rightarrow> bool) \<Rightarrow> ('w \<Rightarrow> nat) \<Rightarrow> ('w \<Rightarrow> bytes list) \<Rightarrow> bytes list \<Rightarrow> sdk_call list \<Rightarrow> sdk_call
    \<Rightarrow> ('e, 'a, 'w) run \<Rightarrow> bool" where
  "call_ok hdr env winv patience log strm h c r \<longleftrightarrow>
     (\<exists>x s m rs. r = Some (Ok x, s, m) \<and> sdk_rep s (h @ [c])
        \<and> live True hdr env winv patience log (ss_channel s) m (strm @ rs) \<and> delivered (emits h c) rs)"

lemma table_rep_other:
  assumes "table_rep t ns h" and "\<And>n. \<not> is_reachable n c" and "\<And>b n. \<not> is_assert b n c"
  shows "table_rep t ns (h @ [c])"
  using assms by (simp add: table_rep_def entry_counts_def [abs_def])

lemma names_named: "call_name c = [n] \<Longrightarrow> valid_name n \<Longrightarrow> names (h @ [c]) = add_name (names h) n"
  by (simp add: names_snoc add_name_def)

lemma names_unnamed: "call_name c = [] \<or> (\<exists>n. call_name c = [n] \<and> \<not> valid_name n) \<Longrightarrow> names (h @ [c]) = names h"
  by (auto simp: names_snoc)

lemma beacons_other: "beacon_ids c = [] \<Longrightarrow> beacons (h @ [c]) = beacons h"
  by (simp add: beacons_def)

lemma id_of_add: "id_of (add_name ns n) n = id_of ns n" "n \<in> set (add_name ns n)"
  by (auto simp: id_of_def add_name_def name_index_new)

lemma sat_limits:
  "(16 :: u32) < sat k \<longleftrightarrow> 16 < k" "sat k = (17 :: u32) \<longleftrightarrow> k = 17" "sat (Suc k) = (1 :: u32) \<longleftrightarrow> k = 0"
  by (auto simp: word_less_nat_alt word_unat_eq_iff unat_sat)

lemma sat_small: "k \<le> 17 \<Longrightarrow> (sat k :: u32) = of_nat k"
  by (simp add: sat_def)

lemma record_assert_region [simp]:
  "sr_stats_version (StatsRegion_record_assert k p f r) = sr_stats_version r"
  "sr_asserts_passed_total (StatsRegion_record_assert k p f r) = sr_asserts_passed_total r"
  "sr_asserts_failed_total (StatsRegion_record_assert k p f r) = sr_asserts_failed_total r"
  "sr_reachable_names (StatsRegion_record_assert k p f r) = sr_reachable_names r"
  "sr_inject_queries_total (StatsRegion_record_assert k p f r) = sr_inject_queries_total r"
  "sr_beacon_counts (StatsRegion_record_assert k p f r) = sr_beacon_counts r"
  by (simp_all add: StatsRegion_record_assert_def split: option.splits)

lemma record_reachable_region [simp]:
  "sr_stats_version (StatsRegion_record_reachable k n r) = sr_stats_version r"
  "sr_asserts_passed_total (StatsRegion_record_reachable k n r) = sr_asserts_passed_total r"
  "sr_asserts_failed_total (StatsRegion_record_reachable k n r) = sr_asserts_failed_total r"
  "sr_reachable_names (StatsRegion_record_reachable k n r) = sr_reachable_names r"
  "sr_inject_queries_total (StatsRegion_record_reachable k n r) = sr_inject_queries_total r"
  "sr_beacon_counts (StatsRegion_record_reachable k n r) = sr_beacon_counts r"
  by (simp_all add: StatsRegion_record_reachable_def split: option.splits)

lemma record_beacon_region [simp]:
  "sr_stats_version (record_beacon k r) = sr_stats_version r"
  "sr_asserts_passed_total (record_beacon k r) = sr_asserts_passed_total r"
  "sr_asserts_failed_total (record_beacon k r) = sr_asserts_failed_total r"
  "sr_reachable_names (record_beacon k r) = sr_reachable_names r"
  "sr_inject_queries_total (record_beacon k r) = sr_inject_queries_total r"
  by (simp_all add: record_beacon_def Let_def)

lemmas rep_simps = sdk_rep_def stats_rep_def names_named names_unnamed beacons_other reached_snoc

text \<open>A call with an over-long name changes nothing and publishes nothing.\<close>

lemma refused_rep:
  assumes "sdk_rep s h" and "call_name c = [n]" and "\<not> valid_name n" and "\<not> is_inject c"
  shows "sdk_rep s (h @ [c])" and "emits h c = []"
proof -
  have t: "table_rep (ss_intern s) (names h) h" using assms(1) by (simp add: sdk_rep_def)
  then have "\<forall>e \<in> set (it_entries (ss_intern s)). in_name e \<noteq> n"
    using assms(3) by (auto simp: table_rep_def intern_wf_def intern_names_def list_all_iff)
  then have "table_rep (ss_intern s) (names h) (h @ [c])"
    using t assms(2) by (cases c) (auto simp: table_rep_def entry_counts_def list_all_iff)
  then show "sdk_rep s (h @ [c])" using assms by (cases c) (auto simp: rep_simps)
  show "emits h c = []" using assms by (cases c) auto
qed

lemma call_ok_refused:
  assumes "live True hdr env winv patience log (ss_channel s) m strm" and "sdk_rep s h"
    and "call_name c = [n]" and "\<not> valid_name n" and "\<not> is_inject c"
  shows "call_ok hdr env winv patience log strm h c (Some (Ok x, s, m))"
  using assms(1) refused_rep [OF assms(2-5)] by (auto simp: call_ok_def delivered_Nil intro!: exI [of _ "[]"])

lemma declare_ok:
  assumes l: "live True hdr env winv patience log (ss_channel s) m strm" and r: "sdk_rep s h" and room: "length (names h) < 2 ^ 32 - 2"
  shows "call_ok hdr env winv patience log strm h (CDeclare n) (state_declare_reachable env n s m)"
    and "call_ok hdr env winv patience log strm h (CIntern n) (state_intern_name env n 0 s m)"
proof -
  have t: "table_rep (ss_intern s) (names h) h" using r by (simp add: sdk_rep_def)
  show "call_ok hdr env winv patience log strm h (CDeclare n) (state_declare_reachable env n s m)"
  proof (cases "valid_name n")
    case True
    from state_intern_rep [OF l t True room, of FLAG_REACHABLE_DECL] show ?thesis
      using r True by (force simp: call_ok_def state_declare_reachable_def rep_simps intro: table_rep_other)
  qed (auto simp: state_declare_reachable_def state_intern_refused intro!: call_ok_refused [OF l r, of _ n])
  show "call_ok hdr env winv patience log strm h (CIntern n) (state_intern_name env n 0 s m)"
  proof (cases "valid_name n")
    case True
    from state_intern_rep [OF l t True room, of 0] show ?thesis
      using r True by (force simp: call_ok_def rep_simps intro: table_rep_other)
  qed (auto simp: state_intern_refused intro!: call_ok_refused [OF l r, of _ n])
qed

lemma assert_pass_ok:
  assumes l: "live True hdr env winv patience log (ss_channel s) m strm" and r: "sdk_rep s h" and room: "length (names h) < 2 ^ 32 - 2"
  shows "call_ok hdr env winv patience log strm h (CAssert True n d) (state_assert_always env True n d s m)"
proof (cases "valid_name n")
  case True
  have t: "table_rep (ss_intern s) (names h) h" using r by (simp add: sdk_rep_def)
  obtain t' c m' rs where i: "state_intern_name env n 0 s m = Some (Ok (Some (id_of (names h) n)), s\<lparr>ss_intern := t', ss_channel := c\<rparr>, m')"
      "table_rep t' (add_name (names h) n) h" "live True hdr env winv patience log c m' (strm @ rs)" "delivered (introduces (names h) 0 n) rs"
    using state_intern_rep [OF l t True room] by blast
  obtain t'' where a: "record_assert (id_of (names h) n) True t' =
        (Ok \<lparr>ac_pass_count = sat (count (is_assert True n) (h @ [CAssert True n d])),
             ac_fail_count = sat (count (is_assert False n) (h @ [CAssert True n d]))\<rparr>, t'')"
      "table_rep t'' (add_name (names h) n) (h @ [CAssert True n d])"
    using record_assert_rep [OF i(2) id_of_add(2)] unfolding id_of_add(1) by blast
  show ?thesis
    using r True i a by (force simp: call_ok_def state_assert_always_def rep_simps Let_def)
qed (auto simp: state_assert_always_def state_intern_refused intro!: call_ok_refused [OF l r, of _ n])

text \<open>A failed assertion, after its name is known and the failure is counted: \<open>s'\<close> is the state that emits.\<close>

lemma assert_fail_ok:
  assumes l: "live True hdr env winv patience log (ss_channel s) m strm" and r: "sdk_rep s h" and room: "length (names h) < 2 ^ 32 - 2"
  shows "call_ok hdr env winv patience log strm h (CAssert False n d) (state_assert_always env False n d s m)"
proof (cases "valid_name n")
  case True
  let ?c = "CAssert False n d" and ?k = "Suc (count (is_assert False n) h)" and ?id = "id_of (names h) n"
  have t: "table_rep (ss_intern s) (names h) h" using r by (simp add: sdk_rep_def)
  obtain t' c m' rs where i: "state_intern_name env n 0 s m = Some (Ok (Some ?id), s\<lparr>ss_intern := t', ss_channel := c\<rparr>, m')"
      "table_rep t' (add_name (names h) n) h" "live True hdr env winv patience log c m' (strm @ rs)" "delivered (introduces (names h) 0 n) rs"
    using state_intern_rep [OF l t True room] by blast
  obtain t'' where a: "record_assert ?id False t' =
        (Ok \<lparr>ac_pass_count = sat (count (is_assert True n) (h @ [?c])), ac_fail_count = sat (count (is_assert False n) (h @ [?c]))\<rparr>, t'')"
      "table_rep t'' (add_name (names h) n) (h @ [?c])"
    using record_assert_rep [OF i(2) id_of_add(2)] unfolding id_of_add(1) by blast
  define s' where "s' = s\<lparr>ss_channel := c, ss_stats := (ss_stats s)\<lparr>st_asserts_failed_total := saturating_add (st_asserts_failed_total (ss_stats s)) 1\<rparr>,
      ss_intern := t'', ss_stats_region := StatsRegion_record_assert ?id (sat (count (is_assert True n) (h @ [?c]))) (sat ?k)
        ((ss_stats_region s)\<lparr>sr_asserts_failed_total := saturating_add (st_asserts_failed_total (ss_stats s)) 1\<rparr>)\<rparr>"
  have rep: "sdk_rep (s'\<lparr>ss_channel := x\<rparr>) (h @ [?c])" for x
    using r True a(2) by (simp add: s'_def rep_simps)
  have eq: "state_assert_always env False n d s m =
      (if 16 < ?k \<and> ?k \<noteq> 17 then Some (Ok (), s', m')
       else run_bind (sdk_emit env 0 (Ev_AssertViolation ?id (sat ?k) (if 16 < ?k then suppressed_text else d)) Critical s' m')
              (\<lambda>_ self m. Some (Ok (), self, m)))"
    using i(1) a(1) sat_limits(1,2) [of ?k] by (simp add: state_assert_always_def Let_def s'_def)
  have l': "live True hdr env winv patience log (ss_channel s') m' (strm @ rs)" using i(3) by (simp add: s'_def)
  show ?thesis
  proof (cases "16 < ?k \<and> ?k \<noteq> 17")
    case quiet: True
    then have "emits h ?c = introduces (names h) 0 n" using True by (simp add: violation_def)
    then show ?thesis using quiet eq rep [of "ss_channel s'"] l' i(4) by (auto simp: call_ok_def)
  next
    case False
    let ?ev = "Ev_AssertViolation ?id (sat ?k) (if 16 < ?k then suppressed_text else d)"
    obtain c2 m2 rs2 where e: "sdk_emit env 0 ?ev Critical s' m' = Some (Ok (), s'\<lparr>ss_channel := c2\<rparr>, m2)"
        "live True hdr env winv patience log c2 m2 ((strm @ rs) @ rs2)" "delivered [(Critical, 0, ?ev)] rs2"
      using sdk_emit_critical [OF l', of ?ev 0] by auto
    have "emits h ?c = introduces (names h) 0 n @ [(Critical, 0, ?ev)]"
      using True False sat_small [of ?k] by (auto simp: violation_def sat_limits)
    then show ?thesis using False eq e rep [of c2] delivered_append [OF i(4) e(3)] by (auto simp: call_ok_def)
  qed
qed (auto simp: state_assert_always_def state_intern_refused intro!: call_ok_refused [OF l r, of _ n])

lemma reachable_ok:
  assumes l: "live True hdr env winv patience log (ss_channel s) m strm" and r: "sdk_rep s h" and room: "length (names h) < 2 ^ 32 - 2"
  shows "call_ok hdr env winv patience log strm h (CReachable n) (state_expect_reachable env n s m)"
proof (cases "valid_name n")
  case True
  let ?c = "CReachable n" and ?k = "Suc (count (is_reachable n) h)" and ?id = "id_of (names h) n"
  have t: "table_rep (ss_intern s) (names h) h" using r by (simp add: sdk_rep_def)
  obtain t' c m' rs where i: "state_intern_name env n 0 s m = Some (Ok (Some ?id), s\<lparr>ss_intern := t', ss_channel := c\<rparr>, m')"
      "table_rep t' (add_name (names h) n) h" "live True hdr env winv patience log c m' (strm @ rs)" "delivered (introduces (names h) 0 n) rs"
    using state_intern_rep [OF l t True room] by blast
  obtain t'' where a: "record_reachable ?id t' = (Ok (sat ?k), t'')" "table_rep t'' (add_name (names h) n) (h @ [?c])"
    using record_reachable_rep [OF i(2) id_of_add(2)] unfolding id_of_add(1) by blast
  let ?region = "StatsRegion_record_reachable ?id (sat ?k) (ss_stats_region s)"
  show ?thesis
  proof (cases "n \<in> set (reached h)")
    case again: True
    then have k: "sat ?k \<noteq> (1 :: u32)" using reached_iff [OF True, of h] by (simp add: sat_limits)
    define s' where "s' = s\<lparr>ss_channel := c, ss_intern := t'', ss_stats_region := ?region\<rparr>"
    have "state_expect_reachable env n s m = Some (Ok (), s', m')"
      using i(1) a(1) k by (simp add: state_expect_reachable_def Let_def s'_def)
    moreover have "sdk_rep s' (h @ [?c])" using r True again a(2) by (simp add: s'_def rep_simps)
    ultimately show ?thesis using i(3,4) True again by (auto simp: call_ok_def s'_def)
  next
    case first: False
    then have k: "sat ?k = (1 :: u32)" using reached_iff [OF True, of h] by (simp add: sat_limits)
    define st where "st = (ss_stats s)\<lparr>st_reachable_names := saturating_add (st_reachable_names (ss_stats s)) 1\<rparr>"
    define s' where "s' = s\<lparr>ss_channel := c, ss_intern := t'', ss_stats := st,
        ss_stats_region := ?region\<lparr>sr_reachable_names := st_reachable_names st\<rparr>\<rparr>"
    have l': "live True hdr env winv patience log (ss_channel s') m' (strm @ rs)" using i(3) by (simp add: s'_def)
    obtain c2 m2 rs2 where e: "sdk_emit env 0 (Ev_Reachable ?id) Critical s' m' = Some (Ok (), s'\<lparr>ss_channel := c2\<rparr>, m2)"
        "live True hdr env winv patience log c2 m2 ((strm @ rs) @ rs2)" "delivered [(Critical, 0, Ev_Reachable ?id)] rs2"
      using sdk_emit_critical [OF l', of "Ev_Reachable ?id" 0] by auto
    have "state_expect_reachable env n s m = Some (Ok (), s'\<lparr>ss_channel := c2\<rparr>, m2)"
      using i(1) a(1) k e(1) by (simp add: state_expect_reachable_def Let_def s'_def st_def)
    moreover have "sdk_rep (s'\<lparr>ss_channel := c2\<rparr>) (h @ [?c])" using r True first a(2) by (simp add: s'_def st_def rep_simps)
    ultimately show ?thesis using e(2) delivered_append [OF i(4) e(3)] True first by (auto simp: call_ok_def)
  qed
qed (auto simp: state_expect_reachable_def state_intern_refused intro!: call_ok_refused [OF l r, of _ n])

lemma beacon_ok:
  assumes l: "live True hdr env winv patience log (ss_channel s) m strm" and r: "sdk_rep s h"
  shows "call_ok hdr env winv patience log strm h (CBeacon b) (state_coverage_beacon env b s m)"
proof -
  let ?k = "of_nat (beacon_slot b) :: u32" and ?first = "beacon_slot b \<notin> beacon_slot ` set (beacons h)"
  have br: "beacon_rep (ss_beacons s) (beacons h)" and t: "table_rep (ss_intern s) (names h) (h @ [CBeacon b])"
    using r by (auto simp: sdk_rep_def intro: table_rep_other)
  obtain c' where hit: "hit b (ss_beacons s) = (\<lparr>bh_id = ?k, bh_first_hit = ?first\<rparr>, c')" "beacon_rep c' (beacons h @ [b])"
    using hit_rep [OF br, of b] by (metis prod.collapse)
  define s' where "s' = s\<lparr>ss_beacons := c', ss_stats_region := record_beacon ?k (ss_stats_region s)\<rparr>"
  have slot: "beacon_slot ?k = beacon_slot b" by (simp add: beacon_slot_def unat_of_nat)
  have "sr_beacon_counts (record_beacon ?k (ss_stats_region s)) = bc_counts (snd (hit ?k (ss_beacons s)))"
    using r by (intro record_beacon_counts) (simp add: sdk_rep_def stats_rep_def)
  also have "snd (hit ?k (ss_beacons s)) = c'"
    using hit(1) slot unfolding hit_def Let_def beacon_index beacon_slot_def by simp
  finally have rep: "sdk_rep (s'\<lparr>ss_channel := x\<rparr>) (h @ [CBeacon b])" for x
    using r t hit(2) by (simp add: s'_def rep_simps) (simp add: beacons_def)
  show ?thesis
  proof (cases ?first)
    case True
    have l': "live True hdr env winv patience log (ss_channel s') m strm" using l by (simp add: s'_def)
    obtain c2 m2 rs where e: "sdk_emit env 0 (Ev_Beacon ?k) Droppable s' m = Some (Ok (), s'\<lparr>ss_channel := c2\<rparr>, m2)"
        "live True hdr env winv patience log c2 m2 (strm @ rs)" "delivered [(Droppable, 0, Ev_Beacon ?k)] rs"
      using sdk_emit_droppable [OF l', of "Ev_Beacon ?k" 0] by auto
    have "state_coverage_beacon env b s m = Some (Ok (), s'\<lparr>ss_channel := c2\<rparr>, m2)"
      using hit(1) e(1) True by (simp add: state_coverage_beacon_def Let_def s'_def)
    then show ?thesis using e rep [of c2] True by (auto simp: call_ok_def)
  next
    case False
    then have "state_coverage_beacon env b s m = Some (Ok (), s', m)"
      using hit(1) by (simp add: state_coverage_beacon_def Let_def s'_def)
    then show ?thesis using rep [of "ss_channel s'"] l False
      by (auto simp: call_ok_def s'_def delivered_Nil intro!: exI [of _ "[]"])
  qed
qed

lemma log_ok:
  assumes l: "live True hdr env winv patience log (ss_channel s) m strm" and r: "sdk_rep s h"
  shows "call_ok hdr env winv patience log strm h (CLog lvl msg) (state_log_line env lvl msg s m)"
proof -
  have "table_rep (ss_intern s) (names h) (h @ [CLog lvl msg])" using r by (auto simp: sdk_rep_def intro: table_rep_other)
  then have "sdk_rep (s\<lparr>ss_channel := x\<rparr>) (h @ [CLog lvl msg])" for x using r by (simp add: rep_simps)
  then show ?thesis
    using sdk_emit_droppable [OF l, of "Ev_LogLine STREAM_SDK_USER (LogLevel_as_u8 lvl) msg" 0]
    by (force simp: call_ok_def state_log_line_def)
qed

lemma live_frame_counter:
  "live True hdr env winv patience log c m strm \<Longrightarrow> live True hdr env winv patience log c (write_frame_counter env p v m) strm"
  by (auto simp: live_def published_def host_answers_def write_frame_counter_def MappedMmio_write_u32_def split: option.split)

lemma frame_ok:
  assumes l: "live True hdr env winv patience log (ss_channel s) m strm" and r: "sdk_rep s h"
  shows "call_ok hdr env winv patience log strm h CFrame (state_frame_mark env s m)"
proof -
  let ?f = "ss_frame_index s + 1"
  define s' where "s' = s\<lparr>ss_frame_index := ?f\<rparr>"
  have "table_rep (ss_intern s) (names h) (h @ [CFrame])" using r by (auto simp: sdk_rep_def intro: table_rep_other)
  then have rep: "sdk_rep (s'\<lparr>ss_channel := x\<rparr>) (h @ [CFrame])" for x using r by (simp add: s'_def rep_simps)
  have l': "live True hdr env winv patience log (ss_channel s') m strm" using l by (simp add: s'_def)
  obtain c m' rs where e: "sdk_emit env 0 (Ev_FrameMark ?f) Critical s' m = Some (Ok (), s'\<lparr>ss_channel := c\<rparr>, m')"
      "live True hdr env winv patience log c m' (strm @ rs)" "delivered [(Critical, 0, Ev_FrameMark ?f)] rs"
    using sdk_emit_critical [OF l', of "Ev_FrameMark ?f" 0] by auto
  have "?f = of_nat (Suc (count (\<lambda>c. c = CFrame) h))" using r by (simp add: sdk_rep_def)
  moreover have "state_frame_mark env s m = Some (Ok (), s'\<lparr>ss_channel := c\<rparr>, write_frame_counter env (ss_pio s') ?f m')"
    using e(1) by (simp add: state_frame_mark_def Let_def s'_def)
  ultimately show ?thesis using rep [of c] live_frame_counter [OF e(2)] e(3) by (auto simp: call_ok_def add.commute)
qed

text \<open>The two port accesses of an injection point, on a live channel.\<close>

lemma live_inject_ports:
  assumes "live True hdr env winv patience log c m strm"
  shows "\<exists>m' packed m''. detcall_out env PORT_INJECT v m = (Ok (), m') \<and> detcall_in env PORT_INJECT m' = (Ok packed, m'')
     \<and> live True hdr env winv patience log c m'' strm"
proof -
  have ans: "host_answers env c winv log" using assms by (simp add: live_def)
  obtain w page where o: "e_out env PORT_INJECT v (m_world m, m_page m) = (Ok (), w, page)"
      "takes c winv log (m_world m, m_page m) (w, page)"
    using ans unfolding host_answers_def by (metis prod.exhaust)
  let ?m = "m\<lparr>m_world := w, m_page := page\<rparr>"
  obtain packed w2 page2 where i: "e_in env PORT_INJECT (m_world ?m, m_page ?m) = (Ok packed, w2, page2)"
      "takes c winv log (m_world ?m, m_page ?m) (w2, page2)"
    using ans unfolding host_answers_def by (metis prod.exhaust)
  show ?thesis
    using live_port [OF live_port [OF assms o(2)] i(2)] o(1) i(1) by (simp add: detcall_out_def detcall_in_def)
qed

lemma count_query_rep:
  assumes "sdk_rep s h"
  shows "table_rep (ss_intern (count_query s)) (names h) h" and "ss_channel (count_query s) = ss_channel s"
  using assms by (simp_all add: sdk_rep_def count_query_def Let_def)

lemma inject_ok:
  assumes l: "live True hdr env winv patience log (ss_channel s) m strm" and r: "sdk_rep s h" and room: "length (names h) < 2 ^ 32 - 2"
  shows "call_ok hdr env winv patience log strm h (CInject n) (state_inject_point env n (count_query s) m)"
proof (cases "valid_name n")
  case True
  let ?c = "CInject n" and ?id = "id_of (names h) n" and ?q = "ss_next_iseq s" and ?s = "count_query s"
  note t = count_query_rep [OF r]
  have l0: "live True hdr env winv patience log (ss_channel ?s) m strm" using l t(2) by simp
  obtain t' c m' rs where i: "state_intern_name env n 0 ?s m = Some (Ok (Some ?id), ?s\<lparr>ss_intern := t', ss_channel := c\<rparr>, m')"
      "table_rep t' (add_name (names h) n) h" "live True hdr env winv patience log c m' (strm @ rs)" "delivered (introduces (names h) 0 n) rs"
    using state_intern_rep [OF l0 t(1) True room] by blast
  define s' where "s' = ?s\<lparr>ss_intern := t', ss_channel := c, ss_next_iseq := ?q + 1\<rparr>"
  have "table_rep t' (add_name (names h) n) (h @ [?c])" using i(2) by (auto intro: table_rep_other)
  then have rep: "sdk_rep (s'\<lparr>ss_channel := x\<rparr>) (h @ [?c])" for x
    using r True by (simp add: s'_def rep_simps count_query_def Let_def)
  have l': "live True hdr env winv patience log (ss_channel s') m' (strm @ rs)" using i(3) by (simp add: s'_def)
  let ?ev = "Ev_InjectQuery ?q ?id"
  obtain c2 m2 rs2 where e: "sdk_emit_with_doorbell env 0 ?ev Critical s' m' = Some (Ok (), s'\<lparr>ss_channel := c2\<rparr>, m2)"
      "live True hdr env winv patience log c2 m2 ((strm @ rs) @ rs2)" "delivered [(Critical, 0, ?ev)] rs2"
    using sdk_emit_doorbell_critical [OF l', of ?ev 0] by auto
  obtain m3 packed m4 where p: "detcall_out env PORT_INJECT ?q m2 = (Ok (), m3)" "detcall_in env PORT_INJECT m3 = (Ok packed, m4)"
      "live True hdr env winv patience log c2 m4 ((strm @ rs) @ rs2)"
    using live_inject_ports [OF e(2)] by blast
  have "ss_next_iseq ?s = ?q" by (simp add: count_query_def Let_def)
  then have "state_inject_point env n ?s m = Some (Ok (FaultDecision_unpack packed), s'\<lparr>ss_channel := c2\<rparr>, m4)"
    using i(1) e(1) p(1,2) by (simp add: state_inject_point_def Let_def s'_def)
  moreover have "?q = of_nat (Suc (count is_query h))" using r by (simp add: sdk_rep_def)
  ultimately show ?thesis using rep [of c2] p(3) delivered_append [OF i(4) e(3)] True by (auto simp: call_ok_def)
next
  case False
  have "table_rep (ss_intern s) (names h) (h @ [CInject n])" using r by (auto simp: sdk_rep_def intro: table_rep_other)
  then have "sdk_rep (count_query s) (h @ [CInject n])" using r False by (simp add: rep_simps count_query_def Let_def)
  then show ?thesis using l False count_query_rep(2) [OF r]
    by (auto simp: call_ok_def state_inject_point_def state_intern_refused delivered_Nil intro!: exI [of _ "[]"])
qed

section \<open>The public API\<close>

fun perform :: "'w sdk_env \<Rightarrow> sdk_call \<Rightarrow> sdk_cell \<Rightarrow> 'w machine \<Rightarrow> (unit, unit, 'w) api" where
  "perform env (CAssert b n d) cell m = assert_always env None b n d cell m"
| "perform env (CReachable n) cell m = expect_reachable env n cell m"
| "perform env (CDeclare n) cell m = declare_reachable env n cell m"
| "perform env (CBeacon b) cell m = coverage_beacon env b cell m"
| "perform env (CLog l msg) cell m = log_line env l msg cell m"
| "perform env CFrame cell m = frame_mark env cell m"
| "perform env (CInject n) cell m = map_option (\<lambda>(r, x). (bind_res r (\<lambda>_. Ok ()), x)) (inject_point env n cell m)"
| "perform env (CIntern n) cell m = ignore_result (with_sdk_state (state_intern_name env n 0) cell m)"

primrec perform_all :: "'w sdk_env \<Rightarrow> sdk_call list \<Rightarrow> sdk_cell \<Rightarrow> 'w machine \<Rightarrow> (unit, unit, 'w) api" where
  "perform_all env [] cell m = Some (Ok (), cell, m)"
| "perform_all env (c # cs) cell m =
     Option.bind (perform env c cell m) (\<lambda>(r, cell, m). case r of Ok _ \<Rightarrow> perform_all env cs cell m | _ \<Rightarrow> Some (r, cell, m))"

lemma names_room: "length (names h) \<le> length h"
proof (induction h rule: rev_induct)
  case (snoc c h)
  then show ?case by (auto simp: names_snoc split: list.split)
qed (simp add: names_def)

lemma perform_ok:
  assumes l: "live True hdr env winv patience log (ss_channel s) m strm" and r: "sdk_rep s h" and room: "length h < 2 ^ 32 - 2"
  shows "\<exists>s' m' rs. perform env c (Init s) m = Some (Ok (), Init s', m') \<and> sdk_rep s' (h @ [c])
     \<and> live True hdr env winv patience log (ss_channel s') m' (strm @ rs) \<and> delivered (emits h c) rs"
proof -
  have n: "length (names h) < 2 ^ 32 - 2" using names_room [of h] room by simp
  note ops = assert_pass_ok [OF l r n] assert_fail_ok [OF l r n] reachable_ok [OF l r n] declare_ok [OF l r n]
    beacon_ok [OF l r] log_ok [OF l r] frame_ok [OF l r] inject_ok [OF l r n]
  note api = with_sdk_state_def ignore_result_def assert_always_def expect_reachable_def declare_reachable_def
    coverage_beacon_def log_line_def frame_mark_def inject_point_def
  show ?thesis
  proof (cases c)
    case (CAssert b n d)
    then show ?thesis using ops(1,2) by (cases b) (fastforce simp: call_ok_def api)+
  qed (use ops(3-) in \<open>fastforce simp: call_ok_def api\<close>)+
qed

lemma perform_all_ok:
  "live True hdr env winv patience log (ss_channel s) m strm \<Longrightarrow> sdk_rep s h \<Longrightarrow> length h + length cs < 2 ^ 32 - 1 \<Longrightarrow>
     \<exists>s' m' rs. perform_all env cs (Init s) m = Some (Ok (), Init s', m') \<and> sdk_rep s' (h @ cs)
     \<and> live True hdr env winv patience log (ss_channel s') m' (strm @ rs) \<and> delivered (emits_all h cs) rs"
proof (induction cs arbitrary: s m strm h)
  case Nil
  then show ?case by (auto simp: delivered_Nil intro!: exI [of _ "[]"])
next
  case (Cons c cs)
  have "length h < 2 ^ 32 - 2" using Cons.prems(3) by simp
  from perform_ok [OF Cons.prems(1,2) this] obtain s1 m1 rs1 where p: "perform env c (Init s) m = Some (Ok (), Init s1, m1)"
      "sdk_rep s1 (h @ [c])" "live True hdr env winv patience log (ss_channel s1) m1 (strm @ rs1)" "delivered (emits h c) rs1"
    by blast
  have "length (h @ [c]) + length cs < 2 ^ 32 - 1" using Cons.prems(3) by simp
  from Cons.IH [OF p(3,2) this] obtain s' m' rs where q: "perform_all env cs (Init s1) m1 = Some (Ok (), Init s', m')"
      "sdk_rep s' ((h @ [c]) @ cs)" "live True hdr env winv patience log (ss_channel s') m' ((strm @ rs1) @ rs)" "delivered (emits_all (h @ [c]) cs) rs"
    by blast
  show ?case using p(1) q delivered_append [OF p(4) q(4)]
    by (intro exI [of _ s'] exI [of _ m'] exI [of _ "rs1 @ rs"]) simp
qed

section \<open>Properties\<close>


definition fresh_state :: "mapped_channel \<Rightarrow> pio_state \<Rightarrow> sdk_state" where
  "fresh_state channel pio = \<lparr>ss_channel = channel, ss_pio = pio, ss_intern = InternTable_default,
     ss_beacons = BeaconCounters_default, ss_stats = StatsState_default,
     ss_stats_region = StatsRegion_default, ss_stats_region_handle = None,
     ss_frame_index = 0, ss_next_iseq = FIRST_ISEQ\<rparr>"

lemma fresh_rep: "sdk_rep (fresh_state channel pio) []"
proof -
  have "sr_beacon_counts StatsRegion_default = bc_counts BeaconCounters_default"
    by (simp add: StatsRegion_default_def BeaconCounters_default_def)
  then have "stats_rep (fresh_state channel pio) []"
    by (simp add: stats_rep_def fresh_state_def reached_def StatsState_default_def) (simp add: StatsRegion_default_def)
  moreover have "table_rep InternTable_default [] []"
    by (simp add: table_rep_def intern_wf_default) (simp add: InternTable_default_def intern_names_def)
  ultimately show ?thesis
    using beacon_rep_default by (simp add: sdk_rep_def fresh_state_def names_def beacons_def)
qed

lemma draining_env_answers: "host_answers (draining_env self) self (\<lambda>_ _. True) (\<lambda>w. w)"
proof -
  have "\<exists>y. e_out (draining_env self) PORT_INJECT v x = (Ok (), y) \<and> takes self (\<lambda>_ _. True) (\<lambda>w. w) x y" for v x
  proof -
    obtain w page where x: "x = (w, page)" by (rule prod.exhaust)
    obtain rs rm where "pop_all (unat (pr_size (mc_ring_w self))) \<lparr>co_size = pr_size (mc_ring_w self)\<rparr>
        (page_ring (mc_header self) page RingW) = (rs, rm)" by (rule prod.exhaust)
    then obtain y where xy: "x = (w, page)" "e_out (draining_env self) PORT_INJECT v x = (Ok (), y)"
      using x by (simp add: draining_env_def)
    then have "e_out (draining_env self) PORT_DOORBELL DOORBELL_RING_W (w, page) = (Ok (), y)"
      by (simp add: draining_env_def)
    then have "takes self (\<lambda>_ _. True) (\<lambda>w. w) x y"
      using host_serves_takes [OF draining_env_serves] xy(1) by simp
    then show ?thesis using xy(2) by blast
  qed
  moreover have "takes self (\<lambda>_ _. True) (\<lambda>w. w) x x" for x
    by (auto simp: takes_def intro: exI [of _ "[]"])
  ultimately show ?thesis by (auto simp: host_answers_def) (auto simp: draining_env_def)
qed

lemma demo_live:
  "live True ChannelHeader_canonical (draining_env demo_channel) (\<lambda>_ _. True) (\<lambda>_. 0) (\<lambda>w. w) demo_channel
     \<lparr>m_page = zero_page, m_vnanos = 1, m_client = False, m_world = []\<rparr> []"
  by (simp add: live_def draining_env_serves draining_env_answers demo_published) (simp add: demo_channel_def)


end
