(* ===== verification/Sdk_Host.thy ===== *)
theory Sdk_Host
  imports Sdk_Spec Host_Drain
begin

text \<open>
  Both ends of the channel together: the workload's SDK (\<^verbatim>\<open>crates/detguest-sdk\<close>) against the host library
  (\<^verbatim>\<open>crates/detguest-host\<close>). The hypervisor's exit handler is outside the sources; \<open>host_env\<close> is the one the
  host library is written for: on every port write it drains the rings, on a write to the injection
  port it then answers the query, and a read returns the answer. Guest memory is the channel page,
  held in the host crate's own mock memory for the duration of an exit.

  The theorems show that this host satisfies the contract the SDK's theorems assume, so that what the
  workload publishes is what the host receives, and that an injection point returns the decision the
  host's fault plan takes for the name the workload gave.
\<close>

section \<open>The host behind the ports\<close>

record 'p host_world =
  hw_ch :: "mock_guest_mem channel"
  hw_plan :: 'p
  hw_events :: "guest_event list"
  hw_eax :: u32

definition host_drain :: "'p host_world \<Rightarrow> bytes \<Rightarrow> 'p host_world \<times> bytes" where
  "host_drain w page =
     (case drain_events mock_ops ((hw_ch w)\<lparr>c_gm := page_mem page\<rparr>) [] of (r, ch, _) \<Rightarrow>
        (w\<lparr>hw_ch := ch, hw_events := hw_events w @ (case r of Ok es \<Rightarrow> es | _ \<Rightarrow> [])\<rparr>,
         case gm_read mock_ops (c_gm ch) (c_base ch) CHANNEL_SIZE of Ok page \<Rightarrow> page | _ \<Rightarrow> page))"

definition host_out :: "'p decider \<Rightarrow> u16 \<Rightarrow> u32 \<Rightarrow> 'p host_world \<times> bytes \<Rightarrow> 'p host_world \<times> bytes" where
  "host_out decide port v = (\<lambda>(w, page).
     case host_drain w page of (w, page) \<Rightarrow>
       if port = PORT_INJECT
       then (case answer decide (hw_plan w) (hw_ch w) v [] of (eax, plan, ch, _) \<Rightarrow>
               (w\<lparr>hw_eax := eax, hw_plan := plan, hw_ch := ch\<rparr>, page))
       else (w, page))"

definition host_env :: "'p decider \<Rightarrow> 'p host_world sdk_env" where
  "host_env decide = \<lparr>e_out = (\<lambda>port v x. (Ok (), host_out decide port v x)),
     e_in = (\<lambda>port (w, page). (Ok (hw_eax w), w, page)), e_spin = (\<lambda>x. x),
     e_mmio_read = (\<lambda>_ _. 0), e_mmio_write = (\<lambda>_ _ w. w),
     e_iopl = (\<lambda>_. True), e_map_pv_pad = (\<lambda>_. Ok ()), e_mmap = (\<lambda>_ _. Ok ()), e_mlock = (\<lambda>_ _ _. True),
     e_connect = (\<lambda>(w, page). (False, w, page)), e_send = (\<lambda>_ (w, page). (- 1, w, page)), e_recv = (\<lambda>_ (w, page). (None, w, page))\<rparr>"

section \<open>The host serves the workload\<close>

definition host_log :: "'p host_world \<Rightarrow> bytes list" where
  "host_log w = map ge_raw_record (filter (\<lambda>e. ge_ring e = RingW) (hw_events w))"

text \<open>
  The host is attached to the page with the canonical header, ring A is empty, and its name table is
  what the records it received bind.
\<close>

definition host_ok :: "'p host_world \<Rightarrow> ring_mem \<Rightarrow> bool" where
  "host_ok w a \<longleftrightarrow> c_header (hw_ch w) = ChannelHeader_canonical \<and> c_base (hw_ch w) = 0x10000000 \<and> ring_rep 0x10000 a []
     \<and> bt_wf (c_interns (hw_ch w)) \<and> bt_wf (c_pending_injects (hw_ch w))
     \<and> (\<forall>k. intern_name (hw_ch w) k = map_option from_utf8_lossy (map_of (List.map_filter binding_of (host_log w)) k))"

lemma fold_absorb_payload: "list_all good_record recs \<Longrightarrow> fold absorb recs ch = fold absorb (payload_records recs) ch"
proof (induction recs arbitrary: ch)
  case (Cons r recs)
  have "absorb r ch = ch" if pad: "is_pad_record r"
  proof -
    obtain hdr where "decode_event r = Ok (hdr, Ev_Pad)" using decode_pad [OF _ pad] Cons.prems by auto
    then show ?thesis by (simp add: absorb_def to_owned_def)
  qed
  then show ?case using Cons by simp
qed simp

lemma fold_absorb_wf:
  assumes "bt_wf (c_interns ch)" and "bt_wf (c_pending_injects ch)"
  shows "bt_wf (c_interns (fold absorb rs ch)) \<and> bt_wf (c_pending_injects (fold absorb rs ch))"
  using assms
proof (induction rs arbitrary: ch)
  case (Cons r rs)
  then show ?case using fold_payload_frame [of ch] 
    by (auto simp: absorb_def drain_frame_def split: res.splits option.splits)
qed simp

text \<open>The name table follows the records drained.\<close>

lemma tracks_step:
  assumes "bt_wf (c_interns ch)"
    and "\<forall>k. intern_name ch k = map_option from_utf8_lossy (map_of (List.map_filter binding_of log) k)"
  shows "intern_name (fold absorb rs ch) k = map_option from_utf8_lossy (map_of (List.map_filter binding_of (log @ rs)) k)"
  using fold_absorb_intern [OF assms(1), of rs k] assms(2)
  by (auto simp: map_filter_append map_add_def split: option.splits)

lemma pad_or_event:
  assumes "good_record r" and "decodable r"
  shows "event_of ring r = None \<longleftrightarrow> is_pad_record r"
    and "event_of ring r = Some e \<Longrightarrow> ge_ring e = ring \<and> ge_raw_record e = r"
proof -
  obtain hdr p where d: "decode_event r = Ok (hdr, p)" using assms(2) by (cases "decode_event r") (auto simp: decodable_def)
  have "is_pad_record r \<longleftrightarrow> p = Ev_Pad"
  proof
    show "p = Ev_Pad" if "is_pad_record r" using decode_pad [OF assms(1) that] d by simp
    assume p: "p = Ev_Pad"
    have k: "RecordHeader_read_from r = Ok hdr" "rh_kind hdr = EventKind_as_u8 EK_Pad"
      using decode_event_OkD [OF d] p by (auto simp: EventKind_from_u8_def EventKind_as_u8_def split: if_splits)
    then have "hdr = header_at r" by (simp add: read_from_Ok_iff)
    then show "is_pad_record r" using k(2) by (simp add: is_pad_record_def header_at_def)
  qed
  then show "event_of ring r = None \<longleftrightarrow> is_pad_record r"
    using d by (cases p) (simp_all add: event_of_def to_owned_def)
  show "event_of ring r = Some e \<Longrightarrow> ge_ring e = ring \<and> ge_raw_record e = r"
    using d by (auto simp: event_of_def)
qed

lemma drained_log:
  assumes "list_all good_record recs" and "list_all decodable recs"
  shows "map ge_raw_record (filter (\<lambda>e. ge_ring e = RingW) (List.map_filter (event_of RingW) recs)) = payload_records recs"
  using assms
proof (induction recs)
  case (Cons r recs)
  then show ?case using pad_or_event [of r RingW]
    by (cases "event_of RingW r") (auto simp: map_filter_simps)
qed (simp add: map_filter_simps)

text \<open>One drain inside an exit: everything queued on ring W reaches the host, and the ring is empty.\<close>

lemma host_drain_step:
  assumes h: "mc_header self = ChannelHeader_canonical" and w: "host_ok w (ring_a self page)"
    and m: "mapped self page" and q: "ring_w self page recs"
  shows "\<exists>w' page'. host_drain w page = (w', page') \<and> host_ok w' (ring_a self page') \<and> mapped self page' \<and> ring_w self page' []
     \<and> host_log w' = host_log w @ payload_records recs
     \<and> hw_ch w' = (fold absorb recs (hw_ch w))\<lparr>c_gm := c_gm (hw_ch w')\<rparr> \<and> hw_plan w' = hw_plan w \<and> hw_eax w' = hw_eax w"
proof -
  let ?h = ChannelHeader_canonical and ?ch = "(hw_ch w)\<lparr>c_gm := page_mem page\<rparr>"
  have len: "length page = CHANNEL_SIZE" using m by (simp add: mapped_def)
  have att: "attached mock_ops mock_inv ?ch page"
    using w page_mem_inv [OF len] page_mem_read [OF len] canonical_valid canonical_descs by (simp add: attached_def host_ok_def)
  have sz: "rd_size (Channel_ring_desc ?ch RingA) = 0x10000" "rd_size (Channel_ring_desc ?ch RingW) = 0x100000"
    using w by (simp_all add: Channel_ring_desc_def host_ok_def canonical_ring)
  have ra: "ring_rep 0x10000 (page_ring (c_header ?ch) page RingA) []"
    using w h by (simp add: host_ok_def ring_a_def)
  have rw: "ring_rep 0x100000 (page_ring (c_header ?ch) page RingW) recs" "list_all drainable recs" "list_all good_record recs" "list_all decodable recs"
    using q m h w decodable_drainable by (auto simp: ring_w_def mapped_def canonical_ring host_ok_def list_all_iff ring_rep_def)
  obtain gm page' where d: "drain_events mock_ops ?ch [] =
        (Ok (List.map_filter (event_of RingW) recs), (fold absorb recs ?ch)\<lparr>c_gm := gm\<rparr>,
         bumped RingW (page_ring (c_header ?ch) page RingW) recs)"
      "attached mock_ops mock_inv ((fold absorb recs ?ch)\<lparr>c_gm := gm\<rparr>) page'"
      "\<forall>r. page_ring (c_header ?ch) page' r =
          (let m = page_ring (c_header ?ch) page r in if r = RingA \<or> r = RingW then m\<lparr>rm_cons := rm_prod m\<rparr> else m)"
    using drain_events_rep [OF mock.guest_memory_axioms att refl refl, unfolded sz, OF ra _ rw(1,2), of "[]"]
    by (auto simp: bumped_def map_filter_simps)
  let ?ch' = "(fold absorb recs (hw_ch w))\<lparr>c_gm := gm\<rparr>"
  let ?w' = "w\<lparr>hw_ch := ?ch', hw_events := hw_events w @ List.map_filter (event_of RingW) recs\<rparr>"
  have ch': "(fold absorb recs ?ch)\<lparr>c_gm := gm\<rparr> = ?ch'" by (simp add: fold_absorb_gm)
  have frame: "c_header ?ch' = ?h" "c_base ?ch' = 0x10000000"
    using fold_absorb_frame [OF rw(2), of "hw_ch w"] w by (simp_all add: drain_frame_def host_ok_def)
  have "gm_read mock_ops (c_gm ?ch') (c_base ?ch') CHANNEL_SIZE = Ok page'" using d(2) unfolding ch' by (simp add: attached_def)
  then have "host_drain w page = (?w', page')" by (simp add: host_drain_def d(1) ch' [simplified])
  moreover have "mapped self page'"
    using m guest_memory.attached_length [OF mock.guest_memory_axioms d(2)] by (simp add: mapped_def)
  moreover have "ring_a self page' = (ring_a self page)\<lparr>rm_cons := rm_prod (ring_a self page)\<rparr>"
      "page_ring ?h page' RingW = (page_ring ?h page RingW)\<lparr>rm_cons := rm_prod (page_ring ?h page RingW)\<rparr>"
    using d(3) h w by (simp_all add: ring_a_def host_ok_def Let_def)
  moreover have "ring_rep 0x10000 ((ring_a self page)\<lparr>rm_cons := rm_prod (ring_a self page)\<rparr>) []"
    using w ring_rep_drained by (auto simp: host_ok_def)
  moreover have "ring_w self page' []"
    using calculation(4) q h by (auto simp: ring_w_def intro: ring_rep_drained)
  moreover have "host_log ?w' = host_log w @ payload_records recs"
    using drained_log [OF rw(3,4)] by (simp add: host_log_def)
  moreover have "bt_wf (c_interns ?ch')" "bt_wf (c_pending_injects ?ch')"
    using fold_absorb_wf [of "hw_ch w" recs] w by (simp_all add: host_ok_def)
  moreover have "intern_name ?ch' k = map_option from_utf8_lossy (map_of (List.map_filter binding_of (host_log w @ payload_records recs)) k)" for k
    using tracks_step [of "hw_ch w" "host_log w" "payload_records recs" k] w fold_absorb_payload [OF rw(3), of "hw_ch w"]
    by (simp add: host_ok_def intern_name_def)
  ultimately show ?thesis using frame by (intro exI [of _ ?w'] exI [of _ page']) (simp add: host_ok_def)
qed

lemma ring_w_good: "ring_w self page recs \<Longrightarrow> list_all good_record recs"
  by (simp add: ring_w_def ring_rep_def)

text \<open>Since \<open>w0\<close>, the host has only drained.\<close>

definition drained_since :: "'p host_world \<Rightarrow> 'p host_world \<Rightarrow> ring_mem \<Rightarrow> bool" where
  "drained_since w0 w a \<longleftrightarrow> host_ok w a \<and> hw_plan w = hw_plan w0 \<and>
     (\<exists>new. host_log w = host_log w0 @ new \<and> hw_ch w = (fold absorb new (hw_ch w0))\<lparr>c_gm := c_gm (hw_ch w)\<rparr>)"

lemma drained_since_refl: "host_ok w a \<Longrightarrow> drained_since w w a"
  by (auto simp: drained_since_def intro!: exI [of _ "[]"])

lemma drained_since_step:
  assumes "drained_since w0 w a" and "host_ok w' a'" and "hw_plan w' = hw_plan w"
    and "host_log w' = host_log w @ payload_records recs" and "list_all good_record recs"
    and "hw_ch w' = (fold absorb recs (hw_ch w))\<lparr>c_gm := c_gm (hw_ch w')\<rparr>"
  shows "drained_since w0 w' a'"
proof -
  obtain new where n: "host_log w = host_log w0 @ new" "hw_ch w = (fold absorb new (hw_ch w0))\<lparr>c_gm := c_gm (hw_ch w)\<rparr>"
    using assms(1) by (auto simp: drained_since_def)
  have "fold absorb recs (hw_ch w) = (fold absorb (new @ payload_records recs) (hw_ch w0))\<lparr>c_gm := c_gm (hw_ch w)\<rparr>"
    using arg_cong [OF n(2), of "fold absorb (payload_records recs)"] by (simp add: fold_absorb_payload [OF assms(5)] fold_absorb_gm)
  then have "hw_ch w' = (fold absorb (new @ payload_records recs) (hw_ch w0))\<lparr>c_gm := c_gm (hw_ch w')\<rparr>"
    using assms(6) by simp
  then show ?thesis using assms(1-4) n(1)
    by (auto simp: drained_since_def intro!: exI [of _ "new @ payload_records recs"])
qed

lemma doorbell_drains:
  "e_out (host_env decide) PORT_DOORBELL DOORBELL_RING_W (w, page) = (Ok (), host_drain w page)"
  by (simp add: host_env_def host_out_def split: prod.split)

lemma host_serves_env:
  assumes h: "mc_header self = ChannelHeader_canonical"
  shows "host_serves (host_env decide) self host_ok (\<lambda>_. 0) host_log"
    and "host_serves (host_env decide) self (drained_since w0) (\<lambda>_. 0) host_log"
proof -
  show "host_serves (host_env decide) self host_ok (\<lambda>_. 0) host_log"
    unfolding host_serves_def doorbell_drains
    using host_drain_step [OF h] by (fastforce intro!: exI [of _ "[]"])
  show "host_serves (host_env decide) self (drained_since w0) (\<lambda>_. 0) host_log"
    unfolding host_serves_def doorbell_drains
  proof (intro allI impI, elim conjE)
    fix w page recs assume a: "drained_since w0 w (ring_a self page)" "mapped self page" "ring_w self page recs"
    then have "host_ok w (ring_a self page)" by (simp add: drained_since_def)
    from host_drain_step [OF h this a(2,3)] obtain w' page' where d: "host_drain w page = (w', page')"
        "host_ok w' (ring_a self page')" "mapped self page'" "ring_w self page' []" "host_log w' = host_log w @ payload_records recs"
        "hw_ch w' = (fold absorb recs (hw_ch w))\<lparr>c_gm := c_gm (hw_ch w')\<rparr>" "hw_plan w' = hw_plan w" by blast
    have "drained_since w0 w' (ring_a self page')"
      using drained_since_step [OF a(1) d(2,7,5) ring_w_good [OF a(3)] d(6)] .
    then show "\<exists>w' page' got recs'. (Ok (), host_drain w page) = (Ok (), w', page') \<and> drained_since w0 w' (ring_a self page')
        \<and> mapped self page' \<and> recs = got @ recs' \<and> ring_w self page' recs'
        \<and> host_log w' = host_log w @ payload_records got \<and> (recs' = [] \<or> (0 :: nat) < 0)"
      using d(1,3,4,5) by (intro exI [of _ w'] exI [of _ page'] exI [of _ recs] exI [of _ "[]"]) simp
  qed
qed

lemma answer_frame:
  "answer decide plan ch v sink = (eax, plan', ch', sink') \<Longrightarrow>
     c_header ch' = c_header ch \<and> c_base ch' = c_base ch \<and> c_interns ch' = c_interns ch
     \<and> (bt_wf (c_pending_injects ch) \<longrightarrow> bt_wf (c_pending_injects ch'))"
  by (auto simp: bt_wf_remove answer_def take_pending_inject_def Let_def split: prod.splits option.splits)

lemma host_answers_env:
  assumes h: "mc_header self = ChannelHeader_canonical"
  shows "host_answers (host_env decide) self host_ok host_log"
proof -
  have out: "takes self host_ok host_log x (host_out decide PORT_INJECT v x)" for v x
    unfolding takes_def
  proof (intro allI impI, elim conjE)
    fix recs assume a: "host_ok (fst x) (ring_a self (snd x))" "mapped self (snd x)" "ring_w self (snd x) recs"
    from host_drain_step [OF h this] obtain w' page' where d: "host_drain (fst x) (snd x) = (w', page')"
        "host_ok w' (ring_a self page')" "mapped self page'" "ring_w self page' []" "host_log w' = host_log (fst x) @ payload_records recs"
      by blast
    obtain eax plan ch sink where an: "answer decide (hw_plan w') (hw_ch w') v [] = (eax, plan, ch, sink)" by (rule prod_cases4)
    have "host_out decide PORT_INJECT v x = (w'\<lparr>hw_eax := eax, hw_plan := plan, hw_ch := ch\<rparr>, page')"
      using d(1) an by (simp add: host_out_def split_def)
    then show "host_ok (fst (host_out decide PORT_INJECT v x)) (ring_a self (snd (host_out decide PORT_INJECT v x)))
        \<and> mapped self (snd (host_out decide PORT_INJECT v x))
        \<and> (\<exists>got recs'. recs = got @ recs' \<and> ring_w self (snd (host_out decide PORT_INJECT v x)) recs'
          \<and> host_log (fst (host_out decide PORT_INJECT v x)) = host_log (fst x) @ payload_records got)"
      using d(2-) answer_frame [OF an]
      by (simp add: host_ok_def host_log_def intern_name_def del: ex_simps) (intro exI [of _ recs] exI [of _ "[]"], simp)
  qed
  have same: "takes self host_ok host_log x x" for x by (auto simp: takes_def intro: exI [of _ "[]"])
  have env: "e_out (host_env decide) PORT_INJECT v x = (Ok (), host_out decide PORT_INJECT v x)"
    "e_in (host_env decide) PORT_INJECT x = (Ok (hw_eax (fst x)), x)" "e_mmio_write (host_env decide) off v w = w" for v x off w
    by (cases x, simp add: host_env_def)+
  show ?thesis unfolding host_answers_def env using out same by blast
qed

section \<open>The names the workload announces\<close>

definition item_binding :: "item \<Rightarrow> (u32 \<times> bytes) option" where
  "item_binding x = (case snd (snd x) of Ev_NameIntern i n \<Rightarrow> Some (i, n) | _ \<Rightarrow> None)"

definition item_sound :: "item \<Rightarrow> bool" where
  "item_sound x \<longleftrightarrow> event_encodable (snd (snd x)) \<and> snd (snd x) \<noteq> Ev_Pad \<and> (fst x = Droppable \<longrightarrow> item_binding x = None)"

lemma binding_item:
  assumes "event_encodable ev" and "ev \<noteq> Ev_Pad"
  shows "binding_of (item_image seq (vn, extra, ev)) = item_binding (class, extra, ev)"
  using decode_event_image [OF assms(1), of seq vn extra "[]"]
  by (cases ev) (simp_all add: binding_of_def item_image_def item_binding_def)

lemma delivered_bindings:
  "delivered xs rs \<Longrightarrow> list_all item_sound xs \<Longrightarrow> List.map_filter binding_of rs = List.map_filter item_binding xs"
proof (induction rule: delivered.induct)
  case (delivered_Cons xs rs "class" extra ev seq vn)
  then show ?case using binding_item [of ev seq vn extra "class"] by (auto simp: item_sound_def split: option.splits)
qed (auto simp: item_sound_def)

definition numbered :: "bytes list \<Rightarrow> (u32 \<times> bytes) list" where
  "numbered ns = zip (map (\<lambda>i. of_nat (Suc i)) [0..<length ns]) ns"

lemma numbered_snoc: "numbered (ns @ [n]) = numbered ns @ [(of_nat (Suc (length ns)), n)]"
  by (simp add: numbered_def)

lemma introduces_numbered:
  "numbered (add_name ns n) = numbered ns @ (if n \<in> set ns then [] else [(id_of ns n, n)])"
  "List.map_filter item_binding (introduces ns extra n) = (if n \<in> set ns then [] else [(id_of ns n, n)])"
  "list_all item_sound (introduces ns extra n) \<longleftrightarrow> (n \<in> set ns \<or> valid_name n)"
  by (auto simp: add_name_def introduces_def numbered_snoc item_binding_def item_sound_def id_of_def name_index_new valid_name_def)

lemma emits_numbered:
  "numbered (names (h @ [c])) = numbered (names h) @ List.map_filter item_binding (emits h c) \<and> list_all item_sound (emits h c)"
proof (cases "call_name c")
  case Nil
  then have "names (h @ [c]) = names h" by (simp add: names_unnamed)
  then show ?thesis using Nil by (cases c) (auto simp: item_binding_def item_sound_def)
next
  case (Cons n ns)
  then have c: "call_name c = [n]" by (cases c) auto
  show ?thesis
  proof (cases "valid_name n")
    case True
    then show ?thesis
      using c by (cases c) (auto simp: names_named introduces_numbered map_filter_append violation_def item_binding_def item_sound_def)
  next
    case False
    then have "names (h @ [c]) = names h" using c by (simp add: names_unnamed)
    then show ?thesis using False c by (cases c) auto
  qed
qed

lemma emits_all_numbered:
  "numbered (names (h @ cs)) = numbered (names h) @ List.map_filter item_binding (emits_all h cs) \<and> list_all item_sound (emits_all h cs)"
proof (induction cs arbitrary: h)
  case (Cons c cs)
  then show ?case using emits_numbered [of h c] Cons.IH [of "h @ [c]"] by (simp add: map_filter_append)
qed simp

lemma numbered_lookup:
  assumes "n \<in> set ns" and "distinct ns" and "length ns < 2 ^ 32"
  shows "map_of (numbered ns) (id_of ns n) = Some n"
proof -
  let ?ks = "map (\<lambda>i. of_nat (Suc i)) [0..<length ns] :: u32 list" and ?i = "name_index ns n"
  have i: "?i < length ns" "ns ! ?i = n" using name_index_nth [OF assms(1)] by simp_all
  have "inj_on (\<lambda>i. of_nat (Suc i) :: u32) {0..<length ns}"
  proof (rule inj_onI)
    fix a b assume ab: "a \<in> {0..<length ns}" "b \<in> {0..<length ns}" and "of_nat (Suc a) = (of_nat (Suc b) :: u32)"
    then have "Suc a mod 2 ^ 32 = Suc b mod 2 ^ 32" using unat_of_nat [of "Suc a", where ?'a = 32] unat_of_nat [of "Suc b", where ?'a = 32] by simp
    then show "a = b" using ab assms(3) by (auto simp: mod_Suc split: if_splits)
  qed
  then have "distinct ?ks" by (simp add: distinct_map)
  then show ?thesis using map_of_zip_nth [of ?ks ns ?i] i by (simp add: numbered_def id_of_def del: of_nat_Suc)
qed

section \<open>Properties\<close>

text \<open>A workload attached to a host, with \<open>strm\<close> published so far.\<close>

definition connected :: "mapped_channel \<Rightarrow> 'p host_world machine \<Rightarrow> bytes list \<Rightarrow> bool" where
  "connected c m strm \<longleftrightarrow> mc_header c = ChannelHeader_canonical \<and> host_ok (m_world m) (ring_a c (m_page m)) \<and> published c host_log m strm"

lemma connected_live: "connected c m strm \<Longrightarrow> live True ChannelHeader_canonical (host_env decide) host_ok (\<lambda>_. 0) host_log c m strm"
  by (simp add: connected_def live_def host_serves_env host_answers_env)


text \<open>The answer to a query the host finds pending.\<close>

lemma answer_pending:
  assumes "bt_get (c_pending_injects ch) q = Some k" and "decide plan q k (intern_name ch k) = (d, plan')"
  shows "\<exists>ch' sink'. answer decide plan ch q sink = (FaultDecision_pack d, plan', ch', sink')"
proof -
  have "intern_name (ch\<lparr>c_pending_injects := x\<rparr>) k = intern_name ch k" for x by (simp add: intern_name_def)
  then show ?thesis using assms by (simp add: answer_def take_pending_inject_def)
qed

lemma absorb_query:
  assumes "bt_wf (c_pending_injects ch)"
  shows "bt_get (c_pending_injects (absorb (item_image seq (vn, extra, Ev_InjectQuery q k)) ch)) q = Some k"
    and "intern_name (absorb (item_image seq (vn, extra, Ev_InjectQuery q k)) ch) j = intern_name ch j"
  using decode_event_image [of "Ev_InjectQuery q k" seq vn extra "[]"] assms
  by (simp_all add: absorb_def item_image_def to_owned_def fold_payload_def bt_get_insert intern_name_def)

lemma delivered_critical_one: "delivered [(Critical, extra, ev)] rs \<Longrightarrow> \<exists>seq vn. rs = [item_image seq (vn, extra, ev)]"
  by (auto elim!: delivered.cases)

text \<open>The host at the answer: everything published up to and including the query has been absorbed.\<close>

lemma host_out_answers:
  assumes h: "mc_header c = ChannelHeader_canonical" and w0: "host_ok w0 a0" and since: "drained_since w0 w (ring_a c page)"
    and m: "mapped c page" and q: "ring_w c page recs"
    and all: "host_log w @ payload_records recs = strm @ [item_image seq (vn, extra, Ev_InjectQuery iseq k)]"
    and pre: "\<exists>mid. strm = host_log w0 @ mid"
    and name: "map_of (List.map_filter binding_of strm) k = Some n"
    and d: "decide (hw_plan w0) iseq k (Some (from_utf8_lossy n)) = (d, plan')"
  shows "\<exists>w' page'. host_out decide PORT_INJECT iseq (w, page) = (w', page') \<and> hw_eax w' = FaultDecision_pack d"
proof -
  let ?r = "item_image seq (vn, extra, Ev_InjectQuery iseq k)"
  obtain new where n: "host_ok w (ring_a c page)" "hw_plan w = hw_plan w0" "host_log w = host_log w0 @ new"
      "hw_ch w = (fold absorb new (hw_ch w0))\<lparr>c_gm := c_gm (hw_ch w)\<rparr>" using since by (auto simp: drained_since_def)
  obtain mid where mid: "strm = host_log w0 @ mid" using pre by blast
  from host_drain_step [OF h n(1) m q] obtain w1 page' where s1: "host_drain w page = (w1, page')" "host_ok w1 (ring_a c page')"
      "host_log w1 = host_log w @ payload_records recs"
      "hw_ch w1 = (fold absorb recs (hw_ch w))\<lparr>c_gm := c_gm (hw_ch w1)\<rparr>" "hw_plan w1 = hw_plan w" by blast
  have "drained_since w0 w1 (ring_a c page')"
    using drained_since_step [OF since s1(2,5,3) ring_w_good [OF q] s1(4)] .
  then obtain new' where n': "host_log w1 = host_log w0 @ new'" "hw_ch w1 = (fold absorb new' (hw_ch w0))\<lparr>c_gm := c_gm (hw_ch w1)\<rparr>"
    by (auto simp: drained_since_def)
  then have new': "new' = mid @ [?r]" using s1(3) all mid by simp
  let ?ch = "fold absorb mid (hw_ch w0)"
  have wf: "bt_wf (c_pending_injects ?ch)" using fold_absorb_wf [of "hw_ch w0" mid] w0 by (simp add: host_ok_def)
  have ch1: "c_pending_injects (hw_ch w1) = c_pending_injects (absorb ?r ?ch)" "c_interns (hw_ch w1) = c_interns (absorb ?r ?ch)"
    using arg_cong [OF n'(2), of c_pending_injects] arg_cong [OF n'(2), of c_interns] by (simp_all add: new')
  have pend: "bt_get (c_pending_injects (hw_ch w1)) iseq = Some k" unfolding ch1 by (rule absorb_query(1) [OF wf])
  have "intern_name (hw_ch w1) k = intern_name ?ch k"
    using absorb_query(2) [OF wf, of seq vn extra iseq k k] ch1(2) by (simp add: intern_name_def)
  also have "\<dots> = map_option from_utf8_lossy (map_of (List.map_filter binding_of strm) k)"
    using tracks_step [of "hw_ch w0" "host_log w0" mid k] w0 mid by (simp add: host_ok_def)
  finally have nm: "intern_name (hw_ch w1) k = Some (from_utf8_lossy n)" using name by simp
  have "hw_plan w1 = hw_plan w0" using s1(5) n(2) by simp
  from answer_pending [of "hw_ch w1" iseq k decide "hw_plan w0" d plan' "[]", OF pend] nm d this obtain ch' sink' where
    "answer decide (hw_plan w1) (hw_ch w1) iseq [] = (FaultDecision_pack d, plan', ch', sink')" by auto
  then show ?thesis using s1(1) by (simp add: host_out_def)
qed

lemma inject_step:
  assumes con: "connected (ss_channel s) m strm" and rep: "sdk_rep s h" and room: "length (names h) < 2 ^ 32 - 2"
    and n: "valid_name n" and bound: "List.map_filter binding_of strm = numbered (names h)"
    and d: "decide (hw_plan (m_world m)) (ss_next_iseq s) (id_of (names h) n) (Some (from_utf8_lossy n)) = (d, plan')"
  shows "\<exists>s' m'. inject_point (host_env decide) n (Init s) m = Some (Ok (FaultDecision_unpack (FaultDecision_pack d)), Init s', m')"
proof -
  let ?w0 = "m_world m" and ?env = "host_env decide" and ?s = "count_query s" and ?id = "id_of (names h) n" and ?q = "ss_next_iseq s"
  have h: "mc_header (ss_channel s) = ChannelHeader_canonical" and w0: "host_ok ?w0 (ring_a (ss_channel s) (m_page m))"
    using con by (simp_all add: connected_def)
  note t = count_query_rep [OF rep]
  have l0: "live False ChannelHeader_canonical ?env (drained_since ?w0) (\<lambda>_. 0) host_log (ss_channel ?s) m strm"
    using con t(2) drained_since_refl [OF w0] host_serves_env(2) [OF h] by (simp add: live_def connected_def)
  obtain t' c m' rs where i: "state_intern_name ?env n 0 ?s m = Some (Ok (Some ?id), ?s\<lparr>ss_intern := t', ss_channel := c\<rparr>, m')"
      "live False ChannelHeader_canonical ?env (drained_since ?w0) (\<lambda>_. 0) host_log c m' (strm @ rs)" "delivered (introduces (names h) 0 n) rs"
    using state_intern_rep [OF l0 t(1) n room, of 0] by blast
  define s1 where "s1 = ?s\<lparr>ss_intern := t', ss_channel := c, ss_next_iseq := ?q + 1\<rparr>"
  let ?ev = "Ev_InjectQuery ?q ?id"
  have l1: "live False ChannelHeader_canonical ?env (drained_since ?w0) (\<lambda>_. 0) host_log (ss_channel s1) m' (strm @ rs)" using i(2) by (simp add: s1_def)
  obtain c2 m2 rs2 where e: "sdk_emit_with_doorbell ?env 0 ?ev Critical s1 m' = Some (Ok (), s1\<lparr>ss_channel := c2\<rparr>, m2)"
      "live False ChannelHeader_canonical ?env (drained_since ?w0) (\<lambda>_. 0) host_log c2 m2 ((strm @ rs) @ rs2)" "delivered [(Critical, 0, ?ev)] rs2"
    using sdk_emit_doorbell_critical [OF l1, of ?ev 0] by auto
  have h2: "mc_header c2 = ChannelHeader_canonical" using e(2) by (simp add: live_def)
  obtain seq vn where rs2: "rs2 = [item_image seq (vn, 0, ?ev)]" using delivered_critical_one [OF e(3)] by blast
  obtain recs where r: "drained_since ?w0 (m_world m2) (ring_a c2 (m_page m2))" "mapped c2 (m_page m2)" "ring_w c2 (m_page m2) recs"
      "host_log (m_world m2) @ payload_records recs = (strm @ rs) @ [item_image seq (vn, 0, ?ev)]"
    using e(2) rs2 by (auto simp: live_def published_def)
  have pre: "\<exists>mid. strm @ rs = host_log ?w0 @ mid" using con by (auto simp: connected_def published_def)
  have "List.map_filter binding_of (strm @ rs) = numbered (add_name (names h) n)"
    using bound delivered_bindings [OF i(3)] n by (simp add: map_filter_append introduces_numbered)
  moreover have "distinct (add_name (names h) n)" "length (add_name (names h) n) < 2 ^ 32"
    using names_distinct(1) [of h] room by (auto simp: add_name_def)
  ultimately have nm: "map_of (List.map_filter binding_of (strm @ rs)) ?id = Some n"
    using numbered_lookup [OF id_of_add(2), of "names h" n] by (simp add: id_of_add(1))
  obtain w3 page3 where o: "host_out decide PORT_INJECT ?q (m_world m2, m_page m2) = (w3, page3)" "hw_eax w3 = FaultDecision_pack d"
    using host_out_answers [where decide = decide, OF h2 w0 r pre nm d] by blast
  let ?m3 = "m2\<lparr>m_world := w3, m_page := page3\<rparr>"
  have ports: "detcall_out ?env PORT_INJECT ?q m2 = (Ok (), ?m3)" "detcall_in ?env PORT_INJECT ?m3 = (Ok (FaultDecision_pack d), ?m3)"
    using o by (simp_all add: detcall_out_def detcall_in_def host_env_def)
  have "ss_next_iseq ?s = ?q" by (simp add: count_query_def Let_def)
  then have "state_inject_point ?env n ?s m = Some (Ok (FaultDecision_unpack (FaultDecision_pack d)), s1\<lparr>ss_channel := c2\<rparr>, ?m3)"
    using i(1) e(1) ports by (simp add: state_inject_point_def Let_def s1_def)
  then show ?thesis by (simp add: inject_point_def with_sdk_state_def)
qed

text \<open>
  C2. An injection point returns the decision of the host's fault plan: after any sequence of API
  calls of a fresh workload against a fresh host, an injection point with a valid name returns exactly
  the decision that the plan takes for the next query number, the id of that name and the name
  itself (in its lossy UTF-8 form), for every decision the packed word can carry.
\<close>

theorem inject_round_trip:
  assumes "connected c m []" and "length cs < 2 ^ 32 - 2" and "valid_name n"
    and "perform_all (host_env decide) cs (Init (fresh_state c pio)) m = Some (r, Init s, m1)"
    and "fst (decide (hw_plan (m_world m1)) (of_nat (Suc (count is_query cs))) (id_of (names cs) n) (Some (from_utf8_lossy n))) = d"
    and "fault_representable d"
  shows "\<exists>s' m2. inject_point (host_env decide) n (Init s) m1 = Some (Ok d, Init s', m2)"
proof -
  let ?s = "fresh_state c pio"
  have con: "connected (ss_channel ?s) m []" using assms(1) by (simp add: fresh_state_def)
  then have h: "mc_header (ss_channel ?s) = ChannelHeader_canonical" by (simp add: connected_def)
  have "length ([] :: sdk_call list) + length cs < 2 ^ 32 - 1" using assms(2) by simp
  from perform_all_ok [OF connected_live [OF con, of decide] fresh_rep this] obtain rs where p: "sdk_rep s cs"
      "live True ChannelHeader_canonical (host_env decide) host_ok (\<lambda>_. 0) host_log (ss_channel s) m1 rs" "delivered (emits_all [] cs) rs"
    using assms(4) by auto
  have "connected (ss_channel s) m1 rs" using p(2) by (simp add: connected_def live_def)
  moreover have "List.map_filter binding_of rs = numbered (names cs)"
    using delivered_bindings [OF p(3)] emits_all_numbered [of "[]" cs] by (simp add: names_def numbered_def)
  moreover have "length (names cs) < 2 ^ 32 - 2" using names_room [of cs] assms(2) by simp
  moreover have "ss_next_iseq s = of_nat (Suc (count is_query cs))" using p(1) by (simp add: sdk_rep_def)
  then obtain plan' where dec: "decide (hw_plan (m_world m1)) (ss_next_iseq s) (id_of (names cs) n) (Some (from_utf8_lossy n)) = (d, plan')"
    using assms(5) by (cases "decide (hw_plan (m_world m1)) (ss_next_iseq s) (id_of (names cs) n) (Some (from_utf8_lossy n))") auto
  ultimately show ?thesis
    using inject_step [where decide = decide and m = m1, OF _ p(1) _ assms(3) _ dec] fault_decision_round_trip [OF assms(6)] by simp
qed

definition demo_host :: "unit host_world machine" where
  "demo_host = \<lparr>m_page = zero_page, m_vnanos = 1, m_client = False,
     m_world = \<lparr>hw_ch = mock_channel zero_page, hw_plan = (), hw_events = [], hw_eax = 0\<rparr>\<rparr>"

lemma demo_connected: "connected demo_channel demo_host []"
proof -
  have "ring_size_ok 0x10000" by (simp add: ring_size_ok_def pow2_sizes)
  then have "ring_rep 0x10000 (ring_a demo_channel zero_page) []"
    using zero_page_ring [of RingA] by (simp add: ring_a_def demo_channel_def ring_rep_def canonical_ring)
  then have "host_ok (m_world demo_host) (ring_a demo_channel (m_page demo_host))"
    by (simp add: host_ok_def demo_host_def mock_channel_def fresh_channel_def bt_wf_def intern_name_def host_log_def)
  moreover have "published demo_channel host_log demo_host []"
    using demo_mapped by (auto simp: published_def demo_host_def host_log_def intro: exI [of _ "[]"])
  ultimately show ?thesis by (simp add: connected_def) (simp add: demo_channel_def)
qed


theorem inject_round_trip_witness:
  "\<exists>s' m2. inject_point (host_env (\<lambda>p _ _ _. (Workload 200 7, p))) [0x61] (Init (fresh_state demo_channel \<lparr>ps_pv_pad = None\<rparr>)) demo_host
     = Some (Ok (Workload 200 7), Init s', m2)"
  using inject_round_trip [OF demo_connected, of "[]" "[0x61]" "\<lambda>p _ _ _. (Workload 200 7, p)" "\<lparr>ps_pv_pad = None\<rparr>" "Ok ()"
      "fresh_state demo_channel \<lparr>ps_pv_pad = None\<rparr>" demo_host "Workload 200 7"]
  by (simp add: valid_name_def fault_representable_def)

end
