(* ===== verification/Agent_Monad.thy ===== *)
theory Agent_Monad
  imports Prelude
begin

text \<open>
  Actions of the agent. An action runs on a state and returns a result with the new state, or \<open>None\<close>
  when a waiting loop inside it never ends; errors and panics stop a sequence of actions and keep the
  state reached. \<open>ends\<close> is total correctness: the action returns normally and its result and final
  state satisfy the postcondition. Its rules let the proofs about the agent's handlers follow the code
  step by step.
\<close>

section \<open>Actions\<close>

type_synonym ('s, 'e, 'a) act = "'s \<Rightarrow> (('e, 'a) res \<times> 's) option"

definition return :: "'a \<Rightarrow> ('s, 'e, 'a) act" where
  "return a = (\<lambda>s. Some (Ok a, s))"

definition fail :: "'e \<Rightarrow> ('s, 'e, 'a) act" where
  "fail e = (\<lambda>s. Some (Err e, s))"

definition act_bind :: "('s, 'e, 'a) act \<Rightarrow> ('a \<Rightarrow> ('s, 'e, 'b) act) \<Rightarrow> ('s, 'e, 'b) act" where
  "act_bind f g = (\<lambda>s.
     case f s of
       None \<Rightarrow> None
     | Some (r, s) \<Rightarrow> (case r of Ok a \<Rightarrow> g a s | Err e \<Rightarrow> Some (Err e, s) | Panic \<Rightarrow> Some (Panic, s)))"

definition gets :: "('s \<Rightarrow> 'a) \<Rightarrow> ('s, 'e, 'a) act" where
  "gets f = (\<lambda>s. Some (Ok (f s), s))"

definition modify :: "('s \<Rightarrow> 's) \<Rightarrow> ('s, 'e, unit) act" where
  "modify f = (\<lambda>s. Some (Ok (), f s))"

text \<open>A computation without effects, and the handling of its error in the action.\<close>

definition of_res :: "('e, 'a) res \<Rightarrow> ('s, 'e, 'a) act" where
  "of_res r = (\<lambda>s. Some (r, s))"

definition act_catch :: "('s, 'e, 'a) act \<Rightarrow> ('e \<Rightarrow> ('s, 'f, 'a) act) \<Rightarrow> ('s, 'f, 'a) act" where
  "act_catch f h = (\<lambda>s.
     case f s of
       None \<Rightarrow> None
     | Some (r, s) \<Rightarrow> (case r of Ok a \<Rightarrow> Some (Ok a, s) | Err e \<Rightarrow> h e s | Panic \<Rightarrow> Some (Panic, s)))"

text \<open>Running an action on a component of a larger state.\<close>

definition zoom :: "('t \<Rightarrow> 's) \<Rightarrow> ('s \<Rightarrow> 't \<Rightarrow> 't) \<Rightarrow> ('s, 'e, 'a) act \<Rightarrow> ('t, 'e, 'a) act" where
  "zoom get put f = (\<lambda>t. case f (get t) of None \<Rightarrow> None | Some (r, s) \<Rightarrow> Some (r, put s t))"

text \<open>A \<open>for\<close> loop over a list.\<close>

primrec for_each :: "'i list \<Rightarrow> ('i \<Rightarrow> ('s, 'e, unit) act) \<Rightarrow> ('s, 'e, unit) act" where
  "for_each [] f = return ()"
| "for_each (i # is) f = act_bind (f i) (\<lambda>_. for_each is f)"

primrec map_each :: "('i \<Rightarrow> ('s, 'e, 'a) act) \<Rightarrow> 'i list \<Rightarrow> ('s, 'e, 'a list) act" where
  "map_each f [] = return []"
| "map_each f (i # is) = act_bind (f i) (\<lambda>a. act_bind (map_each f is) (\<lambda>as. return (a # as)))"

text \<open>
  Updating a buffer in place: \<open>try_store\<close> turns a refusal into an error of the action, \<open>expect_store\<close>
  into a panic.
\<close>

definition try_store :: "'e \<Rightarrow> ('s \<Rightarrow> ('x, 's \<times> 'a) res) \<Rightarrow> ('s, 'e, 'a) act" where
  "try_store e f = (\<lambda>s. case f s of Ok (s', a) \<Rightarrow> Some (Ok a, s') | Err _ \<Rightarrow> Some (Err e, s) | Panic \<Rightarrow> Some (Panic, s))"

definition expect_store :: "('s \<Rightarrow> ('x, 's) res) \<Rightarrow> ('s, 'e, unit) act" where
  "expect_store f = (\<lambda>s. case f s of Ok s' \<Rightarrow> Some (Ok (), s') | _ \<Rightarrow> Some (Panic, s))"

section \<open>Total correctness\<close>

definition ends :: "('s, 'e, 'a) act \<Rightarrow> ('a \<Rightarrow> 's \<Rightarrow> bool) \<Rightarrow> 's \<Rightarrow> bool" where
  "ends f Q s \<longleftrightarrow> (\<exists>a s'. f s = Some (Ok a, s') \<and> Q a s')"

named_theorems ends_rules \<open>weakest preconditions of the action combinators\<close>

lemma ends_return [ends_rules]: "ends (return a) Q = Q a"
  by (rule ext) (simp add: ends_def return_def)

lemma ends_fail [ends_rules]: "ends (fail e) Q = (\<lambda>s. False)"
  by (rule ext) (simp add: ends_def fail_def)

lemma ends_bind [ends_rules]: "ends (act_bind f g) Q = ends f (\<lambda>a. ends (g a) Q)"
  by (rule ext) (auto simp: ends_def act_bind_def split: option.splits res.splits)

lemma ends_gets [ends_rules]: "ends (gets f) Q = (\<lambda>s. Q (f s) s)"
  by (rule ext) (simp add: ends_def gets_def)

lemma ends_modify [ends_rules]: "ends (modify f) Q = (\<lambda>s. Q () (f s))"
  by (rule ext) (simp add: ends_def modify_def)

lemma ends_of_res [ends_rules]: "ends (of_res r) Q = (\<lambda>s. \<exists>a. r = Ok a \<and> Q a s)"
  by (rule ext) (simp add: ends_def of_res_def)

lemma ends_catch [ends_rules]:
  "ends (act_catch f h) Q s \<longleftrightarrow> (case f s of
      None \<Rightarrow> False
    | Some (r, s') \<Rightarrow> (case r of Ok a \<Rightarrow> Q a s' | Err e \<Rightarrow> ends (h e) Q s' | Panic \<Rightarrow> False))"
  by (auto simp: ends_def act_catch_def split: option.splits res.splits)

lemma ends_if [ends_rules]: "ends (if b then f else g) Q = (if b then ends f Q else ends g Q)"
  by simp

lemma ends_zoom [ends_rules]: "ends (zoom get put f) Q = (\<lambda>t. ends f (\<lambda>a s. Q a (put s t)) (get t))"
  by (rule ext) (auto simp: ends_def zoom_def split: option.splits)

lemma ends_try_store [ends_rules]: "ends (try_store e f) Q = (\<lambda>s. \<exists>s' a. f s = Ok (s', a) \<and> Q a s')"
  by (rule ext) (auto simp: ends_def try_store_def split: res.splits)

lemma ends_expect_store [ends_rules]: "ends (expect_store f) Q = (\<lambda>s. \<exists>s'. f s = Ok s' \<and> Q () s')"
  by (rule ext) (auto simp: ends_def expect_store_def split: res.splits)

lemma ends_mono: "ends f P s \<Longrightarrow> (\<And>a s'. P a s' \<Longrightarrow> Q a s') \<Longrightarrow> ends f Q s"
  by (auto simp: ends_def)

lemma ends_conj: "ends f P s \<Longrightarrow> ends f Q s \<Longrightarrow> ends f (\<lambda>a s'. P a s' \<and> Q a s') s"
  by (auto simp: ends_def)

lemma ends_then: "ends f P s \<Longrightarrow> (\<And>a s'. P a s' \<Longrightarrow> ends (g a) Q s') \<Longrightarrow> ends (act_bind f g) Q s"
  by (auto simp: ends_bind intro: ends_mono)

text \<open>What a sequence that returned went through.\<close>

lemma bind_Ok:
  "act_bind f g s = Some (Ok b, s'') \<longleftrightarrow> (\<exists>a s'. f s = Some (Ok a, s') \<and> g a s' = Some (Ok b, s''))"
  by (auto simp: act_bind_def split: option.splits res.splits)

text \<open>A loop keeps an invariant that its body keeps.\<close>

lemma ends_for_each:
  assumes "\<And>i s. i \<in> set is \<Longrightarrow> I s \<Longrightarrow> ends (f i) (\<lambda>_. I) s" and "I s"
  shows "ends (for_each is f) (\<lambda>_. I) s"
  using assms
proof (induction "is" arbitrary: s)
  case Nil
  then show ?case by (simp add: ends_rules)
next
  case (Cons i "is")
  from Cons.prems have "ends (f i) (\<lambda>_. I) s" by simp
  then show ?case unfolding for_each.simps ends_bind by (rule ends_mono) (use Cons in simp)
qed

lemma ends_map_each:
  assumes "\<And>i s. i \<in> set is \<Longrightarrow> I s \<Longrightarrow> ends (f i) (\<lambda>_. I) s" and "I s"
  shows "ends (map_each f is) (\<lambda>as s. I s \<and> length as = length is) s"
  using assms
proof (induction "is" arbitrary: s)
  case (Cons i "is")
  have "ends (map_each f is) (\<lambda>as. ends (return (a # as)) (\<lambda>as s. I s \<and> length as = length (i # is))) q" if "I q" for a q
    using Cons.IH [OF Cons.prems(1) that] by (auto simp: ends_return elim!: ends_mono)
  moreover have "ends (f i) (\<lambda>_. I) s" using Cons.prems by simp
  ultimately show ?case unfolding map_each.simps ends_bind by (rule ends_mono [rotated])
qed (simp add: ends_rules)

text \<open>A loop over a list that also records what has been done.\<close>

lemma ends_for_each_trace:
  assumes "\<And>pre i rest s. is = pre @ i # rest \<Longrightarrow> I pre s \<Longrightarrow> ends (f i) (\<lambda>_. I (pre @ [i])) s" and "I [] s"
  shows "ends (for_each is f) (\<lambda>_. I is) s"
proof -
  have "is = pre @ js \<Longrightarrow> I pre s \<Longrightarrow> ends (for_each js f) (\<lambda>_. I is) s" for pre js s
  proof (induction js arbitrary: pre s)
    case Nil
    then show ?case by (simp add: ends_rules)
  next
    case (Cons i js)
    then have "ends (f i) (\<lambda>_. I (pre @ [i])) s" using assms(1) by blast
    then show ?case unfolding for_each.simps ends_bind by (rule ends_mono) (use Cons in simp)
  qed
  from this [of "[]" "is" s] assms(2) show ?thesis by simp
qed

end
