(* ===== verification/Agent_Toml.thy ===== *)
theory Agent_Toml
  imports Btree_Map "HOL-Library.List_Lexorder"
begin

text \<open>
  The TOML subset of the boot configuration: module \<open>tiny\<close> of \<^verbatim>\<open>crates/detguest-agent/src/boot.rs\<close>. A \<open>str\<close> is
  its list of scalar values; lines, trimming and integer parsing follow the standard library. Error
  texts are the constructors of \<open>toml_error\<close>. A mutable reference into the tree is a function on the
  table it points to, so \<open>navigate\<close> takes the update that its caller makes.
\<close>

section \<open>Strings\<close>

type_synonym uchar = nat
type_synonym ustr = "uchar list"

definition lit :: "string \<Rightarrow> ustr" where
  "lit s = map of_char s"

definition is_whitespace :: "uchar \<Rightarrow> bool" where
  "is_whitespace c \<longleftrightarrow> 9 \<le> c \<and> c \<le> 13 \<or> c = 0x20 \<or> c = 0x85 \<or> c = 0xA0 \<or> c = 0x1680 \<or> 0x2000 \<le> c \<and> c \<le> 0x200A
     \<or> c = 0x2028 \<or> c = 0x2029 \<or> c = 0x202F \<or> c = 0x205F \<or> c = 0x3000"

definition trim_start :: "ustr \<Rightarrow> ustr" where
  "trim_start s = dropWhile is_whitespace s"

definition trim :: "ustr \<Rightarrow> ustr" where
  "trim s = rev (dropWhile is_whitespace (rev (trim_start s)))"

definition strip_prefix :: "ustr \<Rightarrow> ustr \<Rightarrow> ustr option" where
  "strip_prefix p s = (if take (length p) s = p then Some (drop (length p) s) else None)"

definition strip_suffix :: "ustr \<Rightarrow> ustr \<Rightarrow> ustr option" where
  "strip_suffix p s = map_option rev (strip_prefix (rev p) (rev s))"

text \<open>\<open>split\<close> on a character, and \<open>lines\<close>: a final newline opens no line, a carriage return belongs to its newline.\<close>

fun split_on :: "uchar \<Rightarrow> ustr \<Rightarrow> ustr list" where
  "split_on d [] = [[]]"
| "split_on d (c # cs) =
     (if c = d then [] # split_on d cs
      else case split_on d cs of [] \<Rightarrow> [[c]] | s # ss \<Rightarrow> (c # s) # ss)"

definition drop_cr :: "ustr \<Rightarrow> ustr" where
  "drop_cr s = (if s \<noteq> [] \<and> last s = 13 then butlast s else s)"

definition str_lines :: "ustr \<Rightarrow> ustr list" where
  "str_lines s =
     (let ss = split_on 10 s in map drop_cr (butlast ss) @ (if last ss = [] then [] else [last ss]))"

text \<open>\<open>i64::from_str_radix\<close>: an optional sign and at least one digit, in range.\<close>

definition to_digit :: "nat \<Rightarrow> uchar \<Rightarrow> nat option" where
  "to_digit radix c =
     (let d = (if 0x30 \<le> c \<and> c \<le> 0x39 then Some (c - 0x30)
               else if 0x61 \<le> c \<and> c \<le> 0x7A then Some (c - 0x61 + 10)
               else if 0x41 \<le> c \<and> c \<le> 0x5A then Some (c - 0x41 + 10) else None)
      in case d of Some v \<Rightarrow> if v < radix then Some v else None | None \<Rightarrow> None)"

fun digits_value :: "nat \<Rightarrow> int \<Rightarrow> ustr \<Rightarrow> int option" where
  "digits_value radix acc [] = Some acc"
| "digits_value radix acc (c # cs) =
     (case to_digit radix c of None \<Rightarrow> None | Some d \<Rightarrow> digits_value radix (acc * int radix + int d) cs)"

definition from_str_radix :: "nat \<Rightarrow> ustr \<Rightarrow> int option" where
  "from_str_radix radix s =
     (let (neg, ds) = (case s of c # cs \<Rightarrow> if c = 0x2D then (True, cs) else if c = 0x2B then (False, cs) else (False, s)
                               | [] \<Rightarrow> (False, []))
      in if ds = [] then None
         else case digits_value radix 0 ds of
                None \<Rightarrow> None
              | Some v \<Rightarrow>
                  (let v = (if neg then - v else v) in if - (2 ^ 63) \<le> v \<and> v < 2 ^ 63 then Some v else None))"

section \<open>Values\<close>

datatype tvalue = TStr ustr | TInt int | TArray "tvalue list" | TTable "(ustr \<times> tvalue) list"

type_synonym table = "(ustr, tvalue) btmap"

definition as_table :: "tvalue \<Rightarrow> table option" where
  "as_table v = (case v of TTable t \<Rightarrow> Some t | _ \<Rightarrow> None)"

definition as_integer :: "tvalue \<Rightarrow> int option" where
  "as_integer v = (case v of TInt i \<Rightarrow> Some i | _ \<Rightarrow> None)"

definition as_str :: "tvalue \<Rightarrow> ustr option" where
  "as_str v = (case v of TStr s \<Rightarrow> Some s | _ \<Rightarrow> None)"

definition as_array :: "tvalue \<Rightarrow> tvalue list option" where
  "as_array v = (case v of TArray a \<Rightarrow> Some a | _ \<Rightarrow> None)"

datatype toml_error = ExpectedString | UnsupportedEscape | UnterminatedString | BadInteger | TrailingJunk | UnterminatedArray
  | ExpectedComma | InvalidSegment | NotTableArray | NotTable | MalformedArrayHeader | EmptyArrayHeader | InvalidTableName
  | NotArrayOfTables | MalformedHeader | InvalidKey | DuplicateKey | UnrecognizedLine

section \<open>Parsing a line\<close>

fun strip_from :: "bool \<Rightarrow> bool \<Rightarrow> ustr \<Rightarrow> ustr" where
  "strip_from in_str escaped [] = []"
| "strip_from in_str escaped (c # cs) =
     (if c = 0x5C \<and> in_str \<and> \<not> escaped then c # strip_from in_str True cs
      else if c = 0x22 \<and> \<not> escaped then c # strip_from (\<not> in_str) False cs
      else if c = 0x23 \<and> \<not> in_str then []
      else c # strip_from in_str False cs)"

definition strip_comment :: "ustr \<Rightarrow> ustr" where
  "strip_comment line = strip_from False False line"

fun string_body :: "ustr \<Rightarrow> ustr \<Rightarrow> (toml_error, ustr \<times> ustr) res" where
  "string_body out [] = Err UnterminatedString"
| "string_body out (c # cs) =
     (if c = 0x22 then Ok (out, cs)
      else if c = 0x5C
      then (case cs of
              [] \<Rightarrow> Err UnsupportedEscape
            | d # ds \<Rightarrow>
                if d = 0x22 then string_body (out @ [0x22]) ds
                else if d = 0x5C then string_body (out @ [0x5C]) ds
                else if d = 0x6E then string_body (out @ [10]) ds
                else if d = 0x74 then string_body (out @ [9]) ds
                else Err UnsupportedEscape)
      else string_body (out @ [c]) cs)"

definition parse_string :: "ustr \<Rightarrow> (toml_error, ustr \<times> ustr) res" where
  "parse_string s =
     (case strip_prefix [0x22] s of None \<Rightarrow> Err ExpectedString | Some rest \<Rightarrow> string_body [] rest)"

definition parse_int :: "ustr \<Rightarrow> (toml_error, int) res" where
  "parse_int s =
     (let t = trim s;
          (neg, t) = (case strip_prefix [0x2D] t of
                        Some r \<Rightarrow> (True, r)
                      | None \<Rightarrow> (False, case strip_prefix [0x2B] t of Some r \<Rightarrow> r | None \<Rightarrow> t));
          digits = filter (\<lambda>c. c \<noteq> 0x5F) t;
          v = (case strip_prefix (lit ''0x'') digits of
                 Some hex \<Rightarrow> from_str_radix 16 hex
               | None \<Rightarrow>
                   (case strip_prefix (lit ''0X'') digits of
                      Some hex \<Rightarrow> from_str_radix 16 hex
                    | None \<Rightarrow> from_str_radix 10 digits))
      in case v of
           None \<Rightarrow> Err BadInteger
         | Some v \<Rightarrow> Ok (if neg then if v = - (2 ^ 63) then v else - v else v))"

lemma strip_prefix_shorter:
  assumes "strip_prefix p s = Some r" and "p \<noteq> []"
  shows "length r < length s"
proof -
  have "s \<noteq> []" "0 < length p" "r = drop (length p) s" using assms by (auto simp: strip_prefix_def split: if_splits)
  then show ?thesis by simp
qed

lemma string_body_shorter: "string_body out s = Ok (v, rest) \<Longrightarrow> length rest < length s"
  by (induction out s rule: string_body.induct) (fastforce split: if_splits list.splits)+

lemma parse_string_shorter: "parse_string s = Ok (v, rest) \<Longrightarrow> length rest < length s"
  by (auto simp: parse_string_def strip_prefix_def split: if_splits dest: string_body_shorter)

lemma length_trim_start: "length (trim_start s) \<le> length s"
  by (simp add: trim_start_def length_dropWhile_le)

function parse_items :: "ustr \<Rightarrow> (toml_error, tvalue list) res" where
  "parse_items rest =
     (if rest = [] then Ok []
      else case parse_string rest of
             Err e \<Rightarrow> Err e
           | Panic \<Rightarrow> Panic
           | Ok (v, after) \<Rightarrow>
               (let rest = trim_start after
                in case strip_prefix [0x2C] rest of
                     Some r \<Rightarrow> bind_res (parse_items (trim_start r)) (\<lambda>vs. Ok (TStr v # vs))
                   | None \<Rightarrow> if rest \<noteq> [] then Err ExpectedComma else Ok [TStr v]))"
  by pat_completeness auto
termination
proof (relation "measure length", goal_cases)
  case (2 rest p v after x r)
  have "length r < length x" using 2 strip_prefix_shorter by auto
  moreover have "length x \<le> length after" using 2 length_trim_start [of after] by simp
  moreover have "length after < length rest" using 2 by (auto dest!: parse_string_shorter)
  ultimately show ?case using length_trim_start [of r] by simp
qed simp

declare parse_items.simps [simp del]

definition parse_value :: "ustr \<Rightarrow> (toml_error, tvalue) res" where
  "parse_value s =
     (let t = trim s
      in if strip_prefix [0x22] t \<noteq> None
         then bind_res (parse_string t) (\<lambda>(v, rest). if trim rest \<noteq> [] then Err TrailingJunk else Ok (TStr v))
         else case strip_prefix [0x5B] t of
                Some inner \<Rightarrow>
                  bind_res (ok_or (strip_suffix [0x5D] inner) UnterminatedArray) (\<lambda>inner.
                  bind_res (parse_items (trim inner)) (\<lambda>items. Ok (TArray items)))
              | None \<Rightarrow> bind_res (parse_int t) (\<lambda>i. Ok (TInt i)))"

definition is_ascii_alphanumeric :: "uchar \<Rightarrow> bool" where
  "is_ascii_alphanumeric c \<longleftrightarrow> 0x30 \<le> c \<and> c \<le> 0x39 \<or> 0x41 \<le> c \<and> c \<le> 0x5A \<or> 0x61 \<le> c \<and> c \<le> 0x7A"

definition valid_key :: "ustr \<Rightarrow> bool" where
  "valid_key k \<longleftrightarrow> k \<noteq> [] \<and> list_all (\<lambda>c. is_ascii_alphanumeric c \<or> c = 0x5F \<or> c = 0x2D) k"

section \<open>Documents\<close>

fun navigate :: "(table \<Rightarrow> (toml_error, table) res) \<Rightarrow> ustr list \<Rightarrow> table \<Rightarrow> (toml_error, table) res" where
  "navigate f [] cur = f cur"
| "navigate f (seg # path) cur =
     (if \<not> valid_key seg then Err InvalidSegment
      else case (case bt_get cur seg of None \<Rightarrow> TTable [] | Some v \<Rightarrow> v) of
             TTable t \<Rightarrow> bind_res (navigate f path t) (\<lambda>t. Ok (bt_insert seg (TTable t) cur))
           | TArray a \<Rightarrow>
               (if a = [] then Err NotTableArray
                else case last a of
                       TTable t \<Rightarrow> bind_res (navigate f path t) (\<lambda>t. Ok (bt_insert seg (TArray (butlast a @ [TTable t])) cur))
                     | _ \<Rightarrow> Err NotTableArray)
           | _ \<Rightarrow> Err NotTable)"

definition push_table :: "ustr \<Rightarrow> table \<Rightarrow> (toml_error, table) res" where
  "push_table key parent =
     (case (case bt_get parent key of None \<Rightarrow> TArray [] | Some v \<Rightarrow> v) of
        TArray a \<Rightarrow> Ok (bt_insert key (TArray (a @ [TTable []])) parent)
      | _ \<Rightarrow> Err NotArrayOfTables)"

definition insert_key :: "ustr \<Rightarrow> tvalue \<Rightarrow> table \<Rightarrow> (toml_error, table) res" where
  "insert_key key v t = (if bt_get t key \<noteq> None then Err DuplicateKey else Ok (bt_insert key v t))"

definition header_path :: "ustr \<Rightarrow> ustr list" where
  "header_path name = map trim (split_on 0x2E name)"

fun find_char :: "uchar \<Rightarrow> ustr \<Rightarrow> nat option" where
  "find_char c [] = None"
| "find_char c (d # ds) = (if c = d then Some 0 else map_option Suc (find_char c ds))"

definition doc_line :: "ustr \<Rightarrow> table \<times> ustr list \<Rightarrow> (toml_error, table \<times> ustr list) res" where
  "doc_line raw = (\<lambda>(root, cur_path).
     let line = trim (strip_comment raw)
     in if line = [] then Ok (root, cur_path)
        else case strip_prefix (lit ''[['') line of
               Some h \<Rightarrow>
                 bind_res (ok_or (strip_suffix (lit '']]'') h) MalformedArrayHeader) (\<lambda>h.
                 let segs = header_path (trim h)
                 in if segs = [] then Err EmptyArrayHeader
                    else if \<not> valid_key (last segs) then Err InvalidTableName
                    else bind_res (navigate (push_table (last segs)) (butlast segs) root) (\<lambda>root. Ok (root, segs)))
             | None \<Rightarrow>
                 (case strip_prefix (lit ''['') line of
                    Some h \<Rightarrow>
                      bind_res (ok_or (strip_suffix (lit '']'') h) MalformedHeader) (\<lambda>h.
                      let segs = header_path (trim h)
                      in bind_res (navigate Ok segs root) (\<lambda>root. Ok (root, segs)))
                  | None \<Rightarrow>
                      (case find_char 0x3D line of
                         Some eq \<Rightarrow>
                           (let key = trim (take eq line)
                            in if \<not> valid_key key then Err InvalidKey
                               else bind_res (parse_value (drop (eq + 1) line)) (\<lambda>v.
                                    bind_res (navigate (insert_key key v) cur_path root) (\<lambda>root. Ok (root, cur_path))))
                       | None \<Rightarrow> Err UnrecognizedLine)))"

primrec doc_lines :: "nat \<Rightarrow> ustr list \<Rightarrow> table \<times> ustr list \<Rightarrow> (nat \<times> toml_error, table \<times> ustr list) res" where
  "doc_lines n [] st = Ok st"
| "doc_lines n (raw # raws) st = bind_res (map_err (\<lambda>e. (n + 1, e)) (doc_line raw st)) (doc_lines (n + 1) raws)"

definition parse_doc :: "ustr \<Rightarrow> (nat \<times> toml_error, tvalue) res" where
  "parse_doc text = bind_res (doc_lines 0 (str_lines text) ([], [])) (\<lambda>(root, _). Ok (TTable root))"

section \<open>Every text is answered\<close>

named_theorems no_panic \<open>parsers that return on every input\<close>

declare ok_or_not_Panic [no_panic]

lemma string_body_returns [no_panic]: "string_body out s \<noteq> Panic"
  by (induction out s rule: string_body.induct) (auto split: list.splits)

lemma parse_string_returns [no_panic]: "parse_string s \<noteq> Panic"
  by (simp add: parse_string_def no_panic split: option.splits)

lemma parse_items_returns [no_panic]: "parse_items s \<noteq> Panic"
  by (induction s rule: parse_items.induct)
     (subst parse_items.simps, auto simp: no_panic bind_res_eq_Panic Let_def split: res.splits option.splits)

lemma parse_value_returns [no_panic]: "parse_value s \<noteq> Panic"
  by (auto simp: parse_value_def parse_int_def no_panic bind_res_eq_Panic Let_def split: option.splits prod.splits if_splits)

lemma navigate_returns [no_panic]: "(\<And>t. f t \<noteq> Panic) \<Longrightarrow> navigate f path cur \<noteq> Panic"
  by (induction f path cur rule: navigate.induct) (auto simp: bind_res_eq_Panic split: tvalue.splits option.splits)

lemma doc_line_returns [no_panic]: "doc_line raw st \<noteq> Panic"
proof -
  have "push_table k t \<noteq> Panic" "insert_key k v t \<noteq> Panic" for k v t
    by (auto simp: push_table_def insert_key_def split: tvalue.splits option.splits)
  then show ?thesis
    by (auto simp: doc_line_def no_panic bind_res_eq_Panic Let_def split: option.splits prod.splits if_splits)
qed

lemma parse_doc_returns [no_panic]: "parse_doc text \<noteq> Panic"
proof -
  have "doc_lines n raws st \<noteq> Panic" for n raws st
    by (induction raws arbitrary: n st) (auto simp: bind_res_eq_Panic no_panic)
  then show ?thesis by (auto simp: parse_doc_def bind_res_eq_Panic)
qed

end
