(* ===== verification/Agent_Boot.thy ===== *)
theory Agent_Boot
  imports Agent_Toml Wire_Manifest "HOL-Library.Multiset"
begin

text \<open>
  The boot configuration: \<^verbatim>\<open>crates/detguest-agent/src/boot.rs\<close>. Faults are constructors of \<open>boot_error\<close>, with
  the index the message names. The lemmas show that a manifest that is accepted satisfies every rule of
  the format, and that quoted strings survive the parser and the comment stripper.
\<close>

section \<open>Data\<close>

definition BOOT_TOML_MAJOR :: int where [simp]: "BOOT_TOML_MAJOR = 1"

datatype game_source = PvBlk

record unit_control =
  uc_protocol :: ustr
  uc_proto_version :: u32
  uc_game_dev :: "ustr option"
  uc_game_source :: "game_source option"

record boot_unit =
  bu_id :: u32
  bu_exec :: ustr
  bu_args :: "ustr list"
  bu_log_mask :: u32
  bu_control :: "unit_control option"

record expected_region =
  er_name :: ustr
  er_layout_version :: u32

record boot_manifest =
  bm_autostart_unit :: "u32 option"
  bm_units :: "boot_unit list"
  bm_expected_regions :: "expected_region list"

definition BootManifest_unit :: "boot_manifest \<Rightarrow> u32 \<Rightarrow> boot_unit option" where
  "BootManifest_unit self i = find (\<lambda>u. bu_id u = i) (bm_units self)"

datatype boot_error = ParseError nat toml_error | TopLevelNotTable | MissingVersion | VersionNotInteger | UnknownVersion int
  | UnitNotArray | UnitNotTable nat | UnitNoId nat | UnitIdRange nat | UnitNoExec nat | UnitExecNotAbsolute nat
  | UnitArgsNotArray nat | UnitArgsNotStrings nat | UnitLogMask nat | ControlNotTable nat | ControlNoProtocol nat
  | ControlNoVersion nat | ControlNoGameDev nat | ControlUnknownSource nat | ControlSourceNotString nat | UnitIdsNotDense
  | AutostartNotTable | AutostartNoUnit | AutostartNoSuchUnit u32 | ExpectedNotArray | ExpectedNotTable nat
  | ExpectedNoName nat | ExpectedNameTooLong nat | ExpectedDuplicate ustr | ExpectedNoVersion nat

text \<open>UTF-8: the bytes of a string.\<close>

definition utf8_char :: "uchar \<Rightarrow> bytes" where
  "utf8_char c =
     (if c < 0x80 then [of_nat c]
      else if c < 0x800 then [of_nat (0xC0 + c div 64), of_nat (0x80 + c mod 64)]
      else if c < 0x10000 then [of_nat (0xE0 + c div 4096), of_nat (0x80 + c div 64 mod 64), of_nat (0x80 + c mod 64)]
      else [of_nat (0xF0 + c div 262144), of_nat (0x80 + c div 4096 mod 64), of_nat (0x80 + c div 64 mod 64), of_nat (0x80 + c mod 64)])"

definition str_bytes :: "ustr \<Rightarrow> bytes" where
  "str_bytes s = concat (map utf8_char s)"

section \<open>Validation\<close>

definition get_str :: "table \<Rightarrow> string \<Rightarrow> ustr option" where
  "get_str t k = Option.bind (bt_get t (lit k)) as_str"

definition get_int :: "table \<Rightarrow> string \<Rightarrow> int option" where
  "get_int t k = Option.bind (bt_get t (lit k)) as_integer"

text \<open>\<open>filter(|v| (0..=u32::MAX).contains(v))\<close> and the cast.\<close>

definition filter_u32 :: "int option \<Rightarrow> u32 option" where
  "filter_u32 v = Option.bind v (\<lambda>i. if 0 \<le> i \<and> i < 2 ^ 32 then Some (of_int i) else None)"

definition parse_game_source :: "nat \<Rightarrow> table \<Rightarrow> (boot_error, game_source option) res" where
  "parse_game_source i ct =
     (case bt_get ct (lit ''game_source'') of
        None \<Rightarrow> Ok None
      | Some v \<Rightarrow>
          (case as_str v of
             Some s \<Rightarrow> if s = lit ''pv-blk'' then Ok (Some PvBlk) else Err (ControlUnknownSource i)
           | None \<Rightarrow> Err (ControlSourceNotString i)))"

definition parse_control :: "nat \<Rightarrow> table \<Rightarrow> (boot_error, unit_control option) res" where
  "parse_control i t =
     (case bt_get t (lit ''control'') of
        None \<Rightarrow> Ok None
      | Some c \<Rightarrow>
          bind_res (ok_or (as_table c) (ControlNotTable i)) (\<lambda>ct.
          bind_res (ok_or (get_str ct ''protocol'') (ControlNoProtocol i)) (\<lambda>protocol.
          bind_res (ok_or (filter_u32 (get_int ct ''proto_version'')) (ControlNoVersion i)) (\<lambda>proto_version.
          let game_dev = get_str ct ''game_dev''
          in if protocol = lit ''refwork-ctl'' \<and> game_dev = None then Err (ControlNoGameDev i)
             else bind_res (parse_game_source i ct) (\<lambda>game_source.
                  Ok (Some \<lparr>uc_protocol = protocol, uc_proto_version = proto_version, uc_game_dev = game_dev,
                            uc_game_source = game_source\<rparr>))))))"

definition parse_args :: "nat \<Rightarrow> table \<Rightarrow> (boot_error, ustr list) res" where
  "parse_args i t =
     (case bt_get t (lit ''args'') of
        None \<Rightarrow> Ok []
      | Some a \<Rightarrow>
          bind_res (ok_or (as_array a) (UnitArgsNotArray i)) (\<lambda>xs.
          ok_or (those (map as_str xs)) (UnitArgsNotStrings i)))"

definition parse_log_mask :: "nat \<Rightarrow> table \<Rightarrow> (boot_error, u32) res" where
  "parse_log_mask i t =
     (case bt_get t (lit ''log_mask'') of
        None \<Rightarrow> Ok 0x1F
      | Some x \<Rightarrow> ok_or (filter_u32 (as_integer x)) (UnitLogMask i))"

definition parse_unit :: "nat \<Rightarrow> tvalue \<Rightarrow> (boot_error, boot_unit) res" where
  "parse_unit i v =
     bind_res (ok_or (as_table v) (UnitNotTable i)) (\<lambda>t.
     bind_res (ok_or (get_int t ''id'') (UnitNoId i)) (\<lambda>id.
     if id < 0 \<or> id > 2 ^ 32 - 1 then Err (UnitIdRange i)
     else bind_res (ok_or (get_str t ''exec'') (UnitNoExec i)) (\<lambda>exec.
          if strip_prefix (lit ''/'') exec = None then Err (UnitExecNotAbsolute i)
          else bind_res (parse_args i t) (\<lambda>args.
               bind_res (parse_log_mask i t) (\<lambda>log_mask.
               bind_res (parse_control i t) (\<lambda>control.
               Ok \<lparr>bu_id = of_int id, bu_exec = exec, bu_args = args, bu_log_mask = log_mask, bu_control = control\<rparr>))))))"

primrec parse_units :: "nat \<Rightarrow> tvalue list \<Rightarrow> (boot_error, boot_unit list) res" where
  "parse_units i [] = Ok []"
| "parse_units i (v # vs) = bind_res (parse_unit i v) (\<lambda>u. bind_res (parse_units (i + 1) vs) (\<lambda>us. Ok (u # us)))"

definition ids_dense :: "boot_unit list \<Rightarrow> bool" where
  "ids_dense us \<longleftrightarrow> (let ids = sort (map bu_id us) in list_all (\<lambda>(want, got). got = of_nat want) (zip [0..<length ids] ids))"

definition parse_autostart :: "table \<Rightarrow> boot_unit list \<Rightarrow> (boot_error, u32 option) res" where
  "parse_autostart root us =
     (case bt_get root (lit ''autostart'') of
        None \<Rightarrow> Ok None
      | Some a \<Rightarrow>
          bind_res (ok_or (as_table a) AutostartNotTable) (\<lambda>t.
          bind_res (ok_or (filter_u32 (get_int t ''unit'')) AutostartNoUnit) (\<lambda>i.
          if \<not> list_ex (\<lambda>u. bu_id u = i) us then Err (AutostartNoSuchUnit i) else Ok (Some i))))"

definition parse_expected :: "nat \<Rightarrow> ustr set \<Rightarrow> tvalue \<Rightarrow> (boot_error, expected_region) res" where
  "parse_expected i seen v =
     bind_res (ok_or (as_table v) (ExpectedNotTable i)) (\<lambda>t.
     bind_res (ok_or (get_str t ''name'') (ExpectedNoName i)) (\<lambda>name.
     if length (str_bytes name) > MAX_REGION_NAME then Err (ExpectedNameTooLong i)
     else if name \<in> seen then Err (ExpectedDuplicate name)
     else bind_res (ok_or (filter_u32 (get_int t ''layout_version'')) (ExpectedNoVersion i)) (\<lambda>layout_version.
          Ok \<lparr>er_name = name, er_layout_version = layout_version\<rparr>)))"

primrec parse_expecteds :: "nat \<Rightarrow> ustr set \<Rightarrow> tvalue list \<Rightarrow> (boot_error, expected_region list) res" where
  "parse_expecteds i seen [] = Ok []"
| "parse_expecteds i seen (v # vs) =
     bind_res (parse_expected i seen v) (\<lambda>r.
     bind_res (parse_expecteds (i + 1) (insert (er_name r) seen) vs) (\<lambda>rs. Ok (r # rs)))"

definition boot_tables :: "table \<Rightarrow> string \<Rightarrow> boot_error \<Rightarrow> (boot_error, tvalue list) res" where
  "boot_tables root key e =
     (case bt_get root (lit key) of None \<Rightarrow> Ok [] | Some v \<Rightarrow> ok_or (as_array v) e)"

definition boot_parse :: "ustr \<Rightarrow> (boot_error, boot_manifest) res" where
  "boot_parse text =
     bind_res (map_err (\<lambda>(n, e). ParseError n e) (parse_doc text)) (\<lambda>doc.
     bind_res (ok_or (as_table doc) TopLevelNotTable) (\<lambda>root.
     bind_res (ok_or (bt_get root (lit ''boot_toml_version'')) MissingVersion) (\<lambda>v.
     bind_res (ok_or (as_integer v) VersionNotInteger) (\<lambda>version.
     if version \<noteq> BOOT_TOML_MAJOR then Err (UnknownVersion version)
     else bind_res (boot_tables root ''unit'' UnitNotArray) (\<lambda>vs.
          bind_res (parse_units 0 vs) (\<lambda>us.
          if \<not> ids_dense us then Err UnitIdsNotDense
          else let us = sort_key bu_id us
               in bind_res (parse_autostart root us) (\<lambda>autostart.
                  bind_res (boot_tables root ''expected_region'' ExpectedNotArray) (\<lambda>vs.
                  bind_res (parse_expecteds 0 {} vs) (\<lambda>expected.
                  Ok \<lparr>bm_autostart_unit = autostart, bm_units = us, bm_expected_regions = expected\<rparr>)))))))))"

section \<open>What an accepted manifest satisfies\<close>

definition unit_ok :: "boot_unit \<Rightarrow> bool" where
  "unit_ok u \<longleftrightarrow> bu_exec u \<noteq> [] \<and> hd (bu_exec u) = 0x2F
     \<and> (\<forall>c. bu_control u = Some c \<and> uc_protocol c = lit ''refwork-ctl'' \<longrightarrow> uc_game_dev c \<noteq> None)"

definition manifest_ok :: "boot_manifest \<Rightarrow> bool" where
  "manifest_ok m \<longleftrightarrow> map bu_id (bm_units m) = map of_nat [0..<length (bm_units m)] \<and> list_all unit_ok (bm_units m)
     \<and> (\<forall>i. bm_autostart_unit m = Some i \<longrightarrow> BootManifest_unit m i \<noteq> None)
     \<and> distinct (map er_name (bm_expected_regions m))
     \<and> list_all (\<lambda>r. length (str_bytes (er_name r)) \<le> MAX_REGION_NAME) (bm_expected_regions m)"

lemma parse_control_ok:
  "parse_control i t = Ok c \<Longrightarrow> \<forall>uc. c = Some uc \<and> uc_protocol uc = lit ''refwork-ctl'' \<longrightarrow> uc_game_dev uc \<noteq> None"
  by (auto simp: parse_control_def bind_res_eq_Ok Let_def split: option.splits if_splits)

lemma parse_unit_ok: "parse_unit i v = Ok u \<Longrightarrow> unit_ok u"
proof -
  assume "parse_unit i v = Ok u"
  then obtain t c where u: "strip_prefix (lit ''/'') (bu_exec u) \<noteq> None" "parse_control i t = Ok c" "bu_control u = c"
    by (auto simp: parse_unit_def bind_res_eq_Ok split: if_splits)
  have "bu_exec u \<noteq> [] \<and> hd (bu_exec u) = 0x2F"
    using u(1) by (cases "bu_exec u") (auto simp: strip_prefix_def lit_def split: if_splits)
  then show ?thesis using parse_control_ok [OF u(2)] u(3) by (auto simp: unit_ok_def)
qed

lemma parse_units_ok: "parse_units i vs = Ok us \<Longrightarrow> list_all unit_ok us"
  by (induction vs arbitrary: i us) (auto simp: bind_res_eq_Ok dest: parse_unit_ok)

lemma ids_dense_sorted:
  assumes "ids_dense us"
  shows "map bu_id (sort_key bu_id us) = map of_nat [0..<length us]"
proof -
  have "list_all (\<lambda>(want, got). got = of_nat want) (zip [0..<length us] (sort (map bu_id us)))"
    using assms by (simp add: ids_dense_def Let_def)
  then have "sort (map bu_id us) = map of_nat [0..<length us]"
    by (intro nth_equalityI) (auto simp: list_all_length)
  moreover have "map bu_id (sort_key bu_id us) = sort (map bu_id us)"
    by (intro properties_for_sort [symmetric]) simp_all
  ultimately show ?thesis by simp
qed

lemma parse_expecteds_ok:
  "parse_expecteds i seen vs = Ok rs \<Longrightarrow> distinct (map er_name rs) \<and> seen \<inter> er_name ` set rs = {}
     \<and> list_all (\<lambda>r. length (str_bytes (er_name r)) \<le> MAX_REGION_NAME) rs"
proof (induction vs arbitrary: i seen rs)
  case (Cons v vs)
  from Cons.prems obtain r rs' where r: "parse_expected i seen v = Ok r" "parse_expecteds (i + 1) (insert (er_name r) seen) vs = Ok rs'" "rs = r # rs'"
    by (auto simp: bind_res_eq_Ok)
  have "er_name r \<notin> seen" "length (str_bytes (er_name r)) \<le> MAX_REGION_NAME"
    using r(1) by (auto simp: parse_expected_def bind_res_eq_Ok split: if_splits)
  then show ?case using Cons.IH [OF r(2)] r(3) by auto
qed simp

lemma parse_units_returns [no_panic]: "parse_units i vs \<noteq> Panic"
proof -
  have "parse_control i t \<noteq> Panic" for i t
    by (auto simp: parse_control_def parse_game_source_def no_panic bind_res_eq_Panic Let_def split: option.splits if_splits)
  then have "parse_unit i v \<noteq> Panic" for i v
    by (auto simp: parse_unit_def parse_args_def parse_log_mask_def no_panic bind_res_eq_Panic split: option.splits if_splits)
  then show ?thesis by (induction vs arbitrary: i) (auto simp: bind_res_eq_Panic)
qed

lemma parse_expecteds_returns [no_panic]: "parse_expecteds i seen vs \<noteq> Panic"
  by (induction vs arbitrary: i seen) (auto simp: parse_expected_def no_panic bind_res_eq_Panic split: if_splits)

lemma boot_parse_returns [no_panic]: "boot_parse text \<noteq> Panic"
  by (auto simp: boot_parse_def boot_tables_def parse_autostart_def no_panic bind_res_eq_Panic Let_def split: option.splits if_splits)

lemma boot_parse_ok:
  assumes "boot_parse text = Ok m"
  shows "manifest_ok m"
proof -
  obtain root us vs where u: "parse_units 0 vs = Ok us" "ids_dense us" "bm_units m = sort_key bu_id us"
      and a: "parse_autostart root (sort_key bu_id us) = Ok (bm_autostart_unit m)"
      and e: "\<exists>vs. parse_expecteds 0 {} vs = Ok (bm_expected_regions m)"
    using assms unfolding boot_parse_def by (auto simp: bind_res_eq_Ok Let_def split: if_splits) blast
  have "list_all unit_ok (bm_units m)" using parse_units_ok [OF u(1)] u(3) by (simp add: list_all_iff)
  moreover have "BootManifest_unit m i \<noteq> None" if "bm_autostart_unit m = Some i" for i
  proof -
    have "\<exists>u \<in> set (bm_units m). bu_id u = i"
      using a that u(3) by (auto simp: parse_autostart_def bind_res_eq_Ok list_ex_iff split: option.splits if_splits)
    then show ?thesis by (auto simp: BootManifest_unit_def find_None_iff)
  qed
  ultimately show ?thesis
    using ids_dense_sorted [OF u(2)] u(3) e parse_expecteds_ok by (fastforce simp: manifest_ok_def)
qed

text \<open>
  C21. The boot gate: every text is answered, without a panic, by an error or by a configuration whose units have the
  ids from zero on, in order and without gap, each with an absolute path and, for the harness protocol, a game device;
  the autostarted unit exists; the expected regions have distinct names that fit the manifest.
\<close>

theorem boot_parse_valid:
  "case boot_parse src of Ok m \<Rightarrow> manifest_ok m | Err _ \<Rightarrow> True | Panic \<Rightarrow> False"
  using boot_parse_ok boot_parse_returns [of src] by (simp split: res.splits)

section \<open>Strings survive\<close>

text \<open>The quoting a writer of the file uses.\<close>

definition escape :: "uchar \<Rightarrow> ustr" where
  "escape c = (if c = 0x22 then [0x5C, 0x22] else if c = 0x5C then [0x5C, 0x5C] else if c = 10 then [0x5C, 0x6E]
     else if c = 9 then [0x5C, 0x74] else [c])"

definition quote :: "ustr \<Rightarrow> ustr" where
  "quote s = 0x22 # concat (map escape s) @ [0x22]"

lemma string_body_quote: "string_body out (concat (map escape s) @ 0x22 # rest) = Ok (out @ s, rest)"
  by (induction s arbitrary: out) (auto simp: escape_def)

lemma strip_from_quote:
  "strip_from True False (concat (map escape s) @ 0x22 # rest) = concat (map escape s) @ 0x22 # strip_from False False rest"
  by (induction s) (auto simp: escape_def)

text \<open>
  C37. String literals round-trip: a quoted string parses back to itself and leaves what follows it, and
  the comment stripper passes over it, whatever it contains, and cuts at a comment behind it.
\<close>

theorem string_literal_round_trip:
  "parse_string (quote s @ rest) = Ok (s, rest) \<and> strip_comment (quote s @ rest) = quote s @ strip_comment rest
   \<and> strip_comment (quote s @ 0x23 # rest) = quote s"
  using string_body_quote [of "[]" s rest] strip_from_quote [of s rest] strip_from_quote [of s "0x23 # rest"]
  by (simp add: parse_string_def strip_comment_def quote_def strip_prefix_def)

text \<open>A document with one unit that starts by itself.\<close>

definition demo_lines :: "ustr list" where
  "demo_lines = [lit ''boot_toml_version = 1'', lit ''[[unit]]'', lit ''id = 0'', lit ''exec = '' @ quote (lit ''/w''),
     lit ''[autostart]'', lit ''unit = 0'']"

lemmas toml_evals = lit_def str_lines_def drop_cr_def doc_line_def trim_def trim_start_def is_whitespace_def strip_comment_def strip_prefix_def
  strip_suffix_def valid_key_def is_ascii_alphanumeric_def parse_value_def parse_string_def parse_int_def from_str_radix_def to_digit_def
  insert_key_def push_table_def header_path_def quote_def escape_def as_table_def as_integer_def as_str_def as_array_def

lemmas boot_evals = boot_parse_def parse_doc_def boot_tables_def ids_dense_def parse_autostart_def parse_unit_def parse_args_def parse_log_mask_def
  parse_control_def get_str_def get_int_def filter_u32_def

lemma demo_toml_parses:
  "boot_parse (concat (map (\<lambda>l. l @ [10]) demo_lines)) = Ok \<lparr>bm_autostart_unit = Some 0,
     bm_units = [\<lparr>bu_id = 0, bu_exec = [0x2F, 0x77], bu_args = [], bu_log_mask = 0x1F, bu_control = None\<rparr>], bm_expected_regions = []\<rparr>"
  by (simp add: demo_lines_def toml_evals boot_evals)

theorem boot_parse_valid_witness:
  "manifest_ok \<lparr>bm_autostart_unit = Some 0,
     bm_units = [\<lparr>bu_id = 0, bu_exec = [0x2F, 0x77], bu_args = [], bu_log_mask = 0x1F, bu_control = None\<rparr>], bm_expected_regions = []\<rparr>"
  using boot_parse_valid [of "concat (map (\<lambda>l. l @ [10]) demo_lines)"] by (simp add: demo_toml_parses)

text \<open>
  The integer parser takes a sign for itself and leaves a second one to the number parser: two signs
  cancel, and the smallest integer behind a second sign is negated past the range.
\<close>

theorem parse_int_signs:
  "parse_int (lit ''--5'') = Ok 5 \<and> parse_int (lit ''0x-5'') = Ok (- 5) \<and> parse_int (lit ''--9223372036854775808'') = Ok (- (2 ^ 63))"
  by (simp add: toml_evals)

end
