(* ===== verification/Agent_Control.thy ===== *)
theory Agent_Control
  imports Agent_Monad Agent_Boot Utf8_Lossy
begin

text \<open>
  The boot-time control leg: \<^verbatim>\<open>crates/detguest-agent/src/control.rs\<close>. The socket and the caller's progress
  callback are parameters that run on a world; the state beside it is the trace of the datagrams sent and
  received and of the milestones reported. Messages of errors are constructors of \<open>control_error\<close>.
\<close>

section \<open>Encoding requests\<close>

function push_varint :: "bytes \<Rightarrow> u64 \<Rightarrow> bytes" where
  "push_varint out value =
     (if 0x80 \<le> value then push_varint (out @ [ucast value OR 0x80]) (drop_bit 7 value) else out @ [ucast value])"
  by pat_completeness auto
termination
proof (relation "measure (\<lambda>(out, value). unat value)")
  fix out :: bytes and v :: u64 assume "0x80 \<le> v"
  then have "unat (drop_bit 7 v) < unat v" by (simp add: unat_drop_bit_eq drop_bit_eq_div word_le_nat_alt unat_div)
  then show "((out @ [ucast v OR 0x80], drop_bit 7 v), (out, v)) \<in> measure (\<lambda>(out, value). unat value)" by simp
qed simp

declare push_varint.simps [simp del]

definition push_bytes :: "bytes \<Rightarrow> bytes \<Rightarrow> bytes" where
  "push_bytes out bs = push_varint out (of_nat (length bs)) @ bs"

definition encode_hello :: "u16 \<Rightarrow> bytes" where
  "encode_hello proto_version = push_varint [0x00] (ucast proto_version)"

definition encode_load_game :: "bytes \<Rightarrow> bytes" where
  "encode_load_game dev_path = push_bytes [0x01] dev_path"

section \<open>Decoding replies\<close>

datatype reply_error = OffsetOverflow | TruncatedReply | NotUtf8 | VarintOverflow | VersionOverflow | UnknownTag u64 | TrailingBytes

record cursor =
  cu_bytes :: bytes
  cu_at :: nat

definition cursor_take :: "cursor \<Rightarrow> nat \<Rightarrow> (reply_error, bytes \<times> cursor) res" where
  "cursor_take self n =
     (let e = cu_at self + n
      in if 2 ^ 64 \<le> e then Err OffsetOverflow
         else if e > length (cu_bytes self) then Err TruncatedReply
         else bind_res (slice (cu_bytes self) (cu_at self) e) (\<lambda>out. Ok (out, self\<lparr>cu_at := e\<rparr>)))"

function varint_loop :: "cursor \<Rightarrow> u64 \<Rightarrow> nat \<Rightarrow> (reply_error, u64 \<times> cursor) res" where
  "varint_loop self value shift =
     (case cursor_take self 1 of
        Ok (bs, self) \<Rightarrow>
          (case bs of
             [] \<Rightarrow> Err TruncatedReply
           | byte # _ \<Rightarrow>
               if 64 \<le> shift then Err VarintOverflow
               else let value = value OR push_bit shift (ucast (byte AND 0x7F))
                    in if byte AND 0x80 = 0 then Ok (value, self)
                       else if 64 \<le> shift + 7 then Err VarintOverflow
                       else varint_loop self value (shift + 7))
      | Err e \<Rightarrow> Err e
      | Panic \<Rightarrow> Panic)"
  by pat_completeness auto
termination
  by (relation "measure (\<lambda>(self, value, shift). 64 - shift)") auto

declare varint_loop.simps [simp del]

definition cursor_varint :: "cursor \<Rightarrow> (reply_error, u64 \<times> cursor) res" where
  "cursor_varint self = varint_loop self 0 0"

definition cursor_string :: "cursor \<Rightarrow> (reply_error, bytes \<times> cursor) res" where
  "cursor_string self =
     bind_res (cursor_varint self) (\<lambda>(n, self).
     bind_res (cursor_take self (unat n)) (\<lambda>(bs, self).
     if utf8_valid bs then Ok (bs, self) else Err NotUtf8))"

datatype control_reply = HelloAck u16 | GameLoaded | Region | Ready u64 | Fault bytes

definition decode_body :: "u64 \<Rightarrow> cursor \<Rightarrow> (reply_error, control_reply \<times> cursor) res" where
  "decode_body tag cur =
     (if tag = 5 then
        bind_res (cursor_varint cur) (\<lambda>(v, cur).
        if 2 ^ 16 \<le> unat v then Err VersionOverflow
        else bind_res (cursor_string cur) (\<lambda>(emu, cur).
             bind_res (cursor_string cur) (\<lambda>(emu_version, cur).
             Ok (HelloAck (ucast v), cur))))
      else if tag = 6 then
        bind_res (cursor_take cur 32) (\<lambda>(_, cur).
        bind_res (cursor_string cur) (\<lambda>(mapper, cur).
        bind_res (cursor_varint cur) (\<lambda>(sram_size, cur).
        Ok (GameLoaded, cur))))
      else if tag = 7 then Ok (Region, cur\<lparr>cu_at := length (cu_bytes cur)\<rparr>)
      else if tag = 8 then bind_res (cursor_varint cur) (\<lambda>(frame, cur). Ok (Ready frame, cur))
      else if tag = 10 then
        bind_res (cursor_varint cur) (\<lambda>(frame, cur).
        bind_res (cursor_varint cur) (\<lambda>(code, cur).
        bind_res (cursor_string cur) (\<lambda>(detail, cur).
        Ok (Fault detail, cur))))
      else Err (UnknownTag tag))"

definition decode_control_reply :: "bytes \<Rightarrow> (reply_error, control_reply) res" where
  "decode_control_reply bs =
     bind_res (cursor_varint \<lparr>cu_bytes = bs, cu_at = 0\<rparr>) (\<lambda>(tag, cur).
     bind_res (decode_body tag cur) (\<lambda>(reply, cur).
     if cu_at cur \<noteq> length bs then Err TrailingBytes else Ok reply))"

section \<open>The socket\<close>

definition MAX_DATAGRAM :: nat where [simp]: "MAX_DATAGRAM = 4096"
definition CONTROL_RECV_WAKE_LIMIT :: nat where [simp]: "CONTROL_RECV_WAKE_LIMIT = 600"

datatype recv_result = RecvFailed | RecvEmpty | Datagram bytes

record 'w control_env =
  ce_send :: "bytes \<Rightarrow> 'w \<Rightarrow> nat option \<times> 'w"
  ce_recv :: "'w \<Rightarrow> recv_result \<times> 'w"

datatype control_event = Posted bytes | Received bytes | Milestone string

record 'w control_state =
  ct_trace :: "control_event list"
  ct_world :: 'w

datatype 'p control_io_error = SendError | ShortWrite | RecvError | IdleError 'p | SocketClosed | InvalidReply reply_error | WakeLimit

datatype control_progress = Idle | Passed string

type_synonym ('w, 'p) progress = "control_progress \<Rightarrow> ('w, 'p, unit) act"

definition post :: "control_event \<Rightarrow> ('w control_state, 'e, unit) act" where
  "post e = modify (\<lambda>s. s\<lparr>ct_trace := ct_trace s @ [e]\<rparr>)"

definition in_ctl :: "('w, 'e, 'a) act \<Rightarrow> ('w control_state, 'e, 'a) act" where
  "in_ctl = zoom ct_world (\<lambda>w s. s\<lparr>ct_world := w\<rparr>)"

definition report :: "('w, 'p) progress \<Rightarrow> control_progress \<Rightarrow> ('w control_state, 'p, unit) act" where
  "report progress p = act_bind (in_ctl (progress p)) (\<lambda>_. case p of Idle \<Rightarrow> return () | Passed m \<Rightarrow> post (Milestone m))"

definition control_send :: "'w control_env \<Rightarrow> bytes \<Rightarrow> ('w control_state, 'p control_io_error, unit) act" where
  "control_send env bs =
     act_bind (in_ctl (\<lambda>w. case ce_send env bs w of (rc, w) \<Rightarrow> Some (Ok rc, w))) (\<lambda>rc.
     case rc of
       None \<Rightarrow> fail SendError
     | Some n \<Rightarrow> if n \<noteq> length bs then fail ShortWrite else post (Posted bs))"

primrec control_recv :: "'w control_env \<Rightarrow> ('w, 'p) progress \<Rightarrow> nat \<Rightarrow> ('w control_state, 'p control_io_error, control_reply) act" where
  "control_recv env progress 0 = fail WakeLimit"
| "control_recv env progress (Suc k) =
     act_bind (in_ctl (\<lambda>w. case ce_recv env w of (r, w) \<Rightarrow> Some (Ok r, w))) (\<lambda>r.
     case r of
       RecvFailed \<Rightarrow> fail RecvError
     | RecvEmpty \<Rightarrow> act_bind (act_catch (report progress Idle) (\<lambda>p. fail (IdleError p))) (\<lambda>_. control_recv env progress k)
     | Datagram d \<Rightarrow>
         let bs = take MAX_DATAGRAM d
         in if bs = [] then fail SocketClosed
            else act_bind (post (Received bs)) (\<lambda>_. of_res (map_err InvalidReply (decode_control_reply bs))))"

section \<open>Driving the workload\<close>

datatype leg = HelloLeg | LoadLeg | ReadyLeg | StartLeg

datatype 'p control_error = UnsupportedProtocol ustr | ProtoVersionRange u32 | SendLeg leg "'p control_io_error" | RecvLeg leg "'p control_io_error"
  | ProgressError 'p | HelloAckVersion u16 u16 | FaultReply leg bytes | UnexpectedReply leg control_reply | ReadyFrame u64

datatype 'p verdict = Accept | Skip | Reject "'p control_error"

definition hello_reply :: "u16 \<Rightarrow> control_reply \<Rightarrow> 'p verdict" where
  "hello_reply proto_version reply =
     (case reply of
        HelloAck v \<Rightarrow> if v = proto_version then Accept else Reject (HelloAckVersion v proto_version)
      | Fault d \<Rightarrow> Reject (FaultReply HelloLeg d)
      | other \<Rightarrow> Reject (UnexpectedReply HelloLeg other))"

definition loaded_reply :: "control_reply \<Rightarrow> 'p verdict" where
  "loaded_reply reply =
     (case reply of
        GameLoaded \<Rightarrow> Accept
      | Region \<Rightarrow> Skip
      | Fault d \<Rightarrow> Reject (FaultReply LoadLeg d)
      | other \<Rightarrow> Reject (UnexpectedReply LoadLeg other))"

definition ready_reply :: "control_reply \<Rightarrow> 'p verdict" where
  "ready_reply reply =
     (case reply of
        Ready frame \<Rightarrow> if frame = 0 then Accept else Reject (ReadyFrame frame)
      | Region \<Rightarrow> Skip
      | Fault d \<Rightarrow> Reject (FaultReply ReadyLeg d)
      | other \<Rightarrow> Reject (UnexpectedReply ReadyLeg other))"

partial_function (option) await_reply ::
  "'w control_env \<Rightarrow> ('w, 'p) progress \<Rightarrow> leg \<Rightarrow> (control_reply \<Rightarrow> 'p verdict) \<Rightarrow> 'w control_state \<Rightarrow>
     (('p control_error, unit) res \<times> 'w control_state) option" where
  "await_reply env progress leg judge s =
     (case control_recv env progress CONTROL_RECV_WAKE_LIMIT s of
        None \<Rightarrow> None
      | Some (r, s) \<Rightarrow>
          (case r of
             Ok reply \<Rightarrow>
               (case judge reply of
                  Accept \<Rightarrow> Some (Ok (), s)
                | Skip \<Rightarrow> await_reply env progress leg judge s
                | Reject e \<Rightarrow> Some (Err e, s))
           | Err e \<Rightarrow> Some (Err (RecvLeg leg e), s)
           | Panic \<Rightarrow> Some (Panic, s)))"

definition send_leg :: "'w control_env \<Rightarrow> leg \<Rightarrow> bytes \<Rightarrow> ('w control_state, 'p control_error, unit) act" where
  "send_leg env leg bs = act_catch (control_send env bs) (\<lambda>e. fail (SendLeg leg e))"

definition milestone :: "('w, 'p) progress \<Rightarrow> string \<Rightarrow> ('w control_state, 'p control_error, unit) act" where
  "milestone progress m = act_catch (report progress (Passed m)) (\<lambda>p. fail (ProgressError p))"

definition drive_refwork_start ::
  "'w control_env \<Rightarrow> ('w, 'p) progress \<Rightarrow> unit_control \<Rightarrow> bytes \<Rightarrow> ('w control_state, 'p control_error, unit) act" where
  "drive_refwork_start env progress control game_path =
     (if uc_protocol control \<noteq> lit ''refwork-ctl'' then fail (UnsupportedProtocol (uc_protocol control))
      else if 2 ^ 16 \<le> unat (uc_proto_version control) then fail (ProtoVersionRange (uc_proto_version control))
      else let proto_version = ucast (uc_proto_version control) in
        act_bind (send_leg env HelloLeg (encode_hello proto_version)) (\<lambda>_.
        act_bind (await_reply env progress HelloLeg (hello_reply proto_version)) (\<lambda>_.
        act_bind (milestone progress ''boot: helloack'') (\<lambda>_.
        act_bind (send_leg env LoadLeg (encode_load_game game_path)) (\<lambda>_.
        act_bind (await_reply env progress LoadLeg loaded_reply) (\<lambda>_.
        act_bind (milestone progress ''boot: gameloaded'') (\<lambda>_.
        act_bind (await_reply env progress ReadyLeg ready_reply) (\<lambda>_.
        act_bind (milestone progress ''boot: rw-ready'') (\<lambda>_.
        act_bind (send_leg env StartLeg [0x02]) (\<lambda>_.
        milestone progress ''boot: start-sent''))))))))))"

section \<open>Integers survive\<close>

lemma push_varint_out: "push_varint out v = out @ push_varint [] v"
proof (induction "unat v" arbitrary: out v rule: less_induct)
  case less
  show ?case
  proof (cases "0x80 \<le> v")
    case True
    have lt: "unat (drop_bit 7 v) < unat v"
      using True by (simp add: unat_drop_bit_eq drop_bit_eq_div word_le_nat_alt unat_div)
    have "push_varint [] v = [ucast v OR 0x80] @ push_varint [] (drop_bit 7 v)"
      using True less [OF lt, of "[ucast v OR 0x80]"] by (simp add: push_varint.simps [of "[]" v])
    moreover have "push_varint out v = (out @ [ucast v OR 0x80]) @ push_varint [] (drop_bit 7 v)"
      using True less [OF lt, of "out @ [ucast v OR 0x80]"] by (simp add: push_varint.simps [of out v])
    ultimately show ?thesis by simp
  qed (simp add: push_varint.simps [of _ v])
qed

lemma push_varint_step:
  "push_varint [] v = (if 0x80 \<le> v then (ucast v OR 0x80) # push_varint [] (drop_bit 7 v) else [ucast v])"
  using push_varint_out [of "[ucast v OR 0x80]" "drop_bit 7 v"] by (simp add: push_varint.simps [of "[]" v])

abbreviation reading :: "bytes \<Rightarrow> bytes \<Rightarrow> cursor" where
  "reading pre rest \<equiv> \<lparr>cu_bytes = pre @ rest, cu_at = length pre\<rparr>"

lemma take_reading:
  assumes "length (pre @ bs @ rest) < 2 ^ 64"
  shows "cursor_take (reading pre (bs @ rest)) (length bs) = Ok (bs, reading (pre @ bs) rest)"
  using assms by (simp add: cursor_take_def slice_def Let_def)

lemma take_one:
  assumes "length (pre @ b # rest) < 2 ^ 64"
  shows "cursor_take (reading pre (b # rest)) 1 = Ok ([b], reading (pre @ [b]) rest)"
  using take_reading [of pre "[b]" rest] assms by simp

lemma low_bits:
  fixes v :: u64
  shows "(ucast ((ucast v OR 0x80 :: u8) AND 0x7F) :: u64) = take_bit 7 v" "(ucast v OR 0x80 :: u8) AND 0x80 \<noteq> 0"
    and "v < 0x80 \<Longrightarrow> (ucast ((ucast v :: u8) AND 0x7F) :: u64) = v" "v < 0x80 \<Longrightarrow> (ucast v :: u8) AND 0x80 = 0"
proof -
  have m: "bit (0x7F :: int) n \<longleftrightarrow> n < 7" for n
    using bit_mask_iff [where 'a = int, of 7 n] by (auto simp: mask_eq_exp_minus_1)
  have t: "bit (0x80 :: int) n \<longleftrightarrow> n = 7" for n using bit_exp_iff [where 'a = int, of 7 n] by auto
  show "(ucast ((ucast v OR 0x80 :: u8) AND 0x7F) :: u64) = take_bit 7 v"
    by (intro bit_word_eqI) (auto simp: bit_simps m t)
  have "bit ((ucast v OR 0x80 :: u8) AND 0x80) 7" by (simp add: bit_simps t)
  then show "(ucast v OR 0x80 :: u8) AND 0x80 \<noteq> 0" by auto
  assume "v < 0x80"
  then have "take_bit 7 v = v" by (simp add: word_unat_eq_iff unsigned_take_bit_eq take_bit_nat_eq_self word_less_nat_alt)
  then have b: "bit v n \<Longrightarrow> n < 7" for n by (metis bit_take_bit_iff)
  show "(ucast ((ucast v :: u8) AND 0x7F) :: u64) = v"
    by (intro bit_word_eqI) (auto simp: bit_simps m dest: b intro: less_trans [OF b])
  show "(ucast v :: u8) AND 0x80 = 0" by (intro bit_word_eqI) (use b in \<open>fastforce simp: bit_simps t\<close>)
qed

lemma split_low:
  fixes v :: u64
  shows "push_bit s (take_bit 7 v) OR push_bit (s + 7) (drop_bit 7 v) = push_bit s v"
proof (intro bit_word_eqI)
  fix n
  have "7 + (n - (s + 7)) = n - s" if "s + 7 \<le> n" using that by simp
  then show "bit (push_bit s (take_bit 7 v) OR push_bit (s + 7) (drop_bit 7 v)) n = bit (push_bit s v) n"
    by (cases "s + 7 \<le> n") (auto simp: bit_simps)
qed

lemma varint_loop_reads:
  assumes "unat v < 2 ^ (64 - shift)" "shift < 64" "length (pre @ push_varint [] v @ rest) < 2 ^ 64"
  shows "varint_loop (reading pre (push_varint [] v @ rest)) acc shift = Ok (acc OR push_bit shift v, reading (pre @ push_varint [] v) rest)"
  using assms
proof (induction "unat v" arbitrary: v shift acc pre rule: less_induct)
  case less
  show ?case
  proof (cases "0x80 \<le> v")
    case False
    then have v: "v < 0x80" by simp
    have step: "push_varint [] v = [ucast v]" using False by (simp add: push_varint_step [of v])
    show ?thesis using less.prems take_one [of pre "ucast v" rest]
      by (simp add: varint_loop.simps [of "reading pre _"] step low_bits(3,4) [OF v] Let_def)
  next
    case True
    let ?b = "ucast v OR 0x80 :: u8"
    have lt: "unat (drop_bit 7 v) < unat v"
      using True by (simp add: unat_drop_bit_eq drop_bit_eq_div word_le_nat_alt unat_div)
    have "2 ^ 7 < (2::nat) ^ (64 - shift)" using True less.prems(1) by (simp add: word_le_nat_alt)
    then have shift: "7 < 64 - shift" by (rule power_less_imp_less_exp [rotated]) simp
    then have s57: "shift < 57" and "64 - shift = (64 - (shift + 7)) + 7" by simp_all
    then have "2 ^ (64 - shift) = (2::nat) ^ (64 - (shift + 7)) * 2 ^ 7" by (simp only: power_add)
    then have v7: "unat (drop_bit 7 v) < 2 ^ (64 - (shift + 7))"
      using less.prems(1) by (simp add: unat_drop_bit_eq drop_bit_eq_div unat_div less_mult_imp_div_less)
    have step: "push_varint [] v = ?b # push_varint [] (drop_bit 7 v)" using True by (simp add: push_varint_step [of v])
    have len: "length ((pre @ [?b]) @ push_varint [] (drop_bit 7 v) @ rest) < 2 ^ 64" using less.prems(3) step by simp
    have "varint_loop (reading pre (push_varint [] v @ rest)) acc shift =
        varint_loop (reading (pre @ [?b]) (push_varint [] (drop_bit 7 v) @ rest)) (acc OR push_bit shift (take_bit 7 v)) (shift + 7)"
      using take_one [of pre ?b "push_varint [] (drop_bit 7 v) @ rest"] len s57
      by (simp add: varint_loop.simps [of "reading pre _"] step low_bits Let_def)
    also have "\<dots> = Ok ((acc OR push_bit shift (take_bit 7 v)) OR push_bit (shift + 7) (drop_bit 7 v),
        reading ((pre @ [?b]) @ push_varint [] (drop_bit 7 v)) rest)"
      using less.hyps [OF lt v7 _ len] s57 by simp
    finally show ?thesis using split_low [of shift v] by (simp add: step or.assoc)
  qed
qed

lemma varint_reads:
  "length (pre @ push_varint [] v @ rest) < 2 ^ 64 \<Longrightarrow>
     cursor_varint (reading pre (push_varint [] v @ rest)) = Ok (v, reading (pre @ push_varint [] v) rest)"
  using varint_loop_reads [of v 0 pre rest 0] unsigned_less [of v] by (simp add: cursor_varint_def)

lemma string_reads:
  assumes "length (pre @ push_bytes [] bs @ rest) < 2 ^ 64" "utf8_valid bs"
  shows "cursor_string (reading pre (push_bytes [] bs @ rest)) = Ok (bs, reading (pre @ push_bytes [] bs) rest)"
proof -
  have n: "unat (of_nat (length bs) :: u64) = length bs" using assms(1) by (simp add: push_bytes_def unat_of_nat)
  show ?thesis
    using varint_reads [of pre "of_nat (length bs)" "bs @ rest"] take_reading [of "pre @ push_varint [] (of_nat (length bs))" bs rest] assms
    by (simp add: cursor_string_def push_bytes_def n)
qed

text \<open>The shapes of the replies, with what the harness puts into the fields that are skipped.\<close>

datatype reply_shape = ShapeHelloAck u16 bytes bytes | ShapeGameLoaded bytes bytes u64 | ShapeRegion bytes | ShapeReady u64 | ShapeFault u64 u64 bytes

primrec shape_bytes :: "reply_shape \<Rightarrow> bytes" where
  "shape_bytes (ShapeHelloAck v emu version) = push_varint [] 5 @ push_varint [] (ucast v) @ push_bytes [] emu @ push_bytes [] version"
| "shape_bytes (ShapeGameLoaded digest mapper sram) = push_varint [] 6 @ digest @ push_bytes [] mapper @ push_varint [] sram"
| "shape_bytes (ShapeRegion body) = push_varint [] 7 @ body"
| "shape_bytes (ShapeReady frame) = push_varint [] 8 @ push_varint [] frame"
| "shape_bytes (ShapeFault frame code detail) = push_varint [] 10 @ push_varint [] frame @ push_varint [] code @ push_bytes [] detail"

primrec shape_ok :: "reply_shape \<Rightarrow> bool" where
  "shape_ok (ShapeHelloAck v emu version) \<longleftrightarrow> utf8_valid emu \<and> utf8_valid version"
| "shape_ok (ShapeGameLoaded digest mapper sram) \<longleftrightarrow> length digest = 32 \<and> utf8_valid mapper"
| "shape_ok (ShapeRegion body) \<longleftrightarrow> True"
| "shape_ok (ShapeReady frame) \<longleftrightarrow> True"
| "shape_ok (ShapeFault frame code detail) \<longleftrightarrow> utf8_valid detail"

primrec shape_reply :: "reply_shape \<Rightarrow> control_reply" where
  "shape_reply (ShapeHelloAck v emu version) = HelloAck v"
| "shape_reply (ShapeGameLoaded digest mapper sram) = GameLoaded"
| "shape_reply (ShapeRegion body) = Region"
| "shape_reply (ShapeReady frame) = Ready frame"
| "shape_reply (ShapeFault frame code detail) = Fault detail"

lemma tag_reads:
  assumes "length (push_varint [] tag @ body) < 2 ^ 64"
  shows "decode_control_reply (push_varint [] tag @ body) =
    bind_res (decode_body tag (reading (push_varint [] tag) body)) (\<lambda>(reply, cur).
      if cu_at cur \<noteq> length (push_varint [] tag @ body) then Err TrailingBytes else Ok reply)"
  using varint_reads [of "[]" tag body] assms by (simp add: decode_control_reply_def)

lemma hello_ack_decodes:
  assumes "length (shape_bytes (ShapeHelloAck v emu version)) < 2 ^ 64" "utf8_valid emu" "utf8_valid version"
  shows "decode_control_reply (shape_bytes (ShapeHelloAck v emu version)) = Ok (HelloAck v)"
proof -
  let ?p = "push_varint [] 5 :: bytes" and ?v = "push_varint [] (ucast v)"
  have v: "unat (ucast v :: u64) < 2 ^ 16"
    using unsigned_less [of v, where 'a = nat] by (simp add: unsigned_ucast_eq take_bit_nat_eq_self)
  have u: "(ucast (ucast v :: u64) :: u16) = v" by (intro bit_word_eqI) (auto simp: bit_simps)
  show ?thesis
    using tag_reads [of 5 "?v @ push_bytes [] emu @ push_bytes [] version"]
      varint_reads [of ?p "ucast v" "push_bytes [] emu @ push_bytes [] version"]
      string_reads [of "?p @ ?v" emu "push_bytes [] version"]
      string_reads [of "?p @ ?v @ push_bytes [] emu" version "[]"] assms v u
    by (simp add: decode_body_def)
qed

lemma game_loaded_decodes:
  assumes "length (shape_bytes (ShapeGameLoaded digest mapper sram)) < 2 ^ 64" "length digest = 32" "utf8_valid mapper"
  shows "decode_control_reply (shape_bytes (ShapeGameLoaded digest mapper sram)) = Ok GameLoaded"
  using tag_reads [of 6 "digest @ push_bytes [] mapper @ push_varint [] sram"]
    take_reading [of "push_varint [] 6" digest "push_bytes [] mapper @ push_varint [] sram"]
    string_reads [of "push_varint [] 6 @ digest" mapper "push_varint [] sram"]
    varint_reads [of "push_varint [] 6 @ digest @ push_bytes [] mapper" sram "[]"] assms
  by (simp add: decode_body_def)

lemma ready_decodes:
  "length (shape_bytes (ShapeReady frame)) < 2 ^ 64 \<Longrightarrow> decode_control_reply (shape_bytes (ShapeReady frame)) = Ok (Ready frame)"
  using tag_reads [of 8 "push_varint [] frame"] varint_reads [of "push_varint [] 8" frame "[]"] by (simp add: decode_body_def)

lemma fault_decodes:
  assumes "length (shape_bytes (ShapeFault frame code detail)) < 2 ^ 64" "utf8_valid detail"
  shows "decode_control_reply (shape_bytes (ShapeFault frame code detail)) = Ok (Fault detail)"
  using tag_reads [of 10 "push_varint [] frame @ push_varint [] code @ push_bytes [] detail"]
    varint_reads [of "push_varint [] 10" frame "push_varint [] code @ push_bytes [] detail"]
    varint_reads [of "push_varint [] 10 @ push_varint [] frame" code "push_bytes [] detail"]
    string_reads [of "push_varint [] 10 @ push_varint [] frame @ push_varint [] code" detail "[]"] assms
  by (simp add: decode_body_def)

text \<open>C38. Every well-formed reply of the protocol is decoded to its meaning: the fields the agent skips may hold any
  value, and the announcement of a region any payload.\<close>

theorem decode_reply_round_trip:
  assumes "shape_ok sh" "length (shape_bytes sh) < 2 ^ 64"
  shows "decode_control_reply (shape_bytes sh) = Ok (shape_reply sh)"
proof (cases sh)
  case (ShapeRegion body)
  then show ?thesis using assms tag_reads [of 7 body] by (simp add: decode_body_def)
qed (use assms hello_ack_decodes game_loaded_decodes ready_decodes fault_decodes in simp_all)

theorem decode_reply_round_trip_witness:
  "decode_control_reply [8, 0x80, 1] = Ok (Ready 128)"
proof -
  have "push_varint [] 8 = [8]" "push_varint [] 128 = [0x80, 1]" by (simp_all add: push_varint.simps word_le_nat_alt)
  then show ?thesis using decode_reply_round_trip [of "ShapeReady 128"] by simp
qed

text \<open>The guard on the shift does not see the bits the tenth byte loses: an integer of more than 64 bits is accepted.\<close>

theorem varint_tenth_byte:
  "decode_control_reply [8, 0x80, 0x80, 0x80, 0x80, 0x80, 0x80, 0x80, 0x80, 0x80, 0x02] = Ok (Ready 0)"
  by (simp add: decode_control_reply_def decode_body_def cursor_varint_def varint_loop.simps cursor_take_def slice_def)

end
