(* ===== verification/Agent_Leg.thy ===== *)
theory Agent_Leg
  imports Agent_Control
begin

text \<open>
  What driving the workload guarantees: a leg that ends well has exchanged exactly the datagrams of the
  protocol in their order, whatever the socket and the callback do, and a harness that answers in time is
  always started.
\<close>

section \<open>The order of the datagrams\<close>

definition control_trace :: "u16 \<Rightarrow> bytes \<Rightarrow> bytes \<Rightarrow> bytes list \<Rightarrow> bytes \<Rightarrow> bytes list \<Rightarrow> bytes \<Rightarrow> control_event list" where
  "control_trace version path ack regions1 loaded regions2 ready =
     [Posted (encode_hello version), Received ack, Milestone ''boot: helloack'', Posted (encode_load_game path)] @
     map Received regions1 @ [Received loaded, Milestone ''boot: gameloaded''] @
     map Received regions2 @ [Received ready, Milestone ''boot: rw-ready'', Posted [0x02], Milestone ''boot: start-sent'']"

lemmas act_unfolds = act_bind_def act_catch_def in_ctl_def zoom_def post_def modify_def return_def fail_def of_res_def

text \<open>Partial correctness, by what an action adds to the trace.\<close>

definition adds :: "('w control_state, 'e, 'a) act \<Rightarrow> (control_event list \<Rightarrow> bool) \<Rightarrow> bool" where
  "adds f T \<longleftrightarrow> (\<forall>s a s'. f s = Some (Ok a, s') \<longrightarrow> (\<exists>tr. ct_trace s' = ct_trace s @ tr \<and> T tr))"

lemma adds_bind:
  assumes "adds f T" "\<And>a. adds (g a) U"
  shows "adds (act_bind f g) (\<lambda>tr. \<exists>x y. tr = x @ y \<and> T x \<and> U y)"
  unfolding adds_def
proof (intro allI impI)
  fix s b s' assume "act_bind f g s = Some (Ok b, s')"
  then obtain a t where "f s = Some (Ok a, t)" "g a t = Some (Ok b, s')" by (auto simp: bind_Ok)
  then obtain x y where "ct_trace t = ct_trace s @ x" "T x" "ct_trace s' = ct_trace t @ y" "U y"
    using assms unfolding adds_def by meson
  then show "\<exists>tr. ct_trace s' = ct_trace s @ tr \<and> (\<exists>x y. tr = x @ y \<and> T x \<and> U y)" by auto
qed

lemma report_trace:
  "report progress p s = Some (Ok u, s') \<Longrightarrow> ct_trace s' = ct_trace s @ (case p of Idle \<Rightarrow> [] | Passed m \<Rightarrow> [Milestone m])"
  by (auto simp: report_def act_unfolds split: option.splits res.splits control_progress.splits)

lemma milestone_trace: "milestone progress m s = Some (Ok u, s') \<Longrightarrow> ct_trace s' = ct_trace s @ [Milestone m]"
  by (auto simp: milestone_def act_catch_def fail_def split: option.splits res.splits dest!: report_trace)

lemma send_trace: "send_leg env leg bs s = Some (Ok u, s') \<Longrightarrow> ct_trace s' = ct_trace s @ [Posted bs]"
  by (auto simp: send_leg_def control_send_def act_unfolds split: option.splits res.splits prod.splits if_splits)

lemma recv_trace:
  "control_recv env progress k s = Some (Ok reply, s') \<Longrightarrow> \<exists>bs. ct_trace s' = ct_trace s @ [Received bs] \<and> decode_control_reply bs = Ok reply"
proof (induction k arbitrary: s)
  case (Suc k)
  obtain r w where r: "ce_recv env (ct_world s) = (r, w)" by fastforce
  show ?case
  proof (cases r)
    case RecvEmpty
    then obtain t where "report progress Idle (s\<lparr>ct_world := w\<rparr>) = Some (Ok (), t)" "control_recv env progress k t = Some (Ok reply, s')"
      using Suc.prems r by (auto simp: bind_Ok in_ctl_def zoom_def act_catch_def fail_def split: option.splits res.splits)
    then show ?thesis using Suc.IH report_trace by fastforce
  next
    case (Datagram d)
    then show ?thesis using Suc.prems r
      by (cases "decode_control_reply (take MAX_DATAGRAM d)") (auto simp: act_unfolds Let_def split: if_splits)
  qed (use Suc.prems r in \<open>auto simp: act_unfolds\<close>)
qed (simp add: fail_def)

text \<open>What waiting adds to the trace: skipped datagrams, then one that is accepted.\<close>

definition awaited :: "(control_reply \<Rightarrow> 'p verdict) \<Rightarrow> control_event list \<Rightarrow> bool" where
  "awaited judge tr \<longleftrightarrow> (\<exists>skipped bs reply. tr = map Received skipped @ [Received bs] \<and> decode_control_reply bs = Ok reply \<and> judge reply = Accept \<and>
    (\<forall>d \<in> set skipped. \<exists>r. decode_control_reply d = Ok r \<and> judge r = Skip))"

lemma awaited_accept: "decode_control_reply bs = Ok reply \<Longrightarrow> judge reply = Accept \<Longrightarrow> awaited judge [Received bs]"
  unfolding awaited_def by (intro exI [of _ "[]"] exI [of _ bs] exI [of _ reply]) simp

lemma awaited_skip:
  assumes "decode_control_reply d = Ok r" "judge r = Skip" "awaited judge tr"
  shows "awaited judge (Received d # tr)"
proof -
  obtain skipped bs reply where "tr = map Received skipped @ [Received bs]" "decode_control_reply bs = Ok reply" "judge reply = Accept"
      "\<forall>d \<in> set skipped. \<exists>r. decode_control_reply d = Ok r \<and> judge r = Skip"
    using assms(3) unfolding awaited_def by blast
  then show ?thesis unfolding awaited_def using assms(1,2) by (intro exI [of _ "d # skipped"]) auto
qed

lemma await_trace:
  assumes "await_reply env progress leg judge s = Some (Ok u, s')"
  shows "\<exists>tr. ct_trace s' = ct_trace s @ tr \<and> awaited judge tr"
proof -
  have "case rs of (r, s') \<Rightarrow> r = Ok u \<longrightarrow> (\<exists>tr. ct_trace s' = ct_trace s @ tr \<and> awaited judge tr)"
    if "await_reply env progress leg judge s = Some rs" for rs
    using that
  proof (induction env progress leg judge s rs rule: await_reply.raw_induct [rotated, consumes 1, case_names step])
    case (step f env progress leg judge s rs)
    note IH = step(1) and body = step(2)
    show ?case
    proof (cases "\<exists>reply t. control_recv env progress CONTROL_RECV_WAKE_LIMIT s = Some (Ok reply, t)")
      case True
      then obtain reply t d where t: "control_recv env progress CONTROL_RECV_WAKE_LIMIT s = Some (Ok reply, t)"
          "ct_trace t = ct_trace s @ [Received d]" "decode_control_reply d = Ok reply"
        using recv_trace by blast
      show ?thesis
      proof (cases "judge reply")
        case Accept
        then show ?thesis using body t awaited_accept by fastforce
      next
        case Skip
        then show ?thesis using body t IH [of env progress leg judge t rs] awaited_skip [of d reply judge] t(3) Skip by fastforce
      qed (use body t in auto)
    qed (use body in \<open>auto split: option.splits res.splits\<close>)
  qed
  then show ?thesis using assms by fastforce
qed

lemma adds_mono: "adds f T \<Longrightarrow> (\<And>tr. T tr \<Longrightarrow> U tr) \<Longrightarrow> adds f U"
  unfolding adds_def by blast

lemma adds_send: "adds (send_leg env leg bs) (\<lambda>tr. tr = [Posted bs])"
  by (auto simp: adds_def send_trace)

lemma adds_milestone: "adds (milestone progress m) (\<lambda>tr. tr = [Milestone m])"
  by (auto simp: adds_def milestone_trace)

lemma adds_await: "adds (await_reply env progress leg judge) (awaited judge)"
  by (auto simp: adds_def dest: await_trace)

lemma awaitedE:
  assumes "awaited judge tr"
  obtains skipped bs reply where "tr = map Received skipped @ [Received bs]" "decode_control_reply bs = Ok reply" "judge reply = Accept"
    "\<forall>d \<in> set skipped. \<exists>r. decode_control_reply d = Ok r \<and> judge r = Skip"
  using assms unfolding awaited_def by blast

lemma awaited_hello:
  assumes "awaited (hello_reply v :: _ \<Rightarrow> 'p verdict) tr"
  shows "\<exists>ack. tr = [Received ack] \<and> decode_control_reply ack = Ok (HelloAck v)"
proof -
  obtain skipped bs r where a: "tr = map Received skipped @ [Received bs]" "decode_control_reply bs = Ok r" "hello_reply v r = (Accept :: 'p verdict)"
      "\<forall>d \<in> set skipped. \<exists>r. decode_control_reply d = Ok r \<and> hello_reply v r = (Skip :: 'p verdict)"
    using assms by (rule awaitedE)
  have "hello_reply v r \<noteq> (Skip :: 'p verdict)" for r by (cases r) (simp_all add: hello_reply_def)
  then have "skipped = []" using a(4) by (cases skipped) auto
  moreover have "r = HelloAck v" using a(3) by (simp add: hello_reply_def split: control_reply.splits if_splits)
  ultimately show ?thesis using a by simp
qed

lemma awaited_skipping:
  assumes "awaited judge tr" "\<And>r. judge r = Skip \<Longrightarrow> r = Region" "\<And>r. judge r = Accept \<Longrightarrow> r = want"
  shows "\<exists>regions d. tr = map Received regions @ [Received d] \<and> decode_control_reply d = Ok want \<and> (\<forall>d \<in> set regions. decode_control_reply d = Ok Region)"
  using assms unfolding awaited_def by metis

lemma awaited_loaded:
  "awaited loaded_reply tr \<Longrightarrow> \<exists>regions d. tr = map Received regions @ [Received d] \<and> decode_control_reply d = Ok GameLoaded \<and> (\<forall>d \<in> set regions. decode_control_reply d = Ok Region)"
  by (rule awaited_skipping) (auto simp: loaded_reply_def split: control_reply.splits)

lemma awaited_ready:
  "awaited ready_reply tr \<Longrightarrow> \<exists>regions d. tr = map Received regions @ [Received d] \<and> decode_control_reply d = Ok (Ready 0) \<and> (\<forall>d \<in> set regions. decode_control_reply d = Ok Region)"
  by (rule awaited_skipping) (auto simp: ready_reply_def split: control_reply.splits if_splits)

text \<open>
  C16. A leg that ends well, whatever the socket and the callback do, has sent exactly \<open>Hello\<close>, \<open>LoadGame\<close> and
  \<open>Start\<close>: the second only after an acknowledgement of the very version, the last only after the game was loaded and the
  harness ready at frame zero, with nothing but announcements of regions in between, each milestone in its place.
\<close>

theorem drive_order:
  fixes env :: "'w control_env" and progress :: "('w, 'p) progress"
  assumes "drive_refwork_start env progress control path s = Some (Ok u, s')"
  shows "\<exists>version ack regions1 loaded regions2 ready. unat version = unat (uc_proto_version control) \<and>
    ct_trace s' = ct_trace s @ control_trace version path ack regions1 loaded regions2 ready \<and>
    decode_control_reply ack = Ok (HelloAck version) \<and> decode_control_reply loaded = Ok GameLoaded \<and> decode_control_reply ready = Ok (Ready 0) \<and>
    (\<forall>d \<in> set regions1 \<union> set regions2. decode_control_reply d = Ok Region)"
proof -
  let ?v = "ucast (uc_proto_version control) :: u16"
  have ok: "\<not> uc_protocol control \<noteq> lit ''refwork-ctl''" "\<not> 2 ^ 16 \<le> unat (uc_proto_version control)"
    using assms by (auto simp: drive_refwork_start_def fail_def split: if_splits)
  have "adds (drive_refwork_start env progress control path) (\<lambda>tr. \<exists>ack loaded ready.
      awaited (hello_reply ?v :: _ \<Rightarrow> 'p verdict) ack \<and> awaited (loaded_reply :: _ \<Rightarrow> 'p verdict) loaded \<and>
      awaited (ready_reply :: _ \<Rightarrow> 'p verdict) ready \<and>
      tr = Posted (encode_hello ?v) # ack @ Milestone ''boot: helloack'' # Posted (encode_load_game path) # loaded @
        Milestone ''boot: gameloaded'' # ready @ [Milestone ''boot: rw-ready'', Posted [0x02], Milestone ''boot: start-sent''])"
    unfolding drive_refwork_start_def if_not_P [OF ok(1)] if_not_P [OF ok(2)] Let_def
    by (rule adds_mono, (rule adds_bind adds_send adds_await adds_milestone)+) (elim exE conjE, intro exI conjI, assumption+, simp)
  then obtain ack loaded ready where tr: "ct_trace s' = ct_trace s @
      Posted (encode_hello ?v) # ack @ Milestone ''boot: helloack'' # Posted (encode_load_game path) # loaded @
      Milestone ''boot: gameloaded'' # ready @ [Milestone ''boot: rw-ready'', Posted [0x02], Milestone ''boot: start-sent'']"
      "awaited (hello_reply ?v :: _ \<Rightarrow> 'p verdict) ack" "awaited (loaded_reply :: _ \<Rightarrow> 'p verdict) loaded" "awaited (ready_reply :: _ \<Rightarrow> 'p verdict) ready"
    using assms unfolding adds_def by blast
  have v: "unat ?v = unat (uc_proto_version control)" using ok(2) by (simp add: unsigned_ucast_eq take_bit_nat_eq_self)
  obtain a where a: "ack = [Received a]" "decode_control_reply a = Ok (HelloAck ?v)" using awaited_hello [OF tr(2)] by blast
  obtain ls l where l: "loaded = map Received ls @ [Received l]" "decode_control_reply l = Ok GameLoaded" "\<forall>d \<in> set ls. decode_control_reply d = Ok Region"
    using awaited_loaded [OF tr(3)] by blast
  obtain rs r where r: "ready = map Received rs @ [Received r]" "decode_control_reply r = Ok (Ready 0)" "\<forall>d \<in> set rs. decode_control_reply d = Ok Region"
    using awaited_ready [OF tr(4)] by blast
  have "ct_trace s' = ct_trace s @ control_trace ?v path a ls l rs r" using tr(1) a(1) l(1) r(1) by (simp add: control_trace_def)
  then show ?thesis using v a(2) l(2,3) r(2,3) by blast
qed

section \<open>A harness that answers\<close>

text \<open>
  A socket that accepts what is sent and delivers a script, and a callback that reports no error. Each datagram may
  be preceded by wakeups that bring nothing.
\<close>

definition scripted :: "'w control_env \<Rightarrow> ('w, 'p) progress \<Rightarrow> ('w \<Rightarrow> recv_result list) \<Rightarrow> bool" where
  "scripted env progress incoming \<longleftrightarrow>
     (\<forall>bs w. \<exists>w'. ce_send env bs w = (Some (length bs), w') \<and> incoming w' = incoming w) \<and>
     (\<forall>w e es. incoming w = e # es \<longrightarrow> (\<exists>w'. ce_recv env w = (e, w') \<and> incoming w' = es)) \<and>
     (\<forall>p w. \<exists>w'. progress p w = Some (Ok (), w') \<and> incoming w' = incoming w)"

definition script :: "(nat \<times> bytes) list \<Rightarrow> recv_result list" where
  "script = concat \<circ> map (\<lambda>(k, d). replicate k RecvEmpty @ [Datagram d])"

definition timely :: "nat \<times> bytes \<Rightarrow> bool" where
  "timely = (\<lambda>(k, d). k < CONTROL_RECV_WAKE_LIMIT \<and> d \<noteq> [] \<and> length d \<le> MAX_DATAGRAM)"

lemma report_runs:
  assumes scripted: "scripted env progress incoming"
  shows "\<exists>s'. report progress p s = Some (Ok (), s') \<and> incoming (ct_world s') = incoming (ct_world s) \<and>
     ct_trace s' = ct_trace s @ (case p of Idle \<Rightarrow> [] | Passed m \<Rightarrow> [Milestone m])"
proof -
  obtain w where "progress p (ct_world s) = Some (Ok (), w)" "incoming w = incoming (ct_world s)"
    using scripted unfolding scripted_def by blast
  then show ?thesis by (auto simp: report_def act_unfolds split: control_progress.splits)
qed

lemma milestone_runs:
  assumes scripted: "scripted env progress incoming"
  shows "ends (milestone progress m) (\<lambda>_ s'. incoming (ct_world s') = incoming (ct_world s) \<and> ct_trace s' = ct_trace s @ [Milestone m]) s"
  using report_runs [OF scripted, of "Passed m" s] by (auto simp: milestone_def ends_catch)

lemma send_runs:
  assumes scripted: "scripted env progress incoming"
  shows "ends (send_leg env leg bs) (\<lambda>_ s'. incoming (ct_world s') = incoming (ct_world s) \<and> ct_trace s' = ct_trace s @ [Posted bs]) s"
proof -
  obtain w where "ce_send env bs (ct_world s) = (Some (length bs), w)" "incoming w = incoming (ct_world s)"
    using scripted unfolding scripted_def by blast
  then show ?thesis by (auto simp: ends_def send_leg_def control_send_def act_unfolds)
qed

lemma recv_runs:
  assumes scripted: "scripted env progress incoming"
    and "incoming (ct_world s) = replicate k RecvEmpty @ Datagram d # es" "k < n" "d \<noteq> []" "length d \<le> MAX_DATAGRAM" "decode_control_reply d = Ok reply"
  shows "\<exists>s'. control_recv env progress n s = Some (Ok reply, s') \<and> incoming (ct_world s') = es \<and> ct_trace s' = ct_trace s @ [Received d]"
  using assms(2-)
proof (induction n arbitrary: k s)
  case (Suc n)
  show ?case
  proof (cases k)
    case 0
    then obtain w where "ce_recv env (ct_world s) = (Datagram d, w)" "incoming w = es"
      using Suc.prems(1) scripted unfolding scripted_def by fastforce
    then show ?thesis using Suc.prems by (simp add: act_unfolds Let_def)
  next
    case (Suc j)
    then obtain w where w: "ce_recv env (ct_world s) = (RecvEmpty, w)" "incoming w = replicate j RecvEmpty @ Datagram d # es"
      using Suc.prems(1) scripted unfolding scripted_def by fastforce
    obtain t where t: "report progress Idle (s\<lparr>ct_world := w\<rparr>) = Some (Ok (), t)" "incoming (ct_world t) = incoming w" "ct_trace t = ct_trace s"
      using report_runs [OF scripted, of Idle "s\<lparr>ct_world := w\<rparr>"] by auto
    have "control_recv env progress (Suc n) s = control_recv env progress n t"
      using w(1) t(1) by (simp add: act_bind_def in_ctl_def zoom_def act_catch_def)
    moreover have "j < n" using Suc Suc.prems(2) by simp
    ultimately show ?thesis using Suc.IH [of t j] w t Suc.prems(3-5) by simp
  qed
qed simp

lemma await_runs:
  assumes scripted: "scripted env progress incoming"
    and "incoming (ct_world s) = script (skipped @ [(k, d)]) @ es" "list_all timely (skipped @ [(k, d)])"
    "decode_control_reply d = Ok reply" "judge reply = Accept" "\<forall>(k, d) \<in> set skipped. decode_control_reply d = Ok Region" "skipped \<noteq> [] \<longrightarrow> judge Region = Skip"
  shows "ends (await_reply env progress leg judge)
    (\<lambda>_ s'. incoming (ct_world s') = es \<and> ct_trace s' = ct_trace s @ map Received (map snd skipped) @ [Received d]) s"
  using assms(2-)
proof (induction skipped arbitrary: s)
  case Nil
  then obtain s' where "control_recv env progress CONTROL_RECV_WAKE_LIMIT s = Some (Ok reply, s')" "incoming (ct_world s') = es"
      "ct_trace s' = ct_trace s @ [Received d]"
    using recv_runs [OF scripted, of s k d es CONTROL_RECV_WAKE_LIMIT reply] by (auto simp: script_def timely_def)
  then show ?case using Nil by (simp add: ends_def await_reply.simps [of env progress leg judge s])
next
  case (Cons r skipped)
  obtain j b where r: "r = (j, b)" by fastforce
  obtain t where t: "control_recv env progress CONTROL_RECV_WAKE_LIMIT s = Some (Ok Region, t)"
      "incoming (ct_world t) = script (skipped @ [(k, d)]) @ es" "ct_trace t = ct_trace s @ [Received b]"
    using recv_runs [OF scripted, of s j b "script (skipped @ [(k, d)]) @ es" CONTROL_RECV_WAKE_LIMIT Region] Cons.prems
    by (auto simp: script_def timely_def r)
  have "await_reply env progress leg judge s = await_reply env progress leg judge t"
    using t(1) Cons.prems(6) by (simp add: await_reply.simps [of env progress leg judge s])
  moreover have "ends (await_reply env progress leg judge)
      (\<lambda>_ s'. incoming (ct_world s') = es \<and> ct_trace s' = ct_trace t @ map Received (map snd skipped) @ [Received d]) t"
    by (rule Cons.IH) (use Cons.prems t(2) in auto)
  ultimately show ?case using t(3) r by (simp add: ends_def)
qed

definition scripted_leg :: "u16 \<Rightarrow> nat \<times> bytes \<Rightarrow> (nat \<times> bytes) list \<Rightarrow> nat \<times> bytes \<Rightarrow> (nat \<times> bytes) list \<Rightarrow> nat \<times> bytes \<Rightarrow> bool" where
  "scripted_leg version ack regions1 loaded regions2 ready \<longleftrightarrow>
     list_all timely ([ack] @ regions1 @ [loaded] @ regions2 @ [ready]) \<and>
     decode_control_reply (snd ack) = Ok (HelloAck version) \<and> decode_control_reply (snd loaded) = Ok GameLoaded \<and> decode_control_reply (snd ready) = Ok (Ready 0) \<and>
     list_all (\<lambda>(k, d). decode_control_reply d = Ok Region) (regions1 @ regions2)"

lemma drive_runs:
  assumes "scripted env progress incoming" "uc_protocol control = lit ''refwork-ctl''" "unat (uc_proto_version control) = unat version"
    "scripted_leg version ack regions1 loaded regions2 ready"
    "incoming (ct_world s) = script ([ack] @ regions1 @ [loaded] @ regions2 @ [ready]) @ es"
  shows "ends (drive_refwork_start env progress control path)
    (\<lambda>_ s'. incoming (ct_world s') = es \<and>
       ct_trace s' = ct_trace s @ control_trace version path (snd ack) (map snd regions1) (snd loaded) (map snd regions2) (snd ready)) s"
proof -
  obtain ka da kl dl kr dr where d: "ack = (ka, da)" "loaded = (kl, dl)" "ready = (kr, dr)" by (metis surj_pair)
  have v: "(ucast (uc_proto_version control) :: u16) = version" "\<not> 2 ^ 16 \<le> unat (uc_proto_version control)"
    using assms(3) unsigned_less [of version, where 'a = nat] by (simp_all add: word_unat_eq_iff unsigned_ucast_eq take_bit_nat_eq_self)
  have ok: "\<not> uc_protocol control \<noteq> lit ''refwork-ctl''" using assms(2) by simp
  let ?rest = "script (regions2 @ [(kr, dr)]) @ es"
  let ?in = "\<lambda>s. incoming (ct_world s)"
  note leg = assms(4) [unfolded scripted_leg_def d]
  have hello: "ends (await_reply env progress HelloLeg (hello_reply version)) (\<lambda>_ s'. ?in s' = tail \<and> ct_trace s' = ct_trace t @ [Received da]) t"
    if "?in t = script [(ka, da)] @ tail" for t tail
    using await_runs [OF assms(1), of t "[]" ka da tail "HelloAck version" "hello_reply version" HelloLeg] leg that by (simp add: hello_reply_def)
  have load: "ends (await_reply env progress LoadLeg loaded_reply) (\<lambda>_ s'. ?in s' = tail \<and> ct_trace s' = ct_trace t @ map Received (map snd regions1) @ [Received dl]) t"
    if "?in t = script (regions1 @ [(kl, dl)]) @ tail" for t tail
    by (rule await_runs [OF assms(1), where reply = GameLoaded]) (use leg that in \<open>auto simp: loaded_reply_def list_all_iff\<close>)
  have go: "ends (await_reply env progress ReadyLeg ready_reply) (\<lambda>_ s'. ?in s' = tail \<and> ct_trace s' = ct_trace t @ map Received (map snd regions2) @ [Received dr]) t"
    if "?in t = script (regions2 @ [(kr, dr)]) @ tail" for t tail
    by (rule await_runs [OF assms(1), where reply = "Ready 0"]) (use leg that in \<open>auto simp: ready_reply_def list_all_iff\<close>)
  note run = send_runs [OF assms(1)] milestone_runs [OF assms(1)]
  show ?thesis
    unfolding drive_refwork_start_def if_not_P [OF ok] if_not_P [OF v(2)] Let_def v(1)
    apply (rule ends_then [OF run(1)])
    apply (rule ends_then [OF hello [of _ "script (regions1 @ [(kl, dl)]) @ ?rest"]], simp add: assms(5) d script_def)
    apply (rule ends_then [OF run(2)])
    apply (rule ends_then [OF run(1)])
    apply (rule ends_then [OF load [of _ ?rest]], simp)
    apply (rule ends_then [OF run(2)])
    apply (rule ends_then [OF go [of _ es]], simp)
    apply (rule ends_then [OF run(2)])
    apply (rule ends_then [OF run(1)])
    apply (rule ends_mono [OF run(2)])
    apply (simp add: control_trace_def d)
    done
qed

section \<open>An exchange\<close>

definition demo_control_env :: "recv_result list control_env" where
  "demo_control_env = \<lparr>ce_send = (\<lambda>bs w. (Some (length bs), w)), ce_recv = (\<lambda>w. case w of [] \<Rightarrow> (RecvFailed, []) | e # es \<Rightarrow> (e, es))\<rparr>"

definition demo_progress :: "(recv_result list, unit) progress" where
  "demo_progress p = return ()"

definition demo_control :: unit_control where
  "demo_control = \<lparr>uc_protocol = lit ''refwork-ctl'', uc_proto_version = 1, uc_game_dev = Some (lit ''/g''), uc_game_source = None\<rparr>"

definition demo_ack :: bytes where "demo_ack = [5, 1, 0, 0]"
definition demo_loaded :: bytes where "demo_loaded = 6 # replicate 32 0 @ [0, 0]"
definition demo_leg :: "recv_result list" where
  "demo_leg = script ([(2, demo_ack)] @ [(0, [7, 9])] @ [(0, demo_loaded)] @ [] @ [(1, [8, 0])])"

lemma demo_decodes:
  "decode_control_reply demo_ack = Ok (HelloAck 1)" "decode_control_reply [7, 9] = Ok Region"
  "decode_control_reply demo_loaded = Ok GameLoaded" "decode_control_reply [8, 0] = Ok (Ready 0)"
  by (simp_all add: demo_ack_def demo_loaded_def decode_control_reply_def decode_body_def cursor_varint_def cursor_string_def varint_loop.simps
      cursor_take_def slice_def)

lemma demo_scripted: "scripted demo_control_env demo_progress id"
  by (simp add: scripted_def demo_control_env_def demo_progress_def return_def)

lemma demo_legs: "scripted_leg 1 (2, demo_ack) [(0, [7, 9])] (0, demo_loaded) [] (1, [8, 0])"
  by (simp add: scripted_leg_def demo_decodes timely_def) (simp add: demo_ack_def demo_loaded_def)

lemma demo_control_ok: "uc_protocol demo_control = lit ''refwork-ctl''" "unat (uc_proto_version demo_control) = unat (1 :: u16)"
  by (simp_all add: demo_control_def)

text \<open>
  C22. A harness that answers in time is started: when every answer arrives before the limit of wakeups, with any number of
  announced regions before the two later ones, driving it returns, having exchanged exactly these datagrams and
  taken nothing else from the socket.
\<close>

theorem drive_completes:
  assumes "scripted env progress incoming" "uc_protocol control = lit ''refwork-ctl''" "unat (uc_proto_version control) = unat version"
    "scripted_leg version ack regions1 loaded regions2 ready"
    "incoming (ct_world s) = script ([ack] @ regions1 @ [loaded] @ regions2 @ [ready]) @ es"
  shows "ends (drive_refwork_start env progress control path)
    (\<lambda>_ s'. incoming (ct_world s') = es \<and>
       ct_trace s' = ct_trace s @ control_trace version path (snd ack) (map snd regions1) (snd loaded) (map snd regions2) (snd ready)) s"
  by (rule drive_runs [OF assms])

theorem drive_completes_witness:
  "ends (drive_refwork_start demo_control_env demo_progress demo_control [0x2F])
    (\<lambda>_ s'. id (ct_world s') = [] \<and> ct_trace s' = control_trace 1 [0x2F] demo_ack [[7, 9]] demo_loaded [] [8, 0])
    \<lparr>ct_trace = [], ct_world = demo_leg\<rparr>"
  using drive_completes [OF demo_scripted demo_control_ok demo_legs, of "\<lparr>ct_trace = [], ct_world = demo_leg\<rparr>" "[]" "[0x2F]"]
  by (simp add: demo_leg_def)

theorem drive_order_witness:
  "\<exists>s'. drive_refwork_start demo_control_env demo_progress demo_control [0x2F] \<lparr>ct_trace = [], ct_world = demo_leg\<rparr> = Some (Ok (), s') \<and>
    (\<exists>version ack regions1 loaded regions2 ready. unat version = 1 \<and>
      ct_trace s' = control_trace version [0x2F] ack regions1 loaded regions2 ready \<and>
      decode_control_reply ack = Ok (HelloAck version) \<and> decode_control_reply loaded = Ok GameLoaded \<and> decode_control_reply ready = Ok (Ready 0))"
proof -
  obtain s' where s': "drive_refwork_start demo_control_env demo_progress demo_control [0x2F] \<lparr>ct_trace = [], ct_world = demo_leg\<rparr> = Some (Ok (), s')"
    using drive_runs [OF demo_scripted demo_control_ok demo_legs, of "\<lparr>ct_trace = [], ct_world = demo_leg\<rparr>" "[]" "[0x2F]"]
    by (auto simp: demo_leg_def ends_def)
  obtain version ack regions1 loaded regions2 ready where "unat version = 1"
      "ct_trace s' = control_trace version [0x2F] ack regions1 loaded regions2 ready" "decode_control_reply ack = Ok (HelloAck version)"
      "decode_control_reply loaded = Ok GameLoaded" "decode_control_reply ready = Ok (Ready 0)"
    using drive_order [OF s'] demo_control_ok(2) by auto
  then show ?thesis using s' by blast
qed

end
