(* ===== verification/Agent_Manifest.thy ===== *)
theory Agent_Manifest
  imports Agent_Monad Wire_Regionipc
begin

text \<open>
  The manifest writer of \<^verbatim>\<open>crates/detguest-agent/src/region_ipc.rs\<close>: appending a region, marking one dead
  and rewriting its extents, each under the seqlock. An action on the bytes of the manifest area, whose
  error is the status of the reply.

  An area is read through its header, its 64 slots and its 1024 pool extents; the lemmas give what each
  write does to these, and the writers' effect on every branch.
\<close>

section \<open>Operations\<close>

type_synonym 'a area_act = "(bytes, u16, 'a) act"

text \<open>The loop that stores the extents from a pool index on.\<close>

primrec write_extents :: "extent list \<Rightarrow> bytes \<Rightarrow> nat \<Rightarrow> (encode_error, bytes) res" where
  "write_extents [] m i = Ok m"
| "write_extents (x # xs) m i = bind_res (Extent_write_to x m i) (\<lambda>m. write_extents xs m (i + 1))"

definition read_area :: "u16 \<Rightarrow> (bytes \<Rightarrow> (decode_error, 'a) res) \<Rightarrow> 'a area_act" where
  "read_area status f = (\<lambda>m. Some (map_err (\<lambda>_. status) (f m), m))"

definition write_region ::
  "bytes \<Rightarrow> u32 \<Rightarrow> u32 \<Rightarrow> u32 \<Rightarrow> u64 \<Rightarrow> u64 \<Rightarrow> extent list \<Rightarrow> (u32 \<times> u64) area_act" where
  "write_region name name_id layout_version flags gva len extents =
     act_bind (of_res (map_err (\<lambda>_. STATUS_BAD_REQUEST) (pack_name name))) (\<lambda>packed_name.
     act_bind (read_area STATUS_INTERNAL ManifestHeader_read_from) (\<lambda>hdr.
     act_bind (of_res (map_err (\<lambda>_. STATUS_INTERNAL) (ManifestHeader_validate hdr))) (\<lambda>_.
     if unat (mh_region_count hdr) \<ge> REGION_CAPACITY then fail STATUS_MANIFEST_FULL
     else if unat (mh_extent_count hdr) + length extents > EXTENT_CAPACITY then fail STATUS_TOO_MANY_EXTENTS
     else
       let region_id = mh_region_count hdr; extent_off = mh_extent_count hdr
       in act_bind (try_store STATUS_INTERNAL writer_begin) (\<lambda>odd_generation.
          act_bind (expect_store (\<lambda>m. write_extents extents m (unat extent_off))) (\<lambda>_.
          act_bind (expect_store (\<lambda>m. RegionEntry_write_to
             \<lparr>ent_region_id = region_id, ent_name_id = name_id, ent_layout_version = layout_version,
              ent_flags = flags, ent_gva = gva, ent_len = len, ent_extent_off = extent_off,
              ent_extent_n = of_nat (length extents), ent_name = packed_name\<rparr> m (unat region_id))) (\<lambda>_.
          act_bind (expect_store (ManifestHeader_write_to
             (hdr\<lparr>mh_generation := odd_generation,
                  mh_region_count := saturating_add (mh_region_count hdr) 1,
                  mh_extent_count := saturating_add (mh_extent_count hdr) (of_nat (length extents))\<rparr>))) (\<lambda>_.
          act_bind (try_store STATUS_INTERNAL writer_end) (\<lambda>generation.
          return (region_id, generation)))))))))"

text \<open>A store whose refusal is the internal-error status.\<close>

definition status_store :: "(bytes \<Rightarrow> (encode_error, bytes) res) \<Rightarrow> unit area_act" where
  "status_store f = try_store STATUS_INTERNAL (\<lambda>m. bind_res (f m) (\<lambda>m. Ok (m, ())))"

definition mark_region_dead :: "u32 \<Rightarrow> u64 area_act" where
  "mark_region_dead region_id =
     act_bind (read_area STATUS_INTERNAL (\<lambda>m. RegionEntry_read_from m (unat region_id))) (\<lambda>entry.
     act_bind (try_store STATUS_INTERNAL writer_begin) (\<lambda>_.
     act_bind (status_store (\<lambda>m.
        RegionEntry_write_to (entry\<lparr>ent_flags := ent_flags entry OR REGION_FLAG_DEAD\<rparr>) m (unat region_id))) (\<lambda>_.
     try_store STATUS_INTERNAL writer_end)))"

text \<open>The extents are stored one by one, so a refused store leaves the ones before it.\<close>

primrec rewrite_loop :: "extent list \<Rightarrow> nat \<Rightarrow> unit area_act" where
  "rewrite_loop [] i = return ()"
| "rewrite_loop (x # xs) i = act_bind (status_store (\<lambda>m. Extent_write_to x m i)) (\<lambda>_. rewrite_loop xs (i + 1))"

definition rewrite_extents :: "u32 \<Rightarrow> extent list \<Rightarrow> u64 area_act" where
  "rewrite_extents region_id extents =
     act_bind (read_area STATUS_INTERNAL (\<lambda>m. RegionEntry_read_from m (unat region_id))) (\<lambda>entry.
     act_bind (read_area STATUS_INTERNAL ManifestHeader_read_from) (\<lambda>hdr.
     act_bind
       (if length extents \<le> unat (ent_extent_n entry) then return (ent_extent_off entry, False)
        else if unat (mh_extent_count hdr) + length extents > EXTENT_CAPACITY then fail STATUS_TOO_MANY_EXTENTS
        else return (mh_extent_count hdr, True)) (\<lambda>(extent_off, bump_pool).
     act_bind (try_store STATUS_INTERNAL writer_begin) (\<lambda>odd.
     act_bind (rewrite_loop extents (unat extent_off)) (\<lambda>_.
     act_bind (status_store (\<lambda>m.
        RegionEntry_write_to (entry\<lparr>ent_extent_off := extent_off, ent_extent_n := of_nat (length extents)\<rparr>) m (unat region_id))) (\<lambda>_.
     act_bind
       (if bump_pool
        then status_store (ManifestHeader_write_to
               (hdr\<lparr>mh_generation := odd,
                    mh_extent_count := saturating_add (mh_extent_count hdr) (of_nat (length extents))\<rparr>))
        else return ()) (\<lambda>_.
     try_store STATUS_INTERNAL writer_end)))))))"

section \<open>The view of an area\<close>

definition area_hdr :: "bytes \<Rightarrow> manifest_header" where
  "area_hdr m = \<lparr>mh_magic = le_at 4 m 0, mh_manifest_version = le_at 2 m 4, mh_region_capacity = le_at 2 m 6,
     mh_generation = le_at 8 m 8, mh_region_count = le_at 4 m 16, mh_extent_count = le_at 4 m 20\<rparr>"

definition area_slot :: "bytes \<Rightarrow> nat \<Rightarrow> region_entry" where
  "area_slot m i = entry_parse (take 96 (drop (32 + i * 96) m))"

definition area_pool :: "bytes \<Rightarrow> nat \<Rightarrow> extent" where
  "area_pool m k = extent_parse (take 16 (drop (6176 + k * 16) m))"

definition area_len :: "bytes \<Rightarrow> bool" where
  "area_len m \<longleftrightarrow> length m = MANIFEST_TOTAL_SIZE"

named_theorems area_reads \<open>reads of an area in terms of its view\<close>
named_theorems area_writes \<open>the effect of a write on the view\<close>

lemma area_read [area_reads]:
  assumes "area_len m"
  shows "ManifestHeader_read_from m = Ok (area_hdr m)"
    and "i < 64 \<Longrightarrow> RegionEntry_read_from m i = Ok (area_slot m i)"
    and "k < 1024 \<Longrightarrow> Extent_read_from m k = Ok (area_pool m k)"
    and "read_generation m = Ok (mh_generation (area_hdr m))"
  using assms
  by (simp_all add: area_len_def area_hdr_def area_slot_def area_pool_def manifest_read_eq entries.get_eq extents.get_eq
      read_generation_eq)

lemma slot_below: "(i :: nat) < 64 \<Longrightarrow> 32 + i * 96 + 96 \<le> 6176"
  using mult_le_mono1 [of "Suc i" 64 96] by simp

lemma pool_below: "(k :: nat) < 1024 \<Longrightarrow> 6176 + k * 16 + 16 \<le> 22560"
  using mult_le_mono1 [of "Suc k" 1024 16] by simp

text \<open>The seqlock word.\<close>

lemma area_writer [area_writes]:
  assumes "area_len m" and "even (unat (mh_generation (area_hdr m)))"
  shows "\<exists>m'. writer_begin m = Ok (m', mh_generation (area_hdr m) + 1) \<and> area_len m'
     \<and> area_hdr m' = (area_hdr m)\<lparr>mh_generation := mh_generation (area_hdr m) + 1\<rparr>
     \<and> area_slot m' = area_slot m \<and> area_pool m' = area_pool m"
  using assms
  by (simp add: writer_begin_eq area_len_def area_hdr_def area_slot_def [abs_def] area_pool_def [abs_def] bufs)

lemma area_writer_end [area_writes]:
  assumes "area_len m" and "odd (unat (mh_generation (area_hdr m)))"
  shows "\<exists>m'. writer_end m = Ok (m', mh_generation (area_hdr m) + 1) \<and> area_len m'
     \<and> area_hdr m' = (area_hdr m)\<lparr>mh_generation := mh_generation (area_hdr m) + 1\<rparr>
     \<and> area_slot m' = area_slot m \<and> area_pool m' = area_pool m"
  using assms
  by (simp add: writer_end_eq area_len_def area_hdr_def area_slot_def [abs_def] area_pool_def [abs_def] bufs)

lemma area_write_hdr [area_writes]:
  assumes "area_len m"
  shows "\<exists>m'. ManifestHeader_write_to h m = Ok m' \<and> area_len m' \<and> area_hdr m' = h
     \<and> area_slot m' = area_slot m \<and> area_pool m' = area_pool m"
proof -
  have l: "length (manifest_header_bytes h) = 32" by (simp add: manifest_header_bytes_def)
  have "area_hdr (patch m 0 (manifest_header_bytes h)) = h"
    using manifest_read_written [of m h] assms l by (simp add: manifest_read_eq area_hdr_def area_len_def)
  then show ?thesis
    using assms l by (simp add: manifest_write_eq area_len_def area_slot_def [abs_def] area_pool_def [abs_def] bufs)
qed

lemma area_write_slot [area_writes]:
  assumes m: "area_len m" and i: "i < 64" and e: "entry_wf e"
  shows "\<exists>m'. RegionEntry_write_to e m i = Ok m' \<and> area_len m' \<and> area_hdr m' = area_hdr m
     \<and> (\<forall>j < 64. area_slot m' j = (if j = i then e else area_slot m j)) \<and> area_pool m' = area_pool m"
proof -
  let ?m' = "patch m (32 + i * 96) (entry_image e)"
  have w: "RegionEntry_write_to e m i = Ok ?m'"
    using m i slot_below [OF i] by (simp add: entry_write_eq [OF e] area_len_def)
  note ok = entries.put_OkD [OF e w]
  have l: "area_len ?m'" using ok(4) m by (simp add: area_len_def)
  have s: "area_slot ?m' j = (if j = i then e else area_slot m j)" if "j < 64" for j
    using entries.get_put_same [OF e w] entries.get_put_other [OF e w, of j] area_read(2) [OF l that] area_read(2) [OF m that]
    by (auto split: if_splits)
  have le: "length (entry_image e) = 96" using e by (rule entries.length_image)
  have "32 + i * 96 + 96 \<le> 22560" using slot_below [OF i] by simp
  then have p: "area_pool ?m' = area_pool m" "area_hdr ?m' = area_hdr m"
    using m le slot_below [OF i] by (simp_all add: area_pool_def [abs_def] area_hdr_def area_len_def bufs)
  show ?thesis using w l s p by blast
qed

lemma write_extents_put_all: "write_extents xs m i = extents.put_all xs m i"
  by (induction xs arbitrary: m i) simp_all

lemma area_write_extents [area_writes]:
  assumes m: "area_len m" and i: "i + length xs \<le> 1024"
  shows "\<exists>m'. write_extents xs m i = Ok m' \<and> area_len m' \<and> area_hdr m' = area_hdr m
     \<and> (\<forall>j < 64. area_slot m' j = area_slot m j)
     \<and> (\<forall>k < 1024. area_pool m' k = (if i \<le> k \<and> k < i + length xs then xs ! (k - i) else area_pool m k))"
proof -
  obtain m' where w: "extents.put_all xs m i = Ok m'"
    using extents.put_all_Ok [of xs i m] i m by (auto simp: area_len_def list_all_iff)
  note g = extents.put_all_get [OF _ w]
  have l: "area_len m'" using g m by (simp add: area_len_def list_all_iff)
  have t: "take 6176 m' = take 6176 m" using g by (simp add: list_all_iff)
  have sl: "area_slot m' j = area_slot m j" if "j < 64" for j
  proof -
    have "take 96 (drop (32 + j * 96) (take 6176 m')) = take 96 (drop (32 + j * 96) (take 6176 m))" by (simp only: t)
    moreover have "min 96 (6176 - (32 + j * 96)) = 96" using slot_below [OF that] by simp
    ultimately show ?thesis by (simp only: area_slot_def drop_take take_take)
  qed
  have hd: "area_hdr m' = area_hdr m"
    by (simp add: area_hdr_def le_at_take_cong [OF t])
  have po: "area_pool m' k = (if i \<le> k \<and> k < i + length xs then xs ! (k - i) else area_pool m k)" if "k < 1024" for k
  proof -
    have "Extent_read_from m' k = (if i \<le> k \<and> k < i + length xs then Ok (xs ! (k - i)) else Extent_read_from m k)"
      using g by (simp add: list_all_iff)
    then show ?thesis using area_read(3) [OF l that] area_read(3) [OF m that] by (auto split: if_splits)
  qed
  show ?thesis unfolding write_extents_put_all using w l sl hd po by blast
qed

section \<open>The writers\<close>

lemmas act_defs = act_bind_def of_res_def read_area_def try_store_def expect_store_def status_store_def return_def fail_def

text \<open>A closed area: a valid header and an even generation.\<close>

definition area_ok :: "bytes \<Rightarrow> bool" where
  "area_ok m \<longleftrightarrow> area_len m \<and> ManifestHeader_validate (area_hdr m) = Ok () \<and> even (unat (mh_generation (area_hdr m)))"

lemma even_plus_2: "even (unat (g + 2 :: u64)) \<longleftrightarrow> even (unat g)"
proof -
  have "even (unat ((g + 1) + 1)) \<longleftrightarrow> even (unat g)" using odd_plus_1 [of g] odd_plus_1 [of "g + 1"] by blast
  then show ?thesis by (simp add: add.assoc)
qed

lemma validate_generation [simp]: "ManifestHeader_validate (h\<lparr>mh_generation := g\<rparr>) = ManifestHeader_validate h"
  by (simp add: ManifestHeader_validate_def)

lemma valid_counts:
  assumes "ManifestHeader_validate h = Ok ()"
  shows "unat (mh_region_count h) \<le> 64" and "unat (mh_extent_count h) \<le> 1024"
    and "unat (mh_region_count h) + a \<le> 64 \<Longrightarrow> unat (mh_extent_count h) + b \<le> 1024 \<Longrightarrow>
      ManifestHeader_validate (h\<lparr>mh_region_count := saturating_add (mh_region_count h) (of_nat a),
        mh_extent_count := saturating_add (mh_extent_count h) (of_nat b)\<rparr>) = Ok ()
      \<and> unat (saturating_add (mh_region_count h) (of_nat a)) = unat (mh_region_count h) + a
      \<and> unat (saturating_add (mh_extent_count h) (of_nat b)) = unat (mh_extent_count h) + b"
proof -
  show "unat (mh_region_count h) \<le> 64" "unat (mh_extent_count h) \<le> 1024"
    using assms by (auto simp: ManifestHeader_validate_def split: if_splits)
  have sat: "unat (saturating_add x (of_nat c) :: u32) = unat x + c" if "unat x + c \<le> 1024" for x c
    using that unat_saturating_add [of x "of_nat c"] by (simp add: unat_of_nat)
  assume "unat (mh_region_count h) + a \<le> 64" "unat (mh_extent_count h) + b \<le> 1024"
  then show "ManifestHeader_validate (h\<lparr>mh_region_count := saturating_add (mh_region_count h) (of_nat a),
        mh_extent_count := saturating_add (mh_extent_count h) (of_nat b)\<rparr>) = Ok ()
      \<and> unat (saturating_add (mh_region_count h) (of_nat a)) = unat (mh_region_count h) + a
      \<and> unat (saturating_add (mh_extent_count h) (of_nat b)) = unat (mh_extent_count h) + b"
    using assms sat [of "mh_region_count h" a] sat [of "mh_extent_count h" b]
    by (auto simp: ManifestHeader_validate_def split: if_splits)
qed

lemma write_region_full:
  assumes m: "area_ok m" and name: "length name \<le> 56"
  shows "64 \<le> unat (mh_region_count (area_hdr m)) \<Longrightarrow>
      write_region name nid lv fl gva len xs m = Some (Err STATUS_MANIFEST_FULL, m)"
    and "unat (mh_region_count (area_hdr m)) < 64 \<Longrightarrow> 1024 < unat (mh_extent_count (area_hdr m)) + length xs \<Longrightarrow>
      write_region name nid lv fl gva len xs m = Some (Err STATUS_TOO_MANY_EXTENTS, m)"
proof -
  have p: "pack_name name = Ok (patch (replicate 56 0) 0 name)" using name by (simp add: pack_name_def res_simps)
  have v: "ManifestHeader_validate (area_hdr m) = Ok ()" and h: "ManifestHeader_read_from m = Ok (area_hdr m)"
    using m area_read(1) by (simp_all add: area_ok_def)
  show "64 \<le> unat (mh_region_count (area_hdr m)) \<Longrightarrow>
      write_region name nid lv fl gva len xs m = Some (Err STATUS_MANIFEST_FULL, m)"
    "unat (mh_region_count (area_hdr m)) < 64 \<Longrightarrow> 1024 < unat (mh_extent_count (area_hdr m)) + length xs \<Longrightarrow>
      write_region name nid lv fl gva len xs m = Some (Err STATUS_TOO_MANY_EXTENTS, m)"
    by (simp_all add: write_region_def act_defs p v h)
qed

lemma write_region_eq:
  assumes m: "area_ok m" and name: "length name \<le> 56" and h: "h = area_hdr m"
    and n: "unat (mh_region_count h) < 64" and x: "unat (mh_extent_count h) + length xs \<le> 1024"
    and e: "e = \<lparr>ent_region_id = mh_region_count h, ent_name_id = nid, ent_layout_version = lv, ent_flags = fl, ent_gva = gva,
      ent_len = len, ent_extent_off = mh_extent_count h, ent_extent_n = of_nat (length xs), ent_name = patch (replicate 56 0) 0 name\<rparr>"
  shows "\<exists>m'. write_region name nid lv fl gva len xs m = Some (Ok (mh_region_count h, mh_generation h + 2), m')
     \<and> area_ok m' \<and> mh_generation (area_hdr m') = mh_generation h + 2
     \<and> unat (mh_region_count (area_hdr m')) = unat (mh_region_count h) + 1
     \<and> unat (mh_extent_count (area_hdr m')) = unat (mh_extent_count h) + length xs
     \<and> (\<forall>j < 64. area_slot m' j = (if j = unat (mh_region_count h) then e else area_slot m j))
     \<and> (\<forall>k < 1024. area_pool m' k = (if unat (mh_extent_count h) \<le> k \<and> k < unat (mh_extent_count h) + length xs
          then xs ! (k - unat (mh_extent_count h)) else area_pool m k))"
proof -
  have p: "pack_name name = Ok (patch (replicate 56 0) 0 name)" using name by (simp add: pack_name_def res_simps)
  have wf: "entry_wf e" using name by (simp add: e entry_wf_def)
  have m0: "area_len m" "ManifestHeader_validate h = Ok ()" "even (unat (mh_generation h))" "ManifestHeader_read_from m = Ok h"
    using m h area_read(1) by (simp_all add: area_ok_def)
  let ?c = "h\<lparr>mh_region_count := saturating_add (mh_region_count h) 1,
      mh_extent_count := saturating_add (mh_extent_count h) (of_nat (length xs))\<rparr>"
  let ?h = "h\<lparr>mh_generation := mh_generation h + 1, mh_region_count := saturating_add (mh_region_count h) 1,
      mh_extent_count := saturating_add (mh_extent_count h) (of_nat (length xs))\<rparr>"
  note vc = valid_counts(3) [OF m0(2), of 1 "length xs"]
  obtain m1 where m1: "writer_begin m = Ok (m1, mh_generation h + 1)" "area_len m1" "area_slot m1 = area_slot m" "area_pool m1 = area_pool m"
    using area_writer [OF m0(1)] m0(3) h by auto
  obtain m2 where m2: "write_extents xs m1 (unat (mh_extent_count h)) = Ok m2" "area_len m2" "\<forall>j < 64. area_slot m2 j = area_slot m1 j"
      "\<forall>k < 1024. area_pool m2 k = (if unat (mh_extent_count h) \<le> k \<and> k < unat (mh_extent_count h) + length xs
          then xs ! (k - unat (mh_extent_count h)) else area_pool m1 k)"
    using area_write_extents [OF m1(2) x] by auto
  obtain m3 where m3: "RegionEntry_write_to e m2 (unat (mh_region_count h)) = Ok m3" "area_len m3"
      "\<forall>j < 64. area_slot m3 j = (if j = unat (mh_region_count h) then e else area_slot m2 j)" "area_pool m3 = area_pool m2"
    using area_write_slot [OF m2(2) n wf] by auto
  obtain m4 where m4: "ManifestHeader_write_to ?h m3 = Ok m4" "area_len m4" "area_hdr m4 = ?h"
      "area_slot m4 = area_slot m3" "area_pool m4 = area_pool m3"
    using area_write_hdr [OF m3(2), of ?h] by auto
  have "odd (unat (mh_generation (area_hdr m4)))" using m4(3) m0(3) odd_plus_1 [of "mh_generation h"] by simp
  then obtain m5 where m5: "writer_end m4 = Ok (m5, mh_generation h + 2)" "area_len m5"
      "area_hdr m5 = ?c\<lparr>mh_generation := mh_generation h + 2\<rparr>" "area_slot m5 = area_slot m4" "area_pool m5 = area_pool m4"
    using area_writer_end [OF m4(2)] m4(3) by (auto simp: add.assoc)
  have run: "write_region name nid lv fl gva len xs m = Some (Ok (mh_region_count h, mh_generation h + 2), m5)"
    using n x by (simp add: write_region_def act_defs p m0(2,4) m1(1) m2(1) m3(1) [unfolded e] m4(1) m5(1) Let_def)
  have "area_ok m5"
    using m5(2,3) vc n x m0(3) even_plus_2 [of "mh_generation h"] by (simp add: area_ok_def)
  moreover have "\<forall>j < 64. area_slot m5 j = (if j = unat (mh_region_count h) then e else area_slot m j)"
    using m5(4) m4(4) m3(3) m2(3) m1(3) by simp
  moreover have "\<forall>k < 1024. area_pool m5 k = (if unat (mh_extent_count h) \<le> k \<and> k < unat (mh_extent_count h) + length xs
          then xs ! (k - unat (mh_extent_count h)) else area_pool m k)"
    using m5(5) m4(5) m3(4) m2(4) m1(4) by simp
  ultimately show ?thesis using run m5(3) vc n x by (intro exI [of _ m5]) simp
qed

lemma mark_region_dead_eq:
  assumes m: "area_ok m" and i: "unat region_id < 64" and h: "h = area_hdr m"
    and e: "e = (area_slot m (unat region_id))\<lparr>ent_flags := ent_flags (area_slot m (unat region_id)) OR REGION_FLAG_DEAD\<rparr>"
  shows "\<exists>m'. mark_region_dead region_id m = Some (Ok (mh_generation h + 2), m') \<and> area_ok m'
     \<and> area_hdr m' = h\<lparr>mh_generation := mh_generation h + 2\<rparr>
     \<and> (\<forall>j < 64. area_slot m' j = (if j = unat region_id then e else area_slot m j)) \<and> area_pool m' = area_pool m"
proof -
  have m0: "area_len m" "ManifestHeader_validate h = Ok ()" "even (unat (mh_generation h))"
    using m h by (simp_all add: area_ok_def)
  have wf: "entry_wf e"
    using m0(1) slot_below [OF i] by (simp add: e entry_wf_def area_slot_def entry_parse_def area_len_def)
  obtain m1 where m1: "writer_begin m = Ok (m1, mh_generation h + 1)" "area_len m1"
      "area_hdr m1 = h\<lparr>mh_generation := mh_generation h + 1\<rparr>" "area_slot m1 = area_slot m" "area_pool m1 = area_pool m"
    using area_writer [OF m0(1)] m0(3) h by auto
  obtain m2 where m2: "RegionEntry_write_to e m1 (unat region_id) = Ok m2" "area_len m2" "area_hdr m2 = area_hdr m1"
      "\<forall>j < 64. area_slot m2 j = (if j = unat region_id then e else area_slot m1 j)" "area_pool m2 = area_pool m1"
    using area_write_slot [OF m1(2) i wf] by auto
  have "odd (unat (mh_generation (area_hdr m2)))" using m2(3) m1(3) m0(3) odd_plus_1 [of "mh_generation h"] by simp
  then obtain m3 where m3: "writer_end m2 = Ok (m3, mh_generation h + 2)" "area_len m3"
      "area_hdr m3 = h\<lparr>mh_generation := mh_generation h + 2\<rparr>" "area_slot m3 = area_slot m2" "area_pool m3 = area_pool m2"
    using area_writer_end [OF m2(2)] m2(3) m1(3) by (auto simp: add.assoc)
  have "mark_region_dead region_id m = Some (Ok (mh_generation h + 2), m3)"
    using area_read(2) [OF m0(1) i] m2(1) [unfolded e] by (simp add: mark_region_dead_def act_defs m1(1) m3(1))
  moreover have "area_ok m3" using m3(2,3) m0(2,3) even_plus_2 [of "mh_generation h"] by (simp add: area_ok_def)
  ultimately show ?thesis using m3 m2 m1 by (intro exI [of _ m3]) simp
qed

lemma rewrite_loop_eq:
  "area_len m \<Longrightarrow> i + length xs \<le> 1024 \<Longrightarrow> \<exists>m'. write_extents xs m i = Ok m' \<and> rewrite_loop xs i m = Some (Ok (), m')"
proof (induction xs arbitrary: m i)
  case Nil
  then show ?case by (simp add: return_def)
next
  case (Cons x xs)
  obtain m1 where m1: "write_extents [x] m i = Ok m1" "area_len m1" using area_write_extents [of m i "[x]"] Cons.prems by auto
  then show ?case using Cons.IH [of m1 "i + 1"] Cons.prems by (auto simp: act_defs bind_res_eq_Ok)
qed

lemma rewrite_extents_full:
  assumes m: "area_ok m" and i: "unat region_id < 64" and "unat (ent_extent_n (area_slot m (unat region_id))) < length xs"
    and "1024 < unat (mh_extent_count (area_hdr m)) + length xs"
  shows "rewrite_extents region_id xs m = Some (Err STATUS_TOO_MANY_EXTENTS, m)"
  using assms area_read(1) [of m] area_read(2) [of m "unat region_id"]
  by (simp add: area_ok_def rewrite_extents_def act_defs)

text \<open>
  Extents that fit the region's own part of the pool are rewritten there; more extents go to the end
  of the pool.
\<close>

lemma rewrite_extents_eq:
  assumes m: "area_ok m" and i: "unat region_id < 64" and h: "h = area_hdr m" and s: "s = area_slot m (unat region_id)"
    and grow: "grow \<longleftrightarrow> unat (ent_extent_n s) < length xs"
    and off: "off = (if grow then mh_extent_count h else ent_extent_off s)"
    and fit: "unat off + length xs \<le> 1024"
    and e: "e = s\<lparr>ent_extent_off := off, ent_extent_n := of_nat (length xs)\<rparr>"
  shows "\<exists>m'. rewrite_extents region_id xs m = Some (Ok (mh_generation h + 2), m') \<and> area_ok m'
     \<and> mh_region_count (area_hdr m') = mh_region_count h
     \<and> unat (mh_extent_count (area_hdr m')) = unat (mh_extent_count h) + (if grow then length xs else 0)
     \<and> mh_generation (area_hdr m') = mh_generation h + 2
     \<and> (\<forall>j < 64. area_slot m' j = (if j = unat region_id then e else area_slot m j))
     \<and> (\<forall>k < 1024. area_pool m' k = (if unat off \<le> k \<and> k < unat off + length xs then xs ! (k - unat off) else area_pool m k))"
proof -
  have m0: "area_len m" "ManifestHeader_validate h = Ok ()" "even (unat (mh_generation h))"
    using m h by (simp_all add: area_ok_def)
  have wf: "entry_wf e"
    using m0(1) slot_below [OF i] by (simp add: e s entry_wf_def area_slot_def entry_parse_def area_len_def)
  let ?h = "h\<lparr>mh_generation := mh_generation h + 1, mh_extent_count := saturating_add (mh_extent_count h) (of_nat (length xs))\<rparr>"
  let ?h' = "if grow then ?h else h\<lparr>mh_generation := mh_generation h + 1\<rparr>"
  have sel: "(if length xs \<le> unat (ent_extent_n s) then return (ent_extent_off s, False)
        else if unat (mh_extent_count h) + length xs > EXTENT_CAPACITY then fail STATUS_TOO_MANY_EXTENTS
        else return (mh_extent_count h, True)) = (return (off, grow) :: (u32 \<times> bool) area_act)"
    using grow off fit by auto
  obtain m1 where m1: "writer_begin m = Ok (m1, mh_generation h + 1)" "area_len m1"
      "area_hdr m1 = h\<lparr>mh_generation := mh_generation h + 1\<rparr>" "area_slot m1 = area_slot m" "area_pool m1 = area_pool m"
    using area_writer [OF m0(1)] m0(3) h by auto
  obtain m2 where m2: "rewrite_loop xs (unat off) m1 = Some (Ok (), m2)" "area_len m2" "area_hdr m2 = area_hdr m1"
      "\<forall>j < 64. area_slot m2 j = area_slot m1 j"
      "\<forall>k < 1024. area_pool m2 k = (if unat off \<le> k \<and> k < unat off + length xs then xs ! (k - unat off) else area_pool m1 k)"
    using rewrite_loop_eq [OF m1(2) fit] area_write_extents [OF m1(2) fit] by auto
  obtain m3 where m3: "RegionEntry_write_to e m2 (unat region_id) = Ok m3" "area_len m3" "area_hdr m3 = area_hdr m2"
      "\<forall>j < 64. area_slot m3 j = (if j = unat region_id then e else area_slot m2 j)" "area_pool m3 = area_pool m2"
    using area_write_slot [OF m2(2) i wf] by auto
  obtain m4 where m4: "(if grow then status_store (ManifestHeader_write_to ?h) else return ()) m3 = Some (Ok (), m4)"
      "area_len m4" "area_hdr m4 = ?h'" "area_slot m4 = area_slot m3" "area_pool m4 = area_pool m3"
    using area_write_hdr [OF m3(2), of ?h] m3(2,3) m2(3) m1(3) by (cases grow) (auto simp: act_defs)
  have "odd (unat (mh_generation (area_hdr m4)))" using m4(3) m0(3) odd_plus_1 [of "mh_generation h"] by simp
  then obtain m5 where m5: "writer_end m4 = Ok (m5, mh_generation h + 2)" "area_len m5"
      "area_hdr m5 = ?h'\<lparr>mh_generation := mh_generation h + 2\<rparr>" "area_slot m5 = area_slot m4" "area_pool m5 = area_pool m4"
    using area_writer_end [OF m4(2)] m4(3) by (auto simp: add.assoc)
  have run: "rewrite_extents region_id xs m = Some (Ok (mh_generation h + 2), m5)"
    using m4(1) area_read(1) [OF m0(1)] area_read(2) [OF m0(1) i]
    unfolding rewrite_extents_def
    by (simp add: act_bind_def read_area_def h [symmetric] s [symmetric] sel)
       (simp add: act_defs m1(1) m2(1) m3(1) [unfolded e] m4(1) m5(1))
  have vc: "grow \<Longrightarrow> ManifestHeader_validate (h\<lparr>mh_extent_count := saturating_add (mh_extent_count h) (of_nat (length xs))\<rparr>) = Ok ()
      \<and> unat (saturating_add (mh_extent_count h) (of_nat (length xs))) = unat (mh_extent_count h) + length xs"
    using valid_counts(1) [OF m0(2)] valid_counts(3) [OF m0(2), of 0 "length xs"] fit off by (simp add: saturating_add_def)
  then have "area_ok m5"
    using m5(2,3) m0(2,3) even_plus_2 [of "mh_generation h"] by (auto simp: area_ok_def ManifestHeader_validate_def split: if_splits)
  then show ?thesis using run m5 m4 m3 m2 m1 vc by (intro exI [of _ m5]) (cases grow; simp)
qed

end
