(* ===== verification/Agent_Channel.thy ===== *)
theory Agent_Channel
  imports Agent_Monad Page_Ring Wire_Manifest
begin

text \<open>
  The agent's end of the channel: \<^verbatim>\<open>crates/detguest-agent/src/channel.rs\<close> and \<^verbatim>\<open>pio.rs\<close>.

  An \<open>agent_channel\<close> is the handle together with what it reaches: the mapped page, the process-wide
  event clock of \<^verbatim>\<open>supervise.rs\<close> and the world behind the ports. A port access exits to the hypervisor,
  which may use the page before it answers; the two operations of \<open>agent_env\<close> are those exits. The
  rings always have the canonical geometry. Emitting a critical event retries until the host has made
  room, which may never happen, so emission is a partial function.
\<close>

section \<open>Ports\<close>

record 'w agent_env =
  ae_out :: "u16 \<Rightarrow> u32 \<Rightarrow> 'w \<times> bytes \<Rightarrow> 'w \<times> bytes"
  ae_in :: "u16 \<Rightarrow> 'w \<times> bytes \<Rightarrow> u32 \<times> 'w \<times> bytes"

record 'w agent_channel =
  ac_page :: bytes
  ac_prod_a :: producer
  ac_cons_c :: consumer
  ac_scratch :: bytes
  ac_vnanos :: u64
  ac_world :: 'w

type_synonym ('w, 'e, 'a) channel_act = "('w agent_channel, 'e, 'a) act"

definition out32 :: "'w agent_env \<Rightarrow> u16 \<Rightarrow> u32 \<Rightarrow> 'w agent_channel \<Rightarrow> 'w agent_channel" where
  "out32 env port value c =
     (case ae_out env port value (ac_world c, ac_page c) of (w, page) \<Rightarrow> c\<lparr>ac_world := w, ac_page := page\<rparr>)"

definition in32 :: "'w agent_env \<Rightarrow> u16 \<Rightarrow> 'w agent_channel \<Rightarrow> u32 \<times> 'w agent_channel" where
  "in32 env port c =
     (case ae_in env port (ac_world c, ac_page c) of (v, w, page) \<Rightarrow> (v, c\<lparr>ac_world := w, ac_page := page\<rparr>))"

definition ident_ok :: "'w agent_env \<Rightarrow> 'w agent_channel \<Rightarrow> bool \<times> 'w agent_channel" where
  "ident_ok env c = (case in32 env PORT_IDENT c of (v, c) \<Rightarrow> (v = IDENT_VALUE, c))"

definition channel_init :: "'w agent_env \<Rightarrow> u64 \<Rightarrow> u32 \<Rightarrow> 'w agent_channel \<Rightarrow> u32 \<times> 'w agent_channel" where
  "channel_init env gpa size_pages c =
     in32 env PORT_INIT_GO
       (out32 env PORT_INIT_GO size_pages
         (out32 env PORT_INIT_HI (ucast (drop_bit 32 gpa))
           (out32 env PORT_INIT_LO (ucast gpa) c)))"

definition agent_doorbell :: "'w agent_env \<Rightarrow> u32 \<Rightarrow> 'w agent_channel \<Rightarrow> 'w agent_channel" where
  "agent_doorbell env msk c = out32 env PORT_DOORBELL msk c"

text \<open>The event clock: a counter that every use advances.\<close>

definition next_vnanos :: "('w, 'e, u64) channel_act" where
  "next_vnanos c = Some (Ok (ac_vnanos c), c\<lparr>ac_vnanos := ac_vnanos c + 1\<rparr>)"

section \<open>The channel\<close>

text \<open>\<open>unwrap\<close> and \<open>expect\<close>: an error is a panic.\<close>

definition unwrap_res :: "('e, 'a) res \<Rightarrow> ('f, 'a) res" where
  "unwrap_res r = (case r of Ok a \<Rightarrow> Ok a | _ \<Rightarrow> Panic)"

definition agent_init_at :: "u64 \<Rightarrow> 'w \<Rightarrow> bytes \<Rightarrow> ('e, 'w agent_channel) res" where
  "agent_init_at vnanos w page =
     bind_res (unwrap_res (ChannelHeader_write_to ChannelHeader_canonical (replicate OFF_RESERVED 0))) (\<lambda>hdr.
     bind_res (unwrap_res (init_manifest (replicate MANIFEST_TOTAL_SIZE 0))) (\<lambda>area.
     bind_res (Producer_from_raw (rd_size (canonical_desc RingA)) 0) (\<lambda>prod_a.
     bind_res (Consumer_from_raw (rd_size (canonical_desc RingC))) (\<lambda>cons_c.
     Ok \<lparr>ac_page = patch (patch page 0 hdr) OFF_MANIFEST area, ac_prod_a = prod_a, ac_cons_c = cons_c,
         ac_scratch = replicate MAX_RECORD_LEN 0, ac_vnanos = vnanos, ac_world = w\<rparr>))))"

definition agent_manifest :: "'w agent_channel \<Rightarrow> bytes" where
  "agent_manifest c = take MANIFEST_TOTAL_SIZE (drop OFF_MANIFEST (ac_page c))"

text \<open>Storing through \<open>manifest_mut\<close>.\<close>

definition set_manifest :: "bytes \<Rightarrow> 'w agent_channel \<Rightarrow> 'w agent_channel" where
  "set_manifest area c = c\<lparr>ac_page := patch (ac_page c) OFF_MANIFEST area\<rparr>"

text \<open>\<open>copy_manifest_stable\<close>: \<open>areas k\<close> is the manifest area that the \<open>k\<close>-th access sees.\<close>

primrec copy_stable_loop :: "(nat \<Rightarrow> bytes) \<Rightarrow> nat \<Rightarrow> nat \<Rightarrow> (decode_error, bytes) res" where
  "copy_stable_loop areas 0 = (\<lambda>k. Err BadField)"
| "copy_stable_loop areas (Suc n) = (\<lambda>k.
     bind_res (read_generation (areas k)) (\<lambda>before.
     if before mod 2 \<noteq> 0 then copy_stable_loop areas n (k + 1)
     else let copy = areas (k + 1)
          in bind_res (read_generation (areas (k + 2))) (\<lambda>after.
             if before = after \<and> after mod 2 = 0 then Ok copy else copy_stable_loop areas n (k + 3))))"

definition copy_manifest_stable :: "'w agent_channel \<Rightarrow> (decode_error, bytes) res" where
  "copy_manifest_stable c = copy_stable_loop (\<lambda>_. agent_manifest c) 1024 0"

definition set_agent_ready :: "'w agent_channel \<Rightarrow> 'w agent_channel" where
  "set_agent_ready c =
     c\<lparr>ac_page := patch (ac_page c) OFF_HEADER_FLAGS
        (to_le_bytes 4 (le_at 4 (ac_page c) OFF_HEADER_FLAGS OR FLAG_AGENT_READY))\<rparr>"

section \<open>Emission\<close>

definition agent_event_kind :: "event_payload \<Rightarrow> event_kind" where
  "agent_event_kind ev =
     (case ev of
        Ev_Pad \<Rightarrow> EK_Pad
      | Ev_Hello _ _ _ \<Rightarrow> EK_Hello
      | Ev_NameIntern _ _ \<Rightarrow> EK_NameIntern
      | Ev_AssertViolation _ _ _ \<Rightarrow> EK_AssertViolation
      | Ev_Reachable _ \<Rightarrow> EK_Reachable
      | Ev_Beacon _ \<Rightarrow> EK_Beacon
      | Ev_InjectQuery _ _ \<Rightarrow> EK_InjectQuery
      | Ev_RegionRegister _ \<Rightarrow> EK_RegionRegister
      | Ev_RegionUpdate _ \<Rightarrow> EK_RegionUpdate
      | Ev_WorkloadStarted _ _ \<Rightarrow> EK_WorkloadStarted
      | Ev_WorkloadExited _ _ _ \<Rightarrow> EK_WorkloadExited
      | Ev_LogLine _ _ _ \<Rightarrow> EK_LogLine
      | Ev_QuiesceReady _ \<Rightarrow> EK_QuiesceReady
      | Ev_FrameMark _ \<Rightarrow> EK_FrameMark
      | Ev_Ready _ _ _ \<Rightarrow> EK_Ready)"

definition bump_drop_counters :: "u64 \<Rightarrow> 'w agent_channel \<Rightarrow> 'w agent_channel" where
  "bump_drop_counters n c =
     (let page = patch (ac_page c) OFF_RING_A_DROPPED_RECORDS
                   (to_le_bytes 8 (le_at 8 (ac_page c) OFF_RING_A_DROPPED_RECORDS + 1 :: u64))
      in c\<lparr>ac_page := patch page OFF_RING_A_DROPPED_BYTES
             (to_le_bytes 8 (le_at 8 page OFF_RING_A_DROPPED_BYTES + n))\<rparr>)"

partial_function (option) emit_loop ::
  "'w agent_env \<Rightarrow> nat \<Rightarrow> u64 \<Rightarrow> u8 \<Rightarrow> event_payload \<Rightarrow> 'w agent_channel \<Rightarrow> (('e, bool) res \<times> 'w agent_channel) option" where
  "emit_loop env len vnanos flags ev c =
     (case page_push ChannelHeader_canonical RingA (ac_prod_a c) (ac_page c) len
             (\<lambda>buf seq. encode_event buf seq vnanos flags ev) of
        (r, p, page) \<Rightarrow>
          (let c = c\<lparr>ac_prod_a := p, ac_page := page\<rparr>
           in case r of
                Ok _ \<Rightarrow> Some (Ok True, c)
              | Panic \<Rightarrow> Some (Panic, c)
              | Err _ \<Rightarrow>
                  if EventKind_is_critical (agent_event_kind ev)
                  then emit_loop env len vnanos flags ev (agent_doorbell env DOORBELL_RING_A c)
                  else Some (Ok False, bump_drop_counters (of_nat len) c)))"

definition agent_emit :: "'w agent_env \<Rightarrow> u64 \<Rightarrow> u8 \<Rightarrow> event_payload \<Rightarrow> ('w, 'e, bool) channel_act" where
  "agent_emit env vnanos flags ev = emit_loop env (encoded_event_len ev) vnanos flags ev"

definition emit_with_doorbell :: "'w agent_env \<Rightarrow> u64 \<Rightarrow> u8 \<Rightarrow> event_payload \<Rightarrow> ('w, 'e, bool) channel_act" where
  "emit_with_doorbell env vnanos flags ev =
     act_bind (agent_emit env vnanos flags ev) (\<lambda>landed.
     act_bind (modify (agent_doorbell env DOORBELL_RING_A)) (\<lambda>_.
     return landed))"

text \<open>The calls \<open>channel.emit(vnanos(), 0, &ev)\<close> and \<open>channel.emit_with_doorbell(vnanos(), 0, &ev)\<close>.\<close>

definition emit_now :: "'w agent_env \<Rightarrow> event_payload \<Rightarrow> ('w, 'e, unit) channel_act" where
  "emit_now env ev = act_bind next_vnanos (\<lambda>v. act_bind (agent_emit env v 0 ev) (\<lambda>_. return ()))"

definition emit_ring_now :: "'w agent_env \<Rightarrow> event_payload \<Rightarrow> ('w, 'e, unit) channel_act" where
  "emit_ring_now env ev = act_bind next_vnanos (\<lambda>v. act_bind (emit_with_doorbell env v 0 ev) (\<lambda>_. return ()))"

section \<open>Commands\<close>

function poll_commands ::
  "consumer \<Rightarrow> ring_mem \<Rightarrow> bytes \<Rightarrow> (decode_error, command option) res \<times> ring_mem \<times> bytes" where
  "poll_commands c rm scratch =
     (case pop_into c rm scratch of
        (Ok None, rm, scratch) \<Rightarrow> (Ok None, rm, scratch)
      | (Err e, rm, scratch) \<Rightarrow> (Err e, rm, scratch)
      | (Panic, rm, scratch) \<Rightarrow> (Panic, rm, scratch)
      | (Ok (Some n), rm', scratch) \<Rightarrow>
          (case (bind_res (slice scratch 0 n) (\<lambda>rec. bind_res (index rec 2) (\<lambda>k. Ok (rec, k))) :: (unit, bytes \<times> u8) res) of
             Ok (rec, k) \<Rightarrow>
               if k = EventKind_as_u8 EK_Pad then poll_commands c rm' scratch
               else (case decode_command rec of
                       Ok (_, cmd) \<Rightarrow> (Ok (Some cmd), rm', scratch)
                     | Err (UnknownKind _) \<Rightarrow> poll_commands c rm' scratch
                     | Err e \<Rightarrow> (Err e, rm', scratch)
                     | Panic \<Rightarrow> (Panic, rm', scratch))
           | _ \<Rightarrow> (Panic, rm', scratch)))"
  by pat_completeness auto
termination
  by (relation "measure (\<lambda>(c, rm, scratch). unat (used (rm_prod rm) (rm_cons rm)))") (auto dest: sym [THEN pop_into_decreases(1)])

declare poll_commands.simps [simp del]

definition poll_command :: "('w, decode_error, command option) channel_act" where
  "poll_command c =
     (case poll_commands (ac_cons_c c) (page_ring ChannelHeader_canonical (ac_page c) RingC) (ac_scratch c) of
        (r, rm, scratch) \<Rightarrow>
          Some (r, c\<lparr>ac_page := patch (ac_page c) (cons_offset RingC) (to_le_bytes 4 (rm_cons rm)), ac_scratch := scratch\<rparr>))"

section \<open>The quiesce relay\<close>

definition relay_record :: "u64 \<Rightarrow> workload_ctrl \<Rightarrow> bytes \<Rightarrow> (ring_full, bytes) res" where
  "relay_record vnanos rec page =
     (let desc = canonical_desc RingI;
          prd = le_at 4 page (prod_offset RingI); cons = le_at 4 page (cons_offset RingI);
          total = record_len 8; needed = bytes_needed prd (rd_size desc) (of_nat total);
          msk = rd_size desc - 1
      in if free prd cons (rd_size desc) < needed then Err RingFull
         else
           bind_res
             (if needed > of_nat total
              then let tail = unat (contiguous_tail prd (rd_size desc))
                   in bind_res (unwrap_res (encode_pad (replicate tail 0) tail (drop_bit 3 prd))) (\<lambda>(pad, _).
                      Ok (patch page (unat (rd_offset desc) + unat (prd AND msk)) pad, prd + of_nat tail))
              else Ok (page, prd)) (\<lambda>(page, pos).
           bind_res (unwrap_res (encode_workload_ctrl (replicate 32 0) (drop_bit 3 pos) vnanos rec)) (\<lambda>(buf, n).
           Ok (patch (patch page (unat (rd_offset desc) + unat (pos AND msk)) (take n buf))
                 (prod_offset RingI) (to_le_bytes 4 (prd + needed))))))"

definition relay_workload_ctrl :: "u64 \<Rightarrow> workload_ctrl \<Rightarrow> ('w, ring_full, unit) channel_act" where
  "relay_workload_ctrl vnanos rec c =
     (case relay_record vnanos rec (ac_page c) of
        Ok page \<Rightarrow> Some (Ok (), c\<lparr>ac_page := page\<rparr>)
      | Err e \<Rightarrow> Some (Err e, c)
      | Panic \<Rightarrow> Some (Panic, c))"

section \<open>Emission against a serving host\<close>

abbreviation canonical :: channel_header where
  "canonical \<equiv> ChannelHeader_canonical"

text \<open>
  What the agent relies on when it rings the doorbell: the host takes some of the records queued on
  ring A, in order, and after finitely many rings it has taken them all; it changes neither the header
  fields nor the manifest area. \<open>winv\<close> is the host's own invariant, \<open>patience\<close> bounds the rings it may
  still leave records behind, and \<open>log\<close> lists the records it has taken, pads aside.
\<close>

definition agent_served :: "'w agent_env \<Rightarrow> ('w \<Rightarrow> bool) \<Rightarrow> ('w \<Rightarrow> nat) \<Rightarrow> ('w \<Rightarrow> bytes list) \<Rightarrow> bool" where
  "agent_served env winv patience log \<longleftrightarrow>
     (\<forall>w page p recs. winv w \<and> page_queue canonical RingA p page recs \<longrightarrow>
        (\<exists>w' page' got recs'. ae_out env PORT_DOORBELL DOORBELL_RING_A (w, page) = (w', page')
           \<and> winv w' \<and> recs = got @ recs' \<and> page_queue canonical RingA p page' recs'
           \<and> log w' = log w @ payload_records got \<and> (recs' = [] \<or> patience w' < patience w)
           \<and> take 0x100 page' = take 0x100 page \<and> take 0x7000 (drop 0x1000 page') = take 0x7000 (drop 0x1000 page)))"

text \<open>All that the agent ever published: what the host has taken, then what is still queued.\<close>

definition on_ring_a :: "('w \<Rightarrow> bytes list) \<Rightarrow> 'w agent_channel \<Rightarrow> bytes list \<Rightarrow> bool" where
  "on_ring_a log c strm \<longleftrightarrow> (\<exists>recs. page_queue canonical RingA (ac_prod_a c) (ac_page c) recs
     \<and> strm = log (ac_world c) @ payload_records recs)"

text \<open>What emission leaves alone.\<close>

definition emit_frame :: "'w agent_channel \<Rightarrow> 'w agent_channel \<Rightarrow> bool" where
  "emit_frame c c' \<longleftrightarrow> ac_cons_c c' = ac_cons_c c \<and> ac_scratch c' = ac_scratch c \<and> ac_vnanos c' = ac_vnanos c
     \<and> take 0x7000 (drop 0x1000 (ac_page c')) = take 0x7000 (drop 0x1000 (ac_page c))"

lemma emit_frame_refl: "emit_frame c c"
  by (simp add: emit_frame_def)

lemma emit_frame_trans: "emit_frame a b \<Longrightarrow> emit_frame b c \<Longrightarrow> emit_frame a c"
  by (simp add: emit_frame_def)

lemma emit_frame_manifest: "emit_frame c c' \<Longrightarrow> agent_manifest c' = agent_manifest c"
proof -
  assume "emit_frame c c'"
  then have "take 22560 (take 0x7000 (drop 0x1000 (ac_page c'))) = take 22560 (take 0x7000 (drop 0x1000 (ac_page c)))"
    by (simp add: emit_frame_def)
  then show ?thesis by (simp add: agent_manifest_def)
qed

text \<open>The drop counters lie in front of the index cells and the manifest.\<close>

lemma bump_drop_reads:
  assumes "length (ac_page c) = CHANNEL_SIZE"
  shows "le_at 8 (ac_page (bump_drop_counters n c)) OFF_RING_A_DROPPED_RECORDS
           = (le_at 8 (ac_page c) OFF_RING_A_DROPPED_RECORDS + 1 :: u64)"
    and "le_at 8 (ac_page (bump_drop_counters n c)) OFF_RING_A_DROPPED_BYTES
           = (le_at 8 (ac_page c) OFF_RING_A_DROPPED_BYTES + n :: u64)"
    and "length (ac_page (bump_drop_counters n c)) = CHANNEL_SIZE"
    and "page_ring canonical (ac_page (bump_drop_counters n c)) a = page_ring canonical (ac_page c) a"
    and "emit_frame c (bump_drop_counters n c)"
  using assms
  by (simp_all add: bump_drop_counters_def Let_def le_at_patch_same le_at_patch_before le_at_patch_after
      page_ring_low [OF canonical_descs canonical_valid] emit_frame_def take_drop_patch_after)

definition dropped :: "'w agent_channel \<Rightarrow> u64 \<times> u64" where
  "dropped c = (le_at 8 (ac_page c) OFF_RING_A_DROPPED_RECORDS, le_at 8 (ac_page c) OFF_RING_A_DROPPED_BYTES)"

lemma dropped_low:
  assumes "take 0x100 (ac_page c') = take 0x100 (ac_page c)"
  shows "dropped c' = dropped c"
proof -
  have "take 8 (drop k (take 0x100 (ac_page c'))) = take 8 (drop k (take 0x100 (ac_page c)))" for k using assms by simp
  from this [of "0x40"] this [of "0x48"] show ?thesis by (simp add: dropped_def le_at_def take_drop min_def)
qed

lemma dropped_page: "ac_page c' = ac_page c \<Longrightarrow> dropped c' = dropped c"
  by (simp add: dropped_def)

lemma emit_loop_critical:
  fixes c :: "'w agent_channel"
  assumes s: "agent_served env winv patience log" and x: "event_item_ok (vn, extra, ev)"
    and crit: "EventKind_is_critical (agent_event_kind ev)"
  shows "winv (ac_world c) \<Longrightarrow> on_ring_a log c strm \<Longrightarrow>
     \<exists>seq c'. emit_loop env (encoded_event_len ev) vn extra ev c = Some (Ok True :: ('e, bool) res, c')
       \<and> winv (ac_world c') \<and> on_ring_a log c' (strm @ [item_image seq (vn, extra, ev)]) \<and> emit_frame c c' \<and> dropped c' = dropped c"
proof -
  assume "winv (ac_world c)" and "on_ring_a log c strm"
  then obtain recs where "winv (ac_world c)" "page_queue canonical RingA (ac_prod_a c) (ac_page c) recs"
      "strm = log (ac_world c) @ payload_records recs" by (auto simp: on_ring_a_def)
  then show ?thesis
  proof (induction "if recs = [] then 0 else Suc (patience (ac_world c))" arbitrary: c recs rule: less_induct)
    case less
    note cases = page_push_cases [OF less.prems(2) x]
    let ?enc = "\<lambda>buf seq. encode_event buf seq vn extra ev"
    show ?case
    proof (cases "page_push canonical RingA (ac_prod_a c) (ac_page c) (encoded_event_len ev) ?enc = (Err RingFull, ac_prod_a c, ac_page c)")
      case False
      then obtain seq page' ps where p: "page_push canonical RingA (ac_prod_a c) (ac_page c) (encoded_event_len ev) ?enc
            = (Ok seq, (ac_prod_a c)\<lparr>pr_next_seq := seq + 1\<rparr>, page')"
          "page_queue canonical RingA (ac_prod_a c) page' (recs @ ps @ [item_image seq (vn, extra, ev)])"
          "list_all is_pad_record ps" "push_frame canonical RingA (ac_page c) page'"
        using cases by (auto split: if_splits)
      let ?c = "c\<lparr>ac_prod_a := (ac_prod_a c)\<lparr>pr_next_seq := seq + 1\<rparr>, ac_page := page'\<rparr>"
      have "on_ring_a log ?c (strm @ [item_image seq (vn, extra, ev)])"
        using p(2) payload_item [OF p(3) x] less.prems(3)
        by (auto simp: on_ring_a_def intro!: exI [of _ "recs @ ps @ [item_image seq (vn, extra, ev)]"])
      moreover have "emit_frame c ?c" using p(4) by (simp add: emit_frame_def push_frame_def)
      moreover have "dropped ?c = dropped c" by (rule dropped_low) (use p(4) in \<open>simp add: push_frame_def\<close>)
      ultimately show ?thesis
        using p(1) less.prems(1) by (intro exI [of _ seq] exI [of _ ?c]) (simp add: emit_loop.simps [of env _ _ _ _ c])
    next
      case full: True
      then have ne: "recs \<noteq> []"
        using cases empty_fits [OF _ x] less.prems(2) by (auto simp: page_queue_def split: if_splits)
      obtain w' page' got recs' where d: "ae_out env PORT_DOORBELL DOORBELL_RING_A (ac_world c, ac_page c) = (w', page')"
          "winv w'" "recs = got @ recs'" "page_queue canonical RingA (ac_prod_a c) page' recs'"
          "log w' = log (ac_world c) @ payload_records got" "recs' = [] \<or> patience w' < patience (ac_world c)"
          "take 0x7000 (drop 0x1000 page') = take 0x7000 (drop 0x1000 (ac_page c))" "take 0x100 page' = take 0x100 (ac_page c)"
        using s less.prems unfolding agent_served_def by blast
      let ?c = "c\<lparr>ac_world := w', ac_page := page'\<rparr>"
      have step: "emit_loop env (encoded_event_len ev) vn extra ev c
          = (emit_loop env (encoded_event_len ev) vn extra ev ?c :: (('e, bool) res \<times> 'w agent_channel) option)"
        using full d(1) crit by (subst emit_loop.simps) (simp add: agent_doorbell_def out32_def)
      have lt: "(if recs' = [] then 0 else Suc (patience (ac_world ?c))) < (if recs = [] then 0 else Suc (patience (ac_world c)))"
        using d(6) ne by auto
      have "strm = log (ac_world ?c) @ payload_records recs'" using less.prems(3) d(3,5) by simp
      from less.hyps [OF lt _ _ this] d(2,4)
      obtain seq c' where c': "emit_loop env (encoded_event_len ev) vn extra ev ?c = Some (Ok True :: ('e, bool) res, c')"
          "winv (ac_world c')" "on_ring_a log c' (strm @ [item_image seq (vn, extra, ev)])" "emit_frame ?c c'" "dropped c' = dropped ?c" by auto
      have f: "emit_frame c ?c" using d(7) by (simp add: emit_frame_def)
      have "dropped ?c = dropped c" by (rule dropped_low) (use d(8) in simp)
      with c'(5) have "dropped c' = dropped c" by (rule trans)
      with c'(1-3) emit_frame_trans [OF f c'(4)] show ?thesis unfolding step by blast
    qed
  qed
qed

lemma emit_loop_droppable:
  assumes x: "event_item_ok (vn, extra, ev)" and drop: "\<not> EventKind_is_critical (agent_event_kind ev)"
    and q: "page_queue canonical RingA (ac_prod_a c) (ac_page c) recs"
  shows "\<exists>c'. ac_world c' = ac_world c \<and> emit_frame c c'
     \<and> ((\<exists>seq ps. emit_loop env (encoded_event_len ev) vn extra ev c = Some (Ok True, c') \<and> list_all is_pad_record ps \<and> dropped c' = dropped c
           \<and> page_queue canonical RingA (ac_prod_a c') (ac_page c') (recs @ ps @ [item_image seq (vn, extra, ev)]))
        \<or> (emit_loop env (encoded_event_len ev) vn extra ev c = Some (Ok False, c')
           \<and> page_queue canonical RingA (ac_prod_a c') (ac_page c') recs
           \<and> le_at 8 (ac_page c') OFF_RING_A_DROPPED_RECORDS = (le_at 8 (ac_page c) OFF_RING_A_DROPPED_RECORDS + 1 :: u64)
           \<and> le_at 8 (ac_page c') OFF_RING_A_DROPPED_BYTES
             = (le_at 8 (ac_page c) OFF_RING_A_DROPPED_BYTES + of_nat (encoded_event_len ev) :: u64)))"
proof -
  let ?enc = "\<lambda>buf seq. encode_event buf seq vn extra ev" and ?len = "encoded_event_len ev"
  note cases = page_push_cases [OF q x]
  have len: "length (ac_page c) = CHANNEL_SIZE" using q by (simp add: page_queue_def)
  show ?thesis
  proof (cases "page_push canonical RingA (ac_prod_a c) (ac_page c) ?len ?enc = (Err RingFull, ac_prod_a c, ac_page c)")
    case True
    let ?c = "bump_drop_counters (of_nat ?len) c"
    have "emit_loop env ?len vn extra ev c = Some (Ok False, ?c)"
      using True drop by (simp add: emit_loop.simps [of env _ _ _ _ c])
    moreover have "ac_prod_a ?c = ac_prod_a c" "ac_world ?c = ac_world c" by (simp_all add: bump_drop_counters_def Let_def)
    ultimately show ?thesis
      using bump_drop_reads [OF len] q by (intro exI [of _ ?c]) (auto simp: page_queue_def)
  next
    case False
    then obtain seq page' ps where p: "page_push canonical RingA (ac_prod_a c) (ac_page c) ?len ?enc
          = (Ok seq, (ac_prod_a c)\<lparr>pr_next_seq := seq + 1\<rparr>, page')"
        "page_queue canonical RingA (ac_prod_a c) page' (recs @ ps @ [item_image seq (vn, extra, ev)])"
        "list_all is_pad_record ps" "push_frame canonical RingA (ac_page c) page'"
      using cases by (auto split: if_splits)
    let ?c = "c\<lparr>ac_prod_a := (ac_prod_a c)\<lparr>pr_next_seq := seq + 1\<rparr>, ac_page := page'\<rparr>"
    have "emit_loop env ?len vn extra ev c = Some (Ok True, ?c)" "emit_frame c ?c"
      using p(1,4) by (simp_all add: emit_loop.simps [of env _ _ _ _ c] emit_frame_def push_frame_def)
    moreover have "dropped ?c = dropped c" by (rule dropped_low) (use p(4) in \<open>simp add: push_frame_def\<close>)
    ultimately show ?thesis using p(2,3) by (intro exI [of _ ?c]) auto
  qed
qed

text \<open>The state in which the agent emits, and what one emission makes of it.\<close>

definition emitting :: "('w \<Rightarrow> bool) \<Rightarrow> ('w \<Rightarrow> bytes list) \<Rightarrow> bytes list \<Rightarrow> 'w agent_channel \<Rightarrow> bool" where
  "emitting winv log strm c \<longleftrightarrow> winv (ac_world c) \<and> on_ring_a log c strm"

definition emitted :: "bool \<Rightarrow> u64 \<Rightarrow> u8 \<Rightarrow> event_payload \<Rightarrow> bytes list \<Rightarrow> bytes list \<Rightarrow> 'w agent_channel \<Rightarrow> 'w agent_channel \<Rightarrow> bool" where
  "emitted landed vn flags ev strm strm' c c' \<longleftrightarrow>
     (if landed then (\<exists>seq. strm' = strm @ [item_image seq (vn, flags, ev)]) \<and> dropped c' = dropped c
      else \<not> EventKind_is_critical (agent_event_kind ev) \<and> strm' = strm
        \<and> dropped c' = (fst (dropped c) + 1, snd (dropped c) + of_nat (encoded_event_len ev)))"

lemma agent_emit_ends:
  assumes "agent_served env winv patience log" and "event_item_ok (vn, flags, ev)" and "emitting winv log strm c"
  shows "ends (agent_emit env vn flags ev :: ('w, 'e, bool) channel_act)
     (\<lambda>landed c'. emit_frame c c' \<and> (\<exists>strm'. emitted landed vn flags ev strm strm' c c' \<and> emitting winv log strm' c')) c"
proof (cases "EventKind_is_critical (agent_event_kind ev)")
  case True
  then show ?thesis
    using emit_loop_critical [OF assms(1,2) True, of c strm] assms(3)
    by (fastforce simp: emitting_def emitted_def ends_def agent_emit_def)
next
  case False
  from assms(3) obtain recs where q: "page_queue canonical RingA (ac_prod_a c) (ac_page c) recs"
    and strm: "strm = log (ac_world c) @ payload_records recs" by (auto simp: emitting_def on_ring_a_def)
  from emit_loop_droppable [OF assms(2) False q]
  obtain c' where w: "ac_world c' = ac_world c" "emit_frame c c'"
    and r: "(\<exists>seq ps. emit_loop env (encoded_event_len ev) vn flags ev c = Some (Ok True :: ('e, bool) res, c') \<and> list_all is_pad_record ps \<and> dropped c' = dropped c
         \<and> page_queue canonical RingA (ac_prod_a c') (ac_page c') (recs @ ps @ [item_image seq (vn, flags, ev)]))
      \<or> emit_loop env (encoded_event_len ev) vn flags ev c = Some (Ok False :: ('e, bool) res, c')
         \<and> page_queue canonical RingA (ac_prod_a c') (ac_page c') recs
         \<and> dropped c' = (fst (dropped c) + 1, snd (dropped c) + of_nat (encoded_event_len ev))"
    unfolding dropped_def fst_conv snd_conv prod.inject by blast
  from r show ?thesis
  proof (elim disjE exE conjE)
    fix seq ps assume a: "emit_loop env (encoded_event_len ev) vn flags ev c = Some (Ok True :: ('e, bool) res, c')"
      "list_all is_pad_record ps" "dropped c' = dropped c" "page_queue canonical RingA (ac_prod_a c') (ac_page c') (recs @ ps @ [item_image seq (vn, flags, ev)])"
    have "on_ring_a log c' (strm @ [item_image seq (vn, flags, ev)])"
      using payload_item [OF a(2) assms(2)] w(1) strm a(4) unfolding on_ring_a_def
      by (intro exI [of _ "recs @ ps @ [item_image seq (vn, flags, ev)]"]) simp
    with w a(3) assms(3) have "emitted True vn flags ev strm (strm @ [item_image seq (vn, flags, ev)]) c c'"
      "emitting winv log (strm @ [item_image seq (vn, flags, ev)]) c'" by (auto simp: emitted_def emitting_def)
    then show ?thesis using a(1) w(2) unfolding ends_def agent_emit_def by (auto simp only: option.simps prod.simps res.simps)
  next
    assume "emit_loop env (encoded_event_len ev) vn flags ev c = Some (Ok False :: ('e, bool) res, c')"
      "page_queue canonical RingA (ac_prod_a c') (ac_page c') recs"
      "dropped c' = (fst (dropped c) + 1, snd (dropped c) + of_nat (encoded_event_len ev))"
    then show ?thesis using w strm False assms(3)
      by (simp add: ends_def agent_emit_def emitted_def emitting_def on_ring_a_def) blast
  qed
qed

text \<open>
  What a list of events leaves behind: the records in the stream, each with some time stamp and sequence number, in
  order; a droppable event may be missing there, and is then counted once, with its encoded length, in the drop
  counters, which count nothing else.
\<close>

fun sends :: "event_payload list \<Rightarrow> bytes list \<Rightarrow> u64 \<times> u64 \<Rightarrow> bool" where
  "sends [] rs d \<longleftrightarrow> rs = [] \<and> d = (0, 0)"
| "sends (ev # evs) rs d \<longleftrightarrow> (\<exists>seq vn rs'. rs = item_image seq (vn, 0, ev) # rs' \<and> sends evs rs' d)
     \<or> (\<not> EventKind_is_critical (agent_event_kind ev)
        \<and> (\<exists>n b. d = (n + 1, b + of_nat (encoded_event_len ev)) \<and> sends evs rs (n, b)))"

lemma sends_append: "sends evs rs (n, b) \<Longrightarrow> sends evs' rs' (n', b') \<Longrightarrow> sends (evs @ evs') (rs @ rs') (n + n', b + b')"
proof (induction evs arbitrary: rs n b)
  case (Cons ev evs)
  from Cons.prems(1) consider seq vn rs1 where "rs = item_image seq (vn, 0, ev) # rs1" "sends evs rs1 (n, b)"
    | m d where "\<not> EventKind_is_critical (agent_event_kind ev)" "n = m + 1" "b = d + of_nat (encoded_event_len ev)" "sends evs rs (m, d)"
    by auto
  then show ?case
  proof cases
    case 1
    then show ?thesis using Cons.IH [OF 1(2) Cons.prems(2)] by auto
  next
    case 2
    have "(n + n', b + b') = ((m + n') + 1, (d + b') + of_nat (encoded_event_len ev))" using 2(2,3) by (simp add: ac_simps)
    then show ?thesis using 2(1) Cons.IH [OF 2(4) Cons.prems(2)] by auto
  qed
qed simp

lemma emitted_sends:
  "emitted landed vn 0 ev strm strm' c c' \<Longrightarrow> \<exists>rs n b. sends [ev] rs (n, b) \<and> strm' = strm @ rs
     \<and> dropped c' = (fst (dropped c) + n, snd (dropped c) + b)"
  by (cases landed) (force simp: emitted_def)+

text \<open>The frame of a handler that only emits: the consumer of ring C and the manifest stay.\<close>

definition calm :: "'w agent_channel \<Rightarrow> 'w agent_channel \<Rightarrow> bool" where
  "calm c c' \<longleftrightarrow> ac_cons_c c' = ac_cons_c c \<and> ac_scratch c' = ac_scratch c \<and> agent_manifest c' = agent_manifest c"

lemma calm_refl: "calm c c"
  by (simp add: calm_def)

lemma calm_trans: "calm a b \<Longrightarrow> calm b c \<Longrightarrow> calm a c"
  by (simp add: calm_def)

lemma emit_frame_calm: "emit_frame c c' \<Longrightarrow> calm c c'"
  using emit_frame_manifest [of c c'] by (simp add: calm_def emit_frame_def)

lemma calm_vnanos [simp]:
  "calm (c\<lparr>ac_vnanos := v\<rparr>) c' = calm c c'" "emitting winv log strm (c\<lparr>ac_vnanos := v\<rparr>) = emitting winv log strm c"
  by (simp_all add: calm_def agent_manifest_def emitting_def on_ring_a_def)

lemma doorbell_emitting:
  assumes "agent_served env winv patience log" and "emitting winv log strm c"
  shows "emitting winv log strm (agent_doorbell env DOORBELL_RING_A c)" and "calm c (agent_doorbell env DOORBELL_RING_A c)"
    and "dropped (agent_doorbell env DOORBELL_RING_A c) = dropped c"
proof -
  from assms(2) obtain recs where q: "winv (ac_world c)" "page_queue canonical RingA (ac_prod_a c) (ac_page c) recs"
      "strm = log (ac_world c) @ payload_records recs" by (auto simp: emitting_def on_ring_a_def)
  then obtain w' page' got recs' where d: "ae_out env PORT_DOORBELL DOORBELL_RING_A (ac_world c, ac_page c) = (w', page')"
      "winv w'" "recs = got @ recs'" "page_queue canonical RingA (ac_prod_a c) page' recs'"
      "log w' = log (ac_world c) @ payload_records got"
      "take 0x7000 (drop 0x1000 page') = take 0x7000 (drop 0x1000 (ac_page c))" "take 0x100 page' = take 0x100 (ac_page c)"
    using assms(1) unfolding agent_served_def by blast
  have c': "agent_doorbell env DOORBELL_RING_A c = c\<lparr>ac_world := w', ac_page := page'\<rparr>"
    using d(1) by (simp add: agent_doorbell_def out32_def)
  show "emitting winv log strm (agent_doorbell env DOORBELL_RING_A c)"
    unfolding c' using d(2-5) q(3) by (auto simp: emitting_def on_ring_a_def)
  show "calm c (agent_doorbell env DOORBELL_RING_A c)"
    unfolding c' using d(6) by (intro emit_frame_calm) (simp add: emit_frame_def)
  show "dropped (agent_doorbell env DOORBELL_RING_A c) = dropped c"
    unfolding c' using d(7) by (intro dropped_low) simp
qed

text \<open>
  The tape: what had been published and the two drop counters at some earlier time. \<open>sent\<close> says which events have been
  emitted since.
\<close>

datatype tape = Tape (tape_records: "bytes list") (tape_drops: "u64 \<times> u64")

definition sent :: "('w \<Rightarrow> bool) \<Rightarrow> ('w \<Rightarrow> bytes list) \<Rightarrow> tape \<Rightarrow> event_payload list \<Rightarrow> 'w agent_channel \<Rightarrow> bool" where
  "sent winv log tape evs c \<longleftrightarrow> (\<exists>rs n b. sends evs rs (n, b) \<and> emitting winv log (tape_records tape @ rs) c
     \<and> dropped c = (fst (tape_drops tape) + n, snd (tape_drops tape) + b))"

lemma sent_Nil: "emitting winv log strm c \<Longrightarrow> sent winv log (Tape strm (dropped c)) [] c"
  by (auto simp: sent_def)

lemma sent_step:
  assumes "sent winv log tape evs c" and "sends evs' rs' (n', b')"
    and "\<And>rs. emitting winv log (tape_records tape @ rs) c \<Longrightarrow> emitting winv log (tape_records tape @ rs @ rs') c'"
    and "dropped c' = (fst (dropped c) + n', snd (dropped c) + b')"
  shows "sent winv log tape (evs @ evs') c'"
proof -
  obtain rs n b where r: "sends evs rs (n, b)" "emitting winv log (tape_records tape @ rs) c" "dropped c = (fst (tape_drops tape) + n, snd (tape_drops tape) + b)"
    using assms(1) by (auto simp: sent_def)
  then show ?thesis
    unfolding sent_def using sends_append [OF r(1) assms(2)] assms(3) [OF r(2)] assms(4)
    by (intro exI [of _ "rs @ rs'"] exI [of _ "n + n'"] exI [of _ "b + b'"]) (simp add: add.assoc)
qed

lemma sent_cong:
  assumes "sent winv log tape evs c" and "dropped c' = dropped c" and "\<And>strm. emitting winv log strm c \<Longrightarrow> emitting winv' log strm c'"
  shows "sent winv' log tape evs c'"
  using assms by (auto simp: sent_def)

lemma sent_world:
  assumes "sent winv log tape evs c" and "winv' w" and "log w = log (ac_world c)"
  shows "sent winv' log tape evs (c\<lparr>ac_world := w\<rparr>)"
  using assms(2,3) by (intro sent_cong [OF assms(1)]) (auto simp: dropped_def emitting_def on_ring_a_def)

text \<open>One step of a handler: emit an event, with or without ringing.\<close>

lemma emit_now_ends:
  assumes "agent_served env winv patience log" and "event_item_ok (0, 0, ev)" and "sent winv log strm evs c"
  shows "ends (emit_now env ev :: ('w, 'e, unit) channel_act) (\<lambda>_ c'. calm c c' \<and> sent winv log strm (evs @ [ev]) c') c"
    and "ends (emit_ring_now env ev :: ('w, 'e, unit) channel_act) (\<lambda>_ c'. calm c c' \<and> sent winv log strm (evs @ [ev]) c') c"
proof -
  from assms(3) obtain rs n b where rs: "sends evs rs (n, b)" "emitting winv log (tape_records strm @ rs) c" "dropped c = (fst (tape_drops strm) + n, snd (tape_drops strm) + b)"
    by (auto simp: sent_def)
  let ?c = "c\<lparr>ac_vnanos := ac_vnanos c + 1\<rparr>"
  have ok: "event_item_ok (ac_vnanos c, 0, ev)" using assms(2) by (simp add: event_item_ok_def)
  have vn: "ends (next_vnanos :: ('w, 'e, u64) channel_act) Q c \<longleftrightarrow> Q (ac_vnanos c) ?c" for Q by (simp add: ends_def next_vnanos_def)
  have step: "calm c c' \<and> sent winv log strm (evs @ [ev]) c'"
    if e: "emit_frame ?c c'" "emitted landed (ac_vnanos c) 0 ev (tape_records strm @ rs) strm' ?c c'" "emitting winv log strm' c'" for landed strm' c'
  proof -
    obtain rs' n' b' where r: "sends [ev] rs' (n', b')" "strm' = (tape_records strm @ rs) @ rs'" "dropped c' = (fst (dropped ?c) + n', snd (dropped ?c) + b')"
      using emitted_sends [OF e(2)] by blast
    have "dropped ?c = dropped c" by (rule dropped_page) simp
    then have "sent winv log strm (evs @ [ev]) c'"
      unfolding sent_def using sends_append [OF rs(1) r(1)] r(2,3) rs(3) e(3)
      by (intro exI [of _ "rs @ rs'"] exI [of _ "n + n'"] exI [of _ "b + b'"]) (simp only: append_assoc add.assoc fst_conv snd_conv simp_thms)
    then show ?thesis using emit_frame_calm [OF e(1)] by simp
  qed
  have e: "ends (agent_emit env (ac_vnanos c) 0 ev :: ('w, 'e, bool) channel_act)
      (\<lambda>landed c'. calm c c' \<and> sent winv log strm (evs @ [ev]) c') ?c"
    by (rule ends_mono [OF agent_emit_ends [OF assms(1) ok, of "tape_records strm @ rs"]]) (use rs step in auto)
  then show "ends (emit_now env ev :: ('w, 'e, unit) channel_act) (\<lambda>_ c'. calm c c' \<and> sent winv log strm (evs @ [ev]) c') c"
    by (simp add: emit_now_def ends_rules vn)
  have "calm c (agent_doorbell env DOORBELL_RING_A c') \<and> sent winv log strm (evs @ [ev]) (agent_doorbell env DOORBELL_RING_A c')"
    if d: "calm c c'" "sent winv log strm (evs @ [ev]) c'" for c'
  proof (intro conjI)
    obtain rs' where "emitting winv log rs' c'" using d(2) by (auto simp: sent_def)
    from doorbell_emitting [OF assms(1) this]
    show "calm c (agent_doorbell env DOORBELL_RING_A c')" using d(1) by (blast intro: calm_trans)
    show "sent winv log strm (evs @ [ev]) (agent_doorbell env DOORBELL_RING_A c')"
      by (rule sent_cong [OF d(2)]) (rule doorbell_emitting [OF assms(1)], fact, rule doorbell_emitting [OF assms(1)])
  qed
  with e show "ends (emit_ring_now env ev :: ('w, 'e, unit) channel_act) (\<lambda>_ c'. calm c c' \<and> sent winv log strm (evs @ [ev]) c') c"
    by (auto simp: emit_ring_now_def emit_with_doorbell_def ends_rules vn elim!: ends_mono)
qed

end
