(* ===== verification/Agent_Translate.thy ===== *)
theory Agent_Translate
  imports Wire_Manifest
begin

text \<open>
  Address translation in the agent: \<^verbatim>\<open>crates/detguest-agent/src/translate.rs\<close>. A pagemap is what a read
  of eight bytes at an offset returns, or an I/O error; opening and reading the file is outside the
  model. The walk over a range is a terminating loop, and its extents are shown to be exactly the
  page-by-page translation of the range.
\<close>

section \<open>Pagemap entries\<close>

definition PM_PRESENT :: u64 where [simp]: "PM_PRESENT = 0x8000000000000000"
definition PM_SWAPPED :: u64 where [simp]: "PM_SWAPPED = 0x4000000000000000"
definition PM_PFN_MASK :: u64 where [simp]: "PM_PFN_MASK = 0x7FFFFFFFFFFFFF"

datatype translate_error = NotPresent u64 | Swapped u64 | PfnHidden u64 | TranslateIo

definition decode_entry :: "u64 \<Rightarrow> u64 \<Rightarrow> (translate_error, u64) res" where
  "decode_entry vaddr entry =
     (if entry AND PM_SWAPPED \<noteq> 0 then Err (Swapped vaddr)
      else if entry AND PM_PRESENT = 0 then Err (NotPresent vaddr)
      else let pfn = entry AND PM_PFN_MASK
           in if pfn = 0 then Err (PfnHidden vaddr) else Ok (push_bit 12 pfn))"

type_synonym pagemap = "u64 \<Rightarrow> bytes option"

definition gva_to_gpa :: "pagemap \<Rightarrow> u64 \<Rightarrow> (translate_error, u64) res" where
  "gva_to_gpa pagemap vaddr =
     (case pagemap ((vaddr div 4096) * 8) of
        None \<Rightarrow> Err TranslateIo
      | Some buf \<Rightarrow>
          bind_res (decode_entry (vaddr AND NOT 0xFFF) (from_le_bytes buf)) (\<lambda>base.
          Ok (base + (vaddr AND 0xFFF))))"

section \<open>Extents\<close>

datatype build_extents_error = BeTranslate translate_error | BeTooManyExtents

definition checked_add_u64 :: "u64 \<Rightarrow> u64 \<Rightarrow> u64 option" where
  "checked_add_u64 a b = (if unat a + unat b < 2 ^ 64 then Some (a + b) else None)"

text \<open>The chunk joins the last extent when it continues it, and starts a new one otherwise.\<close>

definition extend_extents :: "u64 \<Rightarrow> u64 \<Rightarrow> extent list \<Rightarrow> (build_extents_error, extent list) res" where
  "extend_extents gpa chunk extents =
     (if extents = [] then Ok [\<lparr>ext_gpa = gpa, ext_len = chunk\<rparr>]
      else let l = last extents
           in if checked_add_u64 (ext_gpa l) (ext_len l) = Some gpa
              then (case checked_add_u64 (ext_len l) chunk of
                      None \<Rightarrow> Err BeTooManyExtents
                    | Some n \<Rightarrow> Ok (butlast extents @ [l\<lparr>ext_len := n\<rparr>]))
              else Ok (extents @ [\<lparr>ext_gpa = gpa, ext_len = chunk\<rparr>]))"

lemma page_remaining_pos: "unat (4096 - (vaddr AND 0xFFF) :: u64) = 4096 - unat vaddr mod 4096" "0 < 4096 - unat (vaddr :: u64) mod 4096"
proof -
  have "unat (vaddr AND 0xFFF) = unat vaddr mod 4096"
    using unat_and_mask_pow2 [of "0x1000" vaddr] is_power_of_twoI [of "0x1000 :: u64" 12] by simp
  moreover have "vaddr AND 0xFFF \<le> 4096" using calculation by (simp add: word_le_nat_alt)
  ultimately show "unat (4096 - (vaddr AND 0xFFF) :: u64) = 4096 - unat vaddr mod 4096" by (subst unat_sub_word) simp_all
qed simp

lemma build_step:
  assumes "remaining \<noteq> (0 :: u64)"
  shows "unat (min remaining (4096 - (vaddr AND 0xFFF))) = min (unat remaining) (4096 - unat vaddr mod 4096)"
    and "unat (remaining - min remaining (4096 - (vaddr AND 0xFFF))) = unat remaining - (4096 - unat vaddr mod 4096)"
    and "unat (remaining - min remaining (4096 - (vaddr AND 0xFFF))) < unat remaining"
proof -
  show m: "unat (min remaining (4096 - (vaddr AND 0xFFF))) = min (unat remaining) (4096 - unat vaddr mod 4096)"
    by (auto simp: min_def word_le_nat_alt page_remaining_pos)
  have le: "min remaining (4096 - (vaddr AND 0xFFF)) \<le> remaining" by simp
  show d: "unat (remaining - min remaining (4096 - (vaddr AND 0xFFF))) = unat remaining - (4096 - unat vaddr mod 4096)"
    unfolding unat_sub_word [OF le] m by simp
  have "0 < unat remaining" using assms by (simp add: unat_gt_0)
  then show "unat (remaining - min remaining (4096 - (vaddr AND 0xFFF))) < unat remaining"
    unfolding d using page_remaining_pos(2) [of vaddr] by linarith
qed

function build_loop ::
  "(u64 \<Rightarrow> (translate_error, u64) res) \<Rightarrow> u64 \<Rightarrow> u64 \<Rightarrow> extent list \<Rightarrow> (build_extents_error, extent list) res" where
  "build_loop translate remaining vaddr extents =
     (if remaining = 0 then Ok extents
      else
        bind_res (map_err BeTranslate (translate vaddr)) (\<lambda>gpa.
        let page_remaining = 4096 - (vaddr AND 0xFFF);
            chunk = min remaining page_remaining
        in bind_res (extend_extents gpa chunk extents) (\<lambda>extents.
           if length extents > EXTENT_CAPACITY then Err BeTooManyExtents
           else case checked_add_u64 vaddr chunk of
                  None \<Rightarrow> Err BeTooManyExtents
                | Some vaddr \<Rightarrow> build_loop translate (remaining - chunk) vaddr extents)))"
  by pat_completeness auto

termination
  by (relation "measure (\<lambda>(t, remaining, v, es). unat remaining)") (use build_step(3) in auto)

declare build_loop.simps [simp del]

definition build_extents :: "(u64 \<Rightarrow> (translate_error, u64) res) \<Rightarrow> u64 \<Rightarrow> u64 \<Rightarrow> (build_extents_error, extent list) res" where
  "build_extents translate start len = build_loop translate len start []"

section \<open>The extents of a range\<close>

definition extent_addrs :: "extent \<Rightarrow> u64 list" where
  "extent_addrs e = map (\<lambda>i. ext_gpa e + of_nat i) [0..<unat (ext_len e)]"

definition addrs_of :: "extent list \<Rightarrow> u64 list" where
  "addrs_of es = concat (map extent_addrs es)"

lemma addrs_of_simps [simp]: "addrs_of [] = []" "addrs_of (es @ fs) = addrs_of es @ addrs_of fs" "addrs_of [e] = extent_addrs e"
  by (simp_all add: addrs_of_def)

lemma checked_add_u64_Some: "checked_add_u64 a b = Some c \<longleftrightarrow> unat a + unat b < 2 ^ 64 \<and> c = a + b"
  by (auto simp: checked_add_u64_def)

lemma upt_split: "map f [0..<a + b] = map f [0..<a] @ map (\<lambda>i. f (a + i)) [0..<b]"
  by (induction b) simp_all

lemma extend_addrs:
  assumes "extend_extents gpa chunk es = Ok es'"
  shows "addrs_of es' = addrs_of es @ map (\<lambda>i. gpa + of_nat i) [0..<unat chunk]"
proof (cases "es = []")
  case True
  then show ?thesis using assms by (auto simp: extend_extents_def extent_addrs_def)
next
  case False
  let ?l = "last es"
  show ?thesis
  proof (cases "checked_add_u64 (ext_gpa ?l) (ext_len ?l) = Some gpa")
    case True
    then obtain n where n: "checked_add_u64 (ext_len ?l) chunk = Some n" "es' = butlast es @ [?l\<lparr>ext_len := n\<rparr>]"
      using assms False by (auto simp: extend_extents_def Let_def split: option.splits)
    then have un: "unat n = unat (ext_len ?l) + unat chunk" by (auto simp: checked_add_u64_Some unat_add_no_wrap)
    have "gpa = ext_gpa ?l + ext_len ?l" using True by (simp add: checked_add_u64_Some)
    then have "extent_addrs (?l\<lparr>ext_len := n\<rparr>) = extent_addrs ?l @ map (\<lambda>i. gpa + of_nat i) [0..<unat chunk]"
      by (simp add: extent_addrs_def un upt_split add.assoc)
    moreover have "addrs_of es = addrs_of (butlast es) @ extent_addrs ?l"
      using append_butlast_last_id [OF False] addrs_of_simps(2) [of "butlast es" "[?l]"] by simp
    ultimately show ?thesis using n(2) by simp
  next
    case no: False
    then show ?thesis using assms False by (auto simp: extend_extents_def Let_def extent_addrs_def)
  qed
qed

text \<open>Within a page, translation only adds the offset.\<close>

definition page_linear :: "(u64 \<Rightarrow> (translate_error, u64) res) \<Rightarrow> bool" where
  "page_linear tr \<longleftrightarrow> (\<forall>v k g. unat v mod 4096 + k < 4096 \<longrightarrow> tr v = Ok g \<longrightarrow> tr (v + of_nat k) = Ok (g + of_nat k))"

lemma page_offset:
  fixes v :: u64
  assumes "unat v mod 4096 + k < 4096"
  shows "unat (v + of_nat k) = unat v + k" and "unat (v + of_nat k) div 4096 = unat v div 4096"
    and "unat (v + of_nat k) mod 4096 = unat v mod 4096 + k"
proof -
  have v: "unat v < 2 ^ LENGTH(64)" by (rule unsigned_less)
  define q r where "q = unat v div 4096" and "r = unat v mod 4096"
  then have qr: "unat v = 4096 * q + r" by simp
  have rk: "r + k < 4096" using assms by (simp add: r_def)
  have "4096 * q + r < 4096 * 4503599627370496" using v qr by simp
  then have "q < 4503599627370496" by linarith
  then have "unat v + k < 2 ^ 64" using qr rk by simp
  then show u: "unat (v + of_nat k) = unat v + k" by (subst unat_add_no_wrap) (simp_all add: unat_of_nat)
  show "unat (v + of_nat k) div 4096 = unat v div 4096" "unat (v + of_nat k) mod 4096 = unat v mod 4096 + k"
    using rk unfolding u qr add.assoc by simp_all
qed

lemma gva_to_gpa_linear: "page_linear (gva_to_gpa pm)"
  unfolding page_linear_def
proof (intro allI impI)
  fix v k g assume k: "unat v mod 4096 + k < 4096" and g: "gva_to_gpa pm v = Ok g"
  have and_low: "unat (x AND 0xFFF) = unat x mod 4096" for x :: u64
    using unat_and_mask_pow2 [of "0x1000" x] is_power_of_twoI [of "0x1000 :: u64" 12] by simp
  have "(v + of_nat k) div 4096 = v div 4096"
    by (rule word_unat_eq_iff [THEN iffD2]) (simp add: unat_div page_offset(2) [OF k])
  moreover have low: "(v + of_nat k) AND 0xFFF = (v AND 0xFFF) + of_nat k"
  proof (rule word_unat_eq_iff [THEN iffD2])
    have "unat ((v AND 0xFFF) + of_nat k) = unat v mod 4096 + k"
      using k by (subst unat_add_no_wrap) (simp_all add: and_low unat_of_nat)
    then show "unat (v + of_nat k AND 0xFFF) = unat ((v AND 0xFFF) + of_nat k)" by (simp add: and_low page_offset(3) [OF k])
  qed
  moreover have "(v + of_nat k) AND NOT 0xFFF = v AND NOT 0xFFF"
  proof -
    have split: "x AND NOT 0xFFF = x - (x AND 0xFFF)" for x :: u64
      using word_plus_and_or [of "x AND NOT 0xFFF" "x AND 0xFFF"] 
      by (simp add: and.assoc and.left_commute and.commute bit.conj_disj_distrib [symmetric] eq_diff_eq)
    show ?thesis unfolding split low by simp
  qed
  ultimately show "gva_to_gpa pm (v + of_nat k) = Ok (g + of_nat k)"
    using g by (auto simp: gva_to_gpa_def bind_res_eq_Ok add.assoc split: option.splits)
qed

lemma build_loop_addrs:
  "page_linear tr \<Longrightarrow> build_loop tr remaining vaddr es = Ok out \<Longrightarrow>
     map Ok (addrs_of out) = map Ok (addrs_of es) @ map (\<lambda>k. tr (vaddr + of_nat k)) [0..<unat remaining]"
proof (induction tr remaining vaddr es rule: build_loop.induct)
  case (1 tr remaining vaddr es)
  show ?case
  proof (cases "remaining = 0")
    case True
    then show ?thesis using "1.prems"(2) by (simp add: build_loop.simps [of tr 0])
  next
    case False
    let ?chunk = "min remaining (4096 - (vaddr AND 0xFFF))"
    obtain gpa es' v' where st: "tr vaddr = Ok gpa" "extend_extents gpa ?chunk es = Ok es'" "\<not> length es' > EXTENT_CAPACITY"
        "checked_add_u64 vaddr ?chunk = Some v'" "build_loop tr (remaining - ?chunk) v' es' = Ok out"
      using "1.prems"(2) False
      by (auto simp: build_loop.simps [of tr remaining] bind_res_eq_Ok Let_def map_err_eq_Ok split: if_splits option.splits)
    note sz = build_step [OF False, of vaddr]
    define n where "n = unat ?chunk"
    have n: "n \<le> unat remaining" "unat remaining = n + unat (remaining - ?chunk)" "unat vaddr mod 4096 + n \<le> 4096"
      unfolding n_def sz(1,2) by auto
    have here: "map Ok (map (\<lambda>i. gpa + of_nat i) [0..<n]) = map (\<lambda>k. tr (vaddr + of_nat k)) [0..<n]"
      using "1.prems"(1) st(1) n(3) by (auto simp: page_linear_def)
    have v': "v' = vaddr + of_nat n" using st(4) by (simp add: checked_add_u64_Some n_def)
    have es': "addrs_of es' = addrs_of es @ map (\<lambda>i. gpa + of_nat i) [0..<n]"
      using extend_addrs [OF st(2)] by (simp add: n_def)
    have IH: "map Ok (addrs_of out) = map Ok (addrs_of es') @ map (\<lambda>k. tr (v' + of_nat k)) [0..<unat (remaining - ?chunk)]"
      using "1.IH" [OF False refl refl st(3,4) "1.prems"(1) st(5)] .
    show ?thesis
      unfolding IH es' n(2) upt_split v' using here by (simp add: add.assoc)
  qed
qed

text \<open>The loop never leaves empty extents, and never more than the pool holds.\<close>

lemma build_loop_sizes:
  "build_loop tr remaining vaddr es = Ok out \<Longrightarrow> list_all (\<lambda>e. ext_len e \<noteq> 0) es \<Longrightarrow> length es \<le> EXTENT_CAPACITY \<Longrightarrow>
     list_all (\<lambda>e. ext_len e \<noteq> 0) out \<and> length out \<le> EXTENT_CAPACITY"
proof (induction tr remaining vaddr es rule: build_loop.induct)
  case (1 tr remaining vaddr es)
  show ?case
  proof (cases "remaining = 0")
    case True
    then show ?thesis using "1.prems" by (simp add: build_loop.simps [of tr 0])
  next
    case False
    let ?chunk = "min remaining (4096 - (vaddr AND 0xFFF))"
    obtain gpa es' v' where st: "tr vaddr = Ok gpa" "extend_extents gpa ?chunk es = Ok es'" "\<not> length es' > EXTENT_CAPACITY"
        "checked_add_u64 vaddr ?chunk = Some v'" "build_loop tr (remaining - ?chunk) v' es' = Ok out"
      using "1.prems"(1) False
      by (auto simp: build_loop.simps [of tr remaining] bind_res_eq_Ok Let_def map_err_eq_Ok split: if_splits option.splits)
    have c: "0 < unat ?chunk" using build_step(1) [OF False, of vaddr] False page_remaining_pos(2) [of vaddr] by (simp add: unat_gt_0)
    then have c0: "?chunk \<noteq> 0" by (metis unat_0 less_irrefl)
    have "list_all (\<lambda>e. ext_len e \<noteq> 0) es'"
    proof (cases "es = []")
      case True
      then show ?thesis using st(2) c0 by (auto simp: extend_extents_def)
    next
      case ne: False
      have bl: "list_all (\<lambda>e. ext_len e \<noteq> 0) (butlast es)" using "1.prems"(2) by (auto simp: list_all_iff dest: in_set_butlastD)
      have "ext_len (last es) + ?chunk \<noteq> 0" if "unat (ext_len (last es)) + unat ?chunk < 2 ^ 64"
      proof
        assume z: "ext_len (last es) + ?chunk = 0"
        have "unat (ext_len (last es) + ?chunk) = unat (ext_len (last es)) + unat ?chunk" using that by (subst unat_add_no_wrap) simp_all
        then show False using z c by simp
      qed
      then show ?thesis
        using st(2) ne "1.prems"(2) bl c0
        by (auto simp: extend_extents_def Let_def checked_add_u64_Some split: option.splits if_splits)
    qed
    then show ?thesis using "1.IH" [OF False refl refl st(3,4,5)] st(3) by simp
  qed
qed

text \<open>
  C31. The extents of a region are its translation: whenever the walk over a range succeeds, the
  guest-physical addresses its extents cover, in order, are exactly the translations of the range's
  virtual addresses one by one, no extent is empty, and there are at most as many as the manifest
  pool holds. The walk always ends.
\<close>

theorem build_extents_exact:
  assumes "build_extents (gva_to_gpa pm) start len = Ok out"
  shows "map Ok (addrs_of out) = map (\<lambda>k. gva_to_gpa pm (start + of_nat k)) [0..<unat len] \<and>
         list_all (\<lambda>e. ext_len e \<noteq> 0) out \<and> length out \<le> EXTENT_CAPACITY"
proof -
  have b: "build_loop (gva_to_gpa pm) len start [] = Ok out" using assms by (simp add: build_extents_def)
  show ?thesis using build_loop_addrs [OF gva_to_gpa_linear b] build_loop_sizes [OF b] by simp
qed

text \<open>A pagemap that maps two pages, physically swapped: a range across the boundary needs two extents.\<close>

definition two_pages :: pagemap where
  "two_pages off = (if off = 8 then Some [9, 0, 0, 0, 0, 0, 0, 0x80]
                    else if off = 16 then Some [7, 0, 0, 0, 0, 0, 0, 0x80] else None)"

theorem build_extents_exact_witness:
  "build_extents (gva_to_gpa two_pages) 0x1FFE 5 = Ok [\<lparr>ext_gpa = 0x9FFE, ext_len = 2\<rparr>, \<lparr>ext_gpa = 0x7000, ext_len = 3\<rparr>] \<and>
   map Ok (addrs_of [\<lparr>ext_gpa = 0x9FFE, ext_len = 2\<rparr>, \<lparr>ext_gpa = 0x7000, ext_len = 3\<rparr>])
     = map (\<lambda>k. gva_to_gpa two_pages (0x1FFE + of_nat k)) [0..<5]"
proof -
  have b: "build_extents (gva_to_gpa two_pages) 0x1FFE 5 = Ok [\<lparr>ext_gpa = 0x9FFE, ext_len = 2\<rparr>, \<lparr>ext_gpa = 0x7000, ext_len = 3\<rparr>]"
    by (simp add: build_extents_def build_loop.simps gva_to_gpa_def two_pages_def decode_entry_def from_le_bytes_def
        extend_extents_def checked_add_u64_def)
  show ?thesis using b build_extents_exact [OF b] by simp
qed

end
