(* ===== verification/Agent_Text.thy ===== *)
theory Agent_Text
  imports Utf8_Lossy
begin

text \<open>Texts the agent formats: ASCII literals and decimal numbers, as bytes.\<close>

definition ascii :: "string \<Rightarrow> bytes" where
  "ascii s = map of_char s"

fun decimal :: "nat \<Rightarrow> bytes" where
  "decimal n = (if n < 10 then [0x30 + of_nat n] else decimal (n div 10) @ [0x30 + of_nat (n mod 10)])"

declare decimal.simps [simp del]

end
