(* ===== verification/Agent_Regions.thy ===== *)
theory Agent_Regions
  imports Agent_Manifest Agent_Channel Agent_Translate Agent_Text
begin

text \<open>
  The region service: \<^verbatim>\<open>crates/detguest-agent/src/region_ipc.rs\<close>. The agent accepts connections of the
  workload, answers registrations and unregistrations, keeps a ledger of what it registered and
  re-verifies the ledger on command.

  A \<open>region_ipc\<close> is the service with the channel it works on. Sockets are operations of \<open>sock_env\<close>; the
  translator is an argument, as in the code, and depends on the state of the world. The loops over the
  socket end only when the peers pause, so they are partial functions.
\<close>

section \<open>State\<close>

record region_record =
  rec_region_id :: u32
  rec_name :: bytes
  rec_name_id :: u32
  rec_layout_version :: u32
  rec_pid :: int
  rec_gva :: u64
  rec_len :: u64
  rec_extents :: "extent list"
  rec_dead :: bool

type_synonym translator = "int \<Rightarrow> u64 \<Rightarrow> u64 \<Rightarrow> (build_extents_error, extent list) res"

definition real_translator :: "(int \<Rightarrow> pagemap option) \<Rightarrow> translator" where
  "real_translator open_pagemap_for pid gva len =
     (case open_pagemap_for pid of
        None \<Rightarrow> Err (BeTranslate TranslateIo)
      | Some pagemap \<Rightarrow> build_extents (gva_to_gpa pagemap) gva len)"

record 'w region_ipc =
  ri_channel :: "'w agent_channel"
  ri_conns :: "(nat \<times> int) list"
  ri_records :: "region_record list"

definition MAX_CONNS :: nat where [simp]: "MAX_CONNS = 4"

definition on_channel :: "('w agent_channel, 'e, 'a) act \<Rightarrow> ('w region_ipc, 'e, 'a) act" where
  "on_channel = zoom ri_channel (\<lambda>c s. s\<lparr>ri_channel := c\<rparr>)"

definition on_manifest :: "(bytes, 'e, 'a) act \<Rightarrow> ('w region_ipc, 'e, 'a) act" where
  "on_manifest f = on_channel (zoom agent_manifest set_manifest f)"

section \<open>Replies and events\<close>

definition try_u32 :: "u64 \<Rightarrow> u32 option" where
  "try_u32 g = (if unat g < 2 ^ 32 then Some (ucast g) else None)"

definition region_event_of :: "region_record \<Rightarrow> u64 \<Rightarrow> region_event" where
  "region_event_of record generation =
     \<lparr>re_region_id = rec_region_id record, re_name_id = rec_name_id record, re_layout_version = rec_layout_version record,
      re_manifest_generation = (case try_u32 generation of Some g \<Rightarrow> g | None \<Rightarrow> - 1)\<rparr>"

definition err_reply :: "u16 \<Rightarrow> reply" where
  "err_reply status = \<lparr>rep_status = status, rep_region_id = 0, rep_name_id = 0, rep_manifest_generation = 0\<rparr>"

definition build_error_status :: "build_extents_error \<Rightarrow> u16" where
  "build_error_status e =
     (case e of
        BeTranslate TranslateIo \<Rightarrow> STATUS_INTERNAL
      | BeTranslate _ \<Rightarrow> STATUS_NOT_PINNED
      | BeTooManyExtents \<Rightarrow> STATUS_TOO_MANY_EXTENTS)"

definition current_generation :: "bytes \<Rightarrow> u64" where
  "current_generation m = (case read_generation m of Ok g \<Rightarrow> g | _ \<Rightarrow> 0)"

section \<open>Requests\<close>

primrec update_first :: "('a \<Rightarrow> bool) \<Rightarrow> ('a \<Rightarrow> 'a) \<Rightarrow> 'a list \<Rightarrow> 'a list" where
  "update_first p f [] = []"
| "update_first p f (x # xs) = (if p x then f x # xs else x # update_first p f xs)"

definition handle_register ::
  "'w agent_env \<Rightarrow> ('w \<Rightarrow> translator) \<Rightarrow> int \<Rightarrow> u32 \<Rightarrow> u32 \<Rightarrow> u32 \<Rightarrow> u64 \<Rightarrow> u64 \<Rightarrow> bytes \<Rightarrow> ('w region_ipc, u16, reply) act" where
  "handle_register env translate peer_pid flags layout_version name_id gva len name =
     act_bind (gets (\<lambda>s. translate (ac_world (ri_channel s)) peer_pid gva len)) (\<lambda>t.
     act_bind (of_res (map_err build_error_status t)) (\<lambda>extents.
     act_bind (on_manifest (write_region name name_id layout_version flags gva len extents)) (\<lambda>(region_id, generation).
     act_bind (of_res (ok_or (try_u32 generation) STATUS_INTERNAL)) (\<lambda>gen32.
     act_bind (on_channel (emit_now env (Ev_NameIntern name_id name))) (\<lambda>_.
     act_bind (on_channel (emit_ring_now env (Ev_RegionRegister
        \<lparr>re_region_id = region_id, re_name_id = name_id, re_layout_version = layout_version,
         re_manifest_generation = gen32\<rparr>))) (\<lambda>_.
     act_bind (modify (\<lambda>s. s\<lparr>ri_records := ri_records s @
        [\<lparr>rec_region_id = region_id, rec_name = name, rec_name_id = name_id, rec_layout_version = layout_version,
          rec_pid = peer_pid, rec_gva = gva, rec_len = len, rec_extents = extents, rec_dead = False\<rparr>]\<rparr>)) (\<lambda>_.
     return \<lparr>rep_status = STATUS_OK, rep_region_id = region_id, rep_name_id = name_id,
             rep_manifest_generation = generation\<rparr>)))))))"

definition live_record :: "u32 \<Rightarrow> region_record \<Rightarrow> bool" where
  "live_record region_id r \<longleftrightarrow> rec_region_id r = region_id \<and> \<not> rec_dead r"

definition handle_unregister :: "u32 \<Rightarrow> ('w region_ipc, u16, reply) act" where
  "handle_unregister region_id =
     act_bind (gets (\<lambda>s. find (live_record region_id) (ri_records s))) (\<lambda>record.
     act_bind (of_res (ok_or record STATUS_UNKNOWN_REGION)) (\<lambda>record.
     act_bind (on_manifest (mark_region_dead region_id)) (\<lambda>generation.
     act_bind (modify (\<lambda>s. s\<lparr>ri_records := update_first (live_record region_id) (\<lambda>r. r\<lparr>rec_dead := True\<rparr>) (ri_records s)\<rparr>)) (\<lambda>_.
     return \<lparr>rep_status = STATUS_OK, rep_region_id = region_id, rep_name_id = rec_name_id record,
             rep_manifest_generation = generation\<rparr>))))"

definition handle ::
  "'w agent_env \<Rightarrow> ('w \<Rightarrow> translator) \<Rightarrow> request \<Rightarrow> int \<Rightarrow> int option \<Rightarrow> ('w region_ipc, 'e, reply) act" where
  "handle env translate req peer_pid workload_pid =
     act_catch
       (if workload_pid \<noteq> Some peer_pid then fail STATUS_UNKNOWN_PID
        else case req of
               Register flags layout_version name_id gva len name \<Rightarrow>
                 handle_register env translate peer_pid flags layout_version name_id gva len name
             | Unregister region_id \<Rightarrow> handle_unregister region_id)
       (\<lambda>status. return (err_reply status))"

section \<open>Re-verification\<close>

definition drift_alarm :: "region_record \<Rightarrow> bytes" where
  "drift_alarm r = ascii ''P0: region '' @ decimal (unat (rec_region_id r)) @ ascii '' ('' @ from_utf8_lossy (rec_name r)
     @ ascii '') extents drifted under pinning''"

definition lost_alarm :: "region_record \<Rightarrow> bytes" where
  "lost_alarm r = ascii ''P0: region '' @ decimal (unat (rec_region_id r)) @ ascii '' ('' @ from_utf8_lossy (rec_name r)
     @ ascii '') no longer translates; marking dead''"

type_synonym update = "region_event \<times> bytes option"

definition kill_record :: "region_record \<Rightarrow> bytes \<Rightarrow> (bytes, 'e, region_record \<times> update option) act" where
  "kill_record record alarm =
     act_bind (act_catch (mark_region_dead (rec_region_id record)) (\<lambda>_. gets current_generation)) (\<lambda>generation.
     let record = record\<lparr>rec_dead := True\<rparr>
     in return (record, Some (region_event_of record generation, Some alarm)))"

definition reverify_record :: "translator \<Rightarrow> region_record \<Rightarrow> (bytes, 'e, region_record \<times> update option) act" where
  "reverify_record translate record =
     (if rec_dead record then return (record, None)
      else case translate (rec_pid record) (rec_gva record) (rec_len record) of
             Ok extents \<Rightarrow>
               if extents = rec_extents record
               then act_bind (gets current_generation) (\<lambda>generation.
                    return (record, Some (region_event_of record generation, None)))
               else act_catch
                      (act_bind (rewrite_extents (rec_region_id record) extents) (\<lambda>generation.
                       let new = record\<lparr>rec_extents := extents\<rparr>
                       in return (new, Some (region_event_of new generation, Some (drift_alarm record)))))
                      (\<lambda>_. kill_record record (drift_alarm record))
           | Err _ \<Rightarrow> kill_record record (lost_alarm record)
           | Panic \<Rightarrow> of_res Panic)"

definition emit_alarm :: "'w agent_env \<Rightarrow> bytes option \<Rightarrow> ('w, 'e, unit) channel_act" where
  "emit_alarm env alarm =
     (case alarm of None \<Rightarrow> return () | Some msg \<Rightarrow> emit_now env (Ev_LogLine STREAM_AGENT 0 msg))"

fun emit_updates :: "'w agent_env \<Rightarrow> update list \<Rightarrow> ('w, 'e, unit) channel_act" where
  "emit_updates env [] = return ()"
| "emit_updates env [(event, alarm)] =
     act_bind (emit_alarm env alarm) (\<lambda>_. emit_ring_now env (Ev_RegionUpdate event))"
| "emit_updates env ((event, alarm) # u # us) =
     act_bind (emit_alarm env alarm) (\<lambda>_.
     act_bind (emit_now env (Ev_RegionUpdate event)) (\<lambda>_.
     emit_updates env (u # us)))"

definition reverify :: "'w agent_env \<Rightarrow> ('w \<Rightarrow> translator) \<Rightarrow> ('w region_ipc, 'e, unit) act" where
  "reverify env translate =
     act_bind (gets (\<lambda>s. (ri_records s, translate (ac_world (ri_channel s))))) (\<lambda>(records, tr).
     act_bind (on_manifest (map_each (reverify_record tr) records)) (\<lambda>rs.
     act_bind (modify (\<lambda>s. s\<lparr>ri_records := map fst rs\<rparr>)) (\<lambda>_.
     on_channel (emit_updates env (List.map_filter snd rs)))))"

section \<open>Connections\<close>

datatype sys_error = SysOs | SysAlreadyExists | SysNotFound | SysInvalidInput | SysInvalidData | SysTimedOut
  | SysUnexpectedEof | SysWriteZero | SysUnsupported | SysOther bytes

datatype 'a polled = WouldBlock | Failed | Got 'a

record 'w sock_env =
  so_accept :: "'w \<Rightarrow> nat polled \<times> 'w"
  so_peer_pid :: "nat \<Rightarrow> 'w \<Rightarrow> int option"
  so_epoll_add :: "nat \<Rightarrow> 'w \<Rightarrow> 'w"
  so_recv :: "nat \<Rightarrow> nat \<Rightarrow> 'w \<Rightarrow> bytes polled \<times> 'w"
  so_send :: "nat \<Rightarrow> bytes \<Rightarrow> 'w \<Rightarrow> int \<times> 'w"
  so_close :: "nat \<Rightarrow> 'w \<Rightarrow> 'w"

definition in_world :: "('w \<Rightarrow> 'a \<times> 'w) \<Rightarrow> 'w region_ipc \<Rightarrow> 'a \<times> 'w region_ipc" where
  "in_world f s =
     (case f (ac_world (ri_channel s)) of (a, w) \<Rightarrow> (a, s\<lparr>ri_channel := (ri_channel s)\<lparr>ac_world := w\<rparr>\<rparr>))"

partial_function (option) accept_pending ::
  "'w sock_env \<Rightarrow> bool \<Rightarrow> 'w region_ipc \<Rightarrow> ((sys_error, unit) res \<times> 'w region_ipc) option" where
  "accept_pending sock epoll s =
     (case in_world (so_accept sock) s of (r, s) \<Rightarrow>
        (case r of
           WouldBlock \<Rightarrow> Some (Ok (), s)
         | Failed \<Rightarrow> Some (Err SysOs, s)
         | Got fd \<Rightarrow>
             if length (ri_conns s) \<ge> MAX_CONNS
             then accept_pending sock epoll (snd (in_world (\<lambda>w. ((), so_close sock fd w)) s))
             else case so_peer_pid sock fd (ac_world (ri_channel s)) of
                    None \<Rightarrow> Some (Err SysOs, snd (in_world (\<lambda>w. ((), so_close sock fd w)) s))
                  | Some pid \<Rightarrow>
                      (let s = (if epoll then snd (in_world (\<lambda>w. ((), so_epoll_add sock fd w)) s) else s)
                       in accept_pending sock epoll (s\<lparr>ri_conns := ri_conns s @ [(fd, pid)]\<rparr>))))"

definition answer_datagram ::
  "'w agent_env \<Rightarrow> ('w \<Rightarrow> translator) \<Rightarrow> bytes \<Rightarrow> int \<Rightarrow> int option \<Rightarrow> ('w region_ipc, 'e, reply) act" where
  "answer_datagram env translate buf pid workload_pid =
     (if length buf > REGIONIPC_MAX_DATAGRAM then return (err_reply STATUS_BAD_REQUEST)
      else case decode_request buf of
             Ok req \<Rightarrow> handle env translate req pid workload_pid
           | Err _ \<Rightarrow> return (err_reply STATUS_BAD_REQUEST)
           | Panic \<Rightarrow> of_res Panic)"

text \<open>The loop over one connection: whether it is to be dropped.\<close>

partial_function (option) serve_conn ::
  "'w agent_env \<Rightarrow> ('w \<Rightarrow> translator) \<Rightarrow> 'w sock_env \<Rightarrow> int option \<Rightarrow> nat \<times> int \<Rightarrow> 'w region_ipc
    \<Rightarrow> ((sys_error, bool) res \<times> 'w region_ipc) option" where
  "serve_conn env translate sock workload_pid conn s =
     (case in_world (so_recv sock (fst conn) (REGIONIPC_MAX_DATAGRAM + 1)) s of (r, s) \<Rightarrow>
        (case r of
           WouldBlock \<Rightarrow> Some (Ok False, s)
         | Failed \<Rightarrow> Some (Ok True, s)
         | Got buf \<Rightarrow>
             if buf = [] then Some (Ok True, s)
             else Option.bind (answer_datagram env translate buf (snd conn) workload_pid s) (\<lambda>(a, s).
                  case a of
                    Err e \<Rightarrow> Some (Err e, s)
                  | Panic \<Rightarrow> Some (Panic, s)
                  | Ok reply \<Rightarrow>
                      (case encode_reply reply (replicate REGIONIPC_MAX_DATAGRAM 0) of
                         Ok (out, len) \<Rightarrow>
                           (case in_world (so_send sock (fst conn) (take len out)) s of (n, s) \<Rightarrow>
                              if n \<noteq> int len then Some (Ok True, s)
                              else serve_conn env translate sock workload_pid conn s)
                       | _ \<Rightarrow> Some (Panic, s)))))"

definition service ::
  "'w agent_env \<Rightarrow> ('w \<Rightarrow> translator) \<Rightarrow> 'w sock_env \<Rightarrow> int option \<Rightarrow> bool \<Rightarrow> ('w region_ipc, sys_error, unit) act" where
  "service env translate sock workload_pid epoll =
     act_bind (accept_pending sock epoll) (\<lambda>_.
     act_bind (gets ri_conns) (\<lambda>conns.
     act_bind (map_each (serve_conn env translate sock workload_pid) conns) (\<lambda>closed.
     act_bind (modify (\<lambda>s. s\<lparr>ri_conns := map fst (filter (\<lambda>(c, dropped). \<not> dropped) (zip conns closed))\<rparr>)) (\<lambda>_.
     for_each (rev (map fst (filter snd (zip conns closed)))) (\<lambda>(fd, _).
       modify (\<lambda>s. snd (in_world (\<lambda>w. ((), so_close sock fd w)) s)))))))"

end
