(* ===== verification/Agent_Lines.thy ===== *)
theory Agent_Lines
  imports Wire_Events
begin

text \<open>
  Framing workload output into lines: \<open>LineBuf\<close> of \<^verbatim>\<open>crates/detguest-agent/src/supervise.rs\<close>. The closure that
  receives the lines is the list of emitted lines. \<open>push_loop\<close> is the loop of \<open>push\<close>; every round
  consumes input, so it ends.
\<close>

section \<open>Operations\<close>

record line_buf =
  lb_buf :: bytes

definition LineBuf_default :: line_buf where
  "LineBuf_default = \<lparr>lb_buf = []\<rparr>"

definition MAX_LINE :: nat where [simp]: "MAX_LINE = MAX_LOG_MSG"

text \<open>The position of the first newline.\<close>

primrec newline_at :: "bytes \<Rightarrow> nat option" where
  "newline_at [] = None"
| "newline_at (b # bs) = (if b = 0x0A then Some 0 else map_option Suc (newline_at bs))"

lemma newline_at_None: "newline_at bs = None \<longleftrightarrow> 0x0A \<notin> set bs"
  by (induction bs) auto

lemma newline_at_Some:
  "newline_at bs = Some n \<Longrightarrow> n < length bs \<and> bs = take n bs @ 0x0A # drop (Suc n) bs \<and> 0x0A \<notin> set (take n bs)"
  by (induction bs arbitrary: n) (auto split: if_splits)

function push_loop :: "bytes \<Rightarrow> bytes list \<times> bytes" where
  "push_loop buf =
     (case newline_at buf of
        Some nl \<Rightarrow> (case push_loop (drop (nl + 1) buf) of (lines, rest) \<Rightarrow> (take nl buf # lines, rest))
      | None \<Rightarrow>
          if length buf \<ge> MAX_LINE
          then (case push_loop (drop MAX_LINE buf) of (lines, rest) \<Rightarrow> (take MAX_LINE buf # lines, rest))
          else ([], buf))"
  by pat_completeness auto
termination
  by (relation "measure length") (auto dest: newline_at_Some)

declare push_loop.simps [simp del]

definition LineBuf_push :: "line_buf \<Rightarrow> bytes \<Rightarrow> bytes list \<times> line_buf" where
  "LineBuf_push self bs = (case push_loop (lb_buf self @ bs) of (lines, rest) \<Rightarrow> (lines, self\<lparr>lb_buf := rest\<rparr>))"

definition LineBuf_finish :: "line_buf \<Rightarrow> bytes list \<times> line_buf" where
  "LineBuf_finish self = (if lb_buf self \<noteq> [] then ([lb_buf self], self\<lparr>lb_buf := []\<rparr>) else ([], self))"

text \<open>A pipe read in chunks.\<close>

primrec push_chunks :: "line_buf \<Rightarrow> bytes list \<Rightarrow> bytes list \<times> line_buf" where
  "push_chunks self [] = ([], self)"
| "push_chunks self (c # cs) =
     (case LineBuf_push self c of (ls, self) \<Rightarrow> (case push_chunks self cs of (ls', self) \<Rightarrow> (ls @ ls', self)))"

section \<open>Framing\<close>

text \<open>
  How lines frame a stream: each is free of newlines and followed in the stream by a newline, or by
  nothing when it is a full line that was split off.
\<close>

fun frames :: "bytes list \<Rightarrow> bytes \<Rightarrow> bytes \<Rightarrow> bool" where
  "frames [] rest stream \<longleftrightarrow> stream = rest"
| "frames (l # ls) rest stream \<longleftrightarrow> 0x0A \<notin> set l
     \<and> ((\<exists>post. stream = l @ 0x0A # post \<and> frames ls rest post)
        \<or> (\<exists>post. length l = MAX_LINE \<and> stream = l @ post \<and> frames ls rest post))"

lemma frames_trans: "frames ls mid stream \<Longrightarrow> frames ls' rest (mid @ post) \<Longrightarrow> frames (ls @ ls') rest (stream @ post)"
proof (induction ls arbitrary: stream)
  case (Cons l ls)
  from Cons.prems(1) consider post' where "stream = l @ 0x0A # post'" "frames ls mid post'"
    | post' where "length l = MAX_LINE" "stream = l @ post'" "frames ls mid post'" by auto
  then show ?case
    using Cons.IH [OF _ Cons.prems(2)] Cons.prems(1) by cases auto
qed simp

lemma push_loop_frames: "push_loop buf = (lines, rest) \<Longrightarrow> frames lines rest buf \<and> 0x0A \<notin> set rest \<and> length rest < MAX_LINE"
proof (induction buf arbitrary: lines rest rule: push_loop.induct)
  case (1 buf)
  show ?case
  proof (cases "newline_at buf")
    case (Some nl)
    note nl = newline_at_Some [OF Some]
    obtain ls where ls: "push_loop (drop (nl + 1) buf) = (ls, rest)" "lines = take nl buf # ls"
      using "1.prems" Some by (auto simp: push_loop.simps [of buf] split: prod.splits)
    then show ?thesis using "1.IH"(2) [OF Some ls(1)] nl by auto
  next
    case None
    show ?thesis
    proof (cases "MAX_LINE \<le> length buf")
      case True
      obtain ls where ls: "push_loop (drop MAX_LINE buf) = (ls, rest)" "lines = take MAX_LINE buf # ls"
        using "1.prems" None True by (auto simp: push_loop.simps [of buf] split: prod.splits)
      have "0x0A \<notin> set (take MAX_LINE buf)" using None by (auto simp: newline_at_None dest: in_set_takeD)
      moreover have "buf = take MAX_LINE buf @ drop MAX_LINE buf" by simp
      ultimately show ?thesis using "1.IH"(1) [OF None True ls(1)] True ls(2) by auto
    next
      case False
      then show ?thesis using "1.prems" None by (auto simp: push_loop.simps [of buf] newline_at_None)
    qed
  qed
qed

section \<open>Short lines\<close>

text \<open>The lines of a stream, and what follows the last newline.\<close>

primrec split_lines :: "bytes \<Rightarrow> bytes list \<times> bytes" where
  "split_lines [] = ([], [])"
| "split_lines (b # bs) =
     (case split_lines bs of (ls, rest) \<Rightarrow>
        if b = 0x0A then ([] # ls, rest)
        else case ls of [] \<Rightarrow> ([], b # rest) | l # ls' \<Rightarrow> ((b # l) # ls', rest))"

definition short_lines :: "bytes \<Rightarrow> bool" where
  "short_lines stream \<longleftrightarrow> (case split_lines stream of (ls, rest) \<Rightarrow> list_all (\<lambda>l. length l < MAX_LINE) (ls @ [rest]))"

lemma split_lines_plain: "0x0A \<notin> set l \<Longrightarrow> split_lines l = ([], l)"
  by (induction l) auto

lemma split_lines_line:
  "0x0A \<notin> set l \<Longrightarrow> split_lines (l @ 0x0A # post) = (case split_lines post of (ls, rest) \<Rightarrow> (l # ls, rest))"
  by (induction l) (auto split: prod.splits)

lemma split_lines_append:
  "split_lines (s @ t) = (case split_lines s of (ls, rest) \<Rightarrow> case split_lines (rest @ t) of (ls', rest') \<Rightarrow> (ls @ ls', rest'))"
  by (induction s) (auto split: prod.splits list.splits if_splits)

lemma split_lines_rest: "0x0A \<notin> set (snd (split_lines s))"
  by (induction s) (auto split: prod.splits list.splits)

lemma short_prefix: "0x0A \<notin> set r \<Longrightarrow> short_lines (r @ t) \<Longrightarrow> length r < MAX_LINE"
proof (induction r)
  case (Cons b r)
  obtain ls rest where "split_lines (r @ t) = (ls, rest)" by (cases "split_lines (r @ t)")
  moreover have "length r \<le> (case fst (split_lines (r @ t)) of [] \<Rightarrow> length (snd (split_lines (r @ t))) | l # _ \<Rightarrow> length l)"
    using Cons.prems(1)
  proof (induction r)
    case (Cons c r)
    then show ?case by (auto split: prod.splits list.splits)
  qed simp
  ultimately show ?case using Cons.prems by (auto simp: short_lines_def split: list.splits)
qed simp

lemma push_loop_short: "short_lines buf \<Longrightarrow> push_loop buf = split_lines buf"
proof (induction buf rule: push_loop.induct)
  case (1 buf)
  show ?case
  proof (cases "newline_at buf")
    case (Some nl)
    note nl = newline_at_Some [OF Some]
    have sp: "split_lines buf = (case split_lines (drop (nl + 1) buf) of (ls, rest) \<Rightarrow> (take nl buf # ls, rest))"
      using nl split_lines_line [of "take nl buf" "drop (nl + 1) buf"] by simp
    then have "short_lines (drop (nl + 1) buf)" using "1.prems" by (auto simp: short_lines_def split: prod.splits)
    then show ?thesis using "1.IH"(2) [OF Some] sp Some by (simp add: push_loop.simps [of buf])
  next
    case None
    then have sp: "split_lines buf = ([], buf)" by (simp add: newline_at_None split_lines_plain)
    then show ?thesis using "1.prems" None by (simp add: push_loop.simps [of buf] short_lines_def)
  qed
qed

text \<open>
  C40. Line framing loses nothing and stays bounded: after any chunks, the emitted lines and the kept
  remainder frame the stream that was fed, no line holds a newline, and the remainder is newline-free and
  shorter than the line limit.
\<close>

theorem linebuf_frames:
  "case push_chunks LineBuf_default cs of (lines, lb) \<Rightarrow>
     frames lines (lb_buf lb) (concat cs) \<and> 0x0A \<notin> set (lb_buf lb) \<and> length (lb_buf lb) < MAX_LINE"
proof -
  have "case push_chunks lb cs of (lines, lb') \<Rightarrow> frames lines (lb_buf lb') (lb_buf lb @ concat cs)
      \<and> 0x0A \<notin> set (lb_buf lb') \<and> length (lb_buf lb') < MAX_LINE"
    if "0x0A \<notin> set (lb_buf lb)" "length (lb_buf lb) < MAX_LINE" for lb
    using that
  proof (induction cs arbitrary: lb)
    case (Cons c cs)
    obtain ls rest where p: "push_loop (lb_buf lb @ c) = (ls, rest)" by (cases "push_loop (lb_buf lb @ c)")
    note f = push_loop_frames [OF p]
    obtain ls' lb' where q: "push_chunks (lb\<lparr>lb_buf := rest\<rparr>) cs = (ls', lb')" by (cases "push_chunks (lb\<lparr>lb_buf := rest\<rparr>) cs")
    have "frames (ls @ ls') (lb_buf lb') ((lb_buf lb @ c) @ concat cs)"
      using Cons.IH [of "lb\<lparr>lb_buf := rest\<rparr>"] f q by (intro frames_trans) auto
    then show ?case using Cons.IH [of "lb\<lparr>lb_buf := rest\<rparr>"] f q p by (auto simp: LineBuf_push_def)
  qed simp
  from this [of LineBuf_default] show ?thesis by (simp add: LineBuf_default_def)
qed

text \<open>
  Short lines do not depend on how the pipe was read: if every line of the stream is shorter than the
  limit, any chunking emits exactly the lines of the stream, and finishing emits the unterminated rest.
\<close>

theorem linebuf_chunking:
  assumes "short_lines (concat cs)"
  shows "case split_lines (concat cs) of (lines, rest) \<Rightarrow>
     push_chunks LineBuf_default cs = (lines, \<lparr>lb_buf = rest\<rparr>)
     \<and> LineBuf_finish \<lparr>lb_buf = rest\<rparr> = (if rest = [] then [] else [rest], LineBuf_default)"
proof -
  have "push_chunks lb cs = (case split_lines (lb_buf lb @ concat cs) of (lines, rest) \<Rightarrow> (lines, \<lparr>lb_buf = rest\<rparr>))"
    if "short_lines (lb_buf lb @ concat cs)" "0x0A \<notin> set (lb_buf lb)" for lb :: line_buf
    using that
  proof (induction cs arbitrary: lb)
    case Nil
    then show ?case by (simp add: split_lines_plain)
  next
    case (Cons c cs)
    let ?b = "lb_buf lb @ c"
    obtain ls rest where p: "split_lines ?b = (ls, rest)" by (cases "split_lines ?b")
    have sp: "split_lines (lb_buf lb @ concat (c # cs)) = (case split_lines (rest @ concat cs) of (ls', rest') \<Rightarrow> (ls @ ls', rest'))"
      using split_lines_append [of ?b "concat cs"] p by simp
    have rest: "0x0A \<notin> set rest" using split_lines_rest [of ?b] p by simp
    have more: "short_lines (rest @ concat cs)" and "short_lines ?b"
      using Cons.prems(1) sp p short_prefix [OF rest, of "concat cs"] by (auto simp: short_lines_def split: prod.splits)
    then have "push_loop ?b = (ls, rest)" using push_loop_short p by simp
    then have "LineBuf_push lb c = (ls, \<lparr>lb_buf = rest\<rparr>)" by (cases lb) (simp add: LineBuf_push_def)
    then show ?case using Cons.IH [of "\<lparr>lb_buf = rest\<rparr>"] more rest sp by (simp split: prod.splits)
  qed
  from this [of LineBuf_default] assms show ?thesis by (auto simp: LineBuf_default_def LineBuf_finish_def split: prod.splits)
qed

theorem linebuf_chunking_witness:
  "push_chunks LineBuf_default [[0x61], [0x62, 0x0A, 0x63]] = ([[0x61, 0x62]], \<lparr>lb_buf = [0x63]\<rparr>)"
  using linebuf_chunking [of "[[0x61], [0x62, 0x0A, 0x63]]"] by (simp add: short_lines_def)

text \<open>
  A line longer than the limit is not split when its newline arrives in the same chunk, although the same
  stream read in smaller chunks is.
\<close>

theorem linebuf_long_line:
  assumes "0x0A \<notin> set l" and "MAX_LINE < length l"
  shows "fst (push_chunks LineBuf_default [l @ [0x0A]]) = [l]"
    and "fst (push_chunks LineBuf_default [l, [0x0A]]) \<noteq> [l]"
proof -
  obtain n where n: "newline_at (l @ [0x0A]) = Some n" using newline_at_None [of "l @ [0x0A]"] by (cases "newline_at (l @ [0x0A])") auto
  note nl = newline_at_Some [OF n]
  have "n = length l"
  proof (rule ccontr)
    assume "n \<noteq> length l"
    then have "n < length l" using nl by simp
    moreover have "(l @ [0x0A]) ! n = 0x0A" using nl by (metis nth_append_length length_take min.absorb2 less_imp_le)
    ultimately show False using assms(1) by (auto simp: nth_append dest: nth_mem)
  qed
  then show "fst (push_chunks LineBuf_default [l @ [0x0A]]) = [l]"
    using n by (simp add: LineBuf_push_def LineBuf_default_def push_loop.simps [of "l @ [0x0A]"] push_loop.simps [of "[]"])
  have "newline_at l = None" using assms(1) by (simp add: newline_at_None)
  then have "\<exists>ls. fst (push_chunks LineBuf_default [l, [0x0A]]) = take MAX_LINE l # ls"
    using assms(2) by (simp add: LineBuf_push_def LineBuf_default_def push_loop.simps [of l] split: prod.splits)
  moreover have "take MAX_LINE l \<noteq> l" using assms(2) by (metis length_take min.absorb2 less_imp_le less_irrefl)
  ultimately show "fst (push_chunks LineBuf_default [l, [0x0A]]) \<noteq> [l]" by (metis list.inject)
qed

theorem linebuf_long_line_witness:
  "fst (push_chunks LineBuf_default [replicate 1025 0x61 @ [0x0A]]) = [replicate 1025 0x61]"
  by (rule linebuf_long_line(1)) simp_all

end
