(* ===== verification/Agent_Supervise.thy ===== *)
theory Agent_Supervise
  imports Agent_Regions Agent_Lines Agent_Boot
begin

text \<open>
  The supervise loop and the commands: \<^verbatim>\<open>crates/detguest-agent/src/supervise.rs\<close> and \<^verbatim>\<open>commands.rs\<close>. The
  supervisor holds the channel inside the region service, as \<open>sv_ipc\<close>; \<open>sv_bound\<close> says whether the service is
  installed. Processes, pipes, signals, epoll and the clock are operations of \<open>sup_env\<close> on the world behind the
  channel. Loops that end only when a pipe, the process table or ring C is drained are partial functions.
\<close>

section \<open>State\<close>

definition STDOUT_LEVEL :: u8 where [simp]: "STDOUT_LEVEL = 2"
definition STDERR_LEVEL :: u8 where [simp]: "STDERR_LEVEL = 0"
definition TOK_SIG :: u64 where [simp]: "TOK_SIG = 1"
definition TOK_TIMER :: u64 where [simp]: "TOK_TIMER = 2"
definition TOK_OUT :: u64 where [simp]: "TOK_OUT = 3"
definition TOK_ERR :: u64 where [simp]: "TOK_ERR = 4"
definition TOK_REGION_LISTENER :: u64 where [simp]: "TOK_REGION_LISTENER = 5"
definition TOK_REGION_CONN :: u64 where [simp]: "TOK_REGION_CONN = 6"
definition TOK_CONTROL :: u64 where [simp]: "TOK_CONTROL = 7"
definition BOOT_WAIT_TIMEOUT_MS :: int where [simp]: "BOOT_WAIT_TIMEOUT_MS = 100"
definition CONTROL_FD :: nat where [simp]: "CONTROL_FD = 3"

text \<open>Signals, epoll flags and wait statuses of the C library.\<close>

definition SIGKILL :: nat where [simp]: "SIGKILL = 9"
definition SIGTERM :: nat where [simp]: "SIGTERM = 15"
definition SIGCONT :: nat where [simp]: "SIGCONT = 18"
definition SIGSTOP :: nat where [simp]: "SIGSTOP = 19"
definition EPOLLERR_HUP :: u32 where [simp]: "EPOLLERR_HUP = 0x18"
definition wifstopped :: "u32 \<Rightarrow> bool" where "wifstopped st \<longleftrightarrow> st AND 0xFF = 0x7F"
definition wifexited :: "u32 \<Rightarrow> bool" where "wifexited st \<longleftrightarrow> st AND 0x7F = 0"
definition wexitstatus :: "u32 \<Rightarrow> u32" where "wexitstatus st = drop_bit 8 st AND 0xFF"
definition wtermsig :: "u32 \<Rightarrow> u32" where "wtermsig st = st AND 0x7F"

record workload =
  wl_pid :: int
  wl_unit :: u32
  wl_stdout :: nat
  wl_stderr :: nat
  wl_outbuf :: line_buf
  wl_errbuf :: line_buf
  wl_stopped :: bool

record 'w supervisor =
  sv_ipc :: "'w region_ipc"
  sv_bound :: bool
  sv_manifest :: boot_manifest
  sv_workload :: "workload option"
  sv_log_mask :: u32
  sv_shutdown :: "u64 option"
  sv_control :: "nat option"
  sv_forced_token :: u64

text \<open>What the child of a fork executes.\<close>

record child =
  ch_exec :: bytes
  ch_argv :: "bytes list"
  ch_channel_fd :: nat
  ch_control_fd :: "nat option"
  ch_stdout :: nat
  ch_stderr :: nat

datatype epoll_result = EpollFailed | EpollInterrupted | EpollEvents "(u64 \<times> u32) list"

record 'w sup_env =
  se_agent :: "'w agent_env"
  se_translate :: "'w \<Rightarrow> translator"
  se_sock :: "'w sock_env"
  se_channel_fd :: nat
  se_pipe :: "'w \<Rightarrow> (nat \<times> nat) option \<times> 'w"
  se_close :: "nat \<Rightarrow> 'w \<Rightarrow> 'w"
  se_dupfd :: "nat \<Rightarrow> nat \<Rightarrow> 'w \<Rightarrow> nat option \<times> 'w"
  se_fork :: "child \<Rightarrow> 'w \<Rightarrow> int option \<times> 'w"
  se_nonblock :: "nat \<Rightarrow> 'w \<Rightarrow> 'w"
  se_kill :: "int \<Rightarrow> nat \<Rightarrow> 'w \<Rightarrow> 'w"
  se_waitpid :: "int \<Rightarrow> bool \<Rightarrow> 'w \<Rightarrow> (int \<times> u32) \<times> 'w"
  se_read :: "nat \<Rightarrow> nat \<Rightarrow> 'w \<Rightarrow> bytes \<times> 'w"
  se_epoll_add :: "nat \<Rightarrow> u64 \<Rightarrow> 'w \<Rightarrow> 'w"
  se_epoll_del :: "nat \<Rightarrow> 'w \<Rightarrow> 'w"
  se_epoll_wait :: "int \<Rightarrow> 'w \<Rightarrow> epoll_result \<times> 'w"
  se_drain :: "u64 \<Rightarrow> 'w \<Rightarrow> 'w"
  se_now :: "'w \<Rightarrow> u64 \<times> 'w"

type_synonym ('w, 'a) sup_act = "('w supervisor, sys_error, 'a) act"

definition on_ipc :: "('w region_ipc, 'e, 'a) act \<Rightarrow> ('w supervisor, 'e, 'a) act" where
  "on_ipc = zoom sv_ipc (\<lambda>i s. s\<lparr>sv_ipc := i\<rparr>)"

definition on_chan :: "('w, 'e, 'a) channel_act \<Rightarrow> ('w supervisor, 'e, 'a) act" where
  "on_chan f = on_ipc (on_channel f)"

definition sys :: "('w \<Rightarrow> 'a \<times> 'w) \<Rightarrow> ('w supervisor, 'e, 'a) act" where
  "sys f = on_ipc (\<lambda>i. case in_world f i of (a, i) \<Rightarrow> Some (Ok a, i))"

definition sys_do :: "('w \<Rightarrow> 'w) \<Rightarrow> ('w supervisor, 'e, unit) act" where
  "sys_do f = sys (\<lambda>w. ((), f w))"

definition set_workload :: "workload option \<Rightarrow> ('w supervisor, 'e, unit) act" where
  "set_workload w = modify (\<lambda>s. s\<lparr>sv_workload := w\<rparr>)"

section \<open>Starting a unit\<close>

definition cstring :: "bytes \<Rightarrow> (sys_error, bytes) res" where
  "cstring bs = (if 0 \<in> set bs then Err SysInvalidInput else Ok bs)"

primrec cstrings :: "bytes list \<Rightarrow> (sys_error, bytes list) res" where
  "cstrings [] = Ok []"
| "cstrings (a # as) = bind_res (cstring a) (\<lambda>a. bind_res (cstrings as) (\<lambda>as. Ok (a # as)))"

definition dup_channel :: "'w sup_env \<Rightarrow> nat option \<Rightarrow> ('w, nat option) sup_act" where
  "dup_channel env control_fd =
     (if control_fd \<noteq> None \<and> se_channel_fd env = CONTROL_FD
      then act_bind (sys (se_dupfd env (se_channel_fd env) (CONTROL_FD + 1))) (\<lambda>fd.
           case fd of None \<Rightarrow> fail SysOs | Some fd \<Rightarrow> return (Some fd))
      else return None)"

definition close_dup :: "'w sup_env \<Rightarrow> nat option \<Rightarrow> ('w, unit) sup_act" where
  "close_dup env dup = (case dup of None \<Rightarrow> return () | Some fd \<Rightarrow> sys_do (se_close env fd))"

definition spawn :: "'w sup_env \<Rightarrow> boot_unit \<Rightarrow> nat option \<Rightarrow> ('w, workload) sup_act" where
  "spawn env u control_fd =
     act_bind (sys (se_pipe env)) (\<lambda>out.
     case out of None \<Rightarrow> fail SysOs | Some (out_r, out_w) \<Rightarrow>
     act_bind (sys (se_pipe env)) (\<lambda>err.
     case err of
       None \<Rightarrow> act_bind (sys_do (se_close env out_r)) (\<lambda>_. act_bind (sys_do (se_close env out_w)) (\<lambda>_. fail SysOs))
     | Some (err_r, err_w) \<Rightarrow>
         act_bind (of_res (cstring (str_bytes (bu_exec u)))) (\<lambda>exec.
         act_bind (of_res (cstrings (map str_bytes (bu_args u)))) (\<lambda>args.
         act_bind (dup_channel env control_fd) (\<lambda>dup.
         act_bind (sys (se_fork env \<lparr>ch_exec = exec, ch_argv = exec # args,
             ch_channel_fd = (case dup of Some fd \<Rightarrow> fd | None \<Rightarrow> se_channel_fd env), ch_control_fd = control_fd,
             ch_stdout = out_w, ch_stderr = err_w\<rparr>)) (\<lambda>pid.
         act_bind (close_dup env dup) (\<lambda>_.
         case pid of
           None \<Rightarrow> fail SysOs
         | Some pid \<Rightarrow>
             act_bind (sys_do (se_close env out_w)) (\<lambda>_.
             act_bind (sys_do (se_close env err_w)) (\<lambda>_.
             act_bind (sys_do (se_nonblock env out_r)) (\<lambda>_.
             act_bind (sys_do (se_nonblock env err_r)) (\<lambda>_.
             return \<lparr>wl_pid = pid, wl_unit = bu_id u, wl_stdout = out_r, wl_stderr = err_r, wl_outbuf = LineBuf_default,
                     wl_errbuf = LineBuf_default, wl_stopped = False\<rparr>)))))))))))"

definition start_unit_inner :: "'w sup_env \<Rightarrow> u32 \<Rightarrow> nat option \<Rightarrow> ('w, unit) sup_act" where
  "start_unit_inner env unit_id control_fd =
     act_bind (gets sv_workload) (\<lambda>running.
     if running \<noteq> None then fail SysAlreadyExists
     else act_bind (gets (\<lambda>s. BootManifest_unit (sv_manifest s) unit_id)) (\<lambda>u.
          act_bind (of_res (ok_or u SysNotFound)) (\<lambda>u.
          act_bind (modify (\<lambda>s. s\<lparr>sv_log_mask := bu_log_mask u\<rparr>)) (\<lambda>_.
          act_bind (spawn env u control_fd) (\<lambda>w.
          act_bind (sys_do (se_epoll_add env (wl_stdout w) TOK_OUT)) (\<lambda>_.
          act_bind (sys_do (se_epoll_add env (wl_stderr w) TOK_ERR)) (\<lambda>_.
          act_bind (set_workload (Some w)) (\<lambda>_.
          on_chan (emit_now (se_agent env) (Ev_WorkloadStarted (of_int (wl_pid w)) (wl_unit w)))))))))))"

definition start_unit :: "'w sup_env \<Rightarrow> u32 \<Rightarrow> ('w, unit) sup_act" where
  "start_unit env unit_id = start_unit_inner env unit_id None"

definition start_unit_with_control :: "'w sup_env \<Rightarrow> u32 \<Rightarrow> nat \<Rightarrow> ('w, unit) sup_act" where
  "start_unit_with_control env unit_id control_fd = start_unit_inner env unit_id (Some control_fd)"

section \<open>Output\<close>

definition emit_lines :: "'w sup_env \<Rightarrow> u8 \<Rightarrow> u8 \<Rightarrow> bytes list \<Rightarrow> ('w, unit) sup_act" where
  "emit_lines env stream level lines =
     act_bind (gets sv_log_mask) (\<lambda>msk.
     if msk AND push_bit (unat level) 1 = 0 then return ()
     else for_each lines (\<lambda>line. on_chan (emit_now (se_agent env) (Ev_LogLine stream level line))))"

definition feed :: "u64 \<Rightarrow> bytes \<Rightarrow> workload \<Rightarrow> bytes list \<times> workload" where
  "feed which chunk w =
     (if which = TOK_OUT then (case LineBuf_push (wl_outbuf w) chunk of (lines, b) \<Rightarrow> (lines, w\<lparr>wl_outbuf := b\<rparr>))
      else (case LineBuf_push (wl_errbuf w) chunk of (lines, b) \<Rightarrow> (lines, w\<lparr>wl_errbuf := b\<rparr>)))"

partial_function (option) drain_pipe_loop ::
  "'w sup_env \<Rightarrow> u64 \<Rightarrow> nat \<Rightarrow> u8 \<Rightarrow> u8 \<Rightarrow> 'w supervisor \<Rightarrow> ((sys_error, unit) res \<times> 'w supervisor) option" where
  "drain_pipe_loop env which fd stream level s =
     (case in_world (se_read env fd 4096) (sv_ipc s) of (chunk, i) \<Rightarrow>
        if chunk = [] then Some (Ok (), s\<lparr>sv_ipc := i\<rparr>)
        else case sv_workload s of
               None \<Rightarrow> Some (Panic, s\<lparr>sv_ipc := i\<rparr>)
             | Some w \<Rightarrow>
                 (case feed which chunk w of (lines, w) \<Rightarrow>
                    Option.bind (emit_lines env stream level lines (s\<lparr>sv_ipc := i, sv_workload := Some w\<rparr>)) (\<lambda>(r, s).
                    case r of
                      Ok _ \<Rightarrow> drain_pipe_loop env which fd stream level s
                    | Err e \<Rightarrow> Some (Err e, s)
                    | Panic \<Rightarrow> Some (Panic, s))))"

definition drain_pipe :: "'w sup_env \<Rightarrow> u64 \<Rightarrow> ('w, unit) sup_act" where
  "drain_pipe env which =
     act_bind (gets sv_workload) (\<lambda>w.
     case w of
       None \<Rightarrow> return ()
     | Some w \<Rightarrow>
         if which = TOK_OUT then drain_pipe_loop env which (wl_stdout w) STREAM_STDOUT STDOUT_LEVEL
         else drain_pipe_loop env which (wl_stderr w) STREAM_STDERR STDERR_LEVEL)"

section \<open>Children\<close>

text \<open>Dropping the agent's end of the control socket closes it.\<close>

definition drop_control :: "'w sup_env \<Rightarrow> ('w, unit) sup_act" where
  "drop_control env =
     act_bind (gets sv_control) (\<lambda>c.
     act_bind (modify (\<lambda>s. s\<lparr>sv_control := None\<rparr>)) (\<lambda>_.
     case c of None \<Rightarrow> return () | Some fd \<Rightarrow> sys_do (se_close env fd)))"

definition handle_child_status :: "'w sup_env \<Rightarrow> int \<Rightarrow> u32 \<Rightarrow> ('w, unit) sup_act" where
  "handle_child_status env pid status =
     (if wifstopped status
      then act_bind (modify (\<lambda>s. s\<lparr>sv_workload := map_option (\<lambda>w. w\<lparr>wl_stopped := True\<rparr>) (sv_workload s)\<rparr>)) (\<lambda>_.
           act_bind (gets sv_forced_token) (\<lambda>token.
           on_chan (emit_ring_now (se_agent env) (Ev_QuiesceReady token))))
      else
        act_bind (drain_pipe env TOK_OUT) (\<lambda>_.
        act_bind (drain_pipe env TOK_ERR) (\<lambda>_.
        act_bind (gets sv_workload) (\<lambda>w.
        case w of None \<Rightarrow> of_res Panic | Some w \<Rightarrow>
        act_bind (set_workload None) (\<lambda>_.
        act_bind (drop_control env) (\<lambda>_.
        act_bind (emit_lines env STREAM_STDOUT STDOUT_LEVEL (fst (LineBuf_finish (wl_outbuf w)))) (\<lambda>_.
        act_bind (emit_lines env STREAM_STDERR STDERR_LEVEL (fst (LineBuf_finish (wl_errbuf w)))) (\<lambda>_.
        act_bind (sys_do (se_epoll_del env (wl_stdout w))) (\<lambda>_.
        act_bind (sys_do (se_epoll_del env (wl_stderr w))) (\<lambda>_.
        act_bind (sys_do (se_close env (wl_stdout w))) (\<lambda>_.
        act_bind (sys_do (se_close env (wl_stderr w))) (\<lambda>_.
        let (exit_code, term_signal) = (if wifexited status then (wexitstatus status, 0) else (- 1, wtermsig status))
        in on_chan (emit_ring_now (se_agent env) (Ev_WorkloadExited (of_int pid) exit_code term_signal))))))))))))))"

partial_function (option) reap :: "'w sup_env \<Rightarrow> 'w supervisor \<Rightarrow> ((sys_error, unit) res \<times> 'w supervisor) option" where
  "reap env s =
     (case in_world (se_waitpid env (- 1) True) (sv_ipc s) of ((pid, status), i) \<Rightarrow>
        (let s = s\<lparr>sv_ipc := i\<rparr>
         in if pid \<le> 0 then Some (Ok (), s)
            else if map_option wl_pid (sv_workload s) \<noteq> Some pid then reap env s
            else Option.bind (handle_child_status env pid status s) (\<lambda>(r, s).
                 case r of Ok _ \<Rightarrow> reap env s | Err e \<Rightarrow> Some (Err e, s) | Panic \<Rightarrow> Some (Panic, s))))"

definition reap_workload :: "'w sup_env \<Rightarrow> ('w, unit) sup_act" where
  "reap_workload env =
     act_bind (gets sv_workload) (\<lambda>w.
     case w of
       None \<Rightarrow> return ()
     | Some w \<Rightarrow>
         act_bind (sys (se_waitpid env (wl_pid w) True)) (\<lambda>(got, status).
         if got = wl_pid w then handle_child_status env (wl_pid w) status else return ()))"

section \<open>Waiting\<close>

definition service_region_ipc :: "'w sup_env \<Rightarrow> ('w, unit) sup_act" where
  "service_region_ipc env =
     act_bind (gets sv_bound) (\<lambda>bound.
     if \<not> bound then return ()
     else act_bind (gets (\<lambda>s. map_option wl_pid (sv_workload s))) (\<lambda>pid.
          on_ipc (service (se_agent env) (se_translate env) (se_sock env) pid True)))"

definition reverify_regions :: "'w sup_env \<Rightarrow> ('w, unit) sup_act" where
  "reverify_regions env =
     act_bind (gets sv_bound) (\<lambda>bound.
     if \<not> bound then return () else on_ipc (reverify (se_agent env) (se_translate env)))"

definition service_pipe_event :: "'w sup_env \<Rightarrow> u64 \<Rightarrow> u32 \<Rightarrow> ('w, unit) sup_act" where
  "service_pipe_event env tok events =
     act_bind (drain_pipe env tok) (\<lambda>_.
     if events AND EPOLLERR_HUP = 0 then return ()
     else act_bind (gets sv_workload) (\<lambda>w.
          case w of
            None \<Rightarrow> return ()
          | Some w \<Rightarrow> sys_do (se_epoll_del env (if tok = TOK_OUT then wl_stdout w else wl_stderr w))))"

partial_function (option) boot_epoll :: "'w sup_env \<Rightarrow> 'w supervisor \<Rightarrow> ((sys_error, (u64 \<times> u32) list) res \<times> 'w supervisor) option" where
  "boot_epoll env s =
     (case in_world (se_epoll_wait env BOOT_WAIT_TIMEOUT_MS) (sv_ipc s) of (r, i) \<Rightarrow>
        (case r of
           EpollFailed \<Rightarrow> Some (Err SysOs, s\<lparr>sv_ipc := i\<rparr>)
         | EpollInterrupted \<Rightarrow> boot_epoll env (s\<lparr>sv_ipc := i\<rparr>)
         | EpollEvents evs \<Rightarrow> Some (Ok (take 8 evs), s\<lparr>sv_ipc := i\<rparr>)))"

definition boot_event :: "'w sup_env \<Rightarrow> u64 \<times> u32 \<Rightarrow> ('w, unit) sup_act" where
  "boot_event env = (\<lambda>(tok, events).
     if tok = TOK_SIG then act_bind (sys_do (se_drain env TOK_SIG)) (\<lambda>_. reap_workload env)
     else if tok = TOK_OUT \<or> tok = TOK_ERR then service_pipe_event env tok events
     else if tok = TOK_TIMER then sys_do (se_drain env TOK_TIMER)
     else return ())"

definition wait_boot_io :: "'w sup_env \<Rightarrow> ('w, unit) sup_act" where
  "wait_boot_io env =
     act_bind (boot_epoll env) (\<lambda>events.
     act_bind (for_each events (boot_event env)) (\<lambda>_.
     service_region_ipc env))"

definition register_control_fd :: "'w sup_env \<Rightarrow> nat \<Rightarrow> ('w supervisor, 'e, unit) act" where
  "register_control_fd env fd = sys_do (se_epoll_add env fd TOK_CONTROL)"

definition deregister_control_fd :: "'w sup_env \<Rightarrow> nat \<Rightarrow> ('w supervisor, 'e, unit) act" where
  "deregister_control_fd env fd = sys_do (se_epoll_del env fd)"

section \<open>Shutdown and quiescence\<close>

definition begin_graceful_shutdown :: "'w sup_env \<Rightarrow> ('w, unit) sup_act" where
  "begin_graceful_shutdown env =
     act_bind (gets sv_workload) (\<lambda>w.
     case w of
       Some w \<Rightarrow>
         act_bind (sys_do (se_kill env (wl_pid w) SIGTERM)) (\<lambda>_.
         act_bind (sys (se_now env)) (\<lambda>now.
         modify (\<lambda>s. s\<lparr>sv_shutdown := Some (now + 2000000000)\<rparr>)))
     | None \<Rightarrow> modify (\<lambda>s. s\<lparr>sv_shutdown := Some 0\<rparr>))"

definition immediate_shutdown :: "'w sup_env \<Rightarrow> ('w, unit) sup_act" where
  "immediate_shutdown env =
     act_bind (drop_control env) (\<lambda>_.
     act_bind (gets sv_workload) (\<lambda>w.
     case w of
       None \<Rightarrow> return ()
     | Some w \<Rightarrow>
         act_bind (set_workload None) (\<lambda>_.
         act_bind (sys_do (se_kill env (wl_pid w) SIGKILL)) (\<lambda>_.
         act_bind (sys (se_waitpid env (wl_pid w) False)) (\<lambda>_.
         on_chan (emit_ring_now (se_agent env) (Ev_WorkloadExited (of_int (wl_pid w)) (- 1) (of_nat SIGKILL))))))))"

definition forced_quiesce :: "'w sup_env \<Rightarrow> u64 \<Rightarrow> ('w, unit) sup_act" where
  "forced_quiesce env token =
     act_bind (modify (\<lambda>s. s\<lparr>sv_forced_token := token\<rparr>)) (\<lambda>_.
     act_bind (gets sv_workload) (\<lambda>w.
     case w of
       Some w \<Rightarrow> sys_do (se_kill env (wl_pid w) SIGSTOP)
     | None \<Rightarrow> on_chan (emit_ring_now (se_agent env) (Ev_QuiesceReady token))))"

definition forced_resume :: "'w sup_env \<Rightarrow> ('w, unit) sup_act" where
  "forced_resume env =
     act_bind (gets sv_workload) (\<lambda>w.
     case w of
       None \<Rightarrow> return ()
     | Some w \<Rightarrow>
         if wl_stopped w
         then act_bind (sys_do (se_kill env (wl_pid w) SIGCONT)) (\<lambda>_. set_workload (Some (w\<lparr>wl_stopped := False\<rparr>)))
         else return ())"

definition relay :: "workload_ctrl \<Rightarrow> ('w, unit) sup_act" where
  "relay rec = on_chan (act_bind next_vnanos (\<lambda>v. act_catch (relay_workload_ctrl v rec) (\<lambda>_. return ())))"

definition relay_quiesce :: "u64 \<Rightarrow> ('w, unit) sup_act" where
  "relay_quiesce token = relay (Ctrl_QuiesceReq token)"

definition relay_resume :: "u64 \<Rightarrow> ('w, unit) sup_act" where
  "relay_resume token = relay (Ctrl_Resume token)"

section \<open>Commands\<close>

definition refusal :: "u32 \<Rightarrow> bytes" where
  "refusal u = ascii ''StartWorkload '' @ decimal (unat u) @ ascii '' refused: a workload is already running''"

definition command_handle :: "'w sup_env \<Rightarrow> command \<Rightarrow> ('w, bool) sup_act" where
  "command_handle env cmd =
     (case cmd of
        Cmd_StartWorkload u log_mask \<Rightarrow>
          act_bind (act_catch (act_bind (start_unit env u) (\<lambda>_. modify (\<lambda>s. s\<lparr>sv_log_mask := log_mask\<rparr>)))
            (\<lambda>e. if e = SysAlreadyExists then on_chan (emit_now (se_agent env) (Ev_LogLine STREAM_AGENT 0 (refusal u))) else fail e)) (\<lambda>_.
          return False)
      | Cmd_Quiesce token mode \<Rightarrow>
          act_bind (case mode of Coop \<Rightarrow> relay_quiesce token | Forced \<Rightarrow> forced_quiesce env token) (\<lambda>_. return False)
      | Cmd_Resume token \<Rightarrow> act_bind (forced_resume env) (\<lambda>_. act_bind (relay_resume token) (\<lambda>_. return False))
      | Cmd_Shutdown mode \<Rightarrow>
          (case mode of
             Graceful \<Rightarrow> act_bind (begin_graceful_shutdown env) (\<lambda>_. return False)
           | Immediate \<Rightarrow> act_bind (immediate_shutdown env) (\<lambda>_. return True))
      | Cmd_SetLogMask msk \<Rightarrow> act_bind (modify (\<lambda>s. s\<lparr>sv_log_mask := msk\<rparr>)) (\<lambda>_. return False)
      | Cmd_ReverifyRegions \<Rightarrow> act_bind (reverify_regions env) (\<lambda>_. return False))"

section \<open>The loop\<close>

definition run_event :: "'w sup_env \<Rightarrow> u64 \<times> u32 \<Rightarrow> ('w, unit) sup_act" where
  "run_event env = (\<lambda>(tok, events).
     if tok = TOK_SIG then act_bind (sys_do (se_drain env TOK_SIG)) (\<lambda>_. reap env)
     else if tok = TOK_TIMER then sys_do (se_drain env TOK_TIMER)
     else if tok = TOK_OUT \<or> tok = TOK_ERR then service_pipe_event env tok events
     else if tok = TOK_REGION_LISTENER \<or> tok = TOK_REGION_CONN then service_region_ipc env
     else return ())"

text \<open>The sweep of the shutdown deadline: whether the loop ends here.\<close>

definition shutdown_sweep :: "'w sup_env \<Rightarrow> ('w, bool) sup_act" where
  "shutdown_sweep env =
     act_bind (gets (\<lambda>s. (sv_shutdown s, sv_workload s))) (\<lambda>(shutdown, w).
     case shutdown of
       None \<Rightarrow> return False
     | Some deadline \<Rightarrow>
         (case w of
            None \<Rightarrow> return True
          | Some w \<Rightarrow>
              act_bind (sys (se_now env)) (\<lambda>now.
              act_bind (if deadline \<le> now then sys_do (se_kill env (wl_pid w) SIGKILL) else return ()) (\<lambda>_.
              return False))))"

definition fetch_command :: "('w, command option) sup_act" where
  "fetch_command = act_catch (on_chan poll_command) (\<lambda>_. fail SysInvalidData)"

partial_function (option) command_loop :: "'w sup_env \<Rightarrow> 'w supervisor \<Rightarrow> ((sys_error, bool) res \<times> 'w supervisor) option" where
  "command_loop env s =
     Option.bind (fetch_command s) (\<lambda>(r, s).
     case r of
       Err e \<Rightarrow> Some (Err e, s)
     | Panic \<Rightarrow> Some (Panic, s)
     | Ok None \<Rightarrow> Some (Ok False, s)
     | Ok (Some cmd) \<Rightarrow>
         Option.bind (command_handle env cmd s) (\<lambda>(r, s).
         case r of
           Err e \<Rightarrow> Some (Err e, s)
         | Panic \<Rightarrow> Some (Panic, s)
         | Ok stop \<Rightarrow> if stop then Some (Ok True, s) else command_loop env s))"

definition run_pass :: "'w sup_env \<Rightarrow> ('w, bool) sup_act" where
  "run_pass env =
     act_bind (sys (se_epoll_wait env 100)) (\<lambda>r.
     act_bind (for_each (case r of EpollEvents evs \<Rightarrow> take 8 evs | _ \<Rightarrow> []) (run_event env)) (\<lambda>_.
     act_bind (service_region_ipc env) (\<lambda>_.
     act_bind (shutdown_sweep env) (\<lambda>ended.
     if ended then return True else command_loop env))))"

partial_function (option) supervise_run :: "'w sup_env \<Rightarrow> 'w supervisor \<Rightarrow> ((sys_error, unit) res \<times> 'w supervisor) option" where
  "supervise_run env s =
     Option.bind (run_pass env s) (\<lambda>(r, s).
     case r of
       Err e \<Rightarrow> Some (Err e, s)
     | Panic \<Rightarrow> Some (Panic, s)
     | Ok stop \<Rightarrow> if stop then Some (Ok (), s) else supervise_run env s)"

end
