(* ===== verification/Agent_Pvblk.thy ===== *)
theory Agent_Pvblk
  imports Agent_Monad Agent_Translate
begin

text \<open>
  The game image from the block device: \<^verbatim>\<open>crates/detguest-agent/src/pvblk.rs\<close>. \<open>blk_ops\<close> is the trait
  \<open>PvBlkRegs\<close>, \<open>mapped_ops\<close> its implementation over the mapped register window, and \<open>file_ops\<close> the file the
  image goes to. Reading the device is bounded by the size cap, so the loop over full pages ends on every
  device; reading the file back ends when the file does.
\<close>

section \<open>Registers\<close>

definition PV_BLK_BASE :: u64 where [simp]: "PV_BLK_BASE = 0xD0004000"
definition REG_MAGIC :: nat where [simp]: "REG_MAGIC = 0"
definition REG_SECTOR :: nat where [simp]: "REG_SECTOR = 0x08"
definition REG_BUF_GPA :: nat where [simp]: "REG_BUF_GPA = 0x10"
definition REG_COUNT :: nat where [simp]: "REG_COUNT = 0x18"
definition REG_CMD :: nat where [simp]: "REG_CMD = 0x1C"
definition REG_STATUS :: nat where [simp]: "REG_STATUS = 0x20"
definition DEVICE_ID_PV_BLK :: u32 where [simp]: "DEVICE_ID_PV_BLK = 5"
definition CMD_READ :: u32 where [simp]: "CMD_READ = 1"
definition BLK_STATUS_OK :: u32 where [simp]: "BLK_STATUS_OK = 0"
definition BLK_BAD_REQUEST :: u32 where [simp]: "BLK_BAD_REQUEST = 1"
definition SECTOR_SIZE :: nat where [simp]: "SECTOR_SIZE = 512"
definition DMA_PAGE_SIZE :: nat where [simp]: "DMA_PAGE_SIZE = 4096"
definition SECTORS_PER_PAGE :: nat where [simp]: "SECTORS_PER_PAGE = DMA_PAGE_SIZE div SECTOR_SIZE"
definition MAX_GAME_BYTES :: nat where [simp]: "MAX_GAME_BYTES = 32 * 2 ^ 20"
definition CHECKSUM_SEED :: u64 where [simp]: "CHECKSUM_SEED = 0x70626c6b5f696f31"

fun checksum_fold :: "u64 \<Rightarrow> bytes \<Rightarrow> u64 \<Rightarrow> u64" where
  "checksum_fold sm [] off = sm"
| "checksum_fold sm (b # bs) off = checksum_fold (word_rotl 5 sm XOR (ucast b + off)) bs (off + 1)"

record 'r blk_ops =
  rg_read_u32 :: "nat \<Rightarrow> 'r \<Rightarrow> u32 \<times> 'r"
  rg_read_sectors :: "u64 \<Rightarrow> u32 \<Rightarrow> 'r \<Rightarrow> u32 \<times> 'r"
  rg_dma :: "'r \<Rightarrow> bytes"

text \<open>The window and the DMA page behind it: what the volatile accesses reach.\<close>

record 'w mmio_env =
  mm_read32 :: "nat \<Rightarrow> 'w \<Rightarrow> u32 \<times> 'w"
  mm_write32 :: "nat \<Rightarrow> u32 \<Rightarrow> 'w \<Rightarrow> 'w"
  mm_write64 :: "nat \<Rightarrow> u64 \<Rightarrow> 'w \<Rightarrow> 'w"
  mm_dma :: "'w \<Rightarrow> bytes"
  mm_zero_dma :: "'w \<Rightarrow> 'w"
  mm_mlock :: "'w \<Rightarrow> bool"
  mm_pagemap :: "'w \<Rightarrow> pagemap option"
  mm_open_mem :: "'w \<Rightarrow> bool"
  mm_mmap :: "u64 \<Rightarrow> 'w \<Rightarrow> bool"

record 'w mapped_blk =
  mb_buf_gpa :: u64
  mb_page :: bytes
  mb_world :: 'w

datatype pvblk_error = NoDevice u32 | CreateDir | CreateFile | WriteImage nat | ImageTooBig | ReadStatus u32 nat nat | EmptyDevice
  | FlushFile | ReopenFile | RereadFile | LengthMismatch u64 u64 | ChecksumDrift u64 u64 | MlockDma | OpenPagemap
  | TranslateDma translate_error | OpenDevMem | MmapWindow

definition MappedPvBlk_new :: "'w mmio_env \<Rightarrow> u64 \<Rightarrow> 'w \<Rightarrow> (pvblk_error, 'w mapped_blk) res" where
  "MappedPvBlk_new env base w =
     (let w = mm_zero_dma env w
      in if \<not> mm_mlock env w then Err MlockDma
         else case mm_pagemap env w of
                None \<Rightarrow> Err OpenPagemap
              | Some pagemap \<Rightarrow>
                  bind_res (map_err TranslateDma (gva_to_gpa pagemap base)) (\<lambda>buf_gpa.
                  if \<not> mm_open_mem env w then Err OpenDevMem
                  else if \<not> mm_mmap env PV_BLK_BASE w then Err MmapWindow
                  else Ok \<lparr>mb_buf_gpa = buf_gpa, mb_page = replicate DMA_PAGE_SIZE 0, mb_world = w\<rparr>))"

definition mapped_read_u32 :: "'w mmio_env \<Rightarrow> nat \<Rightarrow> 'w mapped_blk \<Rightarrow> u32 \<times> 'w mapped_blk" where
  "mapped_read_u32 env off self = (case mm_read32 env off (mb_world self) of (v, w) \<Rightarrow> (v, self\<lparr>mb_world := w\<rparr>))"

definition mapped_read_sectors :: "'w mmio_env \<Rightarrow> u64 \<Rightarrow> u32 \<Rightarrow> 'w mapped_blk \<Rightarrow> u32 \<times> 'w mapped_blk" where
  "mapped_read_sectors env sector count self =
     (let w = mm_write64 env REG_SECTOR sector (mb_world self);
          w = mm_write64 env REG_BUF_GPA (mb_buf_gpa self) w;
          w = mm_write32 env REG_COUNT count w;
          w = mm_write32 env REG_CMD CMD_READ w
      in case mapped_read_u32 env REG_STATUS (self\<lparr>mb_world := w\<rparr>) of (status, self) \<Rightarrow>
           if status = BLK_STATUS_OK
           then (let n = min (unat count * SECTOR_SIZE) (length (mb_page self))
                 in (status, self\<lparr>mb_page := take n (mm_dma env (mb_world self)) @ drop n (mb_page self)\<rparr>))
           else (status, self))"

definition mapped_ops :: "'w mmio_env \<Rightarrow> 'w mapped_blk blk_ops" where
  "mapped_ops env = \<lparr>rg_read_u32 = mapped_read_u32 env, rg_read_sectors = mapped_read_sectors env, rg_dma = mb_page\<rparr>"

section \<open>The file\<close>

record 'f file_ops =
  fo_create_dir :: "'f \<Rightarrow> bool \<times> 'f"
  fo_create :: "'f \<Rightarrow> bool \<times> 'f"
  fo_write :: "bytes \<Rightarrow> 'f \<Rightarrow> bool \<times> 'f"
  fo_flush :: "'f \<Rightarrow> bool \<times> 'f"
  fo_open :: "'f \<Rightarrow> bool \<times> 'f"
  fo_read :: "nat \<Rightarrow> 'f \<Rightarrow> bytes option \<times> 'f"

section \<open>Reading the device\<close>

text \<open>The result of a step, with the registers and the file it leaves.\<close>

type_synonym ('r, 'f, 'a) blk_result = "(pvblk_error, 'a) res \<times> 'r \<times> 'f"

definition blk_append :: "'r blk_ops \<Rightarrow> 'f file_ops \<Rightarrow> nat \<Rightarrow> nat \<Rightarrow> u64 \<Rightarrow> 'r \<Rightarrow> 'f \<Rightarrow> ('r, 'f, u64) blk_result" where
  "blk_append ops fops sector count checksum r f =
     (case slice (rg_dma ops r) 0 (count * SECTOR_SIZE) of
        Ok bytes \<Rightarrow>
          (case fo_write fops bytes f of (ok, f) \<Rightarrow>
             if \<not> ok then (Err (WriteImage sector), r, f)
             else (Ok (checksum_fold checksum bytes (of_nat (sector * SECTOR_SIZE))), r, f))
      | Err e \<Rightarrow> (Err e, r, f)
      | Panic \<Rightarrow> (Panic, r, f))"

function full_pages :: "'r blk_ops \<Rightarrow> 'f file_ops \<Rightarrow> nat \<Rightarrow> u64 \<Rightarrow> 'r \<Rightarrow> 'f \<Rightarrow> ('r, 'f, nat \<times> u64) blk_result" where
  "full_pages ops fops sector checksum r f =
     (case rg_read_sectors ops (of_nat sector) (of_nat SECTORS_PER_PAGE) r of (status, r) \<Rightarrow>
        if status = BLK_STATUS_OK
        then (case blk_append ops fops sector SECTORS_PER_PAGE checksum r f of
                (Ok checksum, r, f) \<Rightarrow>
                  if (sector + SECTORS_PER_PAGE) * SECTOR_SIZE > MAX_GAME_BYTES then (Err ImageTooBig, r, f)
                  else full_pages ops fops (sector + SECTORS_PER_PAGE) checksum r f
              | (Err e, r, f) \<Rightarrow> (Err e, r, f)
              | (Panic, r, f) \<Rightarrow> (Panic, r, f))
        else if status = BLK_BAD_REQUEST then (Ok (sector, checksum), r, f)
        else (Err (ReadStatus status sector SECTORS_PER_PAGE), r, f))"
  by pat_completeness auto
termination
  by (relation "measure (\<lambda>(ops, fops, sector, cs, r, f). 65544 - sector)") auto

declare full_pages.simps [simp del]

primrec narrow_tail :: "'r blk_ops \<Rightarrow> 'f file_ops \<Rightarrow> nat list \<Rightarrow> nat \<Rightarrow> u64 \<Rightarrow> 'r \<Rightarrow> 'f \<Rightarrow> ('r, 'f, nat \<times> u64) blk_result" where
  "narrow_tail ops fops [] sector checksum r f = (Ok (sector, checksum), r, f)"
| "narrow_tail ops fops (count # counts) sector checksum r f =
     (case rg_read_sectors ops (of_nat sector) (of_nat count) r of (status, r) \<Rightarrow>
        if status = BLK_STATUS_OK
        then (case blk_append ops fops sector count checksum r f of
                (Ok checksum, r, f) \<Rightarrow> narrow_tail ops fops counts (sector + count) checksum r f
              | (Err e, r, f) \<Rightarrow> (Err e, r, f)
              | (Panic, r, f) \<Rightarrow> (Panic, r, f))
        else if status = BLK_BAD_REQUEST then narrow_tail ops fops counts sector checksum r f
        else (Err (ReadStatus status sector count), r, f))"

definition read_device :: "'r blk_ops \<Rightarrow> 'f file_ops \<Rightarrow> 'r \<Rightarrow> 'f \<Rightarrow> ('r, 'f, u64 \<times> u64) blk_result" where
  "read_device ops fops r f =
     (case full_pages ops fops 0 CHECKSUM_SEED r f of
        (Ok (sector, checksum), r, f) \<Rightarrow>
          (case narrow_tail ops fops [4, 2, 1] sector checksum r f of
             (Ok (sector, checksum), r, f) \<Rightarrow>
               if sector = 0 then (Err EmptyDevice, r, f) else (Ok (of_nat (sector * SECTOR_SIZE), checksum), r, f)
           | (Err e, r, f) \<Rightarrow> (Err e, r, f)
           | (Panic, r, f) \<Rightarrow> (Panic, r, f))
      | (Err e, r, f) \<Rightarrow> (Err e, r, f)
      | (Panic, r, f) \<Rightarrow> (Panic, r, f))"

partial_function (option) verify_loop :: "'f file_ops \<Rightarrow> u64 \<Rightarrow> u64 \<Rightarrow> 'f \<Rightarrow> ((pvblk_error, u64 \<times> u64) res \<times> 'f) option" where
  "verify_loop fops len sm f =
     (case fo_read fops DMA_PAGE_SIZE f of (b, f) \<Rightarrow>
        (case b of
           None \<Rightarrow> Some (Err RereadFile, f)
         | Some buf \<Rightarrow>
             if buf = [] then Some (Ok (len, sm), f)
             else verify_loop fops (len + of_nat (length buf)) (checksum_fold sm buf len) f))"

definition verify_file :: "'f file_ops \<Rightarrow> u64 \<Rightarrow> u64 \<Rightarrow> ('f, pvblk_error, unit) act" where
  "verify_file fops bytes checksum f =
     (case fo_open fops f of (ok, f) \<Rightarrow>
        if \<not> ok then Some (Err ReopenFile, f)
        else act_bind (verify_loop fops 0 CHECKSUM_SEED) (\<lambda>(len, sm).
             if len \<noteq> bytes then fail (LengthMismatch len bytes)
             else if sm \<noteq> checksum then fail (ChecksumDrift sm checksum)
             else return ()) f)"

definition materialize_with :: "'r blk_ops \<Rightarrow> 'f file_ops \<Rightarrow> ('r \<times> 'f, pvblk_error, u64) act" where
  "materialize_with ops fops = (\<lambda>(r, f).
     case rg_read_u32 ops REG_MAGIC r of (magic, r) \<Rightarrow>
       if magic \<noteq> DEVICE_ID_PV_BLK then Some (Err (NoDevice magic), r, f)
       else case fo_create_dir fops f of (ok, f) \<Rightarrow>
         if \<not> ok then Some (Err CreateDir, r, f)
         else case fo_create fops f of (ok, f) \<Rightarrow>
           if \<not> ok then Some (Err CreateFile, r, f)
           else case read_device ops fops r f of
                  (Ok (bytes, checksum), r, f) \<Rightarrow>
                    (case fo_flush fops f of (ok, f) \<Rightarrow>
                       if \<not> ok then Some (Err FlushFile, r, f)
                       else (case verify_file fops bytes checksum f of
                               None \<Rightarrow> None
                             | Some (Ok _, f) \<Rightarrow> Some (Ok bytes, r, f)
                             | Some (Err e, f) \<Rightarrow> Some (Err e, r, f)
                             | Some (Panic, f) \<Rightarrow> Some (Panic, r, f)))
                | (Err e, r, f) \<Rightarrow> Some (Err e, r, f)
                | (Panic, r, f) \<Rightarrow> Some (Panic, r, f))"

definition materialize :: "'w mmio_env \<Rightarrow> 'f file_ops \<Rightarrow> u64 \<Rightarrow> 'w \<Rightarrow> 'f \<Rightarrow> ((pvblk_error, u64) res \<times> 'w \<times> 'f) option" where
  "materialize env fops dma_base w f =
     (case MappedPvBlk_new env dma_base w of
        Ok regs \<Rightarrow> map_option (\<lambda>(r, regs, f). (r, mb_world regs, f)) (materialize_with (mapped_ops env) fops (regs, f))
      | Err e \<Rightarrow> Some (Err e, mm_zero_dma env w, f)
      | Panic \<Rightarrow> Some (Panic, mm_zero_dma env w, f))"

end
