(* ===== verification/Agent_Runtime.thy ===== *)
theory Agent_Runtime
  imports Agent_Supervise Agent_Control Agent_Pvblk
begin

text \<open>
  The boot sequence of PID 1: \<^verbatim>\<open>crates/detguest-agent/src/runtime.rs\<close>, with \<open>agent_version\<close> and \<open>ready_record\<close> of \<^verbatim>\<open>lib.rs\<close>. Mounting,
  raising the I/O privilege, allocating the huge page, the file system and the control socket pair are operations of
  \<open>boot_env\<close>; a boot fault and powering off end the run, with the state they leave. Messages are constructors of
  \<open>boot_fault\<close>.
\<close>

section \<open>The manifest before Ready\<close>

definition READY_REGION_WAKE_LIMIT :: nat where [simp]: "READY_REGION_WAKE_LIMIT = 600"

record ready_manifest =
  rdy_region_count :: u32
  rdy_generation :: u64

record region_evidence =
  evd_region_id :: u32
  evd_name_id :: u32
  evd_name :: bytes
  evd_layout_version :: u32
  evd_generation :: u32

datatype gate_error = ReadManifest decode_error | DecodeManifest decode_error | ValidateManifest decode_error
  | GenerationRange u64 | DecodeEntry nat decode_error | Pending "expected_region list"

definition checked_manifest :: "'w agent_channel \<Rightarrow> (gate_error, bytes \<times> manifest_header) res" where
  "checked_manifest c =
     bind_res (map_err ReadManifest (copy_manifest_stable c)) (\<lambda>bytes.
     bind_res (map_err DecodeManifest (ManifestHeader_read_from bytes)) (\<lambda>hdr.
     bind_res (map_err ValidateManifest (ManifestHeader_validate hdr)) (\<lambda>_.
     Ok (bytes, hdr))))"

definition ready_of :: "manifest_header \<Rightarrow> ready_manifest" where
  "ready_of hdr = \<lparr>rdy_region_count = mh_region_count hdr, rdy_generation = mh_generation hdr\<rparr>"

definition read_ready_manifest :: "'w agent_channel \<Rightarrow> (gate_error, ready_manifest) res" where
  "read_ready_manifest c = bind_res (checked_manifest c) (\<lambda>(bytes, hdr). Ok (ready_of hdr))"

definition entry_matches :: "expected_region \<Rightarrow> region_entry \<Rightarrow> bool" where
  "entry_matches expected entry \<longleftrightarrow> is_live entry \<and> ent_layout_version entry = er_layout_version expected
     \<and> name_bytes entry = str_bytes (er_name expected)"

primrec find_expected :: "bytes \<Rightarrow> u32 \<Rightarrow> expected_region \<Rightarrow> nat list \<Rightarrow> (gate_error, region_evidence option) res" where
  "find_expected bytes generation expected [] = Ok None"
| "find_expected bytes generation expected (i # is) =
     bind_res (map_err (DecodeEntry i) (RegionEntry_read_from bytes i)) (\<lambda>entry.
     if entry_matches expected entry
     then Ok (Some \<lparr>evd_region_id = ent_region_id entry, evd_name_id = ent_name_id entry, evd_name = name_bytes entry,
                    evd_layout_version = ent_layout_version entry, evd_generation = generation\<rparr>)
     else find_expected bytes generation expected is)"

primrec gather :: "bytes \<Rightarrow> u32 \<Rightarrow> nat \<Rightarrow> expected_region list \<Rightarrow> (gate_error, expected_region list \<times> region_evidence list) res" where
  "gather bytes generation n [] = Ok ([], [])"
| "gather bytes generation n (expected # es) =
     bind_res (find_expected bytes generation expected [0..<n]) (\<lambda>found.
     bind_res (gather bytes generation n es) (\<lambda>(missing, evidence).
     Ok (case found of Some e \<Rightarrow> (missing, e # evidence) | None \<Rightarrow> (expected # missing, evidence))))"

definition expected_region_evidence ::
  "'w agent_channel \<Rightarrow> expected_region list \<Rightarrow> (gate_error, ready_manifest \<times> region_evidence list) res" where
  "expected_region_evidence c expected =
     bind_res (checked_manifest c) (\<lambda>(bytes, hdr).
     bind_res (ok_or (try_u32 (mh_generation hdr)) (GenerationRange (mh_generation hdr))) (\<lambda>generation.
     bind_res (gather bytes generation (unat (mh_region_count hdr)) expected) (\<lambda>(missing, evidence).
     if missing \<noteq> [] then Err (Pending missing) else Ok (ready_of hdr, evidence))))"

definition expected_regions_ready :: "'w agent_channel \<Rightarrow> expected_region list \<Rightarrow> (gate_error, ready_manifest) res" where
  "expected_regions_ready c expected = bind_res (expected_region_evidence c expected) (\<lambda>(snapshot, _). Ok snapshot)"

section \<open>Faults\<close>

datatype boot_fault = Gate gate_error | RegionService sys_error | BootWait sys_error | GateExhausted "gate_error option" | ManifestChanged
  | MaterializeGame pvblk_error | NoGameDev | SocketPair | AutostartUnit u32 sys_error | ControlLeg "sys_error control_error" | UnlinkGame

type_synonym ('w, 'a) boot_act = "('w supervisor, boot_fault, 'a) act"

definition lift_err :: "('e \<Rightarrow> boot_fault) \<Rightarrow> ('w supervisor, 'e, 'a) act \<Rightarrow> ('w, 'a) boot_act" where
  "lift_err g f = act_catch f (\<lambda>e. fail (g e))"

definition read_channel :: "('w agent_channel \<Rightarrow> (gate_error, 'a) res) \<Rightarrow> ('w, 'a) boot_act" where
  "read_channel f = act_bind (gets (\<lambda>s. f (ri_channel (sv_ipc s)))) (\<lambda>r. of_res (map_err Gate r))"

section \<open>The gate\<close>

primrec gate_loop :: "'w sup_env \<Rightarrow> expected_region list \<Rightarrow> nat \<Rightarrow> gate_error option \<Rightarrow> ('w, ready_manifest) boot_act" where
  "gate_loop env expected 0 last_err = fail (GateExhausted last_err)"
| "gate_loop env expected (Suc k) last_err =
     act_bind (lift_err RegionService (service_region_ipc env)) (\<lambda>_.
     act_bind (gets (\<lambda>s. expected_regions_ready (ri_channel (sv_ipc s)) expected)) (\<lambda>r.
     case r of
       Ok snapshot \<Rightarrow> return snapshot
     | Panic \<Rightarrow> of_res Panic
     | Err e \<Rightarrow> act_bind (lift_err BootWait (wait_boot_io env)) (\<lambda>_. gate_loop env expected k (Some e))))"

definition wait_for_expected_regions :: "'w sup_env \<Rightarrow> expected_region list \<Rightarrow> ('w, ready_manifest) boot_act" where
  "wait_for_expected_regions env expected =
     (if expected = []
      then act_bind (lift_err RegionService (service_region_ipc env)) (\<lambda>_. read_channel read_ready_manifest)
      else gate_loop env expected READY_REGION_WAKE_LIMIT None)"

definition emit_evidence :: "'w sup_env \<Rightarrow> region_evidence \<Rightarrow> ('w, unit) boot_act" where
  "emit_evidence env region =
     act_bind (on_chan (emit_now (se_agent env) (Ev_NameIntern (evd_name_id region) (evd_name region)))) (\<lambda>_.
     on_chan (emit_now (se_agent env) (Ev_RegionRegister
       \<lparr>re_region_id = evd_region_id region, re_name_id = evd_name_id region, re_layout_version = evd_layout_version region,
        re_manifest_generation = evd_generation region\<rparr>)))"

definition emit_expected_region_evidence :: "'w sup_env \<Rightarrow> expected_region list \<Rightarrow> ready_manifest \<Rightarrow> ('w, unit) boot_act" where
  "emit_expected_region_evidence env expected snapshot =
     (if expected = [] then return ()
      else act_bind (read_channel (\<lambda>c. expected_region_evidence c expected)) (\<lambda>(fresh, evidence).
           if fresh \<noteq> snapshot then fail ManifestChanged else for_each evidence (emit_evidence env)))"

definition emit_ready :: "'w sup_env \<Rightarrow> u32 \<Rightarrow> ready_manifest \<Rightarrow> ('w, unit) boot_act" where
  "emit_ready env u snapshot = on_chan (emit_ring_now (se_agent env) (Ev_Ready u (rdy_region_count snapshot) (rdy_generation snapshot)))"

definition breadcrumb :: "'w sup_env \<Rightarrow> string \<Rightarrow> ('w supervisor, 'e, unit) act" where
  "breadcrumb env msg = on_chan (emit_now (se_agent env) (Ev_LogLine STREAM_AGENT 1 (ascii msg)))"

section \<open>The control leg\<close>

record ('w, 'm, 'f) boot_env =
  bo_sup :: "'w sup_env"
  bo_socketpair :: "'w \<Rightarrow> (nat \<times> nat) option \<times> 'w"
  bo_socket :: "nat \<Rightarrow> 'w control_env"
  bo_mmio :: "'m mmio_env"
  bo_dma_base :: u64
  bo_files :: "'f file_ops"
  bo_device :: "'w \<Rightarrow> 'm"
  bo_set_device :: "'m \<Rightarrow> 'w \<Rightarrow> 'w"
  bo_file :: "'w \<Rightarrow> 'f"
  bo_set_file :: "'f \<Rightarrow> 'w \<Rightarrow> 'w"
  bo_remove_file :: "'w \<Rightarrow> bool \<times> 'w"

definition in_supervisor :: "('w \<Rightarrow> 'a \<times> 'w) \<Rightarrow> 'w supervisor \<Rightarrow> 'a \<times> 'w supervisor" where
  "in_supervisor f s = (case in_world f (sv_ipc s) of (a, i) \<Rightarrow> (a, s\<lparr>sv_ipc := i\<rparr>))"

definition sup_control_env :: "'w control_env \<Rightarrow> 'w supervisor control_env" where
  "sup_control_env ce = \<lparr>ce_send = (\<lambda>bs. in_supervisor (ce_send ce bs)), ce_recv = in_supervisor (ce_recv ce)\<rparr>"

definition boot_progress :: "'w sup_env \<Rightarrow> ('w supervisor, sys_error) progress" where
  "boot_progress env p = (case p of Idle \<Rightarrow> wait_boot_io env | Passed m \<Rightarrow> breadcrumb env m)"

text \<open>The result of the leg as a value: what is done afterwards happens on both paths.\<close>

definition drive_leg :: "('w, 'm, 'f) boot_env \<Rightarrow> nat \<Rightarrow> unit_control \<Rightarrow> bytes \<Rightarrow> ('w, sys_error control_error option) boot_act" where
  "drive_leg b fd control path s =
     (case drive_refwork_start (sup_control_env (bo_socket b fd)) (boot_progress (bo_sup b)) control path \<lparr>ct_trace = [], ct_world = s\<rparr> of
        None \<Rightarrow> None
      | Some (r, cs) \<Rightarrow>
          Some (case r of Ok _ \<Rightarrow> Ok None | Err e \<Rightarrow> Ok (Some e) | Panic \<Rightarrow> Panic, ct_world cs))"

definition drive_and_retain_control :: "('w, 'm, 'f) boot_env \<Rightarrow> nat \<Rightarrow> unit_control \<Rightarrow> bytes \<Rightarrow> ('w, unit) boot_act" where
  "drive_and_retain_control b fd control path =
     act_bind (register_control_fd (bo_sup b) fd) (\<lambda>_.
     act_bind (drive_leg b fd control path) (\<lambda>result.
     act_bind (deregister_control_fd (bo_sup b) fd) (\<lambda>_.
     case result of
       Some e \<Rightarrow> act_bind (sys_do (se_close (bo_sup b) fd)) (\<lambda>_. fail (ControlLeg e))
     | None \<Rightarrow> modify (\<lambda>s. s\<lparr>sv_control := Some fd\<rparr>))))"

definition GAME_IMG_PATH :: bytes where "GAME_IMG_PATH = ascii ''/run/detguest/game.img''"

definition materialize_game :: "('w, 'm, 'f) boot_env \<Rightarrow> ('w, unit) boot_act" where
  "materialize_game b s =
     (let w = ac_world (ri_channel (sv_ipc s))
      in case materialize (bo_mmio b) (bo_files b) (bo_dma_base b) (bo_device b w) (bo_file b w) of
           None \<Rightarrow> None
         | Some (r, dev, f) \<Rightarrow>
             Some (case r of Ok _ \<Rightarrow> Ok () | Err e \<Rightarrow> Err (MaterializeGame e) | Panic \<Rightarrow> Panic,
                   snd (in_supervisor (\<lambda>w. ((), bo_set_file b f (bo_set_device b dev w))) s)))"

definition game_path :: "('w, 'm, 'f) boot_env \<Rightarrow> unit_control \<Rightarrow> ('w, bytes) boot_act" where
  "game_path b control =
     (case uc_game_source control of
        Some PvBlk \<Rightarrow> act_bind (materialize_game b) (\<lambda>_. return GAME_IMG_PATH)
      | None \<Rightarrow> of_res (map_err (\<lambda>_. NoGameDev) (ok_or (map_option str_bytes (uc_game_dev control)) ())))"

definition start_controlled :: "('w, 'm, 'f) boot_env \<Rightarrow> u32 \<Rightarrow> unit_control \<Rightarrow> ('w, unit) boot_act" where
  "start_controlled b u control =
     (let env = bo_sup b in
      act_bind (game_path b control) (\<lambda>path.
      act_bind (sys (bo_socketpair b)) (\<lambda>pair.
      case pair of
        None \<Rightarrow> fail SocketPair
      | Some (sock, child_fd) \<Rightarrow>
          act_bind (act_catch (start_unit_with_control env u child_fd) (\<lambda>e.
            act_bind (sys_do (se_close env child_fd)) (\<lambda>_.
            act_bind (sys_do (se_close env sock)) (\<lambda>_. fail (AutostartUnit u e))))) (\<lambda>_.
          act_bind (sys_do (se_close env child_fd)) (\<lambda>_.
          act_bind (drive_and_retain_control b sock control path) (\<lambda>_.
          if uc_game_source control \<noteq> None
          then act_bind (sys (bo_remove_file b)) (\<lambda>ok.
               if \<not> ok then fail UnlinkGame else breadcrumb env ''boot: game-unlinked'')
          else return ()))))))"

definition autostart_and_ready :: "('w, 'm, 'f) boot_env \<Rightarrow> ('w, unit) boot_act" where
  "autostart_and_ready b =
     (let env = bo_sup b in
      act_bind (gets sv_manifest) (\<lambda>m.
      case bm_autostart_unit m of
        None \<Rightarrow> act_bind (read_channel read_ready_manifest) (\<lambda>snapshot. emit_ready env 0xFFFFFFFF snapshot)
      | Some u \<Rightarrow>
          act_bind (case Option.bind (BootManifest_unit m u) bu_control of
                      Some control \<Rightarrow> start_controlled b u control
                    | None \<Rightarrow> lift_err (AutostartUnit u) (start_unit env u)) (\<lambda>_.
          act_bind (wait_for_expected_regions env (bm_expected_regions m)) (\<lambda>snapshot.
          act_bind (breadcrumb env ''boot: regions-gated'') (\<lambda>_.
          act_bind (emit_expected_region_evidence env (bm_expected_regions m) snapshot) (\<lambda>_.
          act_bind (breadcrumb env ''boot: evidence-done'') (\<lambda>_.
          emit_ready env u snapshot)))))))"

section \<open>PID 1\<close>

definition ready_record :: "bytes \<Rightarrow> u32 \<Rightarrow> u64 \<Rightarrow> u32 \<Rightarrow> u32 \<Rightarrow> u64 \<Rightarrow> (encode_error, bytes \<times> nat) res" where
  "ready_record buf seq vnanos u region_count manifest_generation = encode_event buf seq vnanos 0 (Ev_Ready u region_count manifest_generation)"

definition agent_version :: u32 where
  "agent_version = pack_agent_version 0 1 0"

record 'w boot_machine =
  mc_mount :: "'w \<Rightarrow> bool \<times> 'w"
  mc_alloc :: "'w \<Rightarrow> bytes option \<times> 'w"
  mc_iopl :: "'w \<Rightarrow> bool \<times> 'w"
  mc_pagemap :: "'w \<Rightarrow> pagemap option"
  mc_base :: u64
  mc_boot_toml :: "'w \<Rightarrow> ustr option"
  mc_supervisor_fds :: "'w \<Rightarrow> bool \<times> 'w"
  mc_bind_socket :: "'w \<Rightarrow> bool \<times> 'w"

datatype bring_up_error = AllocFailed | IoplFailed | IdentMismatch | PagemapOpen | ChannelTranslation translate_error | InitRefused u32

definition bring_up_channel :: "'w agent_env \<Rightarrow> 'w boot_machine \<Rightarrow> 'w \<Rightarrow> ((bring_up_error, 'w agent_channel) res \<times> 'w) option" where
  "bring_up_channel env mc w =
     (case mc_alloc mc w of (page, w) \<Rightarrow>
        (case page of
           None \<Rightarrow> Some (Err AllocFailed, w)
         | Some page \<Rightarrow>
             (case agent_init_at 1 w page of
                Err e \<Rightarrow> Some (Err e, w)
              | Panic \<Rightarrow> Some (Panic, w)
              | Ok c \<Rightarrow>
                  (case mc_iopl mc (ac_world c) of (ok, w) \<Rightarrow>
                     let c = c\<lparr>ac_world := w\<rparr>
                     in if \<not> ok then Some (Err IoplFailed, w)
                        else
                         (case ident_ok env c of (ok, c) \<Rightarrow>
                            if \<not> ok then Some (Err IdentMismatch, ac_world c)
                            else case mc_pagemap mc (ac_world c) of
                                   None \<Rightarrow> Some (Err PagemapOpen, ac_world c)
                                 | Some pm \<Rightarrow>
                                     (case gva_to_gpa pm (mc_base mc) of
                                        Err e \<Rightarrow> Some (Err (ChannelTranslation e), ac_world c)
                                      | Panic \<Rightarrow> Some (Panic, ac_world c)
                                      | Ok gpa \<Rightarrow>
                                          (case channel_init env gpa CHANNEL_SIZE_PAGES c of (status, c) \<Rightarrow>
                                             if InitStatus_from_u32 status \<noteq> Some InitOk then Some (Err (InitRefused status), ac_world c)
                                             else case emit_ring_now env (Ev_Hello PROTO_VERSION agent_version
                                                       (CAP_FORCED_QUIESCE OR CAP_REVERIFY_REGIONS)) (set_agent_ready c) of
                                                    None \<Rightarrow> None
                                                  | Some (r, c) \<Rightarrow>
                                                      Some (case r of Ok _ \<Rightarrow> Ok c | Err e \<Rightarrow> Err e | Panic \<Rightarrow> Panic, ac_world c))))))))"

text \<open>How the run of PID 1 ends: before there is a channel, with a boot fault reported on it, or after supervising.\<close>

datatype boot_detail = BadBootToml boot_error | NoBootToml | NoAgentSocket | BootDetail boot_fault

datatype 'w run_end = MountFailed 'w | BringUpFailed bring_up_error 'w | NoSupervisor 'w | Faulted boot_detail "'w agent_channel"
  | Supervised "(sys_error, unit) res" "'w agent_channel" | Aborted 'w

definition boot_fault_path :: "'w agent_env \<Rightarrow> (boot_detail \<Rightarrow> bytes) \<Rightarrow> boot_detail \<Rightarrow> 'w agent_channel \<Rightarrow> 'w run_end option" where
  "boot_fault_path env text detail c =
     (case emit_ring_now env (Ev_LogLine STREAM_AGENT 0 (text detail)) c of
        None \<Rightarrow> None
      | Some (r :: (unit, unit) res, c) \<Rightarrow> Some (case r of Panic \<Rightarrow> Aborted (ac_world c) | _ \<Rightarrow> Faulted detail c))"

definition supervised_end :: "'w agent_env \<Rightarrow> (sys_error \<Rightarrow> bytes) \<Rightarrow> (sys_error, unit) res \<Rightarrow> 'w agent_channel \<Rightarrow> 'w run_end option" where
  "supervised_end env text r c =
     (case r of
        Ok _ \<Rightarrow> Some (Supervised r c)
      | Panic \<Rightarrow> Some (Aborted (ac_world c))
      | Err e \<Rightarrow>
          (case emit_ring_now env (Ev_LogLine STREAM_AGENT 0 (ascii ''supervise loop failed: '' @ text e)) (agent_doorbell env DOORBELL_RING_A c) of
             None \<Rightarrow> None
           | Some (q :: (unit, unit) res, c) \<Rightarrow> Some (case q of Panic \<Rightarrow> Aborted (ac_world c) | _ \<Rightarrow> Supervised r c)))"

definition new_supervisor :: "'w agent_channel \<Rightarrow> boot_manifest \<Rightarrow> 'w supervisor" where
  "new_supervisor c m =
     \<lparr>sv_ipc = \<lparr>ri_channel = c, ri_conns = [], ri_records = []\<rparr>, sv_bound = False, sv_manifest = m, sv_workload = None,
      sv_log_mask = 0x1F, sv_shutdown = None, sv_control = None, sv_forced_token = 0\<rparr>"

definition boot_supervisor ::
  "('w, 'm, 'f) boot_env \<Rightarrow> 'w boot_machine \<Rightarrow> (boot_detail \<Rightarrow> bytes) \<Rightarrow> (sys_error \<Rightarrow> bytes) \<Rightarrow> 'w supervisor \<Rightarrow> 'w run_end option" where
  "boot_supervisor b mc detail_text error_text s =
     (let env = se_agent (bo_sup b); chan = (\<lambda>s. ri_channel (sv_ipc s))
      in case in_supervisor (mc_bind_socket mc) s of (ok, s) \<Rightarrow>
           if \<not> ok then boot_fault_path env detail_text NoAgentSocket (chan s)
           else case autostart_and_ready b (s\<lparr>sv_bound := True\<rparr>) of
                  None \<Rightarrow> None
                | Some (r, s) \<Rightarrow>
                    (case r of
                       Panic \<Rightarrow> Some (Aborted (ac_world (chan s)))
                     | Err e \<Rightarrow> boot_fault_path env detail_text (BootDetail e) (chan s)
                     | Ok _ \<Rightarrow>
                         (case supervise_run (bo_sup b) s of
                            None \<Rightarrow> None
                          | Some (r, s) \<Rightarrow> supervised_end env error_text r (chan s))))"

definition agent_run ::
  "('w, 'm, 'f) boot_env \<Rightarrow> 'w boot_machine \<Rightarrow> (boot_detail \<Rightarrow> bytes) \<Rightarrow> (sys_error \<Rightarrow> bytes) \<Rightarrow> 'w \<Rightarrow> 'w run_end option" where
  "agent_run b mc detail_text error_text w =
     (let env = se_agent (bo_sup b)
      in case mc_mount mc w of (ok, w) \<Rightarrow>
           if \<not> ok then Some (MountFailed w)
           else case bring_up_channel env mc w of
                  None \<Rightarrow> None
                | Some (r, w) \<Rightarrow>
                    (case r of
                       Panic \<Rightarrow> Some (Aborted w)
                     | Err e \<Rightarrow> Some (BringUpFailed e w)
                     | Ok c \<Rightarrow>
                         (case mc_boot_toml mc (ac_world c) of
                            None \<Rightarrow> boot_fault_path env detail_text NoBootToml c
                          | Some text \<Rightarrow>
                              (case boot_parse text of
                                 Panic \<Rightarrow> Some (Aborted w)
                               | Err e \<Rightarrow> boot_fault_path env detail_text (BadBootToml e) c
                               | Ok m \<Rightarrow>
                                   (case mc_supervisor_fds mc (ac_world c) of (ok, w) \<Rightarrow>
                                      if \<not> ok then Some (NoSupervisor w)
                                      else boot_supervisor b mc detail_text error_text (new_supervisor (c\<lparr>ac_world := w\<rparr>) m))))))"

end
