(* ===== verification/Agent_Ledger.thy ===== *)
theory Agent_Ledger
  imports Agent_Regions
begin

text \<open>
  The ledger and the manifest agree. \<open>ledger_ok\<close> is the invariant of the region service: the manifest is
  closed and valid, the parts of the extent pool that the slots own are disjoint and below the extent
  count, slots behind the region count are blank, and every record of the ledger matches its slot, with
  its extents in the pool while the region lives. Every write of the service replaces one slot and, at
  most, extents that this slot owns or that nobody owned yet; the lemma on such a step carries all the
  preservation proofs.
\<close>

section \<open>The invariant\<close>

definition slot_lo :: "region_entry \<Rightarrow> nat" where "slot_lo e = unat (ent_extent_off e)"
definition slot_n :: "region_entry \<Rightarrow> nat" where "slot_n e = unat (ent_extent_n e)"

definition blank_entry :: region_entry where
  "blank_entry = entry_parse (replicate 96 0)"

definition pool_ok :: "bytes \<Rightarrow> bool" where
  "pool_ok m \<longleftrightarrow>
     (\<forall>j < 64. slot_lo (area_slot m j) + slot_n (area_slot m j) \<le> unat (mh_extent_count (area_hdr m)))
   \<and> (\<forall>i < 64. \<forall>j < 64. i \<noteq> j \<longrightarrow> 0 < slot_n (area_slot m i) \<longrightarrow> 0 < slot_n (area_slot m j) \<longrightarrow>
        slot_lo (area_slot m i) + slot_n (area_slot m i) \<le> slot_lo (area_slot m j)
      \<or> slot_lo (area_slot m j) + slot_n (area_slot m j) \<le> slot_lo (area_slot m i))"

definition record_slot :: "region_record \<Rightarrow> nat" where "record_slot r = unat (rec_region_id r)"

definition agrees :: "bytes \<Rightarrow> region_record \<Rightarrow> bool" where
  "agrees m r \<longleftrightarrow> record_slot r < unat (mh_region_count (area_hdr m)) \<and> length (rec_name r) \<le> 56
     \<and> (\<exists>e. e = area_slot m (record_slot r)
        \<and> ent_region_id e = rec_region_id r \<and> ent_name_id e = rec_name_id r \<and> ent_layout_version e = rec_layout_version r
        \<and> ent_gva e = rec_gva r \<and> ent_len e = rec_len r \<and> ent_name e = patch (replicate 56 0) 0 (rec_name r)
        \<and> (is_live e \<longleftrightarrow> \<not> rec_dead r)
        \<and> (\<not> rec_dead r \<longrightarrow> slot_n e = length (rec_extents r)
             \<and> (\<forall>k < length (rec_extents r). area_pool m (slot_lo e + k) = rec_extents r ! k)))"

definition ledger_ok :: "bytes \<Rightarrow> region_record list \<Rightarrow> bool" where
  "ledger_ok m rs \<longleftrightarrow> area_ok m \<and> pool_ok m
     \<and> (\<forall>j < 64. unat (mh_region_count (area_hdr m)) \<le> j \<longrightarrow> area_slot m j = blank_entry)
     \<and> distinct (map record_slot rs) \<and> list_all (agrees m) rs"

lemma area_counts: "area_ok m \<Longrightarrow> unat (mh_region_count (area_hdr m)) \<le> 64 \<and> unat (mh_extent_count (area_hdr m)) \<le> 1024"
  using valid_counts(1,2) by (simp add: area_ok_def)

section \<open>One step\<close>

text \<open>The slot \<open>i\<close> becomes \<open>e\<close>, and its first extents become \<open>xs\<close>.\<close>

definition slot_step :: "bytes \<Rightarrow> bytes \<Rightarrow> nat \<Rightarrow> region_entry \<Rightarrow> extent list \<Rightarrow> bool" where
  "slot_step m m' i e xs \<longleftrightarrow> area_ok m' \<and> i < 64
     \<and> (\<forall>j < 64. area_slot m' j = (if j = i then e else area_slot m j))
     \<and> (\<forall>k < 1024. area_pool m' k = (if slot_lo e \<le> k \<and> k < slot_lo e + length xs then xs ! (k - slot_lo e) else area_pool m k))
     \<and> unat (mh_extent_count (area_hdr m)) \<le> unat (mh_extent_count (area_hdr m'))
     \<and> unat (mh_region_count (area_hdr m)) \<le> unat (mh_region_count (area_hdr m'))
     \<and> (\<forall>j < 64. unat (mh_region_count (area_hdr m')) \<le> j \<longrightarrow> area_slot m' j = blank_entry)
     \<and> slot_lo e + slot_n e \<le> unat (mh_extent_count (area_hdr m')) \<and> length xs \<le> slot_n e
     \<and> (unat (mh_extent_count (area_hdr m)) \<le> slot_lo e
        \<or> slot_lo e = slot_lo (area_slot m i) \<and> slot_n e \<le> slot_n (area_slot m i))"

text \<open>What another slot owns stays clear of the step.\<close>

lemma step_clear:
  assumes st: "slot_step m m' i e xs" and p: "pool_ok m" and j: "j < 64" "j \<noteq> i" "0 < slot_n e" "0 < slot_n (area_slot m j)"
  shows "slot_lo e + slot_n e \<le> slot_lo (area_slot m j) \<or> slot_lo (area_slot m j) + slot_n (area_slot m j) \<le> slot_lo e"
proof -
  let ?s = "area_slot m i" and ?t = "area_slot m j"
  have i: "i < 64" using st by (simp add: slot_step_def)
  consider "unat (mh_extent_count (area_hdr m)) \<le> slot_lo e" | "slot_lo e = slot_lo ?s" "slot_n e \<le> slot_n ?s"
    using st by (auto simp: slot_step_def)
  then show ?thesis
  proof cases
    case 1
    have "slot_lo ?t + slot_n ?t \<le> unat (mh_extent_count (area_hdr m))" using p j(1) by (simp add: pool_ok_def)
    with 1 show ?thesis by simp
  next
    case 2
    then have "0 < slot_n ?s" using j(3) by simp
    then have "slot_lo ?s + slot_n ?s \<le> slot_lo ?t \<or> slot_lo ?t + slot_n ?t \<le> slot_lo ?s"
      using p i j by (auto simp: pool_ok_def)
    with 2 show ?thesis by linarith
  qed
qed

lemma step_pool_ok:
  assumes st: "slot_step m m' i e xs" and p: "pool_ok m"
  shows "pool_ok m'"
proof -
  have s: "\<And>j. j < 64 \<Longrightarrow> area_slot m' j = (if j = i then e else area_slot m j)"
    and c: "unat (mh_extent_count (area_hdr m)) \<le> unat (mh_extent_count (area_hdr m'))"
    and b: "slot_lo e + slot_n e \<le> unat (mh_extent_count (area_hdr m'))"
    using st by (simp_all add: slot_step_def)
  have "slot_lo (area_slot m' j) + slot_n (area_slot m' j) \<le> unat (mh_extent_count (area_hdr m'))" if "j < 64" for j
  proof -
    have "slot_lo (area_slot m j) + slot_n (area_slot m j) \<le> unat (mh_extent_count (area_hdr m))"
      using p that by (simp add: pool_ok_def)
    then show ?thesis using s [OF that] b c by auto
  qed
  moreover have "slot_lo (area_slot m' a) + slot_n (area_slot m' a) \<le> slot_lo (area_slot m' b)
      \<or> slot_lo (area_slot m' b) + slot_n (area_slot m' b) \<le> slot_lo (area_slot m' a)"
    if "a < 64" "b < 64" "a \<noteq> b" "0 < slot_n (area_slot m' a)" "0 < slot_n (area_slot m' b)" for a b
    using that s [OF that(1)] s [OF that(2)] step_clear [OF st p, of a] step_clear [OF st p, of b] p
    by (auto simp: pool_ok_def split: if_splits)
  ultimately show ?thesis by (simp add: pool_ok_def)
qed

lemma step_agrees:
  assumes st: "slot_step m m' i e xs" and m: "area_ok m" "pool_ok m" and r: "agrees m r" "record_slot r \<noteq> i"
  shows "agrees m' r"
proof -
  let ?t = "area_slot m (record_slot r)"
  have j: "record_slot r < 64" using r(1) area_counts [OF m(1)] by (simp add: agrees_def)
  have s: "area_slot m' (record_slot r) = ?t" using st j r(2) by (simp add: slot_step_def)
  have "area_pool m' (slot_lo ?t + k) = area_pool m (slot_lo ?t + k)" if "k < slot_n ?t" for k
  proof -
    have "slot_lo ?t + slot_n ?t \<le> unat (mh_extent_count (area_hdr m))" using m(2) j by (simp add: pool_ok_def)
    then have "slot_lo ?t + k < 1024" using that area_counts [OF m(1)] by linarith
    moreover have "\<not> (slot_lo e \<le> slot_lo ?t + k \<and> slot_lo ?t + k < slot_lo e + length xs)"
      using step_clear [OF st m(2) j r(2)] that st by (fastforce simp: slot_step_def)
    ultimately show ?thesis using st by (auto simp: slot_step_def)
  qed
  then show ?thesis
    using r(1) s st unfolding agrees_def slot_step_def by auto
qed

lemma step_ledger:
  assumes "ledger_ok m rs" and st: "slot_step m m' i e xs"
    and rs': "distinct (map record_slot rs')" "\<And>r. r \<in> set rs' \<Longrightarrow> r \<in> set rs \<and> record_slot r \<noteq> i \<or> agrees m' r"
  shows "ledger_ok m' rs'"
proof -
  have m: "area_ok m" "pool_ok m" "\<And>r. r \<in> set rs \<Longrightarrow> agrees m r" using assms(1) by (auto simp: ledger_ok_def list_all_iff)
  have "agrees m' r" if "r \<in> set rs'" for r
    using rs'(2) [OF that] step_agrees [OF st m(1,2)] m(3) by blast
  then show ?thesis
    using step_pool_ok [OF st m(2)] st rs'(1) by (auto simp: ledger_ok_def slot_step_def list_all_iff)
qed

section \<open>The writers keep the ledger\<close>

lemma is_live_dead: "\<not> is_live (e\<lparr>ent_flags := f OR REGION_FLAG_DEAD\<rparr>)"
proof -
  have "(f OR 0x80000000) AND 0x80000000 = (0x80000000 :: u32)"
    by (simp add: bit.conj_disj_distrib2)
  then show ?thesis by (simp add: is_live_def)
qed

lemma ledger_write:
  assumes l: "ledger_ok m rs" and name: "length name \<le> 56" and fl: "fl AND REGION_FLAG_DEAD = 0" and h: "h = area_hdr m"
    and n: "unat (mh_region_count h) < 64" and x: "unat (mh_extent_count h) + length xs \<le> 1024"
    and r: "r = \<lparr>rec_region_id = mh_region_count h, rec_name = name, rec_name_id = nid, rec_layout_version = lv, rec_pid = pid,
      rec_gva = gva, rec_len = len, rec_extents = xs, rec_dead = False\<rparr>"
  shows "\<exists>m'. write_region name nid lv fl gva len xs m = Some (Ok (mh_region_count h, mh_generation h + 2), m')
     \<and> ledger_ok m' rs \<and> ledger_ok m' (rs @ [r]) \<and> mh_generation (area_hdr m') = mh_generation h + 2
     \<and> unat (mh_region_count (area_hdr m')) = unat (mh_region_count h) + 1"
proof -
  define e where "e = \<lparr>ent_region_id = mh_region_count h, ent_name_id = nid, ent_layout_version = lv, ent_flags = fl, ent_gva = gva,
      ent_len = len, ent_extent_off = mh_extent_count h, ent_extent_n = of_nat (length xs), ent_name = patch (replicate 56 0) 0 name\<rparr>"
  have ok: "area_ok m" using l by (simp add: ledger_ok_def)
  obtain m' where m': "write_region name nid lv fl gva len xs m = Some (Ok (mh_region_count h, mh_generation h + 2), m')"
     "area_ok m'" "mh_generation (area_hdr m') = mh_generation h + 2"
     "unat (mh_region_count (area_hdr m')) = unat (mh_region_count h) + 1"
     "unat (mh_extent_count (area_hdr m')) = unat (mh_extent_count h) + length xs"
     "\<forall>j < 64. area_slot m' j = (if j = unat (mh_region_count h) then e else area_slot m j)"
     "\<forall>k < 1024. area_pool m' k = (if unat (mh_extent_count h) \<le> k \<and> k < unat (mh_extent_count h) + length xs
          then xs ! (k - unat (mh_extent_count h)) else area_pool m k)"
    using write_region_eq [OF ok name h n x e_def] by blast
  have e: "slot_lo e = unat (mh_extent_count h)" "slot_n e = length xs"
    using x by (simp_all add: e_def slot_lo_def slot_n_def unat_of_nat)
  have st: "slot_step m m' (unat (mh_region_count h)) e xs"
    using m' n h l e by (auto simp: slot_step_def ledger_ok_def)
  have lt: "record_slot q < unat (mh_region_count h)" if "q \<in> set rs" for q
    using l that h by (auto simp: ledger_ok_def list_all_iff agrees_def)
  have live: "is_live e" using fl by (simp add: is_live_def e_def)
  have "agrees m' r"
    using m'(4,6,7) n x name e live by (auto simp: agrees_def record_slot_def r e_def)
  moreover have "distinct (map record_slot (rs @ [r]))"
    using l lt by (fastforce simp: ledger_ok_def record_slot_def r)
  ultimately have "ledger_ok m' (rs @ [r])"
    using lt by (intro step_ledger [OF l st]) (auto dest: less_imp_neq)
  moreover have "ledger_ok m' rs"
    using l lt by (intro step_ledger [OF l st]) (auto simp: ledger_ok_def dest: less_imp_neq)
  ultimately show ?thesis using m' by blast
qed

definition replace_record :: "region_record \<Rightarrow> region_record list \<Rightarrow> region_record list" where
  "replace_record r rs = map (\<lambda>q. if record_slot q = record_slot r then r else q) rs"

lemma replace_slots [simp]: "map record_slot (replace_record r rs) = map record_slot rs"
  by (auto simp: replace_record_def)

lemma replace_ledger:
  assumes l: "ledger_ok m rs" and st: "slot_step m m' (record_slot r) e xs" and r: "agrees m' r"
  shows "ledger_ok m' (replace_record r rs)"
proof (rule step_ledger [OF l st])
  show "distinct (map record_slot (replace_record r rs))" using l by (simp only: replace_slots) (simp add: ledger_ok_def)
qed (use r in \<open>auto simp: replace_record_def\<close>)

lemma ledger_slot:
  assumes "ledger_ok m rs" and "r \<in> set rs"
  shows "agrees m r" and "record_slot r < 64" and "record_slot r < unat (mh_region_count (area_hdr m))"
  using assms area_counts [of m] by (auto simp: ledger_ok_def list_all_iff agrees_def)

lemma ledger_dead:
  assumes l: "ledger_ok m rs" and r: "r \<in> set rs" and h: "h = area_hdr m"
  shows "\<exists>m'. mark_region_dead (rec_region_id r) m = Some (Ok (mh_generation h + 2), m')
     \<and> ledger_ok m' (replace_record (r\<lparr>rec_dead := True\<rparr>) rs) \<and> area_hdr m' = h\<lparr>mh_generation := mh_generation h + 2\<rparr>"
proof -
  let ?i = "record_slot r"
  define e where "e = (area_slot m ?i)\<lparr>ent_flags := ent_flags (area_slot m ?i) OR REGION_FLAG_DEAD\<rparr>"
  have ok: "area_ok m" and p: "pool_ok m" and a: "agrees m r" and i: "?i < 64" "?i < unat (mh_region_count h)"
    using l ledger_slot [OF l r] h by (simp_all add: ledger_ok_def)
  obtain m' where m': "mark_region_dead (rec_region_id r) m = Some (Ok (mh_generation h + 2), m')" "area_ok m'"
      "area_hdr m' = h\<lparr>mh_generation := mh_generation h + 2\<rparr>"
      "\<forall>j < 64. area_slot m' j = (if j = ?i then e else area_slot m j)" "area_pool m' = area_pool m"
    using mark_region_dead_eq [OF ok, of "rec_region_id r" h e] i(1) h by (auto simp: record_slot_def e_def)
  have b: "slot_lo (area_slot m ?i) + slot_n (area_slot m ?i) \<le> unat (mh_extent_count h)"
    using p i(1) h by (simp add: pool_ok_def)
  have e: "slot_lo e = slot_lo (area_slot m ?i)" "slot_n e = slot_n (area_slot m ?i)"
    by (simp_all add: e_def slot_lo_def slot_n_def)
  have st: "slot_step m m' ?i e []"
    using m' i b e l h by (auto simp: slot_step_def ledger_ok_def)
  have "\<not> is_live e" unfolding e_def by (rule is_live_dead)
  then have "agrees m' (r\<lparr>rec_dead := True\<rparr>)"
    using a m' i by (auto simp: agrees_def record_slot_def e_def)
  moreover have "record_slot (r\<lparr>rec_dead := True\<rparr>) = ?i" by (simp add: record_slot_def)
  ultimately show ?thesis using replace_ledger [OF l, of m' "r\<lparr>rec_dead := True\<rparr>" e "[]"] st m' by auto
qed

lemma ledger_rewrite:
  assumes l: "ledger_ok m rs" and r: "r \<in> set rs" "\<not> rec_dead r" and h: "h = area_hdr m"
  shows "if length (rec_extents r) < length xs \<and> EXTENT_CAPACITY < unat (mh_extent_count h) + length xs
     then rewrite_extents (rec_region_id r) xs m = Some (Err STATUS_TOO_MANY_EXTENTS, m)
     else \<exists>m'. rewrite_extents (rec_region_id r) xs m = Some (Ok (mh_generation h + 2), m')
         \<and> ledger_ok m' (replace_record (r\<lparr>rec_extents := xs\<rparr>) rs) \<and> mh_generation (area_hdr m') = mh_generation h + 2
         \<and> mh_region_count (area_hdr m') = mh_region_count h
         \<and> unat (mh_extent_count (area_hdr m')) = unat (mh_extent_count h) + (if length (rec_extents r) < length xs then length xs else 0)"
proof -
  let ?i = "record_slot r"
  define s where "s = area_slot m ?i"
  define grow where "grow \<longleftrightarrow> slot_n s < length xs"
  define off where "off = (if grow then mh_extent_count h else ent_extent_off s)"
  define e where "e = s\<lparr>ent_extent_off := off, ent_extent_n := of_nat (length xs)\<rparr>"
  have ok: "area_ok m" and p: "pool_ok m" and a: "agrees m r" and i: "?i < 64" "?i < unat (mh_region_count h)"
    using l ledger_slot [OF l r(1)] h by (simp_all add: ledger_ok_def)
  have b: "slot_lo s + slot_n s \<le> unat (mh_extent_count h)" and c: "unat (mh_extent_count h) \<le> 1024"
    using p i(1) h area_counts [OF ok] by (simp_all add: pool_ok_def s_def)
  have n: "slot_n s = length (rec_extents r)" using a r(2) by (simp add: agrees_def s_def)
  have full: "unat off + length xs \<le> 1024 \<longleftrightarrow> \<not> (length (rec_extents r) < length xs \<and> EXTENT_CAPACITY < unat (mh_extent_count h) + length xs)"
    using b c n by (auto simp: off_def grow_def slot_lo_def)
  show ?thesis
  proof (cases "unat off + length xs \<le> 1024")
    case False
    then show ?thesis
      using rewrite_extents_full [OF ok, of "rec_region_id r" xs] full n i(1) h
      by (simp add: s_def slot_n_def record_slot_def)
  next
    case fit: True
    obtain m' where m': "rewrite_extents (rec_region_id r) xs m = Some (Ok (mh_generation h + 2), m')" "area_ok m'"
        "mh_region_count (area_hdr m') = mh_region_count h"
        "unat (mh_extent_count (area_hdr m')) = unat (mh_extent_count h) + (if grow then length xs else 0)"
        "mh_generation (area_hdr m') = mh_generation h + 2"
        "\<forall>j < 64. area_slot m' j = (if j = ?i then e else area_slot m j)"
        "\<forall>k < 1024. area_pool m' k = (if unat off \<le> k \<and> k < unat off + length xs then xs ! (k - unat off) else area_pool m k)"
      using rewrite_extents_eq [OF ok, of "rec_region_id r" h s grow xs off e] i(1) fit h
      by (auto simp: s_def grow_def off_def e_def slot_n_def record_slot_def)
    have e: "slot_lo e = unat off" "slot_n e = length xs"
      using fit by (simp_all add: e_def slot_lo_def slot_n_def unat_of_nat)
    have blank: "\<forall>j < 64. unat (mh_region_count h) \<le> j \<longrightarrow> area_slot m j = blank_entry" using l h by (simp add: ledger_ok_def)
    have own: "unat off + length xs \<le> unat (mh_extent_count (area_hdr m'))"
      "unat (mh_extent_count h) \<le> unat off \<or> unat off = slot_lo s \<and> length xs \<le> slot_n s"
      using b m'(4) by (auto simp: off_def grow_def slot_lo_def)
    have st: "slot_step m m' ?i e xs"
      using m' i own e blank h unfolding slot_step_def by (auto simp: s_def)
    have live: "is_live e \<longleftrightarrow> is_live s" by (simp add: is_live_def e_def)
    have "agrees m' (r\<lparr>rec_extents := xs\<rparr>)"
      using a r(2) m' i e fit live by (auto simp: agrees_def record_slot_def e_def s_def)
    moreover have "record_slot (r\<lparr>rec_extents := xs\<rparr>) = ?i" by (simp add: record_slot_def)
    ultimately have "ledger_ok m' (replace_record (r\<lparr>rec_extents := xs\<rparr>) rs)"
      using replace_ledger [OF l, of m' "r\<lparr>rec_extents := xs\<rparr>" e xs] st by simp
    then show ?thesis using m'(1,3,4,5) fit full n unfolding grow_def by auto
  qed
qed

end
