(* ===== verification/Agent_Service.thy ===== *)
theory Agent_Service
  imports Agent_Ledger
begin

text \<open>
  What the region service promises: each request is answered with the status of the specification,
  a registration is announced on ring A, and the ledger keeps agreeing with the manifest over any
  sequence of requests and re-verifications.
\<close>

section \<open>The service on its channel\<close>

lemma page_ring_manifest:
  assumes h: "length (ch_ring_desc h) = 4" "ChannelHeader_validate h = Ok ()" and len: "length page = CHANNEL_SIZE"
    and i: "0x1000 \<le> i" "i + length src \<le> 0x8000"
  shows "page_ring h (patch page i src) a = page_ring h page a"
proof -
  let ?d = "ch_ring_desc h ! ring_index a"
  have c: "prod_offset a + 4 \<le> i" "cons_offset a + 4 \<le> i" using cell_offsets(1,2) [of a] i(1) by linarith+
  have o: "i + length src \<le> unat (rd_offset ?d)" using header_ring_placed(1) [OF h, of a] i(2) by (simp add: ring_placed_def)
  have b: "i + length src \<le> length page" using i len by simp
  have "take n (drop (unat (rd_offset ?d)) (patch page i src)) = take n (drop (unat (rd_offset ?d)) page)" for n
    using b o by (intro take_drop_patch_after) auto
  then show ?thesis using b c by (simp add: page_ring_def Let_def le_at_patch_before)
qed

lemma set_manifest_facts:
  assumes "length (ac_page c) = CHANNEL_SIZE" and "area_len m"
  shows "agent_manifest (set_manifest m c) = m" and "emitting winv log strm (set_manifest m c) = emitting winv log strm c"
    and "set_manifest (agent_manifest c) c = c"
proof -
  show "agent_manifest (set_manifest m c) = m"
    using assms by (simp add: agent_manifest_def set_manifest_def area_len_def take_drop_patch_inside)
  have "page_queue canonical RingA p (patch (ac_page c) 0x1000 m) recs = page_queue canonical RingA p (ac_page c) recs" for p recs
    using assms page_ring_manifest [OF canonical_descs canonical_valid assms(1), of "0x1000" m RingA]
    by (simp add: page_queue_def area_len_def)
  then show "emitting winv log strm (set_manifest m c) = emitting winv log strm c"
    by (simp add: emitting_def on_ring_a_def set_manifest_def)
  show "set_manifest (agent_manifest c) c = c"
    using assms(1) by (simp add: agent_manifest_def set_manifest_def patch_self)
qed

lemma emitting_length: "emitting winv log strm c \<Longrightarrow> length (ac_page c) = CHANNEL_SIZE"
  by (auto simp: emitting_def on_ring_a_def page_queue_def)

lemma sent_length: "sent winv log strm evs c \<Longrightarrow> length (ac_page c) = CHANNEL_SIZE"
  using emitting_length by (auto simp: sent_def)

lemma set_manifest_dropped: "length (ac_page c) = CHANNEL_SIZE \<Longrightarrow> area_len m \<Longrightarrow> dropped (set_manifest m c) = dropped c"
  by (rule dropped_low) (simp add: set_manifest_def area_len_def take_patch_before)

lemma sent_set_manifest:
  assumes "sent winv log strm evs c" and "area_len m"
  shows "sent winv log strm evs (set_manifest m c)"
  using assms sent_length [OF assms(1)] by (intro sent_cong [OF assms(1)]) (simp_all add: set_manifest_dropped set_manifest_facts(2))

text \<open>The invariant of the service, with the events sent so far.\<close>

definition service_ok :: "('w \<Rightarrow> bool) \<Rightarrow> ('w \<Rightarrow> bytes list) \<Rightarrow> tape \<Rightarrow> event_payload list \<Rightarrow> 'w region_ipc \<Rightarrow> bool" where
  "service_ok winv log strm evs s \<longleftrightarrow> sent winv log strm evs (ri_channel s)
     \<and> ledger_ok (agent_manifest (ri_channel s)) (ri_records s)"

abbreviation manifest_hdr :: "'w region_ipc \<Rightarrow> manifest_header" where
  "manifest_hdr s \<equiv> area_hdr (agent_manifest (ri_channel s))"

lemma ledger_len: "ledger_ok m rs \<Longrightarrow> area_len m"
  by (simp add: ledger_ok_def area_ok_def)

lemma service_facts:
  assumes "service_ok winv log strm evs s"
  shows "length (ac_page (ri_channel s)) = CHANNEL_SIZE" and "area_len (agent_manifest (ri_channel s))"
    and "area_ok (agent_manifest (ri_channel s))"
  using assms sent_length ledger_len by (auto simp: service_ok_def ledger_ok_def)

text \<open>A writer that refuses leaves the service as it was, one that succeeds changes the manifest only.\<close>

lemma on_manifest_refused:
  assumes "service_ok winv log strm evs s" and "f (agent_manifest (ri_channel s)) = Some (r, agent_manifest (ri_channel s))"
  shows "on_manifest f s = Some (r, s)"
  using assms(2) set_manifest_facts(3) [OF service_facts(1,2) [OF assms(1)]]
  by (simp add: on_manifest_def on_channel_def zoom_def)

lemma on_manifest_done:
  assumes s: "service_ok winv log strm evs s" and f: "f (agent_manifest (ri_channel s)) = Some (r, m')" and m': "area_len m'"
  shows "\<exists>s'. on_manifest f s = Some (r, s') \<and> ri_records s' = ri_records s \<and> ri_conns s' = ri_conns s
     \<and> agent_manifest (ri_channel s') = m' \<and> sent winv log strm evs (ri_channel s')
     \<and> ac_world (ri_channel s') = ac_world (ri_channel s)"
  using f set_manifest_facts(1) [OF service_facts(1) [OF s] m'] sent_set_manifest [OF _ m'] s
  by (auto simp: on_manifest_def on_channel_def zoom_def service_ok_def set_manifest_def)

text \<open>Emitting from the service.\<close>

lemma service_emit:
  assumes "agent_served env winv patience log" and "event_item_ok (0, 0, ev)" and "sent winv log strm evs (ri_channel s)"
  shows "ends (on_channel (emit_now env ev) :: ('w region_ipc, 'e, unit) act) (\<lambda>_ s'. sent winv log strm (evs @ [ev]) (ri_channel s')
       \<and> agent_manifest (ri_channel s') = agent_manifest (ri_channel s) \<and> ri_records s' = ri_records s \<and> ri_conns s' = ri_conns s) s"
    and "ends (on_channel (emit_ring_now env ev) :: ('w region_ipc, 'e, unit) act) (\<lambda>_ s'. sent winv log strm (evs @ [ev]) (ri_channel s')
       \<and> agent_manifest (ri_channel s') = agent_manifest (ri_channel s) \<and> ri_records s' = ri_records s \<and> ri_conns s' = ri_conns s) s"
  unfolding on_channel_def ends_zoom
  by (rule ends_mono [OF emit_now_ends(1) [OF assms]], simp add: calm_def)
     (rule ends_mono [OF emit_now_ends(2) [OF assms]], simp add: calm_def)

section \<open>Registration\<close>

text \<open>Why a registration is refused, in the order of the checks.\<close>

definition register_refusal :: "manifest_header \<Rightarrow> (build_extents_error, extent list) res \<Rightarrow> u16 option" where
  "register_refusal h t =
     (case t of
        Err e \<Rightarrow> Some (build_error_status e)
      | Ok xs \<Rightarrow> if 64 \<le> unat (mh_region_count h) then Some STATUS_MANIFEST_FULL
                 else if 1024 < unat (mh_extent_count h) + length xs then Some STATUS_TOO_MANY_EXTENTS else None
      | Panic \<Rightarrow> None)"

lemma try_u32_small: "unat g < 2 ^ 32 \<Longrightarrow> try_u32 g = Some (ucast g)"
  by (simp add: try_u32_def)

lemma register_refused:
  assumes s: "service_ok winv log strm evs s" and name: "length name \<le> 56"
    and t: "translate (ac_world (ri_channel s)) pid gva len = t" and st: "register_refusal (manifest_hdr s) t = Some status"
  shows "handle_register env translate pid fl lv nid gva len name s = Some (Err status, s)"
proof (cases t)
  case (Ok xs)
  note wf = write_region_full [OF service_facts(3) [OF s] name, where nid = nid and lv = lv and fl = fl and gva = gva and len = len and xs = xs]
  have "write_region name nid lv fl gva len xs (agent_manifest (ri_channel s)) = Some (Err status, agent_manifest (ri_channel s))"
    using st Ok wf by (auto simp: register_refusal_def split: if_splits)
  from on_manifest_refused [where f = "write_region name nid lv fl gva len xs", OF s this] show ?thesis
    using t Ok by (simp add: handle_register_def act_bind_def gets_def of_res_def)
qed (use t st in \<open>simp_all add: handle_register_def act_bind_def gets_def of_res_def register_refusal_def\<close>)

lemma register_done:
  assumes served: "agent_served env winv patience log" and s: "service_ok winv log strm evs s"
    and name: "length name \<le> 56" and fl: "fl AND REGION_FLAG_DEAD = 0" and h: "h = manifest_hdr s"
    and t: "translate (ac_world (ri_channel s)) pid gva len = Ok xs" and st: "register_refusal h (Ok xs) = None"
    and g: "unat (mh_generation h + 2) < 2 ^ 32"
    and r: "r = \<lparr>rec_region_id = mh_region_count h, rec_name = name, rec_name_id = nid, rec_layout_version = lv, rec_pid = pid,
      rec_gva = gva, rec_len = len, rec_extents = xs, rec_dead = False\<rparr>"
    and ev: "ev = \<lparr>re_region_id = mh_region_count h, re_name_id = nid, re_layout_version = lv,
      re_manifest_generation = ucast (mh_generation h + 2)\<rparr>"
  shows "\<exists>s'. handle_register env translate pid fl lv nid gva len name s
       = Some (Ok \<lparr>rep_status = STATUS_OK, rep_region_id = mh_region_count h, rep_name_id = nid,
                   rep_manifest_generation = mh_generation h + 2\<rparr>, s')
     \<and> service_ok winv log strm (evs @ [Ev_NameIntern nid name, Ev_RegionRegister ev]) s'
     \<and> ri_records s' = ri_records s @ [r] \<and> ri_conns s' = ri_conns s"
proof -
  have l: "ledger_ok (agent_manifest (ri_channel s)) (ri_records s)" using s by (simp add: service_ok_def)
  have room: "unat (mh_region_count h) < 64" "unat (mh_extent_count h) + length xs \<le> 1024"
    using st by (auto simp: register_refusal_def split: if_splits)
  obtain m' where m': "write_region name nid lv fl gva len xs (agent_manifest (ri_channel s))
        = Some (Ok (mh_region_count h, mh_generation h + 2), m')" "ledger_ok m' (ri_records s @ [r])"
    using ledger_write [OF l name fl h room r] by blast
  obtain s1 where s1: "on_manifest (write_region name nid lv fl gva len xs) s = Some (Ok (mh_region_count h, mh_generation h + 2), s1)"
      "ri_records s1 = ri_records s" "ri_conns s1 = ri_conns s" "agent_manifest (ri_channel s1) = m'"
      "sent winv log strm evs (ri_channel s1)"
    using on_manifest_done [where f = "write_region name nid lv fl gva len xs", OF s m'(1) ledger_len [OF m'(2)]] by blast
  have ok: "event_item_ok (0, 0, Ev_NameIntern nid name)" "event_item_ok (0, 0, Ev_RegionRegister ev)"
    using name by (simp_all add: event_item_ok_def)
  obtain s2 where s2: "on_channel (emit_now env (Ev_NameIntern nid name)) s1 = Some (Ok () :: (u16, unit) res, s2)"
      "sent winv log strm (evs @ [Ev_NameIntern nid name]) (ri_channel s2)"
      "agent_manifest (ri_channel s2) = m'" "ri_records s2 = ri_records s" "ri_conns s2 = ri_conns s"
    using service_emit(1) [OF served ok(1) s1(5)] s1 by (auto simp: ends_def)
  obtain s3 where s3: "on_channel (emit_ring_now env (Ev_RegionRegister ev)) s2 = Some (Ok () :: (u16, unit) res, s3)"
      "sent winv log strm (evs @ [Ev_NameIntern nid name, Ev_RegionRegister ev]) (ri_channel s3)"
      "agent_manifest (ri_channel s3) = m'" "ri_records s3 = ri_records s" "ri_conns s3 = ri_conns s"
    using service_emit(2) [OF served ok(2) s2(2)] s2 by (auto simp: ends_def)
  let ?s = "s3\<lparr>ri_records := ri_records s3 @ [r]\<rparr>"
  have "handle_register env translate pid fl lv nid gva len name s
      = Some (Ok \<lparr>rep_status = STATUS_OK, rep_region_id = mh_region_count h, rep_name_id = nid,
                  rep_manifest_generation = mh_generation h + 2\<rparr>, ?s)"
    using t s1(1) try_u32_small [OF g] s2(1) s3(1) [unfolded ev]
    by (simp add: handle_register_def act_bind_def gets_def of_res_def modify_def return_def r)
  moreover have "service_ok winv log strm (evs @ [Ev_NameIntern nid name, Ev_RegionRegister ev]) ?s"
    using s3 m'(2) by (simp add: service_ok_def)
  ultimately show ?thesis using s3(4,5) by auto
qed

end
