(* ===== verification/Agent_Requests.thy ===== *)
theory Agent_Requests
  imports Agent_Service
begin

text \<open>
  Every datagram is answered and every re-verification completes: the handlers of the region service
  end against a serving host, whatever bytes arrive, and keep the ledger in agreement with the manifest. \<open>reverify_ledger\<close> specifies a sweep on
  the ledger alone.
\<close>

text \<open>A translator reports what it cannot translate as an error.\<close>

definition never_panics :: "('w \<Rightarrow> translator) \<Rightarrow> bool" where
  "never_panics translate \<longleftrightarrow> (\<forall>w pid gva len. translate w pid gva len \<noteq> Panic)"

section \<open>Registration, all answers\<close>

lemma handle_pid: "wpid \<noteq> Some pid \<Longrightarrow> handle env tr req pid wpid s = Some (Ok (err_reply STATUS_UNKNOWN_PID), s)"
  by (simp add: handle_def act_catch_def fail_def return_def)

lemma handle_register_eq:
  "handle env tr (Register fl lv nid gva len name) pid (Some pid)
     = act_catch (handle_register env tr pid fl lv nid gva len name) (\<lambda>status. return (err_reply status))"
  by (simp add: handle_def)

text \<open>A generation that has outgrown the event's field: the manifest has the region, the ledger has not.\<close>

lemma register_overflow:
  assumes s: "service_ok winv log strm evs s"
    and name: "length name \<le> 56" and fl: "fl AND REGION_FLAG_DEAD = 0" and h: "h = manifest_hdr s"
    and t: "translate (ac_world (ri_channel s)) pid gva len = Ok xs" and st: "register_refusal h (Ok xs) = None"
    and g: "\<not> unat (mh_generation h + 2) < 2 ^ 32"
  shows "\<exists>s'. handle_register env translate pid fl lv nid gva len name s = Some (Err STATUS_INTERNAL, s')
     \<and> service_ok winv log strm evs s' \<and> ri_records s' = ri_records s \<and> ri_conns s' = ri_conns s
     \<and> unat (mh_region_count (manifest_hdr s')) = unat (mh_region_count h) + 1"
proof -
  have l: "ledger_ok (agent_manifest (ri_channel s)) (ri_records s)" using s by (simp add: service_ok_def)
  have room: "unat (mh_region_count h) < 64" "unat (mh_extent_count h) + length xs \<le> 1024"
    using st by (auto simp: register_refusal_def split: if_splits)
  obtain m' where m': "write_region name nid lv fl gva len xs (agent_manifest (ri_channel s))
        = Some (Ok (mh_region_count h, mh_generation h + 2), m')" "ledger_ok m' (ri_records s)"
      "unat (mh_region_count (area_hdr m')) = unat (mh_region_count h) + 1"
    using ledger_write [OF l name fl h room refl] by blast
  obtain s1 where s1: "on_manifest (write_region name nid lv fl gva len xs) s = Some (Ok (mh_region_count h, mh_generation h + 2), s1)"
      "ri_records s1 = ri_records s" "ri_conns s1 = ri_conns s" "agent_manifest (ri_channel s1) = m'"
      "sent winv log strm evs (ri_channel s1)"
    using on_manifest_done [where f = "write_region name nid lv fl gva len xs", OF s m'(1) ledger_len [OF m'(2)]] by blast
  have "try_u32 (mh_generation h + 2) = None" using g by (simp add: try_u32_def)
  then have "handle_register env translate pid fl lv nid gva len name s = Some (Err STATUS_INTERNAL, s1)"
    using t s1(1) by (simp add: handle_register_def act_bind_def gets_def of_res_def)
  then show ?thesis using s1 m' by (auto simp: service_ok_def)
qed

section \<open>Unregistration\<close>

lemma update_first_live:
  assumes "distinct (map record_slot rs)" and "find (live_record rid) rs = Some r"
  shows "update_first (live_record rid) (\<lambda>r. r\<lparr>rec_dead := True\<rparr>) rs = replace_record (r\<lparr>rec_dead := True\<rparr>) rs"
    and "r \<in> set rs" and "rec_region_id r = rid" and "\<not> rec_dead r"
proof -
  show r: "r \<in> set rs" "rec_region_id r = rid" "\<not> rec_dead r"
    using assms(2) by (auto simp: find_Some_iff live_record_def)
  show "update_first (live_record rid) (\<lambda>r. r\<lparr>rec_dead := True\<rparr>) rs = replace_record (r\<lparr>rec_dead := True\<rparr>) rs"
    using assms
  proof (induction rs)
    case (Cons q rs)
    show ?case
    proof (cases "live_record rid q")
      case True
      then have q: "q = r" using Cons.prems(2) by simp
      have "replace_record (r\<lparr>rec_dead := True\<rparr>) rs = rs"
        using Cons.prems(1) q unfolding replace_record_def by (intro map_idI) (force simp: record_slot_def image_iff)
      then show ?thesis using True q by (simp add: replace_record_def record_slot_def)
    next
      case False
      then have f: "find (live_record rid) rs = Some r" using Cons.prems(2) by simp
      then have "r \<in> set rs" by (auto simp: find_Some_iff)
      then have "record_slot q \<noteq> record_slot r" using Cons.prems(1) by auto
      then show ?thesis using False Cons.IH [OF _ f] Cons.prems(1) by (simp add: replace_record_def record_slot_def)
    qed
  qed simp
qed

lemma unregister_cases:
  assumes s: "service_ok winv log strm evs s" and h: "h = manifest_hdr s"
  shows "case find (live_record rid) (ri_records s) of
      None \<Rightarrow> handle_unregister rid s = Some (Err STATUS_UNKNOWN_REGION, s)
    | Some r \<Rightarrow> \<exists>s'. handle_unregister rid s
          = Some (Ok \<lparr>rep_status = STATUS_OK, rep_region_id = rid, rep_name_id = rec_name_id r,
                      rep_manifest_generation = mh_generation h + 2\<rparr>, s')
        \<and> service_ok winv log strm evs s' \<and> ri_conns s' = ri_conns s
        \<and> ri_records s' = replace_record (r\<lparr>rec_dead := True\<rparr>) (ri_records s)"
proof (cases "find (live_record rid) (ri_records s)")
  case None
  then show ?thesis by (simp add: handle_unregister_def act_bind_def gets_def of_res_def ok_or_def)
next
  case (Some r)
  have l: "ledger_ok (agent_manifest (ri_channel s)) (ri_records s)" and d: "distinct (map record_slot (ri_records s))"
    using s by (simp_all add: service_ok_def ledger_ok_def)
  note u = update_first_live [OF d Some]
  obtain m' where m': "mark_region_dead rid (agent_manifest (ri_channel s)) = Some (Ok (mh_generation h + 2), m')"
      "ledger_ok m' (replace_record (r\<lparr>rec_dead := True\<rparr>) (ri_records s))"
    using ledger_dead [OF l u(2) h] u(3) by blast
  obtain s1 where s1: "on_manifest (mark_region_dead rid) s = Some (Ok (mh_generation h + 2), s1)"
      "ri_records s1 = ri_records s" "ri_conns s1 = ri_conns s" "agent_manifest (ri_channel s1) = m'"
      "sent winv log strm evs (ri_channel s1)"
    using on_manifest_done [where f = "mark_region_dead rid", OF s m'(1) ledger_len [OF m'(2)]] by blast
  show ?thesis
    using Some s1 u(1) m'(2)
    by (auto simp: handle_unregister_def act_bind_def gets_def of_res_def ok_or_def modify_def return_def service_ok_def)
qed

section \<open>Re-verification\<close>

text \<open>
  What a sweep makes of a record, from the generation \<open>g\<close> and the number \<open>n\<close> of extents in the pool: a dead record
  stays; a record whose range still translates to its extents is echoed; other extents replace the old ones, in place
  when they are not more and at the end of the pool otherwise; a record whose new extents do not fit the pool, or whose
  range no longer translates, dies. Every write raises the generation by two.
\<close>

definition reverify_step :: "translator \<Rightarrow> u64 \<Rightarrow> nat \<Rightarrow> region_record \<Rightarrow> (region_record \<times> update option) \<times> u64 \<times> nat" where
  "reverify_step tr g n r =
     (let dead = r\<lparr>rec_dead := True\<rparr>
      in if rec_dead r then ((r, None), g, n)
         else case tr (rec_pid r) (rec_gva r) (rec_len r) of
                Ok xs \<Rightarrow>
                  (let new = r\<lparr>rec_extents := xs\<rparr>
                   in if xs = rec_extents r then ((r, Some (region_event_of r g, None)), g, n)
                      else if length xs \<le> length (rec_extents r)
                      then ((new, Some (region_event_of new (g + 2), Some (drift_alarm r))), g + 2, n)
                      else if n + length xs \<le> EXTENT_CAPACITY
                      then ((new, Some (region_event_of new (g + 2), Some (drift_alarm r))), g + 2, n + length xs)
                      else ((dead, Some (region_event_of dead (g + 2), Some (drift_alarm r))), g + 2, n))
              | _ \<Rightarrow> ((dead, Some (region_event_of dead (g + 2), Some (lost_alarm r))), g + 2, n))"

fun reverify_ledger :: "translator \<Rightarrow> u64 \<Rightarrow> nat \<Rightarrow> region_record list \<Rightarrow> (region_record \<times> update option) list \<times> u64 \<times> nat" where
  "reverify_ledger tr g n [] = ([], g, n)"
| "reverify_ledger tr g n (r # rs) =
     (case reverify_step tr g n r of (u, g, n) \<Rightarrow> case reverify_ledger tr g n rs of (us, g, n) \<Rightarrow> (u # us, g, n))"

abbreviation manifest_at :: "u64 \<Rightarrow> nat \<Rightarrow> bytes \<Rightarrow> bool" where
  "manifest_at g n m \<equiv> mh_generation (area_hdr m) = g \<and> unat (mh_extent_count (area_hdr m)) = n"

lemma replace_in_middle:
  assumes "distinct (map record_slot (pre @ r # post))" and "record_slot r' = record_slot r"
  shows "replace_record r' (pre @ r # post) = pre @ r' # post"
proof -
  have "map (\<lambda>q. if record_slot q = record_slot r' then r' else q) qs = qs" if "record_slot r \<notin> record_slot ` set qs" for qs
    using that assms(2) by (intro map_idI) (force simp: image_iff)
  then show ?thesis using assms by (simp add: replace_record_def)
qed

lemma kill_ends:
  assumes l: "ledger_ok m (pre @ r # post)" and at: "manifest_at g n m"
  shows "ends (kill_record r alarm :: (bytes, 'e, region_record \<times> update option) act)
     (\<lambda>ru m'. ru = (r\<lparr>rec_dead := True\<rparr>, Some (region_event_of (r\<lparr>rec_dead := True\<rparr>) (g + 2), Some alarm))
        \<and> ledger_ok m' (pre @ r\<lparr>rec_dead := True\<rparr> # post) \<and> manifest_at (g + 2) n m') m"
proof -
  have d: "distinct (map record_slot (pre @ r # post))" using l by (simp add: ledger_ok_def)
  have rd: "replace_record (r\<lparr>rec_dead := True\<rparr>) (pre @ r # post) = pre @ r\<lparr>rec_dead := True\<rparr> # post"
    using d by (rule replace_in_middle) (simp add: record_slot_def)
  obtain m' where "mark_region_dead (rec_region_id r) m = Some (Ok (g + 2), m')"
      "ledger_ok m' (pre @ r\<lparr>rec_dead := True\<rparr> # post)" "manifest_at (g + 2) n m'"
    using ledger_dead [OF l _ refl, of r] rd at by auto
  then show ?thesis
    by (auto simp: ends_def kill_record_def act_bind_def act_catch_def return_def Let_def)
qed

lemma reverify_drifted:
  assumes l: "ledger_ok m (pre @ r # post)" and at: "manifest_at g n m" and live: "\<not> rec_dead r"
    and t: "tr (rec_pid r) (rec_gva r) (rec_len r) = Ok xs" "xs \<noteq> rec_extents r"
  shows "ends (reverify_record tr r :: (bytes, 'e, region_record \<times> update option) act)
     (\<lambda>ru m'. case reverify_step tr g n r of (ru', g', n') \<Rightarrow> ru = ru' \<and> ledger_ok m' (pre @ fst ru' # post) \<and> manifest_at g' n' m') m"
proof (cases "length (rec_extents r) < length xs \<and> EXTENT_CAPACITY < n + length xs")
  case True
  have "rewrite_extents (rec_region_id r) xs m = Some (Err STATUS_TOO_MANY_EXTENTS, m)"
    using ledger_rewrite [OF l _ live refl, of xs] True at by simp
  moreover have "ends (kill_record r (drift_alarm r) :: (bytes, 'e, region_record \<times> update option) act)
      (\<lambda>ru m'. case reverify_step tr g n r of (ru', g', n') \<Rightarrow> ru = ru' \<and> ledger_ok m' (pre @ fst ru' # post) \<and> manifest_at g' n' m') m"
    by (rule ends_mono [OF kill_ends [OF l at]]) (use True live t in \<open>simp add: reverify_step_def Let_def\<close>)
  ultimately show ?thesis using live t by (simp add: reverify_record_def ends_catch act_bind_def)
next
  case False
  have d: "distinct (map record_slot (pre @ r # post))" using l by (simp add: ledger_ok_def)
  have rx: "replace_record (r\<lparr>rec_extents := xs\<rparr>) (pre @ r # post) = pre @ r\<lparr>rec_extents := xs\<rparr> # post"
    using d by (rule replace_in_middle) (simp add: record_slot_def)
  obtain m' where "rewrite_extents (rec_region_id r) xs m = Some (Ok (g + 2), m')" "ledger_ok m' (pre @ r\<lparr>rec_extents := xs\<rparr> # post)"
      "manifest_at (g + 2) (n + (if length (rec_extents r) < length xs then length xs else 0)) m'"
    using ledger_rewrite [OF l _ live refl, of xs] False at rx by (auto split: if_splits)
  then show ?thesis using live t False
    by (auto simp: reverify_record_def ends_catch act_bind_def return_def Let_def reverify_step_def)
qed

lemma reverify_record_ends:
  assumes l: "ledger_ok m (pre @ r # post)" and at: "manifest_at g n m" and tr: "\<And>pid gva len. tr pid gva len \<noteq> Panic"
  shows "ends (reverify_record tr r :: (bytes, 'e, region_record \<times> update option) act)
     (\<lambda>ru m'. case reverify_step tr g n r of (ru', g', n') \<Rightarrow> ru = ru' \<and> ledger_ok m' (pre @ fst ru' # post) \<and> manifest_at g' n' m') m"
proof (cases "rec_dead r")
  case True
  then show ?thesis using l at by (simp add: reverify_record_def ends_rules reverify_step_def Let_def)
next
  case live: False
  let ?t = "tr (rec_pid r) (rec_gva r) (rec_len r)"
  show ?thesis
  proof (cases ?t)
    case (Err e)
    then show ?thesis using live unfolding reverify_record_def
      by (simp, intro ends_mono [OF kill_ends [OF l at]]) (simp add: reverify_step_def Let_def)
  next
    case (Ok xs)
    have "current_generation m = g" using l at by (simp add: ledger_ok_def area_ok_def current_generation_def area_read)
    then show ?thesis
      using reverify_drifted [where tr = tr and xs = xs, OF l at live Ok] live Ok l at
      by (cases "xs = rec_extents r") (simp_all add: reverify_record_def ends_rules reverify_step_def Let_def)
  qed (use tr in simp)
qed

lemma reverify_sweep:
  assumes tr: "\<And>pid gva len. tr pid gva len \<noteq> Panic"
  shows "ledger_ok m (pre @ rs) \<Longrightarrow> manifest_at g n m \<Longrightarrow> reverify_ledger tr g n rs = (us, g', n') \<Longrightarrow>
     ends (map_each (reverify_record tr) rs :: (bytes, 'e, (region_record \<times> update option) list) act)
       (\<lambda>out m'. out = us \<and> ledger_ok m' (pre @ map fst us) \<and> manifest_at g' n' m') m"
proof (induction rs arbitrary: pre m g n us)
  case (Cons r rs)
  obtain u g1 n1 where st: "reverify_step tr g n r = (u, g1, n1)" by (cases "reverify_step tr g n r")
  obtain us1 where us1: "reverify_ledger tr g1 n1 rs = (us1, g', n')" "us = u # us1"
    using Cons.prems(3) st by (auto split: prod.splits)
  show ?case unfolding map_each.simps ends_bind
  proof (rule ends_mono [OF reverify_record_ends [where tr = tr, OF Cons.prems(1,2) tr]])
    fix ru m1
    assume "case reverify_step tr g n r of (ru', g', n') \<Rightarrow> ru = ru' \<and> ledger_ok m1 (pre @ fst ru' # rs) \<and> manifest_at g' n' m1"
    then have "ru = u" "ledger_ok m1 ((pre @ [fst u]) @ rs)" "manifest_at g1 n1 m1" by (simp_all add: st)
    from Cons.IH [OF this(2,3) us1(1)] \<open>ru = u\<close>
    show "ends (map_each (reverify_record tr) rs :: (bytes, 'e, (region_record \<times> update option) list) act)
       (\<lambda>out. ends (return (ru # out)) (\<lambda>out m'. out = us \<and> ledger_ok m' (pre @ map fst us) \<and> manifest_at g' n' m')) m1"
      by (auto elim!: ends_mono simp: ends_rules us1(2))
  qed
qed (simp add: ends_rules)

text \<open>The events of a sweep.\<close>

fun update_events :: "update \<Rightarrow> event_payload list" where
  "update_events (ev, alarm) = (case alarm of None \<Rightarrow> [] | Some msg \<Rightarrow> [Ev_LogLine STREAM_AGENT 0 msg]) @ [Ev_RegionUpdate ev]"

lemma emit_alarm_ends:
  assumes "agent_served env winv patience log" and "sent winv log strm evs c"
  shows "ends (emit_alarm env alarm :: ('w, 'e, unit) channel_act)
     (\<lambda>_ c'. calm c c' \<and> sent winv log strm (evs @ (case alarm of None \<Rightarrow> [] | Some msg \<Rightarrow> [Ev_LogLine STREAM_AGENT 0 msg])) c') c"
proof (cases alarm)
  case None
  then show ?thesis using assms(2) by (simp add: emit_alarm_def ends_rules calm_refl)
next
  case (Some msg)
  then show ?thesis using emit_now_ends(1) [OF assms(1) _ assms(2), of "Ev_LogLine STREAM_AGENT 0 msg"]
    by (simp add: emit_alarm_def event_item_ok_def)
qed

lemma emit_updates_ends:
  assumes srv: "agent_served env winv patience log"
  shows "calm c0 c \<Longrightarrow> sent winv log strm evs c \<Longrightarrow> ends (emit_updates env us :: ('w, 'e, unit) channel_act)
     (\<lambda>_ c'. calm c0 c' \<and> sent winv log strm (evs @ concat (map update_events us)) c') c"
proof (induction us arbitrary: evs c rule: induct_list012)
  case 1
  then show ?case by (simp add: ends_rules)
next
  case (2 u)
  obtain ev alarm where u: "u = (ev, alarm)" by (cases u)
  show ?case unfolding u emit_updates.simps
    by (rule ends_then [OF emit_alarm_ends [OF srv 2(2)]], rule ends_mono [OF emit_now_ends(2) [OF srv]])
       (use 2(1) in \<open>auto simp: event_item_ok_def intro: calm_trans\<close>)
next
  case (3 u v us)
  obtain ev alarm where u: "u = (ev, alarm)" by (cases u)
  show ?case unfolding u emit_updates.simps
    by (rule ends_then [OF emit_alarm_ends [OF srv 3(4)]], rule ends_then [OF emit_now_ends(1) [OF srv]],
        simp add: event_item_ok_def, erule conjunct2, rule ends_mono [OF 3(2)])
       (use 3(3) in \<open>auto intro: calm_trans\<close>)
qed

lemma reverify_ends:
  fixes s :: "'w region_ipc"
  assumes srv: "agent_served env winv patience log" and s: "service_ok winv log strm evs s" and tr: "never_panics translate"
    and sweep: "reverify_ledger (translate (ac_world (ri_channel s))) (mh_generation (manifest_hdr s)) (unat (mh_extent_count (manifest_hdr s)))
      (ri_records s) = (us, g', n')"
  shows "ends (reverify env translate :: ('w region_ipc, 'e, unit) act)
     (\<lambda>_ s'. ri_conns s' = ri_conns s \<and> ri_records s' = map fst us \<and> manifest_at g' n' (agent_manifest (ri_channel s'))
        \<and> service_ok winv log strm (evs @ concat (map update_events (List.map_filter snd us))) s') s"
proof -
  let ?tr = "translate (ac_world (ri_channel s))" and ?m = "agent_manifest (ri_channel s)"
  have l: "ledger_ok ?m ([] @ ri_records s)" using s by (simp add: service_ok_def)
  obtain m' where m': "map_each (reverify_record ?tr) (ri_records s) ?m
        = Some (Ok us :: ('e, (region_record \<times> update option) list) res, m')"
      "ledger_ok m' (map fst us)" "manifest_at g' n' m'"
    using reverify_sweep [of ?tr, OF _ l _ sweep] tr by (auto simp: ends_def never_panics_def)
  obtain s1 where s1: "on_manifest (map_each (reverify_record ?tr) (ri_records s)) s
        = Some (Ok us :: ('e, (region_record \<times> update option) list) res, s1)"
      "ri_conns s1 = ri_conns s" "agent_manifest (ri_channel s1) = m'" "sent winv log strm evs (ri_channel s1)"
    using on_manifest_done [where f = "map_each (reverify_record ?tr) (ri_records s)", OF s m'(1) ledger_len [OF m'(2)]] by blast
  let ?us = "List.map_filter snd us"
  obtain c where c: "emit_updates env ?us (ri_channel s1) = Some (Ok () :: ('e, unit) res, c)"
      "sent winv log strm (evs @ concat (map update_events ?us)) c" "agent_manifest c = m'"
    using emit_updates_ends [OF srv calm_refl s1(4), of ?us] s1(3) by (auto simp: ends_def calm_def)
  have "reverify env translate s = Some (Ok () :: ('e, unit) res, s1\<lparr>ri_records := map fst us, ri_channel := c\<rparr>)"
    using s1(1) c(1) by (simp add: reverify_def act_bind_def gets_def modify_def on_channel_def zoom_def)
  moreover have "service_ok winv log strm (evs @ concat (map update_events ?us)) (s1\<lparr>ri_records := map fst us, ri_channel := c\<rparr>)"
    using c m'(2) by (simp add: service_ok_def)
  ultimately show ?thesis using c(3) m'(3) s1(2) by (simp add: ends_def)
qed

lemma service_more: "service_ok winv log strm evs s \<Longrightarrow> \<exists>evs'. service_ok winv log strm (evs @ evs') s"
  by (metis append_Nil2)

section \<open>Requests\<close>

lemma handle_ends:
  fixes s :: "'w region_ipc"
  assumes srv: "agent_served env winv patience log" and s: "service_ok winv log strm evs s"
    and tr: "never_panics translate"
    and req: "name_fits req" "fields_ok req"
  shows "ends (handle env translate req pid wpid :: ('w region_ipc, 'e, reply) act)
     (\<lambda>_ s'. ri_conns s' = ri_conns s \<and> (\<exists>evs'. service_ok winv log strm (evs @ evs') s')) s"
proof (cases "wpid = Some pid")
  case False
  then have "handle env translate req pid wpid s = Some (Ok (err_reply STATUS_UNKNOWN_PID) :: ('e, reply) res, s)" by (rule handle_pid)
  then show ?thesis using s by (auto simp: ends_def intro: exI [of _ "[]"])
next
  case pid: True
  show ?thesis
  proof (cases req)
    case (Register fl lv nid gva len name)
    let ?t = "translate (ac_world (ri_channel s)) pid gva len"
    have name: "length name \<le> 56" and fl: "fl AND REGION_FLAG_DEAD = 0" using req Register by simp_all
    have eq: "handle env translate req pid wpid
        = (act_catch (handle_register env translate pid fl lv nid gva len name) (\<lambda>status. return (err_reply status))
           :: ('w region_ipc, 'e, reply) act)"
      by (simp add: Register pid handle_register_eq)
    show ?thesis
    proof (cases "register_refusal (manifest_hdr s) ?t")
      case (Some status)
      from register_refused [where translate = translate and pid = pid and gva = gva and len = len, OF s name refl this] show ?thesis
        using service_more [OF s] by (simp add: eq ends_catch ends_rules)
    next
      case None
      obtain xs where xs: "?t = Ok xs" using tr None by (cases ?t) (auto simp: register_refusal_def never_panics_def)
      show ?thesis
      proof (cases "unat (mh_generation (manifest_hdr s) + 2) < 2 ^ 32")
        case True
        from register_done [where translate = translate and pid = pid and gva = gva and len = len and nid = nid and lv = lv, OF srv s name fl refl xs None [unfolded xs] True refl refl] show ?thesis
          by (auto simp: eq ends_catch)
      next
        case False
        obtain s' where s': "handle_register env translate pid fl lv nid gva len name s = Some (Err STATUS_INTERNAL, s')"
            "service_ok winv log strm evs s'" "ri_conns s' = ri_conns s"
          using register_overflow [where translate = translate and pid = pid and gva = gva and len = len and nid = nid and lv = lv and env = env,
              OF s name fl refl xs None [unfolded xs] False] by blast
        then show ?thesis using service_more [OF s'(2)] by (simp add: eq ends_catch ends_rules)
      qed
    qed
  next
    case (Unregister rid)
    have eq: "handle env translate req pid wpid = (act_catch (handle_unregister rid) (\<lambda>status. return (err_reply status))
           :: ('w region_ipc, 'e, reply) act)"
      by (simp add: handle_def Unregister pid)
    show ?thesis
      using unregister_cases [OF s refl, of rid] service_more [OF s] service_more
      by (cases "find (live_record rid) (ri_records s)") (auto simp: eq ends_catch ends_rules)
  qed
qed

lemma answer_datagram_ends:
  fixes s :: "'w region_ipc"
  assumes srv: "agent_served env winv patience log" and s: "service_ok winv log strm evs s"
    and tr: "never_panics translate"
  shows "ends (answer_datagram env translate buf pid wpid :: ('w region_ipc, 'e, reply) act)
     (\<lambda>_ s'. ri_conns s' = ri_conns s \<and> (\<exists>evs'. service_ok winv log strm (evs @ evs') s')) s"
  using handle_ends [OF srv s tr] service_more [OF s] decode_request_OkD [of buf] decode_request_total [of buf]
  by (auto simp: answer_datagram_def ends_rules split: res.splits)

end
