(* ===== verification/Agent_Sockets.thy ===== *)
theory Agent_Sockets
  imports Agent_Requests
begin

text \<open>
  The connection loops of the region service. A pass over the sockets ends once the peers have nothing
  more pending; \<open>backlog\<close> bounds what they have. Nothing else is assumed of the peers: any datagram,
  any error and any refused send is handled, and the ledger and the connection limit hold after every pass.
\<close>

section \<open>What the service relies on\<close>

definition steady :: "('w \<Rightarrow> bool) \<Rightarrow> ('w \<Rightarrow> bytes list) \<Rightarrow> ('w \<Rightarrow> nat) \<Rightarrow> 'w \<Rightarrow> 'w \<Rightarrow> bool" where
  "steady winv log backlog w w' \<longleftrightarrow> winv w' \<and> log w' = log w \<and> backlog w' \<le> backlog w"

text \<open>
  Socket calls leave the channel's peer alone; a connection or a non-empty datagram handed out is no longer pending.
  A closed peer is read as the empty datagram, again and again.
\<close>

definition sock_ok :: "('w \<Rightarrow> bool) \<Rightarrow> ('w \<Rightarrow> bytes list) \<Rightarrow> ('w \<Rightarrow> nat) \<Rightarrow> 'w sock_env \<Rightarrow> bool" where
  "sock_ok winv log backlog sock \<longleftrightarrow> (\<forall>w. winv w \<longrightarrow>
     (\<forall>r w'. so_accept sock w = (r, w') \<longrightarrow> steady winv log backlog w w' \<and> (\<forall>fd. r = Got fd \<longrightarrow> backlog w' < backlog w))
   \<and> (\<forall>fd n r w'. so_recv sock fd n w = (r, w') \<longrightarrow> steady winv log backlog w w' \<and> (\<forall>b. r = Got b \<and> b \<noteq> [] \<longrightarrow> backlog w' < backlog w))
   \<and> (\<forall>fd. steady winv log backlog w (so_epoll_add sock fd w)) \<and> (\<forall>fd b. steady winv log backlog w (snd (so_send sock fd b w)))
   \<and> (\<forall>fd. steady winv log backlog w (so_close sock fd w)))"

definition within :: "('w \<Rightarrow> bool) \<Rightarrow> ('w \<Rightarrow> nat) \<Rightarrow> nat \<Rightarrow> 'w \<Rightarrow> bool" where
  "within winv backlog n w \<longleftrightarrow> winv w \<and> backlog w \<le> n"

lemma service_within_mono:
  "service_ok (within winv backlog n) log strm evs s \<Longrightarrow> n \<le> n' \<Longrightarrow> service_ok (within winv backlog n') log strm evs s"
  by (auto simp: service_ok_def within_def emitting_def intro: sent_cong)

lemma service_world: "service_ok winv log strm evs s \<Longrightarrow> winv (ac_world (ri_channel s))"
  by (auto simp: service_ok_def sent_def emitting_def)

lemma service_in_world:
  assumes s: "service_ok (within winv backlog n) log strm evs s" and f: "f (ac_world (ri_channel s)) = (a, w')"
    and w': "steady winv log backlog (ac_world (ri_channel s)) w'" and n': "backlog w' \<le> n'"
  obtains s' where "in_world f s = (a, s')" and "service_ok (within winv backlog n') log strm evs s'"
    and "ri_conns s' = ri_conns s" and "ri_records s' = ri_records s" and "ac_world (ri_channel s') = w'"
proof
  let ?s = "s\<lparr>ri_channel := (ri_channel s)\<lparr>ac_world := w'\<rparr>\<rparr>"
  show "in_world f s = (a, ?s)" using f by (simp add: in_world_def)
  show "service_ok (within winv backlog n') log strm evs ?s"
    using s w' n' sent_world [of "within winv backlog n" log strm evs "ri_channel s" "within winv backlog n'" w']
    by (simp add: service_ok_def within_def steady_def agent_manifest_def)
qed simp_all

section \<open>One connection\<close>

lemma serve_conn_ends:
  fixes s :: "'w region_ipc"
  assumes srv: "\<And>n. agent_served env (within winv backlog n) patience log" and sock: "sock_ok winv log backlog sock"
    and tr: "never_panics translate"
  shows "service_ok (within winv backlog n) log strm evs s \<Longrightarrow>
     ends (serve_conn env translate sock wpid conn) (\<lambda>_ s'. ri_conns s' = ri_conns s
        \<and> (\<exists>evs'. service_ok (within winv backlog n) log strm (evs @ evs') s')) s"
proof (induction n arbitrary: s evs rule: less_induct)
  case (less n)
  let ?w = "ac_world (ri_channel s)" and ?recv = "so_recv sock (fst conn) (REGIONIPC_MAX_DATAGRAM + 1)"
  have w: "winv ?w" "backlog ?w \<le> n" using service_world [OF less.prems] by (simp_all add: within_def)
  obtain r w1 where r: "?recv ?w = (r, w1)" by (cases "?recv ?w")
  have st: "steady winv log backlog ?w w1" and got: "\<And>b. r = Got b \<Longrightarrow> b \<noteq> [] \<Longrightarrow> backlog w1 < backlog ?w"
    using sock w(1) r unfolding sock_ok_def by blast+
  have b1: "backlog w1 \<le> n" using st w(2) by (simp add: steady_def)
  obtain s1 where s1: "in_world ?recv s = (r, s1)" "service_ok (within winv backlog n) log strm evs s1" "ri_conns s1 = ri_conns s"
      "ac_world (ri_channel s1) = w1"
    by (rule service_in_world [where f = ?recv and backlog = backlog, OF less.prems r st b1])
  have unfold: "serve_conn env translate sock wpid conn s =
     (case (r, s1) of (r, s) \<Rightarrow>
        (case r of
           WouldBlock \<Rightarrow> Some (Ok False, s)
         | Failed \<Rightarrow> Some (Ok True, s)
         | Got buf \<Rightarrow>
             if buf = [] then Some (Ok True, s)
             else Option.bind (answer_datagram env translate buf (snd conn) wpid s) (\<lambda>(a, s).
                  case a of
                    Err e \<Rightarrow> Some (Err e, s)
                  | Panic \<Rightarrow> Some (Panic, s)
                  | Ok reply \<Rightarrow>
                      (case encode_reply reply (replicate REGIONIPC_MAX_DATAGRAM 0) of
                         Ok (out, len) \<Rightarrow>
                           (case in_world (so_send sock (fst conn) (take len out)) s of (n, s) \<Rightarrow>
                              if n \<noteq> int len then Some (Ok True, s)
                              else serve_conn env translate sock wpid conn s)
                       | _ \<Rightarrow> Some (Panic, s)))))"
    unfolding serve_conn.simps [of env translate sock wpid conn s] s1(1) by (rule refl)
  show ?case
  proof (cases "\<exists>buf. r = Got buf \<and> buf \<noteq> []")
    case False
    then show ?thesis using s1(3) service_more [OF s1(2)] by (cases r) (auto simp: ends_def unfold)
  next
    case True
    then obtain buf where buf: "r = Got buf" "buf \<noteq> []" by blast
    define k where "k = n - 1"
    have k: "k < n" "backlog w1 \<le> k" using got [OF buf] w(2) by (simp_all add: k_def)
    obtain s1' where "in_world ?recv s = (r, s1')" "service_ok (within winv backlog k) log strm evs s1'"
      by (rule service_in_world [where f = ?recv and backlog = backlog, OF less.prems r st k(2)])
    then have s1k: "service_ok (within winv backlog k) log strm evs s1" using s1(1) by simp
    obtain reply s2 evs2 where s2: "answer_datagram env translate buf (snd conn) wpid s1 = Some (Ok reply :: (sys_error, reply) res, s2)"
        "ri_conns s2 = ri_conns s1" "service_ok (within winv backlog k) log strm (evs @ evs2) s2"
      using answer_datagram_ends [OF srv s1k tr] unfolding ends_def by blast
    obtain out len where enc: "encode_reply reply (replicate REGIONIPC_MAX_DATAGRAM 0) = Ok (out, len)"
      using encode_reply_eq [of reply "replicate REGIONIPC_MAX_DATAGRAM 0"] by auto
    let ?send = "so_send sock (fst conn) (take len out)"
    obtain m w3 where m: "?send (ac_world (ri_channel s2)) = (m, w3)" by (cases "?send (ac_world (ri_channel s2))")
    have w2: "winv (ac_world (ri_channel s2))" "backlog (ac_world (ri_channel s2)) \<le> k"
      using service_world [OF s2(3)] by (simp_all add: within_def)
    have st3: "steady winv log backlog (ac_world (ri_channel s2)) w3" using sock w2(1) m unfolding sock_ok_def by (metis snd_conv)
    then have b3: "backlog w3 \<le> k" using w2(2) by (simp add: steady_def)
    obtain s3 where s3: "in_world ?send s2 = (m, s3)" "service_ok (within winv backlog k) log strm (evs @ evs2) s3" "ri_conns s3 = ri_conns s2"
      by (rule service_in_world [where f = ?send and backlog = backlog, OF s2(3) m st3 b3])
    show ?thesis
    proof (cases "m = int len")
      case False
      then show ?thesis using s2 s3 s1 enc buf service_within_mono [OF s3(2), of n] k(1)
        by (auto simp: ends_def unfold)
    next
      case True
      from less.IH [OF k(1) s3(2)] obtain d s4 evs4 where s4: "serve_conn env translate sock wpid conn s3 = Some (Ok d, s4)"
          "ri_conns s4 = ri_conns s3" "service_ok (within winv backlog k) log strm ((evs @ evs2) @ evs4) s4"
        unfolding ends_def by blast
      then have "service_ok (within winv backlog n) log strm (evs @ (evs2 @ evs4)) s4" using service_within_mono k(1) by fastforce
      then show ?thesis using s2 s3 s1 enc buf s4(1,2) True unfolding ends_def unfold by auto
    qed
  qed
qed

section \<open>A pass\<close>

text \<open>The number of connections a pass leaves is bounded; a pass fails only when accepting does.\<close>

lemma accept_pending_ends:
  assumes sock: "sock_ok winv log backlog sock"
  shows "service_ok (within winv backlog n) log strm evs s \<Longrightarrow> length (ri_conns s) \<le> MAX_CONNS \<Longrightarrow>
     \<exists>r s'. accept_pending sock epoll s = Some (r, s') \<and> r \<in> {Ok (), Err SysOs} \<and> ri_records s' = ri_records s
       \<and> service_ok (within winv backlog n) log strm evs s' \<and> length (ri_conns s') \<le> MAX_CONNS"
proof (induction n arbitrary: s rule: less_induct)
  case (less n)
  let ?w = "ac_world (ri_channel s)"
  have w: "winv ?w" "backlog ?w \<le> n" using service_world [OF less.prems(1)] by (simp_all add: within_def)
  obtain r w1 where r: "so_accept sock ?w = (r, w1)" by (cases "so_accept sock ?w")
  have st: "steady winv log backlog ?w w1" and got: "\<And>fd. r = Got fd \<Longrightarrow> backlog w1 < backlog ?w"
    using sock w(1) r unfolding sock_ok_def by blast+
  have b1: "backlog w1 \<le> n" using st w(2) by (simp add: steady_def)
  obtain s1 where s1: "in_world (so_accept sock) s = (r, s1)" "service_ok (within winv backlog n) log strm evs s1"
      "ri_conns s1 = ri_conns s" "ri_records s1 = ri_records s"
    by (rule service_in_world [where f = "so_accept sock" and backlog = backlog, OF less.prems(1) r st b1])
  show ?case
  proof (cases "\<exists>fd. r = Got fd")
    case False
    then show ?thesis using s1 less.prems(2) by (cases r) (auto simp: accept_pending.simps [of sock epoll s])
  next
    case True
    then obtain fd where fd: "r = Got fd" by blast
    define k where "k = n - 1"
    have k: "k < n" "backlog w1 \<le> k" using got [OF fd] w(2) by (simp_all add: k_def)
    obtain s1' where "in_world (so_accept sock) s = (r, s1')" "service_ok (within winv backlog k) log strm evs s1'"
      by (rule service_in_world [where f = "so_accept sock" and backlog = backlog, OF less.prems(1) r st k(2)])
    then have s1k: "service_ok (within winv backlog k) log strm evs s1" using s1(1) by simp
    have quiet: "\<exists>s2. in_world (\<lambda>w. ((), g w)) s1 = ((), s2) \<and> service_ok (within winv backlog k) log strm evs s2
        \<and> ri_conns s2 = ri_conns s \<and> ri_records s2 = ri_records s" if "\<And>w. winv w \<Longrightarrow> steady winv log backlog w (g w)" for g
    proof -
      let ?w1 = "ac_world (ri_channel s1)"
      have v: "winv ?w1" "backlog ?w1 \<le> k" using service_world [OF s1k] by (simp_all add: within_def)
      have "backlog (g ?w1) \<le> k" using that [OF v(1)] v(2) by (simp add: steady_def)
      then show ?thesis
        using service_in_world [where f = "\<lambda>w. ((), g w)" and backlog = backlog, OF s1k refl that [OF v(1)]] s1(3,4) by metis
    qed
    obtain s2 where s2: "in_world (\<lambda>w. ((), so_close sock fd w)) s1 = ((), s2)" "service_ok (within winv backlog k) log strm evs s2"
        "ri_conns s2 = ri_conns s" "ri_records s2 = ri_records s"
      using quiet [of "so_close sock fd"] sock unfolding sock_ok_def by blast
    obtain s3 where s3: "in_world (\<lambda>w. ((), so_epoll_add sock fd w)) s1 = ((), s3)" "service_ok (within winv backlog k) log strm evs s3"
        "ri_conns s3 = ri_conns s" "ri_records s3 = ri_records s"
      using quiet [of "so_epoll_add sock fd"] sock unfolding sock_ok_def by blast
    have add: "service_ok (within winv backlog k) log strm evs (q\<lparr>ri_conns := cs\<rparr>)"
      if "service_ok (within winv backlog k) log strm evs q" for q cs
      using that by (simp add: service_ok_def)
    note mono = service_within_mono [of winv backlog k log strm evs _ n] and kn = less_imp_le [OF k(1)]
    show ?thesis
    proof (cases "MAX_CONNS \<le> length (ri_conns s)")
      case True
      then show ?thesis
        using less.IH [OF k(1) s2(2)] s2 s1 fd less.prems(2) mono kn
        by (fastforce simp: accept_pending.simps [of sock epoll s])
    next
      case room: False
      show ?thesis
      proof (cases "so_peer_pid sock fd (ac_world (ri_channel s1))")
        case None
        then show ?thesis using room s1 s2 fd less.prems(2) mono [OF s2(2)] kn
          by (simp add: accept_pending.simps [of sock epoll s])
      next
        case (Some pid)
        let ?q = "if epoll then s3 else s1"
        have q: "service_ok (within winv backlog k) log strm evs ?q" "ri_conns ?q = ri_conns s" "ri_records ?q = ri_records s"
          using s1 s1k s3 by simp_all
        have step: "accept_pending sock epoll s = accept_pending sock epoll (?q\<lparr>ri_conns := ri_conns ?q @ [(fd, pid)]\<rparr>)"
          using Some room s1 s3(1) fd by (subst accept_pending.simps) (simp add: Let_def)
        have "length (ri_conns (?q\<lparr>ri_conns := ri_conns ?q @ [(fd, pid)]\<rparr>)) \<le> MAX_CONNS" using room q(2) by simp
        from less.IH [OF k(1) add [OF q(1)] this]
        obtain r' s' where "accept_pending sock epoll s = Some (r', s')" "r' \<in> {Ok (), Err SysOs}" "ri_records s' = ri_records s"
            "service_ok (within winv backlog k) log strm evs s'" "length (ri_conns s') \<le> MAX_CONNS"
          unfolding step using q(3) by auto
        then show ?thesis using mono kn by blast
      qed
    qed
  qed
qed

lemma service_ends:
  fixes s :: "'w region_ipc"
  assumes srv: "\<And>n. agent_served env (within winv backlog n) patience log" and sock: "sock_ok winv log backlog sock"
    and tr: "never_panics translate"
    and s: "service_ok (within winv backlog n) log strm evs s" "length (ri_conns s) \<le> MAX_CONNS"
  shows "\<exists>r s' evs'. service env translate sock wpid epoll s = Some (r, s') \<and> r \<in> {Ok (), Err SysOs}
     \<and> service_ok (within winv backlog n) log strm (evs @ evs') s' \<and> length (ri_conns s') \<le> MAX_CONNS"
proof -
  let ?I = "\<lambda>s. \<exists>evs'. service_ok (within winv backlog n) log strm (evs @ evs') s"
  obtain r s1 where s1: "accept_pending sock epoll s = Some (r, s1)" "r \<in> {Ok (), Err SysOs}"
      "service_ok (within winv backlog n) log strm evs s1" "length (ri_conns s1) \<le> MAX_CONNS"
    using accept_pending_ends [OF sock s] by blast
  show ?thesis
  proof (cases "r = Ok ()")
    case False
    then show ?thesis using s1 service_more [OF s1(3)] by (auto simp: service_def act_bind_def)
  next
    case True
    have serve: "ends (serve_conn env translate sock wpid conn) (\<lambda>_ s'. ri_conns s' = ri_conns s1 \<and> ?I s') q"
      if "ri_conns q = ri_conns s1 \<and> ?I q" for conn q
    proof -
      from that obtain evs' where q: "ri_conns q = ri_conns s1" "service_ok (within winv backlog n) log strm (evs @ evs') q" by blast
      show ?thesis by (rule ends_mono [OF serve_conn_ends [OF srv sock tr q(2)]]) (use q(1) in auto)
    qed
    have close: "ends (modify (\<lambda>s. snd (in_world (\<lambda>w. ((), so_close sock fd w)) s)) :: ('w region_ipc, sys_error, unit) act)
        (\<lambda>_ s'. ri_conns s' = cs \<and> ?I s') q" if q: "ri_conns q = cs \<and> ?I q" for fd q cs
    proof -
      from q obtain evs' where q': "service_ok (within winv backlog n) log strm (evs @ evs') q" by blast
      let ?w = "ac_world (ri_channel q)"
      have w: "winv ?w" "backlog ?w \<le> n" using service_world [OF q'] by (simp_all add: within_def)
      have st: "steady winv log backlog ?w (so_close sock fd ?w)" using sock w(1) unfolding sock_ok_def by blast
      then have b: "backlog (so_close sock fd ?w) \<le> n" using w(2) by (simp add: steady_def)
      obtain q2 where "in_world (\<lambda>w. ((), so_close sock fd w)) q = ((), q2)"
          "service_ok (within winv backlog n) log strm (evs @ evs') q2" "ri_conns q2 = ri_conns q"
        by (rule service_in_world [where f = "\<lambda>w. ((), so_close sock fd w)" and backlog = backlog, OF q' refl st b])
      then show ?thesis using q by (auto simp: ends_rules)
    qed
    have "ends (act_bind (gets ri_conns) (\<lambda>conns.
        act_bind (map_each (serve_conn env translate sock wpid) conns) (\<lambda>closed.
        act_bind (modify (\<lambda>s. s\<lparr>ri_conns := map fst (filter (\<lambda>(c, dropped). \<not> dropped) (zip conns closed))\<rparr>)) (\<lambda>_.
        for_each (rev (map fst (filter snd (zip conns closed)))) (\<lambda>(fd, _).
          modify (\<lambda>s. snd (in_world (\<lambda>w. ((), so_close sock fd w)) s)))))))
        (\<lambda>_ s'. length (ri_conns s') \<le> MAX_CONNS \<and> ?I s') s1"
      unfolding ends_bind [of "gets ri_conns"] ends_gets
    proof (rule ends_then [OF ends_map_each [where I = "\<lambda>q. ri_conns q = ri_conns s1 \<and> ?I q"]], rule serve, assumption)
      show "ri_conns s1 = ri_conns s1 \<and> ?I s1" using service_more [OF s1(3)] by simp
      fix closed :: "bool list" and q assume q: "(ri_conns q = ri_conns s1 \<and> ?I q) \<and> length closed = length (ri_conns s1)"
      let ?cs = "map fst (filter (\<lambda>(c, dropped). \<not> dropped) (zip (ri_conns s1) closed))"
      have len: "length ?cs \<le> MAX_CONNS" using s1(4) q length_filter_le [of "\<lambda>(c, dropped). \<not> dropped" "zip (ri_conns s1) closed"] by simp
      show "ends (act_bind (modify (\<lambda>s. s\<lparr>ri_conns := ?cs\<rparr>)) (\<lambda>_.
          for_each (rev (map fst (filter snd (zip (ri_conns s1) closed)))) (\<lambda>(fd, _).
          modify (\<lambda>s. snd (in_world (\<lambda>w. ((), so_close sock fd w)) s))) :: ('w region_ipc, sys_error, unit) act))
          (\<lambda>_ s'. length (ri_conns s') \<le> MAX_CONNS \<and> ?I s') q"
        unfolding ends_bind ends_modify
      proof (rule ends_mono [OF ends_for_each [where I = "\<lambda>q. ri_conns q = ?cs \<and> ?I q"]])
        show "ends ((case i of (fd, _) \<Rightarrow> modify (\<lambda>s. snd (in_world (\<lambda>w. ((), so_close sock fd w)) s))) :: ('w region_ipc, sys_error, unit) act)
            (\<lambda>_ q. ri_conns q = ?cs \<and> ?I q) p" if "ri_conns p = ?cs \<and> ?I p" for i p
          by (cases i) (use close [OF that] in simp)
        show "ri_conns (q\<lparr>ri_conns := ?cs\<rparr>) = ?cs \<and> ?I (q\<lparr>ri_conns := ?cs\<rparr>)" using q by (simp add: service_ok_def)
      qed (use len in auto)
    qed
    then show ?thesis using s1 True unfolding ends_def service_def by (auto simp: act_bind_def)
  qed
qed

end
