(* ===== verification/Agent_Readable.thy ===== *)
theory Agent_Readable
  imports Agent_Requests Host_Manifest
begin

text \<open>
  The two ends of a region: what the agent registered is what the host reads. The host finds the live
  record of the ledger under its name and reads, byte by byte, the guest memory behind the workload's
  virtual addresses.
\<close>

section \<open>The host's parse of the agent's manifest\<close>

lemma ledger_parse:
  assumes "ledger_ok m rs" and "n = unat (mh_extent_count (area_hdr m))"
  shows "parse_manifest m = Ok \<lparr>rgm_header = area_hdr m, rgm_entries = map (area_slot m) [0..<REGION_CAPACITY],
     rgm_extents = map (area_pool m) [0..<n]\<rparr>"
proof (rule parse_manifest_Ok)
  have ok: "area_ok m" "pool_ok m" using assms(1) by (simp_all add: ledger_ok_def)
  then have len: "area_len m" by (simp add: area_ok_def)
  show "ManifestHeader_read_from m = Ok (area_hdr m)" by (rule area_read(1) [OF len])
  show "ManifestHeader_validate (area_hdr m) = Ok ()" using ok(1) by (simp add: area_ok_def)
  show "RegionEntry_read_from m i = Ok (area_slot m i)" if "i < REGION_CAPACITY" for i
    using area_read(2) [OF len] that by simp
  show "Extent_read_from m i = Ok (area_pool m i)" if "i < n" for i
    using area_read(3) [OF len] that area_counts [OF ok(1)] assms(2) by simp
  show "unat (ent_extent_off (area_slot m i)) + unat (ent_extent_n (area_slot m i)) \<le> n" if "i < REGION_CAPACITY" for i
    using ok(2) that assms(2) by (simp add: pool_ok_def slot_lo_def slot_n_def)
qed (rule assms(2))

lemma packed_name: "length name \<le> 56 \<Longrightarrow> 0 \<notin> set name \<Longrightarrow> takeWhile (\<lambda>b. b \<noteq> 0) (patch (replicate 56 0) 0 name) = name"
proof -
  assume a: "length name \<le> 56" "0 \<notin> set name"
  then have "patch (replicate 56 0) 0 name = name @ replicate (56 - length name) 0" by (simp add: patch_def)
  moreover have "takeWhile (\<lambda>b. b \<noteq> 0) (name @ replicate n 0) = name" for n
    using a(2) by (cases n) (auto simp: takeWhile_append)
  ultimately show ?thesis by simp
qed

lemma find_first: "i < n \<Longrightarrow> P (f i) \<Longrightarrow> (\<And>j. j < i \<Longrightarrow> \<not> P (f j)) \<Longrightarrow> find P (map f [0..<n]) = Some (f i)"
  by (auto simp: find_Some_iff intro!: exI [of _ i])

text \<open>No other live slot of the manifest carries the name.\<close>

definition name_unique :: "bytes \<Rightarrow> region_record \<Rightarrow> bool" where
  "name_unique m r \<longleftrightarrow> (\<forall>j < 64. is_live (area_slot m j) \<and> name_bytes (area_slot m j) = rec_name r \<longrightarrow> j = record_slot r)"

lemma ledger_resolve:
  assumes l: "ledger_ok m rs" and r: "r \<in> set rs" "\<not> rec_dead r" and name: "0 \<notin> set (rec_name r)" "name_unique m r"
    and p: "parse_manifest m = Ok mf"
  shows "\<exists>fl. resolve mf (rec_name r) = Some \<lparr>rr_region_id = rec_region_id r, rr_layout_version = rec_layout_version r,
     rr_len = rec_len r, rr_flags = fl, rr_extents = rec_extents r\<rparr>"
proof -
  let ?n = "unat (mh_extent_count (area_hdr m))" and ?i = "record_slot r"
  let ?e = "area_slot m ?i" and ?P = "\<lambda>e. is_live e \<and> name_bytes e = rec_name r"
  have mf: "mf = \<lparr>rgm_header = area_hdr m, rgm_entries = map (area_slot m) [0..<64], rgm_extents = map (area_pool m) [0..<?n]\<rparr>"
    using ledger_parse [OF l refl] p by (simp del: upt_rec_numeral)
  have i: "?i < 64" and ag: "agrees m r" using ledger_slot [OF l r(1)] by simp_all
  have len: "length (rec_name r) \<le> 56" using ag by (simp add: agrees_def)
  have e: "ent_region_id ?e = rec_region_id r" "ent_layout_version ?e = rec_layout_version r" "ent_len ?e = rec_len r"
      "?P ?e" "slot_n ?e = length (rec_extents r)" "\<And>k. k < length (rec_extents r) \<Longrightarrow> area_pool m (slot_lo ?e + k) = rec_extents r ! k"
    using ag r(2) packed_name [OF len name(1)] by (auto simp: agrees_def name_bytes_def)
  have "find ?P (map (area_slot m) [0..<64]) = Some ?e"
  proof (rule find_first [where f = "area_slot m" and i = ?i])
    show "\<not> ?P (area_slot m j)" if "j < ?i" for j
      using name(2) that i order.strict_trans [OF that i] unfolding name_unique_def by blast
  qed (use i e(4) in blast)+
  moreover have b: "slot_lo ?e + slot_n ?e \<le> ?n" using l i by (simp add: ledger_ok_def pool_ok_def)
  moreover have "take (slot_n ?e) (drop (slot_lo ?e) (map (area_pool m) [0..<?n])) = rec_extents r"
    using b e(5,6) by (intro nth_equalityI) auto
  ultimately show ?thesis using e(1-3) by (simp add: mf resolve_def slot_lo_def slot_n_def del: upt_rec_numeral)
qed

section \<open>Bytes behind extents\<close>

lemma extents_bytes:
  assumes mem: "guest_memory ops minv" and inv: "minv gm"
  shows "extents_mapped ops gm xs bs \<Longrightarrow> length (concat bs) = length (addrs_of xs)
     \<and> (\<forall>k < length (concat bs). gm_read ops gm (addrs_of xs ! k) 1 = Ok [concat bs ! k])"
proof (induction xs arbitrary: bs)
  case Nil
  then show ?case by (simp add: extents_mapped_def addrs_of_def)
next
  case (Cons x xs)
  obtain b bs' where bs: "bs = b # bs'" and rd: "gm_read ops gm (ext_gpa x) (unat (ext_len x)) = Ok b" and m: "extents_mapped ops gm xs bs'"
    using Cons.prems by (cases bs) (auto simp: extents_mapped_def)
  have lb: "length b = unat (ext_len x)" by (rule guest_memory.read_length [OF mem inv rd])
  have "gm_read ops gm (ext_gpa x + of_nat k) 1 = Ok [b ! k]" if "k < length b" for k
    using guest_memory.read_part [OF mem inv rd, of k 1] that lb by (simp add: Cons_nth_drop_Suc [symmetric])
  then show ?case using Cons.IH [OF m] lb by (auto simp: bs addrs_of_def extent_addrs_def nth_append)
qed

section \<open>Reading a registered region\<close>

text \<open>
  C4. A registered region is readable at the other end: for a live record of the ledger whose name no
  other live slot shares, a read of the host inside the region's length succeeds, and every byte it
  returns is the byte of guest memory behind the corresponding virtual address of the workload.
\<close>

theorem registered_region_readable:
  assumes mem: "guest_memory ops minv" and att: "attached ops minv ch page"
    and m: "m = take MANIFEST_TOTAL_SIZE (drop OFF_MANIFEST page)" and l: "ledger_ok m rs"
    and r: "r \<in> set rs" "\<not> rec_dead r" and name: "0 \<notin> set (rec_name r)" "name_unique m r"
    and ext: "build_extents (gva_to_gpa pm) (rec_gva r) (rec_len r) = Ok (rec_extents r)"
    and map: "extents_mapped ops (c_gm ch) (rec_extents r) bs"
    and buf: "unat offset + length buf \<le> unat (rec_len r)"
  shows "\<exists>out. Channel_read_region ops ch (rec_name r) offset buf = Ok out \<and> length out = length buf
     \<and> (\<forall>k < length buf. \<exists>gpa. gva_to_gpa pm (rec_gva r + offset + of_nat k) = Ok gpa \<and> gm_read ops (c_gm ch) gpa 1 = Ok [out ! k])"
proof -
  have inv: "minv (c_gm ch)" using att by (simp add: attached_def)
  have g: "le_at 8 m OFF_GENERATION = mh_generation (area_hdr m)" by (simp add: area_hdr_def)
  have "even (unat (mh_generation (area_hdr m)))" using l by (simp add: ledger_ok_def area_ok_def)
  then have "mh_generation (area_hdr m) mod 2 = 0" by (simp add: word_unat_eq_iff unat_mod)
  then obtain mf where mf: "Channel_read_manifest ops ch = Ok mf" "parse_manifest m = Ok mf"
    using manifest_of_page [OF mem att m refl] ledger_parse [OF l refl] g by (simp del: upt_rec_numeral)
  obtain fl where res: "resolve mf (rec_name r) = Some \<lparr>rr_region_id = rec_region_id r, rr_layout_version = rec_layout_version r,
     rr_len = rec_len r, rr_flags = fl, rr_extents = rec_extents r\<rparr>"
    using ledger_resolve [OF l r name mf(2)] by blast
  have addrs: "map Ok (addrs_of (rec_extents r)) = map (\<lambda>k. gva_to_gpa pm (rec_gva r + of_nat k)) [0..<unat (rec_len r)]"
    using build_loop_addrs [OF gva_to_gpa_linear, of pm "rec_len r" "rec_gva r" "[]" "rec_extents r"] ext by (simp add: build_extents_def)
  note bytes = extents_bytes [OF mem inv map]
  have len: "length (addrs_of (rec_extents r)) = unat (rec_len r)" using arg_cong [OF addrs, of length] by simp
  have lt: "unat (rec_len r) < 2 ^ 64" using unsigned_less [of "rec_len r", where ?'a = nat] by simp
  let ?out = "take (length buf) (drop (unat offset) (concat bs))"
  have "Channel_read_region ops ch (rec_name r) offset buf = Ok ?out"
    using region_slice [OF mem inv mf(1) res _ _] map bytes len lt buf by simp
  moreover have "gva_to_gpa pm (rec_gva r + offset + of_nat k) = Ok (addrs_of (rec_extents r) ! (unat offset + k))
      \<and> gm_read ops (c_gm ch) (addrs_of (rec_extents r) ! (unat offset + k)) 1 = Ok [?out ! k]" if k: "k < length buf" for k
  proof -
    have i: "unat offset + k < unat (rec_len r)" using k buf by simp
    have "Ok (addrs_of (rec_extents r) ! (unat offset + k)) = gva_to_gpa pm (rec_gva r + of_nat (unat offset + k))"
      using arg_cong [OF addrs, of "\<lambda>xs. xs ! (unat offset + k)"] i len by simp
    moreover have "rec_gva r + of_nat (unat offset + k) = rec_gva r + offset + of_nat k" by (simp add: add.assoc)
    ultimately show ?thesis using bytes len i k buf by (simp add: add.assoc)
  qed
  ultimately show ?thesis using bytes len buf by (intro exI [of _ ?out]) auto
qed

end
