(* ===== verification/Agent_Fixture.thy ===== *)
theory Agent_Fixture
  imports Agent_Sockets Agent_Readable
begin

text \<open>
  A fresh agent and a small world for it: a host that pops ring A at every doorbell, one connected peer
  with its pending datagrams, and an identity translation.
\<close>

section \<open>A fresh channel\<close>

definition fresh_area :: bytes where
  "fresh_area = patch (replicate MANIFEST_TOTAL_SIZE 0) 0 (manifest_header_bytes \<lparr>mh_magic = MANIFEST_MAGIC,
     mh_manifest_version = MANIFEST_VERSION, mh_region_capacity = of_nat REGION_CAPACITY, mh_generation = 0,
     mh_region_count = 0, mh_extent_count = 0\<rparr>)"

definition fresh_agent :: "u64 \<Rightarrow> 'w \<Rightarrow> 'w agent_channel" where
  "fresh_agent v w = \<lparr>ac_page = patch zero_page OFF_MANIFEST fresh_area, ac_prod_a = \<lparr>pr_size = 0x10000, pr_next_seq = 0\<rparr>,
     ac_cons_c = \<lparr>co_size = 0x4000\<rparr>, ac_scratch = replicate MAX_RECORD_LEN 0, ac_vnanos = v, ac_world = w\<rparr>"

lemma length_fresh_area: "length fresh_area = 22560"
  by (simp add: fresh_area_def manifest_header_bytes_def)

lemma init_zeroed: "agent_init_at v w (replicate CHANNEL_SIZE 0) = Ok (fresh_agent v w)"
proof -
  have "ChannelHeader_write_to canonical (replicate 48 0) = Ok (channel_header_bytes canonical)"
    using write_header_eq [of canonical "replicate 48 0"] canonical_descs length_canonical_bytes by (simp add: patch_def)
  moreover have "patch (replicate CHANNEL_SIZE 0) 0 (channel_header_bytes canonical) = zero_page"
    by (simp add: patch_def zero_page_def length_canonical_bytes)
  moreover have "init_manifest (replicate MANIFEST_TOTAL_SIZE 0) = Ok fresh_area"
    by (simp add: init_manifest_def manifest_write_eq fresh_area_def)
  ultimately show ?thesis
    by (simp add: agent_init_at_def unwrap_res_def fresh_agent_def canonical_ring Producer_from_raw_def Consumer_from_raw_def pow2_sizes)
qed

lemma fresh_manifest: "agent_manifest (fresh_agent v w) = fresh_area"
  using length_zero_page length_fresh_area by (simp add: agent_manifest_def fresh_agent_def take_drop_patch_inside)

lemma fresh_rings: "page_ring canonical (ac_page (fresh_agent v w)) a = page_ring canonical zero_page a"
  using page_ring_manifest [OF canonical_descs canonical_valid length_zero_page, of "0x1000" fresh_area a] length_fresh_area
  by (simp add: fresh_agent_def)

lemma fresh_view:
  "area_hdr fresh_area = \<lparr>mh_magic = MANIFEST_MAGIC, mh_manifest_version = MANIFEST_VERSION, mh_region_capacity = of_nat REGION_CAPACITY,
     mh_generation = 0, mh_region_count = 0, mh_extent_count = 0\<rparr>"
  "j < 64 \<Longrightarrow> area_slot fresh_area j = blank_entry"
proof -
  let ?h = "\<lparr>mh_magic = MANIFEST_MAGIC, mh_manifest_version = MANIFEST_VERSION, mh_region_capacity = of_nat REGION_CAPACITY,
     mh_generation = 0, mh_region_count = 0, mh_extent_count = 0\<rparr> :: manifest_header"
  have "ManifestHeader_read_from fresh_area = Ok ?h"
    using manifest_read_written [of "replicate MANIFEST_TOTAL_SIZE 0" ?h] by (simp add: fresh_area_def)
  moreover have "ManifestHeader_read_from fresh_area = Ok (area_hdr fresh_area)"
    using length_fresh_area by (intro area_read(1)) (simp add: area_len_def)
  ultimately show "area_hdr fresh_area = ?h" by simp
  assume j: "j < 64"
  show "area_slot fresh_area j = blank_entry"
    using slot_below [OF j] unfolding area_slot_def blank_entry_def fresh_area_def
    by (subst take_drop_patch_after) (simp_all add: manifest_header_bytes_def)
qed

lemma fresh_ledger: "ledger_ok fresh_area []"
proof -
  have b: "slot_lo blank_entry = 0" "slot_n blank_entry = 0"
    by (simp_all add: blank_entry_def slot_lo_def slot_n_def entry_parse_def le_at_def from_le_zeros)
  have "area_ok fresh_area"
    by (simp add: area_ok_def area_len_def length_fresh_area fresh_view(1) ManifestHeader_validate_def)
  moreover have "pool_ok fresh_area" by (simp add: pool_ok_def fresh_view b)
  ultimately show ?thesis by (simp add: ledger_ok_def fresh_view(2))
qed

lemma fresh_emitting:
  assumes "winv w" and "log w = []"
  shows "emitting winv log [] (fresh_agent v w)"
proof -
  have "ring_size_ok 0x10000" by (simp add: ring_size_ok_def pow2_sizes)
  then have "page_queue canonical RingA (ac_prod_a (fresh_agent v w)) (ac_page (fresh_agent v w)) []"
    using fresh_rings [of v w RingA] zero_page_ring [of RingA] canonical_descs canonical_valid length_zero_page length_fresh_area
    by (simp add: page_queue_def fresh_agent_def ring_rep_def canonical_ring)
  then show ?thesis using assms by (auto simp: emitting_def on_ring_a_def fresh_agent_def)
qed

lemma fresh_dropped: "dropped (fresh_agent v w) = (0, 0)"
proof -
  have "take 0x100 (ac_page (fresh_agent v w)) = take 0x100 zero_page"
    using length_zero_page length_fresh_area by (simp add: fresh_agent_def take_patch_before)
  then have "dropped (fresh_agent v w) = dropped ((fresh_agent v w)\<lparr>ac_page := zero_page\<rparr>)"
    by (intro dropped_low) simp
  also have "\<dots> = (0, 0)" using length_canonical_bytes by (simp add: dropped_def zero_page_def le_at_def from_le_zeros)
  finally show ?thesis .
qed

section \<open>A world\<close>

record demo_world =
  dw_log :: "bytes list"
  dw_mail :: "bytes list"

definition demo_env :: "demo_world agent_env" where
  "demo_env = \<lparr>ae_out = (\<lambda>port v (w, page).
       case pop_all 0x10000 \<lparr>co_size = 0x10000\<rparr> (page_ring canonical page RingA) of
         (rs, rm) \<Rightarrow> (w\<lparr>dw_log := dw_log w @ payload_records rs\<rparr>, patch page (cons_offset RingA) (to_le_bytes 4 (rm_cons rm)))),
     ae_in = (\<lambda>port (w, page). (0, w, page))\<rparr>"

text \<open>The peer of every connection: an empty datagram at the head of the mail is a closed peer, and stays.\<close>

definition demo_sock :: "demo_world sock_env" where
  "demo_sock = \<lparr>so_accept = (\<lambda>w. (WouldBlock, w)), so_peer_pid = (\<lambda>_ _. None), so_epoll_add = (\<lambda>_ w. w),
     so_recv = (\<lambda>_ _ w. case dw_mail w of [] \<Rightarrow> (WouldBlock, w)
       | b # bs \<Rightarrow> (Got b, if b = [] then w else w\<lparr>dw_mail := bs\<rparr>)),
     so_send = (\<lambda>_ b w. (int (length b), w)), so_close = (\<lambda>_ w. w)\<rparr>"

lemma demo_served_any:
  assumes keep: "\<And>w l. winv w \<Longrightarrow> winv (w\<lparr>dw_log := l\<rparr>)"
  shows "agent_served demo_env winv (\<lambda>_. 0) dw_log"
  unfolding agent_served_def
proof (intro allI impI, elim conjE)
  fix w :: demo_world and page p recs assume w: "winv w" and q: "page_queue canonical RingA p page recs"
  note h = canonical_descs canonical_valid
  have len: "length page = CHANNEL_SIZE" and sz: "pr_size p = 0x10000" using q by (simp_all add: page_queue_def canonical_ring)
  have rep: "ring_rep 0x10000 (page_ring canonical page RingA) recs" using q sz unfolding page_queue_def by metis
  obtain v where v: "pop_all 0x10000 \<lparr>co_size = 0x10000\<rparr> (page_ring canonical page RingA) = (recs, (page_ring canonical page RingA)\<lparr>rm_cons := v\<rparr>)"
      "ring_rep 0x10000 ((page_ring canonical page RingA)\<lparr>rm_cons := v\<rparr>) []"
    using pop_all_rep [of "\<lparr>co_size = 0x10000\<rparr>"] rep length_records [OF rep] by fastforce
  let ?page = "patch page (cons_offset RingA) (to_le_bytes 4 v)" and ?w = "w\<lparr>dw_log := dw_log w @ payload_records recs\<rparr>"
  have c: "0x100 \<le> cons_offset RingA" "cons_offset RingA + 4 \<le> 0x1000" using cell_offsets(2,4) [of RingA] by simp_all
  have "page_queue canonical RingA p ?page []"
    using v(2) sz h len cell_offsets(2) [of RingA] by (simp add: page_queue_def canonical_ring page_ring_cells(2) [OF h len])
  moreover have "take 0x100 ?page = take 0x100 page" "take 0x7000 (drop 0x1000 ?page) = take 0x7000 (drop 0x1000 page)"
    using len c by (simp_all add: take_patch_before take_drop_patch_after)
  ultimately show "\<exists>w' page' got recs'. ae_out demo_env PORT_DOORBELL DOORBELL_RING_A (w, page) = (w', page')
      \<and> winv w' \<and> recs = got @ recs' \<and> page_queue canonical RingA p page' recs'
      \<and> dw_log w' = dw_log w @ payload_records got \<and> (recs' = [] \<or> (0 :: nat) < 0)
      \<and> take 0x100 page' = take 0x100 page \<and> take 0x7000 (drop 0x1000 page') = take 0x7000 (drop 0x1000 page)"
    using v(1) keep [OF w] by (intro exI [of _ ?w] exI [of _ ?page] exI [of _ recs] exI [of _ "[]"]) (simp add: demo_env_def)
qed

lemma demo_served: "agent_served demo_env (within (\<lambda>_. True) (\<lambda>w. length (dw_mail w)) n) (\<lambda>_. 0) dw_log"
  by (rule demo_served_any) (simp add: within_def)

lemma demo_sock_ok: "sock_ok (\<lambda>_. True) dw_log (\<lambda>w. length (dw_mail w)) demo_sock"
  by (auto simp: sock_ok_def steady_def demo_sock_def split: list.splits)

text \<open>A fresh service with one connected peer.\<close>

definition demo_service :: "bytes list \<Rightarrow> demo_world region_ipc" where
  "demo_service mail = \<lparr>ri_channel = fresh_agent 1 \<lparr>dw_log = [], dw_mail = mail\<rparr>, ri_conns = [(5, 42)], ri_records = []\<rparr>"

lemma demo_service_ok:
  "service_ok (within (\<lambda>_. True) (\<lambda>w. length (dw_mail w)) (length mail)) dw_log (Tape [] (0, 0)) [] (demo_service mail)"
  using fresh_emitting [of "within (\<lambda>_. True) (\<lambda>w. length (dw_mail w)) (length mail)" "\<lparr>dw_log = [], dw_mail = mail\<rparr>" dw_log 1] fresh_ledger
    sent_Nil [of "within (\<lambda>_. True) (\<lambda>w. length (dw_mail w)) (length mail)" dw_log "[]" "fresh_agent 1 \<lparr>dw_log = [], dw_mail = mail\<rparr>"]
  by (simp add: service_ok_def demo_service_def fresh_manifest fresh_dropped within_def)

definition demo_translate :: "demo_world \<Rightarrow> translator" where
  "demo_translate w = real_translator (\<lambda>pid. if pid = 42 then Some two_pages else None)"

lemma build_loop_not_Panic: "(\<And>v. tr v \<noteq> Panic) \<Longrightarrow> build_loop tr remaining vaddr es \<noteq> Panic"
proof (induction tr remaining vaddr es rule: build_loop.induct)
  case (1 tr remaining vaddr es)
  have "extend_extents g c es \<noteq> Panic" for g c by (auto simp: extend_extents_def Let_def split: if_splits option.splits)
  then show ?case
    using 1 by (auto simp: build_loop.simps [of tr remaining] bind_res_eq_Panic Let_def split: if_splits option.splits)
qed

lemma real_translator_total: "real_translator op pid gva len \<noteq> Panic"
proof -
  have "gva_to_gpa pm v \<noteq> Panic" for pm v
    by (auto simp: gva_to_gpa_def decode_entry_def Let_def bind_res_eq_Panic split: option.splits if_splits)
  then show ?thesis
    using build_loop_not_Panic by (auto simp: real_translator_def build_extents_def split: option.splits)
qed

lemma demo_translate_total: "never_panics demo_translate"
  by (simp add: never_panics_def demo_translate_def real_translator_total)

end
