(* ===== verification/Sdk_Quiesce.thy ===== *)
theory Sdk_Quiesce
  imports Sdk_State
begin

text \<open>
  The parked workload: \<open>park_until_resume\<close> of \<^verbatim>\<open>crates/detguest-sdk/src/lib.rs\<close> waits on ring I for the
  \<open>Resume\<close> record with its token. \<open>parked\<close> describes the wait round by round: the loop takes everything that is
  queued, spins, and starts over until it meets that record. Against a host that eventually queues the record
  the loop ends, having consumed the ring exactly up to it.
\<close>

section \<open>The control queue\<close>

definition ctrl_queue :: "mapped_channel \<Rightarrow> bytes \<Rightarrow> bytes list \<Rightarrow> bool" where
  "ctrl_queue self page recs \<longleftrightarrow> mapped self page
     \<and> ring_rep (co_size (mc_ring_i self)) (page_ring (mc_header self) page RingI) recs \<and> list_all ctrl_readable recs"

fun ctrls :: "bytes list \<Rightarrow> workload_ctrl list" where
  "ctrls [] = []"
| "ctrls (r # rs) = (case decode_workload_ctrl r of Ok (_, c) \<Rightarrow> c # ctrls rs | _ \<Rightarrow> ctrls rs)"

lemma next_ctrl_eq:
  "fst (next_ctrl recs) = (case ctrls recs of [] \<Rightarrow> None | c # _ \<Rightarrow> Some c)"
  "ctrls (snd (next_ctrl recs)) = tl (ctrls recs)"
  "list_all ctrl_readable recs \<Longrightarrow> list_all ctrl_readable (snd (next_ctrl recs))"
  by (induction recs) (auto split: res.splits)

lemma next_ctrl_None: "fst (next_ctrl recs) = None \<Longrightarrow> snd (next_ctrl recs) = []"
  by (induction recs) (auto split: res.splits prod.splits)

text \<open>Consuming from ring I changes its consumer index and nothing else on the page.\<close>

definition consumed :: "bytes \<Rightarrow> bytes \<Rightarrow> bool" where
  "consumed page page' \<longleftrightarrow> (\<exists>v :: u32. page' = patch page (cons_offset RingI) (to_le_bytes 4 v))"

lemma consumed_trans:
  assumes "length page = CHANNEL_SIZE" and "consumed page page1" and "consumed page1 page2"
  shows "consumed page page2"
proof -
  obtain u v where p: "page1 = patch page (cons_offset RingI) (to_le_bytes 4 (u :: u32))" "page2 = patch page1 (cons_offset RingI) (to_le_bytes 4 (v :: u32))"
    using assms(2,3) by (auto simp: consumed_def)
  have "page2 = patch page (cons_offset RingI) (to_le_bytes 4 v)"
    unfolding p using assms(1) cell_offsets(2) [of RingI] by (simp add: patch_patch_same)
  then show ?thesis by (auto simp: consumed_def)
qed

lemma poll_queue:
  assumes "ctrl_queue self (m_page m) recs"
  shows "\<exists>page'. poll_workload_ctrl self m = (Ok (fst (next_ctrl recs)), m\<lparr>m_page := page'\<rparr>)
     \<and> ctrl_queue self page' (snd (next_ctrl recs)) \<and> consumed (m_page m) page'"
  using poll_ctrl_rep [of self m recs] assms next_ctrl_eq(3) by (auto simp: ctrl_queue_def consumed_def)

lemma next_ctrl_Some:
  "fst (next_ctrl recs) = Some c \<Longrightarrow> \<exists>pre r h. recs = pre @ r # snd (next_ctrl recs) \<and> ctrls pre = [] \<and> decode_workload_ctrl r = Ok (h, c)"
proof (induction recs)
  case (Cons r rs)
  show ?case
  proof (cases "\<exists>h c'. decode_workload_ctrl r = Ok (h, c')")
    case True
    then show ?thesis using Cons.prems by (intro exI [of _ "[]"] exI [of _ r]) auto
  next
    case False
    then have n: "next_ctrl (r # rs) = next_ctrl rs" "\<And>pre. ctrls (r # pre) = ctrls pre" by (auto split: res.splits)
    then obtain pre r' h where "rs = pre @ r' # snd (next_ctrl rs)" "ctrls pre = []" "decode_workload_ctrl r' = Ok (h, c)"
      using Cons by metis
    then show ?thesis using n by (intro exI [of _ "r # pre"] exI [of _ r'] exI [of _ h]) simp
  qed
qed simp

text \<open>
  The wait. A round with the record in the queue ends right behind it; a round without it empties the ring, spins,
  and goes on with what the host has queued meanwhile.
\<close>

inductive parked :: "'w sdk_env \<Rightarrow> mapped_channel \<Rightarrow> u64 \<Rightarrow> 'w machine \<Rightarrow> bytes list \<Rightarrow> 'w machine \<Rightarrow> bytes list \<Rightarrow> bool"
  for env self token where
  resumed: "recs = skipped @ r # rest \<Longrightarrow> decode_workload_ctrl r = Ok (h, Ctrl_Resume token) \<Longrightarrow> Ctrl_Resume token \<notin> set (ctrls skipped) \<Longrightarrow>
     consumed (m_page m) page' \<Longrightarrow> ctrl_queue self page' rest \<Longrightarrow> parked env self token m recs (m\<lparr>m_page := page'\<rparr>) rest"
| waiting: "Ctrl_Resume token \<notin> set (ctrls recs) \<Longrightarrow> consumed (m_page m) page1 \<Longrightarrow> ctrl_queue self page1 [] \<Longrightarrow>
     spin_loop env (m\<lparr>m_page := page1\<rparr>) = m1 \<Longrightarrow> ctrl_queue self (m_page m1) recs1 \<Longrightarrow>
     parked env self token m1 recs1 m' rest \<Longrightarrow> parked env self token m recs m' rest"

inductive_cases parked_empty: "parked env self token m [] m' rest"

lemma ctrl_cases: "c = Ctrl_Resume token \<or> (\<exists>t. c = Ctrl_QuiesceReq t \<or> (c = Ctrl_Resume t \<and> t \<noteq> token))"
  by (cases c) auto

lemma ctrls_append: "ctrls (rs @ rs') = ctrls rs @ ctrls rs'"
  by (induction rs) (auto split: res.splits prod.splits)

text \<open>One sweep over the queue: the loop either finds the record or reaches a spin with the ring empty.\<close>

definition swept :: "'w sdk_env \<Rightarrow> u64 \<Rightarrow> sdk_state \<Rightarrow> 'w machine \<Rightarrow> bytes list \<Rightarrow> bool" where
  "swept env token s m recs \<longleftrightarrow>
     (if Ctrl_Resume token \<in> set (ctrls recs)
      then \<exists>page' skipped r rest h. park_loop env token s m = Some (Ok (), s, m\<lparr>m_page := page'\<rparr>)
         \<and> ctrl_queue (ss_channel s) page' rest \<and> consumed (m_page m) page'
         \<and> recs = skipped @ r # rest \<and> decode_workload_ctrl r = Ok (h, Ctrl_Resume token) \<and> Ctrl_Resume token \<notin> set (ctrls skipped)
      else \<exists>page'. park_loop env token s m = park_loop env token s (spin_loop env (m\<lparr>m_page := page'\<rparr>))
         \<and> ctrl_queue (ss_channel s) page' [] \<and> consumed (m_page m) page')"

lemma swept_step:
  assumes sw: "swept env token s (m\<lparr>m_page := page1\<rparr>) rest1" and eq: "park_loop env token s m = park_loop env token s (m\<lparr>m_page := page1\<rparr>)"
    and c: "length (m_page m) = CHANNEL_SIZE" "consumed (m_page m) page1" and recs: "recs = pre @ rest1" "Ctrl_Resume token \<notin> set (ctrls pre)"
  shows "swept env token s m recs"
proof (cases "Ctrl_Resume token \<in> set (ctrls rest1)")
  case True
  with sw obtain page' skipped r rest h where a: "park_loop env token s m = Some (Ok (), s, m\<lparr>m_page := page'\<rparr>)"
      "ctrl_queue (ss_channel s) page' rest" "consumed page1 page'" "rest1 = skipped @ r # rest"
      "decode_workload_ctrl r = Ok (h, Ctrl_Resume token)" "Ctrl_Resume token \<notin> set (ctrls skipped)"
    unfolding swept_def eq by auto
  have "recs = (pre @ skipped) @ r # rest" "Ctrl_Resume token \<notin> set (ctrls (pre @ skipped))"
    using recs a(4,6) by (simp_all add: ctrls_append)
  moreover have "Ctrl_Resume token \<in> set (ctrls recs)" using True recs(1) by (simp add: ctrls_append)
  ultimately show ?thesis using a(1,2,5) consumed_trans [OF c a(3)] unfolding swept_def by (simp only: if_True) blast
next
  case False
  then have "Ctrl_Resume token \<notin> set (ctrls recs)" using recs by (simp add: ctrls_append)
  then show ?thesis using False sw consumed_trans [OF c] unfolding swept_def eq by auto
qed

lemma park_sweep: "ctrl_queue (ss_channel s) (m_page m) recs \<Longrightarrow> swept env token s m recs"
proof (induction "ctrls recs" arbitrary: recs m)
  case Nil
  obtain page' where "poll_workload_ctrl (ss_channel s) m = (Ok None, m\<lparr>m_page := page'\<rparr>)"
      "ctrl_queue (ss_channel s) page' []" "consumed (m_page m) page'"
    using poll_queue [OF Nil.prems] next_ctrl_eq(1) [of recs] next_ctrl_None [of recs] Nil.hyps by auto
  then show ?case using Nil.hyps by (auto simp: swept_def park_loop.simps [of env token s m])
next
  case (Cons c cs)
  let ?rest = "snd (next_ctrl recs)"
  have c: "fst (next_ctrl recs) = Some c" using next_ctrl_eq(1) [of recs] Cons.hyps(2) by (auto split: list.splits)
  obtain page' where p: "poll_workload_ctrl (ss_channel s) m = (Ok (Some c), m\<lparr>m_page := page'\<rparr>)"
      "ctrl_queue (ss_channel s) page' ?rest" "consumed (m_page m) page'"
    using poll_queue [OF Cons.prems] c by auto
  obtain pre r h where r: "recs = pre @ r # ?rest" "ctrls pre = []" "decode_workload_ctrl r = Ok (h, c)"
    using next_ctrl_Some [OF c] by blast
  show ?case
  proof (cases "c = Ctrl_Resume token")
    case True
    then have "park_loop env token s m = Some (Ok (), s, m\<lparr>m_page := page'\<rparr>)"
      using p(1) by (simp add: park_loop.simps [of env token s m])
    moreover have "Ctrl_Resume token \<in> set (ctrls recs)" using True Cons.hyps(2) by (metis list.set_intros(1))
    moreover have "Ctrl_Resume token \<notin> set (ctrls pre)" using r(2) by simp
    ultimately show ?thesis using p(2,3) r(1,3) True unfolding swept_def by (simp only: if_True) blast
  next
    case False
    have "park_loop env token s m = park_loop env token s (m\<lparr>m_page := page'\<rparr>)"
      using False p(1) ctrl_cases [of c token] by (auto simp: park_loop.simps [of env token s m])
    moreover have "ctrls ?rest = cs" using next_ctrl_eq(2) [of recs] Cons.hyps(2) by (metis list.sel(3))
    then have "swept env token s (m\<lparr>m_page := page'\<rparr>) ?rest" using Cons.hyps(1) p(2) by simp
    moreover have "Ctrl_Resume token \<notin> set (ctrls (pre @ [r]))" using r(2,3) False by (simp add: ctrls_append)
    moreover have "recs = (pre @ [r]) @ ?rest" using r(1) by simp
    moreover have "length (m_page m) = CHANNEL_SIZE" using Cons.prems by (simp add: ctrl_queue_def mapped_def)
    ultimately show ?thesis using p(3) by (blast intro: swept_step)
  qed
qed

section \<open>Liveness\<close>

text \<open>A host that queues the record after finitely many spins of a workload that has emptied ring I.\<close>

definition host_resumes :: "'w sdk_env \<Rightarrow> mapped_channel \<Rightarrow> ('w \<Rightarrow> bool) \<Rightarrow> ('w \<Rightarrow> nat) \<Rightarrow> u64 \<Rightarrow> bool" where
  "host_resumes env self winv patience token \<longleftrightarrow>
     (\<forall>w page. winv w \<and> ctrl_queue self page [] \<longrightarrow>
        (\<exists>w' page' recs. e_spin env (w, page) = (w', page') \<and> winv w' \<and> ctrl_queue self page' recs
           \<and> (Ctrl_Resume token \<in> set (ctrls recs) \<or> patience w' < patience w)))"

text \<open>
  C28. A parked workload resumes, and only then: against a host that eventually queues the resume record with its
  token, the parking loop returns, without an error or panic, at the end of a wait in the sense of \<open>parked\<close>. While
  the record is not in the queue, on an empty ring too, the loop takes what is there, spins and polls again; control
  records of other kinds and with other tokens do not end the wait; it ends at the first such record, leaves on ring I
  exactly the records behind it and has changed the page only in ring I's consumer index.
\<close>

theorem park_loop_resumes:
  assumes "host_resumes env (ss_channel s) winv patience token"
    and "winv (m_world m)" and "ctrl_queue (ss_channel s) (m_page m) recs"
  shows "\<exists>m' rest. park_loop env token s m = Some (Ok (), s, m') \<and> ctrl_queue (ss_channel s) (m_page m') rest
     \<and> parked env (ss_channel s) token m recs m' rest"
  using assms(2,3)
proof (induction "if Ctrl_Resume token \<in> set (ctrls recs) then 0 else Suc (patience (m_world m))" arbitrary: m recs rule: less_induct)
  case less
  note sweep = park_sweep [OF less.prems(2), of env token, unfolded swept_def]
  show ?case
  proof (cases "Ctrl_Resume token \<in> set (ctrls recs)")
    case True
    with sweep obtain page' skipped r rest h where a: "park_loop env token s m = Some (Ok (), s, m\<lparr>m_page := page'\<rparr>)"
        "ctrl_queue (ss_channel s) page' rest" "consumed (m_page m) page'" "recs = skipped @ r # rest"
        "decode_workload_ctrl r = Ok (h, Ctrl_Resume token)" "Ctrl_Resume token \<notin> set (ctrls skipped)"
      by auto
    have "parked env (ss_channel s) token m recs (m\<lparr>m_page := page'\<rparr>) rest" by (rule parked.resumed) fact+
    then show ?thesis using a(1,2) by (intro exI [of _ "m\<lparr>m_page := page'\<rparr>"] exI [of _ rest]) simp
  next
    case False
    then obtain page' where p: "park_loop env token s m = park_loop env token s (spin_loop env (m\<lparr>m_page := page'\<rparr>))"
        "ctrl_queue (ss_channel s) page' []" "consumed (m_page m) page'" using sweep by auto
    obtain w2 page2 recs2 where h: "e_spin env (m_world m, page') = (w2, page2)" "winv w2" "ctrl_queue (ss_channel s) page2 recs2"
        "Ctrl_Resume token \<in> set (ctrls recs2) \<or> patience w2 < patience (m_world m)"
      using assms(1) less.prems(1) p(2) unfolding host_resumes_def by blast
    let ?m = "m\<lparr>m_world := w2, m_page := page2\<rparr>"
    have spin: "spin_loop env (m\<lparr>m_page := page'\<rparr>) = ?m" using h(1) by (simp add: spin_loop_def)
    have q: "winv (m_world ?m)" "ctrl_queue (ss_channel s) (m_page ?m) recs2" using h(2,3) by simp_all
    have lt: "(if Ctrl_Resume token \<in> set (ctrls recs2) then 0 else Suc (patience (m_world ?m)))
        < (if Ctrl_Resume token \<in> set (ctrls recs) then 0 else Suc (patience (m_world m)))" using False h(4) by auto
    from less.hyps [OF lt q] obtain m' rest where n: "park_loop env token s ?m = Some (Ok (), s, m')"
        "ctrl_queue (ss_channel s) (m_page m') rest" "parked env (ss_channel s) token ?m recs2 m' rest" by blast
    have "parked env (ss_channel s) token m recs m' rest" by (rule parked.waiting [OF False p(3,2) spin q(2) n(3)])
    then show ?thesis using n(1,2) p(1) spin by auto
  qed
qed

definition resume_env :: "u64 \<Rightarrow> unit sdk_env" where
  "resume_env token = \<lparr>e_out = (\<lambda>port v (w, page). (Ok (), w, page)), e_in = (\<lambda>port (w, page). (Ok 0, w, page)),
     e_spin = (\<lambda>(w, page).
       case page_push ChannelHeader_canonical RingI \<lparr>pr_size = 0x4000, pr_next_seq = 0\<rparr> page 24
              (\<lambda>buf seq. encode_workload_ctrl buf seq 0 (Ctrl_Resume token)) of (_, _, page) \<Rightarrow> (w, page)),
     e_mmio_read = (\<lambda>_ _. 0), e_mmio_write = (\<lambda>_ _ w. w),
     e_iopl = (\<lambda>_. True), e_map_pv_pad = (\<lambda>_. Ok ()), e_mmap = (\<lambda>_ _. Ok ()), e_mlock = (\<lambda>_ _ _. True),
     e_connect = (\<lambda>(w, page). (False, w, page)), e_send = (\<lambda>_ (w, page). (- 1, w, page)), e_recv = (\<lambda>_ (w, page). (None, w, page))\<rparr>"

lemma pad_ctrl: "good_record r \<Longrightarrow> is_pad_record r \<Longrightarrow> \<exists>k. decode_workload_ctrl r = Err (UnknownKind k)"
proof -
  assume g: "good_record r" and p: "is_pad_record r"
  obtain hdr where hdr: "RecordHeader_read_from r = Ok hdr" using g by (auto simp: good_record_def split: res.splits)
  then have "hdr = header_at r" by (simp add: read_from_Ok_iff)
  then have "rh_kind hdr = 0" using p by (simp add: is_pad_record_def header_at_def)
  then show ?thesis
    using hdr by (simp add: decode_workload_ctrl_def payload_slice_Ok [OF hdr] WorkloadCtrlKind_from_u8_def)
qed

lemma resume_env_resumes: "host_resumes (resume_env token) demo_channel (\<lambda>_. True) (\<lambda>_. 0) token"
  unfolding host_resumes_def
proof (intro allI impI, elim conjE)
  fix w :: unit and page assume q: "ctrl_queue demo_channel page []"
  let ?h = ChannelHeader_canonical and ?p = "\<lparr>pr_size = 0x4000, pr_next_seq = 0\<rparr>" and ?x = "(0 :: u64, Ctrl_Resume token)"
  let ?m = "page_ring ?h page RingI" and ?enc = "\<lambda>buf seq. encode_workload_ctrl buf seq 0 (Ctrl_Resume token)"
  let ?d = "\<lparr>dx_prod = ?p, dx_cons = \<lparr>co_size = 0x4000\<rparr>, dx_mem = ?m\<rparr>"
  have h: "length (ch_ring_desc ?h) = 4" "ChannelHeader_validate ?h = Ok ()" "length page = CHANNEL_SIZE"
    using q by (simp_all add: ctrl_queue_def mapped_def demo_channel_def)
  have rep: "ring_rep 0x4000 ?m []" using q by (simp add: ctrl_queue_def demo_channel_def)
  then have d: "duplex_rep ?d []" by (simp add: duplex_rep_def)
  obtain r p' m' where t: "try_push ?p ?m 24 ?enc = (r, p', m')" by (rule prod_cases3)
  then have put: "ring_put (\<lambda>buf seq (vnanos, c). encode_workload_ctrl buf seq vnanos c) (\<lambda>_. 24) ?d ?x
      = (r, ?d\<lparr>dx_prod := p', dx_mem := m'\<rparr>)" by (simp add: ring_put_def)
  have room: "\<not> unat (0x4000 :: u32) < ring_total [] + pad_len (unat (0x4000 :: u32)) (ring_pos ?m []) 24 + 24"
    by (auto simp: pad_len_def)
  then have "\<exists>seq. r = Ok seq" using ctrl_ring.ring_put_cases [OF d, where x = ?x] put by auto
  then obtain seq where r: "r = Ok seq" ..
  obtain ps where ps: "duplex_rep (?d\<lparr>dx_prod := p', dx_mem := m'\<rparr>) (ps @ [ctrl_image seq 0 (Ctrl_Resume token)])" "list_all is_pad_record ps"
    using ctrl_ring.ring_put_Ok [OF d, where x = ?x and seq = seq] put r by auto
  then have m': "ring_rep 0x4000 m' (ps @ [ctrl_image seq 0 (Ctrl_Resume token)])" by (auto simp: duplex_rep_def)
  have dl: "length (rm_data m') = unat (rd_size (ch_ring_desc ?h ! ring_index RingI))"
    using m' canonical_ring by (simp add: ring_rep_def)
  have c: "rm_cons m' = rm_cons ?m" using t by (auto simp: try_push_def split: prod.splits)
  obtain r2 p2 page' where pp: "page_push ?h RingI ?p page 24 ?enc = (r2, p2, page')" by (rule prod_cases3)
  note v = page_push_views [OF h pp t dl c]
  show "\<exists>w' page' recs. e_spin (resume_env token) (w, page) = (w', page') \<and> True \<and> ctrl_queue demo_channel page' recs
      \<and> (Ctrl_Resume token \<in> set (ctrls recs) \<or> (0 :: nat) < 0)"
  proof -
    let ?recs = "ps @ [ctrl_image seq 0 (Ctrl_Resume token)]"
    have "list_all good_record ps" using m' by (simp add: ring_rep_def)
    then have "list_all (\<lambda>r. \<exists>k. decode_workload_ctrl r = Err (UnknownKind k)) ps"
      using ps(2) pad_ctrl by (simp add: list_all_iff)
    then have "list_all ctrl_readable ps" "ctrls (ps @ rs) = ctrls rs" for rs
      by (induction ps) (auto simp: ctrl_readable_def)
    moreover have "decode_workload_ctrl (ctrl_image seq 0 (Ctrl_Resume token)) = Ok (ctrl_header seq 0 (Ctrl_Resume token), Ctrl_Resume token)"
      using decode_ctrl_image [of seq 0 "Ctrl_Resume token" "[]"] by simp
    ultimately have "list_all ctrl_readable ?recs" "Ctrl_Resume token \<in> set (ctrls ?recs)"
      by (simp_all add: ctrl_readable_def)
    moreover have "mapped demo_channel page'" using q v(3) by (simp add: ctrl_queue_def mapped_def)
    ultimately have "ctrl_queue demo_channel page' ?recs"
      using m' v(4) [of RingI] by (simp add: ctrl_queue_def demo_channel_def)
    then show ?thesis using \<open>Ctrl_Resume token \<in> set (ctrls ?recs)\<close> pp by (auto simp: resume_env_def)
  qed
qed

theorem park_loop_resumes_witness:
  "\<exists>m' m1 recs1 rest. park_loop (resume_env 5) 5 \<lparr>ss_channel = demo_channel, ss_pio = \<lparr>ps_pv_pad = None\<rparr>, ss_intern = InternTable_default,
       ss_beacons = BeaconCounters_default, ss_stats = StatsState_default, ss_stats_region = StatsRegion_default,
       ss_stats_region_handle = None, ss_frame_index = 0, ss_next_iseq = FIRST_ISEQ\<rparr>
     \<lparr>m_page = zero_page, m_vnanos = 1, m_client = False, m_world = ()\<rparr> =
     Some (Ok (), \<lparr>ss_channel = demo_channel, ss_pio = \<lparr>ps_pv_pad = None\<rparr>, ss_intern = InternTable_default,
       ss_beacons = BeaconCounters_default, ss_stats = StatsState_default, ss_stats_region = StatsRegion_default,
       ss_stats_region_handle = None, ss_frame_index = 0, ss_next_iseq = FIRST_ISEQ\<rparr>, m')
     \<and> parked (resume_env 5) demo_channel 5 m1 recs1 m' rest \<and> ctrl_queue demo_channel (m_page m1) recs1"
proof -
  let ?s = "\<lparr>ss_channel = demo_channel, ss_pio = \<lparr>ps_pv_pad = None\<rparr>, ss_intern = InternTable_default,
       ss_beacons = BeaconCounters_default, ss_stats = StatsState_default, ss_stats_region = StatsRegion_default,
       ss_stats_region_handle = None, ss_frame_index = 0, ss_next_iseq = FIRST_ISEQ\<rparr>"
  have "ring_size_ok 0x4000" by (simp add: ring_size_ok_def pow2_sizes)
  then have "ctrl_queue demo_channel zero_page []"
    using demo_mapped(1) zero_page_ring [of RingI] by (simp add: ctrl_queue_def demo_channel_def ring_rep_def canonical_ring)
  then obtain m' rest where m': "park_loop (resume_env 5) 5 ?s \<lparr>m_page = zero_page, m_vnanos = 1, m_client = False, m_world = ()\<rparr> = Some (Ok (), ?s, m')"
      "parked (resume_env 5) demo_channel 5 \<lparr>m_page = zero_page, m_vnanos = 1, m_client = False, m_world = ()\<rparr> [] m' rest"
    using park_loop_resumes [of "resume_env 5" ?s "\<lambda>_. True" "\<lambda>_. 0" 5 "\<lparr>m_page = zero_page, m_vnanos = 1, m_client = False, m_world = ()\<rparr>" "[]"]
      resume_env_resumes by auto
  from m'(2) obtain m1 recs1 where "ctrl_queue demo_channel (m_page m1) recs1" "parked (resume_env 5) demo_channel 5 m1 recs1 m' rest"
    by (rule parked_empty) auto
  with m'(1) show ?thesis by blast
qed

end
