(* ===== verification/Agent_Relay.thy ===== *)
theory Agent_Relay
  imports Agent_Channel Sdk_Quiesce
begin

text \<open>
  The agent between host and workload: polling commands from ring C and relaying control records onto
  ring I. The relay does not use a ring half: it computes the positions itself and numbers its records
  by position. It is shown to be a push on the queue of ring I, so that the workload's poll finds the
  record; polling ring C is shown to return the next command behind pads and unknown kinds.
\<close>

section \<open>Space on a ring\<close>

lemma ring_space:
  assumes rep: "ring_rep sz m recs" and len: "len \<le> 4096" and n: "n = pad_len (unat sz) (ring_pos m recs) len"
  shows "free (rm_prod m) (rm_cons m) sz < bytes_needed (rm_prod m) sz (of_nat len) \<longleftrightarrow> unat sz < ring_total recs + n + len"
    and "of_nat len < bytes_needed (rm_prod m) sz (of_nat len) \<longleftrightarrow> 0 < n"
    and "bytes_needed (rm_prod m) sz (of_nat len) = of_nat (n + len)"
    and "0 < n \<Longrightarrow> unat (contiguous_tail (rm_prod m) sz) = n"
proof -
  let ?P = "ring_pos m recs" and ?C = "unat (rm_cons m)"
  note pos = ring_rep_pos [OF rep]
  have sz: "ring_size_ok sz" using rep by (simp add: ring_rep_def)
  have fr: "unat (free (of_nat ?P) (of_nat ?C) sz) = unat sz - (?P - ?C)"
    using unat_free [of "?P - ?C" sz ?C] pos(3,4) by simp
  have nd: "unat (bytes_needed (of_nat ?P) sz (of_nat len)) = n + len"
    unfolding n by (rule unat_needed [OF sz len])
  have P: "?P = ?C + ring_total recs" by (simp add: ring_pos_def)
  show "free (rm_prod m) (rm_cons m) sz < bytes_needed (rm_prod m) sz (of_nat len) \<longleftrightarrow> unat sz < ring_total recs + n + len"
    using fr nd pos(4) P unfolding pos(2) word_less_nat_alt by (simp, linarith)
  show "of_nat len < bytes_needed (rm_prod m) sz (of_nat len) \<longleftrightarrow> 0 < n"
    using nd len unfolding pos(2) word_less_nat_alt by (simp add: unat_of_nat)
  show "bytes_needed (rm_prod m) sz (of_nat len) = of_nat (n + len)"
    using arg_cong [OF nd, of "of_nat :: nat \<Rightarrow> u32"] unfolding pos(2) by simp
  show "unat (contiguous_tail (rm_prod m) sz) = n" if "0 < n"
    using unat_tail [OF sz, of ?P] that unfolding pos(2) n by (auto simp: pad_len_def split: if_splits)
qed

section \<open>The relay is a push\<close>

text \<open>The position of the record and its bytes.\<close>

definition relay_seq :: "ring_mem \<Rightarrow> bytes list \<Rightarrow> u32" where
  "relay_seq m recs = drop_bit 3 (rm_prod m + of_nat (pad_len 0x4000 (ring_pos m recs) 24))"

lemma relay_record_eq:
  assumes len: "length page = CHANNEL_SIZE" and m: "m = page_ring canonical page RingI"
    and rep: "ring_rep 0x4000 m recs" and n: "n = pad_len 0x4000 (ring_pos m recs) 24"
    and r: "r = ctrl_image (relay_seq m recs) vn rec"
  shows "if 0x4000 < ring_total recs + n + 24 then relay_record vn rec page = Err RingFull
     else \<exists>page'. relay_record vn rec page = Ok page' \<and> length page' = CHANNEL_SIZE
        \<and> (\<forall>a. page_ring canonical page' a
             = (if a = RingI then pushed_mem 0x4000 m (ring_pos m recs) r (drop_bit 3 (rm_prod m)) else page_ring canonical page a))
        \<and> take 0x100 page' = take 0x100 page \<and> take 0x7000 (drop 0x1000 page') = take 0x7000 (drop 0x1000 page)"
proof -
  let ?P = "ring_pos m recs" and ?off = "unat (rd_offset (canonical_desc RingI))" and ?q = "drop_bit 3 (rm_prod m) :: u32"
  have h: "length (ch_ring_desc canonical) = 4" "ChannelHeader_validate canonical = Ok ()" by (rule canonical_descs canonical_valid)+
  have sz: "ring_size_ok 0x4000" and data: "length (rm_data m) = 0x4000" using rep by (simp_all add: ring_rep_def)
  note pos = ring_rep_pos [OF rep] and sp = ring_space [OF rep, of 24 n]
  have u: "unat (0x4000 :: u32) = 0x4000" by simp
  have n': "n = pad_len (unat (0x4000 :: u32)) ?P 24" by (simp only: n u)
  have cells: "le_at 4 page (prod_offset RingI) = rm_prod m" "le_at 4 page (cons_offset RingI) = rm_cons m"
    by (simp_all add: m page_ring_def Let_def)
  have rl: "record_len 8 = 24" by (simp add: record_len_def pad8_def)
  have lr: "length r = 24" by (simp add: r length_ctrl_image)
  have off: "unat (x AND (0x4000 - 1)) = Q mod 0x4000" if "x = (of_nat Q :: u32)" for x Q
    using unat_off [OF sz, of Q] that by simp
  note pl = pad_len_props [OF sz pos(1), of 24, folded n'] and rw = record_window [OF sz, of 24 ?P, folded n', simplified u]
  note view = page_ring_data [OF h _ refl, of _ _ _ RingI, unfolded canonical_ring(1)]
  let ?page1 = "if 0 < n then patch page (?off + ?P mod 0x4000) (pad_record n ?q) else page"
  have pr: "0 < n \<Longrightarrow> length (pad_record n ?q) = n" using pl by (intro length_pad_record) auto
  have p1: "length ?page1 = CHANNEL_SIZE" using len pr pl(4) by (auto simp: canonical_desc_def)
  have v1: "page_ring canonical ?page1 a = (if a = RingI then m\<lparr>rm_data := padded_data 0x4000 (rm_data m) ?P 24 ?q\<rparr>
      else page_ring canonical page a)" for a
    using view [OF len, of "?P mod 0x4000" "pad_record n ?q", folded m] pl(4) pr m [symmetric]
    by (auto simp: padded_data_def n [symmetric] canonical_ring)
  let ?page2 = "patch ?page1 (?off + (?P + n) mod 0x4000) r"
  have p2: "length ?page2 = CHANNEL_SIZE" using p1 rw lr by (auto simp: canonical_desc_def)
  have v2: "page_ring canonical ?page2 a = (if a = RingI then m\<lparr>rm_data := pushed_data 0x4000 (rm_data m) ?P r ?q\<rparr>
      else page_ring canonical page a)" for a
    using view [OF p1, of "(?P + n) mod 0x4000" r] rw lr v1 by (auto simp: canonical_ring pushed_data_def n [symmetric])
  let ?page3 = "patch ?page2 (prod_offset RingI) (to_le_bytes 4 (of_nat (?P + n + 24) :: u32))"
  have v3: "page_ring canonical ?page3 a = (if a = RingI then pushed_mem 0x4000 m ?P r ?q else page_ring canonical page a)" for a
    using page_ring_cells(1) [OF h p2, of RingI _ a] v2 by (simp add: pushed_mem_def lr n [symmetric])
  have step: "(if of_nat 24 < bytes_needed (rm_prod m) 0x4000 (of_nat 24)
      then let tail = unat (contiguous_tail (rm_prod m) 0x4000)
           in bind_res (unwrap_res (encode_pad (replicate tail 0) tail ?q)) (\<lambda>(pad, _).
              Ok (patch page (?off + unat (rm_prod m AND (0x4000 - 1))) pad, rm_prod m + of_nat tail))
      else Ok (page, rm_prod m)) = (Ok (?page1, of_nat (?P + n)) :: (ring_full, bytes \<times> u32) res)"
  proof (cases "0 < n")
    case True
    then have "encode_pad (replicate n 0) n ?q = Ok (pad_record n ?q, n)"
      using pl encode_pad_eq [of n "replicate n 0" ?q] pr by (simp add: patch_whole)
    moreover have "unat (rm_prod m AND (0x4000 - 1)) = ?P mod 0x4000" by (rule off) (simp add: pos(2))
    ultimately show ?thesis using True sp(2,4) n' pos(2) by (simp add: unwrap_res_def Let_def)
  next
    case False
    then show ?thesis using sp(2) n' pos(2) by simp
  qed
  have enc: "unwrap_res (encode_workload_ctrl (replicate 32 0) (drop_bit 3 (of_nat (?P + n))) vn rec)
      = (Ok (patch (replicate 32 0) 0 r, 24) :: (ring_full, bytes \<times> nat) res)"
    using pos(2) by (simp add: encode_workload_ctrl_eq unwrap_res_def r relay_seq_def n)
  have tk: "take 24 (patch (replicate 32 0) 0 r) = r" using take_patch_0 [of r "replicate 32 0"] lr by simp
  have desc: "rd_size (canonical_desc RingI) = 0x4000" by (simp add: canonical_ring)
  have off2: "unat (of_nat (?P + n) AND (0x4000 - 1) :: u32) = (?P + n) mod 0x4000" by (rule off) simp
  have new: "rm_prod m + bytes_needed (rm_prod m) 0x4000 (of_nat 24) = of_nat (?P + n + 24)"
    using sp(3) n' pos(2) by simp
  show ?thesis
  proof (cases "0x4000 < ring_total recs + n + 24")
    case True
    then show ?thesis using sp(1) n' by (simp add: relay_record_def Let_def cells rl desc)
  next
    case False
    then have nf: "\<not> free (rm_prod m) (rm_cons m) 0x4000 < bytes_needed (rm_prod m) 0x4000 (of_nat 24)" using sp(1) n' by simp
    have "relay_record vn rec page = Ok ?page3"
      unfolding relay_record_def Let_def cells rl desc if_not_P [OF nf] step [unfolded Let_def] bind_res.simps prod.case
        enc tk off2 new by (rule refl)
    moreover have "length ?page3 = CHANNEL_SIZE" using p2 cell_offsets(1) [of RingI] by simp
    moreover have "take 0x100 ?page3 = take 0x100 page" "take 0x7000 (drop 0x1000 ?page3) = take 0x7000 (drop 0x1000 page)"
      using len p1 p2 pr pl(4) rw lr cell_offsets(1,3) [of RingI]
      by (auto simp: canonical_desc_def take_patch_before take_drop_patch_before take_drop_patch_after)
    ultimately show ?thesis using False v3 by simp
  qed
qed

text \<open>
  What relaying makes of the page: without room nothing changes; otherwise the record is queued last on ring I, behind a
  pad where the tail is too short, and the header, the manifest, the other rings and the workload's index stay.
\<close>

definition relayed :: "u64 \<Rightarrow> workload_ctrl \<Rightarrow> bytes list \<Rightarrow> bytes \<Rightarrow> bytes \<Rightarrow> bool" where
  "relayed vn rec recs page page' \<longleftrightarrow>
     (let m = page_ring canonical page RingI
      in if 0x4000 < ring_total recs + pad_len 0x4000 (ring_pos m recs) 24 + 24 then page' = page
         else (\<exists>ps. list_all is_pad_record ps
                \<and> ring_rep 0x4000 (page_ring canonical page' RingI) (recs @ ps @ [ctrl_image (relay_seq m recs) vn rec]))
           \<and> rm_cons (page_ring canonical page' RingI) = rm_cons m
           \<and> (\<forall>a. a \<noteq> RingI \<longrightarrow> page_ring canonical page' a = page_ring canonical page a) \<and> length page' = CHANNEL_SIZE
           \<and> take 0x100 page' = take 0x100 page \<and> take 0x7000 (drop 0x1000 page') = take 0x7000 (drop 0x1000 page))"

lemma pushed_rep:
  assumes rep: "ring_rep 0x4000 m recs" and fit: "\<not> 0x4000 < ring_total recs + pad_len 0x4000 (ring_pos m recs) 24 + 24"
    and r: "r = ctrl_image (relay_seq m recs) vn rec" and ps: "ps = pads 0x4000 (ring_pos m recs) 24 q"
  shows "ring_rep 0x4000 (pushed_mem 0x4000 m (ring_pos m recs) r q) (recs @ ps @ [r])" and "list_all is_pad_record ps"
proof -
  have "good_record r" using ctrl_ring.good_image [where x = "(vn, rec)"] by (simp add: r)
  from pushed_mem_rep [OF rep this refl, of q] show "ring_rep 0x4000 (pushed_mem 0x4000 m (ring_pos m recs) r q) (recs @ ps @ [r])"
    using fit by (simp add: r ps length_ctrl_image)
  show "list_all is_pad_record ps"
    using pads_seqs [of "0x4000" "ring_pos m recs" 24 q] rep ring_rep_pos(1) [OF rep] by (simp add: ring_rep_def ps)
qed

lemma relay_record_relayed:
  assumes len: "length page = CHANNEL_SIZE" and rep: "ring_rep 0x4000 (page_ring canonical page RingI) recs"
  obtains (room) page' where "relay_record vn rec page = Ok page'" and "relayed vn rec recs page page'" and "length page' = CHANNEL_SIZE"
    | (full) "relay_record vn rec page = Err RingFull" and "relayed vn rec recs page page"
proof (cases "0x4000 < ring_total recs + pad_len 0x4000 (ring_pos (page_ring canonical page RingI) recs) 24 + 24")
  case True
  then show ?thesis using relay_record_eq [OF len refl rep refl refl, of vn rec] full by (simp add: relayed_def)
next
  case False
  let ?m = "page_ring canonical page RingI"
  obtain page' where p: "relay_record vn rec page = Ok page'" "length page' = CHANNEL_SIZE"
      "\<And>a. page_ring canonical page' a = (if a = RingI then pushed_mem 0x4000 ?m (ring_pos ?m recs) (ctrl_image (relay_seq ?m recs) vn rec)
         (drop_bit 3 (rm_prod ?m)) else page_ring canonical page a)"
      "take 0x100 page' = take 0x100 page" "take 0x7000 (drop 0x1000 page') = take 0x7000 (drop 0x1000 page)"
    using relay_record_eq [OF len refl rep refl refl, of vn rec] False by auto
  have "relayed vn rec recs page page'"
    using pushed_rep [OF rep False refl refl, where q = "drop_bit 3 (rm_prod ?m)"] False p(2-5)
    unfolding relayed_def Let_def by (auto simp: pushed_mem_def)
  then show ?thesis using room p(1,2) by blast
qed

lemma pads_unread:
  "list_all good_record ps \<Longrightarrow> list_all is_pad_record ps \<Longrightarrow> list_all ctrl_readable ps \<and> ctrls ps = []"
  by (induction ps) (auto simp: ctrl_readable_def dest: pad_ctrl)

text \<open>
  C35. The relay reaches the workload: relaying a control record is refused exactly when ring I lacks
  the space for the record and the pad in front of it, and then changes nothing; otherwise the record
  is the last one the workload's polls will find, the records queued before it stay in front, and no
  other ring is touched. It never panics.
\<close>

theorem relay_reaches_workload:
  assumes q: "ctrl_queue self page recs" and h: "mc_header self = ChannelHeader_canonical"
    and n: "n = pad_len 0x4000 (ring_pos (page_ring ChannelHeader_canonical page RingI) recs) 24"
  shows "if 0x4000 < ring_total recs + n + 24 then relay_record vn rec page = Err RingFull
     else \<exists>page' recs'. relay_record vn rec page = Ok page' \<and> ctrl_queue self page' recs'
        \<and> ctrls recs' = ctrls recs @ [rec]
        \<and> (\<forall>a. a \<noteq> RingI \<longrightarrow> page_ring ChannelHeader_canonical page' a = page_ring ChannelHeader_canonical page a)"
proof -
  let ?m = "page_ring canonical page RingI" and ?q = "drop_bit 3 (rm_prod (page_ring canonical page RingI)) :: u32"
  have m: "mapped self page" and co: "co_size (mc_ring_i self) = 0x4000" and len: "length page = CHANNEL_SIZE"
    and rd: "list_all ctrl_readable recs" using q h by (simp_all add: ctrl_queue_def mapped_def canonical_ring)
  have rep: "ring_rep 0x4000 ?m recs" using q h co unfolding ctrl_queue_def by metis
  note eq = relay_record_eq [OF len refl rep n refl, of vn rec]
  show ?thesis
  proof (cases "0x4000 < ring_total recs + n + 24")
    case True
    then show ?thesis using eq by simp
  next
    case False
  let ?r = "ctrl_image (relay_seq ?m recs) vn rec" and ?ps = "pads 0x4000 (ring_pos ?m recs) 24 ?q"
  obtain page' where p: "relay_record vn rec page = Ok page'" "length page' = CHANNEL_SIZE"
      "\<And>a. page_ring canonical page' a = (if a = RingI then pushed_mem 0x4000 ?m (ring_pos ?m recs) ?r ?q else page_ring canonical page a)"
    using eq False by auto
  have rep': "ring_rep 0x4000 (page_ring canonical page' RingI) (recs @ ?ps @ [?r])" and pad: "list_all is_pad_record ?ps"
    using pushed_rep(1) [OF rep _ refl refl, where vn = vn and rec = rec and q = ?q] pushed_rep(2) [OF rep _ refl refl, where q = ?q] False n p(3) [of RingI] by simp_all
  have "list_all good_record ?ps" using rep' by (simp add: ring_rep_def)
  from this pad have ps: "list_all ctrl_readable ?ps \<and> ctrls ?ps = []" by (rule pads_unread)
  have r: "decode_workload_ctrl ?r = Ok (ctrl_header (relay_seq ?m recs) vn rec, rec)"
    using decode_ctrl_image [of "relay_seq ?m recs" vn rec "[]"] by simp
  have "ctrl_queue self page' (recs @ ?ps @ [?r])"
    using m p(2) rep' co rd ps r h by (simp add: ctrl_queue_def mapped_def ctrl_readable_def)
  moreover have "ctrls (recs @ ?ps @ [?r]) = ctrls recs @ [rec]" using ps r by (simp add: ctrls_append)
  ultimately show ?thesis using p(1,3) False by auto
  qed
qed

theorem relay_reaches_workload_witness:
  "\<exists>page' recs'. relay_record 7 (Ctrl_QuiesceReq 5) zero_page = Ok page' \<and> ctrl_queue demo_channel page' recs'
     \<and> ctrls recs' = [Ctrl_QuiesceReq 5]"
proof -
  have "ring_size_ok 0x4000" by (simp add: ring_size_ok_def pow2_sizes)
  then have q: "ctrl_queue demo_channel zero_page []"
    using demo_mapped(1) zero_page_ring [of RingI] by (simp add: ctrl_queue_def demo_channel_def ring_rep_def canonical_ring)
  have "pad_len 0x4000 (ring_pos (page_ring ChannelHeader_canonical zero_page RingI) []) 24 = 0"
    by (simp add: ring_pos_def zero_page_ring pad_len_def)
  then show ?thesis
    using relay_reaches_workload [OF q _ refl, of 7 "Ctrl_QuiesceReq 5"] by (auto simp: demo_channel_def)
qed

section \<open>Polling commands\<close>

definition command_readable :: "bytes \<Rightarrow> bool" where
  "command_readable r \<longleftrightarrow> (case decode_command r of Ok _ \<Rightarrow> True | Err (UnknownKind _) \<Rightarrow> True | _ \<Rightarrow> False)"

text \<open>Ring C with its queue and the agent's half.\<close>

definition command_queue :: "'w agent_channel \<Rightarrow> bytes list \<Rightarrow> bool" where
  "command_queue c recs \<longleftrightarrow> length (ac_page c) = CHANNEL_SIZE \<and> co_size (ac_cons_c c) = 0x4000
     \<and> length (ac_scratch c) = MAX_RECORD_LEN
     \<and> ring_rep 0x4000 (page_ring canonical (ac_page c) RingC) recs \<and> list_all command_readable recs"

fun next_command :: "bytes list \<Rightarrow> command option \<times> bytes list" where
  "next_command [] = (None, [])"
| "next_command (r # rs) = (case decode_command r of Ok (_, cmd) \<Rightarrow> (Some cmd, rs) | _ \<Rightarrow> next_command rs)"

lemma pad_command:
  assumes "good_record r" and "is_pad_record r"
  shows "decode_command r = Err (UnknownKind 0)"
proof -
  obtain hdr where hdr: "RecordHeader_read_from r = Ok hdr" using assms(1) by (auto simp: good_record_def split: res.splits)
  then have "hdr = header_at r" by (simp add: read_from_Ok_iff)
  then have "rh_kind hdr = 0" using assms(2) by (simp add: is_pad_record_def header_at_def)
  then show ?thesis
    using hdr by (simp add: decode_command_def payload_slice_Ok [OF hdr] CommandKind_from_u8_def)
qed

lemma poll_commands_rep:
  "ring_rep (co_size c) rm recs \<Longrightarrow> list_all command_readable recs \<Longrightarrow> length scratch = MAX_RECORD_LEN \<Longrightarrow>
     \<exists>v scratch'. poll_commands c rm scratch = (Ok (fst (next_command recs)), rm\<lparr>rm_cons := v\<rparr>, scratch')
       \<and> ring_rep (co_size c) (rm\<lparr>rm_cons := v\<rparr>) (snd (next_command recs)) \<and> length scratch' = MAX_RECORD_LEN"
proof (induction recs arbitrary: rm scratch)
  case Nil
  then show ?case using pop_into_rep [OF Nil(1)]
    by (intro exI [of _ "rm_cons rm"] exI [of _ scratch]) (simp add: poll_commands.simps [of c rm])
next
  case (Cons r rs)
  let ?rm = "rm\<lparr>rm_cons := rm_cons rm + of_nat (length r)\<rparr>" and ?s = "patch scratch 0 r"
  have len: "8 \<le> length r" "length r \<le> 4096" and g: "good_record r"
    using Cons.prems(1) good_record_length by (auto simp: ring_rep_def)
  have pop: "pop_into c rm scratch = (Ok (Some (length r)), ?rm, ?s)"
    using pop_into_rep [OF Cons.prems(1), of scratch] len Cons.prems(3) by simp
  have sl: "(bind_res (slice ?s 0 (length r)) (\<lambda>rec. bind_res (index rec 2) (\<lambda>k. Ok (rec, k))) :: (unit, bytes \<times> u8) res)
      = Ok (r, r ! 2)"
    using len Cons.prems(3) by (simp add: slice_def index_def)
  note tl = ring_rep_tl [OF Cons.prems(1)]
  have sc: "length ?s = MAX_RECORD_LEN" using len Cons.prems(3) by simp
  have r: "command_readable r" and rs: "list_all command_readable rs" using Cons.prems(2) by simp_all
  have skip: "\<exists>v scratch'. poll_commands c rm scratch = (Ok (fst (next_command (r # rs))), rm\<lparr>rm_cons := v\<rparr>, scratch')
       \<and> ring_rep (co_size c) (rm\<lparr>rm_cons := v\<rparr>) (snd (next_command (r # rs))) \<and> length scratch' = MAX_RECORD_LEN"
    if "poll_commands c rm scratch = poll_commands c ?rm ?s" "next_command (r # rs) = next_command rs"
    using Cons.IH [OF tl rs sc] that by auto
  show ?case
  proof (cases "r ! 2 = EventKind_as_u8 EK_Pad")
    case True
    then have "is_pad_record r" by (simp add: is_pad_record_def EventKind_as_u8_def)
    then show ?thesis
      using skip True pad_command [OF g] by (simp add: poll_commands.simps [of c rm scratch] pop sl)
  next
    case False
    show ?thesis
    proof (cases "decode_command r")
      case (Ok x)
      then show ?thesis using tl pop sl sc False
        by (intro exI [of _ "rm_cons rm + of_nat (length r)"] exI [of _ ?s]) (cases x; simp add: poll_commands.simps [of c rm])
    next
      case (Err e)
      then obtain k where e: "e = UnknownKind k" using r by (cases e) (simp_all add: command_readable_def)
      then show ?thesis using skip Err False by (simp add: poll_commands.simps [of c rm scratch] pop sl)
    next
      case Panic
      then show ?thesis using decode_command_not_Panic by blast
    qed
  qed
qed

lemma poll_command_ends:
  assumes "command_queue c recs"
  shows "ends poll_command (\<lambda>cmd c'. cmd = fst (next_command recs) \<and> command_queue c' (snd (next_command recs))
     \<and> (\<forall>a. a \<noteq> RingC \<longrightarrow> page_ring canonical (ac_page c') a = page_ring canonical (ac_page c) a)
     \<and> agent_manifest c' = agent_manifest c \<and> ac_prod_a c' = ac_prod_a c \<and> ac_world c' = ac_world c) c"
proof -
  have h: "length (ch_ring_desc canonical) = 4" "ChannelHeader_validate canonical = Ok ()" "length (ac_page c) = CHANNEL_SIZE"
    using canonical_descs canonical_valid assms by (simp_all add: command_queue_def)
  have rd: "list_all command_readable (snd (next_command recs))" if "list_all command_readable recs" for recs
    using that by (induction recs) (auto split: res.splits)
  obtain v scratch' where p: "poll_commands (ac_cons_c c) (page_ring canonical (ac_page c) RingC) (ac_scratch c)
        = (Ok (fst (next_command recs)), (page_ring canonical (ac_page c) RingC)\<lparr>rm_cons := v\<rparr>, scratch')"
      "ring_rep 0x4000 ((page_ring canonical (ac_page c) RingC)\<lparr>rm_cons := v\<rparr>) (snd (next_command recs))"
      "length scratch' = MAX_RECORD_LEN"
    using poll_commands_rep [of "ac_cons_c c" "page_ring canonical (ac_page c) RingC" recs "ac_scratch c"] assms
    by (auto simp: command_queue_def)
  let ?page = "patch (ac_page c) (cons_offset RingC) (to_le_bytes 4 v)"
  have "length ?page = CHANNEL_SIZE" "take 22560 (drop 0x1000 ?page) = take 22560 (drop 0x1000 (ac_page c))"
    using cell_offsets(2) [of RingC] h(3) by (simp_all add: take_drop_patch_after)
  then show ?thesis
    using p assms rd page_ring_cells(2) [OF h, of RingC v]
    by (simp add: ends_def poll_command_def command_queue_def agent_manifest_def)
qed

end
