(* ===== verification/Agent_Promises.thy ===== *)
theory Agent_Promises
  imports Agent_Fixture Agent_Relay
begin

text \<open>
  The promises of the agent's channel and region service, each with an instance on the small world.
\<close>

text \<open>
  C36. A fresh channel is ready for both ends: initialising a zeroed page never panics and leaves the
  canonical header, an empty closed manifest that agrees with the empty ledger, and four empty rings, so
  that the agent can emit and the host's parse of the manifest succeeds.
\<close>

theorem agent_init_ready:
  "\<exists>c. agent_init_at v w (replicate CHANNEL_SIZE 0) = Ok c \<and> ac_world c = w
     \<and> ChannelHeader_read_from (ac_page c) = Ok ChannelHeader_canonical
     \<and> ledger_ok (agent_manifest c) [] \<and> emitting (\<lambda>_. True) (\<lambda>_. []) [] c \<and> command_queue c []
     \<and> (\<forall>a. rm_prod (page_ring ChannelHeader_canonical (ac_page c) a) = 0 \<and> rm_cons (page_ring ChannelHeader_canonical (ac_page c) a) = 0)"
proof -
  let ?c = "fresh_agent v w"
  have w: "ac_world ?c = w" by (simp add: fresh_agent_def)
  have "take 48 (ac_page ?c) = channel_header_bytes canonical"
    using length_zero_page length_fresh_area by (simp add: fresh_agent_def take_patch_before zero_page_def length_canonical_bytes)
  then have "ac_page ?c = channel_header_bytes canonical @ drop 48 (ac_page ?c)" by (metis append_take_drop_id)
  then have "ChannelHeader_read_from (ac_page ?c) = Ok canonical" using read_header_written [OF canonical_descs] by metis
  moreover have "ring_size_ok 0x4000" by (simp add: ring_size_ok_def pow2_sizes)
  then have "command_queue ?c []"
    using fresh_rings [of v w RingC] zero_page_ring [of RingC] length_zero_page length_fresh_area
    by (simp add: command_queue_def fresh_agent_def ring_rep_def canonical_ring)
  ultimately show ?thesis
    using init_zeroed fresh_ledger fresh_emitting [of "\<lambda>_. True" w "\<lambda>_. []" v] fresh_rings [of v w] zero_page_ring
    by (intro exI [of _ ?c]) (simp add: fresh_manifest w)
qed

text \<open>
  C23. Emission by the agent: against a host that serves the doorbell, emitting an encodable event
  returns; a critical event always lands behind everything published before, a droppable one lands or
  is counted once with its length, and nothing but ring A, its counters and what the host consumed changes.
\<close>

theorem agent_emit_exact:
  assumes "agent_served env winv patience log" and "event_item_ok (vn, flags, ev)" and "emitting winv log strm c"
  shows "\<exists>landed c'. agent_emit env vn flags ev c = Some (Ok landed :: ('e, bool) res, c') \<and> emit_frame c c'
     \<and> (if landed then \<exists>seq. emitting winv log (strm @ [item_image seq (vn, flags, ev)]) c'
        else \<not> EventKind_is_critical (agent_event_kind ev) \<and> emitting winv log strm c'
           \<and> le_at 8 (ac_page c') OFF_RING_A_DROPPED_RECORDS = (le_at 8 (ac_page c) OFF_RING_A_DROPPED_RECORDS + 1 :: u64)
           \<and> le_at 8 (ac_page c') OFF_RING_A_DROPPED_BYTES
             = (le_at 8 (ac_page c) OFF_RING_A_DROPPED_BYTES + of_nat (encoded_event_len ev) :: u64))"
proof (cases "EventKind_is_critical (agent_event_kind ev)")
  case True
  then show ?thesis
    using emit_loop_critical [OF assms(1,2) True, of c strm] assms(3) by (fastforce simp: emitting_def agent_emit_def)
next
  case False
  from assms(3) obtain recs where q: "page_queue canonical RingA (ac_prod_a c) (ac_page c) recs"
    and strm: "strm = log (ac_world c) @ payload_records recs" by (auto simp: emitting_def on_ring_a_def)
  let ?run = "emit_loop env (encoded_event_len ev) vn flags ev c :: (('e, bool) res \<times> _) option"
  from emit_loop_droppable [OF assms(2) False q, of env]
  obtain c' where w: "ac_world c' = ac_world c" "emit_frame c c'"
    and r: "(\<exists>seq ps. ?run = Some (Ok True, c') \<and> list_all is_pad_record ps
         \<and> page_queue canonical RingA (ac_prod_a c') (ac_page c') (recs @ ps @ [item_image seq (vn, flags, ev)]))
      \<or> ?run = Some (Ok False, c') \<and> page_queue canonical RingA (ac_prod_a c') (ac_page c') recs
         \<and> le_at 8 (ac_page c') OFF_RING_A_DROPPED_RECORDS = (le_at 8 (ac_page c) OFF_RING_A_DROPPED_RECORDS + 1 :: u64)
         \<and> le_at 8 (ac_page c') OFF_RING_A_DROPPED_BYTES
           = (le_at 8 (ac_page c) OFF_RING_A_DROPPED_BYTES + of_nat (encoded_event_len ev) :: u64)" by blast
  from r show ?thesis
  proof (elim disjE exE conjE)
    fix seq ps assume a: "?run = Some (Ok True, c')" "list_all is_pad_record ps"
      "page_queue canonical RingA (ac_prod_a c') (ac_page c') (recs @ ps @ [item_image seq (vn, flags, ev)])"
    then have "on_ring_a log c' (strm @ [item_image seq (vn, flags, ev)])"
      using payload_item [OF a(2) assms(2)] w(1) strm unfolding on_ring_a_def
      by (intro exI [of _ "recs @ ps @ [item_image seq (vn, flags, ev)]"]) simp
    then show ?thesis using a(1) w assms(3) unfolding agent_emit_def emitting_def by (intro exI [of _ True] exI [of _ c']) auto
  next
    assume a: "?run = Some (Ok False, c')" "page_queue canonical RingA (ac_prod_a c') (ac_page c') recs"
      "le_at 8 (ac_page c') OFF_RING_A_DROPPED_RECORDS = (le_at 8 (ac_page c) OFF_RING_A_DROPPED_RECORDS + 1 :: u64)"
      "le_at 8 (ac_page c') OFF_RING_A_DROPPED_BYTES = (le_at 8 (ac_page c) OFF_RING_A_DROPPED_BYTES + of_nat (encoded_event_len ev) :: u64)"
    then show ?thesis using w assms(3) strm False unfolding agent_emit_def emitting_def on_ring_a_def
      by (intro exI [of _ False] exI [of _ c']) auto
  qed
qed

theorem agent_emit_exact_witness:
  "\<exists>landed c'. agent_emit demo_env 7 0 (Ev_QuiesceReady 5) (fresh_agent 1 \<lparr>dw_log = [], dw_mail = []\<rparr>)
       = Some (Ok landed :: (unit, bool) res, c')
     \<and> (\<exists>seq. emitting (within (\<lambda>_. True) (\<lambda>w. length (dw_mail w)) 0) dw_log [item_image seq (7, 0, Ev_QuiesceReady 5)] c')"
proof -
  have e: "emitting (within (\<lambda>_. True) (\<lambda>w. length (dw_mail w)) 0) dw_log [] (fresh_agent 1 \<lparr>dw_log = [], dw_mail = []\<rparr>)"
    by (rule fresh_emitting) (simp_all add: within_def)
  have "event_item_ok (7, 0, Ev_QuiesceReady 5)" "EventKind_is_critical (agent_event_kind (Ev_QuiesceReady 5))"
    by (simp_all add: event_item_ok_def agent_event_kind_def EventKind_is_critical_def)
  then show ?thesis
    using agent_emit_exact [OF demo_served _ e, where ?'e = unit and vn = 7 and flags = 0 and ev = "Ev_QuiesceReady 5"] by (auto split: if_splits)
qed

text \<open>
  C14. A registration is answered exactly: only the supervised workload may register; a range that does
  not translate, a full manifest and a full extent pool are refused with their status and change
  nothing; otherwise the region is in the manifest and in the ledger, its name and its registration are
  sent in this order, and the reply carries its id and the new generation. Past 32 bits of generation
  the reply is an internal error although the manifest has gained the region.
\<close>

theorem register_exact:
  assumes served: "agent_served env winv patience log" and s: "service_ok winv log strm evs s"
    and req: "name_fits (Register fl lv nid gva len name)" "fields_ok (Register fl lv nid gva len name)"
    and tr: "never_panics translate" and h: "h = area_hdr (agent_manifest (ri_channel s))"
    and t: "t = translate (ac_world (ri_channel s)) pid gva len"
    and run: "run = (handle env translate (Register fl lv nid gva len name) pid wpid s :: (('e, reply) res \<times> 'w region_ipc) option)"
  shows "if wpid \<noteq> Some pid then run = Some (Ok (err_reply STATUS_UNKNOWN_PID), s)
     else case register_refusal h t of
        Some status \<Rightarrow> run = Some (Ok (err_reply status), s)
      | None \<Rightarrow>
          if unat (mh_generation h + 2) < 2 ^ 32
          then \<exists>xs s'. t = Ok xs
             \<and> run = Some (Ok \<lparr>rep_status = STATUS_OK, rep_region_id = mh_region_count h, rep_name_id = nid,
                               rep_manifest_generation = mh_generation h + 2\<rparr>, s')
             \<and> service_ok winv log strm (evs @ [Ev_NameIntern nid name, Ev_RegionRegister
                  \<lparr>re_region_id = mh_region_count h, re_name_id = nid, re_layout_version = lv,
                   re_manifest_generation = ucast (mh_generation h + 2)\<rparr>]) s'
             \<and> ri_records s' = ri_records s @ [\<lparr>rec_region_id = mh_region_count h, rec_name = name, rec_name_id = nid,
                  rec_layout_version = lv, rec_pid = pid, rec_gva = gva, rec_len = len, rec_extents = xs, rec_dead = False\<rparr>]
          else \<exists>s'. run = Some (Ok (err_reply STATUS_INTERNAL), s') \<and> service_ok winv log strm evs s' \<and> ri_records s' = ri_records s
             \<and> unat (mh_region_count (area_hdr (agent_manifest (ri_channel s')))) = unat (mh_region_count h) + 1"
proof (cases "wpid = Some pid")
  case False
  then show ?thesis using handle_pid [OF False] by (simp add: run)
next
  case pid: True
  have name: "length name \<le> 56" and fl: "fl AND REGION_FLAG_DEAD = 0" using req by simp_all
  have eq: "run = act_catch (handle_register env translate pid fl lv nid gva len name) (\<lambda>status. return (err_reply status)) s"
    by (simp add: run pid handle_register_eq)
  show ?thesis
  proof (cases "register_refusal h t")
    case (Some status)
    have "handle_register env translate pid fl lv nid gva len name s = Some (Err status, s)"
      by (rule register_refused [where translate = translate, OF s name t [symmetric]]) (use Some h in simp)
    then show ?thesis using Some pid by (simp add: eq act_catch_def return_def)
  next
    case None
    have "t \<noteq> Panic" using tr by (simp add: t never_panics_def)
    then obtain xs where xs: "t = Ok xs" using None by (cases t) (simp_all add: register_refusal_def)
    have t': "translate (ac_world (ri_channel s)) pid gva len = Ok xs" using t xs by simp
    show ?thesis
    proof (cases "unat (mh_generation h + 2) < 2 ^ 32")
      case True
      then show ?thesis
        using register_done [where translate = translate and pid = pid and gva = gva and len = len and nid = nid and lv = lv,
            OF served s name fl h t' None [unfolded xs] True refl refl] pid None xs
        by (auto simp: eq act_catch_def)
    next
      case False
      then show ?thesis
        using register_overflow [where translate = translate and pid = pid and gva = gva and len = len and nid = nid and lv = lv and env = env,
            OF s name fl h t' None [unfolded xs] False] pid None
        by (auto simp: eq act_catch_def return_def)
    qed
  qed
qed

theorem register_exact_witness:
  "\<exists>s'. handle demo_env demo_translate (Register 0 1 7 0x1FFE 5 [0x77]) 42 (Some 42) (demo_service [])
       = Some (Ok \<lparr>rep_status = STATUS_OK, rep_region_id = 0, rep_name_id = 7, rep_manifest_generation = 2\<rparr> :: (unit, reply) res, s')
     \<and> length (ri_records s') = 1"
proof -
  let ?s = "demo_service []"
  have h: "area_hdr (agent_manifest (ri_channel ?s)) = area_hdr fresh_area" by (simp add: demo_service_def fresh_manifest)
  have b: "demo_translate (ac_world (ri_channel ?s)) 42 0x1FFE 5 = Ok [\<lparr>ext_gpa = 0x9FFE, ext_len = 2\<rparr>, \<lparr>ext_gpa = 0x7000, ext_len = 3\<rparr>]"
    by (simp add: demo_translate_def real_translator_def build_extents_def build_loop.simps gva_to_gpa_def two_pages_def decode_entry_def
        from_le_bytes_def extend_extents_def checked_add_u64_def)
  show ?thesis
    using register_exact [OF demo_served demo_service_ok [of "[]"] _ _ demo_translate_total refl refl refl, where ?'e = unit
        and fl = 0 and lv = 1 and nid = 7 and gva = "0x1FFE" and len = 5 and name = "[0x77]" and pid = 42 and wpid = "Some 42"]
    unfolding b h fresh_view(1) by (auto simp: register_refusal_def demo_service_def)
qed

text \<open>
  C15. Re-verification is exact: a sweep over the ledger always completes and does what the specification
  on the ledger says, in the order of the ledger. A live record whose range translates as before is echoed
  with the current generation and no alarm; one whose range translates to other extents carries them,
  whenever they are not more than the old ones or the pool has room, and dies otherwise, both with the
  drift alarm; one whose range no longer translates dies with its own alarm; dead records are left alone
  and not announced. Each write raises the generation by two, and the update of a record names the
  generation reached with it. Ledger and manifest agree afterwards.
\<close>

theorem reverify_exact:
  assumes "agent_served env winv patience log" and "service_ok winv log strm evs s" and "never_panics translate"
    and "h = area_hdr (agent_manifest (ri_channel s))"
    and "reverify_ledger (translate (ac_world (ri_channel s))) (mh_generation h) (unat (mh_extent_count h)) (ri_records s) = (us, g, n)"
  shows "\<exists>s'. reverify env translate s = Some (Ok () :: ('e, unit) res, s')
     \<and> ri_records s' = map fst us \<and> ri_conns s' = ri_conns s
     \<and> service_ok winv log strm (evs @ concat (map update_events (List.map_filter snd us))) s'
     \<and> mh_generation (area_hdr (agent_manifest (ri_channel s'))) = g
     \<and> unat (mh_extent_count (area_hdr (agent_manifest (ri_channel s')))) = n"
  using reverify_ends [OF assms(1-3), where ?'e = 'e and us = us and g' = g and n' = n] assms(4,5) unfolding ends_def by auto

text \<open>A region of five bytes over two pages, and a memory that holds it beside the channel page.\<close>

definition demo_record :: region_record where
  "demo_record = \<lparr>rec_region_id = 0, rec_name = [0x77], rec_name_id = 7, rec_layout_version = 1, rec_pid = 42, rec_gva = 0x1FFE, rec_len = 5,
     rec_extents = [\<lparr>ext_gpa = 0x9FFE, ext_len = 2\<rparr>, \<lparr>ext_gpa = 0x7000, ext_len = 3\<rparr>], rec_dead = False\<rparr>"

lemma demo_registered:
  obtains m where "ledger_ok m [demo_record]" and "unat (mh_region_count (area_hdr m)) = 1" and "mh_generation (area_hdr m) = 2"
  using ledger_write [OF fresh_ledger _ _ refl _ _ refl, of "[0x77]" 0 "rec_extents demo_record" 7 1 "0x1FFE" 5 42]
  by (auto simp: fresh_view(1) demo_record_def)

text \<open>A later translation of the same range: its pages now lie behind each other.\<close>

definition demo_moved :: "demo_world \<Rightarrow> translator" where
  "demo_moved w pid gva len = (if pid = 42 then Ok [\<lparr>ext_gpa = 0x9FFE, ext_len = len\<rparr>] else Err (BeTranslate TranslateIo))"

theorem reverify_exact_witness:
  "\<exists>s s' r. ri_records s = [demo_record] \<and> r = demo_record\<lparr>rec_extents := [\<lparr>ext_gpa = 0x9FFE, ext_len = 5\<rparr>]\<rparr>
     \<and> reverify demo_env demo_moved s = Some (Ok () :: (unit, unit) res, s') \<and> ri_records s' = [r]
     \<and> service_ok (within (\<lambda>_. True) (\<lambda>w. length (dw_mail w)) 0) dw_log (Tape [] (0, 0))
          [Ev_LogLine STREAM_AGENT 0 (drift_alarm demo_record), Ev_RegionUpdate (region_event_of r 4)] s'"
proof -
  obtain m where m: "ledger_ok m [demo_record]" "mh_generation (area_hdr m) = 2" by (rule demo_registered)
  define s where "s = (demo_service [])\<lparr>ri_channel := set_manifest m (ri_channel (demo_service [])), ri_records := [demo_record]\<rparr>"
  let ?winv = "within (\<lambda>_. True) (\<lambda>w. length (dw_mail w)) 0" and ?r = "demo_record\<lparr>rec_extents := [\<lparr>ext_gpa = 0x9FFE, ext_len = 5\<rparr>]\<rparr>"
  have t: "sent ?winv dw_log (Tape [] (0, 0)) [] (ri_channel (demo_service []))" using demo_service_ok [of "[]"] by (simp add: service_ok_def)
  have am: "agent_manifest (ri_channel s) = m" unfolding s_def
    using set_manifest_facts(1) [OF sent_length [OF t] ledger_len [OF m(1)]] by simp
  have ok: "service_ok ?winv dw_log (Tape [] (0, 0)) [] s"
    using sent_set_manifest [OF t ledger_len [OF m(1)]] m(1) am by (simp add: service_ok_def s_def)
  have np: "never_panics demo_moved" by (simp add: never_panics_def demo_moved_def)
  have sw: "reverify_ledger (demo_moved w) 2 n (ri_records s)
      = ([(?r, Some (region_event_of ?r 4, Some (drift_alarm demo_record)))], 4, n)" for w n
    by (simp add: s_def reverify_step_def Let_def demo_moved_def demo_record_def)
  from reverify_exact [OF demo_served ok np refl, where ?'e = unit, unfolded am m(2), OF sw]
  obtain s' where "reverify demo_env demo_moved s = Some (Ok () :: (unit, unit) res, s')" "ri_records s' = [?r]"
    "service_ok ?winv dw_log (Tape [] (0, 0)) [Ev_LogLine STREAM_AGENT 0 (drift_alarm demo_record), Ev_RegionUpdate (region_event_of ?r 4)] s'"
    by (auto simp: List.map_filter_def)
  moreover have "ri_records s = [demo_record]" by (simp add: s_def)
  ultimately show ?thesis by blast
qed

text \<open>
  C11. A pass of the region service ends and keeps its promises: whatever the connected peers send, with
  finitely many connections and non-empty datagrams pending, and with peers that have closed and read as
  empty for ever, the pass returns, failing only when accepting a connection fails; it never panics, the ledger and the manifest agree afterwards, only events were
  added to the stream, and at most four connections stay open.
\<close>

theorem region_service_pass:
  assumes "\<forall>n. agent_served env (within winv backlog n) patience log" and "sock_ok winv log backlog sock"
    and "never_panics translate" and "service_ok (within winv backlog n) log strm evs s" and "length (ri_conns s) \<le> MAX_CONNS"
  shows "\<exists>r s' evs'. service env translate sock wpid epoll s = Some (r, s') \<and> r \<in> {Ok (), Err SysOs}
     \<and> service_ok (within winv backlog n) log strm (evs @ evs') s' \<and> length (ri_conns s') \<le> MAX_CONNS"
  using service_ends [OF assms(1) [rule_format] assms(2-5)] .

theorem region_service_pass_witness:
  "\<exists>r s' evs'. service demo_env demo_translate demo_sock (Some 42) False (demo_service [[1, 2], [], [3]]) = Some (r, s')
     \<and> service_ok (within (\<lambda>_. True) (\<lambda>w. length (dw_mail w)) 3) dw_log (Tape [] (0, 0)) evs' s'"
proof -
  have c: "length (ri_conns (demo_service ms)) \<le> MAX_CONNS" for ms by (simp add: demo_service_def)
  show ?thesis
    using region_service_pass [OF allI [OF demo_served] demo_sock_ok demo_translate_total demo_service_ok [of "[[1, 2], [], [3]]"] c,
      where wpid = "Some 42" and epoll = False] by (auto simp: numeral_3_eq_3)
qed

definition demo_memory :: "bytes \<Rightarrow> mock_guest_mem" where
  "demo_memory page = [\<lparr>seg_base = 0x10000000, seg_data = page\<rparr>, \<lparr>seg_base = 0x9FFE, seg_data = [11, 12]\<rparr>, \<lparr>seg_base = 0x7000, seg_data = [13, 14, 15]\<rparr>]"

lemma demo_memory:
  assumes "length page = CHANNEL_SIZE"
  shows "mock_inv (demo_memory page)" and "gm_read mock_ops (demo_memory page) 0x10000000 CHANNEL_SIZE = Ok page"
    and "gm_read mock_ops (demo_memory page) 0x9FFE 2 = Ok [11, 12]" and "gm_read mock_ops (demo_memory page) 0x7000 3 = Ok [13, 14, 15]"
proof -
  show inv: "mock_inv (demo_memory page)" using assms by (simp add: demo_memory_def mock_inv_def seg_fits_def seg_disjoint_def)
  have "mock_read (demo_memory page) 0x10000000 CHANNEL_SIZE = Ok (seg_window (demo_memory page ! 0) 0x10000000 CHANNEL_SIZE)"
    using assms by (intro mock_read_eq [OF inv]) (simp_all add: demo_memory_def covers_def)
  then show "gm_read mock_ops (demo_memory page) 0x10000000 CHANNEL_SIZE = Ok page"
    using assms by (simp add: mock_ops_def seg_window_def demo_memory_def)
  have "mock_read (demo_memory page) 0x9FFE 2 = Ok (seg_window (demo_memory page ! 1) 0x9FFE 2)"
    using assms by (intro mock_read_eq [OF inv]) (simp_all add: demo_memory_def covers_def)
  then show "gm_read mock_ops (demo_memory page) 0x9FFE 2 = Ok [11, 12]"
    by (simp add: mock_ops_def seg_window_def demo_memory_def)
  have "mock_read (demo_memory page) 0x7000 3 = Ok (seg_window (demo_memory page ! 2) 0x7000 3)"
    using assms by (intro mock_read_eq [OF inv]) (simp_all add: demo_memory_def covers_def)
  then show "gm_read mock_ops (demo_memory page) 0x7000 3 = Ok [13, 14, 15]"
    by (simp add: mock_ops_def seg_window_def demo_memory_def)
qed

theorem registered_region_readable_witness:
  "\<exists>page out. Channel_read_region mock_ops (fresh_channel (demo_memory page) 0x10000000 ChannelHeader_canonical) [0x77] 1 [0, 0, 0] = Ok out
     \<and> length out = 3"
proof -
  obtain m where m: "ledger_ok m [demo_record]" "unat (mh_region_count (area_hdr m)) = 1" by (rule demo_registered)
  let ?page = "patch zero_page OFF_MANIFEST m"
  let ?ch = "fresh_channel (demo_memory ?page) 0x10000000 ChannelHeader_canonical"
  have lm: "length m = 22560" using ledger_len [OF m(1)] by (simp add: area_len_def)
  then have page: "length ?page = CHANNEL_SIZE" "m = take MANIFEST_TOTAL_SIZE (drop OFF_MANIFEST ?page)"
    using length_zero_page by (simp_all add: take_drop_patch_inside)
  note mem = demo_memory [OF page(1)]
  have att: "attached mock_ops mock_inv ?ch ?page"
    using mem(1,2) canonical_valid canonical_descs by (simp add: attached_def fresh_channel_def)
  have "\<forall>j < 64. 1 \<le> j \<longrightarrow> area_slot m j = blank_entry" using m by (simp add: ledger_ok_def)
  moreover have "name_bytes blank_entry = []" by (simp add: blank_entry_def name_bytes_def entry_parse_def)
  ultimately have "j = 0" if "j < 64" "name_bytes (area_slot m j) = [0x77]" for j using that by (cases j) auto
  then have uniq: "name_unique m demo_record" by (auto simp: name_unique_def demo_record_def record_slot_def)
  have ext: "build_extents (gva_to_gpa two_pages) (rec_gva demo_record) (rec_len demo_record) = Ok (rec_extents demo_record)"
    by (simp add: demo_record_def build_extents_def build_loop.simps gva_to_gpa_def two_pages_def decode_entry_def from_le_bytes_def
        extend_extents_def checked_add_u64_def)
  have map: "extents_mapped mock_ops (c_gm ?ch) (rec_extents demo_record) [[11, 12], [13, 14, 15]]"
    using mem(3,4) by (simp add: extents_mapped_def fresh_channel_def demo_record_def)
  show ?thesis
    using registered_region_readable [OF mock.guest_memory_axioms att page(2) m(1) _ _ _ uniq ext map, of 1 "[0, 0, 0]"]
    by (auto simp: demo_record_def numeral_3_eq_3)
qed

end
