(* ===== verification/Agent_Duty.thy ===== *)
theory Agent_Duty
  imports Agent_Supervise Agent_Promises
begin

text \<open>
  What the supervisor's operations guarantee against a host that serves the channel: each returns, and sends
  exactly the events the protocol lists. \<open>tended\<close> is the frame of an operation that only emits and calls the
  system; \<open>keeps\<close> says of a system call that it leaves the channel's peer alone. \<open>spawned\<close> specifies the start of a
  unit, and \<open>command_done\<close> puts the contracts of the commands together.
\<close>

section \<open>Steps\<close>

abbreviation chan :: "'w supervisor \<Rightarrow> 'w agent_channel" where
  "chan s \<equiv> ri_channel (sv_ipc s)"

definition tended :: "'w supervisor \<Rightarrow> 'w supervisor \<Rightarrow> bool" where
  "tended s s' \<longleftrightarrow> s' = s\<lparr>sv_ipc := sv_ipc s'\<rparr> \<and> ri_conns (sv_ipc s') = ri_conns (sv_ipc s)
     \<and> ri_records (sv_ipc s') = ri_records (sv_ipc s) \<and> calm (chan s) (chan s')"

lemma tended_refl: "tended s s"
  by (simp add: tended_def calm_refl)

lemma tended_trans: "tended a b \<Longrightarrow> tended b c \<Longrightarrow> tended a c"
  unfolding tended_def by (metis calm_trans supervisor.surjective supervisor.update_convs(1))

lemma tended_fields:
  assumes "tended s s'"
  shows "sv_bound s' = sv_bound s" "sv_manifest s' = sv_manifest s" "sv_workload s' = sv_workload s" "sv_log_mask s' = sv_log_mask s"
    "sv_shutdown s' = sv_shutdown s" "sv_control s' = sv_control s" "sv_forced_token s' = sv_forced_token s"
    "agent_manifest (chan s') = agent_manifest (chan s)"
proof -
  have s': "s' = s\<lparr>sv_ipc := sv_ipc s'\<rparr>" and c: "calm (chan s) (chan s')" using assms by (simp_all add: tended_def)
  show "agent_manifest (chan s') = agent_manifest (chan s)" using c by (simp add: calm_def)
qed (subst assms [unfolded tended_def, THEN conjunct1], simp)+

definition keeps :: "('w \<Rightarrow> bool) \<Rightarrow> ('w \<Rightarrow> bytes list) \<Rightarrow> ('w \<Rightarrow> 'w) \<Rightarrow> bool" where
  "keeps winv log f \<longleftrightarrow> (\<forall>w. winv w \<longrightarrow> winv (f w) \<and> log (f w) = log w)"

abbreviation told :: "('w \<Rightarrow> bool) \<Rightarrow> ('w \<Rightarrow> bytes list) \<Rightarrow> tape \<Rightarrow> event_payload list \<Rightarrow> 'w supervisor \<Rightarrow> bool" where
  "told winv log strm evs s \<equiv> sent winv log strm evs (chan s)"

lemma told_world: "told winv log strm evs s \<Longrightarrow> winv (ac_world (chan s))"
  by (auto simp: sent_def emitting_def)

lemma sys_told:
  assumes "told winv log strm evs s" "f (ac_world (chan s)) = (a, w)" "winv' w" "log w = log (ac_world (chan s))"
  shows "ends (sys f) (\<lambda>x s'. x = a \<and> tended s s' \<and> told winv' log strm evs s' \<and> ac_world (chan s') = w) s"
  using assms(2) sent_world [OF assms(1), of winv' w] assms(3,4)
  by (simp add: ends_def sys_def on_ipc_def zoom_def in_world_def tended_def calm_def agent_manifest_def)

lemma sys_do_told:
  assumes "keeps winv log f" "told winv log strm evs s"
  shows "ends (sys_do f) (\<lambda>_ s'. tended s s' \<and> told winv log strm evs s') s"
  using sys_told [OF assms(2), of "\<lambda>w. ((), f w)" "()" "f (ac_world (chan s))" winv] assms(1) told_world [OF assms(2)]
  unfolding sys_do_def keeps_def by (auto elim: ends_mono)

lemma sys_keeps:
  assumes "keeps winv log (snd \<circ> f)" "told winv log strm evs s"
  shows "ends (sys f) (\<lambda>x s'. x = fst (f (ac_world (chan s))) \<and> tended s s' \<and> told winv log strm evs s') s"
  using sys_told [OF assms(2), of f "fst (f (ac_world (chan s)))" "snd (f (ac_world (chan s)))" winv] assms(1) told_world [OF assms(2)]
  unfolding keeps_def by (auto elim: ends_mono)

lemma emit_told:
  assumes "agent_served env winv patience log" "event_item_ok (0, 0, ev)" "told winv log strm evs s"
  shows "ends (on_chan (emit_now env ev) :: ('w supervisor, 'e, unit) act) (\<lambda>_ s'. tended s s' \<and> told winv log strm (evs @ [ev]) s') s"
    and "ends (on_chan (emit_ring_now env ev) :: ('w supervisor, 'e, unit) act) (\<lambda>_ s'. tended s s' \<and> told winv log strm (evs @ [ev]) s') s"
  unfolding on_chan_def on_ipc_def on_channel_def ends_zoom
  by (rule ends_mono [OF emit_now_ends(1) [OF assms]], simp add: tended_def)
     (rule ends_mono [OF emit_now_ends(2) [OF assms]], simp add: tended_def)

text \<open>System calls, exactly.\<close>

definition push_world :: "'w \<Rightarrow> 'w supervisor \<Rightarrow> 'w supervisor" where
  "push_world w s = s\<lparr>sv_ipc := (sv_ipc s)\<lparr>ri_channel := (chan s)\<lparr>ac_world := w\<rparr>\<rparr>\<rparr>"

lemma sys_eq: "sys f s = Some (Ok (fst (f (ac_world (chan s)))), push_world (snd (f (ac_world (chan s)))) s)"
  by (simp add: sys_def on_ipc_def zoom_def in_world_def push_world_def split: prod.splits)

lemma sys_do_eq: "sys_do f s = Some (Ok (), push_world (f (ac_world (chan s))) s)"
  by (simp add: sys_do_def sys_eq)

lemma pushed [simp]:
  "ac_world (chan (push_world w s)) = w" "sv_workload (push_world w s) = sv_workload s"
  "ac_page (chan (push_world w s)) = ac_page (chan s)" "ac_vnanos (chan (push_world w s)) = ac_vnanos (chan s)" "push_world w' (push_world w s) = push_world w' s"
  "sv_workload_update f (push_world w s) = push_world w (sv_workload_update f s)"
  "sv_shutdown_update g (push_world w s) = push_world w (sv_shutdown_update g s)"
  by (simp_all add: push_world_def)

lemma told_push: "told winv log strm evs s \<Longrightarrow> winv w \<Longrightarrow> log w = log (ac_world (chan s)) \<Longrightarrow> told winv log strm evs (push_world w s)"
  by (simp add: push_world_def sent_world)

lemma told_fields [simp]:
  "told winv log strm evs (sv_workload_update f s) = told winv log strm evs s" "told winv log strm evs (sv_shutdown_update g s) = told winv log strm evs s"
  "told winv log strm evs (sv_control_update h s) = told winv log strm evs s" "told winv log strm evs (sv_log_mask_update k s) = told winv log strm evs s"
  "told winv log strm evs (sv_forced_token_update l s) = told winv log strm evs s"
  by simp_all

lemma pushed_whole: "push_world w s = s\<lparr>sv_ipc := sv_ipc (push_world w s)\<rparr>"
  by (simp add: push_world_def)

lemma log_item: "event_item_ok (0, 0, Ev_LogLine stream level line)" "event_item_ok (0, 0, Ev_WorkloadStarted p u)"
    "event_item_ok (0, 0, Ev_WorkloadExited p c t)" "event_item_ok (0, 0, Ev_QuiesceReady token)" "event_item_ok (0, 0, Ev_Ready u n g)"
    "event_item_ok (0, 0, Ev_RegionRegister r)"
  by (simp_all add: event_item_ok_def)

section \<open>Starting a unit\<close>

definition spawns :: "('w \<Rightarrow> bool) \<Rightarrow> ('w \<Rightarrow> bytes list) \<Rightarrow> 'w sup_env \<Rightarrow> bool" where
  "spawns winv log env \<longleftrightarrow>
     keeps winv log (snd \<circ> se_pipe env) \<and> (\<forall>w. winv w \<longrightarrow> fst (se_pipe env w) \<noteq> None) \<and>
     (\<forall>ch. keeps winv log (snd \<circ> se_fork env ch)) \<and> (\<forall>ch w. winv w \<longrightarrow> fst (se_fork env ch w) \<noteq> None) \<and>
     (\<forall>fd k. keeps winv log (snd \<circ> se_dupfd env fd k)) \<and> (\<forall>fd k w. winv w \<longrightarrow> fst (se_dupfd env fd k w) \<noteq> None) \<and>
     (\<forall>fd. keeps winv log (se_close env fd) \<and> keeps winv log (se_nonblock env fd)) \<and> (\<forall>fd tok. keeps winv log (se_epoll_add env fd tok))"

definition runnable :: "boot_unit \<Rightarrow> bool" where
  "runnable u \<longleftrightarrow> 0 \<notin> set (str_bytes (bu_exec u)) \<and> list_all (\<lambda>a. 0 \<notin> set (str_bytes a)) (bu_args u)"

lemma cstrings_ok: "list_all (\<lambda>a. 0 \<notin> set a) as \<Longrightarrow> cstrings as = Ok as"
  by (induction "as") (simp_all add: cstring_def)

text \<open>A step that leaves the stream as it was, seen from an earlier state.\<close>

abbreviation idle :: "('w \<Rightarrow> bool) \<Rightarrow> ('w \<Rightarrow> bytes list) \<Rightarrow> tape \<Rightarrow> event_payload list \<Rightarrow> 'w supervisor \<Rightarrow> 'w supervisor \<Rightarrow> bool" where
  "idle winv log strm evs s s' \<equiv> tended s s' \<and> told winv log strm evs s'"

lemma sys_do_then:
  assumes "keeps winv log f" "idle winv log strm evs s t" "\<And>u. idle winv log strm evs s u \<Longrightarrow> ends (g ()) Q u"
  shows "ends (act_bind (sys_do f) g) Q t"
  by (rule ends_then [OF sys_do_told [OF assms(1) conjunct2 [OF assms(2)]]]) (use assms(2,3) tended_trans in auto)

lemma sys_then:
  assumes "keeps winv log (snd \<circ> f)" "idle winv log strm evs s t" "\<forall>w. winv w \<longrightarrow> fst (f w) \<noteq> None"
    "\<And>x u. idle winv log strm evs s u \<Longrightarrow> ends (g (Some x)) Q u"
  shows "ends (act_bind (sys f) g) Q t"
proof (rule ends_then [OF sys_keeps [OF assms(1) conjunct2 [OF assms(2)]]])
  fix a u assume a: "a = fst (f (ac_world (chan t))) \<and> tended t u \<and> told winv log strm evs u"
  have "a \<noteq> None" using a assms(3) told_world [OF conjunct2 [OF assms(2)]] by simp
  then obtain x where "a = Some x" by blast
  then show "ends (g a) Q u" using assms(4) a assms(2) tended_trans by blast
qed

text \<open>
  A unit is spawned without a control socket: the workload and the world after the two pipes, the fork of a child that
  executes the unit's program with the program and its arguments as argument vector, the channel and the write ends of
  the pipes as its descriptors, and the agent's bookkeeping of the read ends.
\<close>

definition spawned :: "'w sup_env \<Rightarrow> boot_unit \<Rightarrow> 'w \<Rightarrow> (workload \<times> 'w) option" where
  "spawned env u w =
     (case se_pipe env w of
        (Some (out_r, out_w), w1) \<Rightarrow>
          (case se_pipe env w1 of
             (Some (err_r, err_w), w2) \<Rightarrow>
               (case se_fork env \<lparr>ch_exec = str_bytes (bu_exec u), ch_argv = map str_bytes (bu_exec u # bu_args u),
                    ch_channel_fd = se_channel_fd env, ch_control_fd = None, ch_stdout = out_w, ch_stderr = err_w\<rparr> w2 of
                  (Some pid, w3) \<Rightarrow>
                    Some (\<lparr>wl_pid = pid, wl_unit = bu_id u, wl_stdout = out_r, wl_stderr = err_r, wl_outbuf = LineBuf_default,
                           wl_errbuf = LineBuf_default, wl_stopped = False\<rparr>,
                      se_epoll_add env err_r TOK_ERR (se_epoll_add env out_r TOK_OUT
                        (se_nonblock env err_r (se_nonblock env out_r (se_close env err_w (se_close env out_w w3))))))
                | (None, _) \<Rightarrow> None)
           | (None, _) \<Rightarrow> None)
      | (None, _) \<Rightarrow> None)"

lemma spawned_some:
  assumes sp: "spawns winv log env" and w: "winv w"
  obtains wl v where "spawned env u w = Some (wl, v)" and "winv v" and "log v = log w"
proof -
  let ?child = "\<lambda>out err. \<lparr>ch_exec = str_bytes (bu_exec u), ch_argv = map str_bytes (bu_exec u # bu_args u),
      ch_channel_fd = se_channel_fd env, ch_control_fd = None, ch_stdout = out, ch_stderr = err\<rparr>"
  have k: "keeps winv log (snd \<circ> se_pipe env)" "\<And>w. winv w \<Longrightarrow> fst (se_pipe env w) \<noteq> None"
      "\<And>ch. keeps winv log (snd \<circ> se_fork env ch)" "\<And>ch w. winv w \<Longrightarrow> fst (se_fork env ch w) \<noteq> None"
    using sp by (simp_all add: spawns_def)
  have pipe: "\<exists>r t w'. se_pipe env w = (Some (r, t), w') \<and> winv w' \<and> log w' = log w" if "winv w" for w
    using k(1) k(2) [OF that] that by (cases "se_pipe env w") (auto simp: keeps_def)
  have fork: "\<exists>pid w'. se_fork env ch w = (Some pid, w') \<and> winv w' \<and> log w' = log w" if "winv w" for ch w
    using k(3) [of ch] k(4) [OF that, of ch] that by (cases "se_fork env ch w") (auto simp: keeps_def)
  obtain out_r out_w w1 where w1: "se_pipe env w = (Some (out_r, out_w), w1)" "winv w1" "log w1 = log w" using pipe [OF w] by blast
  obtain err_r err_w w2 where w2: "se_pipe env w1 = (Some (err_r, err_w), w2)" "winv w2" "log w2 = log w1" using pipe [OF w1(2)] by blast
  obtain pid w3 where w3: "se_fork env (?child out_w err_w) w2 = (Some pid, w3)" "winv w3" "log w3 = log w2" using fork [OF w2(2)] by blast
  have quiet: "keeps winv log (se_close env fd)" "keeps winv log (se_nonblock env fd)" "keeps winv log (se_epoll_add env fd tok)" for fd tok
    using sp by (simp_all add: spawns_def)
  define v where "v = se_epoll_add env err_r TOK_ERR (se_epoll_add env out_r TOK_OUT
    (se_nonblock env err_r (se_nonblock env out_r (se_close env err_w (se_close env out_w w3)))))"
  have "winv v" "log v = log w" using w1(3) w2(3) w3(2,3) quiet by (simp_all add: v_def keeps_def)
  moreover have "\<exists>wl. spawned env u w = Some (wl, v)" using w1(1) w2(1) w3(1) by (simp add: spawned_def v_def)
  ultimately show ?thesis using that by blast
qed

lemma spawn_start:
  assumes u: "runnable u" and sp: "spawned env u (ac_world (chan s)) = Some (wl, v)"
  shows "act_bind (spawn env u None) (\<lambda>w.
       act_bind (sys_do (se_epoll_add env (wl_stdout w) TOK_OUT)) (\<lambda>_. act_bind (sys_do (se_epoll_add env (wl_stderr w) TOK_ERR)) (\<lambda>_. g w))) s
     = g wl (push_world v s)"
proof -
  have c: "cstring (str_bytes (bu_exec u)) = Ok (str_bytes (bu_exec u))" "cstrings (map str_bytes (bu_args u)) = Ok (map str_bytes (bu_args u))"
    using u by (simp_all add: runnable_def cstring_def list_all_iff cstrings_ok)
  let ?child = "\<lambda>out err. \<lparr>ch_exec = str_bytes (bu_exec u), ch_argv = map str_bytes (bu_exec u # bu_args u),
      ch_channel_fd = se_channel_fd env, ch_control_fd = None, ch_stdout = out, ch_stderr = err\<rparr>"
  obtain out_r out_w w1 err_r err_w w2 pid w3 where w: "se_pipe env (ac_world (chan s)) = (Some (out_r, out_w), w1)"
      "se_pipe env w1 = (Some (err_r, err_w), w2)" "se_fork env (?child out_w err_w) w2 = (Some pid, w3)"
    using sp by (auto simp: spawned_def split: option.splits prod.splits)
  have v: "wl = \<lparr>wl_pid = pid, wl_unit = bu_id u, wl_stdout = out_r, wl_stderr = err_r, wl_outbuf = LineBuf_default,
        wl_errbuf = LineBuf_default, wl_stopped = False\<rparr>"
      "v = se_epoll_add env err_r TOK_ERR (se_epoll_add env out_r TOK_OUT
        (se_nonblock env err_r (se_nonblock env out_r (se_close env err_w (se_close env out_w w3)))))"
    using sp w by (simp_all add: spawned_def)
  show ?thesis
    using w c by (simp add: v spawn_def act_bind_def sys_eq sys_do_eq of_res_def dup_channel_def close_dup_def return_def)
qed

text \<open>
  A started unit: it has been spawned, its log mask is in force, it is the workload, and it has been announced with the
  child's process id.
\<close>

definition started :: "('w \<Rightarrow> bool) \<Rightarrow> ('w \<Rightarrow> bytes list) \<Rightarrow> tape \<Rightarrow> event_payload list \<Rightarrow> 'w sup_env \<Rightarrow> boot_unit \<Rightarrow> 'w supervisor \<Rightarrow> 'w supervisor \<Rightarrow> bool" where
  "started winv log strm evs env u s s' \<longleftrightarrow> (\<exists>w v t. spawned env u (ac_world (chan s)) = Some (w, v)
     \<and> t = push_world v (s\<lparr>sv_log_mask := bu_log_mask u, sv_workload := Some w\<rparr>)
     \<and> on_chan (emit_now (se_agent env) (Ev_WorkloadStarted (of_int (wl_pid w)) (bu_id u))) t = Some (Ok () :: (sys_error, unit) res, s')
     \<and> told winv log strm (evs @ [Ev_WorkloadStarted (of_int (wl_pid w)) (bu_id u)]) s' \<and> tended t s')"

lemma tended_workload: "tended s t \<Longrightarrow> tended (s\<lparr>sv_workload := w\<rparr>) (t\<lparr>sv_workload := w\<rparr>)"
  unfolding tended_def by (cases s; cases t) simp

lemma start_unit_runs:
  assumes served: "agent_served (se_agent env) winv patience log" and sp: "spawns winv log env" and s: "told winv log strm evs s"
    and free: "sv_workload s = None" and u: "BootManifest_unit (sv_manifest s) i = Some u" "runnable u"
  shows "ends (start_unit_inner env i None) (\<lambda>_ s'. started winv log strm evs env u s s') s"
proof -
  let ?s = "s\<lparr>sv_log_mask := bu_log_mask u\<rparr>"
  obtain wl v where v: "spawned env u (ac_world (chan s)) = Some (wl, v)" "winv v" "log v = log (ac_world (chan s))"
    by (rule spawned_some [OF sp told_world [OF s]])
  have unit: "wl_unit wl = bu_id u" using v(1) by (auto simp: spawned_def split: option.splits prod.splits)
  let ?t = "push_world v (s\<lparr>sv_log_mask := bu_log_mask u, sv_workload := Some wl\<rparr>)"
  have "told winv log strm evs ?t" using s v(2,3) by (intro told_push) simp_all
  from emit_told(1) [OF served log_item(2) this] obtain s' where
    s': "on_chan (emit_now (se_agent env) (Ev_WorkloadStarted (of_int (wl_pid wl)) (bu_id u))) ?t = Some (Ok () :: (sys_error, unit) res, s')"
      "tended ?t s'" "told winv log strm (evs @ [Ev_WorkloadStarted (of_int (wl_pid wl)) (bu_id u)]) s'"
    by (auto simp: ends_def)
  have "start_unit_inner env i None s = act_bind (spawn env u None) (\<lambda>w.
       act_bind (sys_do (se_epoll_add env (wl_stdout w) TOK_OUT)) (\<lambda>_. act_bind (sys_do (se_epoll_add env (wl_stderr w) TOK_ERR)) (\<lambda>_.
       act_bind (set_workload (Some w)) (\<lambda>_. on_chan (emit_now (se_agent env) (Ev_WorkloadStarted (of_int (wl_pid w)) (wl_unit w))))))) ?s"
    using free u(1) by (simp add: start_unit_inner_def act_bind_def gets_def of_res_def ok_or_def modify_def)
  also have "\<dots> = act_bind (set_workload (Some wl)) (\<lambda>_. on_chan (emit_now (se_agent env) (Ev_WorkloadStarted (of_int (wl_pid wl)) (wl_unit wl))))
      (push_world v ?s)"
    by (rule spawn_start [OF u(2)]) (use v(1) in simp)
  also have "\<dots> = Some (Ok (), s')" using s'(1) unit by (simp add: act_bind_def set_workload_def modify_def)
  finally have "start_unit_inner env i None s = Some (Ok (), s')" .
  then show ?thesis using v(1) s' unfolding ends_def started_def by blast
qed

section \<open>Output\<close>

definition shown :: "u32 \<Rightarrow> u8 \<Rightarrow> u8 \<Rightarrow> bytes list \<Rightarrow> event_payload list" where
  "shown msk stream level lines = (if msk AND push_bit (unat level) 1 = 0 then [] else map (Ev_LogLine stream level) lines)"

lemma shown_append: "shown msk stream level (xs @ ys) = shown msk stream level xs @ shown msk stream level ys"
  by (simp add: shown_def)

lemma emit_lines_runs:
  assumes "agent_served (se_agent env) winv patience log" "told winv log strm evs s"
  shows "ends (emit_lines env stream level lines) (\<lambda>_ s'. idle winv log strm (evs @ shown (sv_log_mask s) stream level lines) s s') s"
proof -
  have "ends (for_each lines (\<lambda>line. on_chan (emit_now (se_agent env) (Ev_LogLine stream level line))))
      (\<lambda>_ s'. idle winv log strm (evs @ map (Ev_LogLine stream level) lines) s s') s"
  proof (rule ends_for_each_trace [where I = "\<lambda>done s'. idle winv log strm (evs @ map (Ev_LogLine stream level) done) s s'"])
    fix pre line t assume t: "idle winv log strm (evs @ map (Ev_LogLine stream level) pre) s t"
    show "ends (on_chan (emit_now (se_agent env) (Ev_LogLine stream level line)))
        (\<lambda>_ s'. idle winv log strm (evs @ map (Ev_LogLine stream level) (pre @ [line])) s s') t"
      by (rule ends_mono [OF emit_told(1) [OF assms(1) log_item(1) conjunct2 [OF t]]]) (use t tended_trans in auto)
  qed (use assms(2) tended_refl in simp)
  then show ?thesis using assms(2) tended_refl by (auto simp: emit_lines_def shown_def ends_rules)
qed

primrec feed_all :: "u64 \<Rightarrow> bytes list \<Rightarrow> workload \<Rightarrow> bytes list \<times> workload" where
  "feed_all which [] w = ([], w)"
| "feed_all which (c # cs) w = (case feed which c w of (ls, w) \<Rightarrow> (case feed_all which cs w of (ls', w) \<Rightarrow> (ls @ ls', w)))"

text \<open>A pipe with what is left in it.\<close>

definition piped :: "('w \<Rightarrow> bool) \<Rightarrow> ('w \<Rightarrow> bytes list) \<Rightarrow> ('w \<Rightarrow> bytes) \<Rightarrow> nat \<Rightarrow> 'w sup_env \<Rightarrow> bool" where
  "piped winv log left fd env \<longleftrightarrow> (\<forall>w. winv w \<longrightarrow> (\<exists>k w'. se_read env fd 4096 w = (take k (left w), w') \<and> (left w \<noteq> [] \<longrightarrow> 0 < k)
     \<and> winv w' \<and> log w' = log w \<and> left w' = drop k (left w)))"

lemma drain_loop_runs:
  assumes served: "\<And>p. agent_served (se_agent env) (\<lambda>w. winv w \<and> left w = p) patience log" and pipe: "piped winv log left fd env"
  shows "sv_workload s = Some w \<Longrightarrow> told (\<lambda>w. winv w \<and> left w = p) log strm evs s \<Longrightarrow>
    ends (drain_pipe_loop env which fd stream level) (\<lambda>_ s'. \<exists>chunks lines w'. concat chunks = p \<and> feed_all which chunks w = (lines, w')
       \<and> tended (s\<lparr>sv_workload := Some w'\<rparr>) s' \<and> told (\<lambda>w. winv w \<and> left w = []) log strm (evs @ shown (sv_log_mask s) stream level lines) s') s"
proof (induction "length p" arbitrary: p s w evs rule: less_induct)
  case less
  let ?w = "ac_world (chan s)"
  have w: "winv ?w" "left ?w = p" using told_world [OF less.prems(2)] by simp_all
  then obtain k w1 where r: "se_read env fd 4096 ?w = (take k p, w1)" "p \<noteq> [] \<longrightarrow> 0 < k" "winv w1" "log w1 = log ?w" "left w1 = drop k p"
    using pipe unfolding piped_def by blast
  define i where "i = (sv_ipc s)\<lparr>ri_channel := (chan s)\<lparr>ac_world := w1\<rparr>\<rparr>"
  have read: "in_world (se_read env fd 4096) (sv_ipc s) = (take k p, i)" using r(1) by (simp add: in_world_def i_def)
  let ?s = "s\<lparr>sv_ipc := i\<rparr>"
  have s1: "tended s ?s" "told (\<lambda>w. winv w \<and> left w = drop k p) log strm evs ?s"
    using sent_world [OF less.prems(2), of "\<lambda>w. winv w \<and> left w = drop k p" w1] r(3,4,5)
    by (simp_all add: tended_def i_def calm_def agent_manifest_def)
  show ?case
  proof (cases "p = []")
    case True
    then have "drain_pipe_loop env which fd stream level s = Some (Ok (), ?s)" by (simp add: drain_pipe_loop.simps [of env which fd stream level s] read)
    moreover have "tended (s\<lparr>sv_workload := Some w\<rparr>) ?s"
    proof -
      have "s\<lparr>sv_workload := Some w\<rparr> = s" using less.prems(1) by (cases s) simp
      then show ?thesis using s1(1) by simp
    qed
    moreover have "told (\<lambda>w. winv w \<and> left w = []) log strm (evs @ shown (sv_log_mask s) stream level []) ?s"
      using s1(2) True by (simp add: shown_def)
    ultimately show ?thesis unfolding ends_def True
      by (intro exI [of _ "()"] exI [of _ ?s] conjI exI [of _ "[]"] exI [of _ "[] :: bytes list"] exI [of _ w]) simp_all
  next
    case False
    obtain ls w2 where f: "feed which (take k p) w = (ls, w2)" by fastforce
    let ?t = "?s\<lparr>sv_workload := Some w2\<rparr>"
    have "told (\<lambda>w. winv w \<and> left w = drop k p) log strm evs ?t" using s1(2) by simp
    from emit_lines_runs [OF served this, of stream level ls] obtain u where
      u: "emit_lines env stream level ls ?t = Some (Ok (), u)" "tended ?t u" "told (\<lambda>w. winv w \<and> left w = drop k p) log strm (evs @ shown (sv_log_mask s) stream level ls) u"
      by (auto simp: ends_def)
    have step: "drain_pipe_loop env which fd stream level s = drain_pipe_loop env which fd stream level u"
      using False r(2) less.prems(1) f u(1) by (simp add: drain_pipe_loop.simps [of env which fd stream level s] read)
    have uw: "sv_workload u = Some w2" "sv_log_mask u = sv_log_mask s" using tended_fields [OF u(2)] by simp_all
    have lt: "length (drop k p) < length p" using False r(2) by simp
    from less.hyps [OF lt uw(1) u(3)] obtain s' chunks lines w' where
      fin: "drain_pipe_loop env which fd stream level u = Some (Ok (), s')" "concat chunks = drop k p" "feed_all which chunks w2 = (lines, w')"
        "tended (u\<lparr>sv_workload := Some w'\<rparr>) s'"
        "told (\<lambda>w. winv w \<and> left w = []) log strm ((evs @ shown (sv_log_mask s) stream level ls) @ shown (sv_log_mask s) stream level lines) s'"
      unfolding ends_def uw(2) by auto
    have "tended (?s\<lparr>sv_workload := Some w'\<rparr>) (u\<lparr>sv_workload := Some w'\<rparr>)" using tended_workload [OF u(2), of "Some w'"] by simp
    then have "tended (s\<lparr>sv_workload := Some w'\<rparr>) s'"
      using tended_trans [OF tended_trans [OF tended_workload [OF s1(1)]] fin(4)] by blast
    moreover have "concat (take k p # chunks) = p" using fin(2) by simp
    moreover have "feed_all which (take k p # chunks) w = (ls @ lines, w')" using f fin(3) by simp
    ultimately show ?thesis using fin(1,5) unfolding ends_def step
      by (intro exI [of _ "()"] exI [of _ s'] conjI exI [of _ "take k p # chunks"] exI [of _ "ls @ lines"] exI [of _ w'])
         (simp_all add: shown_append)
  qed
qed

section \<open>Children\<close>

lemma stop_acknowledged:
  assumes "agent_served (se_agent env) winv patience log" "told winv log strm evs s" "wifstopped status"
  shows "ends (handle_child_status env pid status) (\<lambda>_ s'. tended (s\<lparr>sv_workload := map_option (\<lambda>w. w\<lparr>wl_stopped := True\<rparr>) (sv_workload s)\<rparr>) s'
     \<and> told winv log strm (evs @ [Ev_QuiesceReady (sv_forced_token s)]) s') s"
  using emit_told(2) [OF assms(1) log_item(4), of strm evs "s\<lparr>sv_workload := map_option (\<lambda>w. w\<lparr>wl_stopped := True\<rparr>) (sv_workload s)\<rparr>"] assms(2,3)
  by (simp add: handle_child_status_def ends_rules)

text \<open>What the pipes of an exited workload hold, and what becomes of it.\<close>

definition emptied :: "('w \<Rightarrow> bool) \<Rightarrow> (nat \<Rightarrow> 'w \<Rightarrow> bytes) \<Rightarrow> workload \<Rightarrow> bytes \<Rightarrow> bytes \<Rightarrow> 'w \<Rightarrow> bool" where
  "emptied winv left w p q = (\<lambda>v. (winv v \<and> left (wl_stdout w) v = p) \<and> left (wl_stderr w) v = q)"

definition exit_events :: "u32 \<Rightarrow> workload \<Rightarrow> bytes list \<Rightarrow> bytes list \<Rightarrow> event_payload list" where
  "exit_events msk w outs errs =
     (case feed_all TOK_OUT outs w of (ol, w) \<Rightarrow> (case feed_all TOK_ERR errs w of (el, w) \<Rightarrow>
        shown msk STREAM_STDOUT STDOUT_LEVEL ol @ shown msk STREAM_STDERR STDERR_LEVEL el
        @ shown msk STREAM_STDOUT STDOUT_LEVEL (fst (LineBuf_finish (wl_outbuf w)))
        @ shown msk STREAM_STDERR STDERR_LEVEL (fst (LineBuf_finish (wl_errbuf w)))))"

definition exit_status :: "u32 \<Rightarrow> i32 \<times> i32" where
  "exit_status status = (if wifexited status then (wexitstatus status, 0) else (- 1, wtermsig status))"

lemma feed_all_fds: "feed_all which cs w = (ls, w') \<Longrightarrow> wl_stdout w' = wl_stdout w \<and> wl_stderr w' = wl_stderr w"
proof (induction cs arbitrary: w ls)
  case (Cons c cs)
  obtain ls1 w1 where f: "feed which c w = (ls1, w1)" by fastforce
  then have "wl_stdout w1 = wl_stdout w \<and> wl_stderr w1 = wl_stderr w" by (auto simp: feed_def split: if_splits prod.splits)
  then show ?case using Cons f by (auto split: prod.splits)
qed simp

definition exit_world :: "('w \<Rightarrow> bool) \<Rightarrow> ('w \<Rightarrow> bytes list) \<Rightarrow> (nat \<Rightarrow> 'w \<Rightarrow> bytes) \<Rightarrow> workload \<Rightarrow> ('w \<Rightarrow> nat) \<Rightarrow> 'w sup_env \<Rightarrow> bool" where
  "exit_world winv log left w patience env \<longleftrightarrow>
     (\<forall>p q. agent_served (se_agent env) (emptied winv left w p q) patience log) \<and>
     (\<forall>q. piped (\<lambda>v. winv v \<and> left (wl_stderr w) v = q) log (left (wl_stdout w)) (wl_stdout w) env) \<and>
     (\<forall>p. piped (\<lambda>v. winv v \<and> left (wl_stdout w) v = p) log (left (wl_stderr w)) (wl_stderr w) env) \<and>
     (\<forall>fd. keeps (emptied winv left w [] []) log (se_close env fd) \<and> keeps (emptied winv left w [] []) log (se_epoll_del env fd))"

definition drained ::
  "('w \<Rightarrow> bool) \<Rightarrow> ('w \<Rightarrow> bytes list) \<Rightarrow> (nat \<Rightarrow> 'w \<Rightarrow> bytes) \<Rightarrow> workload \<Rightarrow> tape \<Rightarrow> event_payload list \<Rightarrow> bytes \<Rightarrow> bytes
    \<Rightarrow> 'w supervisor \<Rightarrow> 'w supervisor \<Rightarrow> bool" where
  "drained winv log left w strm evs p q s s' \<longleftrightarrow> (\<exists>outs errs ol el w1 w2. concat outs = p \<and> concat errs = q
     \<and> feed_all TOK_OUT outs w = (ol, w1) \<and> feed_all TOK_ERR errs w1 = (el, w2) \<and> tended (s\<lparr>sv_workload := Some w2\<rparr>) s'
     \<and> told (emptied winv left w [] []) log strm (evs @ shown (sv_log_mask s) STREAM_STDOUT STDOUT_LEVEL ol
          @ shown (sv_log_mask s) STREAM_STDERR STDERR_LEVEL el) s')"

lemma drain_out_runs:
  assumes ex: "exit_world winv log left w patience env" and w: "sv_workload s = Some w" and t: "told (emptied winv left w p q) log strm evs s"
  shows "ends (drain_pipe env TOK_OUT) (\<lambda>_ s'. \<exists>outs ol w1. concat outs = p \<and> feed_all TOK_OUT outs w = (ol, w1)
    \<and> tended (s\<lparr>sv_workload := Some w1\<rparr>) s' \<and> told (emptied winv left w [] q) log strm (evs @ shown (sv_log_mask s) STREAM_STDOUT STDOUT_LEVEL ol) s') s"
proof -
  have o: "emptied winv left w p q = (\<lambda>v. (winv v \<and> left (wl_stderr w) v = q) \<and> left (wl_stdout w) v = p)" for p q
    by (auto simp: emptied_def)
  have served: "agent_served (se_agent env) (emptied winv left w p q) patience log" for p q using ex by (simp add: exit_world_def)
  have pipe: "piped (\<lambda>v. winv v \<and> left (wl_stderr w) v = q) log (left (wl_stdout w)) (wl_stdout w) env"
    using ex by (simp add: exit_world_def)
  have "drain_pipe env TOK_OUT s = drain_pipe_loop env TOK_OUT (wl_stdout w) STREAM_STDOUT STDOUT_LEVEL s"
    using w by (simp add: drain_pipe_def act_bind_def gets_def)
  then show ?thesis
    using drain_loop_runs [OF served [unfolded o] pipe w t [unfolded o], folded o, of TOK_OUT STREAM_STDOUT STDOUT_LEVEL]
    unfolding ends_def by simp
qed

lemma drain_err_runs:
  assumes ex: "exit_world winv log left w patience env" and w: "sv_workload s = Some w1" "wl_stderr w1 = wl_stderr w"
    and t: "told (emptied winv left w [] q) log strm evs s"
  shows "ends (drain_pipe env TOK_ERR) (\<lambda>_ s'. \<exists>errs el w2. concat errs = q \<and> feed_all TOK_ERR errs w1 = (el, w2)
    \<and> tended (s\<lparr>sv_workload := Some w2\<rparr>) s' \<and> told (emptied winv left w [] []) log strm (evs @ shown (sv_log_mask s) STREAM_STDERR STDERR_LEVEL el) s') s"
proof -
  have e: "emptied winv left w p q = (\<lambda>v. (winv v \<and> left (wl_stdout w) v = p) \<and> left (wl_stderr w) v = q)" for p q
    by (simp add: emptied_def)
  have served: "agent_served (se_agent env) (emptied winv left w p q) patience log" for p q using ex by (simp add: exit_world_def)
  have pipe: "piped (\<lambda>v. winv v \<and> left (wl_stdout w) v = []) log (left (wl_stderr w)) (wl_stderr w) env"
    using ex by (simp add: exit_world_def)
  have "drain_pipe env TOK_ERR s = drain_pipe_loop env TOK_ERR (wl_stderr w) STREAM_STDERR STDERR_LEVEL s"
    using w by (simp add: drain_pipe_def act_bind_def gets_def)
  then show ?thesis
    using drain_loop_runs [OF served [unfolded e] pipe w(1) t [unfolded e], folded e, of TOK_ERR STREAM_STDERR STDERR_LEVEL]
    unfolding ends_def by simp
qed

lemma drain_pipes_run:
  assumes ex: "exit_world winv log left w patience env" and w: "sv_workload s = Some w" and t: "told (emptied winv left w p q) log strm evs s"
  shows "ends (act_bind (drain_pipe env TOK_OUT) (\<lambda>_. drain_pipe env TOK_ERR)) (\<lambda>_ s'. drained winv log left w strm evs p q s s') s"
proof (rule ends_then [OF drain_out_runs [OF ex w t]], elim exE conjE)
  fix t1 outs ol w1 assume a: "concat outs = p" "feed_all TOK_OUT outs w = (ol, w1)" "tended (s\<lparr>sv_workload := Some w1\<rparr>) t1"
      "told (emptied winv left w [] q) log strm (evs @ shown (sv_log_mask s) STREAM_STDOUT STDOUT_LEVEL ol) t1"
  have w1: "sv_workload t1 = Some w1" "sv_log_mask t1 = sv_log_mask s" using tended_fields [OF a(3)] by simp_all
  have fd: "wl_stderr w1 = wl_stderr w" using feed_all_fds [OF a(2)] by simp
  show "ends (drain_pipe env TOK_ERR) (\<lambda>_ s'. drained winv log left w strm evs p q s s') t1"
  proof (rule ends_mono [OF drain_err_runs [OF ex w1(1) fd a(4)]], elim exE conjE)
    fix s' errs el w2 assume b: "concat errs = q" "feed_all TOK_ERR errs w1 = (el, w2)" "tended (t1\<lparr>sv_workload := Some w2\<rparr>) s'"
      "told (emptied winv left w [] []) log strm ((evs @ shown (sv_log_mask s) STREAM_STDOUT STDOUT_LEVEL ol) @ shown (sv_log_mask t1) STREAM_STDERR STDERR_LEVEL el) s'"
    have "tended (s\<lparr>sv_workload := Some w2\<rparr>) (t1\<lparr>sv_workload := Some w2\<rparr>)" using tended_workload [OF a(3), of "Some w2"] by simp
    from tended_trans [OF this b(3)] show "drained winv log left w strm evs p q s s'"
      unfolding drained_def using a(1,2) b(1,2,4) w1(2)
      by (intro exI [of _ outs] exI [of _ errs] exI [of _ ol] exI [of _ el] exI [of _ w1] exI [of _ w2]) simp
  qed
qed

lemma tended_cleared:
  "tended (s\<lparr>sv_workload := w\<rparr>) t \<Longrightarrow> tended (s\<lparr>sv_workload := None, sv_control := None\<rparr>) (t\<lparr>sv_workload := None, sv_control := None\<rparr>)"
  unfolding tended_def by (cases s; cases t) simp

lemma drop_control_runs:
  assumes k: "\<And>fd. keeps winv log (se_close env fd)" and t: "told winv log strm evs s"
  shows "ends (drop_control env) (\<lambda>_ s'. idle winv log strm evs (s\<lparr>sv_control := None\<rparr>) s') s"
proof -
  have s: "told winv log strm evs (s\<lparr>sv_control := None\<rparr>)" using t by simp
  show ?thesis
    using s tended_refl sys_do_told [OF k s] by (cases "sv_control s") (simp_all add: drop_control_def ends_rules)
qed

lemma emit_lines_then:
  assumes "agent_served (se_agent env) winv patience log" "idle winv log strm evs s t"
    "\<And>u. idle winv log strm (evs @ shown (sv_log_mask s) stream level lines) s u \<Longrightarrow> ends (g ()) Q u"
  shows "ends (act_bind (emit_lines env stream level lines) g) Q t"
proof (rule ends_then [OF emit_lines_runs [OF assms(1) conjunct2 [OF assms(2)]]])
  fix a u assume "idle winv log strm (evs @ shown (sv_log_mask t) stream level lines) t u"
  moreover have "sv_log_mask t = sv_log_mask s" using tended_fields(4) assms(2) by blast
  ultimately show "ends (g a) Q u" using assms(2,3) tended_trans by (cases a) auto
qed

lemma exit_tail_runs:
  assumes ex: "exit_world winv log left w patience env" and t: "told (emptied winv left w [] []) log strm evs t" and w2: "sv_workload t = Some w2"
    and code: "exit_status status = (code, sig)"
  shows "ends (act_bind (set_workload None) (\<lambda>_.
        act_bind (drop_control env) (\<lambda>_.
        act_bind (emit_lines env STREAM_STDOUT STDOUT_LEVEL (fst (LineBuf_finish (wl_outbuf w2)))) (\<lambda>_.
        act_bind (emit_lines env STREAM_STDERR STDERR_LEVEL (fst (LineBuf_finish (wl_errbuf w2)))) (\<lambda>_.
        act_bind (sys_do (se_epoll_del env (wl_stdout w2))) (\<lambda>_.
        act_bind (sys_do (se_epoll_del env (wl_stderr w2))) (\<lambda>_.
        act_bind (sys_do (se_close env (wl_stdout w2))) (\<lambda>_.
        act_bind (sys_do (se_close env (wl_stderr w2))) (\<lambda>_.
        on_chan (emit_ring_now (se_agent env) (Ev_WorkloadExited (of_int pid) code sig)))))))))))
     (\<lambda>_ s'. tended (t\<lparr>sv_workload := None, sv_control := None\<rparr>) s' \<and> told (emptied winv left w [] []) log strm
        (evs @ shown (sv_log_mask t) STREAM_STDOUT STDOUT_LEVEL (fst (LineBuf_finish (wl_outbuf w2)))
         @ shown (sv_log_mask t) STREAM_STDERR STDERR_LEVEL (fst (LineBuf_finish (wl_errbuf w2))) @ [Ev_WorkloadExited (of_int pid) code sig]) s') t"
proof -
  let ?t = "t\<lparr>sv_workload := None, sv_control := None\<rparr>" and ?W = "emptied winv left w [] []"
  let ?o = "shown (sv_log_mask t) STREAM_STDOUT STDOUT_LEVEL (fst (LineBuf_finish (wl_outbuf w2)))"
  let ?e = "shown (sv_log_mask t) STREAM_STDERR STDERR_LEVEL (fst (LineBuf_finish (wl_errbuf w2)))"
  have served: "agent_served (se_agent env) ?W patience log" and k: "\<And>fd. keeps ?W log (se_close env fd)" "\<And>fd. keeps ?W log (se_epoll_del env fd)"
    using ex by (simp_all add: exit_world_def)
  have dropped: "ends (drop_control env) (\<lambda>_ u. idle ?W log strm evs ?t u) (t\<lparr>sv_workload := None\<rparr>)"
    by (rule ends_mono [OF drop_control_runs [OF k(1)]]) (use t in auto)
  show ?thesis
    unfolding set_workload_def
    apply (rule ends_then [where P = "\<lambda>_ u. u = t\<lparr>sv_workload := None\<rparr>"], simp add: ends_modify, clarify)
    apply (rule ends_then [OF dropped])
    apply (rule emit_lines_then [OF served], assumption)
    apply (rule emit_lines_then [OF served], assumption)
    apply (rule sys_do_then [OF k(2), where s = ?t], assumption)
    apply (rule sys_do_then [OF k(2), where s = ?t], assumption)
    apply (rule sys_do_then [OF k(1), where s = ?t], assumption)
    apply (rule sys_do_then [OF k(1), where s = ?t], assumption)
    apply (rule ends_mono [OF emit_told(2) [OF served log_item(3)]], blast)
    apply (use tended_trans in auto)
    done
qed

lemma exit_runs:
  assumes ex: "exit_world winv log left w patience env" and w: "sv_workload s = Some w" and t: "told (emptied winv left w p q) log strm evs s"
    and status: "\<not> wifstopped status" "exit_status status = (code, sig)"
  shows "ends (handle_child_status env pid status) (\<lambda>_ s'. \<exists>outs errs. concat outs = p \<and> concat errs = q
     \<and> tended (s\<lparr>sv_workload := None, sv_control := None\<rparr>) s'
     \<and> told (emptied winv left w [] []) log strm (evs @ exit_events (sv_log_mask s) w outs errs @ [Ev_WorkloadExited (of_int pid) code sig]) s') s"
    (is "ends _ (\<lambda>_. ?Q) s")
proof -
  have tail: "ends (act_bind (gets sv_workload) (\<lambda>w. case w of None \<Rightarrow> of_res Panic | Some w \<Rightarrow>
        act_bind (set_workload None) (\<lambda>_.
        act_bind (drop_control env) (\<lambda>_.
        act_bind (emit_lines env STREAM_STDOUT STDOUT_LEVEL (fst (LineBuf_finish (wl_outbuf w)))) (\<lambda>_.
        act_bind (emit_lines env STREAM_STDERR STDERR_LEVEL (fst (LineBuf_finish (wl_errbuf w)))) (\<lambda>_.
        act_bind (sys_do (se_epoll_del env (wl_stdout w))) (\<lambda>_.
        act_bind (sys_do (se_epoll_del env (wl_stderr w))) (\<lambda>_.
        act_bind (sys_do (se_close env (wl_stdout w))) (\<lambda>_.
        act_bind (sys_do (se_close env (wl_stderr w))) (\<lambda>_.
        on_chan (emit_ring_now (se_agent env) (Ev_WorkloadExited (of_int pid) code sig)))))))))))) (\<lambda>_. ?Q) u"
    if d: "drained winv log left w strm evs p q s u" for u
  proof -
    obtain outs errs ol el w1 w2 where a: "concat outs = p" "concat errs = q" "feed_all TOK_OUT outs w = (ol, w1)" "feed_all TOK_ERR errs w1 = (el, w2)"
        "tended (s\<lparr>sv_workload := Some w2\<rparr>) u"
        "told (emptied winv left w [] []) log strm (evs @ shown (sv_log_mask s) STREAM_STDOUT STDOUT_LEVEL ol @ shown (sv_log_mask s) STREAM_STDERR STDERR_LEVEL el) u"
      using d unfolding drained_def by blast
    have u: "sv_workload u = Some w2" "sv_log_mask u = sv_log_mask s" using tended_fields [OF a(5)] by simp_all
    have q: "?Q s'" if "tended (u\<lparr>sv_workload := None, sv_control := None\<rparr>) s'"
        "told (emptied winv left w [] []) log strm (evs @ exit_events (sv_log_mask s) w outs errs @ [Ev_WorkloadExited (of_int pid) code sig]) s'" for s'
      using that a(1,2) tended_trans [OF tended_cleared [OF a(5)]] by blast
    note run = ends_mono [OF exit_tail_runs [OF ex a(6) u(1) status(2), of pid], of "\<lambda>_. ?Q"]
    show ?thesis
      unfolding ends_bind [of "gets sv_workload"] ends_gets u(1) option.case
      by (rule run) (use q u(2) a(3,4) in \<open>auto simp: exit_events_def\<close>)
  qed
  note drain = drain_pipes_run [OF ex w t, unfolded ends_bind]
  show ?thesis
    unfolding handle_child_status_def if_not_P [OF status(1)] status(2) [unfolded exit_status_def] Let_def prod.case
      ends_bind [of "drain_pipe env TOK_OUT"] ends_bind [of "drain_pipe env TOK_ERR"]
    by (rule ends_mono [OF drain], erule ends_mono, erule tail)
qed

section \<open>Commands\<close>

text \<open>The system calls of the commands, and a ring I that the workload has left in order.\<close>

definition commands_quiet :: "('w \<Rightarrow> bool) \<Rightarrow> ('w \<Rightarrow> bytes list) \<Rightarrow> 'w sup_env \<Rightarrow> bool" where
  "commands_quiet winv log env \<longleftrightarrow> (\<forall>pid sig. keeps winv log (se_kill env pid sig)) \<and> (\<forall>pid b. keeps winv log (snd \<circ> se_waitpid env pid b))
     \<and> keeps winv log (snd \<circ> se_now env) \<and> (\<forall>fd. keeps winv log (se_close env fd))"

definition ring_i_queue :: "'w supervisor \<Rightarrow> bytes list \<Rightarrow> bool" where
  "ring_i_queue s recs \<longleftrightarrow> ring_rep 0x4000 (page_ring canonical (ac_page (chan s)) RingI) recs"

text \<open>A relay changes the page as specified, takes a time stamp, and nothing else.\<close>

definition relay_done :: "workload_ctrl \<Rightarrow> bytes list \<Rightarrow> 'w supervisor \<Rightarrow> 'w supervisor \<Rightarrow> bool" where
  "relay_done rec recs s s' \<longleftrightarrow> (\<exists>page. relayed (ac_vnanos (chan s)) rec recs (ac_page (chan s)) page
     \<and> s' = s\<lparr>sv_ipc := (sv_ipc s)\<lparr>ri_channel := (chan s)\<lparr>ac_page := page, ac_vnanos := ac_vnanos (chan s) + 1\<rparr>\<rparr>\<rparr>)"

lemma relayed_sent:
  assumes t: "sent winv log strm evs c" and r: "relayed vn rec recs (ac_page c) page"
  shows "sent winv log strm evs (c\<lparr>ac_page := page, ac_vnanos := v\<rparr>)"
proof (rule sent_cong [OF t])
  have k: "take 0x100 page = take 0x100 (ac_page c)" "page_ring canonical page RingA = page_ring canonical (ac_page c) RingA"
    and len: "length (ac_page c) = CHANNEL_SIZE \<Longrightarrow> length page = CHANNEL_SIZE"
    using r by (auto simp: relayed_def Let_def split: if_splits)
  show "dropped (c\<lparr>ac_page := page, ac_vnanos := v\<rparr>) = dropped c" by (rule dropped_low) (simp add: k(1))
  show "emitting winv log rs (c\<lparr>ac_page := page, ac_vnanos := v\<rparr>)" if "emitting winv log rs c" for rs
    using that k(2) len by (auto simp: emitting_def on_ring_a_def page_queue_def)
qed

lemma relay_runs:
  assumes t: "told winv log strm evs s" and i: "ring_i_queue s recs"
  shows "ends (relay rec) (\<lambda>_ s'. relay_done rec recs s s' \<and> told winv log strm evs s') s"
proof -
  let ?c = "chan s" and ?set = "\<lambda>c. s\<lparr>sv_ipc := (sv_ipc s)\<lparr>ri_channel := c\<rparr>\<rparr>"
  have run: "relay rec s = Some (Ok (), ?set (?c\<lparr>ac_page := page, ac_vnanos := ac_vnanos ?c + 1\<rparr>))"
    if "relay_record (ac_vnanos ?c) rec (ac_page ?c) = Ok page \<or> relay_record (ac_vnanos ?c) rec (ac_page ?c) = Err RingFull \<and> page = ac_page ?c" for page
    using that by (auto simp: relay_def on_chan_def on_ipc_def on_channel_def zoom_def act_bind_def next_vnanos_def act_catch_def
        relay_workload_ctrl_def return_def)
  obtain page where "relay_record (ac_vnanos ?c) rec (ac_page ?c) = Ok page \<or> relay_record (ac_vnanos ?c) rec (ac_page ?c) = Err RingFull \<and> page = ac_page ?c"
      "relayed (ac_vnanos ?c) rec recs (ac_page ?c) page"
    using relay_record_relayed [OF sent_length [OF t] i [unfolded ring_i_queue_def]] by metis
  then show ?thesis using run relayed_sent [OF t] unfolding ends_def relay_done_def by fastforce
qed

definition deadline_of :: "'w sup_env \<Rightarrow> 'w supervisor \<Rightarrow> u64" where
  "deadline_of env s = (case sv_workload s of None \<Rightarrow> 0 | Some w \<Rightarrow> fst (se_now env (se_kill env (wl_pid w) SIGTERM (ac_world (chan s)))) + 2000000000)"

text \<open>
  The contract of a command, in four parts: the fields of the supervisor it sets, the system calls it makes, the record
  it relays to the workload and the event it sends.
\<close>

definition command_effect :: "'w sup_env \<Rightarrow> command \<Rightarrow> 'w supervisor \<Rightarrow> 'w supervisor" where
  "command_effect env cmd s =
     (case cmd of
        Cmd_Quiesce token Forced \<Rightarrow> s\<lparr>sv_forced_token := token\<rparr>
      | Cmd_Resume token \<Rightarrow> s\<lparr>sv_workload := map_option (\<lambda>w. w\<lparr>wl_stopped := False\<rparr>) (sv_workload s)\<rparr>
      | Cmd_Shutdown Graceful \<Rightarrow> s\<lparr>sv_shutdown := Some (deadline_of env s)\<rparr>
      | Cmd_Shutdown Immediate \<Rightarrow> s\<lparr>sv_control := None, sv_workload := None\<rparr>
      | Cmd_SetLogMask msk \<Rightarrow> s\<lparr>sv_log_mask := msk\<rparr>
      | _ \<Rightarrow> s)"

definition close_control :: "'w sup_env \<Rightarrow> 'w supervisor \<Rightarrow> 'w \<Rightarrow> 'w" where
  "close_control env s w = (case sv_control s of None \<Rightarrow> w | Some fd \<Rightarrow> se_close env fd w)"

definition command_world :: "'w sup_env \<Rightarrow> command \<Rightarrow> 'w supervisor \<Rightarrow> 'w \<Rightarrow> 'w" where
  "command_world env cmd s w =
     (case (cmd, sv_workload s) of
        (Cmd_Quiesce token Forced, Some wl) \<Rightarrow> se_kill env (wl_pid wl) SIGSTOP w
      | (Cmd_Resume token, Some wl) \<Rightarrow> if wl_stopped wl then se_kill env (wl_pid wl) SIGCONT w else w
      | (Cmd_Shutdown Graceful, Some wl) \<Rightarrow> snd (se_now env (se_kill env (wl_pid wl) SIGTERM w))
      | (Cmd_Shutdown Immediate, Some wl) \<Rightarrow>
          snd (se_waitpid env (wl_pid wl) False (se_kill env (wl_pid wl) SIGKILL (close_control env s w)))
      | (Cmd_Shutdown Immediate, None) \<Rightarrow> close_control env s w
      | _ \<Rightarrow> w)"

fun command_relay :: "command \<Rightarrow> workload_ctrl option" where
  "command_relay (Cmd_Quiesce token Coop) = Some (Ctrl_QuiesceReq token)"
| "command_relay (Cmd_Resume token) = Some (Ctrl_Resume token)"
| "command_relay _ = None"

definition command_event :: "command \<Rightarrow> 'w supervisor \<Rightarrow> event_payload option" where
  "command_event cmd s =
     (case (cmd, sv_workload s) of
        (Cmd_Quiesce token Forced, None) \<Rightarrow> Some (Ev_QuiesceReady token)
      | (Cmd_Shutdown Immediate, Some w) \<Rightarrow> Some (Ev_WorkloadExited (of_int (wl_pid w)) (- 1) (of_nat SIGKILL))
      | _ \<Rightarrow> None)"

text \<open>
  The whole state after a command: fields and system calls first, then the relayed record or the event; \<open>recs\<close> is what
  ring I held.
\<close>

definition command_done ::
  "('w \<Rightarrow> bool) \<Rightarrow> ('w \<Rightarrow> bytes list) \<Rightarrow> tape \<Rightarrow> event_payload list \<Rightarrow> bytes list \<Rightarrow> 'w sup_env \<Rightarrow> command \<Rightarrow> 'w supervisor \<Rightarrow> 'w supervisor \<Rightarrow> bool"
where
  "command_done winv log strm evs recs env cmd s s' \<longleftrightarrow>
     (let t = push_world (command_world env cmd s (ac_world (chan s))) (command_effect env cmd s)
      in case (command_relay cmd, command_event cmd s) of
           (Some rec, _) \<Rightarrow> relay_done rec recs t s' \<and> told winv log strm evs s'
         | (None, Some ev) \<Rightarrow> on_chan (emit_ring_now (se_agent env) ev) t = Some (Ok () :: (sys_error, unit) res, s')
             \<and> tended t s' \<and> told winv log strm (evs @ [ev]) s'
         | (None, None) \<Rightarrow> s' = t \<and> told winv log strm evs s')"

lemma commands_quiet_world:
  assumes "commands_quiet winv log env" and "told winv log strm evs s"
  shows "told winv log strm evs (push_world (command_world env cmd s (ac_world (chan s))) (command_effect env cmd s))"
proof -
  let ?w = "ac_world (chan s)"
  have k: "keeps winv log (se_kill env pid sig)" "keeps winv log (snd \<circ> se_waitpid env pid b)" "keeps winv log (snd \<circ> se_now env)"
      "keeps winv log (se_close env fd)" for pid sig b fd using assms(1) by (simp_all add: commands_quiet_def)
  have "winv (command_world env cmd s ?w) \<and> log (command_world env cmd s ?w) = log ?w"
    using k told_world [OF assms(2)] unfolding command_world_def close_control_def
    by (auto simp: keeps_def split: command.splits quiesce_mode.splits shutdown_mode.splits option.splits)
  moreover have "chan (command_effect env cmd s) = chan s"
    by (simp add: command_effect_def split: command.split quiesce_mode.split shutdown_mode.split)
  ultimately show ?thesis using assms(2) by (intro told_push) simp_all
qed

end
