(* ===== verification/Agent_Commands.thy ===== *)
theory Agent_Commands
  imports Agent_Duty
begin

text \<open>
  The ring-C commands: each returns and leaves exactly the state its contract in \<open>Agent_Duty\<close> lists, fields, system
  calls, the relayed record and the event; starting a second workload is refused; an exited workload is reported after
  all its output.
\<close>

section \<open>Each command\<close>

abbreviation called :: "'w sup_env \<Rightarrow> command \<Rightarrow> 'w supervisor \<Rightarrow> 'w supervisor" where
  "called env cmd s \<equiv> push_world (command_world env cmd s (ac_world (chan s))) (command_effect env cmd s)"

text \<open>The three shapes of a command: silent, with a relay, with an event.\<close>

lemma silent_command:
  assumes "commands_quiet winv log env" "told winv log strm evs s" "command_relay cmd = None" "command_event cmd s = None"
  shows "command_done winv log strm evs recs env cmd s (called env cmd s)"
  using assms(3,4) commands_quiet_world [OF assms(1,2)] by (simp add: command_done_def Let_def)

lemma relay_command:
  assumes "commands_quiet winv log env" "told winv log strm evs s" "ring_i_queue s recs" "command_relay cmd = Some rec"
  shows "ends (relay rec) (\<lambda>_ s'. command_done winv log strm evs recs env cmd s s') (called env cmd s)"
proof -
  have "chan (command_effect env cmd s) = chan s"
    by (simp add: command_effect_def split: command.split quiesce_mode.split shutdown_mode.split)
  then have "ring_i_queue (called env cmd s) recs" using assms(3) by (simp add: ring_i_queue_def)
  from relay_runs [OF commands_quiet_world [OF assms(1,2)] this] show ?thesis
    by (rule ends_mono) (use assms(4) in \<open>simp add: command_done_def Let_def\<close>)
qed

lemma event_command:
  fixes env :: "'w sup_env"
  assumes "agent_served (se_agent env) winv patience log" "commands_quiet winv log env" "told winv log strm evs s"
    "command_relay cmd = None" "command_event cmd s = Some ev" "event_item_ok (0, 0, ev)"
  shows "ends (on_chan (emit_ring_now (se_agent env) ev) :: ('w, unit) sup_act) (\<lambda>_ s'. command_done winv log strm evs recs env cmd s s') (called env cmd s)"
  using emit_told(2) [OF assms(1,6) commands_quiet_world [OF assms(2,3), of cmd], where ?'e = sys_error] assms(4,5)
  by (auto simp: ends_def command_done_def Let_def)

lemma quiesce_runs:
  assumes served: "agent_served (se_agent env) winv patience log" and quiet: "commands_quiet winv log env" and s: "told winv log strm evs s"
  shows "ends (forced_quiesce env token) (\<lambda>_ s'. command_done winv log strm evs recs env (Cmd_Quiesce token Forced) s s') s"
proof (cases "sv_workload s")
  case None
  then have c: "command_event (Cmd_Quiesce token Forced) s = Some (Ev_QuiesceReady token)" by (simp add: command_event_def)
  have "called env (Cmd_Quiesce token Forced) s = s\<lparr>sv_forced_token := token\<rparr>"
    using None by (simp add: command_world_def command_effect_def push_world_def)
  with event_command [OF served quiet s _ c log_item(4)] None show ?thesis by (simp add: forced_quiesce_def ends_rules)
next
  case (Some w)
  then have c: "command_event (Cmd_Quiesce token Forced) s = None" by (simp add: command_event_def)
  have "called env (Cmd_Quiesce token Forced) s = push_world (se_kill env (wl_pid w) SIGSTOP (ac_world (chan s))) (s\<lparr>sv_forced_token := token\<rparr>)"
    using Some by (simp add: command_world_def command_effect_def)
  with silent_command [OF quiet s _ c] Some show ?thesis
    by (simp add: forced_quiesce_def ends_rules) (simp add: ends_def sys_do_eq)
qed

lemma resume_runs:
  assumes quiet: "commands_quiet winv log env" and s: "told winv log strm evs s" and i: "ring_i_queue s recs"
  shows "ends (act_bind (forced_resume env) (\<lambda>_. relay_resume token)) (\<lambda>_ s'. command_done winv log strm evs recs env (Cmd_Resume token) s s') s"
proof -
  have same: "s\<lparr>sv_workload := map_option (\<lambda>w. w\<lparr>wl_stopped := False\<rparr>) (sv_workload s)\<rparr> = s"
    if "\<forall>w. sv_workload s = Some w \<longrightarrow> \<not> wl_stopped w"
    using that by (cases s; cases "sv_workload s") auto
  have run: "forced_resume env s = Some (Ok (), called env (Cmd_Resume token) s)"
    using same
    by (auto simp: forced_resume_def act_bind_def gets_def return_def sys_do_eq set_workload_def modify_def command_world_def command_effect_def
        push_world_def split: option.splits)
  show ?thesis
    using relay_command [OF quiet s i, of "Cmd_Resume token" "Ctrl_Resume token"] run unfolding relay_resume_def by (simp add: ends_def act_bind_def)
qed

lemma graceful_runs:
  assumes quiet: "commands_quiet winv log env" and s: "told winv log strm evs s"
  shows "ends (begin_graceful_shutdown env) (\<lambda>_ s'. command_done winv log strm evs recs env (Cmd_Shutdown Graceful) s s') s"
proof -
  have "begin_graceful_shutdown env s = Some (Ok (), called env (Cmd_Shutdown Graceful) s)"
    by (cases "sv_workload s")
       (simp_all add: begin_graceful_shutdown_def act_bind_def gets_def sys_do_eq sys_eq modify_def command_effect_def command_world_def
          deadline_of_def push_world_def)
  then show ?thesis using silent_command [OF quiet s, of "Cmd_Shutdown Graceful"] by (simp add: ends_def command_event_def)
qed

lemma immediate_runs:
  assumes served: "agent_served (se_agent env) winv patience log" and quiet: "commands_quiet winv log env" and s: "told winv log strm evs s"
  shows "ends (immediate_shutdown env) (\<lambda>_ s'. command_done winv log strm evs recs env (Cmd_Shutdown Immediate) s s') s"
proof -
  let ?cmd = "Cmd_Shutdown Immediate"
  have drop: "drop_control env s = Some (Ok (), push_world (close_control env s (ac_world (chan s))) (s\<lparr>sv_control := None\<rparr>))"
    by (cases "sv_control s")
       (simp_all add: close_control_def drop_control_def act_bind_def gets_def modify_def return_def sys_do_eq push_world_def)
  show ?thesis
  proof (cases "sv_workload s")
    case None
    have "s\<lparr>sv_control := None\<rparr> = command_effect env ?cmd s" using None by (cases s) (simp add: command_effect_def)
    moreover have "sv_workload (command_effect env ?cmd s) = None" by (simp add: command_effect_def)
    ultimately have "immediate_shutdown env s = Some (Ok (), called env ?cmd s)" using None drop
      by (simp add: immediate_shutdown_def act_bind_def gets_def return_def command_world_def)
    then show ?thesis using silent_command [OF quiet s, of ?cmd] None by (simp add: ends_def command_event_def)
  next
    case (Some w)
    then have c: "command_event ?cmd s = Some (Ev_WorkloadExited (of_int (wl_pid w)) (- 1) (of_nat SIGKILL))"
      by (simp add: command_event_def)
    have "immediate_shutdown env s = on_chan (emit_ring_now (se_agent env) (Ev_WorkloadExited (of_int (wl_pid w)) (- 1) (of_nat SIGKILL)))
        (called env ?cmd s)"
      using Some drop by (simp add: immediate_shutdown_def act_bind_def gets_def sys_do_eq sys_eq set_workload_def modify_def
          command_effect_def command_world_def)
    then show ?thesis using event_command [OF served quiet s _ c log_item(3)] by (simp add: ends_def)
  qed
qed

section \<open>The dispatch\<close>

text \<open>
  C13. The commands that quiesce, resume, shut down and set the log mask do exactly what they say: handling returns,
  stops the loop only for an immediate shutdown, and leaves exactly the state that the contract of the command lists.
  A cooperative quiescence and a resumption put their record with its token on ring I whenever it fits there, and change
  nothing else on the page; a forced quiescence stops the workload, or is acknowledged at once when there is none; a
  resumption continues a stopped workload; a graceful shutdown sends SIGTERM and sets the deadline; an immediate one
  closes the control socket, kills and reaps the workload and reports its exit. No other field, ring, region,
  connection or system call is touched, and no other event is sent.
\<close>

theorem command_exact:
  assumes "agent_served (se_agent env) winv patience log" "commands_quiet winv log env" "told winv log strm evs s" "ring_i_queue s recs"
    "cmd \<noteq> Cmd_ReverifyRegions" "\<forall>u msk. cmd \<noteq> Cmd_StartWorkload u msk"
  shows "ends (command_handle env cmd) (\<lambda>stop s'. stop = (cmd = Cmd_Shutdown Immediate) \<and> command_done winv log strm evs recs env cmd s s') s"
proof (cases cmd)
  case (Cmd_Quiesce token mode)
  have "called env (Cmd_Quiesce token Coop) s = s" by (simp add: command_world_def command_effect_def push_world_def)
  with relay_command [OF assms(2-4), of "Cmd_Quiesce token Coop"]
  have "ends (relay_quiesce token) (\<lambda>_ s'. command_done winv log strm evs recs env (Cmd_Quiesce token Coop) s s') s"
    by (simp add: relay_quiesce_def)
  then show ?thesis using Cmd_Quiesce quiesce_runs [OF assms(1-3)] by (cases mode) (simp_all add: command_handle_def ends_bind ends_return)
next
  case (Cmd_Resume token)
  then show ?thesis using resume_runs [OF assms(2-4), of token] by (simp add: command_handle_def ends_bind ends_return)
next
  case (Cmd_Shutdown mode)
  then show ?thesis using graceful_runs [OF assms(2,3)] immediate_runs [OF assms(1-3)]
    by (cases mode) (simp_all add: command_handle_def ends_bind ends_return)
next
  case (Cmd_SetLogMask msk)
  have "called env cmd s = s\<lparr>sv_log_mask := msk\<rparr>" using Cmd_SetLogMask by (simp add: command_world_def command_effect_def push_world_def)
  with silent_command [OF assms(2,3), of cmd] Cmd_SetLogMask show ?thesis
    by (simp add: command_handle_def ends_rules command_event_def)
qed (use assms(5,6) in simp_all)


section \<open>A supervisor\<close>

definition demo_sup_env :: "demo_world sup_env" where
  "demo_sup_env = \<lparr>se_agent = demo_env, se_translate = demo_translate, se_sock = demo_sock, se_channel_fd = 3, se_pipe = (\<lambda>w. (Some (10, 11), w)),
     se_close = (\<lambda>_ w. w), se_dupfd = (\<lambda>_ k w. (Some k, w)), se_fork = (\<lambda>_ w. (Some 42, w)), se_nonblock = (\<lambda>_ w. w), se_kill = (\<lambda>_ _ w. w),
     se_waitpid = (\<lambda>_ _ w. ((0, 0), w)), se_read = (\<lambda>_ _ w. ([], w)), se_epoll_add = (\<lambda>_ _ w. w), se_epoll_del = (\<lambda>_ w. w),
     se_epoll_wait = (\<lambda>_ w. (EpollEvents [], w)), se_drain = (\<lambda>_ w. w), se_now = (\<lambda>w. (0, w))\<rparr>"

abbreviation demo_inv :: "demo_world \<Rightarrow> bool" where
  "demo_inv \<equiv> within (\<lambda>_. True) (\<lambda>w. length (dw_mail w)) 0"

definition demo_unit :: boot_unit where
  "demo_unit = \<lparr>bu_id = 0, bu_exec = [0x2F, 0x77], bu_args = [], bu_log_mask = 0x1F, bu_control = None\<rparr>"

definition demo_workload :: workload where
  "demo_workload = \<lparr>wl_pid = 42, wl_unit = 0, wl_stdout = 10, wl_stderr = 11, wl_outbuf = LineBuf_default, wl_errbuf = LineBuf_default, wl_stopped = False\<rparr>"

definition demo_supervisor :: "workload option \<Rightarrow> demo_world supervisor" where
  "demo_supervisor w = \<lparr>sv_ipc = demo_service [], sv_bound = False,
     sv_manifest = \<lparr>bm_autostart_unit = Some 0, bm_units = [demo_unit], bm_expected_regions = []\<rparr>, sv_workload = w, sv_log_mask = 0x1F,
     sv_shutdown = None, sv_control = None, sv_forced_token = 0\<rparr>"

lemma demo_sup_served: "agent_served (se_agent demo_sup_env) demo_inv (\<lambda>_. 0) dw_log"
  using demo_served by (simp add: demo_sup_env_def)

lemma demo_told: "told demo_inv dw_log (Tape [] (0, 0)) [] (demo_supervisor w)"
  using demo_service_ok [of "[]"] by (simp add: service_ok_def demo_supervisor_def)

lemma demo_quiet: "commands_quiet demo_inv dw_log demo_sup_env" "spawns demo_inv dw_log demo_sup_env"
  by (simp_all add: commands_quiet_def spawns_def keeps_def demo_sup_env_def)

lemma demo_ring_i: "ring_i_queue (demo_supervisor w) []"
proof -
  have "ring_size_ok 0x4000" by (simp add: ring_size_ok_def pow2_sizes)
  then have "ring_rep 0x4000 (page_ring canonical zero_page RingI) []"
    using zero_page_ring [of RingI] by (simp add: ring_rep_def canonical_ring)
  then show ?thesis using fresh_rings [of 1 "\<lparr>dw_log = [], dw_mail = []\<rparr>" RingI]
    by (auto simp: ring_i_queue_def demo_supervisor_def demo_service_def)
qed

theorem command_exact_witness:
  "ends (command_handle demo_sup_env (Cmd_Shutdown Immediate)) (\<lambda>stop s'. stop \<and> sv_workload s' = None
     \<and> told demo_inv dw_log (Tape [] (0, 0)) [Ev_WorkloadExited 42 (- 1) 9] s') (demo_supervisor (Some demo_workload))"
  by (rule ends_mono [OF command_exact [OF demo_sup_served demo_quiet(1) demo_told demo_ring_i, of "Cmd_Shutdown Immediate"]])
     (auto simp: command_done_def Let_def command_effect_def command_event_def demo_supervisor_def demo_workload_def dest!: tended_fields(3))


section \<open>Exits\<close>


text \<open>A workload that has exited with two chunks left in its output pipe.\<close>

definition demo_exit_env :: "demo_world sup_env" where
  "demo_exit_env = demo_sup_env\<lparr>se_read := (\<lambda>fd _ w. if fd = 10 then (case dw_mail w of [] \<Rightarrow> ([], w) | b # bs \<Rightarrow> (b, w\<lparr>dw_mail := bs\<rparr>)) else ([], w))\<rparr>"

definition demo_left :: "nat \<Rightarrow> demo_world \<Rightarrow> bytes" where
  "demo_left fd w = (if fd = 10 then concat (dw_mail w) else [])"

abbreviation demo_chunks :: "demo_world \<Rightarrow> bool" where
  "demo_chunks w \<equiv> [] \<notin> set (dw_mail w)"

lemma demo_exit_world: "exit_world demo_chunks dw_log demo_left demo_workload (\<lambda>_. 0) demo_exit_env"
proof -
  have "agent_served demo_env (emptied demo_chunks demo_left demo_workload p q) (\<lambda>_. 0) dw_log" for p q
    by (rule demo_served_any) (simp add: emptied_def demo_left_def demo_workload_def)
  moreover have "\<exists>k w'. se_read demo_exit_env 10 4096 w = (take k (demo_left 10 w), w') \<and> (demo_left 10 w \<noteq> [] \<longrightarrow> 0 < k)
      \<and> demo_chunks w' \<and> dw_log w' = dw_log w \<and> demo_left 10 w' = drop k (demo_left 10 w) \<and> demo_left 11 w' = demo_left 11 w"
    if "demo_chunks w" for w
    using that by (intro exI [of _ "case dw_mail w of [] \<Rightarrow> 0 | b # bs \<Rightarrow> length b"])
       (auto simp: demo_exit_env_def demo_left_def split: list.splits)
  ultimately show ?thesis
    by (auto simp: exit_world_def piped_def demo_workload_def demo_exit_env_def demo_sup_env_def keeps_def demo_left_def)
qed


end
