(* ===== verification/Agent_Game.thy ===== *)
theory Agent_Game
  imports Agent_Pvblk
begin

text \<open>
  What materializing the game image gives. \<open>block_device\<close> is the contract of the trait \<open>PvBlkRegs\<close>,
  \<open>pv_blk_device\<close> that of the device behind the mapped registers, which gives the first one for \<open>mapped_ops\<close>,
  and \<open>image_file\<close> that of the file system. The image is what the device holds; only its whole sectors can be
  addressed.
\<close>

section \<open>The checksum\<close>

lemma checksum_fold_append:
  "checksum_fold sm (xs @ ys) off = checksum_fold (checksum_fold sm xs off) ys (off + of_nat (length xs))"
  by (induction xs arbitrary: sm off) (simp_all add: add.assoc)

section \<open>Contracts\<close>

locale block_device =
  fixes ops :: "'r blk_ops" and image :: bytes and ready :: "'r \<Rightarrow> bool"
  assumes magic: "ready r \<Longrightarrow> \<exists>r'. rg_read_u32 ops REG_MAGIC r = (DEVICE_ID_PV_BLK, r') \<and> ready r'"
    and in_range: "ready r \<Longrightarrow> 0 < count \<Longrightarrow> count \<le> SECTORS_PER_PAGE \<Longrightarrow> sector < 2 ^ 32 \<Longrightarrow>
      sector + count \<le> length image div SECTOR_SIZE \<Longrightarrow>
      \<exists>r'. rg_read_sectors ops (of_nat sector) (of_nat count) r = (BLK_STATUS_OK, r') \<and> ready r' \<and>
        count * SECTOR_SIZE \<le> length (rg_dma ops r') \<and>
        take (count * SECTOR_SIZE) (rg_dma ops r') = take (count * SECTOR_SIZE) (drop (sector * SECTOR_SIZE) image)"
    and past_end: "ready r \<Longrightarrow> 0 < count \<Longrightarrow> count \<le> SECTORS_PER_PAGE \<Longrightarrow> sector < 2 ^ 32 \<Longrightarrow>
      length image div SECTOR_SIZE < sector + count \<Longrightarrow>
      \<exists>r'. rg_read_sectors ops (of_nat sector) (of_nat count) r = (BLK_BAD_REQUEST, r') \<and> ready r'"

locale image_file =
  fixes fops :: "'f file_ops" and content :: "'f \<Rightarrow> bytes" and unread :: "'f \<Rightarrow> bytes"
  assumes create_dir: "\<exists>f'. fo_create_dir fops f = (True, f')"
    and create: "\<exists>f'. fo_create fops f = (True, f') \<and> content f' = []"
    and write_all: "\<exists>f'. fo_write fops bs f = (True, f') \<and> content f' = content f @ bs"
    and flush: "\<exists>f'. fo_flush fops f = (True, f') \<and> content f' = content f"
    and reopen: "\<exists>f'. fo_open fops f = (True, f') \<and> content f' = content f \<and> unread f' = content f"
    and read: "0 < n \<Longrightarrow> \<exists>k f'. fo_read fops n f = (Some (take k (unread f)), f') \<and> k \<le> n \<and> (unread f \<noteq> [] \<longrightarrow> 0 < k) \<and>
      content f' = content f \<and> unread f' = drop k (unread f)"

locale image_copy = block_device + image_file
begin

definition sectors :: nat where
  "sectors = length image div SECTOR_SIZE"

definition copied :: "nat \<Rightarrow> u64 \<Rightarrow> 'a \<Rightarrow> 'b \<Rightarrow> bool" where
  "copied k checksum r f \<longleftrightarrow> ready r \<and> k \<le> sectors \<and> content f = take (k * SECTOR_SIZE) image \<and>
     checksum = checksum_fold CHECKSUM_SEED (take (k * SECTOR_SIZE) image) 0"

lemma append_copies:
  assumes "copied k checksum r f" "ready r'" "k + count \<le> sectors" "count * SECTOR_SIZE \<le> length (rg_dma ops r')"
    "take (count * SECTOR_SIZE) (rg_dma ops r') = take (count * SECTOR_SIZE) (drop (k * SECTOR_SIZE) image)"
  shows "\<exists>checksum' f'. blk_append ops fops k count checksum r' f = (Ok checksum', r', f') \<and> copied (k + count) checksum' r' f'"
proof -
  let ?new = "take (count * 512) (drop (k * 512) image)"
  have sp: "take ((k + count) * 512) image = take (k * 512) image @ ?new" by (simp add: take_add add_mult_distrib)
  have "k * 512 \<le> length image" using assms(3) unfolding sectors_def by simp
  hence len: "length (take (k * 512) image) = k * 512" by simp
  obtain f' where f': "fo_write fops ?new f = (True, f')" "content f' = content f @ ?new"
    using write_all by blast
  have "blk_append ops fops k count checksum r' f = (Ok (checksum_fold checksum ?new (of_nat (k * 512))), r', f')"
    using assms(4,5) f'(1) by (simp add: blk_append_def slice_def)
  moreover have "copied (k + count) (checksum_fold checksum ?new (of_nat (k * 512))) r' f'"
    using assms(1,2,3) f'(2) len unfolding copied_def sp SECTOR_SIZE_def by (simp add: checksum_fold_append del: length_take)
  ultimately show ?thesis by blast
qed

lemma read_page:
  assumes "copied k checksum r f" "0 < count" "count \<le> SECTORS_PER_PAGE" "k < 2 ^ 32" "k + count \<le> sectors"
  shows "\<exists>r' checksum' f'. rg_read_sectors ops (of_nat k) (of_nat count) r = (BLK_STATUS_OK, r') \<and>
    blk_append ops fops k count checksum r' f = (Ok checksum', r', f') \<and> copied (k + count) checksum' r' f'"
proof -
  have "ready r" using assms(1) by (simp add: copied_def)
  then obtain r' where r': "rg_read_sectors ops (of_nat k) (of_nat count) r = (BLK_STATUS_OK, r')" "ready r'"
      "count * SECTOR_SIZE \<le> length (rg_dma ops r')"
      "take (count * SECTOR_SIZE) (rg_dma ops r') = take (count * SECTOR_SIZE) (drop (k * SECTOR_SIZE) image)"
    using in_range assms(2-5) unfolding sectors_def by blast
  show ?thesis using r'(1) append_copies [OF assms(1) r'(2) assms(5) r'(3,4)] by blast
qed

lemma read_past:
  assumes "copied k checksum r f" "0 < count" "count \<le> SECTORS_PER_PAGE" "k < 2 ^ 32" "sectors < k + count"
  shows "\<exists>r'. rg_read_sectors ops (of_nat k) (of_nat count) r = (BLK_BAD_REQUEST, r') \<and> copied k checksum r' f"
  using past_end [of r count k] assms unfolding copied_def sectors_def by blast

lemma full_pages_copies:
  assumes "copied k checksum r f" "k \<le> 65536" "k mod 8 = 0"
  shows "\<exists>r' f'. if 65544 \<le> sectors then full_pages ops fops k checksum r f = (Err ImageTooBig, r', f')
    else (\<exists>checksum'. full_pages ops fops k checksum r f = (Ok (sectors div 8 * 8, checksum'), r', f') \<and>
      copied (sectors div 8 * 8) checksum' r' f')"
  using assms
proof (induction "65544 - k" arbitrary: k checksum r f rule: less_induct)
  case less
  have k: "k < 2 ^ 32" using less.prems(2) by simp
  show ?case
  proof (cases "k + 8 \<le> sectors")
    case True
    obtain r' checksum' f' where s: "rg_read_sectors ops (of_nat k) (of_nat 8) r = (BLK_STATUS_OK, r')"
        "blk_append ops fops k 8 checksum r' f = (Ok checksum', r', f')" "copied (k + 8) checksum' r' f'"
      using read_page [OF less.prems(1) _ _ k True] by auto
    note step = full_pages.simps [of ops fops k checksum r f]
    show ?thesis
    proof (cases "k = 65536")
      case True
      have "full_pages ops fops k checksum r f = (Err ImageTooBig, r', f')" unfolding step using s True by simp
      thus ?thesis using True \<open>k + 8 \<le> sectors\<close> by auto
    next
      case False
      hence lt: "k + 8 \<le> 65536" using less.prems(2,3) by presburger
      have "full_pages ops fops k checksum r f = full_pages ops fops (k + 8) checksum' r' f'"
        using s lt by (simp add: step)
      moreover have "65544 - (k + 8) < 65544 - k" using lt by simp
      moreover have "(k + 8) mod 8 = 0" using less.prems(3) by simp
      ultimately show ?thesis using less.hyps [OF _ s(3) lt] by presburger
    qed
  next
    case False
    obtain r' where s: "rg_read_sectors ops (of_nat k) (of_nat 8) r = (BLK_BAD_REQUEST, r')" "copied k checksum r' f"
      using read_past [OF less.prems(1) _ _ k, of 8] False by auto
    have "k \<le> sectors" using s(2) by (simp add: copied_def)
    hence "sectors div 8 = k div 8" using False less.prems(3) by (intro div_nat_eqI) auto
    hence "sectors div 8 * 8 = k" using less.prems(3) by auto
    moreover have "full_pages ops fops k checksum r f = (Ok (k, checksum), r', f)"
      unfolding full_pages.simps [of ops fops k checksum r f] using s(1) by simp
    moreover have "\<not> 65544 \<le> sectors" using False less.prems(2) by simp
    ultimately show ?thesis using s(2) by auto
  qed
qed

lemma narrow_step:
  assumes "copied k checksum r f" "0 < count" "count \<le> 8" "k < 2 ^ 32"
  shows "\<exists>checksum' r' f'. copied (if k + count \<le> sectors then k + count else k) checksum' r' f' \<and>
    narrow_tail ops fops (count # counts) k checksum r f =
      narrow_tail ops fops counts (if k + count \<le> sectors then k + count else k) checksum' r' f'"
proof (cases "k + count \<le> sectors")
  case True
  then obtain r' checksum' f' where "rg_read_sectors ops (of_nat k) (of_nat count) r = (BLK_STATUS_OK, r')"
      "blk_append ops fops k count checksum r' f = (Ok checksum', r', f')" "copied (k + count) checksum' r' f'"
    using read_page [OF assms(1,2) _ assms(4) True] assms(3) by auto
  thus ?thesis using True by (intro exI [of _ checksum'] exI [of _ r'] exI [of _ f']) simp
next
  case False
  thus ?thesis using read_past [OF assms(1,2) _ assms(4)] assms(3) by fastforce
qed

lemma narrow_tail_copies:
  assumes "copied k checksum r f" "sectors < k + 8" "k < 2 ^ 31"
  shows "\<exists>checksum' r' f'. narrow_tail ops fops [4, 2, 1] k checksum r f = (Ok (sectors, checksum'), r', f') \<and>
    copied sectors checksum' r' f'"
proof -
  define a where "a = (if k + 4 \<le> sectors then k + 4 else k)"
  define b where "b = (if a + 2 \<le> sectors then a + 2 else a)"
  have bounds: "a < 2 ^ 32" "b < 2 ^ 32" "k < 2 ^ 32" using assms(3) by (auto simp: a_def b_def)
  have k: "k \<le> sectors" using assms(1) by (simp add: copied_def)
  have last: "(if b + 1 \<le> sectors then b + 1 else b) = sectors" using k assms(2) by (auto simp: a_def b_def)
  obtain c1 r1 f1 where 1: "copied a c1 r1 f1"
      "narrow_tail ops fops [4, 2, 1] k checksum r f = narrow_tail ops fops [2, 1] a c1 r1 f1"
    using narrow_step [OF assms(1) _ _ bounds(3), of 4 "[2, 1]"] unfolding a_def by auto
  obtain c2 r2 f2 where 2: "copied b c2 r2 f2" "narrow_tail ops fops [2, 1] a c1 r1 f1 = narrow_tail ops fops [1] b c2 r2 f2"
    using narrow_step [OF 1(1) _ _ bounds(1), of 2 "[1]"] unfolding b_def by auto
  obtain c3 r3 f3 where 3: "copied sectors c3 r3 f3" "narrow_tail ops fops [1] b c2 r2 f2 = narrow_tail ops fops [] sectors c3 r3 f3"
    using narrow_step [OF 2(1) _ _ bounds(2), of 1 "[]"] unfolding last by auto
  show ?thesis using 1 2 3 by auto
qed

definition outcome :: "(pvblk_error, u64) res" where
  "outcome = (if sectors = 0 then Err EmptyDevice else if 65544 \<le> sectors then Err ImageTooBig
     else Ok (of_nat (sectors * SECTOR_SIZE)))"

lemma read_device_copies:
  assumes "ready r" "content f = []"
  shows "\<exists>r' f'. (case outcome of
      Ok n \<Rightarrow> (\<exists>checksum. read_device ops fops r f = (Ok (n, checksum), r', f') \<and> copied sectors checksum r' f')
    | Err e \<Rightarrow> read_device ops fops r f = (Err e, r', f') | Panic \<Rightarrow> False)"
proof -
  have start: "copied 0 CHECKSUM_SEED r f" using assms by (simp add: copied_def)
  show ?thesis
  proof (cases "65544 \<le> sectors")
    case True
    then obtain r' f' where "full_pages ops fops 0 CHECKSUM_SEED r f = (Err ImageTooBig, r', f')"
      using full_pages_copies [OF start] by auto
    thus ?thesis using True by (auto simp: outcome_def read_device_def)
  next
    case False
    obtain r' f' c where p: "full_pages ops fops 0 CHECKSUM_SEED r f = (Ok (sectors div 8 * 8, c), r', f')"
        "copied (sectors div 8 * 8) c r' f'"
      using full_pages_copies [OF start] False by auto
    have "sectors < sectors div 8 * 8 + 8" by presburger
    moreover have "sectors div 8 * 8 < 2 ^ 31" using False by simp
    ultimately obtain c' r2 f2 where
      n: "narrow_tail ops fops [4, 2, 1] (sectors div 8 * 8) c r' f' = (Ok (sectors, c'), r2, f2)" "copied sectors c' r2 f2"
      using narrow_tail_copies [OF p(2)] by blast
    have "read_device ops fops r f = (if sectors = 0 then (Err EmptyDevice, r2, f2) else (Ok (of_nat (sectors * SECTOR_SIZE), c'), r2, f2))"
      unfolding read_device_def p(1) res.case prod.case n(1) by simp
    thus ?thesis using False n(2) by (auto simp: outcome_def)
  qed
qed

lemma verify_loop_total:
  "\<exists>f'. verify_loop fops len sm f = Some (Ok (len + of_nat (length (unread f)), checksum_fold sm (unread f) len), f') \<and> content f' = content f"
proof (induction "length (unread f)" arbitrary: f len sm rule: less_induct)
  case less
  obtain k f' where r: "fo_read fops DMA_PAGE_SIZE f = (Some (take k (unread f)), f')" "unread f \<noteq> [] \<longrightarrow> 0 < k"
      "content f' = content f" "unread f' = drop k (unread f)"
    using read [of DMA_PAGE_SIZE f] by auto
  show ?case
  proof (cases "unread f = []")
    case True
    thus ?thesis using r by (simp add: verify_loop.simps [of fops len sm f])
  next
    case False
    let ?piece = "take k (unread f)"
    have piece: "?piece \<noteq> []" "length (unread f') < length (unread f)" using False r(2,4) by auto
    have "verify_loop fops len sm f = verify_loop fops (len + of_nat (length ?piece)) (checksum_fold sm ?piece len) f'"
      using r(1) piece(1) by (simp add: verify_loop.simps [of fops len sm f])
    moreover have "unread f = ?piece @ unread f'" using r(4) by simp
    ultimately show ?thesis using less.hyps [OF piece(2)] r(3)
      by (metis (no_types, lifting) add.assoc checksum_fold_append length_append of_nat_add)
  qed
qed

lemma verify_file_accepts:
  assumes "copied sectors checksum r f"
  shows "\<exists>f'. verify_file fops (of_nat (sectors * SECTOR_SIZE)) checksum f = Some (Ok (), f') \<and> content f' = content f"
proof -
  obtain f1 where f1: "fo_open fops f = (True, f1)" "content f1 = content f" "unread f1 = content f" using reopen by blast
  have c: "content f = take (sectors * 512) image" "checksum = checksum_fold CHECKSUM_SEED (content f) 0"
    using assms by (simp_all add: copied_def)
  have len: "length (content f) = sectors * 512" using c(1) by (simp add: sectors_def)
  obtain f2 where "verify_loop fops 0 CHECKSUM_SEED f1 = Some (Ok (0 + of_nat (length (unread f1)), checksum_fold CHECKSUM_SEED (unread f1) 0), f2)"
      "content f2 = content f1"
    using verify_loop_total by blast
  thus ?thesis using f1 c(2) len by (simp add: verify_file_def act_bind_def return_def)
qed

lemma materialize_with_outcome:
  assumes "ready r"
  shows "\<exists>r' f'. materialize_with ops fops (r, f) = Some (outcome, r', f') \<and>
    (sectors \<noteq> 0 \<longrightarrow> sectors < 65544 \<longrightarrow> content f' = take (sectors * SECTOR_SIZE) image)"
proof -
  obtain r1 where r1: "rg_read_u32 ops REG_MAGIC r = (DEVICE_ID_PV_BLK, r1)" "ready r1" using magic [OF assms] by blast
  obtain f1 where f1: "fo_create_dir fops f = (True, f1)" using create_dir by blast
  obtain f2 where f2: "fo_create fops f1 = (True, f2)" "content f2 = []" using create by blast
  note d = read_device_copies [OF r1(2) f2(2)]
  have start: "materialize_with ops fops (r, f) =
      (case read_device ops fops r1 f2 of
         (Ok (bytes, checksum), r, f) \<Rightarrow>
           (case fo_flush fops f of (ok, f) \<Rightarrow>
              if \<not> ok then Some (Err FlushFile, r, f)
              else (case verify_file fops bytes checksum f of
                      None \<Rightarrow> None
                    | Some (Ok _, f) \<Rightarrow> Some (Ok bytes, r, f)
                    | Some (Err e, f) \<Rightarrow> Some (Err e, r, f)
                    | Some (Panic, f) \<Rightarrow> Some (Panic, r, f)))
       | (Err e, r, f) \<Rightarrow> Some (Err e, r, f)
       | (Panic, r, f) \<Rightarrow> Some (Panic, r, f))"
    using r1(1) f1 f2(1) by (simp add: materialize_with_def)
  show ?thesis
  proof (cases "sectors = 0 \<or> 65544 \<le> sectors")
    case True
    then obtain e where "outcome = Err e" by (auto simp: outcome_def)
    thus ?thesis using d True unfolding start by auto
  next
    case False
    have ok: "outcome = Ok (of_nat (sectors * SECTOR_SIZE))" using False by (auto simp: outcome_def)
    obtain r3 f3 c where rd: "read_device ops fops r1 f2 = (Ok (of_nat (sectors * SECTOR_SIZE), c), r3, f3)" "copied sectors c r3 f3"
      using d unfolding ok by auto
    obtain f4 where f4: "fo_flush fops f3 = (True, f4)" "content f4 = content f3" using flush by blast
    have "copied sectors c r3 f4" using rd(2) f4(2) by (simp add: copied_def)
    from verify_file_accepts [OF this] obtain f5 where
      f5: "verify_file fops (of_nat (sectors * SECTOR_SIZE)) c f4 = Some (Ok (), f5)" "content f5 = content f4" by blast
    have "content f5 = take (sectors * SECTOR_SIZE) image" using f5(2) f4(2) rd(2) by (simp add: copied_def)
    thus ?thesis unfolding start rd(1) ok using f4(1) f5(1) by simp
  qed
qed

end

section \<open>The device behind the registers\<close>

text \<open>
  The registers latch what is written to them; writing the command reads sectors of the image into the page at
  the buffer address and sets the status, which says whether the range is inside the image.
\<close>

locale pv_blk_device =
  fixes env :: "'w mmio_env" and image :: bytes and page_gpa :: u64 and ready :: "'w \<Rightarrow> bool"
    and sector_of :: "'w \<Rightarrow> u64" and gpa_of :: "'w \<Rightarrow> u64" and count_of :: "'w \<Rightarrow> u32" and status_of :: "'w \<Rightarrow> u32"
  assumes read_magic: "ready w \<Longrightarrow> \<exists>w'. mm_read32 env REG_MAGIC w = (DEVICE_ID_PV_BLK, w') \<and> ready w'"
    and read_status: "ready w \<Longrightarrow> \<exists>w'. mm_read32 env REG_STATUS w = (status_of w, w') \<and> ready w' \<and> mm_dma env w' = mm_dma env w"
    and write_sector: "ready w \<Longrightarrow> ready (mm_write64 env REG_SECTOR s w) \<and> sector_of (mm_write64 env REG_SECTOR s w) = s"
    and write_gpa: "ready w \<Longrightarrow> ready (mm_write64 env REG_BUF_GPA g w) \<and> gpa_of (mm_write64 env REG_BUF_GPA g w) = g \<and>
      sector_of (mm_write64 env REG_BUF_GPA g w) = sector_of w"
    and write_count: "ready w \<Longrightarrow> ready (mm_write32 env REG_COUNT c w) \<and> count_of (mm_write32 env REG_COUNT c w) = c \<and>
      sector_of (mm_write32 env REG_COUNT c w) = sector_of w \<and> gpa_of (mm_write32 env REG_COUNT c w) = gpa_of w"
    and write_cmd: "ready w \<Longrightarrow> gpa_of w = page_gpa \<Longrightarrow> 0 < unat (count_of w) \<Longrightarrow> unat (count_of w) \<le> SECTORS_PER_PAGE \<Longrightarrow>
      ready (mm_write32 env REG_CMD CMD_READ w) \<and>
      status_of (mm_write32 env REG_CMD CMD_READ w) =
        (if unat (sector_of w) + unat (count_of w) \<le> length image div SECTOR_SIZE then BLK_STATUS_OK else BLK_BAD_REQUEST)"
    and dma_filled: "ready w \<Longrightarrow> gpa_of w = page_gpa \<Longrightarrow> 0 < unat (count_of w) \<Longrightarrow> unat (count_of w) \<le> SECTORS_PER_PAGE \<Longrightarrow>
      unat (sector_of w) + unat (count_of w) \<le> length image div SECTOR_SIZE \<Longrightarrow>
      take (unat (count_of w) * SECTOR_SIZE) (mm_dma env (mm_write32 env REG_CMD CMD_READ w)) =
        take (unat (count_of w) * SECTOR_SIZE) (drop (unat (sector_of w) * SECTOR_SIZE) image)"
begin

definition mapped :: "'w mapped_blk \<Rightarrow> bool" where
  "mapped r \<longleftrightarrow> ready (mb_world r) \<and> mb_buf_gpa r = page_gpa \<and> length (mb_page r) = DMA_PAGE_SIZE"

lemma mapped_magic: "mapped r \<Longrightarrow> \<exists>r'. mapped_read_u32 env REG_MAGIC r = (DEVICE_ID_PV_BLK, r') \<and> mapped r'"
  using read_magic [of "mb_world r"] by (auto simp: mapped_def mapped_read_u32_def split: prod.splits)

lemma mapped_read_command:
  assumes "mapped r" "0 < count" "count \<le> SECTORS_PER_PAGE" "sector < 2 ^ 32"
  defines "inside \<equiv> sector + count \<le> length image div SECTOR_SIZE"
  shows "\<exists>r'. mapped_read_sectors env (of_nat sector) (of_nat count) r = (if inside then BLK_STATUS_OK else BLK_BAD_REQUEST, r') \<and>
    mapped r' \<and> (inside \<longrightarrow> take (count * SECTOR_SIZE) (mb_page r') = take (count * SECTOR_SIZE) (drop (sector * SECTOR_SIZE) image))"
proof -
  have u: "unat (of_nat sector :: u64) = sector" "unat (of_nat count :: u32) = count"
    using assms(3,4) by (simp_all add: unat_of_nat)
  define w1 where "w1 = mm_write64 env REG_SECTOR (of_nat sector) (mb_world r)"
  define w2 where "w2 = mm_write64 env REG_BUF_GPA (mb_buf_gpa r) w1"
  define w3 where "w3 = mm_write32 env REG_COUNT (of_nat count) w2"
  define w4 where "w4 = mm_write32 env REG_CMD CMD_READ w3"
  have w3: "ready w3" "gpa_of w3 = page_gpa" "unat (count_of w3) = count" "unat (sector_of w3) = sector"
    using assms(1) write_sector [of "mb_world r" "of_nat sector"] write_gpa [of w1 "mb_buf_gpa r"] write_count [of w2 "of_nat count"] u
    by (simp_all add: mapped_def w1_def w2_def w3_def)
  have w4: "ready w4" "status_of w4 = (if inside then BLK_STATUS_OK else BLK_BAD_REQUEST)"
    using write_cmd [OF w3(1,2)] w3(3,4) assms(2,3) by (simp_all add: w4_def inside_def)
  obtain w5 where w5: "mm_read32 env REG_STATUS w4 = (status_of w4, w5)" "ready w5" "mm_dma env w5 = mm_dma env w4"
    using read_status [OF w4(1)] by blast
  have dma: "take (count * 512) (mm_dma env w5) = take (count * 512) (drop (sector * 512) image)" if inside
    using dma_filled [OF w3(1,2)] w3(3,4) assms(2,3) that by (simp add: w5(3) w4_def inside_def)
  let ?page = "if inside then take (count * 512) (mm_dma env w5) @ drop (count * 512) (mb_page r) else mb_page r"
  have page: "length (mb_page r) = 4096" "count * 512 \<le> 4096" using assms(1,3) by (simp_all add: mapped_def)
  have len: "length (take (count * 512) (drop (sector * 512) image)) = count * 512" if inside
    using that by (simp add: inside_def)
  have "mapped_read_sectors env (of_nat sector) (of_nat count) r = (status_of w4, r\<lparr>mb_page := ?page, mb_world := w5\<rparr>)"
    using w5(1) w4(2) page u unfolding w4_def w3_def w2_def w1_def
    by (simp add: mapped_read_sectors_def mapped_read_u32_def Let_def)
  thus ?thesis using w4(2) w5(2) assms(1) dma len page by (auto simp: mapped_def)
qed

end

sublocale pv_blk_device \<subseteq> blk: block_device "mapped_ops env" image mapped
proof unfold_locales
  fix r assume "mapped r"
  thus "\<exists>r'. rg_read_u32 (mapped_ops env) REG_MAGIC r = (DEVICE_ID_PV_BLK, r') \<and> mapped r'"
    using mapped_magic by (simp add: mapped_ops_def)
next
  fix r and count sector :: nat
  assume a: "mapped r" "0 < count" "count \<le> SECTORS_PER_PAGE" "sector < 2 ^ 32" "sector + count \<le> length image div SECTOR_SIZE"
  obtain r' where "mapped_read_sectors env (of_nat sector) (of_nat count) r = (BLK_STATUS_OK, r')" "mapped r'"
      "take (count * SECTOR_SIZE) (mb_page r') = take (count * SECTOR_SIZE) (drop (sector * SECTOR_SIZE) image)"
    using mapped_read_command [OF a(1-4)] a(5) by auto
  thus "\<exists>r'. rg_read_sectors (mapped_ops env) (of_nat sector) (of_nat count) r = (BLK_STATUS_OK, r') \<and> mapped r' \<and>
      count * SECTOR_SIZE \<le> length (rg_dma (mapped_ops env) r') \<and>
      take (count * SECTOR_SIZE) (rg_dma (mapped_ops env) r') = take (count * SECTOR_SIZE) (drop (sector * SECTOR_SIZE) image)"
    using a(3) by (auto simp: mapped_ops_def mapped_def)
next
  fix r and count sector :: nat
  assume a: "mapped r" "0 < count" "count \<le> SECTORS_PER_PAGE" "sector < 2 ^ 32" "length image div SECTOR_SIZE < sector + count"
  show "\<exists>r'. rg_read_sectors (mapped_ops env) (of_nat sector) (of_nat count) r = (BLK_BAD_REQUEST, r') \<and> mapped r'"
    using mapped_read_command [OF a(1-4)] a(5) by (auto simp: mapped_ops_def)
qed

context pv_blk_device
begin

lemma mapped_device: "block_device (mapped_ops env) image mapped"
  by unfold_locales

lemma new_mapped:
  assumes "ready (mm_zero_dma env w)" "mm_mlock env (mm_zero_dma env w)" "mm_pagemap env (mm_zero_dma env w) = Some pm"
    "gva_to_gpa pm base = Ok page_gpa" "mm_open_mem env (mm_zero_dma env w)" "mm_mmap env PV_BLK_BASE (mm_zero_dma env w)"
  shows "\<exists>regs. MappedPvBlk_new env base w = Ok regs \<and> mapped regs"
  using assms by (simp add: MappedPvBlk_new_def mapped_def Let_def)

end

section \<open>A device and a file\<close>

record demo_blk =
  db_image :: bytes
  db_sector :: u64
  db_gpa :: u64
  db_count :: u32
  db_status :: u32
  db_page :: bytes

record demo_file =
  df_content :: bytes
  df_unread :: bytes

definition demo_command :: "demo_blk \<Rightarrow> demo_blk" where
  "demo_command d =
     (if 0 < db_count d \<and> unat (db_sector d) + unat (db_count d) \<le> length (db_image d) div SECTOR_SIZE
      then d\<lparr>db_status := BLK_STATUS_OK,
             db_page := take (unat (db_count d) * SECTOR_SIZE) (drop (unat (db_sector d) * SECTOR_SIZE) (db_image d))\<rparr>
      else d\<lparr>db_status := BLK_BAD_REQUEST\<rparr>)"

definition demo_mmio :: "demo_blk mmio_env" where
  "demo_mmio =
     \<lparr>mm_read32 = (\<lambda>off d. (if off = REG_MAGIC then DEVICE_ID_PV_BLK else db_status d, d)),
      mm_write32 = (\<lambda>off v d. if off = REG_CMD then demo_command d else d\<lparr>db_count := v\<rparr>),
      mm_write64 = (\<lambda>off v d. if off = REG_SECTOR then d\<lparr>db_sector := v\<rparr> else d\<lparr>db_gpa := v\<rparr>),
      mm_dma = db_page, mm_zero_dma = (\<lambda>d. d\<lparr>db_page := replicate DMA_PAGE_SIZE 0\<rparr>), mm_mlock = (\<lambda>d. True),
      mm_pagemap = (\<lambda>d. Some two_pages), mm_open_mem = (\<lambda>d. True), mm_mmap = (\<lambda>base d. True)\<rparr>"

definition demo_fops :: "demo_file file_ops" where
  "demo_fops =
     \<lparr>fo_create_dir = (\<lambda>f. (True, f)), fo_create = (\<lambda>f. (True, f\<lparr>df_content := []\<rparr>)),
      fo_write = (\<lambda>bs f. (True, f\<lparr>df_content := df_content f @ bs\<rparr>)), fo_flush = (\<lambda>f. (True, f)),
      fo_open = (\<lambda>f. (True, f\<lparr>df_unread := df_content f\<rparr>)),
      fo_read = (\<lambda>n f. (Some (take n (df_unread f)), f\<lparr>df_unread := drop n (df_unread f)\<rparr>))\<rparr>"

interpretation demo_dev: pv_blk_device demo_mmio img page_gpa "\<lambda>d. db_image d = img" db_sector db_gpa db_count db_status
  for img page_gpa
  by unfold_locales (auto simp: demo_mmio_def demo_command_def Let_def word_less_nat_alt)

interpretation demo_file: image_file demo_fops df_content df_unread
proof unfold_locales
  fix n :: nat and f assume "0 < n"
  thus "\<exists>k f'. fo_read demo_fops n f = (Some (take k (df_unread f)), f') \<and> k \<le> n \<and> (df_unread f \<noteq> [] \<longrightarrow> 0 < k) \<and>
      df_content f' = df_content f \<and> df_unread f' = drop k (df_unread f)"
    by (intro exI [of _ n]) (simp add: demo_fops_def)
qed (auto simp: demo_fops_def)

interpretation demo_copy: image_copy "mapped_ops demo_mmio" img "pv_blk_device.mapped page_gpa (\<lambda>d. db_image d = img)" demo_fops df_content df_unread
  for img page_gpa
  by unfold_locales

section \<open>The image on the file system\<close>

text \<open>C20. Materializing the game over a device that honours its register contract and a file system that
  honours its own: the file ends up holding exactly the whole sectors of the image and the call reports their
  number of bytes, the read back having agreed in length and checksum; a device with no sector is refused as empty,
  and one of 65544 sectors or more as too big. The cap of 32 MiB is 65536 sectors: up to seven sectors over it pass,
  since the narrowed reads of the tail are not measured against the cap.\<close>

theorem materialize_exact:
  assumes "pv_blk_device env img gpa ready sector_of gpa_of count_of status_of" "image_file fops content unread"
    "ready (mm_zero_dma env w)" "mm_mlock env (mm_zero_dma env w)" "mm_pagemap env (mm_zero_dma env w) = Some pm"
    "gva_to_gpa pm base = Ok gpa" "mm_open_mem env (mm_zero_dma env w)" "mm_mmap env PV_BLK_BASE (mm_zero_dma env w)"
  defines "n \<equiv> length img div SECTOR_SIZE"
  shows "\<exists>w' f'. materialize env fops base w f =
      Some (if n = 0 then Err EmptyDevice else if 65544 \<le> n then Err ImageTooBig else Ok (of_nat (n * SECTOR_SIZE)), w', f') \<and>
    (n \<noteq> 0 \<longrightarrow> n < 65544 \<longrightarrow> content f' = take (n * SECTOR_SIZE) img)"
proof -
  obtain regs where regs: "MappedPvBlk_new env base w = Ok regs" "pv_blk_device.mapped gpa ready regs"
    using pv_blk_device.new_mapped [OF assms(1,3-8)] by blast
  note copy = image_copy.intro [OF pv_blk_device.mapped_device [OF assms(1)] assms(2)]
  obtain r' f' where "materialize_with (mapped_ops env) fops (regs, f) = Some (image_copy.outcome img, r', f')"
      "n \<noteq> 0 \<longrightarrow> n < 65544 \<longrightarrow> content f' = take (n * SECTOR_SIZE) img"
    using image_copy.materialize_with_outcome [OF copy regs(2)] unfolding n_def image_copy.sectors_def [OF copy] by blast
  moreover have "image_copy.outcome img = (if n = 0 then Err EmptyDevice else if 65544 \<le> n then Err ImageTooBig else Ok (of_nat (n * SECTOR_SIZE)))"
    by (simp only: image_copy.outcome_def [OF copy] image_copy.sectors_def [OF copy] n_def)
  ultimately show ?thesis using regs(1) by (simp add: materialize_def)
qed

theorem materialize_exact_witness:
  "\<exists>w' f'. materialize demo_mmio demo_fops 0x1000
      \<lparr>db_image = replicate 1100 7, db_sector = 0, db_gpa = 0, db_count = 0, db_status = 0, db_page = []\<rparr>
      \<lparr>df_content = [1, 2, 3], df_unread = []\<rparr> = Some (Ok 1024, w', f') \<and>
    df_content f' = replicate 1024 7"
proof -
  have g: "gva_to_gpa two_pages 0x1000 = Ok 0x9000"
    by (simp add: gva_to_gpa_def two_pages_def decode_entry_def from_le_bytes_def)
  show ?thesis
    using materialize_exact [OF demo_dev.pv_blk_device_axioms [of "replicate 1100 7"] demo_file.image_file_axioms _ _ _ g,
      where w = "\<lparr>db_image = replicate 1100 7, db_sector = 0, db_gpa = 0, db_count = 0, db_status = 0, db_page = []\<rparr>"
        and f = "\<lparr>df_content = [1, 2, 3], df_unread = []\<rparr>"]
    by (simp add: demo_mmio_def)
qed

end
