(* ===== verification/Agent_Gate.thy ===== *)
theory Agent_Gate
  imports Agent_Runtime Agent_Commands Agent_Game
begin

text \<open>
  The READY gate. The evidence found in a manifest is exactly what the manifest says of the expected regions, and
  \<open>Ready\<close> is emitted only from a state in which every expected region is live at its pinned layout version.
\<close>

section \<open>Evidence\<close>

definition evidence_of :: "u32 \<Rightarrow> region_entry \<Rightarrow> region_evidence" where
  "evidence_of generation entry = \<lparr>evd_region_id = ent_region_id entry, evd_name_id = ent_name_id entry, evd_name = name_bytes entry,
     evd_layout_version = ent_layout_version entry, evd_generation = generation\<rparr>"

text \<open>The first slot that holds an expected region.\<close>

definition first_match :: "bytes \<Rightarrow> nat \<Rightarrow> expected_region \<Rightarrow> region_entry option" where
  "first_match m n expected = find (entry_matches expected) (map (area_slot m) [0..<n])"

lemma find_expected_first:
  assumes "area_len m" "\<forall>i \<in> set is. i < REGION_CAPACITY"
  shows "find_expected m generation expected is =
    Ok (map_option (evidence_of generation) (find (entry_matches expected) (map (area_slot m) is)))"
  using assms(2) by (induction "is") (simp_all add: area_read [OF assms(1)] evidence_of_def)

lemma gather_first:
  assumes "area_len m" "n \<le> REGION_CAPACITY"
  shows "gather m generation n es = Ok (filter (\<lambda>e. first_match m n e = None) es,
     List.map_filter (\<lambda>e. map_option (evidence_of generation) (first_match m n e)) es)"
proof (induction es)
  case (Cons e es)
  have "find_expected m generation e [0..<n] = Ok (map_option (evidence_of generation) (first_match m n e))"
    using find_expected_first [OF assms(1), of "[0..<n]"] assms(2) by (simp add: first_match_def)
  then show ?case using Cons by (cases "first_match m n e") (simp_all add: map_filter_simps)
qed (simp add: map_filter_simps)

lemma copy_at_once:
  "read_generation m = Ok g \<Longrightarrow> even (unat g) \<Longrightarrow> copy_stable_loop (\<lambda>_. m) (Suc n) k = Ok m"
  by (simp add: word_unat_eq_iff unat_mod even_iff_mod_2_eq_zero)

lemma map_filter_total: "filter (\<lambda>e. g e = None) es = [] \<Longrightarrow> List.map_filter (\<lambda>e. map_option f (g e)) es = map (\<lambda>e. f (the (g e))) es"
  by (induction es) (auto simp: map_filter_simps split: if_splits option.splits)

lemma checked_manifest_ok:
  assumes "area_ok (agent_manifest c)"
  shows "checked_manifest c = Ok (agent_manifest c, area_hdr (agent_manifest c))"
proof -
  let ?m = "agent_manifest c"
  have len: "area_len ?m" and v: "ManifestHeader_validate (area_hdr ?m) = Ok ()" and e: "even (unat (mh_generation (area_hdr ?m)))"
    using assms by (simp_all add: area_ok_def)
  have "copy_manifest_stable c = Ok ?m"
    using copy_at_once [OF area_read(4) [OF len] e, of 1023 0] by (simp add: copy_manifest_stable_def del: copy_stable_loop.simps)
  then show ?thesis using area_read(1) [OF len] v by (simp add: checked_manifest_def)
qed

lemma region_count_small: "ManifestHeader_validate hdr = Ok () \<Longrightarrow> unat (mh_region_count hdr) \<le> REGION_CAPACITY"
  by (auto simp: ManifestHeader_validate_def word_less_nat_alt split: if_splits)

definition gate_verdict :: "bytes \<Rightarrow> expected_region list \<Rightarrow> (gate_error, ready_manifest \<times> region_evidence list) res" where
  "gate_verdict m es =
     (let hdr = area_hdr m; n = unat (mh_region_count hdr); missing = filter (\<lambda>e. first_match m n e = None) es
      in if 2 ^ 32 \<le> unat (mh_generation hdr) then Err (GenerationRange (mh_generation hdr))
         else if missing \<noteq> [] then Err (Pending missing)
         else Ok (ready_of hdr, map (\<lambda>e. evidence_of (ucast (mh_generation hdr)) (the (first_match m n e))) es))"

lemma evidence_verdict:
  assumes "area_ok (agent_manifest c)"
  shows "expected_region_evidence c es = gate_verdict (agent_manifest c) es"
proof -
  let ?m = "agent_manifest c"
  have len: "area_len ?m" and n: "unat (mh_region_count (area_hdr ?m)) \<le> REGION_CAPACITY"
    using assms region_count_small by (auto simp: area_ok_def)
  show ?thesis
    by (simp add: map_filter_total expected_region_evidence_def checked_manifest_ok [OF assms] gate_verdict_def try_u32_def gather_first [OF len n] Let_def)
qed

section \<open>What the gate lets through\<close>

lemma copy_is_area: "copy_stable_loop (\<lambda>_. m) n k = Ok x \<Longrightarrow> x = m"
  by (induction n arbitrary: k) (auto simp: bind_res_eq_Ok split: if_splits)

lemma find_expected_Ok:
  "find_expected m generation e is = Ok (Some ev) \<Longrightarrow> \<exists>i \<in> set is. \<exists>entry. RegionEntry_read_from m i = Ok entry \<and> entry_matches e entry"
  by (induction "is") (auto simp: bind_res_eq_Ok split: if_splits)

lemma gather_Ok:
  "gather m generation n es = Ok ([], evs) \<Longrightarrow>
     \<forall>e \<in> set es. \<exists>i < n. \<exists>entry. RegionEntry_read_from m i = Ok entry \<and> entry_matches e entry"
proof (induction es arbitrary: evs)
  case (Cons e es)
  from Cons.prems obtain ev evs' where "find_expected m generation e [0..<n] = Ok (Some ev)" "gather m generation n es = Ok ([], evs')"
    by (auto simp: bind_res_eq_Ok split: option.splits prod.splits)
  with Cons.IH find_expected_Ok show ?case by fastforce
qed simp

text \<open>Every expected region has a live entry with its name and layout version among the counted entries of the manifest.\<close>

definition expected_live :: "bytes \<Rightarrow> expected_region list \<Rightarrow> bool" where
  "expected_live m es \<longleftrightarrow> (\<exists>hdr. ManifestHeader_read_from m = Ok hdr \<and> ManifestHeader_validate hdr = Ok () \<and>
     (\<forall>e \<in> set es. \<exists>i < unat (mh_region_count hdr). \<exists>entry. RegionEntry_read_from m i = Ok entry \<and> is_live entry
        \<and> ent_layout_version entry = er_layout_version e \<and> name_bytes entry = str_bytes (er_name e)))"

lemma evidence_live: "expected_region_evidence c es = Ok (snap, evs) \<Longrightarrow> expected_live (agent_manifest c) es"
  unfolding expected_region_evidence_def checked_manifest_def copy_manifest_stable_def expected_live_def entry_matches_def [symmetric]
  by (auto simp: bind_res_eq_Ok dest!: copy_is_area gather_Ok split: if_splits prod.splits)

section \<open>Announcing\<close>

definition evidence_events :: "region_evidence \<Rightarrow> event_payload list" where
  "evidence_events r = [Ev_NameIntern (evd_name_id r) (evd_name r), Ev_RegionRegister
     \<lparr>re_region_id = evd_region_id r, re_name_id = evd_name_id r, re_layout_version = evd_layout_version r, re_manifest_generation = evd_generation r\<rparr>]"

definition breadcrumb_event :: "string \<Rightarrow> event_payload" where
  "breadcrumb_event msg = Ev_LogLine STREAM_AGENT 1 (ascii msg)"

definition ready_events :: "u32 \<Rightarrow> ready_manifest \<Rightarrow> region_evidence list \<Rightarrow> event_payload list" where
  "ready_events u snap evidence = breadcrumb_event ''boot: regions-gated'' # concat (map evidence_events evidence)
     @ [breadcrumb_event ''boot: evidence-done'', Ev_Ready u (rdy_region_count snap) (rdy_generation snap)]"

lemma evidence_named: "length (evd_name (evidence_of g (area_slot m i))) \<le> 56"
  using length_takeWhile_le [of "\<lambda>b. b \<noteq> 0" "ent_name (area_slot m i)"]
  by (simp add: evidence_of_def name_bytes_def area_slot_def entry_parse_def)

lemma find_in: "find P xs = Some x \<Longrightarrow> x \<in> set xs"
  by (auto simp: find_Some_iff)

lemma verdict_named: "gate_verdict m es = Ok (snap, evidence) \<Longrightarrow> \<forall>r \<in> set evidence. length (evd_name r) \<le> MAX_NAME"
proof -
  have "length (evd_name (evidence_of g (the (first_match m n e)))) \<le> 256" if f: "first_match m n e \<noteq> None" for g n e
  proof -
    obtain x where x: "first_match m n e = Some x" using f by blast
    then obtain i where "x = area_slot m i" using find_in [OF x [unfolded first_match_def]] by auto
    then show ?thesis using evidence_named [of g m i] x by simp
  qed
  then show "gate_verdict m es = Ok (snap, evidence) \<Longrightarrow> ?thesis"
    by (auto simp: gate_verdict_def Let_def filter_empty_conv split: if_splits)
qed

lemma evidence_runs:
  assumes served: "agent_served (se_agent env) winv patience log" and t: "told winv log strm evs s"
    and n: "\<forall>r \<in> set evidence. length (evd_name r) \<le> MAX_NAME"
  shows "ends (for_each evidence (emit_evidence env)) (\<lambda>_ s'. idle winv log strm (evs @ concat (map evidence_events evidence)) s s') s"
proof (rule ends_for_each_trace [where I = "\<lambda>pre s'. idle winv log strm (evs @ concat (map evidence_events pre)) s s'"])
  fix pre r rest q assume e: "evidence = pre @ r # rest" and q: "idle winv log strm (evs @ concat (map evidence_events pre)) s q"
  have i: "event_item_ok (0, 0, Ev_NameIntern (evd_name_id r) (evd_name r))" using n e by (simp add: event_item_ok_def)
  show "ends (emit_evidence env r) (\<lambda>_ s'. idle winv log strm (evs @ concat (map evidence_events (pre @ [r]))) s s') q"
    unfolding emit_evidence_def
    apply (rule ends_then [OF emit_told(1) [OF served i conjunct2 [OF q]]], elim conjE)
    apply (rule ends_mono [OF emit_told(1) [OF served log_item(6)]], assumption)
    apply (use q in \<open>auto simp: evidence_events_def intro: tended_trans tended_trans [OF tended_trans]\<close>)
    done
qed (use t tended_refl in simp)

lemma announce_ready_runs:
  fixes env :: "'w sup_env"
  assumes served: "agent_served (se_agent env) winv patience log" and t: "told winv log strm evs t"
    and ok: "area_ok (agent_manifest (chan t))" and v: "gate_verdict (agent_manifest (chan t)) es = Ok (snap, evidence)"
  shows "ends (act_bind (breadcrumb env ''boot: regions-gated'') (\<lambda>_.
      act_bind (emit_expected_region_evidence env es snap) (\<lambda>_.
      act_bind (breadcrumb env ''boot: evidence-done'') (\<lambda>_. emit_ready env u snap))))
     (\<lambda>_ s'. idle winv log strm (evs @ ready_events u snap evidence) t s') t"
proof -
  have crumb: "ends (breadcrumb env msg :: ('w supervisor, 'f, unit) act) (\<lambda>_ s'. idle winv log strm (es @ [breadcrumb_event msg]) q s') q"
    if "told winv log strm es q" for msg es and q :: "'w supervisor"
    unfolding breadcrumb_def breadcrumb_event_def by (rule emit_told(1) [OF served log_item(1) that])
  have emit: "ends (emit_expected_region_evidence env es snap) (\<lambda>_ s'. idle winv log strm (evs' @ concat (map evidence_events evidence)) q s') q"
    if "tended t q" "told winv log strm evs' q" for q evs'
  proof (cases "es = []")
    case True
    then have "evidence = []" using v by (auto simp: gate_verdict_def Let_def split: if_splits)
    then show ?thesis using True that tended_refl by (simp add: emit_expected_region_evidence_def ends_return)
  next
    case False
    have "expected_region_evidence (chan q) es = Ok (snap, evidence)"
      using evidence_verdict [of "chan q" es] ok v tended_fields(8) [OF that(1)] by simp
    then show ?thesis using False evidence_runs [OF served that(2) verdict_named [OF v]]
      by (simp add: emit_expected_region_evidence_def read_channel_def ends_rules)
  qed
  show ?thesis
    apply (rule ends_then [OF crumb [OF t]], elim conjE)
    apply (rule ends_then [OF emit], assumption+, elim conjE)
    apply (rule ends_then [OF crumb], assumption, elim conjE)
    unfolding emit_ready_def
    apply (rule ends_mono [OF emit_told(2) [OF served log_item(5)]], assumption)
    apply (auto simp: ready_events_def intro: tended_trans tended_trans [OF tended_trans] tended_trans [OF tended_trans [OF tended_trans]])
    done
qed

lemma gate_passes:
  assumes serve: "service_region_ipc env s = Some (Ok (), t)" and ok: "area_ok (agent_manifest (chan t))"
    and v: "gate_verdict (agent_manifest (chan t)) es = Ok (snap, evidence)"
  shows "wait_for_expected_regions env es s = Some (Ok snap, t)"
proof (cases "es = []")
  case True
  then show ?thesis using serve v
    by (auto simp: wait_for_expected_regions_def lift_err_def act_bind_def act_catch_def read_channel_def gets_def of_res_def
        read_ready_manifest_def checked_manifest_ok [OF ok] gate_verdict_def Let_def split: if_splits)
next
  case False
  have "expected_regions_ready (chan t) es = Ok snap" using evidence_verdict [OF ok] v by (simp add: expected_regions_ready_def)
  then have "gate_loop env es (Suc k) None s = Some (Ok snap, t)" for k
    using serve by (simp add: lift_err_def act_bind_def act_catch_def gets_def return_def)
  from this [of 599] show ?thesis using False by (simp add: wait_for_expected_regions_def del: gate_loop.simps)
qed

text \<open>
  C6. Nothing is announced too early: when the boot of an autostart unit returns without a fault, it passed
  through a state in which every expected region was live in the channel's manifest at its pinned layout version, and
  what it did from there was exactly to emit the evidence of those regions, as found in that manifest, and
  \<open>Ready\<close> with that manifest's region count and generation.
\<close>

theorem ready_gated:
  assumes "autostart_and_ready b s = Some (Ok x, s')" and "bm_autostart_unit (sv_manifest s) = Some u"
    and "es = bm_expected_regions (sv_manifest s)" "es \<noteq> []"
  shows "\<exists>t snap evidence. expected_region_evidence (ri_channel (sv_ipc t)) es = Ok (snap, evidence)
     \<and> expected_live (agent_manifest (ri_channel (sv_ipc t))) es
     \<and> act_bind (for_each evidence (emit_evidence (bo_sup b))) (\<lambda>_. act_bind (breadcrumb (bo_sup b) ''boot: evidence-done'')
         (\<lambda>_. emit_ready (bo_sup b) u snap)) t = Some (Ok x, s')"
proof -
  from assms obtain t snap where t: "act_bind (emit_expected_region_evidence (bo_sup b) es snap) (\<lambda>_.
      act_bind (breadcrumb (bo_sup b) ''boot: evidence-done'') (\<lambda>_. emit_ready (bo_sup b) u snap)) t = Some (Ok x, s')"
    unfolding autostart_and_ready_def Let_def
    by (subst (asm) bind_Ok) (auto simp: gets_def bind_Ok simp del: not_None_eq)
  then obtain evidence where e: "expected_region_evidence (chan t) es = Ok (snap, evidence)"
      "emit_expected_region_evidence (bo_sup b) es snap t = for_each evidence (emit_evidence (bo_sup b)) t"
    using assms(4) by (auto simp: bind_Ok emit_expected_region_evidence_def read_channel_def act_bind_def gets_def of_res_def fail_def
        split: prod.splits res.splits if_splits option.splits)
  then show ?thesis using t evidence_live [OF e(1)]
    by (intro exI [of _ t] exI [of _ snap] exI [of _ evidence]) (simp add: act_bind_def)
qed

lemma ends_step: "f s = Some (Ok a, s') \<Longrightarrow> ends (g a) Q s' \<Longrightarrow> ends (act_bind f g) Q s"
  by (simp add: ends_def act_bind_def)

lemma boot_announces:
  assumes "agent_served (se_agent (bo_sup b)) winv patience log"
    and "bm_autostart_unit (sv_manifest s) = Some u" "Option.bind (BootManifest_unit (sv_manifest s) u) bu_control = None"
    and "start_unit (bo_sup b) u s = Some (Ok (), s1)" "service_region_ipc (bo_sup b) s1 = Some (Ok (), t)"
    and "told winv log strm evs t" "area_ok (agent_manifest (chan t))"
    and "gate_verdict (agent_manifest (chan t)) (bm_expected_regions (sv_manifest s)) = Ok (snap, evidence)"
  shows "ends (autostart_and_ready b) (\<lambda>_ s'. tended t s' \<and> told winv log strm (evs @ ready_events u snap evidence) s') s"
  unfolding autostart_and_ready_def Let_def ends_bind [of "gets sv_manifest"] ends_gets assms(2,3) option.case
proof (rule ends_step)
  show "lift_err (AutostartUnit u) (start_unit (bo_sup b) u) s = Some (Ok (), s1)"
    using assms(4) by (simp add: lift_err_def act_catch_def)
qed (rule ends_step, rule gate_passes [OF assms(5,7,8)], rule announce_ready_runs [OF assms(1,6,7,8)])

text \<open>
  C19. The boot is announced in order: once the autostart unit has started and a pass over the region sockets leaves a
  manifest that holds every expected region, the boot returns and what it sends is exactly the breadcrumb, the name and
  the registration of each expected region in the order of the configuration, the second breadcrumb and \<open>Ready\<close>.
\<close>

theorem ready_exact:
  assumes "agent_served (se_agent (bo_sup b)) winv patience log"
    and "bm_autostart_unit (sv_manifest s) = Some u" "Option.bind (BootManifest_unit (sv_manifest s) u) bu_control = None"
    and "start_unit (bo_sup b) u s = Some (Ok (), s1)" "service_region_ipc (bo_sup b) s1 = Some (Ok (), t)"
    and "told winv log strm evs t" "area_ok (agent_manifest (chan t))"
    and "gate_verdict (agent_manifest (chan t)) (bm_expected_regions (sv_manifest s)) = Ok (snap, evidence)"
  shows "ends (autostart_and_ready b) (\<lambda>_ s'. tended t s' \<and> told winv log strm (evs @ ready_events u snap evidence) s') s"
  by (rule boot_announces [OF assms])

text \<open>A boot whose unit has one expected region, already in the manifest.\<close>

definition demo_boot :: "(demo_world, demo_blk, demo_file) boot_env" where
  "demo_boot = \<lparr>bo_sup = demo_sup_env, bo_socketpair = (\<lambda>w. (None, w)), bo_socket = (\<lambda>_. \<lparr>ce_send = (\<lambda>bs w. (None, w)), ce_recv = (\<lambda>w. (RecvFailed, w))\<rparr>),
     bo_mmio = demo_mmio, bo_dma_base = 0x1000, bo_files = demo_fops, bo_device = (\<lambda>_. \<lparr>db_image = [], db_sector = 0, db_gpa = 0, db_count = 0, db_status = 0, db_page = []\<rparr>), bo_set_device = (\<lambda>_ w. w),
     bo_file = (\<lambda>_. \<lparr>df_content = [], df_unread = []\<rparr>), bo_set_file = (\<lambda>_ w. w), bo_remove_file = (\<lambda>w. (True, w))\<rparr>"

definition demo_expected :: expected_region where
  "demo_expected = \<lparr>er_name = [0x77], er_layout_version = 1\<rparr>"

definition demo_booting :: "bytes \<Rightarrow> demo_world supervisor" where
  "demo_booting m = (demo_supervisor None)\<lparr>sv_ipc := (demo_service [])\<lparr>ri_channel := set_manifest m (ri_channel (demo_service []))\<rparr>,
     sv_manifest := \<lparr>bm_autostart_unit = Some 0, bm_units = [demo_unit], bm_expected_regions = [demo_expected]\<rparr>\<rparr>"

lemma demo_conf: "bo_sup demo_boot = demo_sup_env" "bm_autostart_unit (sv_manifest (demo_booting m)) = Some 0"
    "bm_expected_regions (sv_manifest (demo_booting m)) = [demo_expected]" "Option.bind (BootManifest_unit (sv_manifest (demo_booting m)) 0) bu_control = None"
  by (simp_all add: demo_boot_def demo_booting_def BootManifest_unit_def demo_unit_def)

lemma demo_booted:
  obtains m s1 pid where "area_ok m" "gate_verdict m [demo_expected] = Ok (\<lparr>rdy_region_count = 1, rdy_generation = 2\<rparr>,
       [\<lparr>evd_region_id = 0, evd_name_id = 7, evd_name = [0x77], evd_layout_version = 1, evd_generation = 2\<rparr>])"
    and "start_unit demo_sup_env 0 (demo_booting m) = Some (Ok (), s1)" "service_region_ipc demo_sup_env s1 = Some (Ok (), s1)"
    and "told demo_inv dw_log (Tape [] (0, 0)) [Ev_WorkloadStarted pid 0] s1" "agent_manifest (chan s1) = m"
proof -
  obtain m where m: "ledger_ok m [demo_record]" "unat (mh_region_count (area_hdr m)) = 1" "mh_generation (area_hdr m) = 2"
    by (rule demo_registered)
  have ok: "area_ok m" using m(1) by (simp add: ledger_ok_def)
  have "mh_region_count (area_hdr m) = 1" using m(2) by (metis unat_1 word_unat_eq_iff)
  moreover have "agrees m demo_record" using m(1) by (simp add: ledger_ok_def)
  moreover have "name_bytes e = [0x77]" if "ent_name e = patch (replicate 56 0) 0 [0x77]" for e
    using that by (simp add: name_bytes_def patch_def)
  ultimately have v: "gate_verdict m [demo_expected] = Ok (\<lparr>rdy_region_count = 1, rdy_generation = 2\<rparr>,
       [\<lparr>evd_region_id = 0, evd_name_id = 7, evd_name = [0x77], evd_layout_version = 1, evd_generation = 2\<rparr>])"
    using m(3) by (auto simp: gate_verdict_def Let_def first_match_def ready_of_def evidence_of_def agrees_def demo_record_def record_slot_def
        demo_expected_def entry_matches_def str_bytes_def utf8_char_def)
  have "told demo_inv dw_log (Tape [] (0, 0)) [] (demo_booting m)"
    using sent_set_manifest [OF demo_told [of None] ledger_len [OF m(1)]] by (simp add: demo_booting_def demo_supervisor_def)
  moreover have "BootManifest_unit (sv_manifest (demo_booting m)) 0 = Some demo_unit" "sv_workload (demo_booting m) = None" "runnable demo_unit"
    by (simp_all add: BootManifest_unit_def demo_booting_def demo_supervisor_def demo_unit_def runnable_def str_bytes_def utf8_char_def)
  ultimately obtain s1 where s1: "start_unit demo_sup_env 0 (demo_booting m) = Some (Ok (), s1)" "started demo_inv dw_log (Tape [] (0, 0)) [] demo_sup_env demo_unit (demo_booting m) s1"
    using start_unit_runs [OF demo_sup_served demo_quiet(2)] unfolding start_unit_def ends_def by fastforce
  from s1(2) obtain w v where w: "told demo_inv dw_log (Tape [] (0, 0)) [Ev_WorkloadStarted (of_int (wl_pid w)) 0] s1"
      "tended (push_world v ((demo_booting m)\<lparr>sv_log_mask := bu_log_mask demo_unit, sv_workload := Some w\<rparr>)) s1"
    by (auto simp: started_def demo_unit_def)
  have "sv_bound s1 = False" "agent_manifest (chan s1) = m"
    using tended_fields(1,8) [OF w(2)] set_manifest_facts(1) [of "ri_channel (demo_service [])" m] ledger_len [OF m(1)] sent_length [OF demo_told [of None]]
    by (simp_all add: push_world_def demo_booting_def demo_supervisor_def agent_manifest_def)
  with that ok v s1(1) w(1) show ?thesis by (simp add: service_region_ipc_def act_bind_def gets_def return_def)
qed

theorem ready_gated_witness:
  "\<exists>m (t :: demo_world supervisor) snap evidence s'. expected_region_evidence (ri_channel (sv_ipc t)) [demo_expected] = Ok (snap, evidence)
     \<and> expected_live (agent_manifest (ri_channel (sv_ipc t))) [demo_expected] \<and> autostart_and_ready demo_boot (demo_booting m) = Some (Ok (), s')"
proof -
  obtain m s1 pid where m: "area_ok m" "gate_verdict m [demo_expected] = Ok (\<lparr>rdy_region_count = 1, rdy_generation = 2\<rparr>,
       [\<lparr>evd_region_id = 0, evd_name_id = 7, evd_name = [0x77], evd_layout_version = 1, evd_generation = 2\<rparr>])"
    and s1: "start_unit demo_sup_env 0 (demo_booting m) = Some (Ok (), s1)" "service_region_ipc demo_sup_env s1 = Some (Ok (), s1)"
      "told demo_inv dw_log (Tape [] (0, 0)) [Ev_WorkloadStarted pid 0] s1" "agent_manifest (chan s1) = m" by (rule demo_booted)
  have "\<exists>s'. autostart_and_ready demo_boot (demo_booting m) = Some (Ok (), s')"
    using boot_announces [of demo_boot demo_inv "\<lambda>_. 0" dw_log "demo_booting m" 0 s1 s1 "Tape [] (0, 0)" "[Ev_WorkloadStarted pid 0]"] demo_sup_served m s1 demo_conf
    by (auto simp: ends_def)
  then obtain s' where s': "autostart_and_ready demo_boot (demo_booting m) = Some (Ok (), s')" by blast
  from ready_gated [OF this _ refl, of 0] s' show ?thesis using demo_conf by auto
qed

theorem ready_exact_witness:
  "\<exists>m pid. ends (autostart_and_ready demo_boot) (\<lambda>_ s'. told demo_inv dw_log (Tape [] (0, 0))
     [Ev_WorkloadStarted pid 0, breadcrumb_event ''boot: regions-gated'', Ev_NameIntern 7 [0x77], Ev_RegionRegister
        \<lparr>re_region_id = 0, re_name_id = 7, re_layout_version = 1, re_manifest_generation = 2\<rparr>,
      breadcrumb_event ''boot: evidence-done'', Ev_Ready 0 1 2] s') (demo_booting m)"
proof -
  obtain m s1 pid where m: "area_ok m" "gate_verdict m [demo_expected] = Ok (\<lparr>rdy_region_count = 1, rdy_generation = 2\<rparr>,
       [\<lparr>evd_region_id = 0, evd_name_id = 7, evd_name = [0x77], evd_layout_version = 1, evd_generation = 2\<rparr>])"
    and s1: "start_unit demo_sup_env 0 (demo_booting m) = Some (Ok (), s1)" "service_region_ipc demo_sup_env s1 = Some (Ok (), s1)"
      "told demo_inv dw_log (Tape [] (0, 0)) [Ev_WorkloadStarted pid 0] s1" "agent_manifest (chan s1) = m" by (rule demo_booted)
  have r: "ready_events 0 \<lparr>rdy_region_count = 1, rdy_generation = 2\<rparr>
      [\<lparr>evd_region_id = 0, evd_name_id = 7, evd_name = [0x77], evd_layout_version = 1, evd_generation = 2\<rparr>]
    = [breadcrumb_event ''boot: regions-gated'', Ev_NameIntern 7 [0x77], Ev_RegionRegister
        \<lparr>re_region_id = 0, re_name_id = 7, re_layout_version = 1, re_manifest_generation = 2\<rparr>,
      breadcrumb_event ''boot: evidence-done'', Ev_Ready 0 1 2]"
    by (simp add: ready_events_def evidence_events_def)
  have "ends (autostart_and_ready demo_boot) (\<lambda>_ s'. tended s1 s' \<and> told demo_inv dw_log (Tape [] (0, 0)) ([Ev_WorkloadStarted pid 0]
     @ ready_events 0 \<lparr>rdy_region_count = 1, rdy_generation = 2\<rparr>
      [\<lparr>evd_region_id = 0, evd_name_id = 7, evd_name = [0x77], evd_layout_version = 1, evd_generation = 2\<rparr>]) s') (demo_booting m)"
    by (rule ready_exact [where t = s1 and u = 0 and patience = "\<lambda>_. 0" and ?s1.0 = s1]) (use demo_sup_served m s1 demo_conf in simp_all)
  then have "ends (autostart_and_ready demo_boot) (\<lambda>_ s'. told demo_inv dw_log (Tape [] (0, 0))
     [Ev_WorkloadStarted pid 0, breadcrumb_event ''boot: regions-gated'', Ev_NameIntern 7 [0x77], Ev_RegionRegister
        \<lparr>re_region_id = 0, re_name_id = 7, re_layout_version = 1, re_manifest_generation = 2\<rparr>,
      breadcrumb_event ''boot: evidence-done'', Ev_Ready 0 1 2] s') (demo_booting m)"
    unfolding r by (rule ends_mono) simp
  then show ?thesis by blast
qed

end
