(* ===== verification/Spec2Isabelle.thy ===== *)
theory Spec2Isabelle
  imports Ring_Spsc Host_Manifest Host_Replay Sdk_Host Agent_Leg Agent_Gate
begin

text \<open>
  \<^bold>\<open>Verification of the detguest guest SDK.\<close>

  The program lets software inside a deterministic virtual machine talk to the host through one shared page of
  2 MiB. Four crates under \<^verbatim>\<open>src/crates\<close> carry its logic and are modelled here:

  \<^item> \<^verbatim>\<open>detguest-wire\<close>: the layout of the page and of everything on it: port numbers, the channel header, four byte
    rings, their records, the region manifest and the datagrams of the region service;
  \<^item> \<^verbatim>\<open>detguest-host\<close>: the host library. It attaches to the page through an abstract guest memory, drains rings A and W,
    pushes onto rings C and I, answers injection queries, reads regions and records all it does for replay;
  \<^item> \<^verbatim>\<open>detguest-sdk\<close>: the library of the workload. It emits assertions, beacons, log lines and queries on ring W, parks
    while quiesced, and registers memory regions with the agent;
  \<^item> \<^verbatim>\<open>detguest-agent\<close>: PID 1 of the guest. It initialises the page, reads the boot configuration, starts and supervises
    the workload, serves region registrations over a socket, writes the manifest, executes the commands of ring C and
    reports on ring A.

  The parts interact through the page only: ring A (agent to host), ring W (workload to host), ring C (host to agent),
  ring I (host and agent to workload), the manifest (agent to host), through the doorbell port, on which the host
  drains, and through the sockets between workload and agent.

  \<^bold>\<open>Theories and sources.\<close> A definition bears the name of the function, type or constant it translates, prefixed by the
  type or part where a name would clash (\<open>RegionEntry_write_to\<close>, \<open>agent_emit\<close>, \<open>sdk_push_event\<close>).

  \<^item> \<open>Prelude\<close>: results with errors and panics (\<open>res\<close>), little-endian bytes, slices that panic outside their buffer,
    \<open>patch\<close>, checked and saturating arithmetic; \<open>Btree_Map\<close>: ordered maps; \<open>Utf8_Lossy\<close>: lossy decoding.
  \<^item> \<open>Wire_Ports\<close>, \<open>Wire_Record\<close>, \<open>Wire_Events\<close>, \<open>Wire_Ring\<close>, \<open>Wire_Header\<close>, \<open>Wire_Manifest\<close>, \<open>Wire_Regionipc\<close>: one per file of
    the wire crate. \<open>Ring_Fifo\<close> and \<open>Ring_Spsc\<close> are the theory of its rings: schedules of whole operations and
    interleavings of single actions with stale index snapshots. \<open>Page_Ring\<close> places a ring on the page.
  \<^item> \<open>Host_Guestmem\<close>, \<open>Host_Channel\<close>, \<open>Host_Commands\<close>, \<open>Host_Drain\<close>, \<open>Host_Inject\<close>, \<open>Host_Manifest\<close>, \<open>Host_Replay\<close>: one per file of the
    host crate.
  \<^item> \<open>Sdk_Intern\<close> (intern.rs), \<open>Sdk_Stats\<close> (beacons.rs, stats\_region.rs), \<open>Sdk_Channel\<close> (channel.rs, pio.rs), \<open>Sdk_Regions\<close>
    (regions.rs, agent\_client.rs), \<open>Sdk_State\<close> (lib.rs, inject.rs); \<open>Sdk_Quiesce\<close> holds the liveness of parking, \<open>Sdk_Spec\<close> the
    history-based specification of the API and its refinement, \<open>Sdk_Host\<close> the composition of SDK and host library.
  \<^item> \<open>Agent_Monad\<close>: actions with state, errors, panics and divergence, and the total-correctness calculus \<open>ends\<close>.
    \<open>Agent_Text\<close>: decimal and ASCII text of log lines.
  \<^item> \<open>Agent_Translate\<close> (translate.rs), \<open>Agent_Channel\<close> (channel.rs, pio.rs), \<open>Agent_Manifest\<close> and \<open>Agent_Regions\<close> (region\_ipc.rs),
    \<open>Agent_Lines\<close> (the line buffer of supervise.rs), \<open>Agent_Toml\<close> and \<open>Agent_Boot\<close> (boot.rs), \<open>Agent_Control\<close> (control.rs),
    \<open>Agent_Pvblk\<close> (pvblk.rs), \<open>Agent_Supervise\<close> (supervise.rs, commands.rs), \<open>Agent_Runtime\<close> (runtime.rs, lib.rs).
  \<^item> What the agent guarantees: \<open>Agent_Ledger\<close>, \<open>Agent_Service\<close>, \<open>Agent_Requests\<close>, \<open>Agent_Sockets\<close> (ledger and manifest agree),
    \<open>Agent_Relay\<close> (ring I), \<open>Agent_Readable\<close> (regions at the other end), \<open>Agent_Leg\<close> (the control leg), \<open>Agent_Game\<close> (the game
    image), \<open>Agent_Duty\<close> and \<open>Agent_Commands\<close> (supervision), \<open>Agent_Gate\<close> (Ready), with \<open>Agent_Fixture\<close> and \<open>Agent_Promises\<close> for
    the instances on a small world.

  \<^bold>\<open>State and effects.\<close> Structs are records, enums datatypes, integers words of their width. The page is a list of bytes
  and every access goes through it at its offset, so that the two ends of a ring meet in the same bytes. A function
  that may fail returns \<open>Ok\<close>, \<open>Err\<close> or \<open>Panic\<close>; an index outside a slice, a failed \<open>expect\<close> and an assertion that is
  compiled in are \<open>Panic\<close>. The model is the release build: \<open>debug_assert\<close> is absent and arithmetic wraps where the source does not
  check it. One such assertion lies on bytes the guest writes, the alignment of record positions in the host's drain loop; it is
  the predicate \<open>events_asserts\<close>, shown to hold for aligned consumer indices and to fail for a misaligned one. What is not Rust code of the repository is an environment: a record of operations on a world of arbitrary
  type (port instructions, sockets, processes, pipes, signals, epoll, clock, files, device registers, page maps), with
  what the code relies on stated as hypotheses such as \<open>agent_served\<close> (the host drains ring A after finitely many doorbells),
  \<open>sock_ok\<close> (a connection or a non-empty datagram handed out is no longer pending; a closed peer may read as empty for ever), \<open>spawns\<close>, \<open>piped\<close>, or as the assumptions of the locales
  \<open>guest_memory\<close>, \<open>pv_blk_device\<close> and \<open>image_file\<close>; each is shown to hold of a concrete world.

  \<^bold>\<open>Interfaces.\<close> \<open>slot_store\<close> (entries and extents of the manifest), \<open>record_codec\<close> and \<open>ring_codec\<close> (events, commands and
  control records), \<open>record_queue\<close> (a ring as a queue), \<open>guest_memory\<close> (memory of the guest, on the segment list),
  \<open>ordered_map\<close>, \<open>recording_plan\<close> (fault plans), \<open>slot_table\<close> (published counters), \<open>block_device\<close> (on the mapped
  registers), \<open>image_file\<close> and \<open>image_copy\<close>.

  \<^bold>\<open>What the theorems show.\<close>

  \<^item> Records and rings: encoding is total with exact errors and decodes to the clipped event; decoding and popping never
    panic and never leave the buffer on arbitrary bytes; a ring is a FIFO under every schedule and every interleaving.
  \<^item> Host: draining delivers exactly the queued events and, on any page a guest can write, never panics in a release build and
    writes only its indices; pushing does what the producer half does and, on any page, performs exactly the stores of pad, record
    and index; the manifest is read exactly when it is quiescent
    and parses; checkpoints round-trip; replaying a trace reproduces memory and trace; recorded decisions replay.
  \<^item> SDK: any sequence of calls refines the specification, critical events are published, parked workloads
    wait for their resume record and then resume, names are interned one to one; with the host on the other end, events arrive and injection points return the
    decision of the plan.
  \<^item> Agent: a fresh page satisfies all invariants; emission is exact; registrations, re-verification and every pass of the
    service keep ledger and manifest in agreement and end, re-verification doing what its specification on the ledger computes; a registered region is readable by the host byte for byte;
    the boot configuration that is accepted is well formed and every text is answered; the control leg exchanges exactly its
    protocol and completes with a timely harness; the game image is copied exactly; commands do exactly what they say, on every
    field, system call, ring and event; what the agent emits is on ring A or counted in the drop counters (\<open>sent\<close>), so that
    an exit loses no output silently; \<open>Ready\<close> is sent only when every expected region is live, and then exactly as announced.

  \<^bold>\<open>Loops, bounds and fuel.\<close> Loops over data are structural or have a measure (\<open>build_loop\<close>, \<open>prefault\<close>, \<open>poll_ring\<close>,
  \<open>poll_commands\<close>, \<open>push_loop\<close>, \<open>parse_items\<close>, \<open>push_varint\<close>, \<open>varint_loop\<close>, \<open>full_pages\<close>, which ends at the cap). Loops the source bounds
  keep the bound: 64 seqlock retries of the host, 1024 of the agent, 600 wakeups of a control reply and of the region gate, four
  connections. Loops that wait for a peer are partial functions whose \<open>None\<close> is divergence: \<open>emit_critical\<close>, \<open>emit_loop\<close>,
  \<open>park_loop\<close>, \<open>state_quiesce_check\<close>, \<open>accept_pending\<close>, \<open>serve_conn\<close>, \<open>verify_loop\<close>, \<open>await_reply\<close> and \<open>drain_pipe_loop\<close> are shown to return
  under the hypotheses above; for \<open>reap\<close>, \<open>boot_epoll\<close>, \<open>command_loop\<close> and \<open>supervise_run\<close>, which by design run as long as the guest,
  no termination is claimed. There is no other fuel.

  \<^bold>\<open>Not modelled.\<close> Memory ordering: fences and atomic orderings, beyond the interleavings of \<open>Ring_Spsc\<close>; a manifest copy of the
  agent sees one state of the area, since only the agent writes it. The texts of errors, of which the constructors keep
  the cause (\<open>refusal\<close>, alarms and breadcrumbs, which reach the host, are modelled). Sequences of system calls without
  logic of their own: mounting, standard streams, console, powering off, creating the page, the sockets, the signal, timer and
  epoll descriptors, what the child does between fork and exec. The statistics region's byte layout, which the compiler
  fixes. \<^verbatim>\<open>m0-proto-client\<close> is a placeholder; the virtual machine tests, fuzz targets and tools are outside.
\<close>

end
